(* ===== verification/LinkedList.thy ===== *)
theory LinkedList
  imports Prelude
begin

unbundle bit_operations_syntax

text \<open>
  \<open>list.h\<close>: the intrusive, circular, doubly linked list that the configuration
  store and the timers are built on. A \<open>struct list_head\<close> is an address of an
  arbitrary type; the heap maps each address to its two pointers, \<open>None\<close> being
  the null pointer. Every operation is the sequence of pointer stores of the C
  code; an operation that would dereference a null pointer is \<open>None\<close>.

  The abstraction predicate \<open>dlist h hd xs\<close> says that the nodes \<open>xs\<close> hang on
  the head \<open>hd\<close> in this order. Each operation is proved to refine the list
  operation its comment promises, and to leave every other address alone.
\<close>

section \<open>The heap and the pointer operations\<close>

record 'a list_heap =
  nxt :: "'a \<Rightarrow> 'a option"
  prv :: "'a \<Rightarrow> 'a option"

definition set_next :: "'a \<Rightarrow> 'a option \<Rightarrow> 'a list_heap \<Rightarrow> 'a list_heap" where
  "set_next p v h = h\<lparr>nxt := (nxt h)(p := v)\<rparr>"

definition set_prev :: "'a \<Rightarrow> 'a option \<Rightarrow> 'a list_heap \<Rightarrow> 'a list_heap" where
  "set_prev p v h = h\<lparr>prv := (prv h)(p := v)\<rparr>"

definition INIT_LIST_HEAD :: "'a \<Rightarrow> 'a list_heap \<Rightarrow> 'a list_heap" where
  "INIT_LIST_HEAD p h = set_prev p (Some p) (set_next p (Some p) h)"

definition list_add_between :: "'a \<Rightarrow> 'a \<Rightarrow> 'a \<Rightarrow> 'a list_heap \<Rightarrow> 'a list_heap" where
  "list_add_between new prev next h =
     set_next prev (Some new)
       (set_prev new (Some prev)
         (set_next new (Some next)
           (set_prev next (Some new) h)))"

definition list_add :: "'a \<Rightarrow> 'a \<Rightarrow> 'a list_heap \<Rightarrow> 'a list_heap option" where
  "list_add new head h = do {
     n \<leftarrow> nxt h head;
     Some (list_add_between new head n h) }"

definition list_add_tail :: "'a \<Rightarrow> 'a \<Rightarrow> 'a list_heap \<Rightarrow> 'a list_heap option" where
  "list_add_tail new head h = do {
     p \<leftarrow> prv h head;
     Some (list_add_between new p head h) }"

definition list_del_between :: "'a \<Rightarrow> 'a \<Rightarrow> 'a list_heap \<Rightarrow> 'a list_heap" where
  "list_del_between prev next h = set_next prev (Some next) (set_prev next (Some prev) h)"

definition list_del :: "'a \<Rightarrow> 'a list_heap \<Rightarrow> 'a list_heap option" where
  "list_del entry h = do {
     p \<leftarrow> prv h entry;
     n \<leftarrow> nxt h entry;
     Some (set_prev entry None (set_next entry None (list_del_between p n h))) }"

definition list_del_init :: "'a \<Rightarrow> 'a list_heap \<Rightarrow> 'a list_heap option" where
  "list_del_init entry h = do {
     p \<leftarrow> prv h entry;
     n \<leftarrow> nxt h entry;
     Some (INIT_LIST_HEAD entry (list_del_between p n h)) }"

definition list_move :: "'a \<Rightarrow> 'a \<Rightarrow> 'a list_heap \<Rightarrow> 'a list_heap option" where
  "list_move entry head h = do {
     p \<leftarrow> prv h entry;
     n \<leftarrow> nxt h entry;
     list_add entry head (list_del_between p n h) }"

definition list_move_tail :: "'a \<Rightarrow> 'a \<Rightarrow> 'a list_heap \<Rightarrow> 'a list_heap option" where
  "list_move_tail entry head h = do {
     p \<leftarrow> prv h entry;
     n \<leftarrow> nxt h entry;
     list_add_tail entry head (list_del_between p n h) }"

definition list_empty :: "'a \<Rightarrow> 'a list_heap \<Rightarrow> bool" where
  "list_empty head h = (nxt h head = Some head)"

definition list_splice_nonempty :: "'a \<Rightarrow> 'a \<Rightarrow> 'a list_heap \<Rightarrow> 'a list_heap option" where
  "list_splice_nonempty list head h = do {
     first \<leftarrow> nxt h list;
     last \<leftarrow> prv h list;
     at \<leftarrow> nxt h head;
     Some (set_prev at (Some last)
            (set_next last (Some at)
              (set_next head (Some first)
                (set_prev first (Some head) h)))) }"

definition list_splice :: "'a \<Rightarrow> 'a \<Rightarrow> 'a list_heap \<Rightarrow> 'a list_heap option" where
  "list_splice list head h =
     (if \<not> list_empty list h then list_splice_nonempty list head h else Some h)"

definition list_splice_init :: "'a \<Rightarrow> 'a \<Rightarrow> 'a list_heap \<Rightarrow> 'a list_heap option" where
  "list_splice_init list head h =
     (if \<not> list_empty list h
      then do { h' \<leftarrow> list_splice_nonempty list head h; Some (INIT_LIST_HEAD list h') }
      else Some h)"


section \<open>Walking a list\<close>

text \<open>
  The macros \<open>list_for_each\<close> and \<open>list_for_each_entry\<close> (a node, then the node its
  \<open>next\<close> pointer leads to once the body has run), \<open>list_for_each_prev\<close> and
  \<open>list_for_each_safe\<close> (the successor is read before the body runs). The body may
  change the heap, so none of these loops need end: they are partial functions, and
  \<open>None\<close> also stands for a walk that never comes back to the head. \<open>hp\<close> reads the
  list heap out of the state the body works on. \<open>__builtin_prefetch\<close> is defined away
  by the header itself.
\<close>

partial_function (option) list_for_each ::
  "('s \<Rightarrow> 'a list_heap) \<Rightarrow> ('a \<Rightarrow> 's \<Rightarrow> 's option) \<Rightarrow> 'a \<Rightarrow> 'a \<Rightarrow> 's \<Rightarrow> 's option" where
  "list_for_each hp body head pos s =
     (if pos = head then Some s
      else do {
        s' \<leftarrow> body pos s;
        n \<leftarrow> nxt (hp s') pos;
        list_for_each hp body head n s' })"

partial_function (option) list_for_each_prev ::
  "('s \<Rightarrow> 'a list_heap) \<Rightarrow> ('a \<Rightarrow> 's \<Rightarrow> 's option) \<Rightarrow> 'a \<Rightarrow> 'a \<Rightarrow> 's \<Rightarrow> 's option" where
  "list_for_each_prev hp body head pos s =
     (if pos = head then Some s
      else do {
        s' \<leftarrow> body pos s;
        n \<leftarrow> prv (hp s') pos;
        list_for_each_prev hp body head n s' })"

partial_function (option) list_for_each_safe_from ::
  "('s \<Rightarrow> 'a list_heap) \<Rightarrow> ('a \<Rightarrow> 's \<Rightarrow> 's option) \<Rightarrow> 'a \<Rightarrow> 'a \<Rightarrow> 'a \<Rightarrow> 's \<Rightarrow> 's option" where
  "list_for_each_safe_from hp body head pos n s =
     (if pos = head then Some s
      else do {
        s' \<leftarrow> body pos s;
        n' \<leftarrow> nxt (hp s') n;
        list_for_each_safe_from hp body head n n' s' })"

definition list_for_each_safe ::
  "('s \<Rightarrow> 'a list_heap) \<Rightarrow> ('a \<Rightarrow> 's \<Rightarrow> 's option) \<Rightarrow> 'a \<Rightarrow> 's \<Rightarrow> 's option" where
  "list_for_each_safe hp body head s = do {
     pos \<leftarrow> nxt (hp s) head;
     n \<leftarrow> nxt (hp s) pos;
     list_for_each_safe_from hp body head pos n s }"

section \<open>Doubly linked circular lists\<close>

fun links :: "'a list_heap \<Rightarrow> 'a list \<Rightarrow> bool" where
  "links h (a # b # r) \<longleftrightarrow> nxt h a = Some b \<and> prv h b = Some a \<and> links h (b # r)"
| "links h _ \<longleftrightarrow> True"

definition dlist :: "'a list_heap \<Rightarrow> 'a \<Rightarrow> 'a list \<Rightarrow> bool" where
  "dlist h r xs \<longleftrightarrow> distinct (r # xs) \<and> links h (r # xs @ [r])"

text \<open>Two heaps that agree outside a set of addresses.\<close>

definition heap_eq_outside :: "'a set \<Rightarrow> 'a list_heap \<Rightarrow> 'a list_heap \<Rightarrow> bool" where
  "heap_eq_outside A h h' \<longleftrightarrow> (\<forall>p. p \<notin> A \<longrightarrow> nxt h' p = nxt h p \<and> prv h' p = prv h p)"

lemma nxt_set [simp]:
  "nxt (set_next p v h) = (nxt h)(p := v)" "nxt (set_prev p v h) = nxt h"
  "prv (set_next p v h) = prv h" "prv (set_prev p v h) = (prv h)(p := v)"
  by (simp_all add: set_next_def set_prev_def)

lemmas [heap_simps] = INIT_LIST_HEAD_def list_add_between_def list_del_between_def

lemma links_append:
  "links h (us @ vs) \<longleftrightarrow>
     links h us \<and> links h vs \<and>
     (us = [] \<or> vs = [] \<or>
      nxt h (last us) = Some (hd vs) \<and> prv h (hd vs) = Some (last us))"
proof (induction us)
  case Nil
  then show ?case by simp
next
  case (Cons u us)
  then show ?case by (cases us; cases vs) auto
qed

lemma links_frame:
  assumes "\<And>p. p \<in> set (butlast ps) \<Longrightarrow> nxt h' p = nxt h p"
    and "\<And>p. p \<in> set (tl ps) \<Longrightarrow> prv h' p = prv h p"
  shows "links h' ps = links h ps"
  using assms
proof (induction h ps rule: links.induct)
  case (1 h a b r)
  have "links h' (b # r) = links h (b # r)"
    by (rule "1.IH") (use "1.prems" in \<open>auto split: if_splits dest: in_set_butlastD\<close>)
  then show ?case using "1.prems" by simp
qed auto

lemma dlist_distinct: "dlist h r xs \<Longrightarrow> distinct xs" "dlist h r xs \<Longrightarrow> r \<notin> set xs"
  by (auto simp: dlist_def)

lemma dlist_frame:
  assumes "\<And>p. p \<in> set (r # xs) \<Longrightarrow> nxt h' p = nxt h p \<and> prv h' p = prv h p"
  shows "dlist h' r xs = dlist h r xs"
proof -
  have "links h' (r # xs @ [r]) = links h (r # xs @ [r])"
    by (rule links_frame) (use assms in \<open>auto simp: butlast_append split: if_splits\<close>)
  then show ?thesis by (simp add: dlist_def)
qed

lemma dlist_outside:
  assumes "heap_eq_outside A h h'" and "A \<inter> set (r # xs) = {}"
  shows "dlist h' r xs = dlist h r xs"
  by (rule dlist_frame) (use assms in \<open>auto simp: heap_eq_outside_def\<close>)

lemma heap_eq_outside_trans:
  "heap_eq_outside A h h' \<Longrightarrow> heap_eq_outside B h' h'' \<Longrightarrow> heap_eq_outside (A \<union> B) h h''"
  by (auto simp: heap_eq_outside_def)

lemma heap_eq_outside_mono: "heap_eq_outside A h h' \<Longrightarrow> A \<subseteq> B \<Longrightarrow> heap_eq_outside B h h'"
  by (auto simp: heap_eq_outside_def)

lemma dlist_ends:
  assumes "dlist h r xs"
  shows "nxt h r = Some (case xs of [] \<Rightarrow> r | x # _ \<Rightarrow> x)"
    and "prv h r = Some (last (r # xs))"
  using assms links_append [of h "r # xs" "[r]"]
  by (auto simp: dlist_def split: list.splits)

lemma dlist_split:
  assumes "dlist h r (ys @ zs)"
  shows "links h (r # ys)" "links h (zs @ [r])"
    "nxt h (last (r # ys)) = Some (hd (zs @ [r]))"
    "prv h (hd (zs @ [r])) = Some (last (r # ys))"
  using assms links_append [of h "r # ys" "zs @ [r]"]
  by (auto simp: dlist_def)

lemma dlist_joinI:
  assumes "distinct (r # ys @ zs)" "links h (r # ys)" "links h (zs @ [r])"
    and "nxt h (last (r # ys)) = Some (hd (zs @ [r]))"
    and "prv h (hd (zs @ [r])) = Some (last (r # ys))"
  shows "dlist h r (ys @ zs)"
  using assms links_append [of h "r # ys" "zs @ [r]"] by (simp add: dlist_def)

section \<open>The operations refine list operations\<close>

lemma INIT_LIST_HEAD_dlist: "dlist (INIT_LIST_HEAD p h) p []"
  by (simp add: dlist_def heap_simps)

lemma INIT_LIST_HEAD_outside: "heap_eq_outside {p} h (INIT_LIST_HEAD p h)"
  by (simp add: heap_eq_outside_def heap_simps)

lemma last_notin_butlast: "distinct xs \<Longrightarrow> xs \<noteq> [] \<Longrightarrow> last xs \<notin> set (butlast xs)"
  by (metis append_butlast_last_id distinct_append insert_iff list.simps(15) disjoint_iff)

lemma hd_notin_tl: "distinct xs \<Longrightarrow> hd xs \<notin> set (tl xs) \<or> xs = []"
  by (cases xs) auto

lemma list_add_between_dlist:
  assumes "dlist h r (ys @ zs)" and "new \<notin> set (r # ys @ zs)"
  shows "dlist (list_add_between new (last (r # ys)) (hd (zs @ [r])) h) r (ys @ new # zs)"
proof (rule dlist_joinI)
  let ?p = "last (r # ys)" and ?n = "hd (zs @ [r])"
  let ?h = "list_add_between new ?p ?n h"
  have d: "distinct (r # ys @ zs)" using assms(1) by (simp add: dlist_def)
  have p: "?p \<in> set (r # ys)" by (rule last_in_set) simp
  have n: "?n \<in> set (zs @ [r])" by (cases zs) auto
  have ne: "new \<noteq> ?p" "new \<noteq> ?n" using p n assms(2) by auto
  have pb: "?p \<notin> set (butlast (r # ys))" by (rule last_notin_butlast) (use d in auto)
  have nb: "?n \<notin> set ys" using n d by (cases zs) auto
  have nt: "?n \<notin> set (tl (zs @ [r]))" using d by (cases zs) auto
  have pz: "?p \<notin> set zs" using p d by auto
  have newt: "new \<notin> set (tl (zs @ [r]))" using assms(2) by (cases zs) auto
  show "distinct (r # ys @ new # zs)" using d assms(2) by auto
  show "links ?h (r # ys)"
    using dlist_split(1) [OF assms(1)] pb nb ne assms(2)
    by (subst links_frame [where h = h])
       (auto simp: heap_simps split: if_splits dest: in_set_butlastD)
  have "links ?h (zs @ [r])"
    using dlist_split(2) [OF assms(1)] nt pz ne newt assms(2)
    by (subst links_frame [where h = h])
       (auto simp: heap_simps butlast_append split: if_splits dest: in_set_butlastD list.set_sel(2))
  then show "links ?h ((new # zs) @ [r])"
    using ne by (cases zs) (auto simp: heap_simps)
  show "nxt ?h ?p = Some (hd ((new # zs) @ [r]))"
    using ne by (simp add: heap_simps)
  show "prv ?h (hd ((new # zs) @ [r])) = Some ?p"
    using ne by (simp add: heap_simps)
qed

lemma list_del_between_dlist:
  assumes "dlist h r (ys @ x # zs)"
  shows "dlist (list_del_between (last (r # ys)) (hd (zs @ [r])) h) r (ys @ zs)"
    and "prv h x = Some (last (r # ys))" "nxt h x = Some (hd (zs @ [r]))"
proof -
  let ?p = "last (r # ys)" and ?n = "hd (zs @ [r])"
  let ?h = "list_del_between ?p ?n h"
  have d: "distinct (r # ys @ x # zs)" using assms by (simp add: dlist_def)
  have s: "links h (r # ys)" "links h ((x # zs) @ [r])" "nxt h ?p = Some x" "prv h x = Some ?p"
    using dlist_split [OF assms] by auto
  have s2: "links h (zs @ [r])" "nxt h x = Some ?n" "prv h ?n = Some x"
    using s(2) links_append [of h "[x]" "zs @ [r]"] by auto
  show "prv h x = Some ?p" "nxt h x = Some ?n" by (fact s(4), fact s2(2))
  have p: "?p \<in> set (r # ys)" by (rule last_in_set) simp
  have n: "?n \<in> set (zs @ [r])" by (cases zs) auto
  have pb: "?p \<notin> set (butlast (r # ys))" by (rule last_notin_butlast) (use d in auto)
  have nb: "?n \<notin> set ys" using n d by (cases zs) auto
  have nt: "?n \<notin> set (tl (zs @ [r]))" using d by (cases zs) auto
  have pz: "?p \<notin> set zs" using p d by auto
  show "dlist ?h r (ys @ zs)"
  proof (rule dlist_joinI)
    show "distinct (r # ys @ zs)" using d by auto
    show "links ?h (r # ys)"
      using s(1) pb nb
      by (subst links_frame [where h = h])
         (auto simp: heap_simps split: if_splits dest: in_set_butlastD)
    show "links ?h (zs @ [r])"
      using s2(1) nt pz
      by (subst links_frame [where h = h])
         (auto simp: heap_simps butlast_append split: if_splits dest: in_set_butlastD list.set_sel(2))
    show "nxt ?h ?p = Some ?n" "prv ?h ?n = Some ?p"
      by (simp_all add: heap_simps)
  qed
qed

text \<open>
  A client owns the addresses of a list (its head and its nodes); an operation on the
  list touches nothing else.
\<close>

lemma hd_in_ring: "hd (zs @ [r]) \<in> set (r # zs)"
  by (cases zs) auto

lemma last_in_ring: "last (r # ys) \<in> set (r # ys)"
  by (rule last_in_set) simp

lemma list_add_spec:
  assumes "dlist h r xs" and "new \<notin> set (r # xs)"
  shows "\<exists>h'. list_add new r h = Some h' \<and> dlist h' r (new # xs) \<and>
    heap_eq_outside (insert new (set (r # xs))) h h'"
proof -
  have n: "nxt h r = Some (hd (xs @ [r]))" using dlist_ends(1) [OF assms(1)] by (cases xs) auto
  let ?h = "list_add_between new r (hd (xs @ [r])) h"
  have "dlist ?h r ([] @ new # xs)"
    using list_add_between_dlist [of h r "[]" xs new] assms by simp
  moreover have "heap_eq_outside (insert new (set (r # xs))) h ?h"
    using hd_in_ring [of xs r] by (auto simp: heap_eq_outside_def heap_simps)
  ultimately show ?thesis by (simp add: list_add_def n)
qed

lemma list_add_tail_spec:
  assumes "dlist h r xs" and "new \<notin> set (r # xs)"
  shows "\<exists>h'. list_add_tail new r h = Some h' \<and> dlist h' r (xs @ [new]) \<and>
    heap_eq_outside (insert new (set (r # xs))) h h'"
proof -
  have p: "prv h r = Some (last (r # xs))" using dlist_ends(2) [OF assms(1)] .
  let ?h = "list_add_between new (last (r # xs)) r h"
  have "dlist ?h r (xs @ new # [])"
    using list_add_between_dlist [of h r xs "[]" new] assms by simp
  moreover have "heap_eq_outside (insert new (set (r # xs))) h ?h"
    using last_in_ring [of r xs] by (auto simp: heap_eq_outside_def heap_simps)
  ultimately show ?thesis by (simp add: list_add_tail_def p)
qed

lemma in_dlist_split:
  assumes "dlist h r xs" "x \<in> set xs"
  obtains ys zs where "xs = ys @ x # zs" "x \<notin> set (r # ys @ zs)" "remove1 x xs = ys @ zs"
proof -
  from assms(2) obtain ys zs where xs: "xs = ys @ x # zs" and "x \<notin> set ys"
    by (meson split_list_first)
  with assms(1) show ?thesis
    by (intro that [of ys zs]) (auto simp: dlist_def remove1_append)
qed

lemma list_del_spec:
  assumes "dlist h r xs" and "x \<in> set xs"
  shows "\<exists>h'. list_del x h = Some h' \<and> dlist h' r (remove1 x xs) \<and>
    nxt h' x = None \<and> prv h' x = None \<and> heap_eq_outside (set (r # xs)) h h'"
proof -
  obtain ys zs where xs: "xs = ys @ x # zs" "x \<notin> set (r # ys @ zs)" "remove1 x xs = ys @ zs"
    using in_dlist_split [OF assms] .
  note d = list_del_between_dlist [OF assms(1) [unfolded xs(1)]]
  let ?h = "list_del_between (last (r # ys)) (hd (zs @ [r])) h"
  have "dlist (set_prev x None (set_next x None ?h)) r (ys @ zs)"
    using d(1) xs(2) by (subst dlist_frame [where h = ?h]) auto
  moreover have "heap_eq_outside (set (r # xs)) h (set_prev x None (set_next x None ?h))"
    using last_in_ring [of r ys] hd_in_ring [of zs r] xs(1)
    by (auto simp: heap_eq_outside_def heap_simps)
  ultimately show ?thesis by (simp add: list_del_def d(2,3) xs(3))
qed

lemma list_del_init_spec:
  assumes "dlist h r xs" and "x \<in> set xs"
  shows "\<exists>h'. list_del_init x h = Some h' \<and> dlist h' r (remove1 x xs) \<and>
    dlist h' x [] \<and> heap_eq_outside (set (r # xs)) h h'"
proof -
  obtain ys zs where xs: "xs = ys @ x # zs" "x \<notin> set (r # ys @ zs)" "remove1 x xs = ys @ zs"
    using in_dlist_split [OF assms] .
  note d = list_del_between_dlist [OF assms(1) [unfolded xs(1)]]
  let ?h = "list_del_between (last (r # ys)) (hd (zs @ [r])) h"
  have "dlist (INIT_LIST_HEAD x ?h) r (ys @ zs)"
    using d(1) xs(2) by (subst dlist_outside [OF INIT_LIST_HEAD_outside]) auto
  moreover have "heap_eq_outside (set (r # xs)) h (INIT_LIST_HEAD x ?h)"
    using last_in_ring [of r ys] hd_in_ring [of zs r] xs(1)
    by (auto simp: heap_eq_outside_def heap_simps)
  ultimately show ?thesis
    by (simp add: list_del_init_def d(2,3) xs(3) INIT_LIST_HEAD_dlist)
qed

text \<open>
  Moving a node: unlinked from the list it is on, then linked at the other head, whose
  list is a different one. The two rings must not share addresses.
\<close>

lemma list_del_between_outside:
  "heap_eq_outside {p, n} h (list_del_between p n h)"
  by (auto simp: heap_eq_outside_def heap_simps)

lemma unlink_for_move:
  assumes "dlist h r xs" "x \<in> set xs" "dlist h q zs" "set (r # xs) \<inter> set (q # zs) = {}"
  obtains p n where "prv h x = Some p" "nxt h x = Some n"
    "dlist (list_del_between p n h) r (remove1 x xs)"
    "dlist (list_del_between p n h) q zs"
    "heap_eq_outside (set (r # xs)) h (list_del_between p n h)"
proof -
  obtain ys ws where xs: "xs = ys @ x # ws" "x \<notin> set (r # ys @ ws)" "remove1 x xs = ys @ ws"
    using in_dlist_split [OF assms(1,2)] .
  note d = list_del_between_dlist [OF assms(1) [unfolded xs(1)]]
  let ?p = "last (r # ys)" and ?n = "hd (ws @ [r])"
  have o: "heap_eq_outside (set (r # xs)) h (list_del_between ?p ?n h)"
    by (rule heap_eq_outside_mono [OF list_del_between_outside])
       (use last_in_ring [of r ys] hd_in_ring [of ws r] xs(1) in auto)
  show thesis
    using that [OF d(2) d(3)] d(1) xs(3) o dlist_outside [OF o assms(4)] assms(3) by simp
qed

lemma list_move_tail_spec:
  assumes "dlist h r xs" "x \<in> set xs" "dlist h q zs" "set (r # xs) \<inter> set (q # zs) = {}"
  shows "\<exists>h'. list_move_tail x q h = Some h' \<and> dlist h' r (remove1 x xs) \<and>
    dlist h' q (zs @ [x]) \<and> heap_eq_outside (set (r # xs) \<union> set (q # zs)) h h'"
proof -
  obtain p n where u: "prv h x = Some p" "nxt h x = Some n"
    "dlist (list_del_between p n h) r (remove1 x xs)"
    "dlist (list_del_between p n h) q zs"
    "heap_eq_outside (set (r # xs)) h (list_del_between p n h)"
    using unlink_for_move [OF assms] .
  have "x \<notin> set (q # zs)" using assms(2,4) by auto
  from list_add_tail_spec [OF u(4) this] obtain h' where h':
    "list_add_tail x q (list_del_between p n h) = Some h'" "dlist h' q (zs @ [x])"
    "heap_eq_outside (insert x (set (q # zs))) (list_del_between p n h) h'"
    by blast
  have "insert x (set (q # zs)) \<inter> set (r # remove1 x xs) = {}"
    using assms dlist_distinct [OF assms(1)] by (auto dest: in_set_remove1 [THEN iffD1, rotated] notin_set_remove1)
  with h'(3) u(3) have "dlist h' r (remove1 x xs)" by (simp add: dlist_outside)
  moreover have "heap_eq_outside (set (r # xs) \<union> set (q # zs)) h h'"
    using heap_eq_outside_trans [OF u(5) h'(3)] assms(2)
    by (elim heap_eq_outside_mono) auto
  ultimately show ?thesis using h'(1,2) u(1,2) by (simp add: list_move_tail_def)
qed

lemma list_move_spec:
  assumes "dlist h r xs" "x \<in> set xs" "dlist h q zs" "set (r # xs) \<inter> set (q # zs) = {}"
  shows "\<exists>h'. list_move x q h = Some h' \<and> dlist h' r (remove1 x xs) \<and>
    dlist h' q (x # zs) \<and> heap_eq_outside (set (r # xs) \<union> set (q # zs)) h h'"
proof -
  obtain p n where u: "prv h x = Some p" "nxt h x = Some n"
    "dlist (list_del_between p n h) r (remove1 x xs)"
    "dlist (list_del_between p n h) q zs"
    "heap_eq_outside (set (r # xs)) h (list_del_between p n h)"
    using unlink_for_move [OF assms] .
  have "x \<notin> set (q # zs)" using assms(2,4) by auto
  from list_add_spec [OF u(4) this] obtain h' where h':
    "list_add x q (list_del_between p n h) = Some h'" "dlist h' q (x # zs)"
    "heap_eq_outside (insert x (set (q # zs))) (list_del_between p n h) h'"
    by blast
  have "insert x (set (q # zs)) \<inter> set (r # remove1 x xs) = {}"
    using assms dlist_distinct [OF assms(1)] by (auto dest: in_set_remove1 [THEN iffD1, rotated] notin_set_remove1)
  with h'(3) u(3) have "dlist h' r (remove1 x xs)" by (simp add: dlist_outside)
  moreover have "heap_eq_outside (set (r # xs) \<union> set (q # zs)) h h'"
    using heap_eq_outside_trans [OF u(5) h'(3)] assms(2)
    by (elim heap_eq_outside_mono) auto
  ultimately show ?thesis using h'(1,2) u(1,2) by (simp add: list_move_def)
qed

lemma list_empty_iff: "dlist h r xs \<Longrightarrow> list_empty r h \<longleftrightarrow> xs = []"
  using dlist_ends(1) [of h r xs] by (auto simp: list_empty_def dlist_def split: list.splits)

section \<open>Joining two lists\<close>

lemma list_splice_nonempty_spec:
  assumes "dlist h l xs" "xs \<noteq> []" "dlist h r ys" "set (l # xs) \<inter> set (r # ys) = {}"
  shows "\<exists>h'. list_splice_nonempty l r h = Some h' \<and> dlist h' r (xs @ ys) \<and>
    heap_eq_outside (set xs \<union> set (r # ys)) h h'"
proof -
  let ?f = "hd xs" and ?l = "last xs" and ?a = "hd (ys @ [r])"
  have f: "nxt h l = Some ?f" "prv h l = Some ?l"
    using dlist_ends [OF assms(1)] assms(2) by (auto split: list.splits)
  have a: "nxt h r = Some ?a" using dlist_ends(1) [OF assms(3)] by (cases ys) auto
  let ?h = "set_prev ?a (Some ?l) (set_next ?l (Some ?a) (set_next r (Some ?f) (set_prev ?f (Some r) h)))"
  have d: "distinct (l # xs)" "distinct (r # ys)" using assms(1,3) by (simp_all add: dlist_def)
  have m: "?f \<in> set xs" "?l \<in> set xs" "?a \<in> set (r # ys)" using assms(2) hd_in_ring [of ys r] by auto
  have x: "links h xs"
    using dlist_split(2) [of h l "[]" xs] assms(1) links_append [of h xs "[l]"] by simp
  have y: "links h (ys @ [r])" using dlist_split(2) [of h r "[]" ys] assms(3) by simp
  have lb: "?l \<notin> set (butlast xs)" using last_notin_butlast d assms(2) by fastforce
  have ft: "?f \<notin> set (tl xs)" using hd_notin_tl d assms(2) by fastforce
  have at: "?a \<notin> set (tl (ys @ [r]))" using d by (cases ys) auto
  have ty: "p \<in> set (tl (ys @ [r])) \<Longrightarrow> p \<in> set (r # ys)" for p by (cases ys) auto
  have tx: "p \<in> set (tl xs) \<Longrightarrow> p \<in> set xs" for p by (cases xs) auto
  have lx: "links ?h xs"
  proof (subst links_frame [where h = h])
    show "nxt ?h p = nxt h p" if "p \<in> set (butlast xs)" for p
      using in_set_butlastD [OF that] that lb assms(4) by auto
    show "prv ?h p = prv h p" if "p \<in> set (tl xs)" for p
      using tx [OF that] that ft m assms(4) by (metis disjoint_iff fun_upd_apply list.set_intros(2) nxt_set(3,4))
  qed (rule x)
  have ly: "links ?h (ys @ [r])"
  proof (subst links_frame [where h = h])
    show "nxt ?h p = nxt h p" if "p \<in> set (butlast (ys @ [r]))" for p
      using that m assms(4) d by auto
    show "prv ?h p = prv h p" if "p \<in> set (tl (ys @ [r]))" for p
      using ty [OF that] that at m assms(4) by (metis disjoint_iff fun_upd_apply list.set_intros(2) nxt_set(3,4))
  qed (rule y)
  have n: "?l \<noteq> r" "?a \<noteq> ?f" using m assms(4) by auto
  have "dlist ?h r (xs @ ys)"
  proof (rule dlist_joinI)
    show "distinct (r # xs @ ys)" using d assms(4) by auto
    show "links ?h (r # xs)" using lx n assms(2) by (cases xs) auto
    show "nxt ?h (last (r # xs)) = Some ?a" "prv ?h ?a = Some (last (r # xs))"
      using n assms(2) by auto
  qed (rule ly)
  moreover have "heap_eq_outside (set xs \<union> set (r # ys)) h ?h"
    using m by (auto simp: heap_eq_outside_def)
  ultimately show ?thesis by (simp add: list_splice_nonempty_def f a)
qed

lemma list_splice_spec:
  assumes "dlist h l xs" "dlist h r ys" "set (l # xs) \<inter> set (r # ys) = {}"
  shows "\<exists>h'. list_splice l r h = Some h' \<and> dlist h' r (xs @ ys)"
  using list_splice_nonempty_spec [OF assms(1) _ assms(2,3)] list_empty_iff [OF assms(1)] assms(2)
  by (cases "xs = []") (auto simp: list_splice_def)

lemma list_splice_init_spec:
  assumes "dlist h l xs" "dlist h r ys" "set (l # xs) \<inter> set (r # ys) = {}"
  shows "\<exists>h'. list_splice_init l r h = Some h' \<and> dlist h' r (xs @ ys) \<and> dlist h' l []"
proof (cases "xs = []")
  case True
  with assms list_empty_iff [OF assms(1)] show ?thesis by (simp add: list_splice_init_def)
next
  case False
  from list_splice_nonempty_spec [OF assms(1) False assms(2,3)] obtain h' where h':
    "list_splice_nonempty l r h = Some h'" "dlist h' r (xs @ ys)" by blast
  have "{l} \<inter> set (r # xs @ ys) = {}" using assms(3) dlist_distinct [OF assms(1)] by auto
  then have "dlist (INIT_LIST_HEAD l h') r (xs @ ys)"
    using h'(2) dlist_outside [OF INIT_LIST_HEAD_outside] by metis
  with h'(1) False list_empty_iff [OF assms(1)] show ?thesis
    by (simp add: list_splice_init_def INIT_LIST_HEAD_dlist)
qed

section \<open>Rules for the loops\<close>

fun chain :: "'a list_heap \<Rightarrow> 'a list \<Rightarrow> bool" where
  "chain h (a # b # r) \<longleftrightarrow> nxt h a = Some b \<and> chain h (b # r)"
| "chain h _ \<longleftrightarrow> True"

lemma links_chain: "links h xs \<Longrightarrow> chain h xs"
  by (induction h xs rule: links.induct) auto

lemma dlist_chain: "dlist h r (ys @ zs) \<Longrightarrow> chain h (zs @ [r])"
  using dlist_split(2) by (rule links_chain)

lemma list_for_each_rule:
  assumes start: "I xs s"
    and step: "\<And>x rest s. I (x # rest) s \<Longrightarrow>
      \<exists>s'. body x s = Some s' \<and> I rest s' \<and> nxt (hp s') x = Some (hd (rest @ [r]))"
    and fresh: "r \<notin> set xs"
  shows "\<exists>s'. list_for_each hp body r (hd (xs @ [r])) s = Some s' \<and> I [] s'"
  using start fresh
proof (induction xs arbitrary: s)
  case Nil
  then show ?case by (simp add: list_for_each.simps)
next
  case (Cons x rest)
  from step [OF Cons.prems(1)] obtain s' where s':
    "body x s = Some s'" "I rest s'" "nxt (hp s') x = Some (hd (rest @ [r]))" by blast
  with Cons.IH [OF s'(2)] Cons.prems(2) show ?case
    by (auto simp: list_for_each.simps [of hp body r x s])
qed

lemma list_for_each_prev_rule:
  assumes start: "I xs s"
    and step: "\<And>x rest s. I (x # rest) s \<Longrightarrow>
      \<exists>s'. body x s = Some s' \<and> I rest s' \<and> prv (hp s') x = Some (hd (rest @ [r]))"
    and fresh: "r \<notin> set xs"
  shows "\<exists>s'. list_for_each_prev hp body r (hd (xs @ [r])) s = Some s' \<and> I [] s'"
  using start fresh
proof (induction xs arbitrary: s)
  case Nil
  then show ?case by (simp add: list_for_each_prev.simps)
next
  case (Cons x rest)
  from step [OF Cons.prems(1)] obtain s' where s':
    "body x s = Some s'" "I rest s'" "prv (hp s') x = Some (hd (rest @ [r]))" by blast
  with Cons.IH [OF s'(2)] Cons.prems(2) show ?case
    by (auto simp: list_for_each_prev.simps [of hp body r x s])
qed

text \<open>
  The safe loop needs the chain of the nodes still to come, and the head's own \<open>next\<close>
  pointer, which the macro reads once more at the very end.
\<close>

lemma list_for_each_safe_from_rule:
  assumes start: "I xs s"
    and step: "\<And>x rest s. I (x # rest) s \<Longrightarrow> \<exists>s'. body x s = Some s' \<and> I rest s'"
    and walk: "\<And>rest s. I rest s \<Longrightarrow> chain (hp s) (rest @ [r]) \<and> nxt (hp s) r \<noteq> None"
    and fresh: "r \<notin> set xs"
    and n: "xs \<noteq> [] \<Longrightarrow> n = hd (tl xs @ [r])"
  shows "\<exists>s'. list_for_each_safe_from hp body r (hd (xs @ [r])) n s = Some s' \<and> I [] s'"
  using start fresh n
proof (induction xs arbitrary: s n)
  case Nil
  then show ?case by (simp add: list_for_each_safe_from.simps)
next
  case (Cons x rest)
  from step [OF Cons.prems(1)] obtain s' where s': "body x s = Some s'" "I rest s'" by blast
  have n: "n = hd (rest @ [r])" using Cons.prems(3) by simp
  obtain n' where n': "nxt (hp s') n = Some n'" "rest \<noteq> [] \<Longrightarrow> n' = hd (tl rest @ [r])"
  proof (cases rest)
    case Nil
    then show thesis using walk [OF s'(2)] n that by auto
  next
    case (Cons y ys)
    then show thesis using walk [OF s'(2)] n that by (cases ys) auto
  qed
  from Cons.IH [OF s'(2) _ n'(2)] Cons.prems(2) show ?case
    using list_for_each_safe_from.simps [of hp body r x n s] s'(1) n'(1) by (auto simp: n)
qed

lemma list_for_each_safe_rule:
  assumes start: "I xs s"
    and step: "\<And>x rest s. I (x # rest) s \<Longrightarrow> \<exists>s'. body x s = Some s' \<and> I rest s'"
    and walk: "\<And>rest s. I rest s \<Longrightarrow> chain (hp s) (rest @ [r]) \<and> nxt (hp s) r \<noteq> None"
    and head: "dlist (hp s) r xs"
  shows "\<exists>s'. list_for_each_safe hp body r s = Some s' \<and> I [] s'"
proof -
  have r: "r \<notin> set xs" using dlist_distinct [OF head] by simp
  have p: "nxt (hp s) r = Some (hd (xs @ [r]))" using dlist_ends(1) [OF head] by (cases xs) auto
  obtain n where n: "nxt (hp s) (hd (xs @ [r])) = Some n" "xs \<noteq> [] \<Longrightarrow> n = hd (tl xs @ [r])"
  proof (cases xs)
    case Nil
    then show thesis using p that by auto
  next
    case (Cons y ys)
    then show thesis using dlist_chain [of _ _ "[]" xs] head that by (cases ys) auto
  qed
  show ?thesis
    using list_for_each_safe_from_rule [of I xs s body hp r n, OF start step walk r n(2)]
    by (simp add: list_for_each_safe_def p n(1))
qed

text \<open>Walking a list forwards collects its nodes in order, backwards in reverse.\<close>

definition list_nodes :: "'a \<Rightarrow> 'a list_heap \<Rightarrow> 'a list option" where
  "list_nodes r h = do {
     p \<leftarrow> nxt h r;
     (h', acc) \<leftarrow> list_for_each fst (\<lambda>x (h, acc). Some (h, acc @ [x])) r p (h, []);
     Some acc }"

definition list_nodes_prev :: "'a \<Rightarrow> 'a list_heap \<Rightarrow> 'a list option" where
  "list_nodes_prev r h = do {
     p \<leftarrow> prv h r;
     (h', acc) \<leftarrow> list_for_each_prev fst (\<lambda>x (h, acc). Some (h, acc @ [x])) r p (h, []);
     Some acc }"

lemma links_rev_prv: "links h (xs @ [a, b]) \<Longrightarrow> prv h b = Some a"
  using links_append [of h xs "[a, b]"] by auto

lemma list_nodes_dlist:
  assumes "dlist h r xs"
  shows "list_nodes r h = Some xs"
proof -
  let ?I = "\<lambda>rest (h', acc). h' = h \<and> xs = acc @ rest"
  have "\<exists>s'. list_for_each fst (\<lambda>x (h, acc). Some (h, acc @ [x])) r (hd (xs @ [r])) (h, []) = Some s' \<and> ?I [] s'"
  proof (rule list_for_each_rule)
    show "?I xs (h, [])" by simp
    show "r \<notin> set xs" using dlist_distinct [OF assms] by simp
    fix x rest s assume "?I (x # rest) s"
    then obtain acc where "s = (h, acc)" "xs = acc @ x # rest" by (cases s) auto
    moreover from this have "nxt h x = Some (hd (rest @ [r]))"
      using dlist_chain [of h r acc "x # rest"] assms by (cases rest) auto
    ultimately show "\<exists>s'. (\<lambda>(h, acc). Some (h, acc @ [x])) s = Some s' \<and> ?I rest s' \<and>
        nxt (fst s') x = Some (hd (rest @ [r]))" by auto
  qed
  then show ?thesis
    using dlist_ends(1) [OF assms] by (cases xs) (auto simp: list_nodes_def)
qed

lemma list_nodes_prev_dlist:
  assumes "dlist h r xs"
  shows "list_nodes_prev r h = Some (rev xs)"
proof -
  let ?I = "\<lambda>rest (h', acc). h' = h \<and> rev xs = acc @ rest"
  have "\<exists>s'. list_for_each_prev fst (\<lambda>x (h, acc). Some (h, acc @ [x])) r (hd (rev xs @ [r])) (h, []) = Some s' \<and> ?I [] s'"
  proof (rule list_for_each_prev_rule)
    show "?I (rev xs) (h, [])" by simp
    show "r \<notin> set (rev xs)" using dlist_distinct [OF assms] by simp
    fix x rest s assume "?I (x # rest) s"
    then obtain acc where "s = (h, acc)" "rev xs = acc @ x # rest" by (cases s) auto
    note s = this
    have xs: "xs = rev rest @ x # rev acc"
      using arg_cong [where f = rev, OF s(2)] by simp
    have "prv h x = Some (last (r # rev rest))"
      using list_del_between_dlist(2) [of h r "rev rest" x "rev acc"] assms xs by simp
    moreover have "last (r # rev rest) = hd (rest @ [r])" by (cases rest) (auto simp: last_rev)
    ultimately show "\<exists>s'. (\<lambda>(h, acc). Some (h, acc @ [x])) s = Some s' \<and> ?I rest s' \<and>
        prv (fst s') x = Some (hd (rest @ [r]))" using s by auto
  qed
  moreover have "prv h r = Some (hd (rev xs @ [r]))"
    using dlist_ends(2) [OF assms] by (cases xs rule: rev_cases) auto
  ultimately show ?thesis by (auto simp: list_nodes_prev_def)
qed

section \<open>The interface a client relies on\<close>

text \<open>
  A client of the list keeps several rings over one heap, with no address on two of
  them. All it needs is that linking appends to one ring, unlinking removes from one
  ring, and neither is felt by a ring over other addresses.
\<close>

definition apart :: "'a set \<Rightarrow> ('a \<Rightarrow> 'a list) \<Rightarrow> bool" where
  "apart Q f \<longleftrightarrow> (\<forall>p\<in>Q. \<forall>q\<in>Q. p \<noteq> q \<longrightarrow> set (p # f p) \<inter> set (q # f q) = {})"

definition used :: "'a set \<Rightarrow> ('a \<Rightarrow> 'a list) \<Rightarrow> 'a set" where
  "used Q f = (\<Union>q\<in>Q. set (q # f q))"

lemma apartD: "apart Q f \<Longrightarrow> p \<in> Q \<Longrightarrow> q \<in> Q \<Longrightarrow> p \<noteq> q \<Longrightarrow> set (p # f p) \<inter> set (q # f q) = {}"
  unfolding apart_def by blast

lemma apart_upd:
  assumes "apart Q f" and "\<And>p. p \<in> Q \<Longrightarrow> p \<noteq> q \<Longrightarrow> set (q # ys) \<inter> set (p # f p) = {}"
  shows "apart Q (f(q := ys))"
  unfolding apart_def
proof (intro ballI impI)
  fix a b assume "a \<in> Q" "b \<in> Q" "a \<noteq> b"
  then show "set (a # (f(q := ys)) a) \<inter> set (b # (f(q := ys)) b) = {}"
    using assms(2) [of a] assms(2) [of b] apartD [OF assms(1), of a b]
    by (cases "a = q"; cases "b = q") (auto simp: Int_commute)
qed

lemma in_set_remove1D: "x \<in> set (remove1 y xs) \<Longrightarrow> x \<in> set xs"
  by (metis notin_set_remove1)

locale ring_ops =
  fixes ring :: "'h \<Rightarrow> 'a \<Rightarrow> 'a list \<Rightarrow> bool"
    and link :: "'a \<Rightarrow> 'a \<Rightarrow> 'h \<Rightarrow> 'h option"
    and unlink :: "'a \<Rightarrow> 'h \<Rightarrow> 'h option"
    and same_outside :: "'a set \<Rightarrow> 'h \<Rightarrow> 'h \<Rightarrow> bool"
  assumes ring_distinct: "ring h r xs \<Longrightarrow> distinct (r # xs)"
    and link_law: "ring h r xs \<Longrightarrow> x \<notin> set (r # xs) \<Longrightarrow>
      \<exists>h'. link x r h = Some h' \<and> ring h' r (xs @ [x]) \<and>
        same_outside (insert x (set (r # xs))) h h'"
    and unlink_law: "ring h r xs \<Longrightarrow> x \<in> set xs \<Longrightarrow>
      \<exists>h'. unlink x h = Some h' \<and> ring h' r (remove1 x xs) \<and>
        same_outside (set (r # xs)) h h'"
    and frame_law: "same_outside A h h' \<Longrightarrow> A \<inter> set (r # xs) = {} \<Longrightarrow>
      ring h r xs \<Longrightarrow> ring h' r xs"
begin

definition rings :: "'h \<Rightarrow> 'a set \<Rightarrow> ('a \<Rightarrow> 'a list) \<Rightarrow> bool" where
  "rings h Q f \<longleftrightarrow> (\<forall>q\<in>Q. ring h q (f q)) \<and> apart Q f"

lemma ringsD: "rings h Q f \<Longrightarrow> q \<in> Q \<Longrightarrow> ring h q (f q)"
  by (simp add: rings_def)

lemma rings_update:
  assumes "rings h Q f" "q \<in> Q" "ring h' q ys" "same_outside A h h'"
    and "set (q # ys) \<subseteq> A" "\<And>p. p \<in> Q \<Longrightarrow> p \<noteq> q \<Longrightarrow> A \<inter> set (p # f p) = {}"
  shows "rings h' Q (f(q := ys))"
proof -
  have "ring h' p (f p)" if "p \<in> Q" "p \<noteq> q" for p
    by (rule frame_law [OF assms(4) assms(6) ringsD [OF assms(1)]]) (use that in auto)
  moreover have "apart Q (f(q := ys))"
  proof (rule apart_upd)
    show "apart Q f" using assms(1) by (simp add: rings_def)
    show "set (q # ys) \<inter> set (p # f p) = {}" if "p \<in> Q" "p \<noteq> q" for p
      using assms(5) assms(6) [OF that] by blast
  qed
  ultimately show ?thesis using assms(3) by (simp add: rings_def)
qed

lemma link_rings:
  assumes "rings h Q f" "q \<in> Q" "x \<notin> used Q f"
  shows "\<exists>h'. link x q h = Some h' \<and> rings h' Q (f(q := f q @ [x]))"
proof -
  have x: "x \<notin> set (p # f p)" if "p \<in> Q" for p using assms(3) that by (auto simp: used_def)
  from link_law [OF ringsD [OF assms(1,2)] x [OF assms(2)]] obtain h' where h':
    "link x q h = Some h'" "ring h' q (f q @ [x])" "same_outside (insert x (set (q # f q))) h h'"
    by blast
  have "insert x (set (q # f q)) \<inter> set (p # f p) = {}" if "p \<in> Q" "p \<noteq> q" for p
    using x [OF that(1)] apartD [of Q f q p] assms(1,2) that by (auto simp: rings_def)
  then have "rings h' Q (f(q := f q @ [x]))"
    by (intro rings_update [OF assms(1,2) h'(2,3)]) auto
  with h'(1) show ?thesis by blast
qed

lemma unlink_rings:
  assumes "rings h Q f" "q \<in> Q" "x \<in> set (f q)"
  shows "\<exists>h'. unlink x h = Some h' \<and> rings h' Q (f(q := remove1 x (f q)))"
proof -
  from unlink_law [OF ringsD [OF assms(1,2)] assms(3)] obtain h' where h':
    "unlink x h = Some h'" "ring h' q (remove1 x (f q))" "same_outside (set (q # f q)) h h'"
    by blast
  have "set (q # f q) \<inter> set (p # f p) = {}" if "p \<in> Q" "p \<noteq> q" for p
    using apartD [of Q f q p] assms(1,2) that by (auto simp: rings_def)
  then have "rings h' Q (f(q := remove1 x (f q)))"
    by (intro rings_update [OF assms(1,2) h'(2,3)]) (auto dest: in_set_remove1D)
  with h'(1) show ?thesis by blast
qed

lemma unlinked_unused:
  assumes "rings h Q f" "q \<in> Q" "x \<in> set (f q)"
  shows "x \<notin> used Q (f(q := remove1 x (f q)))"
proof -
  have "x \<notin> set (q # remove1 x (f q))"
    using ring_distinct [OF ringsD [OF assms(1,2)]] assms(3) by auto
  moreover have "x \<notin> set (p # f p)" if "p \<in> Q" "p \<noteq> q" for p
    using apartD [of Q f q p] assms that by (auto simp: rings_def)
  ultimately show ?thesis by (auto simp: used_def)
qed

text \<open>Unlinking a node and linking it again, at the tail of any ring, the same one included.\<close>

lemma transfer_rings:
  assumes "rings h Q f" "q \<in> Q" "x \<in> set (f q)" "r \<in> Q"
  shows "\<exists>h1 h2. unlink x h = Some h1 \<and> link x r h1 = Some h2 \<and>
    rings h2 Q ((f(q := remove1 x (f q)))(r := (f(q := remove1 x (f q))) r @ [x]))"
proof -
  from unlink_rings [OF assms(1-3)] obtain h1 where h1:
    "unlink x h = Some h1" "rings h1 Q (f(q := remove1 x (f q)))" by blast
  from link_rings [OF h1(2) assms(4) unlinked_unused [OF assms(1-3)]] h1(1)
  show ?thesis by blast
qed

end

lemma dlist_frame_outside:
  "heap_eq_outside A h h' \<Longrightarrow> A \<inter> set (r # xs) = {} \<Longrightarrow> dlist h r xs \<Longrightarrow> dlist h' r xs"
  by (simp add: dlist_outside)

lemma dlist_distinct_all: "dlist h r xs \<Longrightarrow> distinct (r # xs)"
  by (simp add: dlist_def)

interpretation del_ring: ring_ops dlist list_add_tail list_del heap_eq_outside
  by unfold_locales
    (fact dlist_distinct_all list_add_tail_spec dlist_frame_outside | drule (1) list_del_spec, blast)+

interpretation del_init_ring: ring_ops dlist list_add_tail list_del_init heap_eq_outside
  by unfold_locales
    (fact dlist_distinct_all list_add_tail_spec dlist_frame_outside | drule (1) list_del_init_spec, blast)+


text \<open>
  Moving is unlinking and linking again: the node's two fields, which \<open>list_del\<close> clears,
  are written before anybody reads them.
\<close>

lemma list_move_as_transfer:
  assumes "dlist h q xs" "x \<in> set xs" "r \<noteq> x"
  shows "list_move_tail x r h = Option.bind (list_del x h) (list_add_tail x r)"
    and "list_move x r h = Option.bind (list_del x h) (list_add x r)"
proof -
  obtain ys zs where xs: "xs = ys @ x # zs" "x \<notin> set (q # ys @ zs)"
    using in_dlist_split [OF assms(1,2)] by metis
  note d = list_del_between_dlist [OF assms(1) [unfolded xs(1)]]
  have ne: "last (q # ys) \<noteq> x" "hd (zs @ [q]) \<noteq> x"
    using xs(2) last_in_ring [of q ys] hd_in_ring [of zs q] by auto
  let ?h = "list_del_between (last (q # ys)) (hd (zs @ [q])) h"
  have ends: "prv (set_prev x None (set_next x None ?h)) r = prv ?h r"
    "nxt (set_prev x None (set_next x None ?h)) r = nxt ?h r" using assms(3) by simp_all
  have eq: "list_add_between x a b (set_prev x None (set_next x None ?h)) = list_add_between x a b ?h" for a b
    by (auto simp: list_add_between_def set_next_def set_prev_def fun_upd_twist intro!: list_heap.equality)
  have del: "list_del x h = Some (set_prev x None (set_next x None ?h))"
    by (simp add: list_del_def d(2,3))
  show "list_move_tail x r h = Option.bind (list_del x h) (list_add_tail x r)"
    unfolding del list_move_tail_def d(2,3) bind.simps list_add_tail_def ends eq ..
  show "list_move x r h = Option.bind (list_del x h) (list_add x r)"
    unfolding del list_move_def d(2,3) bind.simps list_add_def ends eq ..
qed

text \<open>\<open>list_add\<close> appends to the list read backwards.\<close>

lemma remove1_rev_distinct: "distinct xs \<Longrightarrow> remove1 x (rev xs) = rev (remove1 x xs)"
  by (simp add: distinct_remove1_removeAll removeAll_filter_not_eq rev_filter)

interpretation add_ring: ring_ops "\<lambda>h r xs. dlist h r (rev xs)" list_add list_del heap_eq_outside
proof unfold_locales
  fix h and r :: 'a and xs
  assume d: "dlist h r (rev xs)"
  show "distinct (r # xs)" using dlist_distinct_all [OF d] by simp
  show "\<exists>h'. list_add x r h = Some h' \<and> dlist h' r (rev (xs @ [x])) \<and>
      heap_eq_outside (insert x (set (r # xs))) h h'" if "x \<notin> set (r # xs)" for x
    using list_add_spec [OF d, of x] that by simp
  show "\<exists>h'. list_del x h = Some h' \<and> dlist h' r (rev (remove1 x xs)) \<and>
      heap_eq_outside (set (r # xs)) h h'" if "x \<in> set xs" for x
    using list_del_spec [OF d, of x] that dlist_distinct(1) [OF d]
    by (fastforce simp: remove1_rev_distinct)
qed (simp add: dlist_outside)

lemma rings_rev: "add_ring.rings h Q (rev \<circ> f) \<longleftrightarrow> del_ring.rings h Q f"
  by (simp add: add_ring.rings_def del_ring.rings_def apart_def)

lemma rings_on:
  assumes "del_ring.rings h Q f" "\<And>q. q \<in> Q \<Longrightarrow> g q = f q"
  shows "del_ring.rings h Q g"
  using assms by (simp add: del_ring.rings_def apart_def)

section \<open>Programs over several lists\<close>

text \<open>
  The operations of the header as a program runs them, over any number of lists that
  share no node, and what each of them does to the sequences of nodes. A deletion and a
  move name the node only, as in the code: the list it is on is found through its links.
\<close>

datatype 'a list_op =
  Add 'a 'a | AddTail 'a 'a | Del 'a | DelInit 'a | Move 'a 'a | MoveTail 'a 'a | SpliceInit 'a 'a

fun list_exec :: "'a list_op \<Rightarrow> 'a list_heap \<Rightarrow> 'a list_heap option" where
  "list_exec (Add x r) h = list_add x r h"
| "list_exec (AddTail x r) h = list_add_tail x r h"
| "list_exec (Del x) h = list_del x h"
| "list_exec (DelInit x) h = list_del_init x h"
| "list_exec (Move x r) h = list_move x r h"
| "list_exec (MoveTail x r) h = list_move_tail x r h"
| "list_exec (SpliceInit l r) h = list_splice_init l r h"

fun seq_exec :: "'a list_op \<Rightarrow> ('a \<Rightarrow> 'a list) \<Rightarrow> 'a \<Rightarrow> 'a list" where
  "seq_exec (Add x r) f = f(r := x # f r)"
| "seq_exec (AddTail x r) f = f(r := f r @ [x])"
| "seq_exec (Del x) f = (\<lambda>q. remove1 x (f q))"
| "seq_exec (DelInit x) f = (\<lambda>q. remove1 x (f q))"
| "seq_exec (Move x r) f = (\<lambda>q. (if q = r then [x] else []) @ remove1 x (f q))"
| "seq_exec (MoveTail x r) f = (\<lambda>q. remove1 x (f q) @ (if q = r then [x] else []))"
| "seq_exec (SpliceInit l r) f = f(r := f l @ f r, l := [])"

fun op_allowed :: "'a set \<Rightarrow> ('a \<Rightarrow> 'a list) \<Rightarrow> 'a list_op \<Rightarrow> bool" where
  "op_allowed Q f (Add x r) \<longleftrightarrow> r \<in> Q \<and> x \<notin> used Q f"
| "op_allowed Q f (AddTail x r) \<longleftrightarrow> r \<in> Q \<and> x \<notin> used Q f"
| "op_allowed Q f (Del x) \<longleftrightarrow> (\<exists>q \<in> Q. x \<in> set (f q))"
| "op_allowed Q f (DelInit x) \<longleftrightarrow> (\<exists>q \<in> Q. x \<in> set (f q))"
| "op_allowed Q f (Move x r) \<longleftrightarrow> r \<in> Q \<and> (\<exists>q \<in> Q. x \<in> set (f q))"
| "op_allowed Q f (MoveTail x r) \<longleftrightarrow> r \<in> Q \<and> (\<exists>q \<in> Q. x \<in> set (f q))"
| "op_allowed Q f (SpliceInit l r) \<longleftrightarrow> l \<in> Q \<and> r \<in> Q \<and> l \<noteq> r"

fun list_run :: "'a list_op list \<Rightarrow> 'a list_heap \<Rightarrow> 'a list_heap option" where
  "list_run [] h = Some h"
| "list_run (p # ps) h = Option.bind (list_exec p h) (list_run ps)"

fun run_allowed :: "'a set \<Rightarrow> ('a \<Rightarrow> 'a list) \<Rightarrow> 'a list_op list \<Rightarrow> bool" where
  "run_allowed Q f [] \<longleftrightarrow> True"
| "run_allowed Q f (p # ps) \<longleftrightarrow> op_allowed Q f p \<and> run_allowed Q (seq_exec p f) ps"

definition seq_run :: "'a list_op list \<Rightarrow> ('a \<Rightarrow> 'a list) \<Rightarrow> 'a \<Rightarrow> 'a list" where
  "seq_run ps f = fold seq_exec ps f"

lemma node_on_one_ring:
  assumes "del_ring.rings h Q f" "q \<in> Q" "x \<in> set (f q)" "p \<in> Q" "p \<noteq> q"
  shows "x \<notin> set (f p)"
  using apartD [of Q f p q] assms by (auto simp: del_ring.rings_def)

lemma node_not_head:
  assumes "del_ring.rings h Q f" "q \<in> Q" "x \<in> set (f q)" "r \<in> Q"
  shows "r \<noteq> x"
proof (cases "r = q")
  case True
  then show ?thesis using dlist_distinct(2) [OF del_ring.ringsD [OF assms(1,2)]] assms(3) by auto
next
  case False
  then show ?thesis using apartD [of Q f r q] assms by (auto simp: del_ring.rings_def)
qed

lemma remove1_rings:
  assumes "del_ring.rings h Q f" "q \<in> Q" "x \<in> set (f q)"
    and "del_ring.rings h' Q (f(q := remove1 x (f q)))"
  shows "del_ring.rings h' Q (\<lambda>q. remove1 x (f q))"
  by (rule rings_on [OF assms(4)])
    (use node_on_one_ring [OF assms(1-3)] in \<open>auto simp: remove1_idem\<close>)

lemma list_exec_del:
  assumes "del_ring.rings h Q f" "q \<in> Q" "x \<in> set (f q)"
  shows "\<exists>h'. list_del x h = Some h' \<and> del_ring.rings h' Q (\<lambda>q. remove1 x (f q)) \<and>
    x \<notin> used Q (\<lambda>q. remove1 x (f q))"
proof -
  from del_ring.unlink_rings [OF assms] obtain h' where
    h': "list_del x h = Some h'" "del_ring.rings h' Q (f(q := remove1 x (f q)))" by blast
  have "set (p # remove1 x (f p)) = set (p # (f(q := remove1 x (f q))) p)" if "p \<in> Q" for p
    using node_on_one_ring [OF assms that] by (simp add: remove1_idem)
  then have "used Q (\<lambda>q. remove1 x (f q)) = used Q (f(q := remove1 x (f q)))"
    unfolding used_def by (rule SUP_cong [OF refl])
  with h' remove1_rings [OF assms h'(2)] del_ring.unlinked_unused [OF assms] show ?thesis by auto
qed

lemma list_exec_add:
  assumes "del_ring.rings h Q f" "r \<in> Q" "x \<notin> used Q f"
  shows "\<exists>h'. list_add x r h = Some h' \<and> del_ring.rings h' Q (f(r := x # f r))"
proof -
  have "add_ring.rings h Q (rev \<circ> f)" "x \<notin> used Q (rev \<circ> f)"
    using assms by (simp_all add: rings_rev used_def)
  from add_ring.link_rings [OF this(1) assms(2) this(2)] obtain h' where
    h': "list_add x r h = Some h'" "add_ring.rings h' Q ((rev \<circ> f)(r := (rev \<circ> f) r @ [x]))" by blast
  have "(rev \<circ> f)(r := (rev \<circ> f) r @ [x]) = rev \<circ> (f(r := x # f r))" by auto
  with h' show ?thesis by (simp add: rings_rev)
qed

lemma list_splice_init_outside:
  assumes "dlist h l xs" "dlist h r ys" "set (l # xs) \<inter> set (r # ys) = {}"
  shows "\<exists>h'. list_splice_init l r h = Some h' \<and> heap_eq_outside (set (l # xs) \<union> set (r # ys)) h h'"
proof (cases "xs = []")
  case True
  then show ?thesis using list_empty_iff [OF assms(1)] by (simp add: list_splice_init_def heap_eq_outside_def)
next
  case False
  from list_splice_nonempty_spec [OF assms(1) False assms(2,3)] obtain h' where h':
    "list_splice_nonempty l r h = Some h'" "heap_eq_outside (set xs \<union> set (r # ys)) h h'" by blast
  have "heap_eq_outside (set (l # xs) \<union> set (r # ys)) h (INIT_LIST_HEAD l h')"
    using h'(2) INIT_LIST_HEAD_outside [of l h'] by (auto simp: heap_eq_outside_def)
  with h'(1) False list_empty_iff [OF assms(1)] show ?thesis by (simp add: list_splice_init_def)
qed

lemma list_exec_splice:
  assumes "del_ring.rings h Q f" "l \<in> Q" "r \<in> Q" "l \<noteq> r"
  shows "\<exists>h'. list_splice_init l r h = Some h' \<and> del_ring.rings h' Q (f(r := f l @ f r, l := []))"
proof -
  note d = del_ring.ringsD [OF assms(1,2)] del_ring.ringsD [OF assms(1,3)]
  have apart: "apart Q f" using assms(1) by (simp add: del_ring.rings_def)
  have lr: "set (l # f l) \<inter> set (r # f r) = {}" using apartD [OF apart assms(2-4)] .
  from list_splice_init_spec [OF d lr] list_splice_init_outside [OF d lr] obtain h' where h':
    "list_splice_init l r h = Some h'" "dlist h' r (f l @ f r)" "dlist h' l []"
    "heap_eq_outside (set (l # f l) \<union> set (r # f r)) h h'" by auto
  have other: "(set (l # f l) \<union> set (r # f r)) \<inter> set (p # f p) = {}" if "p \<in> Q" "p \<noteq> l" "p \<noteq> r" for p
    using apartD [OF apart assms(2) that(1)] apartD [OF apart assms(3) that(1)] that by auto
  have keep: "dlist h' p (f p)" if "p \<in> Q" "p \<noteq> l" "p \<noteq> r" for p
    using dlist_frame_outside [OF h'(4) other [OF that] del_ring.ringsD [OF assms(1) that(1)]] .
  have "apart Q (f(l := []))"
    using other by (intro apart_upd [OF apart]) (use apartD [OF apart assms(2)] in fastforce)
  then have "apart Q (f(l := [], r := f l @ f r))"
    by (rule apart_upd) (use other lr assms(4) dlist_distinct(2) [OF d(1)] in \<open>auto split: if_splits\<close>)
  moreover have "f(l := [], r := f l @ f r) = f(r := f l @ f r, l := [])"
    using assms(4) by (rule fun_upd_twist)
  ultimately show ?thesis using h'(1-3) keep by (auto simp: del_ring.rings_def)
qed

lemma list_exec_step:
  assumes "del_ring.rings h Q f" "op_allowed Q f p"
  shows "\<exists>h'. list_exec p h = Some h' \<and> del_ring.rings h' Q (seq_exec p f)"
proof (cases p)
  case (Add x r)
  with list_exec_add [OF assms(1)] assms(2) show ?thesis by simp
next
  case (AddTail x r)
  with del_ring.link_rings [OF assms(1)] assms(2) show ?thesis by simp
next
  case (Del x)
  with list_exec_del [OF assms(1)] assms(2) show ?thesis by auto
next
  case (DelInit x)
  then obtain q where q: "q \<in> Q" "x \<in> set (f q)" using assms(2) by auto
  from del_init_ring.unlink_rings [of h Q f q x] assms(1) q remove1_rings [OF assms(1) q]
  show ?thesis by (auto simp: DelInit del_ring.rings_def del_init_ring.rings_def)
next
  case (Move x r)
  then obtain q where q: "r \<in> Q" "q \<in> Q" "x \<in> set (f q)" using assms(2) by auto
  let ?g = "\<lambda>q. remove1 x (f q)"
  have g: "seq_exec p f = ?g(r := x # ?g r)" by (auto simp: Move)
  from list_exec_del [OF assms(1) q(2,3)] list_exec_add [of _ Q ?g, OF _ q(1), of _ x]
  show ?thesis unfolding g
    using list_move_as_transfer(2) [OF del_ring.ringsD [OF assms(1) q(2)] q(3) node_not_head [OF assms(1) q(2,3,1)]]
    by (auto simp: Move)
next
  case (MoveTail x r)
  then obtain q where q: "r \<in> Q" "q \<in> Q" "x \<in> set (f q)" using assms(2) by auto
  let ?g = "\<lambda>q. remove1 x (f q)"
  have g: "seq_exec p f = ?g(r := ?g r @ [x])" by (auto simp: MoveTail)
  from list_exec_del [OF assms(1) q(2,3)] del_ring.link_rings [of _ Q ?g, OF _ q(1), of _ x]
  show ?thesis unfolding g
    using list_move_as_transfer(1) [OF del_ring.ringsD [OF assms(1) q(2)] q(3) node_not_head [OF assms(1) q(2,3,1)]]
    by (auto simp: MoveTail)
next
  case (SpliceInit l r)
  with list_exec_splice [OF assms(1)] assms(2) show ?thesis by simp
qed

lemma list_run_rings:
  "del_ring.rings h Q f \<Longrightarrow> run_allowed Q f ps \<Longrightarrow>
    \<exists>h'. list_run ps h = Some h' \<and> del_ring.rings h' Q (seq_run ps f)"
proof (induction ps arbitrary: h f)
  case (Cons p ps)
  from list_exec_step [OF Cons.prems(1), of p] Cons.prems(2) obtain h1 where
    "list_exec p h = Some h1" "del_ring.rings h1 Q (seq_exec p f)" by auto
  with Cons.IH [of h1 "seq_exec p f"] Cons.prems(2) show ?case by (auto simp: seq_run_def)
qed (simp add: seq_run_def)

text \<open>The lists as \<open>INIT_LIST_HEAD\<close> leaves them.\<close>

definition init_heads :: "'a list \<Rightarrow> 'a list_heap \<Rightarrow> 'a list_heap" where
  "init_heads rs h = fold INIT_LIST_HEAD rs h"

lemma init_heads_fields:
  "nxt (init_heads rs h) r = (if r \<in> set rs then Some r else nxt h r) \<and>
   prv (init_heads rs h) r = (if r \<in> set rs then Some r else prv h r)"
proof (induction rs arbitrary: h)
  case (Cons q rs)
  have "init_heads (q # rs) h = init_heads rs (INIT_LIST_HEAD q h)" by (simp add: init_heads_def)
  then show ?case using Cons by (simp add: INIT_LIST_HEAD_def)
qed (simp add: init_heads_def)

lemma init_heads_rings: "del_ring.rings (init_heads rs h) (set rs) (\<lambda>_. [])"
  using init_heads_fields [of rs h] by (simp add: del_ring.rings_def apart_def dlist_def)

section \<open>Properties\<close>

text \<open>
  C8: over lists that \<open>INIT_LIST_HEAD\<close> set up, every program of insertions, deletions,
  moves (between lists or within one) and splices that names nodes where they are and
  heads that exist runs without touching a null pointer, and afterwards a forward walk of
  every list visits exactly the nodes of the sequence the program computes on plain
  lists, and a backward walk the same nodes in reverse.
\<close>

theorem list_run_refines:
  assumes "run_allowed (set rs) (\<lambda>_. []) ps"
  shows "\<exists>h'. list_run ps (init_heads rs h) = Some h' \<and>
    (\<forall>r \<in> set rs. list_nodes r h' = Some (seq_run ps (\<lambda>_. []) r) \<and>
      list_nodes_prev r h' = Some (rev (seq_run ps (\<lambda>_. []) r)) \<and>
      list_empty r h' = (seq_run ps (\<lambda>_. []) r = []))"
proof -
  from list_run_rings [OF init_heads_rings assms] obtain h' where h':
    "list_run ps (init_heads rs h) = Some h'" "del_ring.rings h' (set rs) (seq_run ps (\<lambda>_. []))" by blast
  then show ?thesis
    using list_nodes_dlist list_nodes_prev_dlist list_empty_iff del_ring.ringsD by metis
qed

theorem list_run_refines_witness:
  "\<exists>h'. list_run [AddTail 3 1, AddTail 4 1, Add 5 2, MoveTail 3 1, SpliceInit 1 2, Del 4]
      (init_heads [1, 2 :: nat] \<lparr>nxt = (\<lambda>_. None), prv = (\<lambda>_. None)\<rparr>) = Some h' \<and>
    list_nodes 2 h' = Some [3, 5] \<and> list_nodes 1 h' = Some []"
proof -
  have "run_allowed (set [1, 2 :: nat]) (\<lambda>_. [])
      [AddTail 3 1, AddTail 4 1, Add 5 2, MoveTail 3 1, SpliceInit 1 2, Del 4]"
    by (simp add: used_def)
  from list_run_refines [OF this, of "\<lparr>nxt = (\<lambda>_. None), prv = (\<lambda>_. None)\<rparr>"] show ?thesis
    by (auto simp: seq_run_def)
qed

end
