(* ===== verification/Memory.thy ===== *)
theory Memory
  imports Prelude
begin

unbundle bit_operations_syntax

text \<open>
  Raw memory as the C code sees it through a \<open>char*\<close>: a byte per offset, runs of
  bytes read and written at an offset, and 32-bit integers in the little-endian byte
  order of the x86 machines the library is built for.
\<close>

type_synonym memory = "nat \<Rightarrow> u8"

definition mem_read :: "memory \<Rightarrow> nat \<Rightarrow> nat \<Rightarrow> bytes" where
  "mem_read m p n = map (\<lambda>i. m (p + i)) [0..<n]"

definition mem_write :: "memory \<Rightarrow> nat \<Rightarrow> bytes \<Rightarrow> memory" where
  "mem_write m p bs = (\<lambda>i. if p \<le> i \<and> i < p + length bs then bs ! (i - p) else m i)"

lemma length_mem_read [simp]: "length (mem_read m p n) = n"
  by (simp add: mem_read_def)

lemma mem_read_0 [simp]: "mem_read m p 0 = []"
  by (simp add: mem_read_def)

lemma mem_read_write_same [simp]: "n = length bs \<Longrightarrow> mem_read (mem_write m p bs) p n = bs"
  by (rule nth_equalityI) (auto simp: mem_read_def mem_write_def)

lemma mem_read_write_other:
  "p + n \<le> a \<or> a + length bs \<le> p \<Longrightarrow> mem_read (mem_write m a bs) p n = mem_read m p n"
  by (auto simp: mem_read_def mem_write_def)

lemma mem_write_at: "p \<le> i \<Longrightarrow> i < p + length bs \<Longrightarrow> mem_write m p bs i = bs ! (i - p)"
  by (simp add: mem_write_def)

lemma mem_write_outside: "i < p \<or> p + length bs \<le> i \<Longrightarrow> mem_write m p bs i = m i"
  by (auto simp: mem_write_def)

section \<open>Little-endian 32-bit integers\<close>

definition le32 :: "u32 \<Rightarrow> bytes" where
  "le32 v = [ucast v, ucast (drop_bit 8 v), ucast (drop_bit 16 v), ucast (drop_bit 24 v)]"

fun of_le32 :: "bytes \<Rightarrow> u32" where
  "of_le32 [a, b, c, d] =
     ucast a OR push_bit 8 (ucast b) OR push_bit 16 (ucast c) OR push_bit 24 (ucast d)"
| "of_le32 _ = 0"

lemma length_le32 [simp]: "length (le32 v) = 4"
  by (simp add: le32_def)

lemma of_le32_le32 [simp]: "of_le32 (le32 v) = v"
proof -
  have "bit (of_le32 (le32 v)) n = bit v n" if "n < 32" for n
  proof -
    consider "n < 8" | "8 \<le> n" "n < 16" | "16 \<le> n" "n < 24" | "24 \<le> n" using that by linarith
    then show ?thesis using that
      by cases (auto simp: le32_def bit_simps)
  qed
  then show ?thesis by (intro bit_word_eqI) simp
qed

lemma le32_of_le32: "length bs = 4 \<Longrightarrow> le32 (of_le32 bs) = bs"
proof -
  assume "length bs = 4"
  then obtain a b c d where bs: "bs = [a, b, c, d]"
    by (auto simp: numeral_eq_Suc length_Suc_conv)
  have "ucast (of_le32 [a, b, c, d]) = a" "ucast (drop_bit 8 (of_le32 [a, b, c, d])) = b"
    "ucast (drop_bit 16 (of_le32 [a, b, c, d])) = c" "ucast (drop_bit 24 (of_le32 [a, b, c, d])) = d"
    by (rule bit_word_eqI, auto simp: bit_simps dest: bit_imp_le_length)+
  then show ?thesis by (simp add: bs le32_def del: of_le32.simps)
qed

definition load32 :: "memory \<Rightarrow> nat \<Rightarrow> u32" where
  "load32 m p = of_le32 (mem_read m p 4)"

definition store32 :: "memory \<Rightarrow> nat \<Rightarrow> u32 \<Rightarrow> memory" where
  "store32 m p v = mem_write m p (le32 v)"

lemma load32_store32_same [simp]: "load32 (store32 m p v) p = v"
  by (simp add: load32_def store32_def)

lemma load32_write_other:
  "p + 4 \<le> a \<or> a + length bs \<le> p \<Longrightarrow> load32 (mem_write m a bs) p = load32 m p"
  by (simp add: load32_def mem_read_write_other)

lemma load32_store32_other:
  "p + 4 \<le> a \<or> a + 4 \<le> p \<Longrightarrow> load32 (store32 m a v) p = load32 m p"
  by (simp add: store32_def load32_write_other)

lemma mem_read_store32_other:
  "p + n \<le> a \<or> a + 4 \<le> p \<Longrightarrow> mem_read (store32 m a v) p n = mem_read m p n"
  by (simp add: store32_def mem_read_write_other)

lemmas [byte_simps] = load32_write_other load32_store32_other mem_read_store32_other mem_read_write_other


section \<open>Little-endian 64-bit integers\<close>

definition le64 :: "u64 \<Rightarrow> bytes" where
  "le64 v = le32 (ucast v) @ le32 (ucast (drop_bit 32 v))"

definition of_le64 :: "bytes \<Rightarrow> u64" where
  "of_le64 bs = ucast (of_le32 (take 4 bs)) OR push_bit 32 (ucast (of_le32 (drop 4 bs)))"

lemma length_le64 [simp]: "length (le64 v) = 8"
  by (simp add: le64_def)

lemma of_le64_le64 [simp]: "of_le64 (le64 v) = v"
proof -
  have "ucast (ucast v :: u32) OR push_bit 32 (ucast (ucast (drop_bit 32 v) :: u32)) = v"
    by (rule bit_word_eqI) (auto simp: bit_simps)
  then show ?thesis by (simp add: of_le64_def le64_def)
qed

definition load64 :: "memory \<Rightarrow> nat \<Rightarrow> u64" where
  "load64 m p = of_le64 (mem_read m p 8)"

definition store64 :: "memory \<Rightarrow> nat \<Rightarrow> u64 \<Rightarrow> memory" where
  "store64 m p v = mem_write m p (le64 v)"

lemma load64_store64_same [simp]: "load64 (store64 m p v) p = v"
  by (simp add: load64_def store64_def)

lemma load64_store64_other [byte_simps]:
  "p + 8 \<le> a \<or> a + 8 \<le> p \<Longrightarrow> load64 (store64 m a v) p = load64 m p"
  by (simp add: load64_def store64_def mem_read_write_other)

section \<open>Little-endian 16-bit integers\<close>

definition le16 :: "u16 \<Rightarrow> bytes" where
  "le16 v = [ucast v, ucast (drop_bit 8 v)]"

fun of_le16 :: "bytes \<Rightarrow> u16" where
  "of_le16 [a, b] = ucast a OR push_bit 8 (ucast b)"
| "of_le16 _ = 0"

lemma length_le16 [simp]: "length (le16 v) = 2"
  by (simp add: le16_def)

lemma of_le16_le16 [simp]: "of_le16 (le16 v) = v"
  unfolding le16_def of_le16.simps by (rule bit_word_eqI) (auto simp: bit_simps)

end
