(* ===== verification/ShmQueue.thy ===== *)
theory ShmQueue
  imports Memory "HOL-Library.Sublist"
begin

text \<open>
  \<open>interprocess/shmq.h\<close> and \<open>interprocess/shmq.c\<close>: the shared-memory circular queue
  between one writing and one reading process. A \<open>shm_cq_t\<close> is its header and the
  bytes that follow it; offsets count from the start of the mapping, as in the code.
  The volatile \<open>head\<close> that the writer polls is read through an observation sequence
  \<open>rd\<close>: \<open>rd i\<close> is what the \<open>i\<close>-th read of \<open>q->head\<close> during one push returns.
\<close>

section \<open>Layout\<close>

record shm_cq =
  head :: u32
  tail :: u32
  shm_size :: u32
  elem_max_sz :: u32
  name :: string
  mem :: memory

definition sizeof_shm_cq :: nat where "sizeof_shm_cq = 80"
definition sizeof_shm_block :: nat where "sizeof_shm_block = 4"
definition shm_cq_max_sz :: nat where "shm_cq_max_sz = 2000000000"
definition shmq_name_sz :: nat where "shmq_name_sz = 64"
definition pad_mark :: u32 where "pad_mark = 0xFFFFFFFF"

lemmas sizes [simp] =
  sizeof_shm_cq_def sizeof_shm_block_def shm_cq_max_sz_def shmq_name_sz_def

section \<open>Creating a queue\<close>

text \<open>
  The system calls are parameters: whether \<open>shm_open\<close> and \<open>ftruncate\<close> succeed, and
  the memory \<open>mmap\<close> hands out. The outer option is the \<open>assert\<close>.
\<close>

datatype cq_error = NameTooLong | OpenFailed | TruncateFailed | MapFailed

definition shm_cq_create ::
  "(string \<Rightarrow> bool) \<Rightarrow> (u32 \<Rightarrow> bool) \<Rightarrow> (u32 \<Rightarrow> memory option) \<Rightarrow>
   string \<Rightarrow> u32 \<Rightarrow> u32 \<Rightarrow> (cq_error + shm_cq) option" where
  "shm_cq_create shm_open ftruncate mmap nm cq_size data_max_sz =
     (if \<not> (unat cq_size < shm_cq_max_sz \<and> cq_size > data_max_sz \<and>
            unat cq_size \<ge> unat data_max_sz + sizeof_shm_block) then None
      else Some (
        if length nm \<ge> shmq_name_sz then Inl NameTooLong
        else if \<not> shm_open nm then Inl OpenFailed
        else
          let size = cq_size + of_nat sizeof_shm_cq in
          if \<not> ftruncate size then Inl TruncateFailed
          else case mmap size of
            None \<Rightarrow> Inl MapFailed
          | Some m \<Rightarrow> Inr \<lparr>head = of_nat sizeof_shm_cq, tail = of_nat sizeof_shm_cq,
               shm_size = size, elem_max_sz = data_max_sz + of_nat sizeof_shm_block,
               name = nm, mem = m\<rparr>))"

text \<open>
  Attaching maps the header first, only to learn the size, and then the whole queue.
  \<open>mmap fd sz\<close> is the queue seen through a mapping of \<open>sz\<close> bytes.
\<close>

definition shm_cq_attach ::
  "(string \<Rightarrow> 'fd option) \<Rightarrow> ('fd \<Rightarrow> u32 \<Rightarrow> shm_cq option) \<Rightarrow> string \<Rightarrow> shm_cq option" where
  "shm_cq_attach shm_open mmap nm =
     (case shm_open nm of
        None \<Rightarrow> None
      | Some fd \<Rightarrow>
          (case mmap fd (of_nat sizeof_shm_cq) of
             None \<Rightarrow> None
           | Some cq \<Rightarrow> mmap fd (shm_size cq)))"

definition shm_cq_detach :: "(shm_cq \<Rightarrow> u32 \<Rightarrow> int) \<Rightarrow> shm_cq \<Rightarrow> int" where
  "shm_cq_detach munmap cq = munmap cq (shm_size cq)"

text \<open>The C expression \<open>-(a || b)\<close>: 0 when both calls succeed, otherwise -1.\<close>

definition shm_cq_destroy :: "(string \<Rightarrow> int) \<Rightarrow> (shm_cq \<Rightarrow> u32 \<Rightarrow> int) \<Rightarrow> shm_cq \<Rightarrow> int" where
  "shm_cq_destroy shm_unlink munmap cq =
     - c_bool (shm_unlink (name cq) \<noteq> 0 \<or> munmap cq (shm_size cq) \<noteq> 0)"

section \<open>The writer\<close>

text \<open>
  Both wait loops poll at most \<open>cnt\<close> times, with a \<open>usleep\<close> between; the result is
  the number of reads made so far if the condition was seen.
\<close>

fun wait_for :: "nat \<Rightarrow> (u32 \<Rightarrow> bool) \<Rightarrow> (nat \<Rightarrow> u32) \<Rightarrow> nat \<Rightarrow> nat option" where
  "wait_for 0 ok rd i = None"
| "wait_for (Suc cnt) ok rd i = (if ok (rd i) then Some (Suc i) else wait_for cnt ok rd (Suc i))"

definition shm_cq_tail_align_wait :: "shm_cq \<Rightarrow> (nat \<Rightarrow> u32) \<Rightarrow> nat \<Rightarrow> nat option" where
  "shm_cq_tail_align_wait q rd i =
     wait_for 10 (\<lambda>hd. unat hd > sizeof_shm_cq \<and> hd \<le> tail q) rd i"

definition shm_cq_push_wait :: "shm_cq \<Rightarrow> u32 \<Rightarrow> (nat \<Rightarrow> u32) \<Rightarrow> nat \<Rightarrow> nat option" where
  "shm_cq_push_wait q len rd i =
     wait_for 10 (\<lambda>hd. hd \<le> tail q \<or> hd \<ge> tail q + len + elem_max_sz q) rd i"

definition shm_cq_align_tail :: "shm_cq \<Rightarrow> u32 \<Rightarrow> (nat \<Rightarrow> u32) \<Rightarrow> shm_cq \<times> bool" where
  "shm_cq_align_tail q len rd =
     (let surplus = shm_size q - tail q in
      if surplus \<ge> len then (q, shm_cq_push_wait q len rd 0 \<noteq> None)
      else case shm_cq_tail_align_wait q rd 0 of
        None \<Rightarrow> (q, False)
      | Some i \<Rightarrow>
          let q1 = (if unat surplus \<ge> sizeof_shm_block
                    then q\<lparr>mem := store32 (mem q) (unat (tail q)) pad_mark\<rparr> else q);
              q2 = q1\<lparr>tail := of_nat sizeof_shm_cq\<rparr>
          in (q2, shm_cq_push_wait q2 len rd i \<noteq> None))"

text \<open>\<open>None\<close> is the failed assertion on the length; the number is the C return value.\<close>

definition shm_cq_push :: "bytes \<Rightarrow> (nat \<Rightarrow> u32) \<Rightarrow> shm_cq \<Rightarrow> (int \<times> shm_cq) option" where
  "shm_cq_push data rd q =
     (let len = length data in
      if \<not> (len > 0 \<and> len \<le> unat (ucast (elem_max_sz q) - of_nat sizeof_shm_block :: u64)) then None
      else
        let elem_len = of_nat (len + sizeof_shm_block);
            (q1, ok) = shm_cq_align_tail q elem_len rd in
        if \<not> ok then Some (-1, q1)
        else
          let t = unat (tail q1);
              m = mem_write (store32 (mem q1) t elem_len) (t + sizeof_shm_block) data
          in Some (0, q1\<lparr>mem := m, tail := tail q1 + elem_len\<rparr>))"

section \<open>The reader\<close>

definition shm_cq_align_head :: "shm_cq \<Rightarrow> shm_cq" where
  "shm_cq_align_head q =
     (if head q < tail q then q
      else if unat (shm_size q - head q) < sizeof_shm_block \<or>
              load32 (mem q) (unat (head q)) = pad_mark
      then q\<lparr>head := of_nat sizeof_shm_cq\<rparr> else q)"

text \<open>
  The result is the returned length, and the offset the code stores through the
  caller's \<open>data\<close> pointer when the length is not 0. \<open>None\<close> is the failed assertion.
\<close>

definition shm_cq_pop :: "shm_cq \<Rightarrow> (u32 \<times> nat option \<times> shm_cq) option" where
  "shm_cq_pop q =
     (if head q = tail q then Some (0, None, q)
      else
        let q1 = shm_cq_align_head q in
        if head q1 = tail q1 then Some (0, None, q1)
        else
          let len = load32 (mem q1) (unat (head q1)) in
          if \<not> len \<le> elem_max_sz q1 then None
          else Some (len - of_nat sizeof_shm_block,
                     Some (unat (head q1) + sizeof_shm_block),
                     q1\<lparr>head := head q1 + len\<rparr>))"


section \<open>What a queue holds\<close>

text \<open>
  \<open>region E m p ds e\<close>: from offset \<open>p\<close> up to \<open>e\<close> the memory is the blocks of the
  messages \<open>ds\<close>, each a length word and that many bytes, none larger than \<open>E\<close>.
\<close>

definition block_ok :: "nat \<Rightarrow> bytes \<Rightarrow> bool" where
  "block_ok E d \<longleftrightarrow> d \<noteq> [] \<and> length d + 4 \<le> E"

fun region :: "nat \<Rightarrow> memory \<Rightarrow> nat \<Rightarrow> bytes list \<Rightarrow> nat \<Rightarrow> bool" where
  "region E m p [] e \<longleftrightarrow> p = e"
| "region E m p (d # ds) e \<longleftrightarrow>
     block_ok E d \<and> load32 m p = of_nat (length d + 4) \<and>
     mem_read m (p + 4) (length d) = d \<and> region E m (p + 4 + length d) ds e"

definition valid_cq :: "shm_cq \<Rightarrow> bool" where
  "valid_cq q \<longleftrightarrow> 4 \<le> unat (elem_max_sz q) \<and>
     80 + unat (elem_max_sz q) \<le> unat (shm_size q) \<and> unat (shm_size q) < 2000000080"

text \<open>
  The queue holds the messages \<open>ds\<close>: either they lie between head and tail, or the
  tail has gone back to the start, and then the older messages end at a mark \<open>w\<close> near
  the end of the mapping and the younger ones lie between the start and the tail,
  which stays at least one largest element behind the head.
\<close>

definition straight :: "shm_cq \<Rightarrow> bytes list \<Rightarrow> bool" where
  "straight q ds \<longleftrightarrow> unat (head q) \<le> unat (tail q) \<and>
     region (unat (elem_max_sz q)) (mem q) (unat (head q)) ds (unat (tail q))"

definition wrapped :: "shm_cq \<Rightarrow> bytes list \<Rightarrow> bool" where
  "wrapped q ds \<longleftrightarrow> unat (tail q) < unat (head q) \<and>
     (\<exists>w d1 d2. ds = d1 @ d2 \<and> w \<le> unat (shm_size q) \<and>
        region (unat (elem_max_sz q)) (mem q) (unat (head q)) d1 w \<and>
        (unat (shm_size q) < w + 4 \<or> load32 (mem q) w = pad_mark) \<and>
        region (unat (elem_max_sz q)) (mem q) 80 d2 (unat (tail q)) \<and>
        (unat (tail q) = 80 \<or> unat (tail q) + unat (elem_max_sz q) \<le> unat (head q)))"

definition holds :: "shm_cq \<Rightarrow> bytes list \<Rightarrow> bool" where
  "holds q ds \<longleftrightarrow> valid_cq q \<and> 80 \<le> unat (head q) \<and> 80 \<le> unat (tail q) \<and>
     unat (head q) \<le> unat (shm_size q) \<and> unat (tail q) \<le> unat (shm_size q) \<and>
     (straight q ds \<or> wrapped q ds)"

lemma region_le: "region E m p ds e \<Longrightarrow> p \<le> e"
  by (induction ds arbitrary: p) fastforce+

lemma region_Cons_le: "region E m p (d # ds) e \<Longrightarrow> p + 4 + length d \<le> e"
  using region_le by fastforce

lemma region_empty_iff: "region E m p ds p \<longleftrightarrow> ds = []"
  by (cases ds) (auto dest: region_le)

lemma region_append:
  "region E m p (xs @ ys) e \<longleftrightarrow> (\<exists>k. region E m p xs k \<and> region E m k ys e)"
  by (induction xs arbitrary: p) auto

lemma mem_read_cong: "(\<And>i. p \<le> i \<Longrightarrow> i < p + n \<Longrightarrow> m' i = m i) \<Longrightarrow> mem_read m' p n = mem_read m p n"
  by (auto simp: mem_read_def)

lemma region_frame:
  "region E m p ds e \<Longrightarrow> (\<And>i. p \<le> i \<Longrightarrow> i < e \<Longrightarrow> m' i = m i) \<Longrightarrow> region E m' p ds e"
proof (induction ds arbitrary: p)
  case Nil
  then show ?case by simp
next
  case (Cons d ds)
  have e: "p + 4 + length d \<le> e" using region_Cons_le [OF Cons.prems(1)] .
  have "load32 m' p = load32 m p"
    unfolding load32_def by (rule arg_cong [where f = of_le32], rule mem_read_cong)
      (use Cons.prems(2) e in auto)
  moreover have "mem_read m' (p + 4) (length d) = mem_read m (p + 4) (length d)"
    by (rule mem_read_cong) (use Cons.prems(2) e in auto)
  moreover have "region E m' (p + 4 + length d) ds e"
    by (rule Cons.IH) (use Cons.prems e in auto)
  ultimately show ?case using Cons.prems(1) by simp
qed

text \<open>A freshly written block, and what the two stores leave alone.\<close>

definition put_block :: "memory \<Rightarrow> nat \<Rightarrow> bytes \<Rightarrow> memory" where
  "put_block m t d = mem_write (store32 m t (of_nat (length d + 4))) (t + 4) d"

lemma put_block_outside: "i < t \<or> t + 4 + length d \<le> i \<Longrightarrow> put_block m t d i = m i"
  by (auto simp: put_block_def store32_def mem_write_def)

lemma region_put_block: "block_ok E d \<Longrightarrow> region E (put_block m t d) t [d] (t + 4 + length d)"
  by (simp add: put_block_def byte_simps)

lemma region_put_block_frame:
  "region E m p ds e \<Longrightarrow> e \<le> t \<or> t + 4 + length d \<le> p \<Longrightarrow> region E (put_block m t d) p ds e"
  by (erule region_frame) (auto intro: put_block_outside)

lemma region_snoc_block:
  assumes "region E m p ds t" "block_ok E d"
  shows "region E (put_block m t d) p (ds @ [d]) (t + 4 + length d)"
  unfolding region_append
  using region_put_block_frame [OF assms(1), of t d] region_put_block [OF assms(2), of m t] by blast

section \<open>Creation and the push operation\<close>

lemma shm_cq_create_holds:
  assumes "shm_cq_create shm_open ftruncate mmap nm cq_size data_max_sz = Some (Inr q)"
  shows "holds q []" and "unat (elem_max_sz q) = unat data_max_sz + 4"
proof -
  have a: "unat cq_size < 2000000000" "unat cq_size \<ge> unat data_max_sz + 4"
    using assms by (auto simp: shm_cq_create_def split: if_splits)
  have q: "head q = 80" "tail q = 80" "shm_size q = cq_size + 80" "elem_max_sz q = data_max_sz + 4"
    using assms by (auto simp: shm_cq_create_def Let_def split: if_splits option.splits)
  have u: "unat (cq_size + 80) = unat cq_size + 80" "unat (data_max_sz + 4) = unat data_max_sz + 4"
    using a by (subst unat_plus_no_wrap; simp)+
  show "unat (elem_max_sz q) = unat data_max_sz + 4" using q u by simp
  show "holds q []" using a q u by (simp add: holds_def valid_cq_def straight_def)
qed

lemma wait_for_const:
  "wait_for cnt ok (\<lambda>_. x) i = (if ok x \<and> cnt > 0 then Some (Suc i) else None)"
  by (induction cnt arbitrary: i) auto

lemma push_ok_len:
  assumes "valid_cq q" "block_ok (unat (elem_max_sz q)) d"
  shows "unat (of_nat (length d + 4) :: u32) = length d + 4"
proof (rule unat_of_nat_small)
  show "length d + 4 < 4294967296" using assms by (simp add: valid_cq_def block_ok_def)
qed

text \<open>
  The free-space test adds three 32-bit numbers; on a queue whose tail is behind its
  head the sum never wraps.
\<close>

lemma push_sum_no_wrap:
  assumes "valid_cq q" "block_ok (unat (elem_max_sz q)) d"
    and "unat (tail q) = 80 \<or> unat (tail q) + unat (elem_max_sz q) \<le> unat (head q)"
    and "unat (head q) \<le> unat (shm_size q)"
  shows "unat (tail q + of_nat (length d + 4) + elem_max_sz q) =
    unat (tail q) + (length d + 4) + unat (elem_max_sz q)"
proof -
  note l = push_ok_len [OF assms(1,2)]
  have b: "unat (tail q) + (length d + 4) + unat (elem_max_sz q) < 4294967296"
    using assms by (auto simp: valid_cq_def block_ok_def)
  have "unat (tail q + of_nat (length d + 4)) = unat (tail q) + (length d + 4)"
    using unat_plus_no_wrap [of "tail q" "of_nat (length d + 4)"] l b by simp
  with unat_plus_no_wrap [of "tail q + of_nat (length d + 4)" "elem_max_sz q"] b
  show ?thesis by simp
qed

lemma surplus_unat: "holds q ds \<Longrightarrow> unat (shm_size q - tail q) = unat (shm_size q) - unat (tail q)"
  by (simp add: holds_def unat_minus_no_wrap)

text \<open>Storing a block at the tail when the straight queue has room for it.\<close>

lemma store_straight:
  assumes "holds q ds" "straight q ds" "block_ok (unat (elem_max_sz q)) d"
    and "unat (tail q) + (length d + 4) \<le> unat (shm_size q)"
  shows "holds (q\<lparr>mem := put_block (mem q) (unat (tail q)) d,
                  tail := tail q + of_nat (length d + 4)\<rparr>) (ds @ [d])"
proof -
  have v: "valid_cq q" using assms(1) by (simp add: holds_def)
  note l = push_ok_len [OF v assms(3)]
  have s: "unat (shm_size q) < 2000000080" using v by (simp add: valid_cq_def)
  have t: "unat (tail q + of_nat (length d + 4)) = unat (tail q) + (length d + 4)"
    using unat_plus_no_wrap [of "tail q" "of_nat (length d + 4)"] l assms(4) s by simp
  have "region (unat (elem_max_sz q)) (put_block (mem q) (unat (tail q)) d)
      (unat (head q)) (ds @ [d]) (unat (tail q) + 4 + length d)"
    using assms(2,3) by (simp add: straight_def region_snoc_block)
  with assms t show ?thesis
    by (simp add: holds_def straight_def valid_cq_def add.commute add.left_commute)
qed

text \<open>Storing a block behind the head of a wrapped queue.\<close>

lemma store_wrapped:
  assumes "holds q ds" "wrapped q ds" "block_ok (unat (elem_max_sz q)) d"
    and "unat (tail q) + (length d + 4) + unat (elem_max_sz q) \<le> unat (head q)"
  shows "holds (q\<lparr>mem := put_block (mem q) (unat (tail q)) d,
                  tail := tail q + of_nat (length d + 4)\<rparr>) (ds @ [d])"
proof -
  let ?E = "unat (elem_max_sz q)" and ?t = "unat (tail q)" and ?h = "unat (head q)"
  let ?m = "put_block (mem q) ?t d"
  have v: "valid_cq q" and hs: "?h \<le> unat (shm_size q)" using assms(1) by (simp_all add: holds_def)
  note l = push_ok_len [OF v assms(3)]
  have t: "unat (tail q + of_nat (length d + 4)) = ?t + (length d + 4)"
    using unat_plus_no_wrap [of "tail q" "of_nat (length d + 4)"] l assms(4) unat_u32_bound [of "head q"]
    by simp
  obtain w d1 d2 where w: "ds = d1 @ d2" "w \<le> unat (shm_size q)" "region ?E (mem q) ?h d1 w"
    "unat (shm_size q) < w + 4 \<or> load32 (mem q) w = pad_mark" "region ?E (mem q) 80 d2 ?t"
    using assms(2) unfolding wrapped_def by blast
  have hw: "?h \<le> w" using region_le [OF w(3)] .
  have "region ?E ?m ?h d1 w" by (rule region_put_block_frame [OF w(3)]) (use assms(4) in simp)
  moreover have "load32 ?m w = load32 (mem q) w"
    unfolding load32_def by (rule arg_cong [where f = of_le32], rule mem_read_cong, rule put_block_outside)
      (use assms(4) hw in simp)
  moreover have "region ?E ?m 80 (d2 @ [d]) (?t + 4 + length d)"
    by (rule region_snoc_block [OF w(5) assms(3)])
  ultimately have "wrapped (q\<lparr>mem := ?m, tail := tail q + of_nat (length d + 4)\<rparr>) (ds @ [d])"
    unfolding wrapped_def
    using w(1,2,4) t assms(3,4)
    by (intro conjI exI [of _ w] exI [of _ d1] exI [of _ "d2 @ [d]"])
       (auto simp: block_ok_def add.commute add.left_commute)
  with assms(1) t hs assms(4) show ?thesis by (simp add: holds_def valid_cq_def)
qed

text \<open>The wrap itself: the mark goes to the old tail and the tail to the start.\<close>

definition wrap_tail :: "shm_cq \<Rightarrow> shm_cq" where
  "wrap_tail q =
     (if unat (shm_size q - tail q) \<ge> 4
      then q\<lparr>mem := store32 (mem q) (unat (tail q)) pad_mark\<rparr> else q)\<lparr>tail := 80\<rparr>"

lemma wrap_tail_holds:
  assumes "holds q ds" "straight q ds" "80 < unat (head q)"
  shows "holds (wrap_tail q) ds" "wrapped (wrap_tail q) ds"
    "head (wrap_tail q) = head q" "elem_max_sz (wrap_tail q) = elem_max_sz q"
    "shm_size (wrap_tail q) = shm_size q" "tail (wrap_tail q) = 80"
proof -
  let ?E = "unat (elem_max_sz q)" and ?t = "unat (tail q)" and ?h = "unat (head q)"
  note u = surplus_unat [OF assms(1)]
  show e: "head (wrap_tail q) = head q" "elem_max_sz (wrap_tail q) = elem_max_sz q"
    "shm_size (wrap_tail q) = shm_size q" "tail (wrap_tail q) = 80"
    by (simp_all add: wrap_tail_def)
  have r: "region ?E (mem q) ?h ds ?t" using assms(2) by (simp add: straight_def)
  have "region ?E (mem (wrap_tail q)) ?h ds ?t"
    by (rule region_frame [OF r]) (auto simp: wrap_tail_def store32_def mem_write_def)
  moreover have "unat (shm_size q) < ?t + 4 \<or> load32 (mem (wrap_tail q)) ?t = pad_mark"
    using u by (auto simp: wrap_tail_def)
  ultimately show w: "wrapped (wrap_tail q) ds"
    using assms(1,3) e unfolding wrapped_def
    by (intro conjI exI [of _ ?t] exI [of _ ds] exI [of _ "[]"]) (auto simp: holds_def)
  show "holds (wrap_tail q) ds"
    using assms(1) w e by (simp add: holds_def valid_cq_def)
qed

lemma shm_cq_push_eq:
  assumes "holds q ds" "block_ok (unat (elem_max_sz q)) d"
  shows "shm_cq_push d (\<lambda>_. head q) q =
    (let put = (\<lambda>q. q\<lparr>mem := put_block (mem q) (unat (tail q)) d,
                      tail := tail q + of_nat (length d + 4)\<rparr>);
         room = (\<lambda>q. head q \<le> tail q \<or> head q \<ge> tail q + of_nat (length d + 4) + elem_max_sz q) in
     if unat (shm_size q) - unat (tail q) \<ge> length d + 4
     then (if room q then Some (0, put q) else Some (-1, q))
     else if unat (head q) > 80 \<and> head q \<le> tail q
     then (if room (wrap_tail q) then Some (0, put (wrap_tail q)) else Some (-1, wrap_tail q))
     else Some (-1, q))"
proof -
  have v: "valid_cq q" using assms(1) by (simp add: holds_def)
  note l = push_ok_len [OF v assms(2)]
  have h: "head (wrap_tail q) = head q" by (simp add: wrap_tail_def)
  have "(4 :: u64) \<le> ucast (elem_max_sz q)"
    using v by (simp add: valid_cq_def word_le_nat_alt)
  then have "unat (ucast (elem_max_sz q) - 4 :: u64) = unat (elem_max_sz q) - 4"
    by (simp add: unat_sub)
  then have d: "0 < length d \<and> length d \<le> unat (ucast (elem_max_sz q) - 4 :: u64)"
    using assms(2) by (auto simp: block_ok_def)
  have c: "of_nat (length d + 4) \<le> shm_size q - tail q \<longleftrightarrow>
      length d + 4 \<le> unat (shm_size q) - unat (tail q)"
    unfolding word_le_nat_alt by (simp only: l surplus_unat [OF assms(1)])
  have wt: "(if 4 \<le> unat (shm_size q - tail q)
      then q\<lparr>mem := store32 (mem q) (unat (tail q)) pad_mark\<rparr> else q)\<lparr>tail := 80\<rparr> = wrap_tail q"
    by (simp add: wrap_tail_def)
  have d': "\<not> \<not> (0 < length d \<and> length d \<le> unat (ucast (elem_max_sz q) - of_nat 4 :: u64))"
    using d by simp
  show ?thesis
  proof (cases "length d + 4 \<le> unat (shm_size q) - unat (tail q)")
    case True
    from this d show ?thesis
      unfolding shm_cq_push_def shm_cq_align_tail_def Let_def sizes c
      by (simp only: d' if_True if_False prod.case True shm_cq_push_wait_def wait_for_const)
         (simp add: put_block_def del: of_nat_add split: if_splits)
  next
    case False
    from this d show ?thesis
      unfolding shm_cq_push_def shm_cq_align_tail_def Let_def sizes c
      by (simp only: d' if_True if_False prod.case False shm_cq_push_wait_def wait_for_const
          shm_cq_tail_align_wait_def sizes of_nat_numeral wt)
         (simp add: put_block_def h del: of_nat_add)
  qed
qed

lemma push_wrap_cond:
  assumes "holds q ds" "head q \<le> tail q"
  shows "straight q ds"
  using assms by (auto simp: holds_def wrapped_def word_le_nat_alt)

text \<open>What one push does to the memory it may touch and to the fields it must not.\<close>

definition same_reader :: "shm_cq \<Rightarrow> shm_cq \<Rightarrow> bool" where
  "same_reader q q' \<longleftrightarrow> head q' = head q \<and> elem_max_sz q' = elem_max_sz q \<and> shm_size q' = shm_size q \<and>
     (\<forall>i. unat (head q) - unat (elem_max_sz q) \<le> i \<longrightarrow> 80 \<le> i \<longrightarrow> i < unat (head q) \<longrightarrow>
        mem q' i = mem q i)"

lemma same_reader_refl [simp]: "same_reader q q"
  by (simp add: same_reader_def)

lemma same_reader_trans: "same_reader q1 q2 \<Longrightarrow> same_reader q2 q3 \<Longrightarrow> same_reader q1 q3"
  by (simp add: same_reader_def)

abbreviation put_msg :: "bytes \<Rightarrow> shm_cq \<Rightarrow> shm_cq" where
  "put_msg d q \<equiv> q\<lparr>mem := put_block (mem q) (unat (tail q)) d, tail := tail q + of_nat (length d + 4)\<rparr>"

lemma put_step:
  assumes "holds q ds" "block_ok (unat (elem_max_sz q)) d"
    and "length d + 4 \<le> unat (shm_size q) - unat (tail q)"
    and "head q \<le> tail q \<or> head q \<ge> tail q + of_nat (length d + 4) + elem_max_sz q"
  shows "holds (put_msg d q) (ds @ [d])" "same_reader q (put_msg d q)"
proof -
  have v: "valid_cq q" and ts: "unat (tail q) \<le> unat (shm_size q)"
    using assms(1) by (simp_all add: holds_def)
  have "holds (put_msg d q) (ds @ [d]) \<and> same_reader q (put_msg d q)"
  proof (cases "head q \<le> tail q")
    case True
    have "holds (put_msg d q) (ds @ [d])"
      using store_straight [OF assms(1) push_wrap_cond [OF assms(1) True] assms(2)] assms(3) ts by simp
    with True show ?thesis
      by (simp add: same_reader_def put_block_outside word_le_nat_alt)
  next
    case False
    then have w: "wrapped q ds"
      using assms(1) by (auto simp: holds_def straight_def word_le_nat_alt)
    then have t: "unat (tail q) = 80 \<or> unat (tail q) + unat (elem_max_sz q) \<le> unat (head q)"
      by (auto simp: wrapped_def)
    have "unat (head q) \<le> unat (shm_size q)" using assms(1) by (simp add: holds_def)
    from push_sum_no_wrap [OF v assms(2) t this] False assms(4)
    have r: "unat (tail q) + (length d + 4) + unat (elem_max_sz q) \<le> unat (head q)"
      by (simp add: word_le_nat_alt del: of_nat_add)
    have "holds (put_msg d q) (ds @ [d])" by (rule store_wrapped [OF assms(1) w assms(2) r])
    with r show ?thesis by (auto simp: same_reader_def intro!: put_block_outside)
  qed
  then show "holds (put_msg d q) (ds @ [d])" "same_reader q (put_msg d q)" by simp_all
qed

lemma wrap_same_reader:
  assumes "holds q ds" "straight q ds" "80 < unat (head q)"
  shows "same_reader q (wrap_tail q)"
  using assms
  by (auto simp: same_reader_def wrap_tail_def straight_def store32_def mem_write_def)

lemma push_refines_aux:
  assumes "holds q ds" "block_ok (unat (elem_max_sz q)) d"
  shows "\<exists>r q'. shm_cq_push d (\<lambda>_. head q) q = Some (r, q') \<and> same_reader q q' \<and>
    (r = 0 \<and> holds q' (ds @ [d]) \<or> r = -1 \<and> holds q' ds)"
proof -
  define room where
    "room q \<longleftrightarrow> head q \<le> tail q \<or> head q \<ge> tail q + of_nat (length d + 4) + elem_max_sz q"
    for q :: shm_cq
  have eq: "shm_cq_push d (\<lambda>_. head q) q =
    (if unat (shm_size q) - unat (tail q) \<ge> length d + 4
     then (if room q then Some (0, put_msg d q) else Some (-1, q))
     else if unat (head q) > 80 \<and> head q \<le> tail q
     then (if room (wrap_tail q) then Some (0, put_msg d (wrap_tail q)) else Some (-1, wrap_tail q))
     else Some (-1, q))"
    using shm_cq_push_eq [OF assms] unfolding room_def Let_def .
  consider (fit) "unat (shm_size q) - unat (tail q) \<ge> length d + 4"
    | (wrap) "unat (head q) > 80 \<and> head q \<le> tail q" "\<not> unat (shm_size q) - unat (tail q) \<ge> length d + 4"
    | (no) "\<not> (unat (head q) > 80 \<and> head q \<le> tail q)" "\<not> unat (shm_size q) - unat (tail q) \<ge> length d + 4"
    by blast
  then show ?thesis
  proof cases
    case fit
    with eq assms(1) put_step [OF assms fit] show ?thesis
      by (cases "room q") (simp_all add: room_def)
  next
    case wrap
    then have h: "80 < unat (head q)" and s: "straight q ds" using push_wrap_cond [OF assms(1)] by auto
    note w = wrap_tail_holds [OF assms(1) s h]
    have b: "block_ok (unat (elem_max_sz (wrap_tail q))) d" using assms(2) w(4) by simp
    have f: "length d + 4 \<le> unat (shm_size (wrap_tail q)) - unat (tail (wrap_tail q))"
      using assms w(5,6) by (auto simp: block_ok_def holds_def valid_cq_def)
    show ?thesis
    proof (cases "room (wrap_tail q)")
      case True
      then show ?thesis
        using eq wrap put_step [OF w(1) b f] same_reader_trans [OF wrap_same_reader [OF assms(1) s h]]
        by (simp add: room_def)
    next
      case False
      then show ?thesis using eq wrap w(1) wrap_same_reader [OF assms(1) s h] by simp
    qed
  next
    case no
    with eq assms(1) show ?thesis by simp
  qed
qed

section \<open>The pop operation\<close>

lemma region_head_len:
  assumes "region E m p (d # ds) e" "E < 2000000080"
  shows "unat (load32 m p) = length d + 4" "load32 m p \<noteq> pad_mark"
proof -
  have "unat (of_nat (length d + 4) :: u32) = length d + 4"
    by (rule unat_of_nat_small) (use assms in \<open>simp add: block_ok_def\<close>)
  then show u: "unat (load32 m p) = length d + 4" using assms(1) by simp
  have "length d + 4 < 2000000080" using assms by (simp add: block_ok_def)
  with u show "load32 m p \<noteq> pad_mark" by (auto simp: pad_mark_def)
qed

text \<open>Taking the first block off a queue whose head stands on it.\<close>

lemma take_block:
  assumes "holds q (d # ds)" and "region (unat (elem_max_sz q)) (mem q) (unat (head q)) [d] k"
    and "holds (q\<lparr>head := head q + load32 (mem q) (unat (head q))\<rparr>) ds"
    and "shm_cq_align_head p = q" "head p \<noteq> tail p" "head q \<noteq> tail q"
  shows "\<exists>o' q'. shm_cq_pop p = Some (of_nat (length d), Some o', q') \<and>
    mem_read (mem q') o' (length d) = d \<and> holds q' ds \<and> elem_max_sz q' = elem_max_sz q \<and>
    80 \<le> o' \<and> o' + length d = unat (head q') \<and> length d + 4 \<le> unat (elem_max_sz q)"
proof -
  have E: "unat (elem_max_sz q) < 2000000080" using assms(1) by (simp add: holds_def valid_cq_def)
  note u = region_head_len(1) [OF assms(2) E]
  have b: "length d + 4 \<le> unat (elem_max_sz q)" "mem_read (mem q) (unat (head q) + 4) (length d) = d"
    using assms(2) by (simp_all add: block_ok_def)
  have l: "load32 (mem q) (unat (head q)) \<le> elem_max_sz q" using u b by (simp add: word_le_nat_alt)
  have "load32 (mem q) (unat (head q)) - 4 = of_nat (length d)"
    by (rule word_unat_eq_iff [THEN iffD2])
       (use u b E in \<open>simp add: unat_minus_no_wrap unat_of_nat_small\<close>)
  moreover have "unat (head q + load32 (mem q) (unat (head q))) = unat (head q) + (length d + 4)"
    using unat_plus_no_wrap [of "head q" "load32 (mem q) (unat (head q))"] u b assms(1) E
    by (simp add: holds_def valid_cq_def)
  ultimately show ?thesis
    using assms l b by (simp add: shm_cq_pop_def Let_def holds_def)
qed

lemma pop_straight:
  assumes "holds q ds" "straight q ds"
  shows "case ds of
      [] \<Rightarrow> shm_cq_pop q = Some (0, None, q) \<and> head q = tail q
    | d # ds' \<Rightarrow> \<exists>o' q'. shm_cq_pop q = Some (of_nat (length d), Some o', q') \<and>
        mem_read (mem q') o' (length d) = d \<and> holds q' ds' \<and> elem_max_sz q' = elem_max_sz q \<and>
        80 \<le> o' \<and> o' + length d = unat (head q') \<and> length d + 4 \<le> unat (elem_max_sz q)"
proof (cases ds)
  case Nil
  then show ?thesis using assms(2) by (auto simp: straight_def shm_cq_pop_def word_unat_eq_iff)
next
  case (Cons d ds')
  let ?E = "unat (elem_max_sz q)" and ?h = "unat (head q)"
  have r: "region ?E (mem q) ?h (d # ds') (unat (tail q))" and E: "?E < 2000000080"
    using assms Cons by (simp_all add: straight_def holds_def valid_cq_def)
  have lt: "?h + 4 + length d \<le> unat (tail q)" using region_Cons_le [OF r] .
  have ne: "head q \<noteq> tail q" using lt by auto
  have al: "shm_cq_align_head q = q"
    using lt by (simp add: shm_cq_align_head_def word_less_nat_alt)
  have u: "unat (load32 (mem q) ?h) = length d + 4" using region_head_len [OF r E] by simp
  have u2: "unat (head q + load32 (mem q) ?h) = ?h + (length d + 4)"
    using unat_plus_no_wrap [of "head q" "load32 (mem q) ?h"] u lt unat_u32_bound [of "tail q"] by simp
  have rs: "region ?E (mem q) ?h [d] (?h + 4 + length d)"
    "region ?E (mem q) (?h + 4 + length d) ds' (unat (tail q))" using r by simp_all
  have "holds (q\<lparr>head := head q + load32 (mem q) ?h\<rparr>) ds'"
    using assms(1) u2 lt rs(2)
    by (simp add: holds_def straight_def valid_cq_def add.commute add.left_commute)
  from take_block [OF _ rs(1) this al ne ne] assms(1) Cons show ?thesis by simp
qed

text \<open>The head of a wrapped queue that stands on the mark goes back to the start.\<close>

lemma pop_wrapped_mark:
  assumes "holds q ds" "unat (tail q) < unat (head q)"
    and "unat (shm_size q) < unat (head q) + 4 \<or> load32 (mem q) (unat (head q)) = pad_mark"
    and "region (unat (elem_max_sz q)) (mem q) 80 ds (unat (tail q))"
  shows "shm_cq_align_head q = q\<lparr>head := 80\<rparr>" "holds (q\<lparr>head := 80\<rparr>) ds"
    "straight (q\<lparr>head := 80\<rparr>) ds"
proof -
  have "unat (shm_size q - head q) = unat (shm_size q) - unat (head q)"
    using assms(1) by (simp add: unat_minus_no_wrap holds_def)
  with assms show "shm_cq_align_head q = q\<lparr>head := 80\<rparr>"
    by (auto simp: shm_cq_align_head_def word_less_nat_alt)
  show s: "straight (q\<lparr>head := 80\<rparr>) ds"
    using assms by (simp add: straight_def holds_def)
  show "holds (q\<lparr>head := 80\<rparr>) ds"
    using assms(1) s by (simp add: holds_def valid_cq_def)
qed

lemma pop_refines_aux:
  assumes "holds q ds"
  shows "case ds of
      [] \<Rightarrow> \<exists>q'. shm_cq_pop q = Some (0, None, q') \<and> holds q' [] \<and> head q' = tail q' \<and>
        elem_max_sz q' = elem_max_sz q
    | d # ds' \<Rightarrow> \<exists>o' q'. shm_cq_pop q = Some (of_nat (length d), Some o', q') \<and>
        mem_read (mem q') o' (length d) = d \<and> holds q' ds' \<and> elem_max_sz q' = elem_max_sz q \<and>
        80 \<le> o' \<and> o' + length d = unat (head q') \<and> length d + 4 \<le> unat (elem_max_sz q)"
proof (cases "wrapped q ds")
  case False
  then have "straight q ds" using assms by (simp add: holds_def)
  with pop_straight [OF assms this] assms show ?thesis by (cases ds) auto
next
  case True
  let ?E = "unat (elem_max_sz q)" and ?h = "unat (head q)" and ?t = "unat (tail q)"
  obtain w d1 d2 where w: "?t < ?h" "ds = d1 @ d2" "w \<le> unat (shm_size q)" "region ?E (mem q) ?h d1 w"
    "unat (shm_size q) < w + 4 \<or> load32 (mem q) w = pad_mark" "region ?E (mem q) 80 d2 ?t"
    "?t = 80 \<or> ?t + ?E \<le> ?h"
    using True unfolding wrapped_def by blast
  have E: "?E < 2000000080" using assms by (simp add: holds_def valid_cq_def)
  have ne: "head q \<noteq> tail q" using w(1) by auto
  show ?thesis
  proof (cases d1)
    case Nil
    then have "w = ?h" "ds = d2" using w(2,4) by simp_all
    with w pop_wrapped_mark [OF assms w(1)] have m: "shm_cq_align_head q = q\<lparr>head := 80\<rparr>"
      "holds (q\<lparr>head := 80\<rparr>) ds" "straight (q\<lparr>head := 80\<rparr>) ds" by auto
    show ?thesis
    proof (cases "tail q = 80")
      case True
      then have "ds = []" using m(3) by (simp add: straight_def region_empty_iff)
      with m ne True show ?thesis by (simp add: shm_cq_pop_def)
    next
      case False
      then have "80 < ?t"
        using assms by (auto simp: holds_def word_unat_eq_iff le_neq_trans dest: le_imp_less_or_eq)
      then have "shm_cq_align_head (q\<lparr>head := 80\<rparr>) = q\<lparr>head := 80\<rparr>"
        by (simp add: shm_cq_align_head_def word_less_nat_alt)
      then have "shm_cq_pop q = shm_cq_pop (q\<lparr>head := 80\<rparr>)"
        using ne False m(1) by (simp add: shm_cq_pop_def Let_def)
      with pop_straight [OF m(2,3)] show ?thesis
        using False by (cases ds) (auto split: list.splits)
    qed
  next
    case (Cons d d1')
    have r: "region ?E (mem q) ?h (d # d1') w" using w(4) Cons by simp
    have le: "?h + 4 + length d \<le> w" using region_Cons_le [OF r] .
    have u: "unat (load32 (mem q) ?h) = length d + 4" "load32 (mem q) ?h \<noteq> pad_mark"
      using region_head_len [OF r E] .
    have "unat (shm_size q - head q) = unat (shm_size q) - ?h"
      using assms by (simp add: unat_minus_no_wrap holds_def)
    then have al: "shm_cq_align_head q = q"
      using le w(3) u(2) by (simp add: shm_cq_align_head_def)
    have u2: "unat (head q + load32 (mem q) ?h) = ?h + (length d + 4)"
      using unat_plus_no_wrap [of "head q" "load32 (mem q) ?h"] u(1) le w(3)
        unat_u32_bound [of "shm_size q"] by simp
    have rs: "region ?E (mem q) ?h [d] (?h + 4 + length d)"
      "region ?E (mem q) (?h + 4 + length d) d1' w" using r by simp_all
    have "wrapped (q\<lparr>head := head q + load32 (mem q) ?h\<rparr>) (d1' @ d2)"
      unfolding wrapped_def using w(1,3,5,6,7) u2 rs(2)
      by (intro conjI exI [of _ w] exI [of _ d1'] exI [of _ d2])
         (auto simp: add.commute add.left_commute)
    then have h: "holds (q\<lparr>head := head q + load32 (mem q) ?h\<rparr>) (d1' @ d2)"
      using assms u2 le w(3) by (simp add: holds_def valid_cq_def)
    have "holds q (d # d1' @ d2)" using assms w(2) Cons by simp
    from take_block [OF this rs(1) h al ne ne] w(2) Cons show ?thesis by simp
  qed
qed

section \<open>Clients of a bounded queue\<close>

text \<open>
  What a writer and a reader may rely on, whatever the queue is: \<open>contents s\<close> relates
  a state to the messages it holds, \<open>fits\<close> says which messages it takes.
\<close>

datatype 'a queue_op = Put 'a | Take

fun queue_run ::
  "('a \<Rightarrow> 's \<Rightarrow> (bool \<times> 's) option) \<Rightarrow> ('s \<Rightarrow> ('a option \<times> 's) option) \<Rightarrow>
   'a queue_op list \<Rightarrow> 's \<Rightarrow> ('a list \<times> 'a list \<times> 's) option" where
  "queue_run enq deq [] s = Some ([], [], s)"
| "queue_run enq deq (Put x # ops) s =
     do { (ok, s1) \<leftarrow> enq x s; (ins, outs, s2) \<leftarrow> queue_run enq deq ops s1;
          Some (if ok then x # ins else ins, outs, s2) }"
| "queue_run enq deq (Take # ops) s =
     do { (y, s1) \<leftarrow> deq s; (ins, outs, s2) \<leftarrow> queue_run enq deq ops s1;
          Some (ins, (case y of None \<Rightarrow> outs | Some x \<Rightarrow> x # outs), s2) }"

locale fifo =
  fixes enq :: "'a \<Rightarrow> 's \<Rightarrow> (bool \<times> 's) option"
    and deq :: "'s \<Rightarrow> ('a option \<times> 's) option"
    and contents :: "'s \<Rightarrow> 'a list \<Rightarrow> bool"
    and fits :: "'s \<Rightarrow> 'a \<Rightarrow> bool"
  assumes enq_law: "contents s xs \<Longrightarrow> fits s x \<Longrightarrow>
      \<exists>ok s'. enq x s = Some (ok, s') \<and> contents s' (if ok then xs @ [x] else xs) \<and> fits s' = fits s"
    and deq_nil: "contents s [] \<Longrightarrow> \<exists>s'. deq s = Some (None, s') \<and> contents s' [] \<and> fits s' = fits s"
    and deq_cons: "contents s (x # xs) \<Longrightarrow>
      \<exists>s'. deq s = Some (Some x, s') \<and> contents s' xs \<and> fits s' = fits s"
begin

text \<open>Nothing is lost, duplicated or reordered over a whole run.\<close>

lemma run_fifo:
  "contents s xs \<Longrightarrow> (\<And>x. Put x \<in> set ops \<Longrightarrow> fits s x) \<Longrightarrow>
    \<exists>ins outs s' rest. queue_run enq deq ops s = Some (ins, outs, s') \<and>
      contents s' rest \<and> xs @ ins = outs @ rest"
proof (induction ops arbitrary: s xs)
  case Nil
  then show ?case by auto
next
  case (Cons op ops)
  show ?case
  proof (cases op)
    case (Put x)
    then obtain ok s1 where p: "enq x s = Some (ok, s1)"
      "contents s1 (if ok then xs @ [x] else xs)" "fits s1 = fits s"
      using enq_law Cons.prems by (metis list.set_intros(1))
    from Cons.IH [OF p(2)] Cons.prems(2) p(3) obtain ins outs s' rest where
      "queue_run enq deq ops s1 = Some (ins, outs, s')" "contents s' rest"
      "(if ok then xs @ [x] else xs) @ ins = outs @ rest"
      by (metis list.set_intros(2))
    with Put p(1) show ?thesis by (cases ok) auto
  next
    case Take
    show ?thesis
    proof (cases xs)
      case Nil
      then obtain s1 where p: "deq s = Some (None, s1)" "contents s1 []" "fits s1 = fits s"
        using deq_nil Cons.prems by blast
      from Cons.IH [OF p(2)] Cons.prems(2) p(3) obtain ins outs s' rest where
        "queue_run enq deq ops s1 = Some (ins, outs, s')" "contents s' rest" "ins = outs @ rest"
        by (metis append_Nil list.set_intros(2))
      with Take p(1) Nil show ?thesis by auto
    next
      case (Cons y ys)
      then obtain s1 where p: "deq s = Some (Some y, s1)" "contents s1 ys" "fits s1 = fits s"
        using deq_cons Cons.prems by blast
      from Cons.IH [OF p(2)] Cons.prems(2) p(3) obtain ins outs s' rest where
        "queue_run enq deq ops s1 = Some (ins, outs, s')" "contents s' rest" "ys @ ins = outs @ rest"
        by (metis list.set_intros(2))
      with Take p(1) Cons show ?thesis by auto
    qed
  qed
qed

end


text \<open>
  The queue as its two client programs use it: the writer learns whether the message
  went in, the reader gets the bytes behind the pointer it is handed.
\<close>

definition cq_enq :: "bytes \<Rightarrow> shm_cq \<Rightarrow> (bool \<times> shm_cq) option" where
  "cq_enq d q = map_option (\<lambda>(r, q'). (r = 0, q')) (shm_cq_push d (\<lambda>_. head q) q)"

definition cq_deq :: "shm_cq \<Rightarrow> (bytes option \<times> shm_cq) option" where
  "cq_deq q = map_option (\<lambda>(l, p, q'). (map_option (\<lambda>p. mem_read (mem q') p (unat l)) p, q')) (shm_cq_pop q)"

definition cq_fits :: "shm_cq \<Rightarrow> bytes \<Rightarrow> bool" where
  "cq_fits q d = block_ok (unat (elem_max_sz q)) d"

lemma unat_of_nat_msg:
  assumes "holds q ds" "length d + 4 \<le> unat (elem_max_sz q)"
  shows "unat (of_nat (length d) :: u32) = length d"
  by (rule unat_of_nat_small) (use assms in \<open>simp add: holds_def valid_cq_def\<close>)

interpretation cq: fifo cq_enq cq_deq holds cq_fits
proof
  fix q ds d
  assume "holds q ds" "cq_fits q d"
  from push_refines_aux [OF this(1) this(2) [unfolded cq_fits_def]]
  show "\<exists>ok q'. cq_enq d q = Some (ok, q') \<and> holds q' (if ok then ds @ [d] else ds) \<and> cq_fits q' = cq_fits q"
    by (auto simp: cq_enq_def same_reader_def cq_fits_def fun_eq_iff)
next
  fix q
  assume "holds q []"
  from pop_refines_aux [OF this]
  show "\<exists>q'. cq_deq q = Some (None, q') \<and> holds q' [] \<and> cq_fits q' = cq_fits q"
    by (auto simp: cq_deq_def cq_fits_def fun_eq_iff)
next
  fix q d ds
  assume h: "holds q (d # ds)"
  from pop_refines_aux [OF h] unat_of_nat_msg [OF h, of d]
  show "\<exists>q'. cq_deq q = Some (Some d, q') \<and> holds q' ds \<and> cq_fits q' = cq_fits q"
    by (auto simp: cq_deq_def cq_fits_def fun_eq_iff)
qed

section \<open>Properties\<close>

text \<open>A small queue: room for 20 bytes, messages of at most 8.\<close>

definition small_cq :: shm_cq where
  "small_cq = \<lparr>head = 80, tail = 80, shm_size = 100, elem_max_sz = 12, name = ''q'', mem = (\<lambda>_. 0)\<rparr>"

lemma small_cq_holds: "holds small_cq []"
  by (simp add: small_cq_def holds_def straight_def valid_cq_def)

text \<open>
  Creating a queue with arguments that pass its assertion, a short name and
  system calls that succeed gives a queue that holds nothing, whose messages may be
  exactly as long as was asked for.
\<close>

theorem shm_cq_create_empty:
  assumes "unat cq_size < 2000000000" "unat data_max_sz + 4 \<le> unat cq_size" "length nm < 64"
  shows "\<exists>q. shm_cq_create (\<lambda>_. True) (\<lambda>_. True) (\<lambda>_. Some m) nm cq_size data_max_sz = Some (Inr q) \<and>
    holds q [] \<and> name q = nm \<and> unat (shm_size q) = unat cq_size + 80 \<and>
    (\<forall>d. cq_fits q d \<longleftrightarrow> d \<noteq> [] \<and> length d \<le> unat data_max_sz)"
proof -
  have lt: "cq_size > data_max_sz" using assms(2) by (simp add: word_less_nat_alt)
  obtain q where q: "shm_cq_create (\<lambda>_. True) (\<lambda>_. True) (\<lambda>_. Some m) nm cq_size data_max_sz = Some (Inr q)"
    using assms lt by (simp add: shm_cq_create_def Let_def)
  then have "name q = nm" "shm_size q = cq_size + 80"
    using assms lt by (auto simp: shm_cq_create_def Let_def)
  moreover have "unat (cq_size + 80) = unat cq_size + 80"
    using assms(1) by (subst unat_plus_no_wrap) simp_all
  ultimately show ?thesis
    using q shm_cq_create_holds [OF q] by (auto simp: cq_fits_def block_ok_def)
qed

theorem shm_cq_create_empty_witness:
  "\<exists>q. shm_cq_create (\<lambda>_. True) (\<lambda>_. True) (\<lambda>_. Some (\<lambda>_. 0)) ''shmcq_test'' 1000 600 = Some (Inr q) \<and>
    holds q []"
  using shm_cq_create_empty [of 1000 600 "''shmcq_test''" "\<lambda>_. 0"] by auto

text \<open>
  A push of an admissible message never fails its assertion. Either it returns 0
  and the queue then holds the message behind all others, or it returns -1 and the
  queue holds what it held, even when the tail was wrapped in the meantime.
\<close>

theorem shm_cq_push_refines:
  assumes "holds q ds" "cq_fits q d"
  shows "\<exists>r q'. shm_cq_push d (\<lambda>_. head q) q = Some (r, q') \<and>
    (r = 0 \<and> holds q' (ds @ [d]) \<or> r = -1 \<and> holds q' ds)"
  using push_refines_aux [OF assms [unfolded cq_fits_def]] by blast

theorem shm_cq_push_refines_witness:
  "\<exists>r q'. shm_cq_push [1, 2, 3] (\<lambda>_. head small_cq) small_cq = Some (r, q') \<and>
    (r = 0 \<and> holds q' [[1, 2, 3]] \<or> r = -1 \<and> holds q' [])"
  using shm_cq_push_refines [OF small_cq_holds, of "[1, 2, 3]"]
  by (simp add: cq_fits_def block_ok_def small_cq_def)

text \<open>
  A pop returns 0 exactly when the queue holds nothing; otherwise it returns the
  length of the oldest message and a pointer to its bytes, and the queue then holds the
  others.
\<close>

theorem shm_cq_pop_refines:
  assumes "holds q ds"
  shows "\<exists>l p q'. shm_cq_pop q = Some (l, p, q') \<and>
    (case ds of
       [] \<Rightarrow> l = 0 \<and> p = None \<and> holds q' []
     | d # ds' \<Rightarrow> unat l = length d \<and> l \<noteq> 0 \<and> map_option (\<lambda>p. mem_read (mem q') p (length d)) p = Some d \<and>
         holds q' ds')"
proof (cases ds)
  case Nil
  with pop_refines_aux [OF assms] show ?thesis by auto
next
  case (Cons d ds')
  have "d \<noteq> []" if "region E m a (d # ds') b" for E m a b using that by (simp add: block_ok_def)
  then have "d \<noteq> []"
    using assms Cons unfolding holds_def straight_def wrapped_def
    by (auto simp: Cons_eq_append_conv block_ok_def)
  with pop_refines_aux [OF assms] unat_of_nat_msg [OF assms, of d] Cons show ?thesis
    by (fastforce simp: unat_eq_zero)
qed

theorem shm_cq_pop_refines_witness: "\<exists>q'. shm_cq_pop small_cq = Some (0, None, q') \<and> holds q' []"
  using shm_cq_pop_refines [OF small_cq_holds] by auto

text \<open>
  C4: over any sequence of pushes and pops on a queue that starts empty, what was
  popped, followed by what the queue still holds, is what the successful pushes put in:
  nothing is lost, duplicated, corrupted or reordered, through every wrap-around.
\<close>

theorem shm_cq_run_fifo:
  assumes "holds q []" "\<forall>d. Put d \<in> set ops \<longrightarrow> cq_fits q d"
  shows "\<exists>ins outs q' rest. queue_run cq_enq cq_deq ops q = Some (ins, outs, q') \<and>
    holds q' rest \<and> ins = outs @ rest"
  using cq.run_fifo [OF assms(1), of ops] assms(2) by auto

theorem shm_cq_run_fifo_witness:
  "\<exists>ins outs q' rest. queue_run cq_enq cq_deq
     [Put [1, 2, 3, 4, 5], Put [6, 7, 8], Take, Put [9, 9, 9, 9], Take, Put [4, 4]] small_cq =
       Some (ins, outs, q') \<and> holds q' rest \<and> ins = outs @ rest"
  by (rule shm_cq_run_fifo [OF small_cq_holds])
     (auto simp: cq_fits_def block_ok_def small_cq_def)

text \<open>The small queue after one push of two bytes.\<close>

definition loaded_cq :: shm_cq where
  "loaded_cq = \<lparr>head = 80, tail = 86, shm_size = 100, elem_max_sz = 12, name = ''q'',
     mem = put_block (\<lambda>_. 0) 80 [5, 6]\<rparr>"

text \<open>A writer that goes on pushing.\<close>

fun push_all :: "bytes list \<Rightarrow> shm_cq \<Rightarrow> shm_cq option" where
  "push_all [] q = Some q"
| "push_all (d # ds) q = do { (ok, q') \<leftarrow> cq_enq d q; push_all ds q' }"

lemma push_all_same_reader:
  "holds q ds \<Longrightarrow> (\<And>x. x \<in> set xs \<Longrightarrow> cq_fits q x) \<Longrightarrow> \<exists>q'. push_all xs q = Some q' \<and> same_reader q q'"
proof (induction xs arbitrary: q ds)
  case Nil
  then show ?case by simp
next
  case (Cons x xs)
  then have "block_ok (unat (elem_max_sz q)) x" by (simp add: cq_fits_def)
  from push_refines_aux [OF Cons.prems(1) this] obtain r q1 where
    q1: "shm_cq_push x (\<lambda>_. head q) q = Some (r, q1)" "same_reader q q1" "\<exists>ds'. holds q1 ds'" by blast
  then have "cq_fits q1 = cq_fits q" by (simp add: same_reader_def cq_fits_def fun_eq_iff)
  with Cons q1 obtain q' where "push_all xs q1 = Some q'" "same_reader q1 q'" by (metis list.set_intros(2))
  with q1 show ?case by (auto simp: cq_enq_def intro: same_reader_trans)
qed

text \<open>
  C26: the buffer a pop hands out keeps its bytes through any number of further pushes,
  until the next pop.
\<close>

theorem shm_cq_popped_stays:
  assumes "holds q (d # ds)" "shm_cq_pop q = Some (l, Some p, q1)"
    and "\<forall>x \<in> set xs. cq_fits q1 x"
  shows "\<exists>q2. push_all xs q1 = Some q2 \<and> mem_read (mem q2) p (length d) = d"
proof -
  from pop_refines_aux [OF assms(1)] assms(2) have
    q1: "mem_read (mem q1) p (length d) = d" "holds q1 ds" "elem_max_sz q1 = elem_max_sz q"
    "80 \<le> p" "p + length d = unat (head q1)" "length d + 4 \<le> unat (elem_max_sz q)" by auto
  from push_all_same_reader [OF q1(2), of xs] assms(3) obtain q2 where
    q2: "push_all xs q1 = Some q2" "same_reader q1 q2" by auto
  have "mem_read (mem q2) p (length d) = mem_read (mem q1) p (length d)"
    by (rule mem_read_cong) (use q1 q2(2) in \<open>simp add: same_reader_def\<close>)
  with q1 q2 show ?thesis by simp
qed

theorem shm_cq_popped_stays_witness:
  "\<exists>q2. push_all [[7, 7]] (loaded_cq\<lparr>head := 86\<rparr>) = Some q2 \<and> mem_read (mem q2) 84 2 = [5, 6]"
proof -
  have h: "holds loaded_cq [[5, 6]]"
    using region_put_block [of 12 "[5, 6]" "\<lambda>_. 0" 80]
    by (simp add: loaded_cq_def holds_def straight_def valid_cq_def block_ok_def)
  have p: "shm_cq_pop loaded_cq = Some (2, Some 84, loaded_cq\<lparr>head := 86\<rparr>)"
    by (simp add: loaded_cq_def shm_cq_pop_def shm_cq_align_head_def put_block_def byte_simps)
  show ?thesis
    using shm_cq_popped_stays [OF h p, of "[[7, 7]]"]
    by (simp add: cq_fits_def block_ok_def loaded_cq_def numeral_2_eq_2 [symmetric] del: push_all.simps)
qed

lemma cq_deq_tail: "cq_deq q = Some (x, q') \<Longrightarrow> tail q' = tail q"
  by (auto simp: cq_deq_def shm_cq_pop_def shm_cq_align_head_def Let_def split: if_splits)

lemma cq_enq_drained:
  assumes "holds q []" "cq_fits q d" "head q = tail q"
  shows "(\<exists>q'. cq_enq d q = Some (True, q')) \<or>
    cq_enq d q = Some (False, wrap_tail q) \<and> 80 < unat (head q)"
proof -
  have b: "block_ok (unat (elem_max_sz q)) d" using assms(2) by (simp add: cq_fits_def)
  have "80 < unat (head q) \<or> length d + 4 \<le> unat (shm_size q) - unat (tail q)"
    using assms b by (auto simp: holds_def valid_cq_def block_ok_def)
  then show ?thesis
    using shm_cq_push_eq [OF assms(1) b] assms(3) by (auto simp: cq_enq_def Let_def)
qed

text \<open>
  C27: a drained queue takes every admissible message after at most one refused push:
  the refusal has wrapped the tail, the reader's next pop wraps the head, and then the
  whole queue is free. So the retry loops of the clients end.
\<close>

theorem shm_cq_drained_accepts:
  assumes "holds q []" "cq_fits q d" "cq_deq q = Some (None, q1)" "cq_enq d q1 = Some (False, q2)"
  shows "\<exists>q3 q4. cq_deq q2 = Some (None, q3) \<and> cq_enq d q3 = Some (True, q4) \<and> holds q4 [d]"
proof -
  from pop_refines_aux [OF assms(1)] assms(3) have
    q1: "holds q1 []" "head q1 = tail q1" "elem_max_sz q1 = elem_max_sz q" by (auto simp: cq_deq_def)
  then have f1: "cq_fits q1 d" using assms(2) by (simp add: cq_fits_def)
  from cq_enq_drained [OF q1(1) f1 q1(2)] assms(4)
  have q2: "q2 = wrap_tail q1" "80 < unat (head q1)" by auto
  have "straight q1 []" using q1 by (simp add: straight_def)
  note w = wrap_tail_holds [OF q1(1) this q2(2)]
  from pop_refines_aux [OF w(1)] obtain q3 where
    q3: "cq_deq q2 = Some (None, q3)" "holds q3 []" "head q3 = tail q3" "elem_max_sz q3 = elem_max_sz q1"
    using q2(1) w(4) by (auto simp: cq_deq_def)
  have "tail q3 = 80" using cq_deq_tail [OF q3(1)] q2(1) w(6) by simp
  moreover have f3: "cq_fits q3 d" using f1 q3(4) by (simp add: cq_fits_def)
  ultimately obtain q4 where q4: "cq_enq d q3 = Some (True, q4)"
    using cq_enq_drained [OF q3(2) f3 q3(3)] q3(3) by auto
  with cq.enq_law [OF q3(2) f3] have "holds q4 [d]" by auto
  with q3(1) q4 show ?thesis by blast
qed

definition drained_cq :: shm_cq where
  "drained_cq = \<lparr>head = 92, tail = 92, shm_size = 100, elem_max_sz = 12, name = ''q'', mem = (\<lambda>_. 0)\<rparr>"

theorem shm_cq_drained_accepts_witness:
  "\<exists>q2 q3 q4. cq_enq [1, 2, 3, 4, 5, 6, 7, 8] drained_cq = Some (False, q2) \<and>
    cq_deq q2 = Some (None, q3) \<and> cq_enq [1, 2, 3, 4, 5, 6, 7, 8] q3 = Some (True, q4) \<and>
    holds q4 [[1, 2, 3, 4, 5, 6, 7, 8]]"
proof -
  have h: "holds drained_cq []"
    by (simp add: drained_cq_def holds_def straight_def valid_cq_def)
  have f: "cq_fits drained_cq [1, 2, 3, 4, 5, 6, 7, 8]"
    by (simp add: drained_cq_def cq_fits_def block_ok_def)
  have d: "cq_deq drained_cq = Some (None, drained_cq)"
    by (simp add: drained_cq_def cq_deq_def shm_cq_pop_def)
  have "\<exists>q2. cq_enq [1, 2, 3, 4, 5, 6, 7, 8] drained_cq = Some (False, q2)"
    by (simp add: drained_cq_def cq_enq_def shm_cq_push_def shm_cq_align_tail_def Let_def
        shm_cq_tail_align_wait_def shm_cq_push_wait_def wait_for_const)
  then obtain q2 where "cq_enq [1, 2, 3, 4, 5, 6, 7, 8] drained_cq = Some (False, q2)" by blast
  with shm_cq_drained_accepts [OF h f d this] show ?thesis by blast
qed

end
