(* ===== verification/QDes.thy ===== *)
theory QDes
  imports QDesTables
begin

unbundle bit_operations_syntax

text \<open>
  \<open>crypt/qdes.c\<close>: DES in electronic codebook mode. The macros are functions of their
  operands that return the new values; a schedule is the 32 \<open>DES_LONG\<close>s the code writes
  through \<open>k\<close>. Buffers are byte lists, and \<open>None\<close> is a read past the end of one or a
  failed \<open>assert\<close>.
\<close>

section \<open>The macros\<close>

definition PERM_OP :: "des_long \<Rightarrow> des_long \<Rightarrow> nat \<Rightarrow> des_long \<Rightarrow> des_long \<times> des_long" where
  "PERM_OP a b n m = (let t = (drop_bit n a XOR b) AND m in (a XOR push_bit n t, b XOR t))"

definition HPERM_OP :: "des_long \<Rightarrow> int \<Rightarrow> des_long \<Rightarrow> des_long" where
  "HPERM_OP a n m =
     (let t = (push_bit (nat (16 - n)) a XOR a) AND m in a XOR t XOR drop_bit (nat (16 - n)) t)"

fun c2l :: "bytes \<Rightarrow> (des_long \<times> bytes) option" where
  "c2l (b0 # b1 # b2 # b3 # c) =
     Some (ucast b0 OR push_bit 8 (ucast b1) OR push_bit 16 (ucast b2) OR push_bit 24 (ucast b3), c)"
| "c2l _ = None"

definition l2c :: "des_long \<Rightarrow> bytes" where
  "l2c l = [ucast (l AND 0xff), ucast (drop_bit 8 l AND 0xff),
            ucast (drop_bit 16 l AND 0xff), ucast (drop_bit 24 l AND 0xff)]"

definition IP :: "des_long \<Rightarrow> des_long \<Rightarrow> des_long \<times> des_long" where
  "IP l r =
     (let (r, l) = PERM_OP r l 4 0x0f0f0f0f;
          (l, r) = PERM_OP l r 16 0x0000ffff;
          (r, l) = PERM_OP r l 2 0x33333333;
          (l, r) = PERM_OP l r 8 0x00ff00ff;
          (r, l) = PERM_OP r l 1 0x55555555
      in (l, r))"

definition FP :: "des_long \<Rightarrow> des_long \<Rightarrow> des_long \<times> des_long" where
  "FP l r =
     (let (l, r) = PERM_OP l r 1 0x55555555;
          (r, l) = PERM_OP r l 8 0x00ff00ff;
          (l, r) = PERM_OP l r 2 0x33333333;
          (r, l) = PERM_OP r l 16 0x0000ffff;
          (l, r) = PERM_OP l r 4 0x0f0f0f0f
      in (l, r))"

text \<open>
  The unions \<open>U\<close> and \<open>T\<close> reread a \<open>long\<close> as two shorts or four bytes, low part first.
\<close>

definition union_s :: "des_long \<Rightarrow> nat \<Rightarrow> u16" where
  "union_s l i = ucast (drop_bit (16 * i) l)"

definition union_c :: "des_long \<Rightarrow> nat \<Rightarrow> nat" where
  "union_c l i = unat (ucast (drop_bit (8 * i) l) :: u8)"

definition D_ENCRYPT :: "des_long \<Rightarrow> des_long \<Rightarrow> des_long list \<Rightarrow> nat \<Rightarrow> des_long" where
  "D_ENCRYPT L R s S =
     (let U = R XOR s ! (S + 1);
          t0 = (drop_bit 4 (union_s U 0) OR push_bit 12 (union_s U 1)) AND 0x3f3f;
          t1 = (drop_bit 4 (union_s U 1) OR push_bit 12 (union_s U 0)) AND 0x3f3f;
          T = (ucast t0 OR push_bit 16 (ucast t1) :: des_long);
          U = (R XOR s ! S) AND 0x3f3f3f3f
      in L XOR (des_SPtrans ! 1 ! union_c T 0 OR
                des_SPtrans ! 3 ! union_c T 1 OR
                des_SPtrans ! 5 ! union_c T 2 OR
                des_SPtrans ! 7 ! union_c T 3 OR
                des_SPtrans ! 0 ! union_c U 0 OR
                des_SPtrans ! 2 ! union_c U 1 OR
                des_SPtrans ! 4 ! union_c U 2 OR
                des_SPtrans ! 6 ! union_c U 3))"

section \<open>The key schedule\<close>

definition key_round :: "int \<Rightarrow> des_long \<Rightarrow> des_long \<Rightarrow> des_long \<times> des_long" where
  "key_round shift2 c d =
     (let (c, d) = (if shift2 \<noteq> 0
                    then (drop_bit 2 c OR push_bit 26 c, drop_bit 2 d OR push_bit 26 d)
                    else (drop_bit 1 c OR push_bit 27 c, drop_bit 1 d OR push_bit 27 d))
      in (c AND 0x0fffffff, d AND 0x0fffffff))"

definition round_keys :: "des_long \<Rightarrow> des_long \<Rightarrow> des_long list" where
  "round_keys c d =
     (let s = des_skb ! 0 ! unat (c AND 0x3f) OR
              des_skb ! 1 ! unat ((drop_bit 6 c AND 0x03) OR (drop_bit 7 c AND 0x3c)) OR
              des_skb ! 2 ! unat ((drop_bit 13 c AND 0x0f) OR (drop_bit 14 c AND 0x30)) OR
              des_skb ! 3 ! unat ((drop_bit 20 c AND 0x01) OR (drop_bit 21 c AND 0x06) OR
                                  (drop_bit 22 c AND 0x38));
          t = des_skb ! 4 ! unat (d AND 0x3f) OR
              des_skb ! 5 ! unat ((drop_bit 7 d AND 0x03) OR (drop_bit 8 d AND 0x3c)) OR
              des_skb ! 6 ! unat (drop_bit 15 d AND 0x3f) OR
              des_skb ! 7 ! unat ((drop_bit 21 d AND 0x0f) OR (drop_bit 22 d AND 0x30));
          k0 = (push_bit 16 t OR (s AND 0x0000ffff)) AND 0xffffffff;
          s = drop_bit 16 s OR (t AND 0xffff0000);
          s = push_bit 4 s OR drop_bit 28 s
      in [k0, s AND 0xffffffff])"

fun key_rounds :: "int list \<Rightarrow> des_long \<Rightarrow> des_long \<Rightarrow> des_long list" where
  "key_rounds [] c d = []"
| "key_rounds (sh # shs) c d = (let (c, d) = key_round sh c d in round_keys c d @ key_rounds shs c d)"

definition des_set_key :: "bytes \<Rightarrow> des_long list option" where
  "des_set_key key =
     do { (c, inp) \<leftarrow> c2l key;
          (d, _) \<leftarrow> c2l inp;
          let (d, c) = PERM_OP d c 4 0x0f0f0f0f;
              c = HPERM_OP c (-2) 0xcccc0000;
              d = HPERM_OP d (-2) 0xcccc0000;
              (d, c) = PERM_OP d c 1 0x55555555;
              (c, d) = PERM_OP c d 8 0x00ff00ff;
              (d, c) = PERM_OP d c 1 0x55555555;
              d = (push_bit 16 (d AND 0x000000ff) OR (d AND 0x0000ff00) OR
                   drop_bit 16 (d AND 0x00ff0000) OR drop_bit 4 (c AND 0xf0000000));
              c = c AND 0x0fffffff
          in Some (key_rounds shifts2 c d) }"

section \<open>Encrypting and decrypting a block\<close>

text \<open>One pass of the round loops: two rounds, at \<open>i\<close> and \<open>i + 2\<close> or \<open>i\<close> and \<open>i - 2\<close>.\<close>

definition enc_step :: "des_long list \<Rightarrow> nat \<Rightarrow> des_long \<times> des_long \<Rightarrow> des_long \<times> des_long" where
  "enc_step s i = (\<lambda>(l, r).
     (let l = D_ENCRYPT l r s (i + 0); r = D_ENCRYPT r l s (i + 2) in (l, r)))"

definition dec_step :: "des_long list \<Rightarrow> nat \<Rightarrow> des_long \<times> des_long \<Rightarrow> des_long \<times> des_long" where
  "dec_step s i = (\<lambda>(l, r).
     (let l = D_ENCRYPT l r s (i - 0); r = D_ENCRYPT r l s (i - 2) in (l, r)))"

function enc_rounds :: "des_long list \<Rightarrow> nat \<Rightarrow> des_long \<times> des_long \<Rightarrow> des_long \<times> des_long" where
  "enc_rounds s i lr = (if i < 32 then enc_rounds s (i + 4) (enc_step s i lr) else lr)"
  by pat_completeness auto
termination by (relation "measure (\<lambda>(_, i, _). 32 - i)") auto

function dec_rounds :: "des_long list \<Rightarrow> nat \<Rightarrow> des_long \<times> des_long \<Rightarrow> des_long \<times> des_long" where
  "dec_rounds s i lr = (if i > 0 then dec_rounds s (i - 4) (dec_step s i lr) else lr)"
  by pat_completeness auto
termination by (relation "measure (\<lambda>(_, i, _). i)") auto

declare enc_rounds.simps [simp del] dec_rounds.simps [simp del]

definition do_des_ecb_encrypt :: "des_long \<times> des_long \<Rightarrow> des_long list \<Rightarrow> bool \<Rightarrow> des_long \<times> des_long" where
  "do_des_ecb_encrypt data ks encrypt =
     (let (u, r) = IP (fst data) (snd data);
          l = (push_bit 1 r OR drop_bit 31 r) AND 0xffffffff;
          r = (push_bit 1 u OR drop_bit 31 u) AND 0xffffffff;
          (l, r) = (if encrypt then enc_rounds ks 0 (l, r) else dec_rounds ks 30 (l, r));
          l = (drop_bit 1 l OR push_bit 31 l) AND 0xffffffff;
          r = (drop_bit 1 r OR push_bit 31 r) AND 0xffffffff;
          (r, l) = FP r l
      in (l, r))"

definition des_ecb_encrypt :: "des_long list \<Rightarrow> bool \<Rightarrow> bytes \<Rightarrow> bytes option" where
  "des_ecb_encrypt ks encrypt inp =
     do { (l0, inp) \<leftarrow> c2l inp;
          (l1, _) \<leftarrow> c2l inp;
          let (l0, l1) = do_des_ecb_encrypt (l0, l1) ks encrypt
          in Some (l2c l0 @ l2c l1) }"

section \<open>The interface\<close>

definition des_encrypt :: "bytes \<Rightarrow> bytes \<Rightarrow> bytes option" where
  "des_encrypt key s_text = do { sch \<leftarrow> des_set_key key; des_ecb_encrypt sch True s_text }"

definition des_decrypt :: "bytes \<Rightarrow> bytes \<Rightarrow> bytes option" where
  "des_decrypt key s_text = do { sch \<leftarrow> des_set_key key; des_ecb_encrypt sch False s_text }"

text \<open>The loop over the blocks of a text: both pointers move on by 8 bytes.\<close>

fun ecb_loop :: "(bytes \<Rightarrow> bytes option) \<Rightarrow> nat \<Rightarrow> bytes \<Rightarrow> bytes option" where
  "ecb_loop f 0 s_text = Some []"
| "ecb_loop f (Suc n) s_text =
     do { d \<leftarrow> f s_text; ds \<leftarrow> ecb_loop f n (drop 8 s_text); Some (d @ ds) }"

definition des_encrypt_n :: "bytes \<Rightarrow> bytes \<Rightarrow> int \<Rightarrow> bytes option" where
  "des_encrypt_n key s_text n =
     (if \<not> n > 0 then None
      else do { sch \<leftarrow> des_set_key key; ecb_loop (des_ecb_encrypt sch True) (nat n) s_text })"

definition des_decrypt_n :: "bytes \<Rightarrow> bytes \<Rightarrow> int \<Rightarrow> bytes option" where
  "des_decrypt_n key s_text n =
     (if \<not> n > 0 then None
      else do { sch \<leftarrow> des_set_key key; ecb_loop (des_ecb_encrypt sch False) (nat n) s_text })"


section \<open>32-bit values in 64-bit words\<close>

definition b32 :: "des_long \<Rightarrow> bool" where
  "b32 x \<longleftrightarrow> (\<forall>i. bit x i \<longrightarrow> i < 32)"

lemma b32D: "b32 x \<Longrightarrow> bit x i \<Longrightarrow> i < 32"
  by (simp add: b32_def)

lemma b32_take_bit: "b32 x \<longleftrightarrow> take_bit 32 x = x"
proof
  assume "b32 x"
  then show "take_bit 32 x = x" by (auto intro!: bit_word_eqI simp: bit_take_bit_iff dest: b32D)
next
  assume *: "take_bit 32 x = x"
  show "b32 x" unfolding b32_def
  proof (intro allI impI)
    fix i assume "bit x i"
    then have "bit (take_bit 32 x) i" using * by simp
    then show "i < 32" by (simp add: bit_take_bit_iff)
  qed
qed

lemma b32_less: "x < 0x100000000 \<Longrightarrow> b32 x"
proof -
  assume "x < 0x100000000"
  then have "unat x < 2 ^ 32" by (simp add: word_less_nat_alt)
  then have "take_bit 32 x = x" by (simp add: word_unat_eq_iff unsigned_take_bit_eq take_bit_nat_eq_self)
  then show ?thesis by (simp add: b32_take_bit)
qed

lemma b32_mask: "x AND 0xffffffff = x \<Longrightarrow> b32 x"
  by (simp add: b32_take_bit take_bit_eq_mask mask_eq_exp_minus_1)

lemma b32_and_mask: "b32 x \<Longrightarrow> x AND 0xffffffff = x"
  by (simp add: b32_take_bit take_bit_eq_mask mask_eq_exp_minus_1)

lemma b32_mask_and [simp]: "b32 (x AND 0xffffffff)"
  by (rule b32_mask) simp

lemma b32_xor [intro]: "b32 x \<Longrightarrow> b32 y \<Longrightarrow> b32 (x XOR y)"
  by (auto simp: b32_def bit_xor_iff)

lemma b32_or [intro]: "b32 x \<Longrightarrow> b32 y \<Longrightarrow> b32 (x OR y)"
  by (auto simp: b32_def bit_or_iff)

lemma b32_and2: "b32 y \<Longrightarrow> b32 (x AND y)"
  by (auto simp: b32_def bit_and_iff)

section \<open>Inverting the permutations\<close>

lemma drop_push_b32: "b32 t \<Longrightarrow> n < 32 \<Longrightarrow> drop_bit n (push_bit n t) = t"
proof (rule bit_word_eqI)
  fix i
  assume "b32 t" "n < 32" "i < LENGTH(64)"
  moreover have "bit t i \<Longrightarrow> n + i < 64" using b32D [OF \<open>b32 t\<close>, of i] \<open>n < 32\<close> by simp
  ultimately show "bit (drop_bit n (push_bit n t)) i \<longleftrightarrow> bit t i"
    by (auto simp: bit_drop_bit_eq bit_push_bit_iff)
qed

lemma PERM_OP_undo:
  assumes "PERM_OP a b n m = (a', b')" "n < 32" "b32 m"
  shows "PERM_OP a' b' n m = (a, b)"
proof -
  let ?t = "(drop_bit n a XOR b) AND m"
  have e: "a' = a XOR push_bit n ?t" "b' = b XOR ?t"
    using assms(1) by (auto simp: PERM_OP_def Let_def)
  have d: "drop_bit n (push_bit n ?t) = ?t"
    by (rule drop_push_b32 [OF b32_and2 [OF assms(3)] assms(2)])
  have x: "(x XOR t) XOR (y XOR t) = x XOR y" "(x XOR t) XOR t = x" for x y t :: des_long
    by (rule bit_word_eqI, auto simp: bit_xor_iff)+
  have "drop_bit n a' = drop_bit n a XOR ?t" by (simp only: e drop_bit_xor d)
  then have "drop_bit n a' XOR b' = drop_bit n a XOR b" by (simp only: e x)
  then show ?thesis
    unfolding PERM_OP_def Let_def by (simp only: e x)
qed

lemma PERM_OP_undo_at:
  "PERM_OP a b 4 0x0f0f0f0f = (a', b') \<Longrightarrow> PERM_OP a' b' 4 0x0f0f0f0f = (a, b)"
  "PERM_OP a b 16 0x0000ffff = (a', b') \<Longrightarrow> PERM_OP a' b' 16 0x0000ffff = (a, b)"
  "PERM_OP a b 2 0x33333333 = (a', b') \<Longrightarrow> PERM_OP a' b' 2 0x33333333 = (a, b)"
  "PERM_OP a b 8 0x00ff00ff = (a', b') \<Longrightarrow> PERM_OP a' b' 8 0x00ff00ff = (a, b)"
  "PERM_OP a b 1 0x55555555 = (a', b') \<Longrightarrow> PERM_OP a' b' 1 0x55555555 = (a, b)"
  by (erule PERM_OP_undo; simp add: b32_less)+

text \<open>The five steps of \<open>IP\<close> and of \<open>FP\<close>, named.\<close>

lemma IP_steps:
  assumes "IP l r = (l', r')"
  obtains r1 l1 l2 r2 r3 l3 l4 r4 where "PERM_OP r l 4 0x0f0f0f0f = (r1, l1)"
    "PERM_OP l1 r1 16 0x0000ffff = (l2, r2)" "PERM_OP r2 l2 2 0x33333333 = (r3, l3)"
    "PERM_OP l3 r3 8 0x00ff00ff = (l4, r4)" "PERM_OP r4 l4 1 0x55555555 = (r', l')"
  using assms unfolding IP_def Let_def by (auto split: prod.splits)

lemma FP_steps:
  assumes "FP l r = (l', r')"
  obtains l1 r1 r2 l2 l3 r3 r4 l4 where "PERM_OP l r 1 0x55555555 = (l1, r1)"
    "PERM_OP r1 l1 8 0x00ff00ff = (r2, l2)" "PERM_OP l2 r2 2 0x33333333 = (l3, r3)"
    "PERM_OP r3 l3 16 0x0000ffff = (r4, l4)" "PERM_OP l4 r4 4 0x0f0f0f0f = (l', r')"
  using assms unfolding FP_def Let_def by (auto split: prod.splits)

lemma FP_intro:
  assumes "PERM_OP l r 1 0x55555555 = (l1, r1)"
    "PERM_OP r1 l1 8 0x00ff00ff = (r2, l2)" "PERM_OP l2 r2 2 0x33333333 = (l3, r3)"
    "PERM_OP r3 l3 16 0x0000ffff = (r4, l4)" "PERM_OP l4 r4 4 0x0f0f0f0f = (l', r')"
  shows "FP l r = (l', r')"
  using assms unfolding FP_def Let_def by (simp only: prod.case)

lemma IP_intro:
  assumes "PERM_OP r l 4 0x0f0f0f0f = (r1, l1)"
    "PERM_OP l1 r1 16 0x0000ffff = (l2, r2)" "PERM_OP r2 l2 2 0x33333333 = (r3, l3)"
    "PERM_OP l3 r3 8 0x00ff00ff = (l4, r4)" "PERM_OP r4 l4 1 0x55555555 = (r', l')"
  shows "IP l r = (l', r')"
  using assms unfolding IP_def Let_def by (simp only: prod.case)

lemma FP_IP: "IP l r = (l', r') \<Longrightarrow> FP r' l' = (r, l)"
  by (erule IP_steps, rule FP_intro) (erule PERM_OP_undo_at)+

lemma IP_FP: "FP l r = (l', r') \<Longrightarrow> IP r' l' = (r, l)"
  by (erule FP_steps, rule IP_intro) (erule PERM_OP_undo_at)+

lemma PERM_OP_b32:
  assumes "PERM_OP a b n m = (a', b')" "b32 a" "b32 b" "b32 (push_bit n m)" "b32 m"
  shows "b32 a' \<and> b32 b'"
proof -
  let ?t = "(drop_bit n a XOR b) AND m"
  have "b32 ?t" using assms(5) by (rule b32_and2)
  moreover have "b32 (push_bit n ?t)" unfolding push_bit_and using assms(4) by (rule b32_and2)
  moreover have "a' = a XOR push_bit n ?t" "b' = b XOR ?t" using assms(1) by (auto simp: PERM_OP_def Let_def)
  ultimately show ?thesis using assms(2,3) by (simp add: b32_xor)
qed

lemma PERM_OP_b32_at:
  "PERM_OP a b 4 0x0f0f0f0f = (a', b') \<Longrightarrow> b32 a \<and> b32 b \<Longrightarrow> b32 a' \<and> b32 b'"
  "PERM_OP a b 16 0x0000ffff = (a', b') \<Longrightarrow> b32 a \<and> b32 b \<Longrightarrow> b32 a' \<and> b32 b'"
  "PERM_OP a b 2 0x33333333 = (a', b') \<Longrightarrow> b32 a \<and> b32 b \<Longrightarrow> b32 a' \<and> b32 b'"
  "PERM_OP a b 8 0x00ff00ff = (a', b') \<Longrightarrow> b32 a \<and> b32 b \<Longrightarrow> b32 a' \<and> b32 b'"
  "PERM_OP a b 1 0x55555555 = (a', b') \<Longrightarrow> b32 a \<and> b32 b \<Longrightarrow> b32 a' \<and> b32 b'"
  by (erule PERM_OP_b32; simp add: b32_less)+

lemma IP_b32: "IP l r = (l', r') \<Longrightarrow> b32 l \<and> b32 r \<Longrightarrow> b32 l' \<and> b32 r'"
  by (erule IP_steps) (blast dest: PERM_OP_b32_at)

lemma FP_b32: "FP l r = (l', r') \<Longrightarrow> b32 l \<and> b32 r \<Longrightarrow> b32 l' \<and> b32 r'"
  by (erule FP_steps) (blast dest: PERM_OP_b32_at)

section \<open>Inverting the rounds\<close>

text \<open>
  What a round adds to its left half depends on the right half and the round keys only,
  so adding it twice changes nothing, whatever the tables hold.
\<close>

lemma D_ENCRYPT_undo: "D_ENCRYPT (D_ENCRYPT L R s S) R s S = L"
proof -
  have "(x XOR y) XOR y = x" for x y :: des_long by (rule bit_word_eqI) (auto simp: bit_xor_iff)
  then show ?thesis by (simp only: D_ENCRYPT_def Let_def)
qed

lemma dec_enc_step: "i + 2 = j \<Longrightarrow> dec_step s j (prod.swap (enc_step s i p)) = prod.swap p"
  by (cases p) (auto simp: dec_step_def enc_step_def Let_def D_ENCRYPT_undo)

lemma enc_dec_step: "i + 2 = j \<Longrightarrow> enc_step s i (prod.swap (dec_step s j p)) = prod.swap p"
  by (cases p) (auto simp: dec_step_def enc_step_def Let_def D_ENCRYPT_undo)

lemma enc_rounds_unfold:
  "enc_rounds s 0 p = enc_step s 28 (enc_step s 24 (enc_step s 20 (enc_step s 16
     (enc_step s 12 (enc_step s 8 (enc_step s 4 (enc_step s 0 p)))))))"
  by (simp add: enc_rounds.simps)

lemma dec_rounds_unfold:
  "dec_rounds s 30 p = dec_step s 2 (dec_step s 6 (dec_step s 10 (dec_step s 14
     (dec_step s 18 (dec_step s 22 (dec_step s 26 (dec_step s 30 p)))))))"
  by (simp add: dec_rounds.simps)

lemma dec_enc_rounds: "dec_rounds s 30 (prod.swap (enc_rounds s 0 p)) = prod.swap p"
  by (simp add: enc_rounds_unfold dec_rounds_unfold dec_enc_step)

lemma enc_dec_rounds: "enc_rounds s 0 (prod.swap (dec_rounds s 30 p)) = prod.swap p"
  by (simp add: enc_rounds_unfold dec_rounds_unfold enc_dec_step)

text \<open>The rounds keep both halves within 32 bits: every table entry is a 32-bit number.\<close>

lemma union_c_bound:
  assumes "\<not> bit U (8 * i + 6)" "\<not> bit U (8 * i + 7)"
  shows "union_c U i < 64"
proof -
  let ?b = "ucast (drop_bit (8 * i) U) :: u8"
  have "take_bit 6 ?b = ?b"
  proof (rule bit_word_eqI)
    fix k assume "k < LENGTH(8)"
    then consider "k < 6" | "k = 6" | "k = 7" by fastforce
    then show "bit (take_bit 6 ?b) k \<longleftrightarrow> bit ?b k"
      using assms by cases (auto simp: bit_take_bit_iff bit_ucast_iff bit_drop_bit_eq)
  qed
  then have "union_c U i = unat (take_bit 6 ?b)" by (simp add: union_c_def)
  also have "\<dots> = take_bit 6 (unat ?b)" by (simp add: unsigned_take_bit_eq)
  also have "\<dots> < 2 ^ 6" by (rule take_bit_nat_less_exp)
  finally show ?thesis by simp
qed

lemma less_4_cases: "(i :: nat) < 4 \<Longrightarrow> i = 0 \<or> i = 1 \<or> i = 2 \<or> i = 3"
  by linarith

lemma union_c_masked: "i < 4 \<Longrightarrow> union_c (x AND 0x3f3f3f3f) i < 64"
  by (drule less_4_cases, rule union_c_bound) (auto simp: bit_and_iff)

lemma union_c_T:
  "i < 4 \<Longrightarrow> union_c (ucast ((a :: u16) AND 0x3f3f) OR push_bit 16 (ucast ((b :: u16) AND 0x3f3f))) i < 64"
  by (drule less_4_cases, rule union_c_bound)
     (auto simp: bit_and_iff bit_or_iff bit_push_bit_iff bit_ucast_iff dest: bit_imp_le_length)

lemma SP_bound: "i < 8 \<Longrightarrow> j < 64 \<Longrightarrow> b32 (des_SPtrans ! i ! j)"
  by (rule b32_less, rule table_entry_bound [OF des_SPtrans_ok])

lemma D_ENCRYPT_b32: "b32 L \<Longrightarrow> b32 (D_ENCRYPT L R s S)"
  unfolding D_ENCRYPT_def Let_def
  by (intro b32_xor b32_or SP_bound union_c_T union_c_masked; simp)

lemma enc_step_b32: "b32 (fst p) \<and> b32 (snd p) \<Longrightarrow> b32 (fst (enc_step s i p)) \<and> b32 (snd (enc_step s i p))"
  by (cases p) (simp add: enc_step_def Let_def D_ENCRYPT_b32)

lemma dec_step_b32: "b32 (fst p) \<and> b32 (snd p) \<Longrightarrow> b32 (fst (dec_step s i p)) \<and> b32 (snd (dec_step s i p))"
  by (cases p) (simp add: dec_step_def Let_def D_ENCRYPT_b32)

lemma enc_rounds_b32:
  "b32 (fst p) \<and> b32 (snd p) \<Longrightarrow> b32 (fst (enc_rounds s i p)) \<and> b32 (snd (enc_rounds s i p))"
proof (induction s i p rule: enc_rounds.induct)
  case (1 s i p)
  then show ?case using enc_step_b32 by (subst (1 2) enc_rounds.simps) auto
qed

lemma dec_rounds_b32:
  "b32 (fst p) \<and> b32 (snd p) \<Longrightarrow> b32 (fst (dec_rounds s i p)) \<and> b32 (snd (dec_rounds s i p))"
proof (induction s i p rule: dec_rounds.induct)
  case (1 s i p)
  then show ?case using dec_step_b32 by (subst (1 2) dec_rounds.simps) auto
qed

section \<open>Inverting a block\<close>

definition rotl :: "des_long \<Rightarrow> des_long" where
  "rotl x = (push_bit 1 x OR drop_bit 31 x) AND 0xffffffff"

definition rotr :: "des_long \<Rightarrow> des_long" where
  "rotr x = (drop_bit 1 x OR push_bit 31 x) AND 0xffffffff"

lemma and_mask_32: "y AND 0xffffffff = take_bit 32 y" for y :: des_long
  by (simp add: take_bit_eq_mask mask_eq_exp_minus_1)

lemma bit_rotl:
  assumes "b32 x"
  shows "bit (rotl x) i \<longleftrightarrow> i < 32 \<and> (if i = 0 then bit x 31 else bit x (i - 1))"
proof -
  have "\<not> bit x (31 + i)" if "i \<noteq> 0" using b32D [OF assms, of "31 + i"] that by auto
  then show ?thesis
    unfolding rotl_def and_mask_32 bit_take_bit_iff bit_or_iff bit_push_bit_iff bit_drop_bit_eq o_def
    by (auto simp: Suc_le_eq)
qed

lemma bit_rotr:
  assumes "b32 x"
  shows "bit (rotr x) i \<longleftrightarrow> i < 32 \<and> (if i = 31 then bit x 0 else bit x (i + 1))"
proof -
  have "\<not> bit x 32" using b32D [OF assms, of 32] by auto
  then show ?thesis
    unfolding rotr_def and_mask_32 bit_take_bit_iff bit_or_iff bit_push_bit_iff bit_drop_bit_eq o_def
    by (auto simp: le_less_Suc_eq)
qed

lemma b32_rot [simp]: "b32 (rotl x)" "b32 (rotr x)"
  by (simp_all add: rotl_def rotr_def del: One_nat_def)

lemma rot_inverse [simp]:
  assumes "b32 x"
  shows "rotr (rotl x) = x" "rotl (rotr x) = x"
  by (rule bit_word_eqI, auto simp: bit_rotl bit_rotr assms dest: b32D [OF assms])+

text \<open>A block through either direction, as its five named stages.\<close>

lemma do_des_steps:
  "do_des_ecb_encrypt data ks encrypt =
     (let (u, r) = IP (fst data) (snd data);
          p = (if encrypt then enc_rounds ks 0 (rotl r, rotl u) else dec_rounds ks 30 (rotl r, rotl u))
      in prod.swap (FP (rotr (snd p)) (rotr (fst p))))"
  unfolding do_des_ecb_encrypt_def rotl_def rotr_def Let_def
  by (simp add: case_prod_beta prod.swap_def)

lemma do_des_inverse:
  assumes "b32 (fst data)" "b32 (snd data)"
  shows "do_des_ecb_encrypt (do_des_ecb_encrypt data ks b) ks (\<not> b) = data"
    and "b32 (fst (do_des_ecb_encrypt data ks b)) \<and> b32 (snd (do_des_ecb_encrypt data ks b))"
proof -
  obtain u r where ip: "IP (fst data) (snd data) = (u, r)" by fastforce
  have b: "b32 u \<and> b32 r" by (rule IP_b32 [OF ip]) (use assms in simp)
  define p where "p = (if b then enc_rounds ks 0 (rotl r, rotl u) else dec_rounds ks 30 (rotl r, rotl u))"
  have pb: "b32 (fst p) \<and> b32 (snd p)"
    using enc_rounds_b32 [of "(rotl r, rotl u)"] dec_rounds_b32 [of "(rotl r, rotl u)"]
    by (auto simp: p_def)
  obtain r' l' where fp: "FP (rotr (snd p)) (rotr (fst p)) = (r', l')" by fastforce
  have d: "do_des_ecb_encrypt data ks b = (l', r')"
    by (simp add: do_des_steps ip p_def [symmetric] fp)
  show "b32 (fst (do_des_ecb_encrypt data ks b)) \<and> b32 (snd (do_des_ecb_encrypt data ks b))"
    using FP_b32 [OF fp] by (simp add: d)
  have ip': "IP l' r' = (rotr (fst p), rotr (snd p))" by (rule IP_FP [OF fp])
  define p' where "p' = (if b then dec_rounds ks 30 (snd p, fst p) else enc_rounds ks 0 (snd p, fst p))"
  have "p' = (rotl u, rotl r)"
    using dec_enc_rounds [of ks "(rotl r, rotl u)"] enc_dec_rounds [of ks "(rotl r, rotl u)"]
    by (auto simp: p'_def p_def prod.swap_def)
  moreover have "FP r u = (snd data, fst data)" by (rule FP_IP [OF ip])
  ultimately show "do_des_ecb_encrypt (do_des_ecb_encrypt data ks b) ks (\<not> b) = data"
    using b pb by (simp only: d) (simp add: do_des_steps ip' p'_def split: if_splits)
qed

section \<open>Blocks as bytes\<close>

lemma bit_u8: "bit (b :: u8) k \<Longrightarrow> k < 8"
  using bit_imp_le_length [of b k] by simp

lemma c2l_b32: "c2l bs = Some (l, c) \<Longrightarrow> b32 l"
  by (cases bs rule: c2l.cases)
     (auto simp: b32_def bit_or_iff bit_push_bit_iff bit_ucast_iff dest!: bit_u8)

lemma c2l_l2c: "b32 l \<Longrightarrow> c2l (l2c l @ c) = Some (l, c)"
proof -
  assume l: "b32 l"
  have "(ucast (ucast (l AND 0xff) :: u8) :: des_long) OR push_bit 8 (ucast (ucast (drop_bit 8 l AND 0xff) :: u8)) OR
    push_bit 16 (ucast (ucast (drop_bit 16 l AND 0xff) :: u8)) OR
    push_bit 24 (ucast (ucast (drop_bit 24 l AND 0xff) :: u8)) = l"
  proof (rule bit_word_eqI)
    fix n assume "n < LENGTH(64)"
    have m: "y AND 0xff = take_bit 8 y" for y :: des_long
      by (simp add: take_bit_eq_mask mask_eq_exp_minus_1)
    consider "n < 8" | "8 \<le> n" "n < 16" | "16 \<le> n" "n < 24" | "24 \<le> n" "n < 32" | "32 \<le> n" by linarith
    then show "bit ((ucast (ucast (l AND 0xff) :: u8) :: des_long) OR push_bit 8 (ucast (ucast (drop_bit 8 l AND 0xff) :: u8)) OR
      push_bit 16 (ucast (ucast (drop_bit 16 l AND 0xff) :: u8)) OR
      push_bit 24 (ucast (ucast (drop_bit 24 l AND 0xff) :: u8))) n \<longleftrightarrow> bit l n"
      using b32D [OF l, of n] by cases (auto simp: m bit_simps)
  qed
  then show ?thesis by (simp add: l2c_def)
qed

lemma l2c_c2l: "c2l bs = Some (l, c) \<Longrightarrow> bs = l2c l @ c"
proof (cases bs rule: c2l.cases)
  case (1 b0 b1 b2 b3 cs)
  assume c: "c2l bs = Some (l, c)"
  then have l: "l = ucast b0 OR push_bit 8 (ucast b1) OR push_bit 16 (ucast b2) OR push_bit 24 (ucast b3)"
    and "cs = c" using 1 by auto
  have m: "y AND 0xff = take_bit 8 y" for y :: des_long
    by (simp add: take_bit_eq_mask mask_eq_exp_minus_1)
  have "ucast (l AND 0xff) = b0" "ucast (drop_bit 8 l AND 0xff) = b1"
    "ucast (drop_bit 16 l AND 0xff) = b2" "ucast (drop_bit 24 l AND 0xff) = b3"
    unfolding l m by (rule bit_word_eqI, auto simp: bit_simps dest: bit_imp_le_length)+
  with 1 \<open>cs = c\<close> show ?thesis by (simp add: l2c_def)
qed auto

lemma length_l2c [simp]: "length (l2c l) = 4"
  by (simp add: l2c_def)

lemma c2l_None_iff: "c2l bs = None \<longleftrightarrow> length bs < 4"
  by (cases bs rule: c2l.cases) auto

lemma c2l_two:
  assumes "8 \<le> length inp"
  obtains l0 l1 c1 c2 where "c2l inp = Some (l0, c1)" "c2l c1 = Some (l1, c2)" "inp = l2c l0 @ l2c l1 @ c2"
    "b32 l0" "b32 l1"
proof -
  obtain l0 c1 where 1: "c2l inp = Some (l0, c1)" using assms c2l_None_iff [of inp] by (cases "c2l inp") auto
  have i: "inp = l2c l0 @ c1" by (rule l2c_c2l [OF 1])
  then have "4 \<le> length c1" using assms by simp
  then obtain l1 c2 where 2: "c2l c1 = Some (l1, c2)" using c2l_None_iff [of c1] by (cases "c2l c1") auto
  show thesis by (rule that [OF 1 2]) (use i l2c_c2l [OF 2] c2l_b32 [OF 1] c2l_b32 [OF 2] in simp_all)
qed

lemma des_ecb_inverse:
  assumes "8 \<le> length inp"
  shows "\<exists>out. des_ecb_encrypt ks b inp = Some out \<and> length out = 8 \<and>
    des_ecb_encrypt ks (\<not> b) out = Some (take 8 inp)"
proof -
  obtain l0 l1 c1 c2 where c: "c2l inp = Some (l0, c1)" "c2l c1 = Some (l1, c2)"
    "inp = l2c l0 @ l2c l1 @ c2" "b32 l0" "b32 l1" using c2l_two [OF assms] .
  obtain m0 m1 where m: "do_des_ecb_encrypt (l0, l1) ks b = (m0, m1)" by fastforce
  have inv: "do_des_ecb_encrypt (m0, m1) ks (\<not> b) = (l0, l1)" "b32 m0" "b32 m1"
    using do_des_inverse [of "(l0, l1)" ks b] c(4,5) m by simp_all
  have o: "des_ecb_encrypt ks b inp = Some (l2c m0 @ l2c m1)"
    using c(1,2) m by (simp add: des_ecb_encrypt_def)
  have "c2l (l2c m0 @ l2c m1) = Some (m0, l2c m1)" "c2l (l2c m1) = Some (m1, [])"
    using c2l_l2c [OF inv(2), of "l2c m1"] c2l_l2c [OF inv(3), of "[]"] by simp_all
  then have "des_ecb_encrypt ks (\<not> b) (l2c m0 @ l2c m1) = Some (l2c l0 @ l2c l1)"
    using inv(1) by (simp add: des_ecb_encrypt_def)
  with o c(3) show ?thesis by simp
qed

lemma des_ecb_short: "length inp < 8 \<Longrightarrow> des_ecb_encrypt ks b inp = None"
proof -
  assume l: "length inp < 8"
  show ?thesis
  proof (cases "c2l inp")
    case (Some p)
    then have "length (snd p) < 4" using l2c_c2l [of inp "fst p" "snd p"] l by simp
    with Some show ?thesis by (cases p) (simp add: des_ecb_encrypt_def c2l_None_iff [symmetric])
  qed (simp add: des_ecb_encrypt_def)
qed

lemma des_set_key_ok: "8 \<le> length key \<Longrightarrow> \<exists>ks. des_set_key key = Some ks"
  by (erule c2l_two) (auto simp: des_set_key_def Let_def split: prod.splits)

section \<open>Codebook mode over any block cipher\<close>

text \<open>
  A block cipher under a key: encryption and decryption work on the 8 bytes a pointer
  points to, whatever follows, and undo each other.
\<close>

locale block_cipher =
  fixes E D :: "'k \<Rightarrow> bytes \<Rightarrow> bytes option"
  assumes E_law: "8 \<le> length b \<Longrightarrow>
      \<exists>c. E k b = Some c \<and> length c = 8 \<and> (\<forall>rest. D k (c @ rest) = Some (take 8 b))"
begin

lemma ecb_inverse:
  "length bs = 8 * n \<Longrightarrow>
    \<exists>cs. ecb_loop (E k) n bs = Some cs \<and> length cs = 8 * n \<and> ecb_loop (D k) n cs = Some bs"
proof (induction n arbitrary: bs)
  case 0
  then show ?case by simp
next
  case (Suc n)
  then obtain c where c: "E k bs = Some c" "length c = 8" "\<And>rest. D k (c @ rest) = Some (take 8 bs)"
    using E_law [of bs k] by auto
  have "length (drop 8 bs) = 8 * n" using Suc.prems by simp
  from Suc.IH [OF this] obtain cs where
    "ecb_loop (E k) n (drop 8 bs) = Some cs" "length cs = 8 * n" "ecb_loop (D k) n cs = Some (drop 8 bs)"
    by blast
  with c show ?case by simp
qed

end

lemma des_ecb_prefix:
  assumes "8 \<le> length out"
  shows "des_ecb_encrypt ks b (out @ rest) = des_ecb_encrypt ks b out"
  using assms
proof (rule c2l_two)
  fix l0 l1 c1 c2
  assume c: "out = l2c l0 @ l2c l1 @ c2" "b32 l0" "b32 l1"
  have "des_ecb_encrypt ks b (l2c l0 @ l2c l1 @ r) = (let (m0, m1) = do_des_ecb_encrypt (l0, l1) ks b
      in Some (l2c m0 @ l2c m1))" for r
    using c2l_l2c [OF c(2), of "l2c l1 @ r"] c2l_l2c [OF c(3), of r] by (simp add: des_ecb_encrypt_def)
  then show ?thesis using c(1) by simp
qed

lemma des_ecb_law:
  "8 \<le> length inp \<Longrightarrow> \<exists>c. des_ecb_encrypt ks b inp = Some c \<and> length c = 8 \<and>
     (\<forall>rest. des_ecb_encrypt ks (\<not> b) (c @ rest) = Some (take 8 inp))"
  using des_ecb_inverse [of inp ks b] by (auto simp: des_ecb_prefix)

interpretation des_enc: block_cipher "\<lambda>ks. des_ecb_encrypt ks True" "\<lambda>ks. des_ecb_encrypt ks False"
  by unfold_locales (use des_ecb_law [of _ _ True] in simp)

interpretation des_dec: block_cipher "\<lambda>ks. des_ecb_encrypt ks False" "\<lambda>ks. des_ecb_encrypt ks True"
  by unfold_locales (use des_ecb_law [of _ _ False] in simp)

lemma des_n_inverse:
  assumes "8 \<le> length key" "0 < n" "length text = 8 * nat n"
  shows "\<exists>c. des_encrypt_n key text n = Some c \<and> length c = length text \<and> des_decrypt_n key c n = Some text"
    and "\<exists>c. des_decrypt_n key text n = Some c \<and> length c = length text \<and> des_encrypt_n key c n = Some text"
proof -
  obtain ks where k: "des_set_key key = Some ks" using des_set_key_ok [OF assms(1)] by blast
  from des_enc.ecb_inverse [OF assms(3), of ks] k assms(2,3)
  show "\<exists>c. des_encrypt_n key text n = Some c \<and> length c = length text \<and> des_decrypt_n key c n = Some text"
    by (auto simp: des_encrypt_n_def des_decrypt_n_def)
  from des_dec.ecb_inverse [OF assms(3), of ks] k assms(2,3)
  show "\<exists>c. des_decrypt_n key text n = Some c \<and> length c = length text \<and> des_encrypt_n key c n = Some text"
    by (auto simp: des_encrypt_n_def des_decrypt_n_def)
qed

section \<open>Properties\<close>

text \<open>
  C24: with a key of at least 8 bytes, decrypting the 8 bytes \<open>des_encrypt\<close> produces
  gives back the 8 bytes that were encrypted, and encrypting what \<open>des_decrypt\<close> produces
  does so too; both succeed on every text of at least 8 bytes.
\<close>

theorem des_decrypt_encrypt:
  assumes "8 \<le> length key" "8 \<le> length text"
  shows "\<exists>c p. des_encrypt key text = Some c \<and> des_decrypt key c = Some (take 8 text) \<and>
    des_decrypt key text = Some p \<and> des_encrypt key p = Some (take 8 text)"
proof -
  obtain ks where "des_set_key key = Some ks" using des_set_key_ok [OF assms(1)] by blast
  with des_ecb_inverse [OF assms(2), of ks True] des_ecb_inverse [OF assms(2), of ks False]
  show ?thesis by (auto simp: des_encrypt_def des_decrypt_def)
qed

theorem des_decrypt_encrypt_witness:
  "\<exists>c. des_encrypt [1, 2, 3, 4, 5, 6, 7, 8] [0, 0, 0, 0, 0, 0, 0, 0] = Some c \<and>
    des_decrypt [1, 2, 3, 4, 5, 6, 7, 8] c = Some [0, 0, 0, 0, 0, 0, 0, 0]"
  using des_decrypt_encrypt [of "[1, 2, 3, 4, 5, 6, 7, 8]" "[0, 0, 0, 0, 0, 0, 0, 0]"] by auto

text \<open>
  A text of \<open>n > 0\<close> blocks survives \<open>des_encrypt_n\<close> followed by \<open>des_decrypt_n\<close>,
  and the cipher text has the same length; without blocks the assertion fails.
\<close>

theorem des_decrypt_encrypt_n:
  assumes "8 \<le> length key" "int (length text) = 8 * n"
  shows "(if n > 0
      then \<exists>c. des_encrypt_n key text n = Some c \<and> length c = length text \<and> des_decrypt_n key c n = Some text
      else des_encrypt_n key text n = None \<and> des_decrypt_n key text n = None)"
proof (cases "n > 0")
  case True
  have "length text = 8 * nat n" using assms(2) by linarith
  from des_n_inverse(1) [OF assms(1) True this] True show ?thesis by auto
qed (simp add: des_encrypt_n_def des_decrypt_n_def)

theorem des_decrypt_encrypt_n_witness:
  "\<exists>c. des_encrypt_n (replicate 8 7) (replicate 16 3) 2 = Some c \<and> length c = 16 \<and>
    des_decrypt_n (replicate 8 7) c 2 = Some (replicate 16 3)"
  using des_decrypt_encrypt_n [of "replicate 8 7" "replicate 16 3" 2] by simp

end
