(* ===== verification/Utf8Punc.thy ===== *)
theory Utf8Punc
  imports Prelude
begin

unbundle bit_operations_syntax

text \<open>
  \<open>tm_dirty/utf8_punc.c\<close> and \<open>utf8_punc.h\<close>: the preprocessing of the text that the
  dirty-word matcher looks at. A source buffer of \<open>len\<close> bytes is a list of that length,
  and scanning at position \<open>i\<close> is a recursion on the bytes from there on, so that
  \<open>i + k < len\<close> says that \<open>k\<close> more bytes follow.
\<close>

section \<open>Character classes\<close>

definition IS_ASCII_NUMBER :: "u8 \<Rightarrow> bool" where
  "IS_ASCII_NUMBER c \<longleftrightarrow> c \<ge> 0x31 \<and> c \<le> 0x39"

definition IS_ASCII_UPPER_ALPHA :: "u8 \<Rightarrow> bool" where
  "IS_ASCII_UPPER_ALPHA c \<longleftrightarrow> c \<ge> 0x41 \<and> c \<le> 0x5A"

definition IS_ASCII_LOWER_ALPHA :: "u8 \<Rightarrow> bool" where
  "IS_ASCII_LOWER_ALPHA c \<longleftrightarrow> c \<ge> 0x61 \<and> c \<le> 0x7A"

definition IS_ASCII_ALPHA :: "u8 \<Rightarrow> bool" where
  "IS_ASCII_ALPHA c \<longleftrightarrow> IS_ASCII_UPPER_ALPHA c \<or> IS_ASCII_LOWER_ALPHA c"

definition IS_ASCII_ALPHA_OR_NUMBER :: "u8 \<Rightarrow> bool" where
  "IS_ASCII_ALPHA_OR_NUMBER c \<longleftrightarrow> IS_ASCII_NUMBER c \<or> IS_ASCII_ALPHA c"

definition IS_ASCII_PUNC_OR_SYMBOL :: "u8 \<Rightarrow> bool" where
  "IS_ASCII_PUNC_OR_SYMBOL c \<longleftrightarrow> c \<le> 0x7F \<and> \<not> IS_ASCII_ALPHA_OR_NUMBER c"

text \<open>The table \<open>init_xlatcase\<close> fills: \<open>toupper\<close> of the C locale.\<close>

definition xlatcase :: "u8 \<Rightarrow> u8" where
  "xlatcase c = (if 0x61 \<le> c \<and> c \<le> 0x7A then c - 0x20 else c)"

section \<open>Full width and half width\<close>

record d_s_utf8 =
  dbc :: u8
  sbc :: "u8 \<times> u8 \<times> u8"

definition UNICODE_DBC_SP :: u16 where "UNICODE_DBC_SP = 0x20"
definition UNICODE_DBC_START :: u16 where "UNICODE_DBC_START = 0x21"
definition UNICODE_DBC_END :: u16 where "UNICODE_DBC_END = 0x7e"
definition UNICODE_SBC_SP :: u16 where "UNICODE_SBC_SP = 0x3000"
definition SUB_SBC_DBC :: u16 where "SUB_SBC_DBC = 0xFEE0"

lemmas unicode_consts = UNICODE_DBC_SP_def UNICODE_DBC_START_def UNICODE_DBC_END_def
  UNICODE_SBC_SP_def SUB_SBC_DBC_def

definition sbc_of_unicode :: "u16 \<Rightarrow> u8 \<times> u8 \<times> u8" where
  "sbc_of_unicode unicode =
     (let hp = ucast (drop_bit 12 unicode AND 0x000F);
          mp = ucast (drop_bit 6 unicode AND 0x003F);
          lp = ucast (unicode AND 0x003F)
      in (0xE0 OR hp, 0x80 OR mp, 0x80 OR lp))"

definition unicode_of_sbc :: "u8 \<times> u8 \<times> u8 \<Rightarrow> u16" where
  "unicode_of_sbc = (\<lambda>(s0, s1, s2).
     push_bit 12 (ucast (s0 AND 0x0F)) OR push_bit 6 (ucast (s1 AND 0x3F)) OR ucast (s2 AND 0x3F))"

definition dbc_sbc_exchange :: "d_s_utf8 \<Rightarrow> int \<Rightarrow> int \<times> d_s_utf8" where
  "dbc_sbc_exchange p flag =
     (if flag = 0 then
        let c = ucast (dbc p) :: u16 in
        if c = UNICODE_DBC_SP then (0, p\<lparr>sbc := sbc_of_unicode UNICODE_SBC_SP\<rparr>)
        else if c \<ge> UNICODE_DBC_START \<and> c \<le> UNICODE_DBC_END
        then (0, p\<lparr>sbc := sbc_of_unicode (c + SUB_SBC_DBC)\<rparr>)
        else (-1, p)
      else if flag = 1 then
        let unicode = unicode_of_sbc (sbc p) in
        (0, p\<lparr>dbc := (if unicode = UNICODE_SBC_SP then ucast UNICODE_DBC_SP
                      else ucast (unicode - SUB_SBC_DBC))\<rparr>)
      else (-1, p))"

section \<open>The scanner shared by both passes\<close>

text \<open>
  The \<open>switch\<close> on the byte at hand: whether a full-width ASCII character starts here,
  and how many more bytes of a punctuation character follow.
\<close>

definition punct_switch :: "bytes \<Rightarrow> bool \<times> nat" where
  "punct_switch s =
     (case s of
        [] \<Rightarrow> (False, 0)
      | c # r \<Rightarrow>
          if c = 0xC2 then
            (False, if length r \<ge> 1 \<and> r ! 0 \<ge> 0xA0 \<and> r ! 0 \<le> 0xBF then 1 else 0)
          else if c = 0xC3 then
            (False, if length r \<ge> 1 \<and> (r ! 0 = 0x97 \<or> r ! 0 = 0xB7) then 1 else 0)
          else if c = 0xE2 then
            (False, if length r \<ge> 2 \<and> (r ! 0 = 0x80 \<and> r ! 1 \<ge> 0x80 \<and> r ! 1 \<le> 0xBF \<or>
                                      r ! 0 = 0x81 \<and> r ! 1 \<ge> 0x80 \<and> r ! 1 \<le> 0xAF) then 2 else 0)
          else if c = 0xE3 then
            (False, if length r \<ge> 2 \<and> r ! 0 = 0x80 \<and> r ! 1 \<ge> 0x80 \<and> r ! 1 \<le> 0xBF then 2 else 0)
          else if c = 0xEF then
            (if length r \<ge> 2 then
               if r ! 0 = 0xBC then (r ! 1 \<ge> 0x81 \<and> r ! 1 \<le> 0xBF, 0)
               else if r ! 0 = 0xBD then (r ! 1 \<ge> 0x80 \<and> r ! 1 \<le> 0x9E, 0)
               else if r ! 0 = 0xB9 then (False, if r ! 1 \<ge> 0x90 \<and> r ! 1 \<le> 0xAF then 2 else 0)
               else (False, 0)
             else (False, 0))
          else (False, 0))"

definition half_width :: "bytes \<Rightarrow> u8" where
  "half_width s = dbc (snd (dbc_sbc_exchange \<lparr>dbc = 0, sbc = (s ! 0, s ! 1, s ! 2)\<rparr> 1))"

text \<open>The flags \<open>sbc_flag\<close> and \<open>jump_bytes\<close> as they stand when the output is chosen.\<close>

definition punct_scan :: "bytes \<Rightarrow> bool \<times> nat" where
  "punct_scan s =
     (let (sbc_flag, jump_bytes) = punct_switch s in
      (sbc_flag, if sbc_flag \<and> IS_ASCII_PUNC_OR_SYMBOL (half_width s) then 2 else jump_bytes))"

section \<open>Filtering\<close>

text \<open>The result is what is written to \<open>d\<close>, and the final value of \<open>*m\<close>.\<close>

function string_filter_loop :: "int \<Rightarrow> bytes \<Rightarrow> int \<Rightarrow> bytes \<times> int" where
  "string_filter_loop flag s m =
     (if s = [] then ([], m)
      else
        let (sbc_flag, jump_bytes) = punct_scan s in
        if jump_bytes \<ge> 1 then
          string_filter_loop flag (drop (jump_bytes + 1) s) (m - (int jump_bytes + 1))
        else if sbc_flag then
          let (d, m) = string_filter_loop flag (drop 3 s) (m - 2)
          in ((if flag = 0 then xlatcase (half_width s) else half_width s) # d, m)
        else if IS_ASCII_PUNC_OR_SYMBOL (s ! 0) then string_filter_loop flag (drop 1 s) (m - 1)
        else
          let (d, m) = string_filter_loop flag (drop 1 s) m
          in ((if flag = 0 then xlatcase (s ! 0) else s ! 0) # d, m))"
  by pat_completeness auto
termination
  by (relation "measure (\<lambda>(_, s, _). length s)") auto

declare string_filter_loop.simps [simp del]

definition string_filter :: "bytes \<Rightarrow> int \<Rightarrow> bytes \<times> int" where
  "string_filter s flag = string_filter_loop flag s (int (length s))"

section \<open>Replacing in place\<close>

function string_replace :: "bytes \<Rightarrow> bytes" where
  "string_replace s =
     (if s = [] then []
      else
        let (sbc_flag, jump_bytes) = punct_scan s in
        if jump_bytes = 1 then [0x2B, 0x2B] @ string_replace (drop 2 s)
        else if jump_bytes = 2 then [0x2B, 0x2B, 0x2B] @ string_replace (drop 3 s)
        else if sbc_flag then [xlatcase (half_width s), 0x2D, 0x2D] @ string_replace (drop 3 s)
        else if IS_ASCII_PUNC_OR_SYMBOL (s ! 0) then 0x2B # string_replace (drop 1 s)
        else xlatcase (s ! 0) # string_replace (drop 1 s))"
  by pat_completeness auto
termination
  by (relation "measure length") auto

declare string_replace.simps [simp del]

section \<open>Angle brackets\<close>

text \<open>
  The loop over \<open>i\<close> with the stack of open brackets and the destination, whose first
  contents are whatever the caller's buffer holds. The early return leaves the rest of
  the destination as it was.
\<close>

function brackets_loop :: "bytes \<Rightarrow> nat \<Rightarrow> nat list \<Rightarrow> bytes \<Rightarrow> bytes" where
  "brackets_loop s i loc_record d =
     (if i \<ge> length s then d
      else if s ! i = 0x3C then
        let d = d[i := s ! i] in
        if Suc (length loc_record) \<ge> 65536 then d
        else brackets_loop s (Suc i) (i # loc_record) d
      else if s ! i \<noteq> 0x3E then brackets_loop s (Suc i) loc_record (d[i := s ! i])
      else
        (case loc_record of
           [] \<Rightarrow> brackets_loop s (Suc i) [] (d[i := s ! i])
         | start # locs \<Rightarrow>
             let replace_len = i - start + 1 in
             brackets_loop s (Suc i) locs
               (take start d @ replicate replace_len 0x2B @ drop (start + replace_len) d)))"
  by pat_completeness auto
termination
  by (relation "measure (\<lambda>(s, i, _, _). length s - i)") auto

declare brackets_loop.simps [simp del]

definition replace_char_in_angle_brackets :: "bytes \<Rightarrow> bytes \<Rightarrow> bytes" where
  "replace_char_in_angle_brackets d s = brackets_loop s 0 [] d"


section \<open>What the scanner guarantees\<close>

lemma punct_switch_bounds:
  "case punct_switch s of (f, j) \<Rightarrow>
    (f \<longrightarrow> j = 0 \<and> 3 \<le> length s) \<and> (j = 0 \<or> j = 1 \<or> j = 2) \<and> (j \<noteq> 0 \<longrightarrow> j + 1 \<le> length s)"
  by (auto simp: punct_switch_def split: list.split)

lemma punct_scan_bounds:
  assumes "punct_scan s = (f, j)"
  shows "f \<longrightarrow> 3 \<le> length s" "j = 0 \<or> j = 1 \<or> j = 2" "j \<noteq> 0 \<longrightarrow> j + 1 \<le> length s"
    "f \<longrightarrow> j = 0 \<longrightarrow> \<not> IS_ASCII_PUNC_OR_SYMBOL (half_width s)" "f \<longrightarrow> j \<noteq> 1"
proof -
  obtain g k where g: "punct_switch s = (g, k)" by fastforce
  have b: "g \<longrightarrow> k = 0 \<and> 3 \<le> length s" "k = 0 \<or> k = 1 \<or> k = 2" "k \<noteq> 0 \<longrightarrow> k + 1 \<le> length s"
    using punct_switch_bounds [of s] by (simp_all add: g)
  have e: "f = g" "j = (if g \<and> IS_ASCII_PUNC_OR_SYMBOL (half_width s) then 2 else k)"
    using assms g by (auto simp: punct_scan_def)
  from b e show "f \<longrightarrow> 3 \<le> length s" "j = 0 \<or> j = 1 \<or> j = 2" "j \<noteq> 0 \<longrightarrow> j + 1 \<le> length s"
    "f \<longrightarrow> j = 0 \<longrightarrow> \<not> IS_ASCII_PUNC_OR_SYMBOL (half_width s)" "f \<longrightarrow> j \<noteq> 1"
    by auto
qed

text \<open>A byte the matcher may see after filtering: no ASCII punctuation, no lower case.\<close>

definition norm_byte :: "u8 \<Rightarrow> bool" where
  "norm_byte c \<longleftrightarrow> \<not> IS_ASCII_PUNC_OR_SYMBOL c \<and> \<not> IS_ASCII_LOWER_ALPHA c"

lemmas char_class_defs = IS_ASCII_PUNC_OR_SYMBOL_def IS_ASCII_ALPHA_OR_NUMBER_def IS_ASCII_ALPHA_def
  IS_ASCII_NUMBER_def IS_ASCII_UPPER_ALPHA_def IS_ASCII_LOWER_ALPHA_def

lemma xlatcase_norm: "\<not> IS_ASCII_PUNC_OR_SYMBOL c \<Longrightarrow> norm_byte (xlatcase c)"
proof (cases "0x61 \<le> c \<and> c \<le> 0x7A")
  case True
  then have "unat (c - 0x20) = unat c - 32"
    by (simp add: unat_sub word_le_nat_alt)
  with True show ?thesis
    by (auto simp: norm_byte_def xlatcase_def char_class_defs word_le_nat_alt)
qed (auto simp: norm_byte_def xlatcase_def char_class_defs)

lemma norm_byte_not_mark: "norm_byte c \<Longrightarrow> c \<noteq> 0x2B \<and> c \<noteq> 0x2D \<and> c \<noteq> 0x2A"
  by (auto simp: norm_byte_def char_class_defs)

section \<open>Filtering and replacing agree\<close>

text \<open>The branches of both loops, by what the scanner found at the head of the text.\<close>

lemma scan_cases:
  assumes "s \<noteq> []"
  obtains (two) "snd (punct_scan s) = 1" "2 \<le> length s"
    | (three) "snd (punct_scan s) = 2" "3 \<le> length s"
    | (full) "punct_scan s = (True, 0)" "3 \<le> length s" "\<not> IS_ASCII_PUNC_OR_SYMBOL (half_width s)"
    | (punc) "punct_scan s = (False, 0)" "IS_ASCII_PUNC_OR_SYMBOL (s ! 0)"
    | (other) "punct_scan s = (False, 0)" "\<not> IS_ASCII_PUNC_OR_SYMBOL (s ! 0)"
proof -
  obtain f j where fj: "punct_scan s = (f, j)" by fastforce
  from punct_scan_bounds [OF fj] fj that show thesis
    by (cases f; cases "j = 0"; cases "IS_ASCII_PUNC_OR_SYMBOL (s ! 0)") auto
qed

lemma string_replace_branch:
  "s \<noteq> [] \<Longrightarrow> punct_scan s = (f, j) \<Longrightarrow> string_replace s =
    (if j = 1 then [0x2B, 0x2B] @ string_replace (drop 2 s)
     else if j = 2 then [0x2B, 0x2B, 0x2B] @ string_replace (drop 3 s)
     else if f then [xlatcase (half_width s), 0x2D, 0x2D] @ string_replace (drop 3 s)
     else if IS_ASCII_PUNC_OR_SYMBOL (s ! 0) then 0x2B # string_replace (drop 1 s)
     else xlatcase (s ! 0) # string_replace (drop 1 s))"
  by (subst string_replace.simps) (simp only: if_False Let_def prod.case)

lemma string_filter_branch:
  "s \<noteq> [] \<Longrightarrow> punct_scan s = (f, j) \<Longrightarrow> string_filter_loop 0 s m =
    (if j \<ge> 1 then string_filter_loop 0 (drop (j + 1) s) (m - (int j + 1))
     else if f then (let (d, m) = string_filter_loop 0 (drop 3 s) (m - 2) in (xlatcase (half_width s) # d, m))
     else if IS_ASCII_PUNC_OR_SYMBOL (s ! 0) then string_filter_loop 0 (drop 1 s) (m - 1)
     else (let (d, m) = string_filter_loop 0 (drop 1 s) m in (xlatcase (s ! 0) # d, m)))"
  by (subst string_filter_loop.simps) (simp only: if_False if_True refl Let_def prod.case)

lemma length_string_replace [simp]: "length (string_replace s) = length s"
proof (induction s rule: length_induct)
  case (1 s)
  show ?case
  proof (cases "s = []")
    case False
    then have IH: "\<And>n. 0 < n \<Longrightarrow> length (string_replace (drop n s)) = length s - n"
      using 1 by simp
    from False show ?thesis
      by (cases rule: scan_cases) (subst string_replace.simps, auto simp: IH split: prod.split)+
  qed (simp add: string_replace.simps)
qed

lemma string_filter_loop_replace:
  "string_filter_loop 0 s m =
    (filter (\<lambda>c. c \<noteq> 0x2B \<and> c \<noteq> 0x2D) (string_replace s),
     m - int (length s) + int (length (filter (\<lambda>c. c \<noteq> 0x2B \<and> c \<noteq> 0x2D) (string_replace s))))"
proof (induction s arbitrary: m rule: length_induct)
  case (1 s)
  show ?case
  proof (cases "s = []")
    case True
    then show ?thesis by (simp add: string_filter_loop.simps string_replace.simps)
  next
    case False
    then have IH: "\<And>n m. 0 < n \<Longrightarrow> string_filter_loop 0 (drop n s) m =
      (filter (\<lambda>c. c \<noteq> 0x2B \<and> c \<noteq> 0x2D) (string_replace (drop n s)), m - int (length s - n) +
       int (length (filter (\<lambda>c. c \<noteq> 0x2B \<and> c \<noteq> 0x2D) (string_replace (drop n s)))))"
      using 1 by simp
    have l: "1 \<le> length s" using False by (cases s) auto
    have x: "xlatcase c \<noteq> 0x2B \<and> xlatcase c \<noteq> 0x2D" if "\<not> IS_ASCII_PUNC_OR_SYMBOL c" for c
      using norm_byte_not_mark [OF xlatcase_norm [OF that]] by simp
    obtain f j where fj: "punct_scan s = (f, j)" by fastforce
    note e = string_replace_branch [OF False fj] string_filter_branch [OF False fj, of m]
    from False show ?thesis
    proof (cases rule: scan_cases)
      case two
      then show ?thesis unfolding e using fj by (simp add: IH flip: numeral_2_eq_2)
    next
      case three
      then show ?thesis unfolding e using fj by (simp add: IH)
    next
      case full
      then show ?thesis unfolding e using fj x [of "half_width s"] by (simp add: IH)
    next
      case punc
      then show ?thesis unfolding e using fj l by (simp add: IH)
    next
      case other
      then show ?thesis unfolding e using fj l x [of "s ! 0"] by (simp add: IH)
    qed
  qed
qed

lemma string_replace_bytes: "list_all (\<lambda>c. c = 0x2B \<or> c = 0x2D \<or> norm_byte c) (string_replace s)"
proof (induction s rule: length_induct)
    case (1 s)
    show ?case
    proof (cases "s = []")
      case False
      then have IH: "\<And>n. 0 < n \<Longrightarrow>
        list_all (\<lambda>c. c = 0x2B \<or> c = 0x2D \<or> norm_byte c) (string_replace (drop n s))"
        using 1 by simp
      from False show ?thesis
        by (cases rule: scan_cases)
           (subst string_replace.simps, auto simp: IH xlatcase_norm split: prod.split)+
    qed (simp add: string_replace.simps)
  qed

lemma string_filter_norm: "list_all norm_byte (fst (string_filter s 0))"
  using string_replace_bytes [of s]
  by (auto simp: string_filter_def string_filter_loop_replace list_all_iff)

lemma string_filter_replace_facts:
  "fst (string_filter s 0) = filter (\<lambda>c. c \<noteq> 0x2B \<and> c \<noteq> 0x2D) (string_replace s)"
  "snd (string_filter s 0) = int (length (fst (string_filter s 0)))"
  "list_all norm_byte (fst (string_filter s 0))"
  "length (fst (string_filter s 0)) \<le> length s"
  using string_filter_norm [of s] length_filter_le [of "\<lambda>c. c \<noteq> 0x2B \<and> c \<noteq> 0x2D" "string_replace s"]
  by (simp_all add: string_filter_def string_filter_loop_replace)

section \<open>Full-width characters\<close>

text \<open>The ASCII characters that have a full-width form, and their code in UTF-8.\<close>

definition dbc_chars :: "u8 list" where
  "dbc_chars = map of_nat [33..<127]"

definition full_width :: "u8 \<Rightarrow> bytes" where
  "full_width c = (case sbc (snd (dbc_sbc_exchange \<lparr>dbc = c, sbc = (0, 0, 0)\<rparr> 0)) of (s0, s1, s2) \<Rightarrow> [s0, s1, s2])"

lemma full_width_bytes:
  "list_all (\<lambda>c. case sbc_of_unicode (ucast c + SUB_SBC_DBC) of (s0, s1, s2) \<Rightarrow>
     s0 = 0xEF \<and> (s1 = 0xBC \<and> 0x81 \<le> s2 \<and> s2 \<le> 0xBF \<or> s1 = 0xBD \<and> 0x80 \<le> s2 \<and> s2 \<le> 0x9E)) dbc_chars"
  unfolding dbc_chars_def by (simp add: sbc_of_unicode_def unicode_consts upt_rec_numeral)

lemma unicode_of_sbc_of_unicode: "unicode_of_sbc (sbc_of_unicode u) = u"
proof -
  have m: "y AND 0x000F = take_bit 4 y" "y AND 0x003F = take_bit 6 y" for y :: u16
    by (simp_all add: take_bit_eq_mask mask_eq_exp_minus_1)
  have m8: "y AND 0x0F = take_bit 4 y" "y AND 0x3F = take_bit 6 y" for y :: u8
    by (simp_all add: take_bit_eq_mask mask_eq_exp_minus_1)
  have h: "take_bit 4 (0xE0 OR y) = take_bit 4 y" "take_bit 6 (0x80 OR y) = take_bit 6 y" for y :: u8
    by (simp_all add: take_bit_or)
  have "(push_bit 12 (ucast (take_bit 4 (ucast (take_bit 4 (drop_bit 12 u)) :: u8))) OR
      push_bit 6 (ucast (take_bit 6 (ucast (take_bit 6 (drop_bit 6 u)) :: u8))) OR
      ucast (take_bit 6 (ucast (take_bit 6 u) :: u8)) :: u16) = u"
  proof (rule bit_word_eqI)
    fix n assume n: "n < LENGTH(16)"
    consider "n < 6" | "6 \<le> n" "n < 12" | "12 \<le> n" by linarith
    then show "bit (push_bit 12 (ucast (take_bit 4 (ucast (take_bit 4 (drop_bit 12 u)) :: u8))) OR
      push_bit 6 (ucast (take_bit 6 (ucast (take_bit 6 (drop_bit 6 u)) :: u8))) OR
      ucast (take_bit 6 (ucast (take_bit 6 u) :: u8)) :: u16) n = bit u n"
      using n by cases (auto simp: bit_simps)
  qed
  then show ?thesis by (simp add: unicode_of_sbc_def sbc_of_unicode_def Let_def m m8 h)
qed

lemma dbc_chars_iff: "c \<in> set dbc_chars \<longleftrightarrow> 0x21 \<le> c \<and> c \<le> 0x7E"
proof
  assume "c \<in> set dbc_chars"
  then obtain n where "c = of_nat n" "n \<in> set [33..<127]" unfolding dbc_chars_def set_map by (rule imageE)
  then have "c = of_nat n" "33 \<le> n" "n < 127" by (simp_all only: set_upt atLeastLessThan_iff)
  then show "0x21 \<le> c \<and> c \<le> 0x7E" by (simp add: word_le_nat_alt unat_of_nat_u8)
next
  assume "0x21 \<le> c \<and> c \<le> 0x7E"
  then have "33 \<le> unat c \<and> unat c < 127" by (simp add: word_le_nat_alt)
  then have "unat c \<in> set [33..<127]" by (simp only: set_upt atLeastLessThan_iff)
  then have "of_nat (unat c) \<in> set dbc_chars" unfolding dbc_chars_def set_map by (rule imageI)
  then show "c \<in> set dbc_chars" by simp
qed

lemma ucast_dbc_range:
  "c \<in> set dbc_chars \<Longrightarrow> (ucast c :: u16) \<noteq> UNICODE_DBC_SP \<and> UNICODE_DBC_START \<le> ucast c \<and> ucast c \<le> UNICODE_DBC_END"
proof -
  assume "c \<in> set dbc_chars"
  then show ?thesis
    by (auto simp: dbc_chars_iff word_le_nat_alt unicode_consts word_unat_eq_iff)
qed

lemma full_width_eq:
  assumes "c \<in> set dbc_chars"
  shows "\<exists>s1 s2. sbc_of_unicode (ucast c + SUB_SBC_DBC) = (0xEF, s1, s2) \<and> full_width c = [0xEF, s1, s2] \<and>
    (s1 = 0xBC \<and> 0x81 \<le> s2 \<and> s2 \<le> 0xBF \<or> s1 = 0xBD \<and> 0x80 \<le> s2 \<and> s2 \<le> 0x9E)"
proof -
  obtain s0 s1 s2 where s: "sbc_of_unicode (ucast c + SUB_SBC_DBC) = (s0, s1, s2)" by (metis prod_cases3)
  with full_width_bytes assms have
    "s0 = 0xEF \<and> (s1 = 0xBC \<and> 0x81 \<le> s2 \<and> s2 \<le> 0xBF \<or> s1 = 0xBD \<and> 0x80 \<le> s2 \<and> s2 \<le> 0x9E)"
    by (fastforce simp: list_all_iff)
  then show ?thesis
    using s ucast_dbc_range [OF assms] by (auto simp: full_width_def dbc_sbc_exchange_def Let_def)
qed

lemma half_width_full_width:
  assumes "c \<in> set dbc_chars"
  shows "half_width (full_width c @ rest) = c" "fst (punct_switch (full_width c @ rest))"
proof -
  obtain s1 s2 where s: "sbc_of_unicode (ucast c + SUB_SBC_DBC) = (0xEF, s1, s2)"
    "full_width c = [0xEF, s1, s2]"
    "s1 = 0xBC \<and> 0x81 \<le> s2 \<and> s2 \<le> 0xBF \<or> s1 = 0xBD \<and> 0x80 \<le> s2 \<and> s2 \<le> 0x9E"
    using full_width_eq [OF assms] by blast
  have u: "unicode_of_sbc (0xEF, s1, s2) = ucast c + SUB_SBC_DBC"
    using unicode_of_sbc_of_unicode [of "ucast c + SUB_SBC_DBC"] s(1) by simp
  have "(ucast c :: u16) + SUB_SBC_DBC \<noteq> UNICODE_SBC_SP"
  proof
    assume "(ucast c :: u16) + SUB_SBC_DBC = UNICODE_SBC_SP"
    then have "sbc_of_unicode (ucast c + SUB_SBC_DBC) = sbc_of_unicode 0x3000"
      by (simp only: UNICODE_SBC_SP_def)
    moreover have "sbc_of_unicode 0x3000 = (0xE3, 0x80, 0x80)" by (simp add: sbc_of_unicode_def)
    ultimately show False using s(1) by simp
  qed
  then show "half_width (full_width c @ rest) = c"
    by (simp add: half_width_def dbc_sbc_exchange_def s(2) u Let_def)
  show "fst (punct_switch (full_width c @ rest))"
    using s(2,3) by (auto simp: punct_switch_def)
qed

section \<open>Properties\<close>

text \<open>
  Replacing keeps the length of the text, and filtering gives exactly the bytes of
  the replaced text that are neither a plus nor a minus sign; the length it reports through
  \<open>m\<close> is the number of bytes it wrote, and none of them is ASCII punctuation or a lower
  case letter.
\<close>

theorem string_filter_replace:
  "length (string_replace s) = length s \<and>
   fst (string_filter s 0) = filter (\<lambda>c. c \<noteq> 0x2B \<and> c \<noteq> 0x2D) (string_replace s) \<and>
   snd (string_filter s 0) = int (length (fst (string_filter s 0))) \<and>
   list_all norm_byte (fst (string_filter s 0))"
  using string_filter_replace_facts [of s] by simp

text \<open>
  The conversions between half and full width undo each other for every ASCII
  character that has a full-width form and for the space; other characters are refused and
  leave the structure alone.
\<close>

theorem dbc_sbc_roundtrip:
  "case dbc_sbc_exchange \<lparr>dbc = c, sbc = x\<rparr> 0 of (r, p) \<Rightarrow>
    if 0x20 \<le> c \<and> c \<le> 0x7E
    then r = 0 \<and> dbc_sbc_exchange (p\<lparr>dbc := y\<rparr>) 1 = (0, \<lparr>dbc = c, sbc = sbc p\<rparr>)
    else r = -1 \<and> p = \<lparr>dbc = c, sbc = x\<rparr>"
proof -
  have "c = 0x20 \<or> c \<in> set dbc_chars \<or> \<not> (0x20 \<le> c \<and> c \<le> 0x7E)"
    unfolding dbc_chars_iff word_le_nat_alt word_unat_eq_iff by (simp, linarith)
  then consider (sp) "c = 0x20" | (ch) "c \<in> set dbc_chars" | (no) "\<not> (0x20 \<le> c \<and> c \<le> 0x7E)"
    by blast
  then show ?thesis
  proof cases
    case sp
    then show ?thesis
      by (simp add: dbc_sbc_exchange_def unicode_consts unicode_of_sbc_of_unicode)
  next
    case ch
    then obtain s1 s2 where s: "sbc_of_unicode (ucast c + SUB_SBC_DBC) = (0xEF, s1, s2)"
      "full_width c = [0xEF, s1, s2]" using full_width_eq by blast
    have u: "unicode_of_sbc (0xEF, s1, s2) = ucast c + SUB_SBC_DBC"
      using unicode_of_sbc_of_unicode [of "ucast c + SUB_SBC_DBC"] s(1) by simp
    have "half_width [0xEF, s1, s2] = c" using half_width_full_width(1) [OF ch, of "[]"] s(2) by simp
    then have "(if ucast c + SUB_SBC_DBC = UNICODE_SBC_SP then ucast UNICODE_DBC_SP
        else ucast (ucast c + SUB_SBC_DBC - SUB_SBC_DBC)) = c"
      by (simp add: half_width_def dbc_sbc_exchange_def u Let_def)
    then show ?thesis
      using ucast_dbc_range [OF ch] ch s(1) u
      by (auto simp: dbc_sbc_exchange_def Let_def dbc_chars_iff word_le_nat_alt)
  next
    case no
    then have "ucast c \<noteq> UNICODE_DBC_SP" "\<not> (UNICODE_DBC_START \<le> ucast c \<and> ucast c \<le> UNICODE_DBC_END)"
      by (auto simp: unicode_consts word_le_nat_alt word_unat_eq_iff)
    then show ?thesis using no by (auto simp: dbc_sbc_exchange_def Let_def)
  qed
qed

theorem dbc_sbc_roundtrip_witness:
  "dbc_sbc_exchange \<lparr>dbc = 0x41, sbc = (0xEF, 0xBC, 0xA1)\<rparr> 1 = (0, \<lparr>dbc = 0x41, sbc = (0xEF, 0xBC, 0xA1)\<rparr>)"
  using dbc_sbc_roundtrip [where c = "0x41" and x = "(0, 0, 0)" and y = "0x41"]
  by (simp add: dbc_sbc_exchange_def sbc_of_unicode_def unicode_consts)

text \<open>
  A full-width letter or digit is filtered like its ASCII form, a full-width
  punctuation character is dropped like its ASCII form.
\<close>

theorem string_filter_full_width:
  assumes "0x21 \<le> c" "c \<le> 0x7E"
  shows "fst (string_filter (full_width c @ rest) 0) = fst (string_filter (c # rest) 0)"
proof -
  have c: "c \<in> set dbc_chars" using assms by (simp add: dbc_chars_iff)
  note h = half_width_full_width [OF c, of rest]
  have nc: "c \<noteq> 0xC2" "c \<noteq> 0xC3" "c \<noteq> 0xE2" "c \<noteq> 0xE3" "c \<noteq> 0xEF" using assms by auto
  have l: "drop 3 (full_width c @ rest) = rest" "full_width c \<noteq> []"
    using full_width_eq [OF c] by (auto simp: numeral_3_eq_3)
  obtain k where p: "punct_switch (full_width c @ rest) = (True, k)" using h(2) by (cases "punct_switch (full_width c @ rest)") auto
  then have "k = 0" using punct_switch_bounds [of "full_width c @ rest"] by simp
  with p h(1) have ps: "punct_scan (full_width c @ rest) = (True, if IS_ASCII_PUNC_OR_SYMBOL c then 2 else 0)"
    by (simp add: punct_scan_def)
  have pc: "punct_scan (c # rest) = (False, 0)" using nc by (simp add: punct_scan_def punct_switch_def)
  have f: "fst (string_filter_loop 0 s m) = fst (string_filter s 0)" for s m
    by (simp add: string_filter_def string_filter_loop_replace)
  have "fst (string_filter_loop 0 (full_width c @ rest) m) =
    (if IS_ASCII_PUNC_OR_SYMBOL c then [] else [xlatcase c]) @ fst (string_filter rest 0)" for m
    using l by (simp add: string_filter_branch [OF _ ps] h(1) f split_beta Let_def numeral_3_eq_3)
  moreover have "fst (string_filter_loop 0 (c # rest) m) =
    (if IS_ASCII_PUNC_OR_SYMBOL c then [] else [xlatcase c]) @ fst (string_filter rest 0)" for m
    by (simp add: string_filter_branch [OF _ pc] f split_beta Let_def)
  ultimately show ?thesis by (metis f)
qed

theorem string_filter_full_width_witness:
  "fst (string_filter (full_width 0x41 @ [0x62]) 0) = fst (string_filter [0x41, 0x62] 0)"
  using string_filter_full_width [of "0x41" "[0x62]"] by simp

text \<open>
  Filtering keeps the digits one to nine and drops the digit zero like a punctuation
  character, because \<open>IS_ASCII_NUMBER\<close> starts at the digit one: a word and the same word
  with zeros put in are one word to the matcher.
\<close>

theorem string_filter_drops_zero:
  "fst (string_filter (0x30 # rest) 0) = fst (string_filter rest 0) \<and>
   (0x31 \<le> c \<and> c \<le> 0x39 \<longrightarrow> fst (string_filter (c # rest) 0) = c # fst (string_filter rest 0))"
proof -
  have f: "fst (string_filter_loop 0 s m) = fst (string_filter s 0)" for s m
    by (simp add: string_filter_def string_filter_loop_replace)
  have p: "punct_scan (c # rest) = (False, 0)" if "c \<le> 0x39" for c
  proof -
    have "c \<noteq> 0xC2" "c \<noteq> 0xC3" "c \<noteq> 0xE2" "c \<noteq> 0xE3" "c \<noteq> 0xEF" using that by auto
    then show ?thesis by (simp add: punct_scan_def punct_switch_def)
  qed
  have z: "IS_ASCII_PUNC_OR_SYMBOL 0x30" by (simp add: char_class_defs)
  have "fst (string_filter_loop 0 (0x30 # rest) m) = fst (string_filter rest 0)" for m
    by (simp add: string_filter_branch [OF _ p] f z)
  moreover have "fst (string_filter_loop 0 (c # rest) m) = c # fst (string_filter rest 0)"
    if "0x31 \<le> c" "c \<le> 0x39" for m
  proof -
    have "\<not> IS_ASCII_PUNC_OR_SYMBOL c" using that by (simp add: char_class_defs)
    moreover have "xlatcase c = c" using that by (auto simp: xlatcase_def word_le_nat_alt)
    ultimately show ?thesis by (simp add: string_filter_branch [OF _ p [OF that(2)]] f split_beta Let_def)
  qed
  ultimately show ?thesis by (metis f)
qed

theorem string_filter_drops_zero_witness: "fst (string_filter (0x35 # []) 0) = [0x35]"
  using string_filter_drops_zero [of "[]" "0x35"] by (simp add: string_filter_def string_filter_loop.simps)

section \<open>Bracketed text\<close>

definition bracket_free :: "bytes \<Rightarrow> nat \<Rightarrow> nat \<Rightarrow> bool" where
  "bracket_free s a b \<longleftrightarrow> (\<forall>k. a < k \<and> k < b \<longrightarrow> s ! k \<noteq> 0x3C \<and> s ! k \<noteq> 0x3E)"

text \<open>The state of the loop: what is written so far, and where the open brackets are.\<close>

definition brackets_inv :: "bytes \<Rightarrow> nat \<Rightarrow> nat list \<Rightarrow> bytes \<Rightarrow> bool" where
  "brackets_inv s i locs d \<longleftrightarrow> length d = length s \<and> i \<le> length s \<and> (\<forall>l \<in> set locs. l < i) \<and>
     (\<forall>k < i. d ! k = s ! k \<or> d ! k = 0x2B) \<and> length locs + count_list (drop i s) 0x3C < 65536"

definition close_bracket :: "nat \<Rightarrow> nat \<Rightarrow> bytes \<Rightarrow> bytes" where
  "close_bracket start i d = take start d @ replicate (i - start + 1) 0x2B @ drop (start + (i - start + 1)) d"

lemma length_close_bracket: "start \<le> i \<Longrightarrow> i < length d \<Longrightarrow> length (close_bracket start i d) = length d"
  by (simp add: close_bracket_def)

lemma nth_close_bracket:
  "start \<le> i \<Longrightarrow> i < length d \<Longrightarrow> k < length d \<Longrightarrow>
    close_bracket start i d ! k = (if start \<le> k \<and> k \<le> i then 0x2B else d ! k)"
  by (auto simp: close_bracket_def nth_append simp del: replicate_Suc)

lemma brackets_step:
  assumes "brackets_inv s i locs d" "i < length s"
  obtains locs' d' where "brackets_loop s i locs d = brackets_loop s (Suc i) locs' d'"
    "brackets_inv s (Suc i) locs' d'" "\<forall>k < i. d ! k = 0x2B \<longrightarrow> d' ! k = 0x2B"
    "s ! i = 0x3C \<Longrightarrow> locs' = i # locs" "s ! i \<noteq> 0x3C \<Longrightarrow> s ! i \<noteq> 0x3E \<Longrightarrow> locs' = locs"
    "\<And>start ls. s ! i = 0x3E \<Longrightarrow> locs = start # ls \<Longrightarrow> \<forall>k. start \<le> k \<and> k \<le> i \<longrightarrow> d' ! k = 0x2B"
proof -
  have len: "length d = length s" and lt: "\<forall>l \<in> set locs. l < i"
    and kp: "\<forall>k < i. d ! k = s ! k \<or> d ! k = 0x2B"
    and ct: "length locs + count_list (drop i s) 0x3C < 65536"
    using assms(1) by (simp_all add: brackets_inv_def)
  have dr: "drop i s = s ! i # drop (Suc i) s" using assms(2) by (rule Cons_nth_drop_Suc [symmetric])
  consider (opn) "s ! i = 0x3C" | (plain) "s ! i \<noteq> 0x3C" "s ! i \<noteq> 0x3E" | (lone) "s ! i = 0x3E" "locs = []"
    | (pair) start ls where "s ! i = 0x3E" "locs = start # ls"
    by (cases locs) auto
  then show thesis
  proof cases
    case opn
    have c: "Suc (length locs) + count_list (drop (Suc i) s) 0x3C < 65536" using ct dr opn by simp
    show thesis
    proof (rule that [of "i # locs" "d[i := s ! i]"])
      show "brackets_loop s i locs d = brackets_loop s (Suc i) (i # locs) (d[i := s ! i])"
        using opn assms(2) c by (subst brackets_loop.simps) simp
      show "brackets_inv s (Suc i) (i # locs) (d[i := s ! i])"
        using len lt kp c assms(2) by (auto simp: brackets_inv_def nth_list_update less_Suc_eq)
    qed (use opn in auto)
  next
    case plain
    show thesis
    proof (rule that [of locs "d[i := s ! i]"])
      show "brackets_loop s i locs d = brackets_loop s (Suc i) locs (d[i := s ! i])"
        using plain assms(2) by (subst brackets_loop.simps) simp
      show "brackets_inv s (Suc i) locs (d[i := s ! i])"
        using len lt kp ct dr plain assms(2) by (auto simp: brackets_inv_def nth_list_update less_Suc_eq)
    qed (use plain in auto)
  next
    case lone
    show thesis
    proof (rule that [of "[]" "d[i := s ! i]"])
      show "brackets_loop s i locs d = brackets_loop s (Suc i) [] (d[i := s ! i])"
        using lone assms(2) by (subst brackets_loop.simps) simp
      show "brackets_inv s (Suc i) [] (d[i := s ! i])"
        using len kp ct dr lone assms(2) by (auto simp: brackets_inv_def nth_list_update less_Suc_eq)
    qed (use lone in auto)
  next
    case pair
    have st: "start < i" using lt pair by simp
    note n = nth_close_bracket [of start i d] and l = length_close_bracket [of start i d]
    show thesis
    proof (rule that [of ls "close_bracket start i d"])
      show "brackets_loop s i locs d = brackets_loop s (Suc i) ls (close_bracket start i d)"
        using pair assms(2) by (subst brackets_loop.simps) (simp add: close_bracket_def Let_def)
      show "brackets_inv s (Suc i) ls (close_bracket start i d)"
        using len lt kp ct dr pair assms(2) st n l by (auto simp: brackets_inv_def less_Suc_eq)
      show "\<forall>k < i. d ! k = 0x2B \<longrightarrow> close_bracket start i d ! k = 0x2B"
        using n len assms(2) st by auto
      show "\<forall>k. start' \<le> k \<and> k \<le> i \<longrightarrow> close_bracket start i d ! k = 0x2B" if "locs = start' # ls'" for start' ls'
        using that pair n len assms(2) st by auto
    qed (use pair in auto)
  qed
qed

lemma brackets_loop_keeps:
  assumes "brackets_inv s i locs d"
  shows "length (brackets_loop s i locs d) = length s \<and>
    (\<forall>k < length s. brackets_loop s i locs d ! k = s ! k \<or> brackets_loop s i locs d ! k = 0x2B) \<and>
    (\<forall>k < i. d ! k = 0x2B \<longrightarrow> brackets_loop s i locs d ! k = 0x2B)"
  using assms
proof (induction "length s - i" arbitrary: i locs d)
  case 0
  then have "i = length s" by (simp add: brackets_inv_def)
  with 0 show ?case by (subst (1 2 3 4) brackets_loop.simps) (simp add: brackets_inv_def)
next
  case (Suc n)
  then have i: "i < length s" by simp
  from brackets_step [OF Suc.prems i] obtain locs' d' where
    e: "brackets_loop s i locs d = brackets_loop s (Suc i) locs' d'"
    "brackets_inv s (Suc i) locs' d'" "\<forall>k < i. d ! k = 0x2B \<longrightarrow> d' ! k = 0x2B" by metis
  have "n = length s - Suc i" using Suc.hyps(2) by simp
  from Suc.hyps(1) [OF this e(2)] show ?case unfolding e(1) using e(3) by auto
qed

lemma brackets_loop_pair:
  assumes "brackets_inv s i locs d" "i \<le> b" "b < length s" "s ! b = 0x3E" "bracket_free s a b"
    "i \<le> a \<and> s ! a = 0x3C \<and> a < b \<or> a < i \<and> (\<exists>ls. locs = a # ls)"
  shows "\<forall>k. a \<le> k \<and> k \<le> b \<longrightarrow> brackets_loop s i locs d ! k = 0x2B"
  using assms
proof (induction "b - i" arbitrary: i locs d)
  case 0
  then have i: "i = b" by simp
  with 0 obtain ls where ls: "locs = a # ls" by auto
  have bl: "b < length s" and inv: "brackets_inv s b locs d" using 0 i by simp_all
  from brackets_step [OF inv bl] 0(5) ls obtain locs' d' where
    e: "brackets_loop s b locs d = brackets_loop s (Suc b) locs' d'"
    "brackets_inv s (Suc b) locs' d'" "\<forall>k. a \<le> k \<and> k \<le> b \<longrightarrow> d' ! k = 0x2B" by metis
  from brackets_loop_keeps [OF e(2)] e(3) show ?case unfolding i e(1) by auto
next
  case (Suc n)
  then have il: "i < length s" and n: "n = b - Suc i" and ib: "Suc i \<le> b" by simp_all
  from brackets_step [OF Suc.prems(1) il] obtain locs' d' where
    e: "brackets_loop s i locs d = brackets_loop s (Suc i) locs' d'"
    "brackets_inv s (Suc i) locs' d'" "s ! i = 0x3C \<longrightarrow> locs' = i # locs"
    "s ! i \<noteq> 0x3C \<and> s ! i \<noteq> 0x3E \<longrightarrow> locs' = locs" by metis
  have "Suc i \<le> a \<and> s ! a = 0x3C \<and> a < b \<or> a < Suc i \<and> (\<exists>ls. locs' = a # ls)"
    using Suc.prems(5,6) e(3,4) ib by (cases "a = i") (auto simp: bracket_free_def)
  from Suc.hyps(1) [OF n e(2) ib Suc.prems(3,4,5) this] show ?case unfolding e(1) .
qed

text \<open>
  Unless 65536 brackets are open at once, every byte of a text is kept or becomes a
  plus sign, and a pair of brackets without a bracket between them becomes plus signs
  throughout, wherever it stands.
\<close>

theorem angle_brackets_replaced:
  assumes "length d = length s" "count_list s 0x3C < 65536"
  shows "length (replace_char_in_angle_brackets d s) = length s \<and>
    (\<forall>k < length s. replace_char_in_angle_brackets d s ! k = s ! k \<or> replace_char_in_angle_brackets d s ! k = 0x2B) \<and>
    (\<forall>a b. a < b \<longrightarrow> b < length s \<longrightarrow> s ! a = 0x3C \<longrightarrow> s ! b = 0x3E \<longrightarrow> bracket_free s a b \<longrightarrow>
       (\<forall>k. a \<le> k \<and> k \<le> b \<longrightarrow> replace_char_in_angle_brackets d s ! k = 0x2B))"
proof -
  have inv: "brackets_inv s 0 [] d" using assms by (simp add: brackets_inv_def)
  show ?thesis
    unfolding replace_char_in_angle_brackets_def
    using brackets_loop_keeps [OF inv] brackets_loop_pair [OF inv] by blast
qed

theorem angle_brackets_replaced_witness:
  "replace_char_in_angle_brackets [0, 0, 0, 0] [0x3C, 0x61, 0x3E, 0x62] ! 1 = 0x2B"
proof -
  have "bracket_free [0x3C, 0x61, 0x3E, 0x62] 0 2"
    unfolding bracket_free_def
  proof (intro allI impI)
    fix k :: nat assume "0 < k \<and> k < 2"
    then have "k = 1" by linarith
    then show "[0x3C, 0x61, 0x3E, 0x62] ! k \<noteq> (0x3C :: u8) \<and> [0x3C, 0x61, 0x3E, 0x62] ! k \<noteq> (0x3E :: u8)"
      by simp
  qed
  moreover have "\<forall>a b. a < b \<longrightarrow> b < length [0x3C, 0x61, 0x3E, 0x62 :: u8] \<longrightarrow>
      [0x3C, 0x61, 0x3E, 0x62] ! a = (0x3C :: u8) \<longrightarrow> [0x3C, 0x61, 0x3E, 0x62] ! b = (0x3E :: u8) \<longrightarrow>
      bracket_free [0x3C, 0x61, 0x3E, 0x62] a b \<longrightarrow> (\<forall>k. a \<le> k \<and> k \<le> b \<longrightarrow>
        replace_char_in_angle_brackets [0, 0, 0, 0] [0x3C, 0x61, 0x3E, 0x62] ! k = 0x2B)"
    using angle_brackets_replaced [of "[0, 0, 0, 0]" "[0x3C, 0x61, 0x3E, 0x62]"] by simp
  from this [rule_format, of 0 2 1] show ?thesis using calculation by simp
qed

end
