(* ===== verification/Acsm.thy ===== *)
theory Acsm
  imports Utf8Punc
begin

text \<open>
  \<open>tm_dirty/acsm.c\<close>: the multi-pattern matcher. A state machine is built once from the
  patterns (\<open>acsmAddPattern\<close>, \<open>acsmCompile\<close>) and then run over texts (\<open>acsmSearch\<close>,
  \<open>acsm_get_first_dirty_word\<close>, \<open>acsm_pattern_replace\<close>). The pattern array is the list of
  its \<open>total_pattern\<close> used entries, the state table a function of the state number; \<open>-1\<close> is
  \<open>ACSM_FAIL_STATE\<close> and the absent pattern index, as in the code. \<open>mal s\<close> says whether the
  \<open>malloc\<close> of the queue node for state \<open>s\<close> succeeds. \<open>None\<close> is a loop that does not end or
  a pointer that leaves its buffer.
\<close>

section \<open>Data\<close>

record acsm_pattern =
  patrn :: bytes
  pat_n :: int

record acsm_statetable =
  NextState :: "u8 \<Rightarrow> int"
  FailState :: int
  longest_pattern_index :: int

record acsm_struct =
  acsmMaxStates :: int
  acsmNumStates :: int
  acsmPatterns :: "acsm_pattern list"
  acsmStateTable :: "int \<Rightarrow> acsm_statetable"

definition MAX_STR_BUFFER :: int where "MAX_STR_BUFFER = 1000000"
definition MAX_KEYWORD_LEN :: int where "MAX_KEYWORD_LEN = 256"
definition MAX_PATTERNS :: int where "MAX_PATTERNS = 81920"
definition MAX_STATE :: int where "MAX_STATE = 524288"

abbreviation next_state :: "acsm_struct \<Rightarrow> int \<Rightarrow> u8 \<Rightarrow> int" where
  "next_state A s \<equiv> NextState (acsmStateTable A s)"

abbreviation fail_state :: "acsm_struct \<Rightarrow> int \<Rightarrow> int" where
  "fail_state A s \<equiv> FailState (acsmStateTable A s)"

abbreviation lpi :: "acsm_struct \<Rightarrow> int \<Rightarrow> int" where
  "lpi A s \<equiv> longest_pattern_index (acsmStateTable A s)"

definition set_entry :: "int \<Rightarrow> acsm_statetable \<Rightarrow> acsm_struct \<Rightarrow> acsm_struct" where
  "set_entry s e A = A\<lparr>acsmStateTable := (acsmStateTable A)(s := e)\<rparr>"

definition set_next :: "int \<Rightarrow> u8 \<Rightarrow> int \<Rightarrow> acsm_struct \<Rightarrow> acsm_struct" where
  "set_next s c t A = set_entry s ((acsmStateTable A s)\<lparr>NextState := (next_state A s)(c := t)\<rparr>) A"

definition set_fail :: "int \<Rightarrow> int \<Rightarrow> acsm_struct \<Rightarrow> acsm_struct" where
  "set_fail s t A = set_entry s ((acsmStateTable A s)\<lparr>FailState := t\<rparr>) A"

definition set_lpi :: "int \<Rightarrow> int \<Rightarrow> acsm_struct \<Rightarrow> acsm_struct" where
  "set_lpi s i A = set_entry s ((acsmStateTable A s)\<lparr>longest_pattern_index := i\<rparr>) A"

text \<open>The length field of a pattern, by its index.\<close>

definition pattern_n :: "acsm_struct \<Rightarrow> int \<Rightarrow> int" where
  "pattern_n A i = pat_n (acsmPatterns A ! nat i)"

section \<open>The queue of states\<close>

type_synonym queue = "int list"

definition queue_init :: queue where
  "queue_init = []"

definition queue_add :: "(int \<Rightarrow> bool) \<Rightarrow> queue \<Rightarrow> int \<Rightarrow> int \<times> queue" where
  "queue_add mal q s = (if \<not> mal s then (-1, q) else (0, q @ [s]))"

fun queue_remove :: "queue \<Rightarrow> int \<times> queue" where
  "queue_remove [] = (0, [])"
| "queue_remove (s # q) = (s, q)"

definition queue_count :: "queue \<Rightarrow> int" where
  "queue_count q = int (length q)"

section \<open>Building the trie\<close>

definition AddMatchListEntry :: "acsm_struct \<Rightarrow> int \<Rightarrow> int \<Rightarrow> acsm_struct" where
  "AddMatchListEntry A state pattern_index =
     (let cur_index = lpi A state in
      if cur_index < 0 \<or> pattern_n A cur_index < pattern_n A pattern_index
      then set_lpi state pattern_index A else A)"

text \<open>The first loop of \<open>AddPatternStates\<close>: the state reached and the bytes left over.\<close>

fun follow_states :: "acsm_struct \<Rightarrow> int \<Rightarrow> bytes \<Rightarrow> int \<times> bytes" where
  "follow_states A state [] = (state, [])"
| "follow_states A state (c # pattern) =
     (let next = next_state A state c in
      if next = -1 then (state, c # pattern) else follow_states A next pattern)"

text \<open>The second loop, with its return code.\<close>

fun extend_states :: "acsm_struct \<Rightarrow> int \<Rightarrow> bytes \<Rightarrow> int \<times> acsm_struct \<times> int" where
  "extend_states A state [] = (0, A, state)"
| "extend_states A state (c # pattern) =
     (let A = A\<lparr>acsmNumStates := acsmNumStates A + 1\<rparr> in
      if acsmNumStates A \<ge> acsmMaxStates A then (-1, A, state)
      else extend_states (set_next state c (acsmNumStates A) A) (acsmNumStates A) pattern)"

definition AddPatternStates :: "acsm_struct \<Rightarrow> int \<Rightarrow> int \<times> acsm_struct" where
  "AddPatternStates A pattern_index =
     (let p = acsmPatterns A ! nat pattern_index;
          (state, rest) = follow_states A 0 (take (nat (pat_n p)) (patrn p));
          (r, A, state) = extend_states A state rest
      in if r = -1 then (-1, A) else (0, AddMatchListEntry A state pattern_index))"

section \<open>Turning the trie into an automaton\<close>

definition alphabet :: "u8 list" where
  "alphabet = map of_nat [0..<256]"

fun queue_children :: "(int \<Rightarrow> bool) \<Rightarrow> u8 list \<Rightarrow> acsm_struct \<Rightarrow> queue \<Rightarrow> int \<times> acsm_struct \<times> queue" where
  "queue_children mal [] A q = (0, A, q)"
| "queue_children mal (i # is) A q =
     (let s = next_state A 0 i in
      if s \<noteq> -1 \<and> s \<noteq> 0 then
        let (r, q) = queue_add mal q s in
        if r = -1 then (-1, A, q) else queue_children mal is (set_fail s 0 A) q
      else queue_children mal is A q)"

partial_function (option) fail_walk :: "acsm_struct \<Rightarrow> u8 \<Rightarrow> int \<Rightarrow> int option" where
  "fail_walk A i fs =
     (let next = next_state A fs i in
      if next = -1 then fail_walk A i (fail_state A fs) else Some next)"

fun expand_state ::
  "(int \<Rightarrow> bool) \<Rightarrow> int \<Rightarrow> u8 list \<Rightarrow> acsm_struct \<Rightarrow> queue \<Rightarrow> (int \<times> acsm_struct \<times> queue) option" where
  "expand_state mal r [] A q = Some (0, A, q)"
| "expand_state mal r (i # is) A q =
     (let s = next_state A r i in
      if s \<noteq> -1 then
        let (rc, q) = queue_add mal q s in
        if rc = -1 then Some (-1, A, q)
        else do {
          next \<leftarrow> fail_walk A i (fail_state A r);
          let A = set_fail s next A;
              A = (if lpi A next \<noteq> -1 then AddMatchListEntry A s (lpi A next) else A)
          in expand_state mal r is A q }
      else expand_state mal r is (set_next r i (next_state A (fail_state A r) i) A) q)"

partial_function (option) dfa_loop ::
  "(int \<Rightarrow> bool) \<Rightarrow> acsm_struct \<Rightarrow> queue \<Rightarrow> (int \<times> acsm_struct) option" where
  "dfa_loop mal A q =
     (if queue_count q > 0 then do {
        (rc, A, q) \<leftarrow> expand_state mal (fst (queue_remove q)) alphabet A (snd (queue_remove q));
        if rc = -1 then Some (-1, A) else dfa_loop mal A q }
      else Some (0, A))"

definition Build_DFA :: "(int \<Rightarrow> bool) \<Rightarrow> acsm_struct \<Rightarrow> (int \<times> acsm_struct) option" where
  "Build_DFA mal A =
     (let (r, A, q) = queue_children mal alphabet A queue_init in
      if r = -1 then Some (-1, A) else dfa_loop mal A q)"

section \<open>Adding patterns and compiling\<close>

text \<open>
  A length of -1, which \<open>tm_dirty_load_new\<close> passes for a line that starts with a null byte (no
  caller passes another negative number), is kept: \<open>string_filter\<close> does nothing with it, the
  terminating 0 goes to the byte in front of the slot, and the pattern is stored with length
  -1 and with the text its slot held before, which is given as empty here. The byte in front
  is the highest byte of the length field of the slot before (\<open>clear_in_front\<close>: clearing it
  leaves the number modulo \<open>2 ^ 24\<close>); in front of the first slot it is the highest byte of a
  pointer of the structure, 0 already in the addresses of a 64-bit process.
\<close>

fun clear_in_front :: "acsm_pattern list \<Rightarrow> acsm_pattern list" where
  "clear_in_front [] = []"
| "clear_in_front [q] = [q\<lparr>pat_n := pat_n q mod 2 ^ 24\<rparr>]"
| "clear_in_front (q # r # qs) = q # clear_in_front (r # qs)"

definition acsmAddPattern :: "acsm_struct \<Rightarrow> bytes \<Rightarrow> int \<Rightarrow> int \<times> acsm_struct" where
  "acsmAddPattern p pat n =
     (if int (length (acsmPatterns p)) \<ge> MAX_PATTERNS then (-1, p)
      else
        let new_n = (if n > MAX_KEYWORD_LEN - 1 then MAX_KEYWORD_LEN - 1 else n);
            (pt, len) = string_filter (take (nat new_n) pat) 0;
            new_n = (if new_n < 0 then new_n else len)
        in if new_n = 0 then (0, p)
           else if new_n < 0 then
             (0, p\<lparr>acsmPatterns := clear_in_front (acsmPatterns p) @ [\<lparr>patrn = [], pat_n = new_n\<rparr>]\<rparr>)
           else (0, p\<lparr>acsmPatterns := acsmPatterns p @ [\<lparr>patrn = pt, pat_n = new_n\<rparr>]\<rparr>))"

definition clear_states :: "acsm_struct \<Rightarrow> acsm_struct" where
  "clear_states A = A\<lparr>acsmStateTable := (\<lambda>k. if 0 \<le> k \<and> k < acsmMaxStates A
     then (acsmStateTable A k)\<lparr>longest_pattern_index := -1, NextState := (\<lambda>_. -1)\<rparr>
     else acsmStateTable A k)\<rparr>"

fun add_patterns :: "nat list \<Rightarrow> acsm_struct \<Rightarrow> int \<times> acsm_struct" where
  "add_patterns [] A = (0, A)"
| "add_patterns (i # is) A =
     (let (r, A) = AddPatternStates A (int i) in if r = -1 then (-1, A) else add_patterns is A)"

definition close_root :: "acsm_struct \<Rightarrow> acsm_struct" where
  "close_root A = set_entry 0 ((acsmStateTable A 0)\<lparr>NextState :=
     (\<lambda>i. if next_state A 0 i = -1 then 0 else next_state A 0 i)\<rparr>) A"

definition acsmCompile :: "(int \<Rightarrow> bool) \<Rightarrow> acsm_struct \<Rightarrow> (int \<times> acsm_struct) option" where
  "acsmCompile mal A =
     (let A = A\<lparr>acsmMaxStates := 1 + sum_list (map pat_n (acsmPatterns A))\<rparr> in
      if acsmMaxStates A > MAX_STATE then Some (-1, A)
      else
        let A = clear_states (A\<lparr>acsmNumStates := 0\<rparr>);
            (r, A) = add_patterns [0..<length (acsmPatterns A)] A
        in if r = -1 then Some (-1, A)
           else do { (r, A) \<leftarrow> Build_DFA mal (close_root A);
                     if r = -1 then Some (-1, A) else Some (0, A) })"

section \<open>Searching\<close>

text \<open>
  One pass over the filtered text: the first state with a pattern, skipping some bytes.
\<close>

fun scan :: "acsm_struct \<Rightarrow> (u8 \<Rightarrow> bool) \<Rightarrow> int \<Rightarrow> bytes \<Rightarrow> int option" where
  "scan A skip state [] = None"
| "scan A skip state (c # T) =
     (if skip c then scan A skip state T
      else
        let state = next_state A state c in
        if lpi A state \<noteq> -1 then Some state else scan A skip state T)"

text \<open>\<open>junk\<close> is what the uninitialised buffer for the text without tags holds at first.\<close>

definition filtered_text :: "bytes \<Rightarrow> bytes \<Rightarrow> int \<Rightarrow> bytes" where
  "filtered_text junk Tx jump_tag =
     fst (string_filter (if jump_tag \<noteq> 0 then replace_char_in_angle_brackets junk Tx else Tx) 0)"

definition acsmSearch :: "acsm_struct \<Rightarrow> bytes \<Rightarrow> bytes \<Rightarrow> int \<Rightarrow> int" where
  "acsmSearch A junk Tx jump_tag =
     (if int (length Tx) > MAX_STR_BUFFER then -1
      else
        let Tc = filtered_text junk Tx jump_tag in
        if scan A (\<lambda>_. False) 0 Tc \<noteq> None then 3
        else if scan A (\<lambda>c. \<not> IS_ASCII_ALPHA c) 0 Tc \<noteq> None then 1
        else if scan A IS_ASCII_ALPHA 0 Tc \<noteq> None then 2
        else 0)"

text \<open>The second component is the C string left in \<open>retbuf\<close>, when one is.\<close>

definition acsm_get_first_dirty_word ::
  "acsm_struct \<Rightarrow> bytes \<Rightarrow> bytes \<Rightarrow> int \<Rightarrow> int \<times> bytes option" where
  "acsm_get_first_dirty_word A junk Tx jump_tag =
     (if int (length Tx) > MAX_STR_BUFFER then (-1, None)
      else
        let Tc = filtered_text junk Tx jump_tag;
            word = (\<lambda>state. Some (patrn (acsmPatterns A ! nat (lpi A state))))
        in case scan A (\<lambda>_. False) 0 Tc of
             Some state \<Rightarrow> (3, word state)
           | None \<Rightarrow>
               (case scan A (\<lambda>c. \<not> IS_ASCII_ALPHA c) 0 Tc of
                  Some state \<Rightarrow> (1, word state)
                | None \<Rightarrow>
                    (case scan A IS_ASCII_ALPHA 0 Tc of
                       Some state \<Rightarrow> (2, word state)
                     | None \<Rightarrow> (0, None))))"

end
