(* ===== verification/SuffixSet.thy ===== *)
theory SuffixSet
  imports Prelude "HOL-Library.Sublist"
begin

text \<open>
  Longest suffixes in a set of words that is closed under prefixes: what the states of
  a multi-pattern automaton stand for.
\<close>

fun lsuf :: "'a list set \<Rightarrow> 'a list \<Rightarrow> 'a list" where
  "lsuf S [] = []"
| "lsuf S (a # w) = (if a # w \<in> S then a # w else lsuf S w)"

definition prefix_closed :: "'a list set \<Rightarrow> bool" where
  "prefix_closed S \<longleftrightarrow> [] \<in> S \<and> (\<forall>w c. w @ [c] \<in> S \<longrightarrow> w \<in> S)"

lemma prefix_closedD: "prefix_closed S \<Longrightarrow> w @ v \<in> S \<Longrightarrow> w \<in> S"
proof (induction v rule: rev_induct)
  case (snoc c v)
  then have "(w @ v) @ [c] \<in> S" by simp
  then show ?case using snoc unfolding prefix_closed_def by blast
qed simp

lemma suffix_lsuf: "suffix (lsuf S w) w"
  by (induction w) (auto intro: suffix_ConsI)

lemma length_lsuf: "length (lsuf S w) \<le> length w"
  using suffix_lsuf suffix_length_le by blast

lemma lsuf_in: "[] \<in> S \<Longrightarrow> lsuf S w \<in> S"
  by (induction w) auto

lemma lsuf_self: "w \<in> S \<Longrightarrow> lsuf S w = w"
  by (cases w) auto

lemma lsuf_max: "x \<in> S \<Longrightarrow> suffix x w \<Longrightarrow> suffix x (lsuf S w)"
  by (induction w) (auto simp: suffix_Cons)

lemma lsuf_eqI:
  assumes "x \<in> S" "suffix x w" "\<And>y. y \<in> S \<Longrightarrow> suffix y w \<Longrightarrow> length y \<le> length x"
  shows "lsuf S w = x"
proof (cases "[] \<in> S \<or> lsuf S w \<in> S")
  case True
  then have "lsuf S w \<in> S" using lsuf_in by blast
  then have "length (lsuf S w) \<le> length x" using assms(3) suffix_lsuf by blast
  moreover have "suffix x (lsuf S w)" by (rule lsuf_max [OF assms(1,2)])
  ultimately show ?thesis by (metis suffix_length_le suffix_def append_Nil le_antisym length_0_conv
        length_append add_cancel_left_left)
next
  case False
  have "lsuf S w \<in> S \<or> lsuf S w = []" by (induction w) auto
  with False have "lsuf S w = []" by auto
  moreover have "suffix x (lsuf S w)" by (rule lsuf_max [OF assms(1,2)])
  ultimately show ?thesis by simp
qed

text \<open>Reading one more letter only needs the longest suffix so far.\<close>

lemma lsuf_snoc:
  assumes "prefix_closed S"
  shows "lsuf S (lsuf S w @ [c]) = lsuf S (w @ [c])"
proof (rule lsuf_eqI)
  have e: "[] \<in> S" using assms by (simp add: prefix_closed_def)
  show "lsuf S (w @ [c]) \<in> S" by (rule lsuf_in [OF e])
  have up: "suffix y (lsuf S w @ [c])" if "y \<in> S" "suffix y (w @ [c])" for y
  proof (cases y rule: rev_cases)
    case (snoc v d)
    then have "d = c" "suffix v w" using that(2) by auto
    moreover have "v \<in> S" using that(1) snoc assms unfolding prefix_closed_def by blast
    ultimately show ?thesis using lsuf_max [of v S w] snoc by simp
  qed simp
  show "suffix (lsuf S (w @ [c])) (lsuf S w @ [c])"
    by (rule up [OF lsuf_in [OF e] suffix_lsuf])
  fix y assume y: "y \<in> S" "suffix y (lsuf S w @ [c])"
  moreover have "suffix (lsuf S w @ [c]) (w @ [c])" using suffix_lsuf [of S w] by simp
  ultimately have "suffix y (w @ [c])" using suffix_order.trans by blast
  then show "length y \<le> length (lsuf S (w @ [c]))" using lsuf_max [OF y(1)] suffix_length_le by blast
qed

lemma lsuf_tl: "w \<noteq> [] \<Longrightarrow> w \<notin> S \<Longrightarrow> lsuf S w = lsuf S (tl w)"
  by (cases w) auto

lemma lsuf_tl_shorter: "w \<noteq> [] \<Longrightarrow> length (lsuf S (tl w)) < length w"
  using length_lsuf [of S "tl w"] by (cases w) auto

text \<open>An automaton that keeps the longest suffix sees every word that ends here.\<close>

lemma suffix_lsuf_iff: "p \<in> S \<Longrightarrow> suffix p (lsuf S w) \<longleftrightarrow> suffix p w"
  using lsuf_max suffix_lsuf suffix_order.trans by blast

end
