(* ===== verification/AcsmTrie.thy ===== *)
theory AcsmTrie
  imports Acsm SuffixSet
begin

text \<open>
  The trie \<open>acsmCompile\<close> builds from the patterns before \<open>Build_DFA\<close> runs: every state
  stands for a prefix of a pattern, its path from the root.
\<close>

section \<open>Field updates\<close>

lemma set_entry_simps [simp]:
  "acsmMaxStates (set_entry s e A) = acsmMaxStates A"
  "acsmNumStates (set_entry s e A) = acsmNumStates A"
  "acsmPatterns (set_entry s e A) = acsmPatterns A"
  "acsmStateTable (set_entry s e A) = (acsmStateTable A)(s := e)"
  by (simp_all add: set_entry_def)

lemma set_fields_simps [simp]:
  "acsmMaxStates (set_next s c t A) = acsmMaxStates A" "acsmNumStates (set_next s c t A) = acsmNumStates A"
  "acsmPatterns (set_next s c t A) = acsmPatterns A"
  "next_state (set_next s c t A) u d = (if u = s \<and> d = c then t else next_state A u d)"
  "fail_state (set_next s c t A) u = fail_state A u" "lpi (set_next s c t A) u = lpi A u"
  "acsmMaxStates (set_fail s t A) = acsmMaxStates A" "acsmNumStates (set_fail s t A) = acsmNumStates A"
  "acsmPatterns (set_fail s t A) = acsmPatterns A"
  "next_state (set_fail s t A) u = next_state A u"
  "fail_state (set_fail s t A) u = (if u = s then t else fail_state A u)" "lpi (set_fail s t A) u = lpi A u"
  "acsmMaxStates (set_lpi s t A) = acsmMaxStates A" "acsmNumStates (set_lpi s t A) = acsmNumStates A"
  "acsmPatterns (set_lpi s t A) = acsmPatterns A"
  "next_state (set_lpi s t A) u = next_state A u"
  "fail_state (set_lpi s t A) u = fail_state A u" "lpi (set_lpi s t A) u = (if u = s then t else lpi A u)"
  by (simp_all add: set_next_def set_fail_def set_lpi_def)

lemma AddMatch_simps [simp]:
  "acsmMaxStates (AddMatchListEntry A s i) = acsmMaxStates A"
  "acsmNumStates (AddMatchListEntry A s i) = acsmNumStates A"
  "acsmPatterns (AddMatchListEntry A s i) = acsmPatterns A"
  "next_state (AddMatchListEntry A s i) u = next_state A u"
  "fail_state (AddMatchListEntry A s i) u = fail_state A u"
  "lpi (AddMatchListEntry A s i) u =
     (if u = s \<and> (lpi A s < 0 \<or> pattern_n A (lpi A s) < pattern_n A i) then i else lpi A u)"
  by (simp_all add: AddMatchListEntry_def Let_def)

lemma pattern_n_cong: "acsmPatterns A' = acsmPatterns A \<Longrightarrow> pattern_n A' = pattern_n A"
  by (simp add: pattern_n_def fun_eq_iff)

section \<open>Patterns\<close>

text \<open>The words of the patterns, and what \<open>acsmAddPattern\<close> guarantees of the array.\<close>

definition words :: "acsm_struct \<Rightarrow> bytes list" where
  "words A = map patrn (acsmPatterns A)"

definition pattern_ok :: "acsm_pattern \<Rightarrow> bool" where
  "pattern_ok p \<longleftrightarrow> patrn p \<noteq> [] \<and> pat_n p = int (length (patrn p)) \<and> length (patrn p) \<le> 255 \<and>
     list_all norm_byte (patrn p)"

definition patterns_ok :: "acsm_struct \<Rightarrow> bool" where
  "patterns_ok A \<longleftrightarrow> list_all pattern_ok (acsmPatterns A)"

lemma length_words [simp]: "length (words A) = length (acsmPatterns A)"
  by (simp add: words_def)

lemma pattern_n_words:
  "patterns_ok A \<Longrightarrow> 0 \<le> i \<Longrightarrow> nat i < length (words A) \<Longrightarrow> pattern_n A i = int (length (words A ! nat i))"
  by (simp add: pattern_n_def words_def patterns_ok_def pattern_ok_def list_all_length)

section \<open>The trie invariant\<close>

definition states :: "int \<Rightarrow> int set" where
  "states N = {0..N}"

definition prefixes_of :: "(int \<Rightarrow> bytes) \<Rightarrow> int \<Rightarrow> bytes set" where
  "prefixes_of path N = path ` states N"

definition trie_next :: "(int \<Rightarrow> bytes) \<Rightarrow> int \<Rightarrow> acsm_struct \<Rightarrow> int \<Rightarrow> u8 \<Rightarrow> bool" where
  "trie_next path N A s c \<longleftrightarrow>
     (if path s @ [c] \<in> prefixes_of path N
      then next_state A s c \<in> states N \<and> path (next_state A s c) = path s @ [c]
      else next_state A s c = -1)"

text \<open>Of the first \<open>k\<close> words, a state that ends one of them names it.\<close>

definition trie_lpi :: "(int \<Rightarrow> bytes) \<Rightarrow> nat \<Rightarrow> acsm_struct \<Rightarrow> int \<Rightarrow> bool" where
  "trie_lpi path k A s \<longleftrightarrow>
     (if path s \<in> set (take k (words A))
      then 0 \<le> lpi A s \<and> nat (lpi A s) < k \<and> words A ! nat (lpi A s) = path s
      else lpi A s = -1)"

definition trie_ok :: "(int \<Rightarrow> bytes) \<Rightarrow> nat \<Rightarrow> acsm_struct \<Rightarrow> bool" where
  "trie_ok path k A \<longleftrightarrow>
     0 \<le> acsmNumStates A \<and> path 0 = [] \<and> inj_on path (states (acsmNumStates A)) \<and>
     prefix_closed (prefixes_of path (acsmNumStates A)) \<and>
     set (take k (words A)) \<subseteq> prefixes_of path (acsmNumStates A) \<and>
     (\<forall>x \<in> prefixes_of path (acsmNumStates A). list_all norm_byte x) \<and>
     (\<forall>s \<in> states (acsmNumStates A). \<forall>c. trie_next path (acsmNumStates A) A s c) \<and>
     (\<forall>s \<in> states (acsmNumStates A). trie_lpi path k A s) \<and>
     (\<forall>s. acsmNumStates A < s \<and> s < acsmMaxStates A \<longrightarrow> (\<forall>c. next_state A s c = -1) \<and> lpi A s = -1)"

lemma statesI: "0 \<le> s \<Longrightarrow> s \<le> N \<Longrightarrow> s \<in> states N"
  by (simp add: states_def)

lemma prefixes_of_I: "s \<in> states N \<Longrightarrow> path s \<in> prefixes_of path N"
  by (simp add: prefixes_of_def)

text \<open>Following a word from the root.\<close>

lemma follow_states_spec:
  assumes "trie_ok path k A" "s \<in> states (acsmNumStates A)" "follow_states A s w = (t, rest)"
  shows "t \<in> states (acsmNumStates A) \<and> path t @ rest = path s @ w \<and>
    (rest \<noteq> [] \<longrightarrow> path t @ [hd rest] \<notin> prefixes_of path (acsmNumStates A)) \<and> length rest \<le> length w"
  using assms(2,3)
proof (induction w arbitrary: s)
  case Nil
  then show ?case by simp
next
  case (Cons c w)
  have n: "trie_next path (acsmNumStates A) A s c" using assms(1) Cons.prems(1) by (simp add: trie_ok_def)
  show ?case
  proof (cases "path s @ [c] \<in> prefixes_of path (acsmNumStates A)")
    case True
    then have m: "next_state A s c \<in> states (acsmNumStates A)" "path (next_state A s c) = path s @ [c]"
      using n by (simp_all add: trie_next_def)
    then have "next_state A s c \<noteq> -1" by (auto simp: states_def)
    then have "follow_states A (next_state A s c) w = (t, rest)"
      using Cons.prems(2) by (simp add: Let_def)
    from Cons.IH [OF m(1) this] m(2) show ?thesis by auto
  next
    case False
    then have "next_state A s c = -1" using n by (simp add: trie_next_def)
    then have "t = s" "rest = c # w" using Cons.prems(2) by (simp_all add: Let_def)
    with False Cons.prems(1) show ?thesis by simp
  qed
qed

text \<open>One new state below a state without that child.\<close>

lemma trie_ok_add_state:
  assumes "trie_ok path k A" "s \<in> states (acsmNumStates A)"
    "path s @ [c] \<notin> prefixes_of path (acsmNumStates A)" "acsmNumStates A + 1 < acsmMaxStates A" "norm_byte c"
  defines "N \<equiv> acsmNumStates A + 1"
  defines "path' \<equiv> path(N := path s @ [c])"
  defines "A' \<equiv> set_next s c N (A\<lparr>acsmNumStates := N\<rparr>)"
  shows "trie_ok path' k A'" and "prefixes_of path' N = insert (path s @ [c]) (prefixes_of path (acsmNumStates A))"
proof -
  let ?n = "acsmNumStates A"
  let ?S = "prefixes_of path ?n"
  have n0: "0 \<le> ?n" and sN: "s \<in> states ?n" "s \<noteq> N" and pc: "prefix_closed ?S" and inj: "inj_on path (states ?n)"
    using assms(1,2) by (auto simp: trie_ok_def states_def N_def)
  have st: "states N = insert N (states ?n)" using n0 by (auto simp: states_def N_def)
  have Nn: "N \<notin> states ?n" by (simp add: states_def N_def)
  have pp: "path' u = path u" if "u \<in> states ?n" for u using that Nn by (auto simp: path'_def)
  have im: "path' ` states ?n = path ` states ?n" by (rule image_cong) (simp_all add: pp)
  show S': "prefixes_of path' N = insert (path s @ [c]) ?S"
  proof -
    have "path' N = path s @ [c]" by (simp add: path'_def)
    then show ?thesis by (simp add: prefixes_of_def st im)
  qed
  have ps: "path s \<in> ?S" using sN by (simp add: prefixes_of_def)
  have leaf: "path s @ [c] @ [d] \<notin> insert (path s @ [c]) ?S" for d
  proof
    assume "path s @ [c] @ [d] \<in> insert (path s @ [c]) ?S"
    then have "(path s @ [c]) @ [d] \<in> ?S" by auto
    then have "path s @ [c] \<in> ?S" using pc by (rule prefix_closedD [rotated])
    with assms(3) show False by simp
  qed
  have w: "words A' = words A" by (simp add: A'_def words_def)
  have fresh: "next_state A N d = -1" "lpi A N = -1" for d
    using assms(1,4) by (auto simp: trie_ok_def N_def)
  have tn: "trie_next path' N A' u d" if "u \<in> states N" for u d
  proof (cases "u = N")
    case True
    moreover have "path' N = path s @ [c]" by (simp add: path'_def)
    moreover have "next_state A' N d = -1" using fresh sN by (simp add: A'_def)
    ultimately show ?thesis using leaf by (simp add: trie_next_def S')
  next
    case False
    then have u: "u \<in> states ?n" using that st by simp
    then have t: "trie_next path ?n A u d" using assms(1) by (simp add: trie_ok_def)
    show ?thesis
    proof (cases "u = s \<and> d = c")
      case True
      moreover have "path' N = path s @ [c]" by (simp add: path'_def)
      ultimately show ?thesis using pp [OF sN(1)] st by (simp add: trie_next_def S' A'_def)
    next
      case ne: False
      have "path u @ [d] \<noteq> path s @ [c]"
        using ne inj u sN(1) by (auto simp: inj_on_def)
      moreover have "next_state A' u d = next_state A u d" using ne by (auto simp: A'_def)
      ultimately show ?thesis using t u pp st by (auto simp: trie_next_def S')
    qed
  qed
  have tl: "trie_lpi path' k A' u" if "u \<in> states N" for u
  proof (cases "u = N")
    case True
    moreover have "path s @ [c] \<notin> set (take k (words A))" using assms(1,3) by (auto simp: trie_ok_def)
    moreover have "path' N = path s @ [c]" by (simp add: path'_def)
    moreover have "lpi A' N = -1" using fresh by (simp add: A'_def)
    ultimately show ?thesis by (simp add: trie_lpi_def w)
  next
    case False
    then have u: "u \<in> states ?n" using that st by simp
    then have "trie_lpi path k A u" using assms(1) by (simp add: trie_ok_def)
    moreover have "lpi A' u = lpi A u" by (simp add: A'_def)
    ultimately show ?thesis using pp [OF u] by (simp add: trie_lpi_def w)
  qed
  have "inj_on path' (states N)"
  proof -
    have "inj_on path' (states ?n)" using inj inj_on_cong [of "states ?n" path' path] pp by blast
    moreover have "path' N \<notin> path' ` (states ?n - {N})"
      using assms(3) Nn im by (simp add: prefixes_of_def path'_def)
    ultimately show ?thesis unfolding st by simp
  qed
  moreover have "prefix_closed (insert (path s @ [c]) ?S)"
    using pc ps by (auto simp: prefix_closed_def)
  moreover have "path' 0 = []" using assms(1) n0 pp [of 0] by (simp add: trie_ok_def states_def)
  moreover have "(\<forall>d. next_state A' u d = -1) \<and> lpi A' u = -1" if "N < u \<and> u < acsmMaxStates A" for u
    using assms(1) that sN(1) by (auto simp: trie_ok_def A'_def N_def states_def)
  moreover have "acsmNumStates A' = N" "acsmMaxStates A' = acsmMaxStates A" "0 \<le> N"
    using n0 by (simp_all add: A'_def N_def)
  moreover have "set (take k (words A)) \<subseteq> insert (path s @ [c]) ?S" using assms(1) by (auto simp: trie_ok_def)
  moreover have "\<forall>x \<in> insert (path s @ [c]) ?S. list_all norm_byte x"
    using assms(1,5) ps by (auto simp: trie_ok_def)
  ultimately show "trie_ok path' k A'"
    unfolding trie_ok_def using tn tl by (simp only: S' w) blast
qed

lemma no_longer_path:
  assumes "prefix_closed S" "w \<notin> S"
  shows "w @ [d] \<notin> insert w S"
proof
  assume "w @ [d] \<in> insert w S"
  then have "w @ [d] \<in> S" by auto
  then have "w \<in> S" by (rule prefix_closedD [OF assms(1)])
  with assms(2) show False by simp
qed

lemma extend_states_spec:
  "trie_ok path k A \<Longrightarrow> s \<in> states (acsmNumStates A) \<Longrightarrow>
    (rest \<noteq> [] \<longrightarrow> path s @ [hd rest] \<notin> prefixes_of path (acsmNumStates A)) \<Longrightarrow>
    acsmNumStates A + int (length rest) < acsmMaxStates A \<Longrightarrow> list_all norm_byte rest \<Longrightarrow>
    \<exists>path' A' t. extend_states A s rest = (0, A', t) \<and> trie_ok path' k A' \<and> t \<in> states (acsmNumStates A') \<and>
      path' t = path s @ rest \<and> acsmNumStates A' = acsmNumStates A + int (length rest) \<and>
      acsmMaxStates A' = acsmMaxStates A \<and> acsmPatterns A' = acsmPatterns A"
proof (induction rest arbitrary: A s path)
  case Nil
  then show ?case by auto
next
  case (Cons c rest)
  let ?N = "acsmNumStates A + 1"
  let ?A = "set_next s c ?N (A\<lparr>acsmNumStates := ?N\<rparr>)"
  let ?path = "path(?N := path s @ [c])"
  let ?S = "prefixes_of path (acsmNumStates A)"
  have ni: "path s @ [c] \<notin> ?S" and lt: "?N < acsmMaxStates A" and n0: "0 \<le> acsmNumStates A"
    and pc: "prefix_closed ?S" and nb: "norm_byte c" "list_all norm_byte rest"
    using Cons.prems by (auto simp: trie_ok_def)
  note a = trie_ok_add_state [OF Cons.prems(1,2) ni lt nb(1)]
  have leaf: "rest \<noteq> [] \<longrightarrow> ?path ?N @ [hd rest] \<notin> prefixes_of ?path (acsmNumStates ?A)"
    using no_longer_path [OF pc ni] a(2) by simp
  have "?N \<in> states (acsmNumStates ?A)" using n0 by (simp add: states_def)
  moreover have "acsmNumStates ?A + int (length rest) < acsmMaxStates ?A" using Cons.prems(4) by simp
  ultimately obtain path' A' t where
    "extend_states ?A ?N rest = (0, A', t)" "trie_ok path' k A'" "t \<in> states (acsmNumStates A')"
    "path' t = ?path ?N @ rest" "acsmNumStates A' = acsmNumStates ?A + int (length rest)"
    "acsmMaxStates A' = acsmMaxStates ?A" "acsmPatterns A' = acsmPatterns ?A"
    using Cons.IH [OF a(1) _ leaf _ nb(2)] by blast
  moreover have "extend_states A s (c # rest) = extend_states ?A ?N rest" using lt by (simp add: Let_def)
  ultimately show ?case by auto
qed

section \<open>Adding the patterns\<close>

lemma trie_ok_add_word:
  assumes "trie_ok path k A" "k < length (words A)" "t \<in> states (acsmNumStates A)"
    "path t = words A ! k" "patterns_ok A"
  shows "trie_ok path (Suc k) (AddMatchListEntry A t (int k))"
proof -
  let ?A = "AddMatchListEntry A t (int k)" and ?w = "words A ! k"
  have tk: "set (take (Suc k) (words A)) = insert ?w (set (take k (words A)))"
    using assms(2) by (simp add: take_Suc_conv_app_nth)
  have w: "words ?A = words A" by (simp add: words_def)
  have inj: "inj_on path (states (acsmNumStates A))" using assms(1) by (simp add: trie_ok_def)
  have "trie_lpi path (Suc k) ?A u" if u: "u \<in> states (acsmNumStates A)" for u
  proof -
    have old: "trie_lpi path k A u" using assms(1) u by (simp add: trie_ok_def)
    show ?thesis
    proof (cases "u = t")
      case False
      then have "path u \<noteq> ?w" using inj u assms(3,4) by (auto simp: inj_on_def)
      with False old show ?thesis by (auto simp: trie_lpi_def w tk)
    next
      case True
      show ?thesis
      proof (cases "?w \<in> set (take k (words A))")
        case in_old: True
        then have l: "0 \<le> lpi A t" "nat (lpi A t) < k" "words A ! nat (lpi A t) = ?w"
          using old True assms(4) by (auto simp: trie_lpi_def)
        have "pattern_n A (lpi A t) = int (length ?w)"
          using pattern_n_words [OF assms(5) l(1)] l(2,3) assms(2) by simp
        moreover have "pattern_n A (int k) = int (length ?w)"
          using pattern_n_words [OF assms(5), of "int k"] assms(2) by simp
        ultimately show ?thesis using True l assms(4) by (auto simp: trie_lpi_def w tk)
      next
        case new: False
        then have "lpi A t = -1" using old True assms(4) by (auto simp: trie_lpi_def)
        with True assms(4) show ?thesis by (simp add: trie_lpi_def w tk)
      qed
    qed
  qed
  moreover have "?w \<in> prefixes_of path (acsmNumStates A)"
    using assms(3,4) prefixes_of_I [of t "acsmNumStates A" path] by simp
  ultimately show ?thesis
    using assms(1,3) by (auto simp: trie_ok_def w tk trie_next_def) (auto simp: states_def)
qed

lemma AddPatternStates_spec:
  assumes "trie_ok path k A" "k < length (words A)" "patterns_ok A"
    "acsmNumStates A + int (length (words A ! k)) < acsmMaxStates A"
  shows "\<exists>path' A'. AddPatternStates A (int k) = (0, A') \<and> trie_ok path' (Suc k) A' \<and>
    acsmNumStates A' \<le> acsmNumStates A + int (length (words A ! k)) \<and>
    acsmMaxStates A' = acsmMaxStates A \<and> acsmPatterns A' = acsmPatterns A"
proof -
  let ?p = "acsmPatterns A ! k" and ?w = "words A ! k"
  have p: "pattern_ok ?p" "patrn ?p = ?w"
    using assms(2,3) by (simp_all add: patterns_ok_def list_all_length words_def)
  then have tk: "take (nat (pat_n ?p)) (patrn ?p) = ?w" by (simp add: pattern_ok_def)
  obtain s rest where f: "follow_states A 0 ?w = (s, rest)" by fastforce
  have r: "0 \<in> states (acsmNumStates A)" "path 0 = []"
    using assms(1) by (auto simp: trie_ok_def states_def)
  from follow_states_spec [OF assms(1) r(1) f] r(2) have
    s: "s \<in> states (acsmNumStates A)" "path s @ rest = ?w"
    "rest \<noteq> [] \<longrightarrow> path s @ [hd rest] \<notin> prefixes_of path (acsmNumStates A)" "length rest \<le> length ?w" by auto
  have "acsmNumStates A + int (length rest) < acsmMaxStates A" using assms(4) s(4) by simp
  moreover have "list_all norm_byte rest"
  proof -
    have "list_all norm_byte ?w" using p by (auto simp: pattern_ok_def)
    then have "list_all norm_byte (path s @ rest)" by (simp only: s(2))
    then show ?thesis by simp
  qed
  ultimately obtain path' A' t where
    e: "extend_states A s rest = (0, A', t)" "trie_ok path' k A'" "t \<in> states (acsmNumStates A')"
    "path' t = path s @ rest" "acsmNumStates A' = acsmNumStates A + int (length rest)"
    "acsmMaxStates A' = acsmMaxStates A" "acsmPatterns A' = acsmPatterns A"
    using extend_states_spec [OF assms(1) s(1,3)] by blast
  have w: "words A' = words A" "patterns_ok A'" using e(7) assms(3) by (simp_all add: words_def patterns_ok_def)
  have "trie_ok path' (Suc k) (AddMatchListEntry A' t (int k))"
    by (rule trie_ok_add_word [OF e(2) _ e(3)]) (use e(4) s(2) w assms(2) in simp_all)
  moreover have "AddPatternStates A (int k) = (0, AddMatchListEntry A' t (int k))"
    using f e(1) tk by (simp add: AddPatternStates_def Let_def)
  ultimately show ?thesis using e(5,6,7) s(4)
    by (intro exI [of _ path'] exI [of _ "AddMatchListEntry A' t (int k)"]) auto
qed

lemma add_patterns_spec:
  assumes "patterns_ok A" "k \<le> length (words A)"
    "acsmNumStates A + int (sum_list (map length (drop k (words A)))) < acsmMaxStates A" "trie_ok path k A"
  shows "\<exists>path' A'. add_patterns [k..<length (words A)] A = (0, A') \<and> trie_ok path' (length (words A)) A' \<and>
    acsmNumStates A' < acsmMaxStates A \<and> acsmMaxStates A' = acsmMaxStates A \<and> acsmPatterns A' = acsmPatterns A"
  using assms
proof (induction "length (words A) - k" arbitrary: k A path)
  case 0
  then show ?case by auto
next
  case (Suc n)
  then have k: "k < length (words A)" by simp
  have d: "drop k (words A) = words A ! k # drop (Suc k) (words A)" using Cons_nth_drop_Suc [OF k] by simp
  have "acsmNumStates A + int (length (words A ! k)) < acsmMaxStates A" using Suc.prems(3) d by simp
  from AddPatternStates_spec [OF Suc.prems(4) k Suc.prems(1) this] obtain path' A' where
    a: "AddPatternStates A (int k) = (0, A')" "trie_ok path' (Suc k) A'"
    "acsmNumStates A' \<le> acsmNumStates A + int (length (words A ! k))"
    "acsmMaxStates A' = acsmMaxStates A" "acsmPatterns A' = acsmPatterns A" by blast
  have w: "words A' = words A" "patterns_ok A'" using a(5) Suc.prems(1) by (simp_all add: words_def patterns_ok_def)
  have u: "add_patterns [k..<length (words A)] A = add_patterns [Suc k..<length (words A')] A'"
    using upt_conv_Cons [OF k] a(1) w(1) by (simp del: length_words)
  have "\<exists>path'' A''. add_patterns [Suc k..<length (words A')] A' = (0, A'') \<and> trie_ok path'' (length (words A')) A'' \<and>
    acsmNumStates A'' < acsmMaxStates A' \<and> acsmMaxStates A'' = acsmMaxStates A' \<and> acsmPatterns A'' = acsmPatterns A'"
    by (rule Suc.hyps(1)) (use Suc.hyps(2) Suc.prems(3) a w k d in auto)
  then show ?case unfolding u using a(4,5) w(1) by auto
qed

text \<open>The cleared table is the trie of no words.\<close>

lemma trie_ok_clear:
  assumes "acsmNumStates A = 0" "0 < acsmMaxStates A"
  shows "trie_ok (\<lambda>_. []) 0 (clear_states A)"
proof -
  have s: "states 0 = {0}" by (auto simp: states_def)
  have "acsmNumStates (clear_states A) = 0" "acsmMaxStates (clear_states A) = acsmMaxStates A"
    using assms by (simp_all add: clear_states_def)
  then show ?thesis
    using assms by (auto simp: trie_ok_def s prefixes_of_def prefix_closed_def trie_next_def trie_lpi_def clear_states_def)
qed

end
