(* ===== verification/AcsmDfa.thy ===== *)
theory AcsmDfa
  imports AcsmTrie
begin

text \<open>
  \<open>Build_DFA\<close> on a trie: the breadth-first pass ends, never follows a chain of failures
  further than one step, and leaves a table whose transitions lead to the longest suffix
  that is still a prefix of a pattern.
\<close>

section \<open>What the table should hold\<close>

definition good_next :: "(int \<Rightarrow> bytes) \<Rightarrow> int \<Rightarrow> acsm_struct \<Rightarrow> int \<Rightarrow> u8 \<Rightarrow> bool" where
  "good_next path N A s c \<longleftrightarrow> next_state A s c \<in> states N \<and>
     path (next_state A s c) = lsuf (prefixes_of path N) (path s @ [c])"

definition good_fail :: "(int \<Rightarrow> bytes) \<Rightarrow> int \<Rightarrow> acsm_struct \<Rightarrow> int \<Rightarrow> bool" where
  "good_fail path N A s \<longleftrightarrow> fail_state A s \<in> states N \<and>
     path (fail_state A s) = lsuf (prefixes_of path N) (tl (path s))"

definition good_lpi :: "(int \<Rightarrow> bytes) \<Rightarrow> acsm_struct \<Rightarrow> int \<Rightarrow> bool" where
  "good_lpi path A s \<longleftrightarrow>
     (if lpi A s = -1 then \<forall>w \<in> set (words A). \<not> suffix w (path s)
      else 0 \<le> lpi A s \<and> nat (lpi A s) < length (words A) \<and> suffix (words A ! nat (lpi A s)) (path s) \<and>
        (\<forall>w \<in> set (words A). suffix w (path s) \<longrightarrow> length w \<le> length (words A ! nat (lpi A s))))"

text \<open>The states discovered once the pairs \<open>E\<close> of a state and a byte are expanded.\<close>

definition disc :: "(int \<Rightarrow> bytes) \<Rightarrow> int \<Rightarrow> (int \<times> u8) set \<Rightarrow> int set" where
  "disc path N E = {s \<in> states N. s = 0 \<or> (\<exists>(p, c) \<in> E. path s = path p @ [c])}"

definition trie_paths :: "(int \<Rightarrow> bytes) \<Rightarrow> int \<Rightarrow> acsm_struct \<Rightarrow> bool" where
  "trie_paths path N A \<longleftrightarrow> 0 \<le> N \<and> path 0 = [] \<and> inj_on path (states N) \<and>
     prefix_closed (prefixes_of path N) \<and> set (words A) \<subseteq> prefixes_of path N \<and> patterns_ok A \<and>
     (\<forall>x \<in> prefixes_of path N. list_all norm_byte x)"

definition table_ok :: "(int \<Rightarrow> bytes) \<Rightarrow> int \<Rightarrow> acsm_struct \<Rightarrow> (int \<times> u8) set \<Rightarrow> bool" where
  "table_ok path N A E \<longleftrightarrow>
     (\<forall>s \<in> states N. \<forall>c. if (s, c) \<in> E then good_next path N A s c else trie_next path N A s c) \<and>
     (\<forall>s \<in> disc path N E. (s \<noteq> 0 \<longrightarrow> good_fail path N A s) \<and> good_lpi path A s) \<and>
     (\<forall>s \<in> states N - disc path N E. trie_lpi path (length (words A)) A s)"

lemma disc_insert:
  "disc path N (insert (r, c) E) = disc path N E \<union> {s \<in> states N. path s = path r @ [c]}"
  by (auto simp: disc_def)

lemma disc_insert_missing:
  assumes "path r @ [c] \<notin> prefixes_of path N"
  shows "disc path N (insert (r, c) E) = disc path N E"
proof -
  have "path s \<noteq> path r @ [c]" if "s \<in> states N" for s
    using assms prefixes_of_I [OF that, of path] by auto
  then have "{s \<in> states N. path s = path r @ [c]} = {}" by blast
  then show ?thesis by (simp only: disc_insert Un_empty_right)
qed

lemma trie_paths_cong:
  "acsmPatterns A' = acsmPatterns A \<Longrightarrow> trie_paths path N A' = trie_paths path N A"
  by (simp add: trie_paths_def words_def patterns_ok_def)

lemma words_cong: "acsmPatterns A' = acsmPatterns A \<Longrightarrow> words A' = words A"
  by (simp add: words_def)

lemma states_finite [simp]: "finite (states N)"
  by (simp add: states_def)

lemma nil_not_word: "trie_paths path N A \<Longrightarrow> w \<in> set (words A) \<Longrightarrow> w \<noteq> []"
  by (auto simp: trie_paths_def patterns_ok_def pattern_ok_def words_def list_all_iff)

text \<open>A child of \<open>r\<close> that is found for the first time.\<close>

lemma table_ok_child:
  assumes tp: "trie_paths path N A" and tb: "table_ok path N A E"
    and r: "r \<in> disc path N E" "r \<noteq> 0" and c: "(r, c) \<notin> E"
    and s: "next_state A r c = s" "s \<noteq> -1" "s \<notin> disc path N E"
    and f: "(fail_state A r, c) \<in> E" "next_state A (fail_state A r) c = next" "next \<in> disc path N E"
  defines "A1 \<equiv> set_fail s next A"
  defines "A' \<equiv> (if lpi A1 next \<noteq> -1 then AddMatchListEntry A1 s (lpi A1 next) else A1)"
  shows "table_ok path N A' (insert (r, c) E)"
proof -
  let ?S = "prefixes_of path N"
  have rN: "r \<in> states N" using r(1) by (simp add: disc_def)
  have "trie_next path N A r c" using tb rN c by (auto simp: table_ok_def)
  then have sp: "path s = path r @ [c]" "s \<in> states N" "path s \<in> ?S"
    using s(1,2) by (auto simp: trie_next_def split: if_splits)
  have pr: "path r \<noteq> []"
    using r(2) rN tp by (auto simp: trie_paths_def inj_on_def states_def)
  have gf: "good_fail path N A r" using tb r by (simp add: table_ok_def)
  then have fN: "fail_state A r \<in> states N" by (simp add: good_fail_def)
  have "good_next path N A (fail_state A r) c" using tb f(1) fN by (auto simp: table_ok_def)
  then have nx: "next \<in> states N" "path next = lsuf ?S (tl (path s))"
    using gf f(2) sp(1) pr lsuf_snoc [of ?S "tl (path r)" c] tp
    by (auto simp: good_next_def good_fail_def trie_paths_def)
  have ne: "next \<noteq> s" using f(3) s(3) by auto
  have pat: "acsmPatterns A' = acsmPatterns A" and w: "words A' = words A"
    by (simp_all add: A'_def A1_def words_def)
  have nA: "next_state A' u d = next_state A u d" for u d by (simp add: A'_def A1_def)
  have fA: "fail_state A' u = (if u = s then next else fail_state A u)" for u by (simp add: A'_def A1_def)
  have lA: "lpi A' u = lpi A u" if "u \<noteq> s" for u using that by (simp add: A'_def A1_def)
  have glnx: "good_lpi path A next" using tb f(3) by (simp add: table_ok_def)
  have tls: "trie_lpi path (length (words A)) A s" using tb s(3) sp(2) by (simp add: table_ok_def)
  have psn: "path s \<noteq> []" using sp(1) by simp
  have gs: "good_lpi path A' s"
  proof (cases "path s \<in> set (words A)")
    case True
    then have l: "0 \<le> lpi A s" "nat (lpi A s) < length (words A)" "words A ! nat (lpi A s) = path s"
      using tls by (auto simp: trie_lpi_def)
    have keep: "lpi A' s = lpi A s"
    proof (cases "lpi A next = -1")
      case True
      then show ?thesis using ne by (simp add: A'_def A1_def)
    next
      case False
      then have g: "0 \<le> lpi A next" "nat (lpi A next) < length (words A)"
        "suffix (words A ! nat (lpi A next)) (path next)"
        using glnx by (auto simp: good_lpi_def)
      have "length (words A ! nat (lpi A next)) \<le> length (path next)" using g(3) by (rule suffix_length_le)
      also have "\<dots> < length (path s)" unfolding nx(2) by (rule lsuf_tl_shorter [OF psn])
      finally have "pattern_n A (lpi A next) < pattern_n A (lpi A s)"
        using pattern_n_words [of A] g l tp by (simp add: trie_paths_def)
      moreover have "pattern_n A1 = pattern_n A" by (rule pattern_n_cong) (simp add: A1_def)
      ultimately show ?thesis using ne l(1) by (simp add: A'_def A1_def)
    qed
    then show ?thesis using l suffix_length_le by (fastforce simp: good_lpi_def w)
  next
    case False
    then have m: "lpi A s = -1" using tls by (simp add: trie_lpi_def)
    have suf: "suffix x (path s) \<longleftrightarrow> suffix x (path next)" if "x \<in> set (words A)" for x
    proof -
      have "suffix x (path s) \<longleftrightarrow> suffix x (tl (path s))"
        using False that psn by (cases "path s") (auto simp: suffix_Cons)
      also have "\<dots> \<longleftrightarrow> suffix x (path next)"
        unfolding nx(2) using that tp suffix_lsuf_iff [of x ?S "tl (path s)"] by (auto simp: trie_paths_def)
      finally show ?thesis .
    qed
    have l: "lpi A' s = lpi A next" using m ne by (auto simp: A'_def A1_def)
    have "words A ! i \<in> set (words A)" if "i < length (words A)" for i using that by (rule nth_mem)
    with glnx suf show ?thesis unfolding good_lpi_def w l by (simp split: if_splits)
  qed
  have d: "disc path N (insert (r, c) E) = insert s (disc path N E)"
  proof -
    have inj: "inj_on path (states N)" using tp by (simp add: trie_paths_def)
    have "u = s" if "u \<in> states N" "path u = path r @ [c]" for u
      using inj_onD [OF inj, of u s] that sp by simp
    then have "{u \<in> states N. path u = path r @ [c]} = {s}" using sp by blast
    then show ?thesis unfolding disc_insert by simp
  qed
  have gfs: "good_fail path N A' s" using nx by (simp add: good_fail_def fA)
  have "good_next path N A' r c" using sp lsuf_self [of "path s" ?S] s(1) by (simp add: good_next_def nA)
  then have 1: "if (u, e) \<in> insert (r, c) E then good_next path N A' u e else trie_next path N A' u e"
    if "u \<in> states N" for u e
  proof -
    have "if (u, e) \<in> E then good_next path N A u e else trie_next path N A u e"
      using tb that unfolding table_ok_def by blast
    then show ?thesis using \<open>good_next path N A' r c\<close> unfolding good_next_def trie_next_def nA by auto
  qed
  have 2: "(u \<noteq> 0 \<longrightarrow> good_fail path N A' u) \<and> good_lpi path A' u" if "u \<in> insert s (disc path N E)" for u
  proof (cases "u = s")
    case True
    then show ?thesis using gs gfs by simp
  next
    case False
    then have "(u \<noteq> 0 \<longrightarrow> good_fail path N A u) \<and> good_lpi path A u"
      using that tb by (simp add: table_ok_def)
    then show ?thesis using False by (simp add: good_fail_def fA good_lpi_def lA w split: if_splits)
  qed
  have 3: "trie_lpi path (length (words A')) A' u" if "u \<in> states N - insert s (disc path N E)" for u
    using that tb by (auto simp: table_ok_def trie_lpi_def lA w)
  show ?thesis unfolding table_ok_def d using 1 2 3 by blast
qed


text \<open>A missing child: the transition of the failure state is taken over.\<close>

lemma table_ok_no_child:
  assumes tp: "trie_paths path N A" and tb: "table_ok path N A E"
    and r: "r \<in> disc path N E" "r \<noteq> 0" and c: "(r, c) \<notin> E" "next_state A r c = -1"
    and f: "(fail_state A r, c) \<in> E"
  shows "table_ok path N (set_next r c (next_state A (fail_state A r) c) A) (insert (r, c) E)"
proof -
  let ?S = "prefixes_of path N" and ?A = "set_next r c (next_state A (fail_state A r) c) A"
  have rN: "r \<in> states N" using r(1) by (simp add: disc_def)
  have "trie_next path N A r c" using tb rN c by (auto simp: table_ok_def)
  then have nS: "path r @ [c] \<notin> ?S" using c(2) by (auto simp: trie_next_def states_def split: if_splits)
  have pr: "path r \<noteq> []"
    using r(2) rN tp by (auto simp: trie_paths_def inj_on_def states_def)
  have gf: "good_fail path N A r" using tb r by (simp add: table_ok_def)
  then have fN: "fail_state A r \<in> states N" by (simp add: good_fail_def)
  have "good_next path N A (fail_state A r) c" using tb f fN by (auto simp: table_ok_def)
  then have nx: "next_state A (fail_state A r) c \<in> states N"
    "path (next_state A (fail_state A r) c) = lsuf ?S (path r @ [c])"
    using gf lsuf_snoc [of ?S "tl (path r)" c] lsuf_tl [OF _ nS] pr tp
    by (auto simp: good_next_def good_fail_def trie_paths_def)
  have d: "disc path N (insert (r, c) E) = disc path N E"
    by (rule disc_insert_missing [OF nS])
  have w: "words ?A = words A" by (simp add: words_def)
  have 1: "if (u, e) \<in> insert (r, c) E then good_next path N ?A u e else trie_next path N ?A u e"
    if "u \<in> states N" for u e
  proof (cases "(u, e) = (r, c)")
    case True
    then show ?thesis using nx by (simp add: good_next_def)
  next
    case False
    then have e: "next_state ?A u e = next_state A u e" by auto
    have "if (u, e) \<in> E then good_next path N A u e else trie_next path N A u e"
      using tb that unfolding table_ok_def by blast
    then show ?thesis using False e by (auto simp: good_next_def trie_next_def)
  qed
  have 2: "(u \<noteq> 0 \<longrightarrow> good_fail path N ?A u) \<and> good_lpi path ?A u" if "u \<in> disc path N E" for u
  proof -
    have "(u \<noteq> 0 \<longrightarrow> good_fail path N A u) \<and> good_lpi path A u" using that tb by (simp add: table_ok_def)
    then show ?thesis by (simp add: good_fail_def good_lpi_def w split: if_splits)
  qed
  have 3: "trie_lpi path (length (words ?A)) ?A u" if "u \<in> states N - disc path N E" for u
    using that tb by (simp add: table_ok_def trie_lpi_def w)
  show ?thesis unfolding table_ok_def d using 1 2 3 by blast
qed

section \<open>One state of the queue\<close>

text \<open>
  While \<open>r\<close> is expanded: all shorter states are fully expanded, the bytes \<open>dn\<close> of \<open>r\<close> are
  done, and the queue holds the other discovered states, by increasing length.
\<close>

definition pairs_of :: "int set \<Rightarrow> int \<Rightarrow> u8 set \<Rightarrow> (int \<times> u8) set" where
  "pairs_of D r dn = D \<times> UNIV \<union> {r} \<times> dn"

definition plen :: "(int \<Rightarrow> bytes) \<Rightarrow> int \<Rightarrow> nat" where
  "plen path s = length (path s)"

definition expanding :: "(int \<Rightarrow> bytes) \<Rightarrow> int \<Rightarrow> int set \<Rightarrow> int \<Rightarrow> u8 set \<Rightarrow> queue \<Rightarrow> bool" where
  "expanding path N D r dn q \<longleftrightarrow>
     0 \<in> D \<and> D \<subseteq> states N \<and> r \<in> states N \<and> r \<notin> D \<and>
     disc path N (pairs_of D r dn) = insert r (D \<union> set q) \<and>
     distinct q \<and> r \<notin> set q \<and> D \<inter> set q = {} \<and>
     sorted (map (plen path) q) \<and> (\<forall>x \<in> set q. plen path r \<le> plen path x \<and> plen path x \<le> Suc (plen path r)) \<and>
     (\<forall>s \<in> states N. plen path s < plen path r \<longrightarrow> s \<in> D)"

lemma pairs_of_insert: "pairs_of D r (insert c dn) = insert (r, c) (pairs_of D r dn)"
  by (auto simp: pairs_of_def)

lemma expand_one:
  assumes tp: "trie_paths path N A" and tb: "table_ok path N A (pairs_of D r dn)"
    and ex: "expanding path N D r dn q" and c: "c \<notin> dn" and mal: "\<forall>s. mal s"
  shows "\<exists>A' q'. expand_state mal r (c # cs) A q = expand_state mal r cs A' q' \<and>
    table_ok path N A' (pairs_of D r (insert c dn)) \<and> expanding path N D r (insert c dn) q' \<and>
    acsmPatterns A' = acsmPatterns A"
proof -
  let ?E = "pairs_of D r dn" and ?S = "prefixes_of path N"
  have rN: "r \<in> states N" and rD: "r \<notin> D" and D0: "0 \<in> D" and DN: "D \<subseteq> states N"
    and dE: "disc path N ?E = insert r (D \<union> set q)"
    and sh: "\<forall>s \<in> states N. plen path s < plen path r \<longrightarrow> s \<in> D"
    using ex by (simp_all add: expanding_def)
  have rd: "r \<in> disc path N ?E" and r0: "r \<noteq> 0" and cE: "(r, c) \<notin> ?E"
    using dE D0 rD c by (auto simp: pairs_of_def)
  have pr: "path r \<noteq> []" using r0 rN tp by (auto simp: trie_paths_def inj_on_def states_def)
  have gf: "good_fail path N A r" using tb rd r0 by (simp add: table_ok_def)
  then have fl: "plen path (fail_state A r) < plen path r" "fail_state A r \<in> states N"
    using lsuf_tl_shorter [OF pr] by (simp_all add: good_fail_def plen_def)
  then have fD: "fail_state A r \<in> D" using sh by blast
  then have fE: "(fail_state A r, c) \<in> ?E" by (simp add: pairs_of_def)
  show ?thesis
  proof (cases "next_state A r c = -1")
    case True
    let ?A = "set_next r c (next_state A (fail_state A r) c) A"
    have "trie_next path N A r c" using tb rN cE by (auto simp: table_ok_def)
    then have "path r @ [c] \<notin> ?S" using True by (auto simp: trie_next_def states_def split: if_splits)
    then have "disc path N (pairs_of D r (insert c dn)) = disc path N ?E"
      unfolding pairs_of_insert by (rule disc_insert_missing)
    then have "expanding path N D r (insert c dn) q" using ex by (simp add: expanding_def)
    moreover have "expand_state mal r (c # cs) A q = expand_state mal r cs ?A q"
      using True by simp
    moreover have "table_ok path N ?A (pairs_of D r (insert c dn))"
      unfolding pairs_of_insert by (rule table_ok_no_child [OF tp tb rd r0 cE True fE])
    ultimately show ?thesis by (intro exI [of _ ?A] exI [of _ q]) simp
  next
    case False
    define s where "s = next_state A r c"
    define nx where "nx = next_state A (fail_state A r) c"
    let ?A1 = "set_fail s nx A"
    let ?A = "if lpi ?A1 nx \<noteq> -1 then AddMatchListEntry ?A1 s (lpi ?A1 nx) else ?A1"
    have "trie_next path N A r c" using tb rN cE by (auto simp: table_ok_def)
    then have sp: "path s = path r @ [c]" "s \<in> states N"
      using False by (auto simp: trie_next_def s_def split: if_splits)
    have inj: "inj_on path (states N)" and p0: "path 0 = []" using tp by (simp_all add: trie_paths_def)
    have sd: "s \<notin> disc path N ?E"
    proof
      assume "s \<in> disc path N ?E"
      then obtain p e where pe: "(p, e) \<in> ?E" "path s = path p @ [e]" using sp p0 by (auto simp: disc_def)
      then have "path p = path r" "e = c" using sp(1) by auto
      moreover have "p \<in> states N" using pe(1) rN DN by (auto simp: pairs_of_def)
      ultimately have "p = r" using inj rN by (auto simp: inj_on_def)
      with pe(1) \<open>e = c\<close> rD c show False by (auto simp: pairs_of_def)
    qed
    have "good_next path N A (fail_state A r) c" using tb fE fl(2) by (auto simp: table_ok_def)
    then have nN: "nx \<in> states N" "path nx = lsuf ?S (path (fail_state A r) @ [c])"
      by (simp_all add: good_next_def nx_def)
    then have "nx \<noteq> -1" by (auto simp: states_def)
    then have fw: "fail_walk A c (fail_state A r) = Some nx"
      by (subst fail_walk.simps) (simp add: nx_def Let_def)
    have nl: "plen path nx \<le> plen path r"
      using nN(2) fl(1) length_lsuf [of ?S "path (fail_state A r) @ [c]"] by (simp add: plen_def)
    have nd: "nx \<in> disc path N ?E"
    proof (cases "path nx" rule: rev_cases)
      case Nil
      then have "nx = 0" using p0 inj nN(1) tp by (auto simp: inj_on_def trie_paths_def states_def)
      then show ?thesis using dE D0 by simp
    next
      case (snoc v d)
      have "path nx \<in> ?S" using nN(1) by (rule prefixes_of_I)
      then have "v \<in> ?S" using snoc tp by (auto simp: trie_paths_def prefix_closed_def)
      then obtain p where p: "p \<in> states N" "path p = v" by (auto simp: prefixes_of_def)
      then have "p \<in> D" using sh nl snoc by (simp add: plen_def)
      then have "(p, d) \<in> ?E" by (simp add: pairs_of_def)
      then show ?thesis using nN(1) snoc p(2) by (auto simp: disc_def)
    qed
    have "table_ok path N ?A (pairs_of D r (insert c dn))"
      unfolding pairs_of_insert
      by (rule table_ok_child [OF tp tb rd r0 cE s_def [symmetric] _ sd fE nx_def [symmetric] nd])
         (use False in \<open>simp add: s_def\<close>)
    moreover have "expand_state mal r (c # cs) A q = expand_state mal r cs ?A (q @ [s])"
      using False mal fw by (simp add: queue_add_def s_def Let_def)
    moreover have "expanding path N D r (insert c dn) (q @ [s])"
    proof -
      have "x = s" if "x \<in> states N" "path x = path r @ [c]" for x
        using inj_onD [OF inj, of x s] that sp by simp
      then have u: "{x \<in> states N. path x = path r @ [c]} = {s}" using sp by blast
      have d: "disc path N (pairs_of D r (insert c dn)) = insert r (D \<union> set (q @ [s]))"
        unfolding pairs_of_insert disc_insert dE u by auto
      have "plen path s = Suc (plen path r)" using sp(1) by (simp add: plen_def)
      moreover have "s \<notin> insert r (D \<union> set q)" using sd dE by simp
      ultimately show ?thesis using ex d by (auto simp: expanding_def sorted_append)
    qed
    ultimately show ?thesis by (intro exI [of _ ?A] exI [of _ "q @ [s]"]) simp
  qed
qed


lemma expand_state_spec:
  assumes "trie_paths path N A" "table_ok path N A (pairs_of D r dn)" "expanding path N D r dn q"
    "distinct cs" "set cs \<inter> dn = {}" "\<forall>s. mal s"
  shows "\<exists>A' q'. expand_state mal r cs A q = Some (0, A', q') \<and>
    table_ok path N A' (pairs_of D r (set cs \<union> dn)) \<and> expanding path N D r (set cs \<union> dn) q' \<and>
    acsmPatterns A' = acsmPatterns A"
  using assms
proof (induction cs arbitrary: A q dn)
  case Nil
  then show ?case by simp
next
  case (Cons c cs)
  have c: "c \<notin> dn" using Cons.prems(5) by simp
  from expand_one [OF Cons.prems(1,2,3) c Cons.prems(6), of cs] obtain A1 q1 where
    1: "expand_state mal r (c # cs) A q = expand_state mal r cs A1 q1"
    "table_ok path N A1 (pairs_of D r (insert c dn))" "expanding path N D r (insert c dn) q1"
    "acsmPatterns A1 = acsmPatterns A" by blast
  have "trie_paths path N A1" using Cons.prems(1) trie_paths_cong [OF 1(4)] by simp
  moreover have "distinct cs" "set cs \<inter> insert c dn = {}" using Cons.prems(4,5) by auto
  ultimately obtain A' q' where "expand_state mal r cs A1 q1 = Some (0, A', q')"
    "table_ok path N A' (pairs_of D r (set cs \<union> insert c dn))" "expanding path N D r (set cs \<union> insert c dn) q'"
    "acsmPatterns A' = acsmPatterns A1"
    using Cons.IH [OF _ 1(2,3)] Cons.prems(6) by blast
  moreover have "set (c # cs) \<union> dn = set cs \<union> insert c dn" by auto
  ultimately show ?case using 1(1,4) by (simp only:) simp
qed

lemma alphabet_set: "set alphabet = UNIV" "distinct alphabet"
proof -
  have "x \<in> set alphabet" for x
  proof -
    have "unat x \<in> set [0..<256]" by simp
    then have "of_nat (unat x) \<in> set alphabet" unfolding alphabet_def set_map by (rule imageI)
    then show ?thesis by simp
  qed
  then show "set alphabet = UNIV" by blast
  have "inj_on (of_nat :: nat \<Rightarrow> u8) (set [0..<256])"
    by (rule inj_onI) (metis atLeastLessThan_iff set_upt unat_of_nat_u8)
  then show "distinct alphabet" by (simp add: alphabet_def distinct_map)
qed

section \<open>The whole pass\<close>

definition pass_inv :: "(int \<Rightarrow> bytes) \<Rightarrow> int \<Rightarrow> acsm_struct \<Rightarrow> int set \<Rightarrow> queue \<Rightarrow> bool" where
  "pass_inv path N A D q \<longleftrightarrow> trie_paths path N A \<and> table_ok path N A (D \<times> UNIV) \<and>
     0 \<in> D \<and> D \<subseteq> states N \<and> disc path N (D \<times> UNIV) = D \<union> set q \<and> distinct q \<and> D \<inter> set q = {} \<and>
     sorted (map (plen path) q) \<and> (\<forall>x \<in> set q. \<forall>y \<in> set q. plen path x \<le> Suc (plen path y))"

text \<open>Everything shorter than the head of the queue is expanded.\<close>

lemma pass_inv_shorter:
  assumes inv: "pass_inv path N A D q"
  shows "s \<in> states N \<Longrightarrow> (\<And>x. x \<in> set q \<Longrightarrow> plen path s < plen path x) \<Longrightarrow> s \<in> D"
proof (induction "plen path s" arbitrary: s)
  case 0
  then have "path s = path 0" using inv by (simp add: plen_def pass_inv_def trie_paths_def)
  moreover have "inj_on path (states N)" "0 \<in> states N" "0 \<in> D"
    using inv by (auto simp: pass_inv_def trie_paths_def states_def)
  ultimately show ?case using 0 by (auto dest: inj_onD)
next
  case (Suc n)
  then obtain v c where v: "path s = v @ [c]" by (cases "path s" rule: rev_cases) (auto simp: plen_def)
  have "v \<in> prefixes_of path N"
    using prefixes_of_I [OF Suc.prems(1), of path] v inv by (auto simp: pass_inv_def trie_paths_def prefix_closed_def)
  then obtain p where p: "p \<in> states N" "path p = v" by (auto simp: prefixes_of_def)
  have n: "n = plen path p" using Suc.hyps(2) v p by (simp add: plen_def)
  have "plen path p < plen path x" if "x \<in> set q" for x
    using Suc.prems(2) [OF that] Suc.hyps(2) n by simp
  then have "p \<in> D" using Suc.hyps(1) [OF n p(1)] by blast
  then have "s \<in> disc path N (D \<times> UNIV)" using Suc.prems(1) v p(2) by (auto simp: disc_def)
  then have "s \<in> D \<union> set q" using inv by (simp add: pass_inv_def)
  then show ?case using Suc.prems(2) by blast
qed

lemma pass_inv_start:
  assumes inv: "pass_inv path N A D (r # q)"
  shows "expanding path N D r {} q" "pairs_of D r {} = D \<times> UNIV" "r \<in> states N - D"
proof -
  show p: "pairs_of D r {} = D \<times> UNIV" by (simp add: pairs_of_def)
  have d: "disc path N (D \<times> UNIV) = D \<union> set (r # q)" using inv by (simp add: pass_inv_def)
  then have "r \<in> disc path N (D \<times> UNIV)" by simp
  then show r: "r \<in> states N - D" using inv by (auto simp: disc_def pass_inv_def)
  have sh: "s \<in> D" if "s \<in> states N" "plen path s < plen path r" for s
  proof (rule pass_inv_shorter [OF inv that(1)])
    fix x assume "x \<in> set (r # q)"
    then have "plen path r \<le> plen path x" using inv by (auto simp: pass_inv_def)
    with that(2) show "plen path s < plen path x" by simp
  qed
  show "expanding path N D r {} q"
    using inv r sh d by (auto simp: expanding_def pass_inv_def p)
qed

lemma pass_inv_step:
  assumes "expanding path N D r UNIV q" "table_ok path N A (pairs_of D r UNIV)" "trie_paths path N A"
  shows "pass_inv path N A (insert r D) q"
proof -
  have p: "pairs_of D r UNIV = insert r D \<times> UNIV" by (auto simp: pairs_of_def)
  have "plen path x \<le> Suc (plen path y)" if "x \<in> set q" "y \<in> set q" for x y
  proof -
    have "\<forall>x \<in> set q. plen path r \<le> plen path x \<and> plen path x \<le> Suc (plen path r)"
      using assms(1) by (simp add: expanding_def)
    with that show ?thesis by (meson Suc_le_mono le_trans)
  qed
  moreover have "0 \<in> insert r D" "insert r D \<subseteq> states N" "distinct q" "insert r D \<inter> set q = {}"
    "sorted (map (plen path) q)" "disc path N (insert r D \<times> UNIV) = insert r D \<union> set q"
    using assms(1) by (simp_all add: expanding_def p) 
  ultimately show ?thesis using assms(2,3) unfolding pass_inv_def p by blast
qed

lemma dfa_loop_spec:
  assumes "pass_inv path N A D q" "\<forall>s. mal s"
  shows "\<exists>A' D'. dfa_loop mal A q = Some (0, A') \<and> pass_inv path N A' D' [] \<and>
    acsmPatterns A' = acsmPatterns A"
  using assms
proof (induction "card (states N - D)" arbitrary: A D q rule: less_induct)
  case less
  show ?case
  proof (cases q)
    case Nil
    then show ?thesis using less.prems by (subst dfa_loop.simps) (auto simp: queue_count_def)
  next
    case (Cons r q1)
    have inv: "pass_inv path N A D (r # q1)" using less.prems Cons by simp
    note st = pass_inv_start [OF inv]
    have tp: "trie_paths path N A" using inv by (simp add: pass_inv_def)
    have tb: "table_ok path N A (pairs_of D r {})" using inv by (simp add: pass_inv_def st(2))
    from expand_state_spec [OF tp tb st(1) alphabet_set(2) _ less.prems(2)] obtain A1 q2 where
      e: "expand_state mal r alphabet A q1 = Some (0, A1, q2)" "table_ok path N A1 (pairs_of D r UNIV)"
      "expanding path N D r UNIV q2" "acsmPatterns A1 = acsmPatterns A"
      by (auto simp: alphabet_set(1))
    have tp1: "trie_paths path N A1" using tp trie_paths_cong [OF e(4)] by simp
    note inv1 = pass_inv_step [OF e(3,2) tp1]
    have "card (states N - insert r D) < card (states N - D)"
      by (rule psubset_card_mono) (use st(3) in auto)
    from less.hyps [OF this inv1 less.prems(2)] obtain A' D' where
      "dfa_loop mal A1 q2 = Some (0, A')" "pass_inv path N A' D' []" "acsmPatterns A' = acsmPatterns A1" by blast
    moreover have "dfa_loop mal A q = dfa_loop mal A1 q2"
      using e(1) Cons by (subst dfa_loop.simps) (simp add: queue_count_def)
    ultimately show ?thesis using e(4) by auto
  qed
qed

end
