(* ===== verification/AcsmSearch.thy ===== *)
theory AcsmSearch
  imports AcsmDfa
begin

text \<open>
  The compiled matcher as a whole: \<open>acsmCompile\<close> succeeds when the patterns fit, and the
  searches of the result agree with looking for every pattern at every place.
\<close>

section \<open>Starting the breadth-first pass\<close>

lemma queue_children_spec:
  assumes "\<forall>s. mal s"
  shows "\<exists>A'. queue_children mal cs A q =
      (0, A', q @ filter (\<lambda>s. s \<noteq> -1 \<and> s \<noteq> 0) (map (next_state A 0) cs)) \<and>
    (\<forall>u. next_state A' u = next_state A u \<and> lpi A' u = lpi A u) \<and> acsmPatterns A' = acsmPatterns A \<and>
    (\<forall>u. fail_state A' u = (if u \<in> set (filter (\<lambda>s. s \<noteq> -1 \<and> s \<noteq> 0) (map (next_state A 0) cs))
                           then 0 else fail_state A u))"
proof (induction cs arbitrary: A q)
  case Nil
  then show ?case by auto
next
  case (Cons c cs)
  let ?s = "next_state A 0 c"
  show ?case
  proof (cases "?s \<noteq> -1 \<and> ?s \<noteq> 0")
    case True
    have e: "queue_children mal (c # cs) A q = queue_children mal cs (set_fail ?s 0 A) (q @ [?s])"
      using True assms by (simp add: queue_add_def Let_def)
    from Cons.IH [of "set_fail ?s 0 A" "q @ [?s]"] show ?thesis
      unfolding e using True by (auto simp: fun_eq_iff)
  next
    case False
    then have e: "queue_children mal (c # cs) A q = queue_children mal cs A q" by (auto simp: Let_def)
    from Cons.IH [of A q] show ?thesis unfolding e using False by auto
  qed
qed

lemma close_root_simps [simp]:
  "acsmPatterns (close_root A) = acsmPatterns A" "lpi (close_root A) u = lpi A u"
  "next_state (close_root A) u c = (if u = 0 \<and> next_state A 0 c = -1 then 0 else next_state A u c)"
  by (simp_all add: close_root_def)

lemma start_pass_inv:
  assumes t: "trie_ok path (length (words A)) A" and p: "patterns_ok A" and mal: "\<forall>s. mal s"
  defines "N \<equiv> acsmNumStates A"
  shows "\<exists>A' q. queue_children mal alphabet (close_root A) queue_init = (0, A', q) \<and>
    pass_inv path N A' {0} q \<and> acsmPatterns A' = acsmPatterns A"
proof -
  let ?S = "prefixes_of path N"
  define C where "C = filter (\<lambda>s. s \<noteq> -1 \<and> s \<noteq> 0) (map (next_state (close_root A) 0) alphabet)"
  have n0: "0 \<le> N" "path 0 = []" and inj: "inj_on path (states N)" and pc: "prefix_closed ?S"
    and ws: "set (words A) \<subseteq> ?S" and nb: "\<forall>x \<in> ?S. list_all norm_byte x" and tn: "\<And>s c. s \<in> states N \<Longrightarrow> trie_next path N A s c"
    and tl: "\<And>s. s \<in> states N \<Longrightarrow> trie_lpi path (length (words A)) A s"
    using t by (auto simp: trie_ok_def N_def)
  have z: "0 \<in> states N" using n0 by (simp add: states_def)
  from queue_children_spec [OF mal, of alphabet "close_root A" queue_init] obtain A' where
    A': "queue_children mal alphabet (close_root A) queue_init = (0, A', C)"
    "\<And>u c. next_state A' u c = next_state (close_root A) u c" "\<And>u. lpi A' u = lpi A u"
    "acsmPatterns A' = acsmPatterns A"
    "\<And>u. u \<in> set C \<Longrightarrow> fail_state A' u = 0" unfolding C_def by (auto simp: queue_init_def)
  have w: "words A' = words A" using A'(4) by (rule words_cong)
  have tp: "trie_paths path N A'"
    using n0 inj pc ws nb p A'(4) by (simp add: trie_paths_def w patterns_ok_def)
  have wn: "v \<noteq> []" if "v \<in> set (words A)" for v
    using that p by (auto simp: words_def patterns_ok_def pattern_ok_def list_all_iff)
  have root: "if [c] \<in> ?S then next_state A' 0 c \<in> states N - {0} \<and> path (next_state A' 0 c) = [c]
      else next_state A' 0 c = 0" for c
  proof -
    have "trie_next path N A 0 c" by (rule tn [OF z])
    then show ?thesis
      using n0 by (auto simp: trie_next_def A'(2) states_def)
  qed
  have mem: "s \<in> set C \<longleftrightarrow> s \<in> states N \<and> (\<exists>c. path s = [c])" for s
  proof
    assume "s \<in> set C"
    then obtain c where "s = next_state (close_root A) 0 c" "s \<noteq> 0" unfolding C_def by (auto simp del: close_root_simps)
    then have "s = next_state A' 0 c" by (simp only: A'(2))
    then obtain c where "s = next_state A' 0 c" "s \<noteq> 0" using \<open>s \<noteq> 0\<close> by blast
    then show "s \<in> states N \<and> (\<exists>c. path s = [c])" using root [of c] by (auto split: if_splits)
  next
    assume s: "s \<in> states N \<and> (\<exists>c. path s = [c])"
    then obtain c where c: "path s = [c]" by blast
    then have "[c] \<in> ?S" using s prefixes_of_I [of s N path] by auto
    then have "next_state A' 0 c \<in> states N - {0} \<and> path (next_state A' 0 c) = [c]" using root [of c] by simp
    then have "next_state A' 0 c = s" "s \<noteq> 0" "s \<noteq> -1" using inj s c by (auto simp: inj_on_def states_def)
    then have "s = next_state (close_root A) 0 c" "s \<noteq> 0" "s \<noteq> -1" using A'(2) [of 0 c] by (auto simp del: close_root_simps)
    moreover from this(1) have "s \<in> set (map (next_state (close_root A) 0) alphabet)"
      unfolding set_map alphabet_set(1) by blast
    ultimately show "s \<in> set C" unfolding C_def set_filter by blast
  qed
  have dc: "disc path N ({0} \<times> UNIV) = {0} \<union> set C"
    using z n0 mem by (auto simp: disc_def)
  have "distinct C"
  proof -
    have "distinct (filter (\<lambda>s. s \<noteq> -1 \<and> s \<noteq> 0) (map (next_state A' 0) cs))" if "distinct cs" for cs
      using that
    proof (induction cs)
      case (Cons c cs)
      have "next_state A' 0 c \<noteq> next_state A' 0 d" if "d \<in> set cs" "next_state A' 0 c \<noteq> 0" for d
      proof -
        have "d \<noteq> c" using Cons.prems that by auto
        then show ?thesis using root [of c] root [of d] that(2) by (auto split: if_splits)
      qed
      with Cons show ?case by auto
    qed simp
    from this [OF alphabet_set(2)] show ?thesis by (simp add: C_def A'(2) cong: map_cong)
  qed
  moreover have "plen path x = 1" if "x \<in> set C" for x using that mem by (auto simp: plen_def)
  then have "sorted (map (plen path) C)" by (rule sorted_map_const)
  moreover have "\<forall>x \<in> set C. \<forall>y \<in> set C. plen path x \<le> Suc (plen path y)"
    using \<open>\<And>x. x \<in> set C \<Longrightarrow> plen path x = 1\<close> by simp
  moreover have "table_ok path N A' ({0} \<times> UNIV)"
  proof -
    have 1: "if (u, c) \<in> {0} \<times> UNIV then good_next path N A' u c else trie_next path N A' u c"
      if u: "u \<in> states N" for u c
    proof (cases "u = 0")
      case True
      then show ?thesis using root [of c] n0 z by (auto simp: good_next_def split: if_splits)
    next
      case False
      then have "next_state A' u c = next_state A u c" by (simp add: A'(2))
      then show ?thesis using False tn [OF u, of c] by (simp add: trie_next_def)
    qed
    have 2: "(u \<noteq> 0 \<longrightarrow> good_fail path N A' u) \<and> good_lpi path A' u" if u: "u \<in> {0} \<union> set C" for u
    proof
      have uN: "u \<in> states N" using u z mem by auto
      have "u \<noteq> 0 \<Longrightarrow> fail_state A' u = 0" using u A'(5) by blast
      moreover have "u \<noteq> 0 \<Longrightarrow> tl (path u) = []" using u mem by auto
      ultimately show "u \<noteq> 0 \<longrightarrow> good_fail path N A' u" using z n0 by (simp add: good_fail_def)
      have short: "length (path u) \<le> 1" using u mem n0 by (auto simp: plen_def)
      have suf: "suffix v (path u) \<longleftrightarrow> v = path u" if "v \<in> set (words A)" for v
      proof
        assume "suffix v (path u)"
        then obtain ys where "path u = ys @ v" by (auto simp: suffix_def)
        with wn [OF that] short show "v = path u" by (cases ys; cases v) auto
      qed simp
      have "trie_lpi path (length (words A)) A' u"
        using tl [OF uN] by (simp add: trie_lpi_def w A'(3))
      then show "good_lpi path A' u"
        using suf by (auto simp: trie_lpi_def good_lpi_def w split: if_splits)
    qed
    have 3: "trie_lpi path (length (words A')) A' u" if "u \<in> states N - ({0} \<union> set C)" for u
      using tl [of u] that by (simp add: trie_lpi_def w A'(3))
    show ?thesis unfolding table_ok_def dc using 1 2 3 by blast
  qed
  moreover have "0 \<notin> set C" by (simp add: C_def)
  ultimately have "pass_inv path N A' {0} C"
    unfolding pass_inv_def dc using tp z by simp
  with A'(1,4) show ?thesis by blast
qed


section \<open>Compiling\<close>

definition automaton_ok :: "(int \<Rightarrow> bytes) \<Rightarrow> int \<Rightarrow> acsm_struct \<Rightarrow> bool" where
  "automaton_ok path N A \<longleftrightarrow> trie_paths path N A \<and>
     (\<forall>s \<in> states N. (\<forall>c. good_next path N A s c) \<and> good_lpi path A s)"

lemma Build_DFA_spec:
  assumes "trie_ok path (length (words A)) A" "patterns_ok A" "\<forall>s. mal s"
  shows "\<exists>A'. Build_DFA mal (close_root A) = Some (0, A') \<and> automaton_ok path (acsmNumStates A) A' \<and>
    acsmPatterns A' = acsmPatterns A"
proof -
  let ?N = "acsmNumStates A"
  from start_pass_inv [OF assms] obtain A1 q where
    1: "queue_children mal alphabet (close_root A) queue_init = (0, A1, q)" "pass_inv path ?N A1 {0} q"
    "acsmPatterns A1 = acsmPatterns A" by blast
  from dfa_loop_spec [OF 1(2) assms(3)] obtain A' D where
    2: "dfa_loop mal A1 q = Some (0, A')" "pass_inv path ?N A' D []" "acsmPatterns A' = acsmPatterns A1" by blast
  have all: "s \<in> D" if "s \<in> states ?N" for s by (rule pass_inv_shorter [OF 2(2) that]) simp
  then have "disc path ?N (D \<times> UNIV) = states ?N" "D = states ?N"
    using 2(2) by (auto simp: pass_inv_def)
  then have "automaton_ok path ?N A'"
    using 2(2) by (auto simp: automaton_ok_def pass_inv_def table_ok_def)
  with 1 2 show ?thesis by (auto simp: Build_DFA_def)
qed

lemma sum_pat_n:
  "patterns_ok A \<Longrightarrow> sum_list (map pat_n (acsmPatterns A)) = int (sum_list (map length (words A)))"
proof -
  have "list_all pattern_ok ps \<Longrightarrow> sum_list (map pat_n ps) = int (sum_list (map length (map patrn ps)))" for ps
    by (induction ps) (auto simp: pattern_ok_def)
  then show "patterns_ok A \<Longrightarrow> ?thesis" by (simp add: patterns_ok_def words_def)
qed

lemma acsmCompile_spec:
  assumes "patterns_ok A" "\<forall>s. mal s" "sum_list (map length (words A)) < 524288"
  shows "\<exists>path N A'. acsmCompile mal A = Some (0, A') \<and> automaton_ok path N A' \<and>
    acsmPatterns A' = acsmPatterns A"
proof -
  let ?A = "A\<lparr>acsmMaxStates := 1 + sum_list (map pat_n (acsmPatterns A))\<rparr>"
  let ?C = "clear_states (?A\<lparr>acsmNumStates := 0\<rparr>)"
  have m: "acsmMaxStates ?A = 1 + int (sum_list (map length (words A)))"
    using sum_pat_n [OF assms(1)] by simp
  have c: "acsmPatterns ?C = acsmPatterns A" "acsmNumStates ?C = 0" "acsmMaxStates ?C = acsmMaxStates ?A"
    by (simp_all add: clear_states_def)
  then have w: "words ?C = words A" "patterns_ok ?C" using assms(1) by (simp_all add: words_def patterns_ok_def)
  have t: "trie_ok (\<lambda>_. []) 0 ?C" by (rule trie_ok_clear) (use m in simp_all)
  have "acsmNumStates ?C + int (sum_list (map length (drop 0 (words ?C)))) < acsmMaxStates ?C"
    using c m w by simp
  from add_patterns_spec [OF w(2) _ this t] obtain path A1 where
    1: "add_patterns [0..<length (words ?C)] ?C = (0, A1)" "trie_ok path (length (words ?C)) A1"
    "acsmPatterns A1 = acsmPatterns ?C" by auto
  have w1: "words A1 = words A" "patterns_ok A1" using 1(3) c assms(1) by (simp_all add: words_def patterns_ok_def)
  have "trie_ok path (length (words A1)) A1" using 1(2) w w1 by simp
  from Build_DFA_spec [OF this w1(2) assms(2)] obtain A' where
    2: "Build_DFA mal (close_root A1) = Some (0, A')" "automaton_ok path (acsmNumStates A1) A'"
    "acsmPatterns A' = acsmPatterns A1" by blast
  have "\<not> MAX_STATE < acsmMaxStates ?A" using assms(3) m by (simp add: MAX_STATE_def)
  then have "acsmCompile mal A = Some (0, A')"
    using 1(1) 2(1) c(1) w(1) unfolding acsmCompile_def Let_def by (simp add: words_def)
  with 2 1(3) c(1) show ?thesis by auto
qed

section \<open>Scanning\<close>

lemma scan_filter: "scan A skip s T = scan A (\<lambda>_. False) s (filter (\<lambda>c. \<not> skip c) T)"
  by (induction T arbitrary: s) (auto simp: Let_def)

lemma good_lpi_iff:
  "good_lpi path A s \<Longrightarrow> lpi A s = -1 \<longleftrightarrow> (\<forall>w \<in> set (words A). \<not> suffix w (path s))"
  by (auto simp: good_lpi_def split: if_splits)

lemma scan_spec:
  assumes ok: "automaton_ok path N A" and "s \<in> states N" "path s = lsuf (prefixes_of path N) u"
  shows "case scan A (\<lambda>_. False) s T of
      None \<Rightarrow> \<forall>p. p \<noteq> [] \<longrightarrow> prefix p T \<longrightarrow> (\<forall>w \<in> set (words A). \<not> suffix w (u @ p))
    | Some t \<Rightarrow> \<exists>p. p \<noteq> [] \<and> prefix p T \<and> t \<in> states N \<and> path t = lsuf (prefixes_of path N) (u @ p) \<and>
        lpi A t \<noteq> -1 \<and>
        (\<forall>p'. p' \<noteq> [] \<longrightarrow> strict_prefix p' p \<longrightarrow> (\<forall>w \<in> set (words A). \<not> suffix w (u @ p')))"
  using assms(2,3)
proof (induction T arbitrary: s u)
  case Nil
  then show ?case by simp
next
  case (Cons c T)
  let ?S = "prefixes_of path N" and ?t = "next_state A s c"
  have tp: "trie_paths path N A" and gn: "good_next path N A s c" using ok Cons.prems by (auto simp: automaton_ok_def)
  have t: "?t \<in> states N" "path ?t = lsuf ?S (u @ [c])"
    using gn Cons.prems(2) lsuf_snoc [of ?S u c] tp by (auto simp: good_next_def trie_paths_def)
  have gl: "good_lpi path A ?t" using ok t(1) by (simp add: automaton_ok_def)
  have sf: "suffix w (path ?t) \<longleftrightarrow> suffix w (u @ [c])" if "w \<in> set (words A)" for w
    unfolding t(2) by (rule suffix_lsuf_iff) (use that tp in \<open>auto simp: trie_paths_def\<close>)
  show ?case
  proof (cases "lpi A ?t = -1")
    case False
    then have "scan A (\<lambda>_. False) s (c # T) = Some ?t" by simp
    moreover have "p' = []" if "strict_prefix p' [c]" for p'
      using that by (auto simp: strict_prefix_def prefix_Cons)
    ultimately show ?thesis using t False by (auto intro!: exI [of _ "[c]"])
  next
    case True
    then have e: "scan A (\<lambda>_. False) s (c # T) = scan A (\<lambda>_. False) ?t T" by simp
    have no: "\<not> suffix w (u @ [c])" if "w \<in> set (words A)" for w
      using True good_lpi_iff [OF gl] sf [OF that] that by blast
    note IH = Cons.IH [OF t]
    show ?thesis
    proof (cases "scan A (\<lambda>_. False) ?t T")
      case None
      have "\<not> suffix w (u @ p)" if "p \<noteq> []" "prefix p (c # T)" "w \<in> set (words A)" for p w
      proof (cases "tl p = []")
        case True
        then have "p = [c]" using that(1,2) by (cases p) auto
        then show ?thesis using no that(3) by simp
      next
        case False
        with that(1,2) have p1: "p = c # tl p" "tl p \<noteq> []" "prefix (tl p) T" by (cases p; auto)+
        then have "\<not> suffix w ((u @ [c]) @ tl p)" using IH None that(3) by auto
        with p1(1) show ?thesis by (metis append.assoc append_Cons append_Nil)
      qed
      with e None show ?thesis by simp
    next
      case (Some t')
      with IH obtain p where p: "p \<noteq> []" "prefix p T" "t' \<in> states N" "path t' = lsuf ?S ((u @ [c]) @ p)"
        "lpi A t' \<noteq> -1"
        "\<forall>p'. p' \<noteq> [] \<longrightarrow> strict_prefix p' p \<longrightarrow> (\<forall>w \<in> set (words A). \<not> suffix w ((u @ [c]) @ p'))" by auto
      have "\<not> suffix w (u @ p')" if "p' \<noteq> []" "strict_prefix p' (c # p)" "w \<in> set (words A)" for p' w
      proof (cases "tl p' = []")
        case True
        then have "p' = [c]" using that(1,2) by (cases p') auto
        then show ?thesis using no that(3) by simp
      next
        case False
        with that(1,2) have p1: "p' = c # tl p'" "tl p' \<noteq> []" "strict_prefix (tl p') p" by (cases p'; auto)+
        then have "\<not> suffix w ((u @ [c]) @ tl p')" using p(6) that(3) by blast
        with p1(1) show ?thesis by (metis append.assoc append_Cons append_Nil)
      qed
      then show ?thesis unfolding e Some using p by (auto intro!: exI [of _ "c # p"])
    qed
  qed
qed

text \<open>From the root: whether some word occurs, and the word that is reported.\<close>

lemma scan_root:
  assumes ok: "automaton_ok path N A"
  shows "scan A (\<lambda>_. False) 0 T \<noteq> None \<longleftrightarrow> (\<exists>w \<in> set (words A). sublist w T)"
    and "scan A (\<lambda>_. False) 0 T = Some t \<Longrightarrow> \<exists>p W. prefix p T \<and> W \<in> set (words A) \<and>
      patrn (acsmPatterns A ! nat (lpi A t)) = W \<and> suffix W p \<and>
      (\<forall>w \<in> set (words A). suffix w p \<longrightarrow> length w \<le> length W) \<and>
      (\<forall>p' w. strict_prefix p' p \<longrightarrow> w \<in> set (words A) \<longrightarrow> \<not> suffix w p')"
proof -
  have tp: "trie_paths path N A" using ok by (simp add: automaton_ok_def)
  have z: "0 \<in> states N" "path 0 = lsuf (prefixes_of path N) []" using tp by (auto simp: trie_paths_def states_def)
  note sp = scan_spec [OF ok z, of T]
  have nw: "\<not> suffix w []" if "w \<in> set (words A)" for w using nil_not_word [OF tp that] by auto
  have hit: "\<exists>p W. prefix p T \<and> W \<in> set (words A) \<and>
      patrn (acsmPatterns A ! nat (lpi A t)) = W \<and> suffix W p \<and>
      (\<forall>w \<in> set (words A). suffix w p \<longrightarrow> length w \<le> length W) \<and>
      (\<forall>p' w. strict_prefix p' p \<longrightarrow> w \<in> set (words A) \<longrightarrow> \<not> suffix w p')"
    if "scan A (\<lambda>_. False) 0 T = Some t" for t
  proof -
    from sp that obtain p where p: "prefix p T" "t \<in> states N" "path t = lsuf (prefixes_of path N) p"
      "lpi A t \<noteq> -1" "\<forall>p'. p' \<noteq> [] \<longrightarrow> strict_prefix p' p \<longrightarrow> (\<forall>w \<in> set (words A). \<not> suffix w p')" by auto
    have gl: "good_lpi path A t" using ok p(2) by (simp add: automaton_ok_def)
    let ?W = "words A ! nat (lpi A t)"
    have sf: "suffix w (path t) \<longleftrightarrow> suffix w p" if "w \<in> set (words A)" for w
      unfolding p(3) by (rule suffix_lsuf_iff) (use that tp in \<open>auto simp: trie_paths_def\<close>)
    have g: "nat (lpi A t) < length (words A)" "suffix ?W (path t)"
      "\<forall>w \<in> set (words A). suffix w (path t) \<longrightarrow> length w \<le> length ?W"
      using gl p(4) unfolding good_lpi_def by (auto simp only: if_False)
    have "?W \<in> set (words A)" using g(1) by (rule nth_mem)
    moreover have "patrn (acsmPatterns A ! nat (lpi A t)) = ?W" using g(1) by (simp add: words_def)
    moreover have "\<not> suffix w p'" if "strict_prefix p' p" "w \<in> set (words A)" for p' w
      using p(5) that nw by (cases "p' = []") auto
    ultimately show ?thesis using p(1) g sf by blast
  qed
  then show "scan A (\<lambda>_. False) 0 T = Some t \<Longrightarrow> \<exists>p W. prefix p T \<and> W \<in> set (words A) \<and>
      patrn (acsmPatterns A ! nat (lpi A t)) = W \<and> suffix W p \<and>
      (\<forall>w \<in> set (words A). suffix w p \<longrightarrow> length w \<le> length W) \<and>
      (\<forall>p' w. strict_prefix p' p \<longrightarrow> w \<in> set (words A) \<longrightarrow> \<not> suffix w p')" .
  have sub: "sublist w T \<longleftrightarrow> (\<exists>p. prefix p T \<and> suffix w p)" for w
    proof
    assume "sublist w T"
    then obtain ps ss where "T = (ps @ w) @ ss" by (auto simp: sublist_def)
    then have "prefix (ps @ w) T" "suffix w (ps @ w)" by (auto intro: prefixI suffixI)
    then show "\<exists>p. prefix p T \<and> suffix w p" by blast
  next
    assume "\<exists>p. prefix p T \<and> suffix w p"
    then show "sublist w T" by (auto simp: prefix_def suffix_def sublist_def) blast
  qed
  show "scan A (\<lambda>_. False) 0 T \<noteq> None \<longleftrightarrow> (\<exists>w \<in> set (words A). sublist w T)"
  proof (cases "scan A (\<lambda>_. False) 0 T")
    case None
    with sp have "\<not> suffix w p" if "prefix p T" "w \<in> set (words A)" for p w
      using that nw by (cases "p = []") auto
    with None sub show ?thesis by blast
  next
    case (Some t)
    from hit [OF Some] sub Some show ?thesis by blast
  qed
qed


section \<open>Searching\<close>

text \<open>What a search should answer for the words \<open>ws\<close> and the filtered text \<open>Tc\<close>.\<close>

definition dirty_answer :: "bytes list \<Rightarrow> bytes \<Rightarrow> int" where
  "dirty_answer ws Tc =
     (if \<exists>w \<in> set ws. sublist w Tc then 3
      else if \<exists>w \<in> set ws. sublist w (filter IS_ASCII_ALPHA Tc) then 1
      else if \<exists>w \<in> set ws. sublist w (filter (\<lambda>c. \<not> IS_ASCII_ALPHA c) Tc) then 2
      else 0)"

lemma search_spec:
  assumes "automaton_ok path N A" "length Tx \<le> 1000000"
  shows "acsmSearch A junk Tx tag = dirty_answer (words A) (filtered_text junk Tx tag)"
proof -
  have "scan A skip 0 T \<noteq> None \<longleftrightarrow> (\<exists>w \<in> set (words A). sublist w (filter (\<lambda>c. \<not> skip c) T))" for skip T
    using scan_root(1) [OF assms(1), of "filter (\<lambda>c. \<not> skip c) T"] scan_filter [of A skip 0 T] by simp
  note sc = this
  show ?thesis
    using assms(2) by (simp only: acsmSearch_def sc Let_def MAX_STR_BUFFER_def dirty_answer_def) simp
qed

section \<open>Properties\<close>

text \<open>A machine without patterns, as \<open>acsmNew\<close> maps it: zero-filled memory.\<close>

definition acsmNew :: acsm_struct where
  "acsmNew = \<lparr>acsmMaxStates = 0, acsmNumStates = 0, acsmPatterns = [],
     acsmStateTable = (\<lambda>_. \<lparr>NextState = (\<lambda>_. 0), FailState = 0, longest_pattern_index = 0\<rparr>)\<rparr>"

lemma patterns_ok_new: "patterns_ok acsmNew" "words acsmNew = []"
  by (simp_all add: patterns_ok_def acsmNew_def words_def)

text \<open>
  Adding a pattern keeps every stored pattern nonempty, at most 255 bytes long,
  free of ASCII punctuation and lower case, with its length field right. The pattern
  stored is the filtered form of its first 255 bytes; one that filters to nothing is
  ignored, and a full table is refused.
\<close>

lemma add_pattern_spec:
  assumes "patterns_ok A"
  shows "case acsmAddPattern A pat (int (length pat)) of (r, A') \<Rightarrow> patterns_ok A' \<and>
    (if length (words A) \<ge> 81920 then r = -1 \<and> A' = A
     else r = 0 \<and> words A' = words A @
       (case fst (string_filter (take 255 pat) 0) of [] \<Rightarrow> [] | c # w \<Rightarrow> [c # w]))"
proof -
  define new_n where "new_n = (if int (length pat) > MAX_KEYWORD_LEN - 1 then MAX_KEYWORD_LEN - 1 else int (length pat))"
  have t: "take (nat new_n) pat = take 255 pat" by (auto simp: new_n_def MAX_KEYWORD_LEN_def)
  obtain pt m where sf: "string_filter (take 255 pat) 0 = (pt, m)" by fastforce
  have m: "m = int (length pt)" "list_all norm_byte pt"
    using string_filter_replace_facts [of "take 255 pat"] by (simp_all add: sf)
  have l: "length pt \<le> 255"
    using string_filter_replace_facts(4) [of "take 255 pat"] by (simp add: sf)
  have nn: "\<not> new_n < 0" by (simp add: new_n_def MAX_KEYWORD_LEN_def)
  have e: "acsmAddPattern A pat (int (length pat)) =
    (if length (words A) \<ge> 81920 then (-1, A)
     else if m = 0 then (0, A) else (0, A\<lparr>acsmPatterns := acsmPatterns A @ [\<lparr>patrn = pt, pat_n = m\<rparr>]\<rparr>))"
    using m(1) by (simp add: acsmAddPattern_def Let_def new_n_def [symmetric] t sf MAX_PATTERNS_def nn)
  show ?thesis
    using assms m l unfolding e sf
    by (cases pt) (auto simp: patterns_ok_def pattern_ok_def words_def)
qed

text \<open>
  C1: with patterns that need at most 524287 states besides the root and enough memory
  for the queue, compiling ends and succeeds, and the search of the result is exact: it
  answers 3 when some pattern occurs in the filtered text, otherwise 1 when one occurs in
  the letters alone, otherwise 2 when one occurs in the rest alone, otherwise 0.
\<close>

theorem acsmSearch_exact:
  assumes "patterns_ok A" "\<forall>s. mal s" "sum_list (map length (words A)) < 524288"
  shows "\<exists>A'. acsmCompile mal A = Some (0, A') \<and> acsmPatterns A' = acsmPatterns A \<and>
    (\<forall>junk Tx tag. length Tx \<le> 1000000 \<longrightarrow> acsmSearch A' junk Tx tag =
      (let Tc = filtered_text junk Tx tag in
       if \<exists>w \<in> set (words A). sublist w Tc then 3
       else if \<exists>w \<in> set (words A). sublist w (filter IS_ASCII_ALPHA Tc) then 1
       else if \<exists>w \<in> set (words A). sublist w (filter (\<lambda>c. \<not> IS_ASCII_ALPHA c) Tc) then 2
       else 0))"
proof -
  from acsmCompile_spec [OF assms] obtain path N A' where
    A': "acsmCompile mal A = Some (0, A')" "automaton_ok path N A'" "acsmPatterns A' = acsmPatterns A" by blast
  have "words A' = words A" using A'(3) by (rule words_cong)
  with search_spec [OF A'(2)] have "\<forall>junk Tx tag. length Tx \<le> 1000000 \<longrightarrow> acsmSearch A' junk Tx tag =
      (let Tc = filtered_text junk Tx tag in
       if \<exists>w \<in> set (words A). sublist w Tc then 3
       else if \<exists>w \<in> set (words A). sublist w (filter IS_ASCII_ALPHA Tc) then 1
       else if \<exists>w \<in> set (words A). sublist w (filter (\<lambda>c. \<not> IS_ASCII_ALPHA c) Tc) then 2
       else 0)"
    by (simp only: dirty_answer_def Let_def) simp
  with A'(1,3) show ?thesis by blast
qed

definition ab_acsm :: acsm_struct where
  "ab_acsm = acsmNew\<lparr>acsmPatterns := [\<lparr>patrn = [0x41, 0x42], pat_n = 2\<rparr>]\<rparr>"

lemma ab_acsm_ok: "patterns_ok ab_acsm" "words ab_acsm = [[0x41, 0x42]]"
  by (simp_all add: patterns_ok_def ab_acsm_def words_def pattern_ok_def norm_byte_def char_class_defs)

theorem acsmSearch_exact_witness:
  "\<exists>A'. acsmCompile (\<lambda>_. True) ab_acsm = Some (0, A') \<and> acsmPatterns A' = acsmPatterns ab_acsm"
  using acsmSearch_exact [OF ab_acsm_ok(1), of "\<lambda>_. True"] by (auto simp: ab_acsm_ok(2))

text \<open>
  C25: when the first pass finds a word, \<open>acsm_get_first_dirty_word\<close> answers 3 and hands out
  the longest pattern that ends at the first place in the filtered text where any pattern
  ends.
\<close>

theorem first_dirty_word_longest:
  assumes "patterns_ok A" "\<forall>s. mal s" "sum_list (map length (words A)) < 524288"
    "length Tx \<le> 1000000" "\<exists>w \<in> set (words A). sublist w (filtered_text junk Tx tag)"
  shows "\<exists>A' p W. acsmCompile mal A = Some (0, A') \<and>
    acsm_get_first_dirty_word A' junk Tx tag = (3, Some W) \<and>
    prefix p (filtered_text junk Tx tag) \<and> W \<in> set (words A) \<and> suffix W p \<and>
    (\<forall>w \<in> set (words A). suffix w p \<longrightarrow> length w \<le> length W) \<and>
    (\<forall>p' w. strict_prefix p' p \<longrightarrow> w \<in> set (words A) \<longrightarrow> \<not> suffix w p')"
proof -
  from acsmCompile_spec [OF assms(1-3)] obtain path N A' where
    A': "acsmCompile mal A = Some (0, A')" "automaton_ok path N A'" "acsmPatterns A' = acsmPatterns A" by blast
  have w: "words A' = words A" using A'(3) by (rule words_cong)
  let ?Tc = "filtered_text junk Tx tag"
  obtain t where t: "scan A' (\<lambda>_. False) 0 ?Tc = Some t"
    using scan_root(1) [OF A'(2), of ?Tc] assms(5) by (auto simp: w)
  from scan_root(2) [OF A'(2) t] obtain p W where
    "prefix p ?Tc" "W \<in> set (words A)" "patrn (acsmPatterns A' ! nat (lpi A' t)) = W" "suffix W p"
    "\<forall>w \<in> set (words A). suffix w p \<longrightarrow> length w \<le> length W"
    "\<forall>p' w. strict_prefix p' p \<longrightarrow> w \<in> set (words A) \<longrightarrow> \<not> suffix w p'" by (auto simp: w)
  moreover have "acsm_get_first_dirty_word A' junk Tx tag = (3, Some (patrn (acsmPatterns A' ! nat (lpi A' t))))"
    using assms(4) by (simp add: acsm_get_first_dirty_word_def MAX_STR_BUFFER_def Let_def t)
  ultimately show ?thesis using A'(1) by metis
qed

lemma filter_ab: "filtered_text [] [0x61, 0x42] 0 = [0x41, 0x42]"
  by (simp add: filtered_text_def string_filter_def string_filter_loop.simps punct_scan_def punct_switch_def
      char_class_defs xlatcase_def)

theorem first_dirty_word_longest_witness:
  "\<exists>A' W. acsmCompile (\<lambda>_. True) ab_acsm = Some (0, A') \<and>
    acsm_get_first_dirty_word A' [] [0x61, 0x42] 0 = (3, Some W) \<and> W \<in> set (words ab_acsm)"
  using first_dirty_word_longest [OF ab_acsm_ok(1), of "\<lambda>_. True" "[0x61, 0x42]" "[]" 0]
  by (auto simp: ab_acsm_ok(2) filter_ab)

text \<open>
  Patterns that need more than 524288 states are refused by \<open>acsmCompile\<close> before the
  state table is touched.
\<close>

theorem acsmCompile_too_large:
  assumes "patterns_ok A" "sum_list (map length (words A)) \<ge> 524288"
  shows "\<exists>A'. acsmCompile mal A = Some (-1, A') \<and> acsmStateTable A' = acsmStateTable A \<and>
    acsmPatterns A' = acsmPatterns A"
  using assms(2) sum_pat_n [OF assms(1)] by (simp add: acsmCompile_def MAX_STATE_def Let_def)

theorem acsmCompile_too_large_witness:
  "\<exists>A'. acsmCompile (\<lambda>_. True) (acsmNew\<lparr>acsmPatterns := replicate 524288 \<lparr>patrn = [0x41], pat_n = 1\<rparr>\<rparr>) = Some (-1, A')"
proof -
  let ?A = "acsmNew\<lparr>acsmPatterns := replicate 524288 \<lparr>patrn = [0x41], pat_n = 1\<rparr>\<rparr>"
  have "patterns_ok ?A"
    unfolding patterns_ok_def list_all_iff by (auto simp: pattern_ok_def norm_byte_def char_class_defs)
  moreover have "sum_list (map length (words (acsmNew\<lparr>acsmPatterns :=
      replicate n \<lparr>patrn = [0x41], pat_n = 1\<rparr>\<rparr>))) = n" for n
    by (simp add: words_def sum_list_replicate)
  then have "sum_list (map length (words ?A)) \<ge> 524288" by (simp only: order_refl)
  ultimately show ?thesis using acsmCompile_too_large [of ?A "\<lambda>_. True"] by blast
qed

end
