(* ===== verification/DirtyFile.thy ===== *)
theory DirtyFile
  imports AcsmSearch
begin

text \<open>
  \<open>tm_dirty/tm_dirty.c\<close>, \<open>tm_dirty_load_new\<close>: reading the words of a file into a machine.
  A stream is its content, the position and the end-of-file indicator, as \<open>stdio\<close> keeps
  them; reading a byte gives a \<open>char\<close>, so the byte 0xFF looks like the end of the file.
  The loop is partial: \<open>None\<close> is a load that never returns.
\<close>

section \<open>Streams\<close>

record c_file =
  content :: bytes
  fpos :: nat
  feof :: bool

text \<open>\<open>identify_char = fgetc(fp)\<close>, with the conversion to \<open>char\<close>.\<close>

definition fgetc :: "c_file \<Rightarrow> int \<times> c_file" where
  "fgetc f =
     (if fpos f < length (content f) then (sint (content f ! fpos f), f\<lparr>fpos := Suc (fpos f)\<rparr>)
      else (-1, f\<lparr>feof := True\<rparr>))"

text \<open>\<open>fseek(fp, -1L, SEEK_CUR)\<close>: a seek that succeeds clears the indicator.\<close>

definition fseek_back :: "c_file \<Rightarrow> c_file" where
  "fseek_back f = (if fpos f = 0 then f else f\<lparr>fpos := fpos f - 1, feof := False\<rparr>)"

definition getline :: "c_file \<Rightarrow> bytes option \<times> c_file" where
  "getline f =
     (let rest = drop (fpos f) (content f); line = takeWhile (\<lambda>c. c \<noteq> 10) rest in
      if rest = [] then (None, f\<lparr>feof := True\<rparr>)
      else if length line < length rest then (Some (line @ [10]), f\<lparr>fpos := Suc (fpos f + length line)\<rparr>)
      else (Some line, f\<lparr>fpos := length (content f), feof := True\<rparr>))"

section \<open>Reading the words\<close>

function skip_comment :: "int \<Rightarrow> c_file \<Rightarrow> c_file" where
  "skip_comment c f =
     (if c \<noteq> 10 \<and> \<not> feof f then skip_comment (fst (fgetc f)) (snd (fgetc f)) else f)"
  by auto
termination
  by (relation "measure (\<lambda>(c, f). length (content f) - fpos f + (if feof f then 0 else 1))")
    (auto simp: fgetc_def)

function skip_blanks :: "int \<Rightarrow> c_file \<Rightarrow> c_file" where
  "skip_blanks c f =
     (if c = 32 \<or> c = 9 then skip_blanks (fst (fgetc f)) (snd (fgetc f)) else f)"
  by auto
termination
  by (relation "measure (\<lambda>(c, f). length (content f) - fpos f + (if c = 32 \<or> c = 9 then 1 else 0))")
    (auto simp: fgetc_def)

declare skip_comment.simps [simp del] skip_blanks.simps [simp del]

text \<open>The length of the word on a line: up to a tab, or all but the last byte.\<close>

definition dirty_len :: "bytes \<Rightarrow> int" where
  "dirty_len w =
     (let s = takeWhile (\<lambda>c. c \<noteq> 0) w in
      if 9 \<in> set s then int (length (takeWhile (\<lambda>c. c \<noteq> 9) s)) else int (length s) - 1)"

text \<open>One round of the loop: it goes on with the machine so far (\<open>Inl\<close>) or has finished (\<open>Inr\<close>).\<close>

definition load_step :: "c_file \<Rightarrow> acsm_struct \<Rightarrow> c_file \<times> acsm_struct + acsm_struct" where
  "load_step f A =
     (if feof f then Inr A
      else
        let (c, f) = fgetc f in
        if c = -1 then Inr A
        else if c = 35 then Inl (skip_comment c f, A)
        else if c = 32 \<or> c = 9 then Inl (fseek_back (skip_blanks c f), A)
        else if c = 10 then Inl (f, A)
        else
          case getline (fseek_back f) of
            (None, f) \<Rightarrow> Inr A
          | (Some w, f) \<Rightarrow>
              if dirty_len w = 0 then Inl (f, A)
              else
                let (r, A) = acsmAddPattern A w (dirty_len w) in
                if r = -1 then Inr A else Inl (f, A))"

partial_function (option) load_words :: "c_file \<Rightarrow> acsm_struct \<Rightarrow> acsm_struct option" where
  "load_words f A =
     (case load_step f A of Inl s \<Rightarrow> load_words (fst s) (snd s) | Inr A \<Rightarrow> Some A)"

text \<open>\<open>fopen(path, "rt")\<close> of a file with the given content.\<close>

definition fopen_read :: "bytes \<Rightarrow> c_file" where
  "fopen_read bs = \<lparr>content = bs, fpos = 0, feof = False\<rparr>"

section \<open>What the words of a file are\<close>

text \<open>
  Lines that start with \<open>#\<close> after blanks and blank lines hold no word. On other lines the
  word starts after the blanks and goes up to a tab or the end of the line.
\<close>

definition blank :: "u8 \<Rightarrow> bool" where
  "blank c \<longleftrightarrow> c = 32 \<or> c = 9"

definition line_word :: "bytes \<Rightarrow> bytes option" where
  "line_word l =
     (case dropWhile blank l of [] \<Rightarrow> None
      | c # cs \<Rightarrow> if c = 35 then None else Some (takeWhile (\<lambda>c. c \<noteq> 9) (c # cs)))"

definition line_ok :: "bytes \<Rightarrow> bool" where
  "line_ok l \<longleftrightarrow> 10 \<notin> set l \<and> 0 \<notin> set l \<and> (case dropWhile blank l of [] \<Rightarrow> True | c # cs \<Rightarrow> c \<noteq> 255)"

definition file_of :: "bytes list \<Rightarrow> bytes" where
  "file_of ls = concat (map (\<lambda>l. l @ [10]) ls)"

definition file_words :: "bytes list \<Rightarrow> bytes list" where
  "file_words ls = List.map_filter line_word ls"

fun add_words :: "acsm_struct \<Rightarrow> bytes list \<Rightarrow> acsm_struct" where
  "add_words A [] = A"
| "add_words A (w # ws) = add_words (snd (acsmAddPattern A w (int (length w)))) ws"

lemma file_of_simps [simp]:
  "file_of [] = []" "file_of (l # ls) = l @ 10 # file_of ls"
  by (simp_all add: file_of_def)

lemma file_words_simps [simp]:
  "file_words [] = []"
  "file_words (l # ls) = (case line_word l of None \<Rightarrow> [] | Some w \<Rightarrow> [w]) @ file_words ls"
  by (simp_all add: file_words_def map_filter_simps split: option.splits)

section \<open>The rounds of the loop\<close>

lemma fgetc_byte:
  "drop p C = c # cs \<Longrightarrow> fgetc \<lparr>content = C, fpos = p, feof = e\<rparr> = (sint c, \<lparr>content = C, fpos = Suc p, feof = e\<rparr>)"
  by (metis (no_types, lifting) Cons_nth_drop_Suc c_file.select_convs(1,2) c_file.update_convs(2) drop_eq_Nil fgetc_def
      list.distinct(1) list.sel(1) not_less)

lemma drop_appendI: "drop p C = xs @ ys \<Longrightarrow> drop (p + length xs) C = ys"
  by (metis add.commute append_eq_conv_conj drop_drop)

lemma drop_SucI: "drop p C = c # cs \<Longrightarrow> drop (Suc p) C = cs"
  by (metis drop_Suc list.sel(3) tl_drop)

text \<open>The bytes that matter have different values as \<open>char\<close>s.\<close>

lemma sint_eq_iff: "sint (c :: u8) = sint d \<longleftrightarrow> c = d"
  using signed_word_eqI by blast

lemma char_consts:
  "sint (10 :: u8) = 10" "sint (35 :: u8) = 35" "sint (32 :: u8) = 32" "sint (9 :: u8) = 9" "sint (255 :: u8) = -1"
  by simp_all

lemma char_iffs:
  "sint (c :: u8) = 10 \<longleftrightarrow> c = 10" "sint c = 35 \<longleftrightarrow> c = 35" "sint c = 32 \<longleftrightarrow> c = 32" "sint c = 9 \<longleftrightarrow> c = 9"
  "sint c = -1 \<longleftrightarrow> c = 255"
  unfolding sint_eq_iff [symmetric] char_consts by simp_all

lemma skip_comment_line:
  "drop p C = l @ 10 # cs \<Longrightarrow> 10 \<notin> set l \<Longrightarrow> c \<noteq> 10 \<Longrightarrow>
    skip_comment c \<lparr>content = C, fpos = p, feof = False\<rparr> = \<lparr>content = C, fpos = p + length l + 1, feof = False\<rparr>"
proof (induction l arbitrary: p c)
  case Nil
  then show ?case by (subst skip_comment.simps) (simp add: fgetc_byte, subst skip_comment.simps, simp)
next
  case (Cons d l)
  then have "sint d \<noteq> 10" "drop (Suc p) C = l @ 10 # cs" by (auto simp: char_iffs dest: drop_SucI)
  then show ?case using Cons by (subst skip_comment.simps) (simp add: fgetc_byte)
qed

lemma skip_blanks_line:
  "drop p C = bl @ d # cs \<Longrightarrow> list_all blank bl \<Longrightarrow> \<not> blank d \<Longrightarrow> c = 32 \<or> c = 9 \<Longrightarrow>
    skip_blanks c \<lparr>content = C, fpos = p, feof = False\<rparr> = \<lparr>content = C, fpos = p + length bl + 1, feof = False\<rparr>"
proof (induction bl arbitrary: p c)
  case Nil
  then have "sint d \<noteq> 32" "sint d \<noteq> 9" by (auto simp: char_iffs blank_def)
  with Nil show ?case by (subst skip_blanks.simps) (simp add: fgetc_byte, subst skip_blanks.simps, simp)
next
  case (Cons b bl)
  then have "sint b = 32 \<or> sint b = 9" "drop (Suc p) C = bl @ d # cs"
    by (auto simp: char_iffs blank_def dest: drop_SucI)
  with Cons show ?case by (subst skip_blanks.simps) (simp add: fgetc_byte)
qed

lemma getline_line:
  "drop p C = l @ 10 # cs \<Longrightarrow> 10 \<notin> set l \<Longrightarrow>
    getline \<lparr>content = C, fpos = p, feof = False\<rparr> = (Some (l @ [10]), \<lparr>content = C, fpos = Suc (p + length l), feof = False\<rparr>)"
  by (simp add: getline_def Let_def takeWhile_append)

lemma dirty_len_line:
  assumes "10 \<notin> set l" "0 \<notin> set l"
  shows "dirty_len (l @ [10]) = int (length (takeWhile (\<lambda>c. c \<noteq> 9) l))"
proof -
  have "takeWhile (\<lambda>c. c \<noteq> 0) (l @ [10]) = l @ [10]" using assms by (auto simp: takeWhile_eq_all_conv)
  moreover have "takeWhile (\<lambda>c. c \<noteq> 9) l = l" if "9 \<notin> set l" using that by (simp add: takeWhile_eq_all_conv) metis
  ultimately show ?thesis by (cases "9 \<in> set l") (auto simp: dirty_len_def Let_def takeWhile_append simp del: takeWhile_eq_all_conv)
qed

lemma load_step_byte:
  "drop p C = c # cs \<Longrightarrow>
    load_step \<lparr>content = C, fpos = p, feof = False\<rparr> A =
     (let f = \<lparr>content = C, fpos = Suc p, feof = False\<rparr>; back = \<lparr>content = C, fpos = p, feof = False\<rparr> in
      if c = 255 then Inr A
      else if c = 35 then Inl (skip_comment 35 f, A)
      else if blank c then Inl (fseek_back (skip_blanks (sint c) f), A)
      else if c = 10 then Inl (f, A)
      else
        case getline back of
          (None, f) \<Rightarrow> Inr A
        | (Some w, f) \<Rightarrow>
            if dirty_len w = 0 then Inl (f, A)
            else
              let (r, A) = acsmAddPattern A w (dirty_len w) in
              if r = -1 then Inr A else Inl (f, A))"
  by (simp add: load_step_def fgetc_byte char_iffs blank_def fseek_back_def Let_def)

section \<open>Adding the words\<close>

text \<open>What is stored of a word.\<close>

definition stored_word :: "bytes \<Rightarrow> bytes" where
  "stored_word w = fst (string_filter (take 255 w) 0)"

lemma acsmAddPattern_take: "acsmAddPattern A pat n = acsmAddPattern A (take (nat n) pat) n"
proof -
  have "take (nat m) (take (nat n) pat) = take (nat m) pat" if "m \<le> n" for m
    using that by (simp add: min_def nat_le_eq_zle)
  then show ?thesis by (simp add: acsmAddPattern_def Let_def)
qed

text \<open>Adding within the bounds of the table.\<close>

lemma add_word:
  assumes "patterns_ok A" "length (words A) < 81920"
  shows "fst (acsmAddPattern A w (int (length w))) = 0"
    "patterns_ok (snd (acsmAddPattern A w (int (length w))))"
    "words (snd (acsmAddPattern A w (int (length w)))) = words A @ filter (\<lambda>w. w \<noteq> []) [stored_word w]"
  using add_pattern_spec [OF assms(1), of w] assms(2)
  by (auto simp: stored_word_def split: prod.splits list.splits)

lemma add_words_spec:
  "patterns_ok A \<Longrightarrow> length (words A) + length ws \<le> 81920 \<Longrightarrow>
    patterns_ok (add_words A ws) \<and> words (add_words A ws) = words A @ filter (\<lambda>w. w \<noteq> []) (map stored_word ws)"
proof (induction ws arbitrary: A)
  case (Cons w ws)
  let ?A = "snd (acsmAddPattern A w (int (length w)))"
  have a: "patterns_ok ?A" "words ?A = words A @ filter (\<lambda>w. w \<noteq> []) [stored_word w]"
    using add_word [OF Cons.prems(1), of w] Cons.prems(2) by simp_all
  moreover have "length (words ?A) + length ws \<le> 81920" using Cons.prems(2) unfolding a(2) by auto
  ultimately show ?case using Cons.IH [of ?A] by simp
qed simp

section \<open>Reading a line\<close>

lemma load_words_Inl: "load_step f A = Inl (f', A') \<Longrightarrow> load_words f A = load_words f' A'"
  by (simp add: load_words.simps [of f])

lemma load_words_Inr: "load_step f A = Inr A' \<Longrightarrow> load_words f A = Some A'"
  by (simp add: load_words.simps [of f])

lemma blanks_step:
  assumes "drop p C = (b # bl) @ d # cs" "list_all blank (b # bl)" "\<not> blank d"
  shows "load_words \<lparr>content = C, fpos = p, feof = False\<rparr> A =
    load_words \<lparr>content = C, fpos = p + length (b # bl), feof = False\<rparr> A"
proof (rule load_words_Inl)
  have b: "b \<noteq> 255" "b \<noteq> 35" "blank b" "sint b = 32 \<or> sint b = 9" using assms(2) by (auto simp: blank_def)
  have d: "drop p C = b # (bl @ d # cs)" "drop (Suc p) C = bl @ d # cs" using assms(1) drop_SucI by auto
  show "load_step \<lparr>content = C, fpos = p, feof = False\<rparr> A = Inl (\<lparr>content = C, fpos = p + length (b # bl), feof = False\<rparr>, A)"
    using b skip_blanks_line [OF d(2) _ assms(3) b(4)] assms(2)
    by (simp add: load_step_byte [OF d(1)] Let_def fseek_back_def)
qed

text \<open>A line without blanks in front.\<close>

lemma plain_line:
  assumes d: "drop p C = l @ 10 # cs" and l: "line_ok l" "dropWhile blank l = l"
    and A: "patterns_ok A" "length (words A) < 81920"
  shows "load_words \<lparr>content = C, fpos = p, feof = False\<rparr> A =
    load_words \<lparr>content = C, fpos = Suc (p + length l), feof = False\<rparr> (add_words A (file_words [l]))"
proof (cases l)
  case Nil
  then show ?thesis using d
    by (intro load_words_Inl) (simp add: load_step_byte blank_def Let_def line_word_def)
next
  case (Cons c l')
  have "\<not> blank c" using l(2) Cons by (metis dropWhile_eq_self_iff list.distinct(1) list.sel(1))
  then have c: "\<not> blank c" "c \<noteq> 255" "c \<noteq> 10" using l Cons by (auto simp: line_ok_def)
  have dc: "drop p C = c # (l' @ 10 # cs)" using d Cons by simp
  show ?thesis
  proof (cases "c = 35")
    case True
    have "skip_comment 35 \<lparr>content = C, fpos = Suc p, feof = False\<rparr> = \<lparr>content = C, fpos = Suc (p + length l), feof = False\<rparr>"
      using skip_comment_line [OF drop_SucI [OF dc], of 35] l Cons by (simp add: line_ok_def)
    then show ?thesis using True Cons c l(2)
      by (intro load_words_Inl) (simp add: load_step_byte [OF dc] Let_def line_word_def)
  next
    case False
    let ?w = "takeWhile (\<lambda>c. c \<noteq> 9) l"
    have lw: "line_word l = Some ?w" using l(2) Cons False by (simp add: line_word_def)
    have g: "getline \<lparr>content = C, fpos = p, feof = False\<rparr> = (Some (l @ [10]), \<lparr>content = C, fpos = Suc (p + length l), feof = False\<rparr>)"
      using l by (intro getline_line [OF d]) (simp add: line_ok_def)
    have n: "dirty_len (l @ [10]) = int (length ?w)" using l by (intro dirty_len_line) (simp_all add: line_ok_def)
    have "c \<noteq> 9" using c by (auto simp: blank_def)
    then have n0: "?w \<noteq> []" using Cons by simp
    have "take (length ?w) (l @ [10]) = ?w"
      by (metis append_assoc append_eq_conv_conj takeWhile_dropWhile_id)
    then have "acsmAddPattern A (l @ [10]) (int (length ?w)) = acsmAddPattern A ?w (int (length ?w))"
      by (subst acsmAddPattern_take) simp
    then have "acsmAddPattern A (l @ [10]) (int (length ?w)) = (0, add_words A [?w])"
      using add_word(1) [OF A, of ?w] by (simp add: prod_eq_iff)
    then show ?thesis using n0 c False
      by (intro load_words_Inl) (simp add: load_step_byte [OF dc] Let_def g n lw)
  qed
qed

lemma split_blanks:
  obtains bl l' where "l = bl @ l'" "list_all blank bl" "dropWhile blank l' = l'" "dropWhile blank l = l'"
proof
  show "l = takeWhile blank l @ dropWhile blank l" by simp
  show "list_all blank (takeWhile blank l)" by (auto simp: list_all_iff dest: set_takeWhileD)
qed simp_all

lemma line_word_dropWhile [simp]: "line_word (dropWhile blank l) = line_word l"
  by (simp add: line_word_def)

lemma load_line:
  assumes d: "drop p C = l @ 10 # cs" and l: "line_ok l" and A: "patterns_ok A" "length (words A) < 81920"
  shows "load_words \<lparr>content = C, fpos = p, feof = False\<rparr> A =
    load_words \<lparr>content = C, fpos = Suc (p + length l), feof = False\<rparr> (add_words A (file_words [l]))"
proof -
  obtain bl l' where bl: "l = bl @ l'" "list_all blank bl" "dropWhile blank l' = l'" "dropWhile blank l = l'"
    by (rule split_blanks)
  have l': "line_ok l'" "line_word l' = line_word l" using l bl by (auto simp: line_ok_def line_word_def)
  have d': "drop (p + length bl) C = l' @ 10 # cs" using drop_appendI [of p C bl] d bl(1) by simp
  have "load_words \<lparr>content = C, fpos = p, feof = False\<rparr> A = load_words \<lparr>content = C, fpos = p + length bl, feof = False\<rparr> A"
  proof (cases bl)
    case (Cons b bl')
    obtain e es where e: "l' @ 10 # cs = e # es" "\<not> blank e"
      using bl(3) dropWhile_eq_self_iff [of blank l'] by (cases l') (auto simp: blank_def)
    show ?thesis using blanks_step [of p C b bl' e es A] d bl(1,2) e Cons by simp
  qed simp
  also have "\<dots> = load_words \<lparr>content = C, fpos = Suc (p + length bl + length l'), feof = False\<rparr> (add_words A (file_words [l']))"
    by (rule plain_line [OF d' l'(1) bl(3) A])
  finally show ?thesis using bl(1) l'(2) by (simp add: add.assoc)
qed


section \<open>Reading a file\<close>

lemma load_lines:
  "drop p C = file_of ls @ rest \<Longrightarrow> list_all line_ok ls \<Longrightarrow> patterns_ok A \<Longrightarrow> length (words A) + length (file_words ls) < 81920 \<Longrightarrow>
    load_words \<lparr>content = C, fpos = p, feof = False\<rparr> A =
    load_words \<lparr>content = C, fpos = p + length (file_of ls), feof = False\<rparr> (add_words A (file_words ls))"
proof (induction ls arbitrary: p A)
  case (Cons l ls)
  let ?A = "add_words A (file_words [l])" and ?p = "Suc (p + length l)"
  have d: "drop p C = l @ 10 # (file_of ls @ rest)" using Cons.prems(1) by simp
  then have "drop (p + length l) C = 10 # (file_of ls @ rest)" by (rule drop_appendI)
  then have d': "drop ?p C = file_of ls @ rest" by (rule drop_SucI)
  have n: "length (words A) + length (file_words [l]) + length (file_words ls) < 81920" using Cons.prems(4) by simp
  then have A: "patterns_ok ?A" "length (words ?A) \<le> length (words A) + length (file_words [l])"
    using add_words_spec [OF Cons.prems(3), of "file_words [l]"] length_filter_le [of "\<lambda>w. w \<noteq> []" "map stored_word (file_words [l])"]
    by (simp_all del: length_words)
  have "add_words ?A (file_words ls) = add_words A (file_words (l # ls))"
    by (cases "line_word l") simp_all
  moreover have "load_words \<lparr>content = C, fpos = p, feof = False\<rparr> A = load_words \<lparr>content = C, fpos = ?p, feof = False\<rparr> ?A"
    using load_line [OF d] Cons.prems(2,3) n by (simp del: length_words)
  ultimately show ?case
    using Cons.IH [OF d' _ A(1)] Cons.prems(2) A(2) n by (simp add: add.assoc del: length_words)
qed simp

text \<open>
  The end of a file: a last line without its line break. Of a word in it that does not end
  with a tab, the last byte is lost.
\<close>

definition last_words :: "bytes \<Rightarrow> bytes list" where
  "last_words l =
     (case line_word l of None \<Rightarrow> []
      | Some w \<Rightarrow> if 9 \<in> set (dropWhile blank l) then [w] else if length w = 1 then [] else [butlast w])"

lemma load_end: "drop p C = [] \<Longrightarrow> load_words \<lparr>content = C, fpos = p, feof = e\<rparr> A = Some A"
  by (rule load_words_Inr) (simp add: load_step_def fgetc_def)

lemma skip_comment_end:
  "drop p C = l \<Longrightarrow> 10 \<notin> set l \<Longrightarrow> c \<noteq> 10 \<Longrightarrow>
    \<exists>f. skip_comment c \<lparr>content = C, fpos = p, feof = False\<rparr> = f \<and> feof f"
proof (induction l arbitrary: p c)
  case Nil
  then show ?case by (subst skip_comment.simps) (simp add: fgetc_def, subst skip_comment.simps, simp)
next
  case (Cons d l)
  then have "sint d \<noteq> 10" "drop (Suc p) C = l" by (auto simp: char_iffs dest: drop_SucI)
  then show ?case using Cons by (subst skip_comment.simps) (simp add: fgetc_byte)
qed

lemma take_length_takeWhile: "take (length (takeWhile P l)) l = takeWhile P l"
  by (metis append_eq_conv_conj takeWhile_dropWhile_id)

lemma plain_end:
  assumes d: "drop p C = l" and l: "line_ok l" "dropWhile blank l = l"
    and A: "patterns_ok A" "length (words A) < 81920"
  shows "load_words \<lparr>content = C, fpos = p, feof = False\<rparr> A = Some (add_words A (last_words l))"
proof (cases l)
  case Nil
  then show ?thesis using d load_end [of p C] by (simp add: last_words_def line_word_def)
next
  case (Cons c l')
  have "\<not> blank c" using l(2) Cons by (metis dropWhile_eq_self_iff list.distinct(1) list.sel(1))
  then have c: "\<not> blank c" "c \<noteq> 255" "c \<noteq> 10" "c \<noteq> 9" using l Cons by (auto simp: line_ok_def blank_def)
  have dc: "drop p C = c # l'" using d Cons by simp
  show ?thesis
  proof (cases "c = 35")
    case True
    obtain f where f: "skip_comment 35 \<lparr>content = C, fpos = Suc p, feof = False\<rparr> = f" "feof f"
      using skip_comment_end [OF drop_SucI [OF dc], of 35] l Cons by (auto simp: line_ok_def)
    have "load_step \<lparr>content = C, fpos = p, feof = False\<rparr> A = Inl (f, A)"
      using True c f(1) by (simp add: load_step_byte [OF dc] Let_def)
    moreover have "load_words f A = Some A" using f(2) by (intro load_words_Inr) (simp add: load_step_def)
    moreover have "last_words l = []" using True Cons l(2) by (simp add: last_words_def line_word_def)
    ultimately show ?thesis by (simp add: load_words_Inl)
  next
    case False
    let ?w = "takeWhile (\<lambda>c. c \<noteq> 9) l" and ?f = "\<lparr>content = C, fpos = length C, feof = True\<rparr>"
    have lw: "line_word l = Some ?w" using l(2) Cons False by (simp add: line_word_def)
    have t: "takeWhile (\<lambda>c. c \<noteq> k) l = l" if "k \<notin> set l" for k using that by (simp add: takeWhile_eq_all_conv) metis
    have ns: "10 \<notin> set l" "0 \<notin> set l" "l \<noteq> []" using l(1) Cons by (auto simp: line_ok_def)
    have g: "getline \<lparr>content = C, fpos = p, feof = False\<rparr> = (Some l, ?f)"
      by (simp add: getline_def d Let_def t [OF ns(1)] ns(3))
    have n: "dirty_len l = (if 9 \<in> set l then int (length ?w) else int (length l) - 1)"
      by (simp add: dirty_len_def t [OF ns(2)])
    have stop: "load_words ?f A' = Some A'" for A' by (rule load_words_Inr) (simp add: load_step_def)
    define v where "v = (if 9 \<in> set l then ?w else butlast l)"
    have v: "dirty_len l = int (length v)" "take (length v) l = v"
      using n ns(3) by (auto simp: v_def butlast_conv_take Suc_leI int_ops(6) take_length_takeWhile)
    have lv: "last_words l = (if v = [] then [] else [v])"
    proof (cases "9 \<in> set l")
      case True
      moreover have "?w \<noteq> []" using Cons c(4) by simp
      ultimately show ?thesis by (simp only: last_words_def lw v_def l(2) option.case if_True if_False)
    next
      case no: False
      have "length l = 1 \<longleftrightarrow> butlast l = []" using ns(3) by (cases l) auto
      with no show ?thesis by (simp only: last_words_def lw v_def l(2) option.case t [OF no] if_False)
    qed
    show ?thesis
    proof (cases "v = []")
      case True
      then have "load_step \<lparr>content = C, fpos = p, feof = False\<rparr> A = Inl (?f, A)"
        using c False v(1) by (simp add: load_step_byte [OF dc] Let_def g)
      then show ?thesis using stop lv True by (simp add: load_words_Inl)
    next
      case nv: False
      have "acsmAddPattern A l (int (length v)) = acsmAddPattern A v (int (length v))"
        by (subst acsmAddPattern_take) (simp add: v(2))
      then have "acsmAddPattern A l (int (length v)) = (0, add_words A [v])"
        using add_word(1) [OF A, of v] by (simp add: prod_eq_iff)
      then have "load_step \<lparr>content = C, fpos = p, feof = False\<rparr> A = Inl (?f, add_words A [v])"
        using c False v(1) nv by (simp add: load_step_byte [OF dc] Let_def g)
      then show ?thesis using stop lv nv by (simp add: load_words_Inl)
    qed
  qed
qed


text \<open>A line of blanks at the end of a file, without line break, is never left.\<close>

lemma skip_blanks_end:
  "drop p C = bl \<Longrightarrow> list_all blank bl \<Longrightarrow> p \<le> length C \<Longrightarrow>
    skip_blanks c \<lparr>content = C, fpos = p, feof = False\<rparr> =
      (if c = 32 \<or> c = 9 then \<lparr>content = C, fpos = length C, feof = True\<rparr> else \<lparr>content = C, fpos = p, feof = False\<rparr>)"
proof (induction bl arbitrary: p c)
  case Nil
  then show ?case by (subst skip_blanks.simps) (auto simp: fgetc_def skip_blanks.simps)
next
  case (Cons b bl)
  have b: "sint b = 32 \<or> sint b = 9" using Cons.prems(2) by (auto simp: char_iffs blank_def)
  have "drop (Suc p) C = bl" "Suc p \<le> length C"
    using Cons.prems(1) drop_SucI by (auto simp: drop_eq_Nil2 not_less_eq_eq [symmetric] intro: Suc_leI)
  then show ?case using Cons.IH [of "Suc p" "sint b"] Cons.prems b
    by (subst skip_blanks.simps) (simp add: fgetc_byte)
qed

definition last_blank :: "bytes \<Rightarrow> c_file" where
  "last_blank C = \<lparr>content = C, fpos = length C - 1, feof = False\<rparr>"

lemma last_blank_step:
  assumes "drop p C = b # bl" "list_all blank (b # bl)"
  shows "load_step \<lparr>content = C, fpos = p, feof = False\<rparr> A = Inl (last_blank C, A)"
proof -
  have p: "p < length C" using assms(1) by (metis drop_eq_Nil list.distinct(1) not_less)
  have b: "b \<noteq> 255" "b \<noteq> 35" "blank b" "sint b = 32 \<or> sint b = 9" using assms(2) by (auto simp: blank_def)
  have "skip_blanks (sint b) \<lparr>content = C, fpos = Suc p, feof = False\<rparr> = \<lparr>content = C, fpos = length C, feof = True\<rparr>"
    using skip_blanks_end [OF drop_SucI [OF assms(1)], of "sint b"] assms(2) b(4) p by auto
  moreover have "length C \<noteq> 0" using p by auto
  ultimately show ?thesis using b by (simp add: load_step_byte [OF assms(1)] Let_def fseek_back_def last_blank_def)
qed

lemma last_blank_hangs:
  assumes "C \<noteq> []" "blank (last C)"
  shows "load_words (last_blank C) A = None"
proof -
  have d: "drop (length C - 1) C = [last C]" using assms(1) by (cases C rule: rev_cases) auto
  have st: "load_step (last_blank C) A = Inl (last_blank C, A)" for A
    using last_blank_step [OF d] assms(2) by (simp add: last_blank_def)
  have "f \<noteq> last_blank C" if "load_words f A = Some A'" for f A A'
  proof (rule load_words.raw_induct [where P = "\<lambda>f A A'. f \<noteq> last_blank C", OF _ that])
    fix g f A A'
    assume IH: "\<And>f A A'. g f A = Some A' \<Longrightarrow> f \<noteq> last_blank C"
      and r: "(case load_step f A of Inl s \<Rightarrow> g (fst s) (snd s) | Inr A \<Rightarrow> Some A) = Some A'"
    show "f \<noteq> last_blank C"
    proof
      assume "f = last_blank C"
      with r st have "g (last_blank C) A = Some A'" by simp
      then show False using IH by blast
    qed
  qed
  then show ?thesis by (cases "load_words (last_blank C) A") auto
qed

theorem load_words_spec:
  assumes "list_all line_ok ls" "line_ok l" "patterns_ok A" "length (words A) + length (file_words ls) < 81920"
  shows "load_words (fopen_read (file_of ls @ l)) A =
    (if l \<noteq> [] \<and> list_all blank l then None else Some (add_words A (file_words ls @ last_words l)))"
proof -
  let ?C = "file_of ls @ l" and ?p = "length (file_of ls)" and ?A = "add_words A (file_words ls)"
  have "load_words (fopen_read ?C) A = load_words \<lparr>content = ?C, fpos = ?p, feof = False\<rparr> ?A"
    unfolding fopen_read_def using load_lines [of 0 ?C ls l A] assms by simp
  also have "\<dots> = (if l \<noteq> [] \<and> list_all blank l then None else Some (add_words ?A (last_words l)))"
  proof (cases "l \<noteq> [] \<and> list_all blank l")
    case True
    then obtain b bl where b: "l = b # bl" by (cases l) auto
    have "blank (last ?C)" "?C \<noteq> []" using True by (auto simp: list_all_iff)
    then show ?thesis using True last_blank_step [of ?p ?C b bl ?A] last_blank_hangs [of ?C ?A] b
      by (simp add: load_words_Inl)
  next
    case False
    obtain bl l' where bl: "l = bl @ l'" "list_all blank bl" "dropWhile blank l' = l'" "dropWhile blank l = l'"
      by (rule split_blanks)
    have A: "patterns_ok ?A" "length (words ?A) < 81920"
      using add_words_spec [OF assms(3), of "file_words ls"] assms(4) length_filter_le [of "\<lambda>w. w \<noteq> []" "map stored_word (file_words ls)"]
      by (simp_all del: length_words filter_map length_filter_map)
    have d: "drop (?p + length bl) ?C = l'" using bl(1) by simp
    have l': "line_ok l'" using assms(2) bl by (auto simp: line_ok_def)
    have lw: "last_words l' = last_words l" unfolding last_words_def line_word_def bl(3,4) by (rule refl)
    have "load_words \<lparr>content = ?C, fpos = ?p, feof = False\<rparr> ?A = load_words \<lparr>content = ?C, fpos = ?p + length bl, feof = False\<rparr> ?A"
    proof (cases bl)
      case (Cons b bl')
      have "l' \<noteq> []" using False bl(1,2) Cons by auto
      then obtain e es where e: "l' = e # es" "\<not> blank e"
        using bl(3) dropWhile_eq_self_iff [of blank l'] by (cases l') auto
      show ?thesis using blanks_step [of ?p ?C b bl' e es ?A] bl(1,2) e Cons by simp
    qed simp
    then show ?thesis using plain_end [OF d l' bl(3) A] False lw by simp
  qed
  also have "add_words ?A (last_words l) = add_words A (file_words ls @ last_words l)"
  proof -
    have "add_words (add_words B us) vs = add_words B (us @ vs)" for B us vs by (induction us arbitrary: B) simp_all
    then show ?thesis .
  qed
  finally show ?thesis .
qed

end
