(* ===== verification/AcsmReplace.thy ===== *)
theory AcsmReplace
  imports AcsmSearch
begin

text \<open>
  \<open>acsm_pattern_replace\<close>: three passes over a normalised copy of the text put asterisks
  over the words they find, and the asterisks are merged into the caller's text. The
  passes share their loop; they differ in the bytes they skip, in how far they move over
  the filler that follows a match, and in how they walk backwards over the match. A walk
  that leaves the front of its buffer is \<open>None\<close>.
\<close>

section \<open>Walking back over a match\<close>

text \<open>Pass 1: every byte becomes an asterisk; fillers do not count.\<close>

function mask_all :: "bytes \<Rightarrow> int \<Rightarrow> int \<Rightarrow> int \<Rightarrow> bytes option" where
  "mask_all buf tmp j len =
     (if j < len then
        if tmp < 0 then None
        else
          let c = buf ! nat tmp; j = (if c \<noteq> 0x2D \<or> c = 0x2A then j + 1 else j)
          in mask_all (buf[nat tmp := 0x2A]) (tmp - 1) j len
      else Some buf)"
  by pat_completeness auto
termination by (relation "measure (\<lambda>(_, tmp, _, _). nat (tmp + 1))") auto

text \<open>Pass 2: the letters, and the fillers that follow a letter.\<close>

function mask_alpha :: "bytes \<Rightarrow> int \<Rightarrow> int \<Rightarrow> int \<Rightarrow> bytes option" where
  "mask_alpha buf tmp j len =
     (if j < len then
        if tmp < 0 then None
        else
          let c = buf ! nat tmp;
              j = (if IS_ASCII_ALPHA c \<or> c = 0x2A then j + 1 else j);
              buf = (if IS_ASCII_ALPHA c then buf[nat tmp := 0x2A]
                     else if c = 0x2D then
                       if tmp - 1 \<ge> 0 \<and> IS_ASCII_ALPHA (buf ! nat (tmp - 1)) \<or>
                          tmp - 2 \<ge> 0 \<and> IS_ASCII_ALPHA (buf ! nat (tmp - 2))
                       then buf[nat tmp := 0x2A] else buf
                     else buf)
          in mask_alpha buf (tmp - 1) j len
      else Some buf)"
  by pat_completeness auto
termination by (relation "measure (\<lambda>(_, tmp, _, _). nat (tmp + 1))") auto

definition other_byte :: "u8 \<Rightarrow> bool" where
  "other_byte c \<longleftrightarrow> \<not> IS_ASCII_ALPHA_OR_NUMBER c \<and> c \<noteq> 0x2B \<and> c \<noteq> 0x2D"

text \<open>Pass 3: everything but letters, digits and fillers.\<close>

function mask_other :: "bytes \<Rightarrow> int \<Rightarrow> int \<Rightarrow> int \<Rightarrow> bytes option" where
  "mask_other buf tmp j len =
     (if j < len then
        if tmp < 0 then None
        else
          let c = buf ! nat tmp in
          if other_byte c \<or> c = 0x2A then mask_other (buf[nat tmp := 0x2A]) (tmp - 1) (j + 1) len
          else mask_other buf (tmp - 1) j len
      else Some buf)"
  by pat_completeness auto
termination by (relation "measure (\<lambda>(_, tmp, _, _). nat (tmp + 1))") auto

declare mask_all.simps [simp del] mask_alpha.simps [simp del] mask_other.simps [simp del]

text \<open>Moving over at most two fillers.\<close>

definition skip_dashes :: "bytes \<Rightarrow> nat \<Rightarrow> nat \<Rightarrow> nat" where
  "skip_dashes buf n t =
     (if t + 1 < n \<and> buf ! (t + 1) = 0x2D
      then if t + 2 < n \<and> buf ! (t + 2) = 0x2D then t + 2 else t + 1
      else t)"

section \<open>The passes\<close>

text \<open>
  \<open>adv\<close> never moves back; the maximum with \<open>t\<close> only makes that plain.
\<close>

function mask_pass ::
  "acsm_struct \<Rightarrow> (u8 \<Rightarrow> bool) \<Rightarrow> (bytes \<Rightarrow> nat \<Rightarrow> nat \<Rightarrow> nat) \<Rightarrow>
   (bytes \<Rightarrow> int \<Rightarrow> int \<Rightarrow> int \<Rightarrow> bytes option) \<Rightarrow> nat \<Rightarrow> bytes \<Rightarrow> nat \<Rightarrow> int \<Rightarrow> bool \<Rightarrow> (bytes \<times> bool) option" where
  "mask_pass A skip adv msk n buf t state flag =
     (if t < n then
        if skip (buf ! t) then mask_pass A skip adv msk n buf (t + 1) state flag
        else
          let state = next_state A state (buf ! t) in
          if lpi A state \<noteq> -1 then
            let t1 = max t (adv buf n t) in do {
              buf \<leftarrow> msk buf (int t1) 0 (pattern_n A (lpi A state));
              mask_pass A skip adv msk n buf (t1 + 1) state True }
          else mask_pass A skip adv msk n buf (t + 1) state flag
      else Some (buf, flag))"
  by pat_completeness auto
termination by (relation "measure (\<lambda>(_, _, _, _, n, _, t, _, _). n - t)") auto

declare mask_pass.simps [simp del]

definition full_pass :: "acsm_struct \<Rightarrow> bytes \<Rightarrow> (bytes \<times> bool) option" where
  "full_pass A buf = mask_pass A (\<lambda>_. False) skip_dashes mask_all (length buf) buf 0 0 False"

definition alpha_pass :: "acsm_struct \<Rightarrow> bytes \<Rightarrow> (bytes \<times> bool) option" where
  "alpha_pass A buf =
     mask_pass A (\<lambda>c. \<not> IS_ASCII_ALPHA c) skip_dashes mask_alpha (length buf) buf 0 0 False"

definition other_pass :: "acsm_struct \<Rightarrow> bytes \<Rightarrow> (bytes \<times> bool) option" where
  "other_pass A buf =
     mask_pass A (\<lambda>c. IS_ASCII_ALPHA_OR_NUMBER c \<or> c = 0x2B \<or> c = 0x2D) (\<lambda>_ _ t. t) mask_other
       (length buf) buf 0 0 False"

definition merge_masks :: "bytes \<Rightarrow> bytes \<Rightarrow> bytes \<Rightarrow> bytes \<Rightarrow> bytes" where
  "merge_masks b0 b1 b2 Tx =
     map (\<lambda>i. if b0 ! i = 0x2A \<or> b1 ! i = 0x2A \<or> b2 ! i = 0x2A then 0x2A else Tx ! i) [0..<length Tx]"

text \<open>The normalised copy, of the text or of the text without its tags.\<close>

definition replaced_text :: "bytes \<Rightarrow> bytes \<Rightarrow> int \<Rightarrow> bytes" where
  "replaced_text junk Tx jump_tag =
     string_replace (if jump_tag \<noteq> 0 then replace_char_in_angle_brackets junk Tx else Tx)"

definition acsm_pattern_replace ::
  "acsm_struct \<Rightarrow> bytes \<Rightarrow> bytes \<Rightarrow> int \<Rightarrow> (int \<times> bytes) option" where
  "acsm_pattern_replace A junk Tx jump_tag =
     (if int (length Tx) > MAX_STR_BUFFER then Some (-1, Tx)
      else
        let Tc = replaced_text junk Tx jump_tag in do {
          (b0, f0) \<leftarrow> full_pass A Tc;
          (b1, f1) \<leftarrow> alpha_pass A Tc;
          (b2, f2) \<leftarrow> other_pass A Tc;
          Some (c_bool (f0 \<or> f1 \<or> f2), merge_masks b0 b1 b2 Tx) })"

section \<open>Counting what a walk has to pass\<close>

definition cnt :: "(u8 \<Rightarrow> bool) \<Rightarrow> bytes \<Rightarrow> nat \<Rightarrow> nat" where
  "cnt P buf t = length (filter P (take t buf))"

lemma cnt_Suc: "t < length buf \<Longrightarrow> cnt P buf (Suc t) = cnt P buf t + (if P (buf ! t) then 1 else 0)"
  by (simp add: cnt_def take_Suc_conv_app_nth)

lemma cnt_mono: "t \<le> t' \<Longrightarrow> cnt P buf t \<le> cnt P buf t'"
  unfolding cnt_def by (metis filter_append length_append le_add1 take_add le_Suc_ex)

text \<open>One buffer obtained from another by asterisks before a position.\<close>

definition starred :: "bytes \<Rightarrow> bytes \<Rightarrow> nat \<Rightarrow> bool" where
  "starred buf buf' t \<longleftrightarrow> length buf' = length buf \<and> (\<forall>i < length buf. buf' ! i = buf ! i \<or> buf' ! i = 0x2A) \<and>
     (\<forall>i. t \<le> i \<longrightarrow> i < length buf \<longrightarrow> buf' ! i = buf ! i)"

lemma starred_refl [simp]: "starred buf buf t"
  by (simp add: starred_def)

lemma starred_trans: "starred a b t \<Longrightarrow> starred b c t' \<Longrightarrow> t \<le> t' \<Longrightarrow> starred a c t'"
  unfolding starred_def by (metis le_trans)

lemma starred_update: "i < t \<Longrightarrow> starred buf (buf[i := 0x2A]) t"
  unfolding starred_def by (metis length_list_update leD nth_list_update_eq nth_list_update_neq)

lemma starred_weaken: "starred a b t \<Longrightarrow> t \<le> t' \<Longrightarrow> starred a b t'"
  by (simp add: starred_def)

lemma cnt_starred:
  assumes "starred buf buf' k" "P 0x2A"
  shows "cnt P buf t \<le> cnt P buf' t"
proof (induction t)
  case 0
  then show ?case by (simp add: cnt_def)
next
  case (Suc t)
  show ?case
  proof (cases "t < length buf")
    case True
    then have "buf' ! t = buf ! t \<or> buf' ! t = 0x2A" "t < length buf'"
      using assms(1) by (auto simp: starred_def)
    then show ?thesis using Suc True assms(2) by (auto simp: cnt_Suc)
  next
    case False
    then have "length buf' \<le> t" using assms(1) by (simp add: starred_def)
    then have "cnt P buf' (Suc t) = cnt P buf' t" "cnt P buf (Suc t) = cnt P buf t"
      using False by (simp_all add: cnt_def)
    then show ?thesis using Suc by simp
  qed
qed

lemma mask_all_ok:
  "tmp < int (length buf) \<Longrightarrow> len - j \<le> int (cnt (\<lambda>c. c \<noteq> 0x2D) buf (nat (tmp + 1))) \<Longrightarrow>
    \<exists>buf'. mask_all buf tmp j len = Some buf' \<and> starred buf buf' (nat (tmp + 1))"
proof (induction buf tmp j len rule: mask_all.induct)
  case (1 buf tmp j len)
  show ?case
  proof (cases "j < len")
    case False
    then show ?thesis by (simp add: mask_all.simps)
  next
    case True
    have t: "0 \<le> tmp"
    proof (rule ccontr)
      assume "\<not> 0 \<le> tmp"
      then have "nat (tmp + 1) = 0" by simp
      with 1(3) True show False by (simp add: cnt_def)
    qed
    let ?c = "buf ! nat tmp" and ?b = "buf[nat tmp := 0x2A]"
    let ?j = "if ?c \<noteq> 0x2D \<or> ?c = 0x2A then j + 1 else j"
    have e: "nat (tmp + 1) = Suc (nat tmp)" "nat (tmp - 1 + 1) = nat tmp" using t by simp_all
    have "cnt (\<lambda>c. c \<noteq> 0x2D) buf (Suc (nat tmp)) = cnt (\<lambda>c. c \<noteq> 0x2D) buf (nat tmp) + (if ?c \<noteq> 0x2D then 1 else 0)"
      using 1(2) t by (intro cnt_Suc) simp
    moreover have "cnt (\<lambda>c. c \<noteq> 0x2D) ?b (nat tmp) = cnt (\<lambda>c. c \<noteq> 0x2D) buf (nat tmp)"
      by (simp add: cnt_def)
    ultimately have l: "len - ?j \<le> int (cnt (\<lambda>c. c \<noteq> 0x2D) ?b (nat (tmp - 1 + 1)))"
      using 1(3) e by (auto split: if_splits)
    have "\<not> tmp < 0" using t by simp
    from 1(1) [OF True this refl refl _ l] 1(2) obtain buf' where
      b: "mask_all ?b (tmp - 1) ?j len = Some buf'" "starred ?b buf' (nat tmp)" using e by auto
    have "starred buf buf' (Suc (nat tmp))"
      by (rule starred_trans [OF starred_update [of "nat tmp" "Suc (nat tmp)"] starred_weaken [OF b(2)]]) simp_all
    then show ?thesis using b(1) True t e by (subst mask_all.simps) (simp add: Let_def)
  qed
qed


lemma mask_alpha_ok:
  fixes P :: "u8 \<Rightarrow> bool"
  defines "P \<equiv> \<lambda>c. IS_ASCII_ALPHA c \<or> c = 0x2A"
  shows "tmp < int (length buf) \<Longrightarrow> len - j \<le> int (cnt P buf (nat (tmp + 1))) \<Longrightarrow>
    \<exists>buf'. mask_alpha buf tmp j len = Some buf' \<and> starred buf buf' (nat (tmp + 1))"
proof (induction buf tmp j len rule: mask_alpha.induct)
  case (1 buf tmp j len)
  show ?case
  proof (cases "j < len")
    case False
    then show ?thesis by (simp add: mask_alpha.simps)
  next
    case True
    have t: "0 \<le> tmp"
    proof (rule ccontr)
      assume "\<not> 0 \<le> tmp"
      then have "nat (tmp + 1) = 0" by simp
      with 1(3) True show False by (simp add: cnt_def)
    qed
    let ?c = "buf ! nat tmp"
    let ?j = "if IS_ASCII_ALPHA ?c \<or> ?c = 0x2A then j + 1 else j"
    define b where "b = (if IS_ASCII_ALPHA ?c then buf[nat tmp := 0x2A]
       else if ?c = 0x2D then
         if tmp - 1 \<ge> 0 \<and> IS_ASCII_ALPHA (buf ! nat (tmp - 1)) \<or>
            tmp - 2 \<ge> 0 \<and> IS_ASCII_ALPHA (buf ! nat (tmp - 2))
         then buf[nat tmp := 0x2A] else buf
       else buf)"
    have b2: "b = buf \<or> b = buf[nat tmp := 0x2A]" by (auto simp: b_def)
    have e: "nat (tmp + 1) = Suc (nat tmp)" "nat (tmp - 1 + 1) = nat tmp" using t by simp_all
    have "cnt P buf (Suc (nat tmp)) = cnt P buf (nat tmp) + (if P ?c then 1 else 0)"
      using 1(2) t by (intro cnt_Suc) simp
    moreover have "cnt P b (nat tmp) = cnt P buf (nat tmp)" using b2 by (auto simp: cnt_def)
    ultimately have l: "len - ?j \<le> int (cnt P b (nat (tmp - 1 + 1)))"
      using 1(3) e by (auto simp: P_def split: if_splits)
    have nt: "\<not> tmp < 0" and lb: "tmp - 1 < int (length b)" using t b2 1(2) by auto
    from 1(1) [OF True nt refl refl b_def lb l] obtain buf' where
      b: "mask_alpha b (tmp - 1) ?j len = Some buf'" "starred b buf' (nat tmp)" using e by auto
    have "starred buf b (Suc (nat tmp))" using b2 starred_update [of "nat tmp" "Suc (nat tmp)" buf] by auto
    then have "starred buf buf' (Suc (nat tmp))"
      using starred_trans [OF _ starred_weaken [OF b(2)]] by simp
    then show ?thesis using b(1) True t e unfolding b_def by (subst mask_alpha.simps) (simp add: Let_def)
  qed
qed

lemma mask_other_ok:
  fixes P :: "u8 \<Rightarrow> bool"
  defines "P \<equiv> \<lambda>c. other_byte c \<or> c = 0x2A"
  shows "tmp < int (length buf) \<Longrightarrow> len - j \<le> int (cnt P buf (nat (tmp + 1))) \<Longrightarrow>
    \<exists>buf'. mask_other buf tmp j len = Some buf' \<and> starred buf buf' (nat (tmp + 1))"
proof (induction buf tmp j len rule: mask_other.induct)
  case (1 buf tmp j len)
  show ?case
  proof (cases "j < len")
    case False
    then show ?thesis by (simp add: mask_other.simps)
  next
    case True
    have t: "0 \<le> tmp"
    proof (rule ccontr)
      assume "\<not> 0 \<le> tmp"
      then have "nat (tmp + 1) = 0" by simp
      with 1(4) True show False by (simp add: cnt_def)
    qed
    let ?c = "buf ! nat tmp" and ?b = "buf[nat tmp := 0x2A]"
    have e: "nat (tmp + 1) = Suc (nat tmp)" "nat (tmp - 1 + 1) = nat tmp" using t by simp_all
    have c: "cnt P buf (Suc (nat tmp)) = cnt P buf (nat tmp) + (if P ?c then 1 else 0)"
      using 1(3) t by (intro cnt_Suc) simp
    have nt: "\<not> tmp < 0" using t by simp
    show ?thesis
    proof (cases "P ?c")
      case p: True
      have "cnt P ?b (nat tmp) = cnt P buf (nat tmp)" by (simp add: cnt_def)
      then have l: "len - (j + 1) \<le> int (cnt P ?b (nat (tmp - 1 + 1)))" using 1(4) c e p by simp
      from 1(1) [OF True nt refl _ _ l] 1(3) p obtain buf' where
        b: "mask_other ?b (tmp - 1) (j + 1) len = Some buf'" "starred ?b buf' (nat tmp)"
        using e by (auto simp: P_def)
      have "starred buf buf' (Suc (nat tmp))"
        by (rule starred_trans [OF starred_update [of "nat tmp" "Suc (nat tmp)"] starred_weaken [OF b(2)]]) simp_all
      then show ?thesis using b(1) True t e p by (subst mask_other.simps) (simp add: Let_def P_def)
    next
      case p: False
      then have l: "len - j \<le> int (cnt P buf (nat (tmp - 1 + 1)))" using 1(4) c e by simp
      from 1(2) [OF True nt refl _ _ l] 1(3) p obtain buf' where
        b: "mask_other buf (tmp - 1) j len = Some buf'" "starred buf buf' (nat tmp)"
        using e by (auto simp: P_def)
      then have "starred buf buf' (Suc (nat tmp))" by (simp add: starred_weaken)
      then show ?thesis using b(1) True t e p by (subst mask_other.simps) (simp add: Let_def P_def)
    qed
  qed
qed

section \<open>A pass over a text\<close>

lemma path_norm:
  assumes "automaton_ok path N A" "s \<in> states N"
  shows "list_all norm_byte (path s)"
  using assms prefixes_of_I [of s N path] by (auto simp: automaton_ok_def trie_paths_def)

text \<open>
  What the loop needs of a pass: fillers at most are passed over after a match, a byte
  that can be part of a word is counted by the walk, asterisks are counted, and the walk
  succeeds when there is enough to count.
\<close>

locale masker =
  fixes skip :: "u8 \<Rightarrow> bool"
    and adv :: "bytes \<Rightarrow> nat \<Rightarrow> nat \<Rightarrow> nat"
    and msk :: "bytes \<Rightarrow> int \<Rightarrow> int \<Rightarrow> int \<Rightarrow> bytes option"
    and counted :: "u8 \<Rightarrow> bool"
  assumes adv_bounds: "t < n \<Longrightarrow> t \<le> adv buf n t \<and> adv buf n t < n \<and>
      (\<forall>i. t < i \<and> i \<le> adv buf n t \<longrightarrow> buf ! i = 0x2D)"
    and word_counted: "norm_byte c \<Longrightarrow> \<not> skip c \<Longrightarrow> counted c"
    and star_counted: "counted 0x2A"
    and msk_ok: "tmp < int (length buf) \<Longrightarrow> len - j \<le> int (cnt counted buf (nat (tmp + 1))) \<Longrightarrow>
      \<exists>buf'. msk buf tmp j len = Some buf' \<and> starred buf buf' (nat (tmp + 1))"
begin

lemma pass_ok:
  assumes ok: "automaton_ok path N A"
  shows "s \<in> states N \<Longrightarrow> length (path s) \<le> cnt counted buf t \<Longrightarrow> n = length buf \<Longrightarrow> t \<le> n \<Longrightarrow>
    \<exists>buf' flag'. mask_pass A skip adv msk n buf t s flag = Some (buf', flag') \<and> starred buf buf' n \<and>
      (flag \<longrightarrow> flag') \<and> (\<not> flag' \<longrightarrow> buf' = buf) \<and>
      (skip 0x2D \<or> 0x2D \<notin> set (drop t buf) \<longrightarrow> flag' = (flag \<or> scan A skip s (drop t buf) \<noteq> None))"
proof (induction "n - t" arbitrary: buf t s flag rule: less_induct)
  case less
  have tp: "trie_paths path N A" using ok by (simp add: automaton_ok_def)
  show ?case
  proof (cases "t < n")
    case False
    then show ?thesis using less.prems by (subst mask_pass.simps) simp
  next
    case True
    let ?c = "buf ! t"
    have dr: "drop t buf = ?c # drop (Suc t) buf" using True less.prems(3) by (simp add: Cons_nth_drop_Suc)
    show ?thesis
    proof (cases "skip ?c")
      case sk: True
      have "length (path s) \<le> cnt counted buf (Suc t)"
        using less.prems(2) cnt_mono [of t "Suc t" counted buf] by simp
      moreover have "n - Suc t < n - t" "Suc t \<le> n" using True by simp_all
      ultimately obtain buf' flag' where
        r: "mask_pass A skip adv msk n buf (Suc t) s flag = Some (buf', flag')" "starred buf buf' n"
        "flag \<longrightarrow> flag'" "\<not> flag' \<longrightarrow> buf' = buf"
        "skip 0x2D \<or> 0x2D \<notin> set (drop (Suc t) buf) \<longrightarrow>
          flag' = (flag \<or> scan A skip s (drop (Suc t) buf) \<noteq> None)"
        using less.hyps [of "Suc t" s buf flag] less.prems(1,3) by blast
      moreover have "mask_pass A skip adv msk n buf t s flag = mask_pass A skip adv msk n buf (Suc t) s flag"
        using sk True by (subst mask_pass.simps) simp
      ultimately show ?thesis using sk by (intro exI [of _ buf'] exI [of _ flag']) (simp add: dr)
    next
      case ns: False
      define s1 where "s1 = next_state A s ?c"
      have gn: "good_next path N A s ?c" using ok less.prems(1) by (simp add: automaton_ok_def)
      then have s1: "s1 \<in> states N" "path s1 = lsuf (prefixes_of path N) (path s @ [?c])"
        by (simp_all add: good_next_def s1_def)
      have len1: "length (path s1) \<le> cnt counted buf (Suc t)"
      proof (cases "counted ?c")
        case cc: True
        have "length (path s1) \<le> Suc (length (path s))"
          unfolding s1(2) using length_lsuf [of "prefixes_of path N" "path s @ [?c]"] by simp
        then show ?thesis using less.prems(2,3) True cc by (simp add: cnt_Suc)
      next
        case False
        then have nb: "\<not> norm_byte ?c" using word_counted ns by blast
        have "path s1 = []"
        proof (rule ccontr)
          assume ne: "path s1 \<noteq> []"
          have "suffix (path s1) (path s @ [?c])" unfolding s1(2) by (rule suffix_lsuf)
          then have "?c \<in> set (path s1)" using ne by (cases "path s1" rule: rev_cases) auto
          with path_norm [OF ok s1(1)] nb show False by (simp add: list_all_iff)
        qed
        then show ?thesis by simp
      qed
      show ?thesis
      proof (cases "lpi A s1 = -1")
        case no: True
        have "n - Suc t < n - t" "Suc t \<le> n" using True by simp_all
        then obtain buf' flag' where
          r: "mask_pass A skip adv msk n buf (Suc t) s1 flag = Some (buf', flag')" "starred buf buf' n"
          "flag \<longrightarrow> flag'" "\<not> flag' \<longrightarrow> buf' = buf"
          "skip 0x2D \<or> 0x2D \<notin> set (drop (Suc t) buf) \<longrightarrow>
            flag' = (flag \<or> scan A skip s1 (drop (Suc t) buf) \<noteq> None)"
          using less.hyps [of "Suc t" s1 buf flag] less.prems(3) s1(1) len1 by blast
        moreover have "mask_pass A skip adv msk n buf t s flag = mask_pass A skip adv msk n buf (Suc t) s1 flag"
          using ns True no by (subst mask_pass.simps) (simp add: s1_def [symmetric] Let_def)
        ultimately show ?thesis using ns no
          by (intro exI [of _ buf'] exI [of _ flag']) (simp add: dr s1_def [symmetric] Let_def)
      next
        case hit: False
        define t1 where "t1 = adv buf n t"
        have t1: "t \<le> t1" "t1 < n" "\<forall>i. t < i \<and> i \<le> t1 \<longrightarrow> buf ! i = 0x2D"
          using adv_bounds [OF True, of buf] by (auto simp: t1_def)
        let ?L = "pattern_n A (lpi A s1)"
        have "good_lpi path A s1" using ok s1(1) by (simp add: automaton_ok_def)
        then have g: "0 \<le> lpi A s1" "nat (lpi A s1) < length (words A)"
          "suffix (words A ! nat (lpi A s1)) (path s1)"
          using hit unfolding good_lpi_def by (auto simp only: if_False)
        have L: "?L = int (length (words A ! nat (lpi A s1)))"
          using pattern_n_words [OF _ g(1,2)] tp by (simp add: trie_paths_def)
        have "length (words A ! nat (lpi A s1)) \<le> length (path s1)" using g(3) by (rule suffix_length_le)
        also have "\<dots> \<le> cnt counted buf (Suc t1)" using len1 cnt_mono [of "Suc t" "Suc t1"] t1(1) le_trans by fastforce
        finally have "?L - 0 \<le> int (cnt counted buf (nat (int t1 + 1)))" using L by (simp add: nat_add_distrib)
        from msk_ok [OF _ this] t1(2) less.prems(3) obtain b where
          b: "msk buf (int t1) 0 ?L = Some b" "starred buf b (nat (int t1 + 1))" by auto
        have nt: "nat (int t1 + 1) = Suc t1" by simp
        have lb: "n = length b" using b(2) less.prems(3) by (simp add: starred_def)
        have "length (path s1) \<le> cnt counted b (Suc t1)"
          using len1 cnt_mono [of "Suc t" "Suc t1" counted buf] t1(1)
            cnt_starred [of buf b _ counted "Suc t1", OF b(2) star_counted] by simp
        moreover have "n - Suc t1 < n - t" "Suc t1 \<le> n" using t1 by simp_all
        ultimately obtain buf' flag' where
          "mask_pass A skip adv msk n b (Suc t1) s1 True = Some (buf', flag')" "starred b buf' n"
          "True \<longrightarrow> flag'"
          using less.hyps [of "Suc t1" s1 b True] s1(1) lb by blast
        then have r: "mask_pass A skip adv msk n b (Suc t1) s1 True = Some (buf', True)" "starred b buf' n"
          by simp_all
        have e: "mask_pass A skip adv msk n buf t s flag = Some (buf', True)"
          using ns True hit b(1) r(1) t1(1)
          by (subst mask_pass.simps) (simp add: s1_def [symmetric] t1_def [symmetric] Let_def max_absorb2)
        have "starred buf buf' n"
          by (rule starred_trans [OF b(2) r(2)]) (use t1(2) nt in simp)
        moreover have "scan A skip s (drop t buf) \<noteq> None"
          using ns hit by (simp add: dr s1_def [symmetric] Let_def)
        ultimately show ?thesis unfolding e by auto
      qed
    qed
  qed
qed

end


lemma skip_dashes_bounds:
  "t < n \<Longrightarrow> t \<le> skip_dashes buf n t \<and> skip_dashes buf n t < n \<and>
    (\<forall>i. t < i \<and> i \<le> skip_dashes buf n t \<longrightarrow> buf ! i = 0x2D)"
  by (auto simp: skip_dashes_def le_Suc_eq)

interpretation full: masker "\<lambda>_. False" skip_dashes mask_all "\<lambda>c. c \<noteq> 0x2D"
  by unfold_locales (use skip_dashes_bounds mask_all_ok norm_byte_not_mark in auto)

interpretation alpha: masker "\<lambda>c. \<not> IS_ASCII_ALPHA c" skip_dashes mask_alpha
  "\<lambda>c. IS_ASCII_ALPHA c \<or> c = 0x2A"
  by unfold_locales (use skip_dashes_bounds mask_alpha_ok in auto)

interpretation other: masker "\<lambda>c. IS_ASCII_ALPHA_OR_NUMBER c \<or> c = 0x2B \<or> c = 0x2D" "\<lambda>_ _ t. t" mask_other
  "\<lambda>c. other_byte c \<or> c = 0x2A"
  by unfold_locales (use mask_other_ok in \<open>auto simp: other_byte_def\<close>)

section \<open>The replacement as a whole\<close>

lemma length_brackets_loop:
  "\<forall>l \<in> set locs. l < i \<Longrightarrow> length d = length s \<Longrightarrow> length (brackets_loop s i locs d) = length s"
proof (induction s i locs d rule: brackets_loop.induct)
  case (1 s i locs d)
  show ?case
  proof (cases "i \<ge> length s")
    case True
    then show ?thesis using 1 by (subst brackets_loop.simps) simp
  next
    case False
    show ?thesis
      using 1 False
      by (subst brackets_loop.simps) (auto simp: Let_def less_SucI split: list.split)
  qed
qed

lemma length_replaced_text:
  "length junk = length Tx \<Longrightarrow> length (replaced_text junk Tx tag) = length Tx"
  by (simp add: replaced_text_def replace_char_in_angle_brackets_def length_brackets_loop)

lemma replaced_text_no_star: "0x2A \<notin> set (replaced_text junk Tx tag)"
  unfolding replaced_text_def using string_replace_bytes by (fastforce simp: list_all_iff dest: norm_byte_not_mark)

lemma filtered_replaced:
  "filtered_text junk Tx tag = filter (\<lambda>c. c \<noteq> 0x2B \<and> c \<noteq> 0x2D) (replaced_text junk Tx tag)"
  by (simp add: filtered_text_def replaced_text_def string_filter_replace_facts(1))

end
