(* ===== verification/AcsmMask.thy ===== *)
theory AcsmMask
  imports AcsmReplace
begin

text \<open>
  What the replacement masks. Each pass looks at the bytes of one class; on a text without
  the filler for full-width characters, every place where a word occurs among the bytes of
  the class is covered with asterisks. Then the properties of \<open>acsm_pattern_replace\<close>.
\<close>

section \<open>Walking back over a word\<close>

definition runs :: "(nat \<Rightarrow> bool) \<Rightarrow> nat \<Rightarrow> int \<Rightarrow> nat" where
  "runs Q i tmp = length (filter Q [i..<nat (tmp + 1)])"

lemma runs_step:
  assumes "int i \<le> tmp"
  shows "runs Q i tmp = runs Q i (tmp - 1) + (if Q (nat tmp) then 1 else 0)"
proof -
  have "nat (tmp + 1) = Suc (nat tmp)" "i \<le> nat tmp" using assms by auto
  then show ?thesis by (simp add: runs_def)
qed

lemma runs_pos: "Q i \<Longrightarrow> int i \<le> tmp \<Longrightarrow> 0 < runs Q i tmp"
  by (auto simp: runs_def filter_empty_conv intro!: bexI [of _ i])

text \<open>The last \<open>len\<close> positions of \<open>Q\<close> up to \<open>tmp\<close> are asterisks, and nothing else has changed.\<close>

definition marks :: "(nat \<Rightarrow> bool) \<Rightarrow> int \<Rightarrow> int \<Rightarrow> bytes \<Rightarrow> bytes \<Rightarrow> bool" where
  "marks Q tmp len buf buf' \<longleftrightarrow> length buf' = length buf \<and>
     (\<forall>i. int i \<le> tmp \<longrightarrow> Q i \<longrightarrow> int (runs Q i tmp) \<le> len \<longrightarrow> buf' ! i = 0x2A) \<and>
     (\<forall>i < length buf. buf' ! i = buf ! i \<or> int i \<le> tmp \<and> Q i \<and> buf' ! i = 0x2A)"

lemma marks_stop:
  assumes "len \<le> 0 \<or> tmp < 0"
  shows "marks Q tmp len buf buf"
proof -
  have "\<not> int (runs Q i tmp) \<le> len" if "int i \<le> tmp" "Q i" for i
    using runs_pos [of Q i tmp] assms that by fastforce
  then show ?thesis by (auto simp: marks_def)
qed

lemma marks_skip:
  assumes "\<not> Q (nat tmp)" "0 \<le> tmp" "marks Q (tmp - 1) len buf buf'"
  shows "marks Q tmp len buf buf'"
proof -
  have "buf' ! i = 0x2A" if "int i \<le> tmp" "Q i" "int (runs Q i tmp) \<le> len" for i
  proof -
    have "int i \<noteq> tmp" using that(2) assms(1) by auto
    then have "int i \<le> tmp - 1" using that(1) by simp
    then show ?thesis using assms that runs_step [of i tmp Q] by (simp add: marks_def)
  qed
  then show ?thesis using assms(3) by (auto simp: marks_def)
qed

lemma marks_star:
  assumes "Q (nat tmp)" "0 \<le> tmp" "tmp < int (length buf)" "marks Q (tmp - 1) (len - 1) (buf[nat tmp := 0x2A]) buf'"
  shows "marks Q tmp len buf buf'"
proof -
  have "buf' ! i = 0x2A" if i: "int i \<le> tmp" "Q i" "int (runs Q i tmp) \<le> len" for i
  proof (cases "int i = tmp")
    case True
    then have "i = nat tmp" "i < length (buf[nat tmp := 0x2A])" using assms(3) by auto
    then show ?thesis using assms(4) unfolding marks_def by (metis length_list_update nth_list_update_eq)
  next
    case False
    then have "int i \<le> tmp - 1" using i(1) by simp
    moreover have "int (runs Q i (tmp - 1)) \<le> len - 1" using i(1,3) runs_step [of i tmp Q] assms(1) by simp
    ultimately show ?thesis using assms(4) i(2) by (simp add: marks_def)
  qed
  moreover have "buf' ! i = buf ! i \<or> int i \<le> tmp \<and> Q i \<and> buf' ! i = 0x2A" if "i < length buf" for i
    using assms(1,2,4) that by (cases "i = nat tmp") (auto simp: marks_def)
  ultimately show ?thesis using assms(4) by (auto simp: marks_def)
qed

text \<open>What a walk needs to see: the counted bytes are those of \<open>Q\<close>, and there are no fillers.\<close>

definition plain :: "(u8 \<Rightarrow> bool) \<Rightarrow> (nat \<Rightarrow> bool) \<Rightarrow> bytes \<Rightarrow> bool" where
  "plain counted Q buf \<longleftrightarrow> (\<forall>i < length buf. counted (buf ! i) = Q i)"

lemma plain_star: "plain counted Q buf \<Longrightarrow> counted 0x2A \<Longrightarrow> Q i \<Longrightarrow> plain counted Q (buf[i := 0x2A])"
proof -
  assume p: "plain counted Q buf" "counted 0x2A" "Q i"
  show ?thesis unfolding plain_def
  proof (intro allI impI)
    fix k assume "k < length (buf[i := 0x2A])"
    then show "counted (buf[i := 0x2A] ! k) = Q k" using p by (cases "k = i") (auto simp: plain_def)
  qed
qed

lemma no_filler_star: "0x2D \<notin> set buf \<Longrightarrow> 0x2D \<notin> set (buf[i := 0x2A :: u8])"
  using set_update_subset_insert [of buf i "0x2A"] by auto

lemma mask_all_marks:
  "tmp < int (length buf) \<Longrightarrow> 0x2D \<notin> set buf \<Longrightarrow> plain (\<lambda>c. c \<noteq> 0x2D) Q buf \<Longrightarrow>
    mask_all buf tmp j len = Some buf' \<Longrightarrow> marks Q tmp (len - j) buf buf'"
proof (induction buf tmp j len rule: mask_all.induct)
  case (1 buf tmp j len)
  show ?case
  proof (cases "j < len")
    case False
    then show ?thesis using 1(5) by (simp add: mask_all.simps marks_stop)
  next
    case True
    have t: "\<not> tmp < 0" using 1(5) True by (auto simp: mask_all.simps)
    let ?c = "buf ! nat tmp" and ?b = "buf[nat tmp := 0x2A]"
    have lt: "nat tmp < length buf" using t 1(2) by simp
    then have c: "?c \<noteq> 0x2D" using 1(3) nth_mem by metis
    then have q: "Q (nat tmp)" using 1(4) lt by (simp add: plain_def)
    have r: "mask_all ?b (tmp - 1) (j + 1) len = Some buf'"
      using 1(5) True t c by (subst (asm) mask_all.simps) (simp add: Let_def)
    have n: "0x2D \<notin> set ?b" using 1(3) by (rule no_filler_star)
    have "marks Q (tmp - 1) (len - (j + 1)) ?b buf'"
      using 1(1) [OF True t refl, of "j + 1"] 1(2) n plain_star [OF 1(4) _ q] r c by simp
    then show ?thesis using marks_star [of Q tmp buf "len - j" buf'] q 1(2) t by (simp add: algebra_simps)
  qed
qed

lemma mask_alpha_marks:
  defines "C \<equiv> \<lambda>c. IS_ASCII_ALPHA c \<or> c = 0x2A"
  shows "tmp < int (length buf) \<Longrightarrow> 0x2D \<notin> set buf \<Longrightarrow> plain C Q buf \<Longrightarrow>
    mask_alpha buf tmp j len = Some buf' \<Longrightarrow> marks Q tmp (len - j) buf buf'"
proof (induction buf tmp j len rule: mask_alpha.induct)
  case (1 buf tmp j len)
  show ?case
  proof (cases "j < len")
    case False
    then show ?thesis using 1(5) by (simp add: mask_alpha.simps marks_stop)
  next
    case True
    have t: "\<not> tmp < 0" using 1(5) True by (auto simp: mask_alpha.simps)
    let ?c = "buf ! nat tmp"
    have lt: "nat tmp < length buf" using t 1(2) by simp
    then have c: "?c \<noteq> 0x2D" using 1(3) nth_mem by metis
    have q: "C ?c = Q (nat tmp)" using 1(4) lt by (simp add: plain_def)
    define b where "b = (if IS_ASCII_ALPHA ?c then buf[nat tmp := 0x2A]
       else if ?c = 0x2D then
         if tmp - 1 \<ge> 0 \<and> IS_ASCII_ALPHA (buf ! nat (tmp - 1)) \<or>
            tmp - 2 \<ge> 0 \<and> IS_ASCII_ALPHA (buf ! nat (tmp - 2))
         then buf[nat tmp := 0x2A] else buf
       else buf)"
    define j' where "j' = (if C ?c then j + 1 else j)"
    have u: "?c = 0x2A \<Longrightarrow> buf[nat tmp := 0x2A] = buf" by (metis list_update_id)
    have b: "b = (if Q (nat tmp) then buf[nat tmp := 0x2A] else buf)"
      using c q u by (auto simp: b_def C_def)
    have r: "mask_alpha b (tmp - 1) j' len = Some buf'"
      using 1(5) True t unfolding b_def j'_def C_def by (subst (asm) mask_alpha.simps) (simp add: Let_def)
    have n: "0x2D \<notin> set b" using 1(3) no_filler_star by (simp add: b)
    have p: "plain C Q b" using 1(4) plain_star [OF 1(4)] by (simp add: b C_def)
    have l: "tmp - 1 < int (length b)" using 1(2) by (simp add: b)
    have m: "marks Q (tmp - 1) (len - j') b buf'"
      using 1(1) [OF True t refl j'_def [unfolded C_def] b_def l n p r] .
    show ?thesis
    proof (cases "Q (nat tmp)")
      case True
      then show ?thesis using marks_star [of Q tmp buf "len - j" buf'] True 1(2) m t q by (simp add: b j'_def algebra_simps)
    next
      case False
      then show ?thesis using marks_skip [of Q tmp "len - j" buf buf'] False m t q by (simp add: b j'_def)
    qed
  qed
qed

lemma mask_other_marks:
  defines "C \<equiv> \<lambda>c. other_byte c \<or> c = 0x2A"
  shows "tmp < int (length buf) \<Longrightarrow> plain C Q buf \<Longrightarrow>
    mask_other buf tmp j len = Some buf' \<Longrightarrow> marks Q tmp (len - j) buf buf'"
proof (induction buf tmp j len rule: mask_other.induct)
  case (1 buf tmp j len)
  show ?case
  proof (cases "j < len")
    case False
    then show ?thesis using 1(5) by (simp add: mask_other.simps marks_stop)
  next
    case True
    have t: "\<not> tmp < 0" using 1(5) True by (auto simp: mask_other.simps)
    let ?c = "buf ! nat tmp"
    have lt: "nat tmp < length buf" using t 1(3) by simp
    have q: "(other_byte ?c \<or> ?c = 0x2A) = Q (nat tmp)" using 1(4) lt by (simp add: plain_def C_def)
    show ?thesis
    proof (cases "Q (nat tmp)")
      case q': True
      have r: "mask_other (buf[nat tmp := 0x2A]) (tmp - 1) (j + 1) len = Some buf'"
        using 1(5) True t q q' by (subst (asm) mask_other.simps) (simp add: Let_def)
      have "marks Q (tmp - 1) (len - (j + 1)) (buf[nat tmp := 0x2A]) buf'"
        using 1(1) [OF True t refl _ _ _ r] q q' 1(3) plain_star [OF 1(4) _ q'] by (simp add: C_def)
      then show ?thesis using marks_star [of Q tmp buf "len - j" buf'] q' 1(3) t by (simp add: algebra_simps)
    next
      case q': False
      have r: "mask_other buf (tmp - 1) j len = Some buf'"
        using 1(5) True t q q' by (subst (asm) mask_other.simps) (simp add: Let_def)
      have "marks Q (tmp - 1) (len - j) buf buf'"
        using 1(2) [OF True t refl _ _ 1(4) r] q q' 1(3) by simp
      then show ?thesis using marks_skip [of Q tmp "len - j" buf buf'] q' t by simp
    qed
  qed
qed

section \<open>Passes that mark\<close>

text \<open>
  A masker whose walks mark. \<open>dashes\<close> says that fillers are just bytes outside the class;
  otherwise the text must have none.
\<close>

locale marker = masker +
  fixes dashes :: bool
  assumes class_counted: "c \<noteq> 0x2A \<Longrightarrow> dashes \<or> c \<noteq> 0x2D \<Longrightarrow> counted c \<longleftrightarrow> \<not> skip c"
    and no_adv: "dashes \<or> 0x2D \<notin> set buf \<Longrightarrow> n = length buf \<Longrightarrow> adv buf n t = t"
    and msk_marks: "tmp < int (length buf) \<Longrightarrow> dashes \<or> 0x2D \<notin> set buf \<Longrightarrow> plain counted Q buf \<Longrightarrow>
      msk buf tmp j len = Some buf' \<Longrightarrow> marks Q tmp (len - j) buf buf'"
begin

lemma pass_marks:
  assumes ok: "automaton_ok path N A"
    and T0: "0x2A \<notin> set T0" "dashes \<or> 0x2D \<notin> set T0"
  defines "Q \<equiv> \<lambda>i. i < length T0 \<and> \<not> skip (T0 ! i)"
  shows "s \<in> states N \<Longrightarrow> path s = lsuf (prefixes_of path N) (filter (\<lambda>c. \<not> skip c) (take t T0)) \<Longrightarrow>
    starred T0 buf t \<Longrightarrow> plain counted Q buf \<Longrightarrow> t \<le> length T0 \<Longrightarrow>
    mask_pass A skip adv msk (length T0) buf t s flag = Some (buf', flag') \<Longrightarrow>
    (\<forall>i < length T0. buf ! i = 0x2A \<longrightarrow> buf' ! i = 0x2A) \<and>
    (\<forall>e w i. t \<le> e \<longrightarrow> e < length T0 \<longrightarrow> Q e \<longrightarrow> w \<in> set (words A) \<longrightarrow>
       suffix w (filter (\<lambda>c. \<not> skip c) (take (Suc e) T0)) \<longrightarrow> i \<le> e \<longrightarrow> Q i \<longrightarrow> runs Q i (int e) \<le> length w \<longrightarrow> buf' ! i = 0x2A)"
proof (induction "length T0 - t" arbitrary: buf t s flag rule: less_induct)
  case less
  let ?n = "length T0" and ?S = "prefixes_of path N" and ?f = "filter (\<lambda>c. \<not> skip c)"
  have tp: "trie_paths path N A" using ok by (simp add: automaton_ok_def)
  have lb: "length buf = ?n" using less.prems(3) by (simp add: starred_def)
  have nd: "dashes \<or> 0x2D \<notin> set buf"
  proof (cases dashes)
    case False
    have "buf ! i \<noteq> 0x2D" if "i < ?n" for i
    proof -
      have "T0 ! i \<noteq> 0x2D" using T0(2) False nth_mem [OF that] by metis
      then show ?thesis using less.prems(3) that by (auto simp: starred_def)
    qed
    then show ?thesis using lb by (metis in_set_conv_nth)
  qed simp
  show ?case
  proof (cases "t < ?n")
    case False
    then show ?thesis using less.prems(6) by (auto simp: mask_pass.simps)
  next
    case True
    have bt: "buf ! t = T0 ! t" using less.prems(3) True by (simp add: starred_def)
    have tk: "take (Suc t) T0 = take t T0 @ [T0 ! t]" using True by (rule take_Suc_conv_app_nth)
    have d: "?n - Suc t < ?n - t" "Suc t \<le> ?n" using True by simp_all
    show ?thesis
    proof (cases "skip (T0 ! t)")
      case sk: True
      have r: "mask_pass A skip adv msk ?n buf (Suc t) s flag = Some (buf', flag')"
        using less.prems(6) True sk bt by (subst (asm) mask_pass.simps) simp
      have p: "path s = lsuf ?S (?f (take (Suc t) T0))" using less.prems(2) sk by (simp add: tk)
      note IH = less.hyps [OF d(1) less.prems(1) p starred_weaken [OF less.prems(3)] less.prems(4) d(2) r]
      have "\<not> Q t" using sk by (simp add: Q_def)
      then show ?thesis using IH by (metis Suc_leI le_neq_implies_less le_SucI order_refl)
    next
      case ns: False
      define s1 where "s1 = next_state A s (T0 ! t)"
      have gn: "good_next path N A s (T0 ! t)" using ok less.prems(1) by (simp add: automaton_ok_def)
      have s1: "s1 \<in> states N" "path s1 = lsuf ?S (?f (take (Suc t) T0))"
        using gn less.prems(2) lsuf_snoc [of ?S "?f (take t T0)" "T0 ! t"] tp ns
        by (auto simp: good_next_def s1_def trie_paths_def tk)
      have gl: "good_lpi path A s1" using ok s1(1) by (simp add: automaton_ok_def)
      have sf: "suffix w (path s1) \<longleftrightarrow> suffix w (?f (take (Suc t) T0))" if "w \<in> set (words A)" for w
        unfolding s1(2) by (rule suffix_lsuf_iff) (use that tp in \<open>auto simp: trie_paths_def\<close>)
      show ?thesis
      proof (cases "lpi A s1 = -1")
        case no: True
        have r: "mask_pass A skip adv msk ?n buf (Suc t) s1 flag = Some (buf', flag')"
          using less.prems(6) True ns bt no by (subst (asm) mask_pass.simps) (simp add: s1_def [symmetric] Let_def)
        note IH = less.hyps [OF d(1) s1 starred_weaken [OF less.prems(3)] less.prems(4) d(2) r]
        have "\<not> suffix w (?f (take (Suc t) T0))" if "w \<in> set (words A)" for w
          using good_lpi_iff [OF gl] no sf [OF that] that by blast
        then show ?thesis using IH by (metis Suc_leI le_neq_implies_less le_SucI order_refl)
      next
        case hit: False
        let ?W = "words A ! nat (lpi A s1)"
        have g: "0 \<le> lpi A s1" "nat (lpi A s1) < length (words A)" "suffix ?W (path s1)"
          "\<forall>w \<in> set (words A). suffix w (path s1) \<longrightarrow> length w \<le> length ?W"
          using gl hit unfolding good_lpi_def by (auto simp only: if_False)
        have L: "pattern_n A (lpi A s1) = int (length ?W)"
          using pattern_n_words [OF _ g(1,2)] tp by (simp add: trie_paths_def)
        have ad: "adv buf ?n t = t" by (rule no_adv [OF nd lb [symmetric]])
        obtain b where b: "msk buf (int t) 0 (int (length ?W)) = Some b"
          "mask_pass A skip adv msk ?n b (Suc t) s1 True = Some (buf', flag')"
          using less.prems(6) True ns bt hit ad L
          by (subst (asm) mask_pass.simps) (auto simp: s1_def [symmetric] Let_def elim: bind_eq_SomeE)
        have m: "marks Q (int t) (int (length ?W)) buf b"
          using msk_marks [OF _ nd less.prems(4) b(1)] True lb by simp
        have keep: "b ! i = buf ! i \<or> int i \<le> int t \<and> Q i \<and> b ! i = 0x2A" if "i < ?n" for i
          using m that lb by (simp add: marks_def)
        have b1: "starred T0 b (Suc t)"
          using less.prems(3) keep m lb unfolding starred_def marks_def
          by (metis Suc_leD Suc_n_not_le_n of_nat_le_iff order_trans)
        have b2: "plain counted Q b" unfolding plain_def
        proof (intro allI impI)
          fix i assume "i < length b"
          then have i: "i < ?n" using b1 by (simp add: starred_def)
          then have "counted (buf ! i) = Q i" using less.prems(4) lb by (simp add: plain_def)
          then show "counted (b ! i) = Q i" using keep [OF i] star_counted by auto
        qed
        note IH = less.hyps [OF d(1) s1 b1 b2 d(2) b(2)]
        have here: "b ! i = 0x2A" if "w \<in> set (words A)" "suffix w (?f (take (Suc t) T0))" "i \<le> t" "Q i"
          "runs Q i (int t) \<le> length w" for w i
        proof -
          have "length w \<le> length ?W" using g(4) sf that(1,2) by blast
          then show ?thesis using m that(3-5) by (simp add: marks_def)
        qed
        have "buf' ! i = 0x2A" if "t \<le> e" "e < ?n" "Q e" "w \<in> set (words A)" "suffix w (?f (take (Suc e) T0))" "i \<le> e" "Q i"
          "runs Q i (int e) \<le> length w" for e w i
        proof (cases "e = t")
          case True
          then have "b ! i = 0x2A" using here that by blast
          then show ?thesis using IH that(2,6) by simp
        next
          case False
          then have "Suc t \<le> e" using that(1) by simp
          then show ?thesis using IH that by blast
        qed
        moreover have "buf' ! i = 0x2A" if "i < ?n" "buf ! i = 0x2A" for i
          using IH keep that by metis
        ultimately show ?thesis by blast
      qed
    qed
  qed
qed

end

interpretation mark_full: marker "\<lambda>_. False" skip_dashes mask_all "\<lambda>c. c \<noteq> 0x2D" False
proof (unfold_locales, goal_cases)
  case (1 c)
  then show ?case by simp
next
  case (2 buf n t)
  have "buf ! (t + 1) \<noteq> 0x2D" if "t + 1 < n" using 2 that nth_mem by fastforce
  then show ?case by (simp add: skip_dashes_def)
next
  case (3 tmp buf Q j len buf')
  then show ?case using mask_all_marks by simp
qed

interpretation mark_alpha: marker "\<lambda>c. \<not> IS_ASCII_ALPHA c" skip_dashes mask_alpha "\<lambda>c. IS_ASCII_ALPHA c \<or> c = 0x2A" False
proof (unfold_locales, goal_cases)
  case (1 c)
  then show ?case by simp
next
  case (2 buf n t)
  have "buf ! (t + 1) \<noteq> 0x2D" if "t + 1 < n" using 2 that nth_mem by fastforce
  then show ?case by (simp add: skip_dashes_def)
next
  case (3 tmp buf Q j len buf')
  then show ?case using mask_alpha_marks by simp
qed

interpretation mark_other: marker "\<lambda>c. IS_ASCII_ALPHA_OR_NUMBER c \<or> c = 0x2B \<or> c = 0x2D" "\<lambda>_ _ t. t" mask_other
  "\<lambda>c. other_byte c \<or> c = 0x2A" True
proof (unfold_locales, goal_cases)
  case (1 c)
  then show ?case by (auto simp: other_byte_def)
next
  case (3 tmp buf Q j len buf')
  then show ?case using mask_other_marks by simp
qed simp

section \<open>Covered words\<close>

text \<open>
  Wherever a word ends among the bytes of class \<open>P\<close>, the bytes of the class that make it up
  are asterisks.
\<close>

definition covers :: "(u8 \<Rightarrow> bool) \<Rightarrow> bytes list \<Rightarrow> bytes \<Rightarrow> bytes \<Rightarrow> bool" where
  "covers P ws Tc Tx \<longleftrightarrow> (\<forall>e < length Tc. \<forall>w \<in> set ws. P (Tc ! e) \<longrightarrow> suffix w (filter P (take (Suc e) Tc)) \<longrightarrow>
     (\<forall>i \<le> e. P (Tc ! i) \<longrightarrow> length (filter P (drop i (take (Suc e) Tc))) \<le> length w \<longrightarrow> Tx ! i = 0x2A))"

lemma runs_filter:
  assumes "e < length Tc"
  shows "runs (\<lambda>i. i < length Tc \<and> P (Tc ! i)) i (int e) = length (filter P (drop i (take (Suc e) Tc)))"
proof -
  have "drop i (take (Suc e) Tc) = map (nth Tc) [i..<Suc e]"
    using assms by (intro nth_equalityI) (auto simp: nth_append simp del: upt_Suc)
  then have "length (filter P (drop i (take (Suc e) Tc))) = length (filter (\<lambda>k. P (Tc ! k)) [i..<Suc e])"
    by (simp add: filter_map comp_def del: upt_Suc)
  moreover have "filter (\<lambda>k. k < length Tc \<and> P (Tc ! k)) [i..<Suc e] = filter (\<lambda>k. P (Tc ! k)) [i..<Suc e]"
    using assms by (intro filter_cong refl) auto
  moreover have "nat (int e + 1) = Suc e" by simp
  ultimately show ?thesis unfolding runs_def by simp
qed

context marker
begin

lemma pass_covers:
  assumes ok: "automaton_ok path N A" and T: "0x2A \<notin> set T" "dashes \<or> 0x2D \<notin> set T"
    and r: "mask_pass A skip adv msk (length T) T 0 0 False = Some (b, f)"
  shows "covers (\<lambda>c. \<not> skip c) (words A) T b"
proof -
  have z: "0 \<in> states N" "path 0 = lsuf (prefixes_of path N) (filter (\<lambda>c. \<not> skip c) (take 0 T))"
    using ok by (auto simp: automaton_ok_def trie_paths_def states_def)
  have p: "plain counted (\<lambda>i. i < length T \<and> \<not> skip (T ! i)) T" unfolding plain_def
  proof (intro allI impI)
    fix i assume i: "i < length T"
    then have "T ! i \<in> set T" by simp
    then have "T ! i \<noteq> 0x2A" "dashes \<or> T ! i \<noteq> 0x2D" using T by auto
    then show "counted (T ! i) = (i < length T \<and> \<not> skip (T ! i))" using class_counted i by simp
  qed
  from pass_marks [OF ok T z starred_refl p le0 r] show ?thesis
    by (auto simp: covers_def runs_filter [where P = "\<lambda>c. \<not> skip c"])
qed

end

section \<open>The replacement as a whole\<close>

lemma passes_ok:
  assumes ok: "automaton_ok path N A"
  shows "\<exists>b f. full_pass A buf = Some (b, f) \<and> starred buf b (length buf) \<and> (\<not> f \<longrightarrow> b = buf) \<and>
      (0x2D \<notin> set buf \<longrightarrow> f = (\<exists>w \<in> set (words A). sublist w buf))"
    and "\<exists>b f. alpha_pass A buf = Some (b, f) \<and> starred buf b (length buf) \<and> (\<not> f \<longrightarrow> b = buf) \<and>
      f = (\<exists>w \<in> set (words A). sublist w (filter IS_ASCII_ALPHA buf))"
    and "\<exists>b f. other_pass A buf = Some (b, f) \<and> starred buf b (length buf) \<and> (\<not> f \<longrightarrow> b = buf) \<and>
      f = (\<exists>w \<in> set (words A). sublist w (filter other_byte buf))"
proof -
  have z: "0 \<in> states N" "\<And>P. length (path 0) \<le> cnt P buf 0"
    using ok by (auto simp: automaton_ok_def trie_paths_def states_def)
  have sc: "scan A skip 0 T \<noteq> None \<longleftrightarrow> (\<exists>w \<in> set (words A). sublist w (filter (\<lambda>c. \<not> skip c) T))" for skip T
    using scan_root(1) [OF ok, of "filter (\<lambda>c. \<not> skip c) T"] scan_filter [of A skip 0 T] by simp
  show "\<exists>b f. full_pass A buf = Some (b, f) \<and> starred buf b (length buf) \<and> (\<not> f \<longrightarrow> b = buf) \<and>
      (0x2D \<notin> set buf \<longrightarrow> f = (\<exists>w \<in> set (words A). sublist w buf))"
    using full.pass_ok [OF ok z(1) z(2) refl, of False] sc [of "\<lambda>_. False" buf]
    unfolding full_pass_def by auto
  have a: "\<not> IS_ASCII_ALPHA 0x2D" by (simp add: char_class_defs)
  show "\<exists>b f. alpha_pass A buf = Some (b, f) \<and> starred buf b (length buf) \<and> (\<not> f \<longrightarrow> b = buf) \<and>
      f = (\<exists>w \<in> set (words A). sublist w (filter IS_ASCII_ALPHA buf))"
    using alpha.pass_ok [OF ok z(1) z(2) refl, of False] sc [of "\<lambda>c. \<not> IS_ASCII_ALPHA c" buf] a
    unfolding alpha_pass_def by auto
  have o: "(\<lambda>c. \<not> (IS_ASCII_ALPHA_OR_NUMBER c \<or> c = 0x2B \<or> c = 0x2D)) = other_byte"
    by (auto simp: other_byte_def fun_eq_iff)
  show "\<exists>b f. other_pass A buf = Some (b, f) \<and> starred buf b (length buf) \<and> (\<not> f \<longrightarrow> b = buf) \<and>
      f = (\<exists>w \<in> set (words A). sublist w (filter other_byte buf))"
    using other.pass_ok [OF ok z(1) z(2) refl, of False]
      sc [of "\<lambda>c. IS_ASCII_ALPHA_OR_NUMBER c \<or> c = 0x2B \<or> c = 0x2D" buf]
    unfolding other_pass_def o by auto
qed

text \<open>The bytes each pass looks at, and what it covers.\<close>

lemma passes_cover:
  assumes ok: "automaton_ok path N A" and T: "0x2A \<notin> set T"
  shows "full_pass A T = Some (b, f) \<Longrightarrow> 0x2D \<notin> set T \<Longrightarrow> covers (\<lambda>_. True) (words A) T b"
    and "alpha_pass A T = Some (b, f) \<Longrightarrow> 0x2D \<notin> set T \<Longrightarrow> covers IS_ASCII_ALPHA (words A) T b"
    and "other_pass A T = Some (b, f) \<Longrightarrow> covers other_byte (words A) T b"
proof -
  have o: "(\<lambda>c. \<not> (IS_ASCII_ALPHA_OR_NUMBER c \<or> c = 0x2B \<or> c = 0x2D)) = other_byte"
    by (auto simp: other_byte_def fun_eq_iff)
  show "full_pass A T = Some (b, f) \<Longrightarrow> 0x2D \<notin> set T \<Longrightarrow> covers (\<lambda>_. True) (words A) T b"
    using mark_full.pass_covers [OF ok T, of b f] by (simp add: full_pass_def)
  show "alpha_pass A T = Some (b, f) \<Longrightarrow> 0x2D \<notin> set T \<Longrightarrow> covers IS_ASCII_ALPHA (words A) T b"
    using mark_alpha.pass_covers [OF ok T, of b f] by (simp add: alpha_pass_def)
  show "other_pass A T = Some (b, f) \<Longrightarrow> covers other_byte (words A) T b"
    using mark_other.pass_covers [OF ok T, of b f] unfolding other_pass_def o by blast
qed

text \<open>The whole promise of a replacement, for the words \<open>ws\<close> and the normalised text \<open>Tc\<close>.\<close>

definition replaced_well :: "bytes list \<Rightarrow> bytes \<Rightarrow> bytes \<Rightarrow> bool \<Rightarrow> bytes \<Rightarrow> bool" where
  "replaced_well ws Tc Tx flag Tx' \<longleftrightarrow>
     length Tx' = length Tx \<and> (\<forall>i < length Tx. Tx' ! i = Tx ! i \<or> Tx' ! i = 0x2A) \<and> (\<not> flag \<longrightarrow> Tx' = Tx) \<and>
     ((\<exists>w \<in> set ws. sublist w (filter IS_ASCII_ALPHA Tc) \<or> sublist w (filter other_byte Tc)) \<longrightarrow> flag) \<and>
     covers other_byte ws Tc Tx' \<and>
     (0x2D \<notin> set Tc \<longrightarrow>
        flag = (\<exists>w \<in> set ws. sublist w Tc \<or> sublist w (filter IS_ASCII_ALPHA Tc) \<or> sublist w (filter other_byte Tc)) \<and>
        covers (\<lambda>_. True) ws Tc Tx' \<and> covers IS_ASCII_ALPHA ws Tc Tx')"

lemma covers_merge:
  assumes "length Tc = length Tx"
  shows "covers P ws Tc b0 \<Longrightarrow> covers P ws Tc (merge_masks b0 b1 b2 Tx)"
    "covers P ws Tc b1 \<Longrightarrow> covers P ws Tc (merge_masks b0 b1 b2 Tx)"
    "covers P ws Tc b2 \<Longrightarrow> covers P ws Tc (merge_masks b0 b1 b2 Tx)"
  using assms by (auto simp: covers_def merge_masks_def)

lemma replace_spec:
  fixes tag :: int
  assumes ok: "automaton_ok path N A" and len: "length junk = length Tx" "length Tx \<le> 1000000"
  shows "\<exists>flag Tx'. acsm_pattern_replace A junk Tx tag = Some (c_bool flag, Tx') \<and>
    replaced_well (words A) (replaced_text junk Tx tag) Tx flag Tx'"
proof -
  define Tc where "Tc = replaced_text junk Tx tag"
  have ns: "0x2A \<notin> set Tc" and lc: "length Tc = length Tx"
    using replaced_text_no_star length_replaced_text [OF len(1)] by (auto simp: Tc_def)
  from passes_ok [OF ok, of Tc] obtain b0 f0 b1 f1 b2 f2 where
    p: "full_pass A Tc = Some (b0, f0)" "\<not> f0 \<longrightarrow> b0 = Tc"
    "0x2D \<notin> set Tc \<longrightarrow> f0 = (\<exists>w \<in> set (words A). sublist w Tc)"
    "alpha_pass A Tc = Some (b1, f1)" "\<not> f1 \<longrightarrow> b1 = Tc"
    "f1 = (\<exists>w \<in> set (words A). sublist w (filter IS_ASCII_ALPHA Tc))"
    "other_pass A Tc = Some (b2, f2)" "\<not> f2 \<longrightarrow> b2 = Tc"
    "f2 = (\<exists>w \<in> set (words A). sublist w (filter other_byte Tc))" by blast
  let ?f = "f0 \<or> f1 \<or> f2" and ?T = "merge_masks b0 b1 b2 Tx"
  have r: "acsm_pattern_replace A junk Tx tag = Some (c_bool ?f, ?T)"
    using len(2) p(1,4,7)
    by (simp add: acsm_pattern_replace_def MAX_STR_BUFFER_def Tc_def [symmetric] Let_def)
  have "?T = Tx" if "\<not> ?f"
  proof (rule nth_equalityI)
    fix i assume i: "i < length ?T"
    then have "i < length Tc" by (simp add: merge_masks_def lc)
    then have "Tc ! i \<noteq> 0x2A" using ns nth_mem by metis
    then show "?T ! i = Tx ! i" using that p i by (simp add: merge_masks_def)
  qed (simp add: merge_masks_def)
  moreover have "length ?T = length Tx" "\<forall>i < length Tx. ?T ! i = Tx ! i \<or> ?T ! i = 0x2A"
    by (auto simp: merge_masks_def)
  moreover have "covers other_byte (words A) Tc ?T"
    using passes_cover(3) [OF ok ns p(7)] by (rule covers_merge(3) [OF lc])
  moreover have "0x2D \<notin> set Tc \<longrightarrow> covers (\<lambda>_. True) (words A) Tc ?T \<and> covers IS_ASCII_ALPHA (words A) Tc ?T"
    using covers_merge(1) [OF lc passes_cover(1) [OF ok ns p(1)]]
      covers_merge(2) [OF lc passes_cover(2) [OF ok ns p(4)]] by blast
  ultimately have "replaced_well (words A) Tc Tx ?f ?T"
    unfolding replaced_well_def using p(3,6,9) by blast
  then show ?thesis using r unfolding Tc_def by blast
qed

section \<open>Properties\<close>

text \<open>
  C7: on a compiled matcher the replacement always comes to an end without leaving its
  buffers: it keeps the length of the text, changes bytes to asterisks only, answers 0 or 1,
  and leaves the text alone when it answers 0. It answers 1 whenever a pattern occurs in the
  letters alone or in the bytes that are neither letters, digits nor ASCII punctuation, and
  every byte of such an occurrence among the latter becomes an asterisk. In a text without
  full-width letters or digits it answers 1 exactly when a pattern occurs there or in the
  normalised text as it stands, and all three kinds of occurrence are covered.
\<close>

theorem acsm_pattern_replace_correct:
  assumes "patterns_ok A" "\<forall>s. mal s" "sum_list (map length (words A)) < 524288"
    "length junk = length Tx" "length Tx \<le> 1000000"
  shows "\<exists>A' flag Tx'. acsmCompile mal A = Some (0, A') \<and>
    acsm_pattern_replace A' junk Tx tag = Some (c_bool flag, Tx') \<and>
    replaced_well (words A) (replaced_text junk Tx tag) Tx flag Tx'"
proof -
  from acsmCompile_spec [OF assms(1-3)] obtain path N A' where
    A': "acsmCompile mal A = Some (0, A')" "automaton_ok path N A'" "acsmPatterns A' = acsmPatterns A" by blast
  have w: "words A' = words A" using A'(3) by (rule words_cong)
  show ?thesis
    using replace_spec [OF A'(2) assms(4,5), of tag] A'(1) unfolding w by blast
qed

theorem acsm_pattern_replace_correct_witness:
  "\<exists>A' flag Tx'. acsmCompile (\<lambda>_. True) ab_acsm = Some (0, A') \<and>
    acsm_pattern_replace A' [0, 0] [0x61, 0x42] 0 = Some (c_bool flag, Tx') \<and> length Tx' = 2"
  using acsm_pattern_replace_correct [OF ab_acsm_ok(1), of "\<lambda>_. True" "[0, 0]" "[0x61, 0x42]" 0]
  by (auto simp: ab_acsm_ok(2) numeral_2_eq_2 replaced_well_def)

definition a1_acsm :: acsm_struct where
  "a1_acsm = acsmNew\<lparr>acsmPatterns := [\<lparr>patrn = [0x41, 0x31], pat_n = 2\<rparr>]\<rparr>"

text \<open>
  The search and the replacement disagree. For the pattern \<open>A1\<close> and the text \<open>A.1\<close>,
  the search reports the pattern (it drops the point), and the replacement answers 0 and
  leaves the text as it is (it keeps a filler for the point).
\<close>

theorem replace_misses_reported_word:
  "\<exists>A'. acsmCompile (\<lambda>_. True) a1_acsm = Some (0, A') \<and>
    acsmSearch A' [0, 0, 0] [0x41, 0x2E, 0x31] 0 = 3 \<and>
    acsm_pattern_replace A' [0, 0, 0] [0x41, 0x2E, 0x31] 0 = Some (0, [0x41, 0x2E, 0x31])"
proof -
  have ok: "patterns_ok a1_acsm" and w: "words a1_acsm = [[0x41, 0x31]]"
    by (simp_all add: patterns_ok_def a1_acsm_def acsmNew_def words_def pattern_ok_def norm_byte_def char_class_defs)
  from acsmCompile_spec [OF ok, of "\<lambda>_. True"] w obtain path N A' where
    A': "acsmCompile (\<lambda>_. True) a1_acsm = Some (0, A')" "automaton_ok path N A'"
    "acsmPatterns A' = acsmPatterns a1_acsm" by auto
  have w': "words A' = [[0x41, 0x31]]" using A'(3) w words_cong by metis
  let ?T = "[0x41, 0x2E, 0x31] :: bytes"
  have Tc: "replaced_text [0, 0, 0] ?T 0 = [0x41, 0x2B, 0x31]"
    by (simp add: replaced_text_def string_replace.simps punct_scan_def punct_switch_def char_class_defs xlatcase_def)
  then have F: "filtered_text [0, 0, 0] ?T 0 = [0x41, 0x31]" by (simp add: filtered_replaced)
  have "scan A' (\<lambda>_. False) 0 [0x41, 0x31] \<noteq> None" 
    using scan_root(1) [OF A'(2), of "[0x41, 0x31]"] w' by (simp del: scan.simps)
  then have s: "acsmSearch A' [0, 0, 0] ?T 0 = 3" by (simp add: acsmSearch_def MAX_STR_BUFFER_def Let_def F)
  have n: "\<not> sublist [0x41, 0x31] [0x41, 0x2B, 0x31 :: u8]" "\<not> sublist [0x41, 0x31] [0x41 :: u8]"
    "\<not> sublist [0x41, 0x31] ([] :: bytes)"
    by (auto simp: sublist_Cons_right)
  have fl: "filter IS_ASCII_ALPHA [0x41, 0x2B, 0x31] = [0x41]" "filter other_byte [0x41, 0x2B, 0x31] = []"
    by (simp_all add: char_class_defs other_byte_def)
  have len: "length [0, 0, 0 :: u8] = length ?T" "length ?T \<le> 1000000" by simp_all
  from replace_spec [OF A'(2) len, of 0] obtain flag Tx' where
    r: "acsm_pattern_replace A' [0, 0, 0] ?T 0 = Some (c_bool flag, Tx')"
    and rw: "replaced_well [[0x41, 0x31]] [0x41, 0x2B, 0x31] ?T flag Tx'"
    unfolding Tc w' by blast
  have r23: "\<not> flag \<longrightarrow> Tx' = ?T"
    "0x2D \<notin> set [0x41, 0x2B, 0x31 :: u8] \<longrightarrow> flag = (\<exists>w \<in> set [[0x41, 0x31 :: u8]]. sublist w [0x41, 0x2B, 0x31] \<or>
       sublist w [0x41] \<or> sublist w [])"
    using rw unfolding replaced_well_def fl by argo+
  have "\<not> flag" using r23(2) n by simp
  with r r23(1) have "acsm_pattern_replace A' [0, 0, 0] ?T 0 = Some (0, ?T)" by (simp add: c_bool_def)
  with A'(1) s show ?thesis by blast
qed

end
