(* ===== verification/Config.thy ===== *)
theory Config
  imports Prelude
begin

unbundle bit_operations_syntax

text \<open>
  \<open>hash_algo.h\<close> and \<open>conf_parser/config.c\<close>: the string hash, the table of settings,
  the parser of configuration files and the interface to the table. A C string is the
  list of its bytes before the terminating 0. A bucket of the table is the list of the
  entries of its \<open>list.h\<close> ring from the head on, so \<open>list_add\<close> puts an entry in front.
  \<open>None\<close> is a NULL dereference or the use of a table that is not initialised.
\<close>

section \<open>The hash function\<close>

text \<open>A \<open>char\<close> is signed: both shifts work on the sign-extended value.\<close>

definition r5_step :: "u32 \<Rightarrow> u8 \<Rightarrow> u32" where
  "r5_step h c = h * 11 + push_bit 4 (scast c) + signed_drop_bit 4 (scast c)"

fun r5hash_from :: "u32 \<Rightarrow> bytes \<Rightarrow> u32" where
  "r5hash_from h [] = h"
| "r5hash_from h (c # p) = (if c = 0 then h else r5hash_from (r5_step h c) p)"

definition r5hash :: "bytes \<Rightarrow> u32" where
  "r5hash p = r5hash_from 0 p"

section \<open>The table\<close>

record config_pair =
  key :: bytes
  val :: bytes

record config_state =
  has_init :: bool
  ini_key_head :: "config_pair list list"
  use_lua :: bool
  dump_loop_index :: nat
  dump_loop_first_flag :: nat
  dump_loop_iter :: nat

definition INIKEY_HASHBITS :: nat where "INIKEY_HASHBITS = 8"
definition CONFIG_VAL_SIZE :: nat where "CONFIG_VAL_SIZE = 4096"

definition hash_key :: "bytes \<Rightarrow> nat" where
  "hash_key k = unat (r5hash k AND (push_bit INIKEY_HASHBITS 1 - 1))"

definition bucket :: "config_state \<Rightarrow> bytes \<Rightarrow> config_pair list" where
  "bucket st k = ini_key_head st ! hash_key k"

definition set_bucket :: "bytes \<Rightarrow> config_pair list \<Rightarrow> config_state \<Rightarrow> config_state" where
  "set_bucket k ps st = st\<lparr>ini_key_head := (ini_key_head st)[hash_key k := ps]\<rparr>"

text \<open>The scan of \<open>config_update_value\<close>: the first entry with that key and another value.\<close>

fun update_entry :: "bytes \<Rightarrow> bytes \<Rightarrow> config_pair list \<Rightarrow> config_pair list option" where
  "update_entry k v [] = None"
| "update_entry k v (mc # ps) =
     (if key mc = k \<and> val mc \<noteq> v then Some (mc\<lparr>val := v\<rparr> # ps)
      else map_option (Cons mc) (update_entry k v ps))"

definition config_update_value ::
  "bytes option \<Rightarrow> bytes option \<Rightarrow> config_state \<Rightarrow> (int \<times> config_state) option" where
  "config_update_value k v st =
     (case v of
        None \<Rightarrow> None
      | Some v \<Rightarrow>
          let val_len = length v + 1 in
          case k of
            None \<Rightarrow> Some (-1, st)
          | Some k \<Rightarrow>
              if val_len > CONFIG_VAL_SIZE then Some (-1, st)
              else if \<not> has_init st then None
              else (case update_entry k v (bucket st k) of
                      None \<Rightarrow> Some (-1, st)
                    | Some ps \<Rightarrow> Some (0, set_bucket k ps st)))"

text \<open>\<open>mal k v\<close>: the two \<open>malloc\<close>s for a new entry succeed.\<close>

definition config_append_value ::
  "(bytes \<Rightarrow> bytes \<Rightarrow> bool) \<Rightarrow> bytes option \<Rightarrow> bytes option \<Rightarrow> config_state \<Rightarrow> (int \<times> config_state) option" where
  "config_append_value mal k v st =
     (case v of
        None \<Rightarrow> None
      | Some v \<Rightarrow>
          let val_len = length v + 1 in
          case k of
            None \<Rightarrow> Some (-1, st)
          | Some k \<Rightarrow>
              if val_len > CONFIG_VAL_SIZE then Some (-1, st)
              else if \<not> has_init st then None
              else if \<exists>mc \<in> set (bucket st k). key mc = k then Some (-1, st)
              else if \<not> mal k v then Some (-1, st)
              else Some (0, set_bucket k (\<lparr>key = k, val = v\<rparr> # bucket st k) st))"

definition config_reset_or_add_value ::
  "(bytes \<Rightarrow> bytes \<Rightarrow> bool) \<Rightarrow> bytes option \<Rightarrow> bytes option \<Rightarrow> config_state \<Rightarrow> (int \<times> config_state) option" where
  "config_reset_or_add_value mal k v st =
     do { (r, st) \<leftarrow> config_append_value mal k v st;
          if r = -1 then do {
            (r, st) \<leftarrow> config_update_value k v st;
            if r = -1 then Some (-1, st) else Some (0, st) }
          else Some (0, st) }"

text \<open>\<open>Some None\<close> is the null pointer the code returns for an unknown key.\<close>

definition config_get_strval :: "bytes \<Rightarrow> config_state \<Rightarrow> bytes option option" where
  "config_get_strval k st =
     (if \<not> has_init st then None
      else Some (map_option val (find (\<lambda>mc. k = key mc) (bucket st k))))"

text \<open>
  \<open>atoi\<close> of the C library: blanks, a sign, digits; a value outside \<open>long\<close> is clamped,
  and the \<open>int\<close> result is the low 32 bits.
\<close>

definition is_space :: "u8 \<Rightarrow> bool" where
  "is_space c \<longleftrightarrow> c = 32 \<or> 9 \<le> c \<and> c \<le> 13"

definition is_digit :: "u8 \<Rightarrow> bool" where
  "is_digit c \<longleftrightarrow> 48 \<le> c \<and> c \<le> 57"

fun dec_value :: "int \<Rightarrow> bytes \<Rightarrow> int" where
  "dec_value acc [] = acc"
| "dec_value acc (c # s) = (if is_digit c then dec_value (acc * 10 + int (unat c) - 48) s else acc)"

definition strtol10 :: "bytes \<Rightarrow> int" where
  "strtol10 s =
     (let s = dropWhile is_space s;
          neg = (s \<noteq> [] \<and> hd s = 45);
          s = (if s \<noteq> [] \<and> (hd s = 45 \<or> hd s = 43) then tl s else s);
          v = (if neg then - dec_value 0 s else dec_value 0 s)
      in max (- (2 ^ 63)) (min (2 ^ 63 - 1) v))"

definition atoi :: "bytes \<Rightarrow> int" where
  "atoi s = signed_take_bit 31 (strtol10 s)"

definition config_get_intval :: "bytes \<Rightarrow> int \<Rightarrow> config_state \<Rightarrow> int option" where
  "config_get_intval k def st =
     do { v \<leftarrow> config_get_strval k st;
          Some (case v of None \<Rightarrow> def | Some v \<Rightarrow> atoi v) }"

section \<open>Parsing\<close>

text \<open>The separators of a configuration line.\<close>

definition myifs :: "u8 \<Rightarrow> bool" where
  "myifs c \<longleftrightarrow> c = 32 \<or> c = 9 \<or> c = 13 \<or> c = 10 \<or> c = 61"

text \<open>
  \<open>str_split\<close> on a line and a table of separators, none of them the 0 byte; \<open>i\<close> fields
  have been found already. The result lists the strings the \<open>field\<close> pointers point to
  once the terminators are written.
\<close>

function str_split_from :: "(u8 \<Rightarrow> bool) \<Rightarrow> bytes \<Rightarrow> nat \<Rightarrow> nat \<Rightarrow> bytes list" where
  "str_split_from ifs line n i =
     (let line = dropWhile ifs line in
      if line = [] then []
      else if i + 1 \<ge> n then [rev (dropWhile ifs (rev line))]
      else
        let w = takeWhile (\<lambda>c. \<not> ifs c) line;
            rest = dropWhile (\<lambda>c. \<not> ifs c) line
        in if rest = [] then [w] else w # str_split_from ifs (tl rest) n (i + 1))"
  by pat_completeness auto
termination
proof (relation "measure (\<lambda>(_, line, _, _). length line)", simp, goal_cases)
  case (1 ifs line n i l w rest)
  then have "length (tl rest) < length l" "length l \<le> length line"
    using length_tl_dropWhile [of "\<lambda>c. \<not> ifs c" l] length_dropWhile_le [of ifs line] by simp_all
  then show ?case by simp
qed

declare str_split_from.simps [simp del]

definition str_split :: "(u8 \<Rightarrow> bool) option \<Rightarrow> bytes \<Rightarrow> nat \<Rightarrow> bytes list" where
  "str_split ifs line n = str_split_from (case ifs of None \<Rightarrow> myifs | Some t \<Rightarrow> t) line n 0"

text \<open>The loop over the lines: the text before the next newline, and what follows it.\<close>

function parse_config ::
  "(bytes \<Rightarrow> bytes \<Rightarrow> bool) \<Rightarrow> bytes \<Rightarrow> config_state \<Rightarrow> (int \<times> config_state) option" where
  "parse_config mal start st =
     (if start = [] then Some (0, st)
      else
        let line = takeWhile (\<lambda>c. c \<noteq> 10) start;
            end = dropWhile (\<lambda>c. c \<noteq> 10) start;
            field = str_split (Some myifs) line 2
        in do {
          (r, st) \<leftarrow> (if hd start \<noteq> 35 \<and> length field = 2
                      then config_reset_or_add_value mal (Some (field ! 0)) (Some (field ! 1)) st
                      else Some (0, st));
          if r = -1 then Some (-1, st)
          else if end \<noteq> [] then parse_config mal (tl end) st
          else Some (0, st) })"
  by pat_completeness auto
termination
proof (relation "measure (\<lambda>(_, start, _). length start)", simp, goal_cases)
  case (1 mal start st line "end" field x st1)
  then show ?case using length_tl_dropWhile [of "\<lambda>c. c \<noteq> 10" start] by simp
qed

declare parse_config.simps [simp del]

section \<open>Loading, updating and leaving\<close>

text \<open>
  \<open>dofile\<close> runs a Lua file and lists the globals that are strings or numbers, as
  strings, in the order of \<open>lua_next\<close>; \<open>read_file\<close> is the content of a file that can be
  opened and mapped.
\<close>

fun lua_globals_loop ::
  "(bytes \<Rightarrow> bytes \<Rightarrow> bool) \<Rightarrow> (bytes \<times> bytes) list \<Rightarrow> config_state \<Rightarrow> (int \<times> config_state) option" where
  "lua_globals_loop mal [] st = Some (0, st)"
| "lua_globals_loop mal ((k, v) # gs) st =
     (if k \<noteq> [95, 86, 69, 82, 83, 73, 79, 78]
      then do { (r, st) \<leftarrow> config_reset_or_add_value mal (Some k) (Some v) st;
                if r = -1 then Some (-1, st) else lua_globals_loop mal gs st }
      else lua_globals_loop mal gs st)"

text \<open>\<open>_use_lua_config\<close>, the key every Lua configuration gets.\<close>

definition use_lua_key :: bytes where
  "use_lua_key = [95, 117, 115, 101, 95, 108, 117, 97, 95, 99, 111, 110, 102, 105, 103]"

definition lua_config_init ::
  "(bytes \<Rightarrow> bytes \<Rightarrow> bool) \<Rightarrow> (bytes \<Rightarrow> (bytes \<times> bytes) list option) \<Rightarrow> bytes \<Rightarrow> config_state \<Rightarrow>
   (int \<times> config_state) option" where
  "lua_config_init mal dofile file_name st =
     (case dofile file_name of
        None \<Rightarrow> Some (-1, st)
      | Some gs \<Rightarrow> do {
          (r, st) \<leftarrow> lua_globals_loop mal gs st;
          if r = -1 then Some (-1, st)
          else do { (_, st) \<leftarrow> config_reset_or_add_value mal (Some use_lua_key) (Some [49]) st;
                    Some (0, st) } })"

text \<open>The mapping is zero-filled past the file, so the text ends at its first 0 byte.\<close>

definition mmap_config_file :: "(bytes \<Rightarrow> bytes option) \<Rightarrow> bytes \<Rightarrow> int \<times> bytes" where
  "mmap_config_file read_file file_name =
     (case read_file file_name of
        None \<Rightarrow> (-1, [])
      | Some content \<Rightarrow> (int (length content) + 1, takeWhile (\<lambda>c. c \<noteq> 0) content))"

text \<open>The Lua state the call also creates is what \<open>dofile\<close> runs in.\<close>

definition set_config_use_lua :: "int \<Rightarrow> config_state \<Rightarrow> config_state" where
  "set_config_use_lua is_set st = st\<lparr>use_lua := is_set \<noteq> 0\<rparr>"

definition config_init ::
  "(bytes \<Rightarrow> bytes \<Rightarrow> bool) \<Rightarrow> (bytes \<Rightarrow> (bytes \<times> bytes) list option) \<Rightarrow> (bytes \<Rightarrow> bytes option) \<Rightarrow>
   bytes \<Rightarrow> config_state \<Rightarrow> (int \<times> config_state) option" where
  "config_init mal dofile read_file file_name st =
     (let st = (if has_init st then st
                else st\<lparr>ini_key_head := replicate (2 ^ INIKEY_HASHBITS) [], has_init := True\<rparr>) in
      if use_lua st then lua_config_init mal dofile file_name st
      else
        let (len, buf) = mmap_config_file read_file file_name in
        if len > 0 then parse_config mal buf st else Some (-1, st))"

definition config_update ::
  "(bytes \<Rightarrow> bytes \<Rightarrow> bool) \<Rightarrow> (bytes \<Rightarrow> (bytes \<times> bytes) list option) \<Rightarrow> (bytes \<Rightarrow> bytes option) \<Rightarrow>
   bytes \<Rightarrow> config_state \<Rightarrow> (int \<times> config_state) option" where
  "config_update mal dofile read_file file_name st = config_init mal dofile read_file file_name st"

text \<open>Every entry is freed; the table must be initialised anew before its next use.\<close>

definition config_exit :: "config_state \<Rightarrow> config_state" where
  "config_exit st =
     (if \<not> has_init st then st
      else st\<lparr>ini_key_head := replicate (2 ^ INIKEY_HASHBITS) [], has_init := False\<rparr>)"

section \<open>Walking through the table\<close>

definition config_dump_get_count :: "config_state \<Rightarrow> nat" where
  "config_dump_get_count st =
     (if \<not> has_init st then 0
      else foldl (\<lambda>total ps. foldl (\<lambda>n _. n + 1) total ps) 0 (ini_key_head st))"

definition config_dump_loop_reset :: "config_state \<Rightarrow> config_state" where
  "config_dump_loop_reset st = st\<lparr>dump_loop_index := 0, dump_loop_first_flag := 0\<rparr>"

text \<open>
  The iterator points into the ring of the bucket at \<open>dump_loop_index\<close>; it is kept as
  the number of entries from it to the end of that ring, which an insertion at the
  front does not change.
\<close>

function dump_loop_retry :: "config_state \<Rightarrow> (bytes \<times> bytes) option \<times> config_state" where
  "dump_loop_retry st =
     (let ps = ini_key_head st ! dump_loop_index st in
      if dump_loop_iter st \<noteq> 0 then
        let mc = ps ! (length ps - dump_loop_iter st) in
        (Some (key mc, val mc), st\<lparr>dump_loop_iter := dump_loop_iter st - 1\<rparr>)
      else if dump_loop_index st + 1 \<ge> 2 ^ INIKEY_HASHBITS then
        (None, st\<lparr>dump_loop_index := 0, dump_loop_first_flag := 0\<rparr>)
      else
        let i = dump_loop_index st + 1 in
        dump_loop_retry (st\<lparr>dump_loop_index := i, dump_loop_iter := length (ini_key_head st ! i)\<rparr>))"
  by pat_completeness auto
termination
  by (relation "measure (\<lambda>st. 2 ^ INIKEY_HASHBITS - dump_loop_index st)") auto

declare dump_loop_retry.simps [simp del]

text \<open>\<open>Some\<close> a pair is the return value 1 with both out-parameters set, \<open>None\<close> the value 0.\<close>

definition config_dump_loop_next :: "config_state \<Rightarrow> ((bytes \<times> bytes) option \<times> config_state) option" where
  "config_dump_loop_next st =
     (if \<not> has_init st then None
      else
        let st1 = (if dump_loop_first_flag st = 0
                   then st\<lparr>dump_loop_iter := length (ini_key_head st ! 0)\<rparr> else st)
        in Some (dump_loop_retry (st1\<lparr>dump_loop_first_flag := dump_loop_first_flag st + 1\<rparr>)))"


section \<open>The table as a map\<close>

lemma hash_key_less [simp]: "hash_key k < 256"
proof -
  have "hash_key k \<le> unat (255 :: u32)"
    unfolding hash_key_def INIKEY_HASHBITS_def
    by (rule word_le_nat_alt [THEN iffD1]) (simp add: word_and_le1 word_and_le2)
  then show ?thesis by simp
qed

definition pairs :: "config_pair list \<Rightarrow> (bytes \<times> bytes) list" where
  "pairs ps = map (\<lambda>mc. (key mc, val mc)) ps"

lemma pairs_simps [simp]:
  "pairs [] = []" "pairs (mc # ps) = (key mc, val mc) # pairs ps" "length (pairs ps) = length ps"
  "fst ` set (pairs ps) = key ` set ps"
  by (auto simp: pairs_def image_image)

definition bucket_ok :: "nat \<Rightarrow> config_pair list \<Rightarrow> bool" where
  "bucket_ok i ps \<longleftrightarrow> distinct (map key ps) \<and> (\<forall>mc \<in> set ps. hash_key (key mc) = i \<and> length (val mc) < 4096)"

definition cfg_ok :: "config_state \<Rightarrow> bool" where
  "cfg_ok st \<longleftrightarrow> has_init st \<and> length (ini_key_head st) = 256 \<and>
     (\<forall>i < 256. bucket_ok i (ini_key_head st ! i))"

definition cfg :: "config_state \<Rightarrow> bytes \<Rightarrow> bytes option" where
  "cfg st k = map_of (pairs (bucket st k)) k"

lemma find_map_of: "map_option val (find (\<lambda>mc. k = key mc) ps) = map_of (pairs ps) k"
  by (induction ps) auto

lemma config_get_strval_cfg: "cfg_ok st \<Longrightarrow> config_get_strval k st = Some (cfg st k)"
  by (simp add: config_get_strval_def cfg_ok_def cfg_def find_map_of)

lemma bucket_okD: "cfg_ok st \<Longrightarrow> bucket_ok (hash_key k) (bucket st k)"
  by (simp add: cfg_ok_def bucket_def)

lemma cfg_ok_set_bucket: "cfg_ok st \<Longrightarrow> bucket_ok (hash_key k) ps \<Longrightarrow> cfg_ok (set_bucket k ps st)"
  by (simp add: cfg_ok_def set_bucket_def nth_list_update)

lemma bucket_set_bucket:
  "cfg_ok st \<Longrightarrow> bucket (set_bucket k ps st) j = (if hash_key j = hash_key k then ps else bucket st j)"
  by (simp add: bucket_def set_bucket_def cfg_ok_def)

text \<open>A new bucket whose map differs at one key only changes the table at that key only.\<close>

lemma cfg_set_bucket:
  assumes "cfg_ok st" "map_of (pairs ps) = (map_of (pairs (bucket st k)))(k \<mapsto> v)"
  shows "cfg (set_bucket k ps st) = (cfg st)(k \<mapsto> v)"
proof
  fix j
  show "cfg (set_bucket k ps st) j = ((cfg st)(k \<mapsto> v)) j"
  proof (cases "hash_key j = hash_key k")
    case True
    then have "bucket st j = bucket st k" by (simp add: bucket_def)
    with True assms show ?thesis by (simp add: cfg_def bucket_set_bucket)
  next
    case False
    then have "j \<noteq> k" by auto
    with False assms(1) show ?thesis by (simp add: cfg_def bucket_set_bucket)
  qed
qed

lemma update_entry_map_of:
  "distinct (map key ps) \<Longrightarrow>
    (case update_entry k v ps of
       None \<Rightarrow> map_of (pairs ps) k = None \<or> map_of (pairs ps) k = Some v
     | Some ps' \<Rightarrow> map_of (pairs ps) k \<noteq> None \<and> map_of (pairs ps) k \<noteq> Some v \<and>
         map_of (pairs ps') = (map_of (pairs ps))(k \<mapsto> v) \<and> map key ps' = map key ps \<and>
         set (map val ps') \<subseteq> insert v (set (map val ps)))"
proof (induction ps)
  case Nil
  then show ?case by simp
next
  case (Cons mc ps)
  then have IH: "case update_entry k v ps of
       None \<Rightarrow> map_of (pairs ps) k = None \<or> map_of (pairs ps) k = Some v
     | Some ps' \<Rightarrow> map_of (pairs ps) k \<noteq> None \<and> map_of (pairs ps) k \<noteq> Some v \<and>
         map_of (pairs ps') = (map_of (pairs ps))(k \<mapsto> v) \<and> map key ps' = map key ps \<and>
         set (map val ps') \<subseteq> insert v (set (map val ps))" by simp
  show ?case
  proof (cases "key mc = k")
    case True
    then have n: "map_of (pairs ps) k = None" using Cons.prems by (auto simp: map_of_eq_None_iff)
    then have "update_entry k v ps = None" using IH by (auto split: option.splits)
    with True n show ?thesis by (auto simp: fun_upd_def fun_eq_iff)
  next
    case False
    with IH show ?thesis by (auto split: option.splits simp: fun_upd_twist)
  qed
qed

lemma bucket_ok_same_keys:
  assumes "bucket_ok i ps" "map key ps' = map key ps" "\<forall>w \<in> set (map val ps'). length w < 4096"
  shows "bucket_ok i ps'"
proof -
  have "key ` set ps' = key ` set ps" using assms(2) by (metis list.set_map)
  then have "hash_key (key mc) = i" if "mc \<in> set ps'" for mc
    using assms(1) that unfolding bucket_ok_def by (metis imageE imageI)
  with assms show ?thesis by (simp add: bucket_ok_def)
qed

section \<open>Clients of a store of settings\<close>

text \<open>
  What the parser relies on: two operations that add a new key and change the value of
  a known one, each refusing the other's case, an overlong value, and no change at all.
\<close>

fun load_all :: "('k \<Rightarrow> 'v \<Rightarrow> 's \<Rightarrow> (int \<times> 's) option) \<Rightarrow> ('k \<times> 'v) list \<Rightarrow> 's \<Rightarrow> (int \<times> 's) option" where
  "load_all put [] s = Some (0, s)"
| "load_all put ((k, v) # kvs) s =
     do { (r, s) \<leftarrow> put k v s; if r = -1 then Some (-1, s) else load_all put kvs s }"

definition put_or_change ::
  "('k \<Rightarrow> 'v \<Rightarrow> 's \<Rightarrow> (int \<times> 's) option) \<Rightarrow> ('k \<Rightarrow> 'v \<Rightarrow> 's \<Rightarrow> (int \<times> 's) option) \<Rightarrow>
   'k \<Rightarrow> 'v \<Rightarrow> 's \<Rightarrow> (int \<times> 's) option" where
  "put_or_change add change k v s =
     do { (r, s) \<leftarrow> add k v s;
          if r = -1 then do { (r, s) \<leftarrow> change k v s; if r = -1 then Some (-1, s) else Some (0, s) }
          else Some (0, s) }"

locale settings_store =
  fixes add change :: "'k \<Rightarrow> 'v \<Rightarrow> 's \<Rightarrow> (int \<times> 's) option"
    and get :: "'s \<Rightarrow> 'k \<Rightarrow> 'v option"
    and ok :: "'s \<Rightarrow> bool"
    and fits :: "'v \<Rightarrow> bool"
  assumes add_law: "ok s \<Longrightarrow> \<exists>r s'. add k v s = Some (r, s') \<and> ok s' \<and>
      (if fits v \<and> get s k = None then r = 0 \<and> get s' = (get s)(k \<mapsto> v) else r = -1 \<and> s' = s)"
    and change_law: "ok s \<Longrightarrow> \<exists>r s'. change k v s = Some (r, s') \<and> ok s' \<and>
      (if fits v \<and> get s k \<noteq> None \<and> get s k \<noteq> Some v
       then r = 0 \<and> get s' = (get s)(k \<mapsto> v) else r = -1 \<and> s' = s)"
begin

lemma put_law:
  assumes "ok s"
  shows "\<exists>r s'. put_or_change add change k v s = Some (r, s') \<and> ok s' \<and>
      (if fits v \<and> get s k \<noteq> Some v then r = 0 \<and> get s' = (get s)(k \<mapsto> v) else r = -1 \<and> s' = s)"
proof -
  obtain r s1 where a: "add k v s = Some (r, s1)" "ok s1"
    "if fits v \<and> get s k = None then r = 0 \<and> get s1 = (get s)(k \<mapsto> v) else r = -1 \<and> s1 = s"
    using add_law [OF assms] by blast
  show ?thesis
  proof (cases "fits v \<and> get s k = None")
    case True
    with a show ?thesis by (simp add: put_or_change_def)
  next
    case False
    with a have "r = -1" "s1 = s" by auto
    moreover obtain r2 s2 where "change k v s = Some (r2, s2)" "ok s2"
      "if fits v \<and> get s k \<noteq> None \<and> get s k \<noteq> Some v
       then r2 = 0 \<and> get s2 = (get s)(k \<mapsto> v) else r2 = -1 \<and> s2 = s"
      using change_law [OF assms] by blast
    ultimately show ?thesis using a(1) False by (auto simp: put_or_change_def split: if_splits)
  qed
qed

lemma load_ok:
  "ok s \<Longrightarrow> \<exists>r s'. load_all (put_or_change add change) kvs s = Some (r, s') \<and> ok s' \<and>
    (r = 0 \<and> get s' = get s ++ map_of (rev kvs) \<or>
     r = -1 \<and> (\<exists>k v before after. kvs = before @ (k, v) # after \<and>
       get s' = get s ++ map_of (rev before) \<and> (\<not> fits v \<or> get s' k = Some v)))"
proof (induction kvs arbitrary: s)
  case Nil
  then show ?case by simp
next
  case (Cons p kvs)
  obtain k v where p: "p = (k, v)" by fastforce
  from put_law [OF Cons.prems] obtain r1 s1 where
    s1: "put_or_change add change k v s = Some (r1, s1)" "ok s1"
    "if fits v \<and> get s k \<noteq> Some v then r1 = 0 \<and> get s1 = (get s)(k \<mapsto> v) else r1 = -1 \<and> s1 = s"
    by metis
  show ?case
  proof (cases "fits v \<and> get s k \<noteq> Some v")
    case True
    from Cons.IH [OF s1(2)] obtain r s' where
      s': "load_all (put_or_change add change) kvs s1 = Some (r, s')" "ok s'"
      "r = 0 \<and> get s' = get s1 ++ map_of (rev kvs) \<or>
       r = -1 \<and> (\<exists>k v before after. kvs = before @ (k, v) # after \<and>
         get s' = get s1 ++ map_of (rev before) \<and> (\<not> fits v \<or> get s' k = Some v))" by blast
    have e: "get s1 ++ map_of (rev xs) = get s ++ map_of (rev ((k, v) # xs))" for xs
      using True s1(3) by (auto simp: fun_eq_iff map_add_def split: option.split)
    have l: "load_all (put_or_change add change) (p # kvs) s = Some (r, s')"
      using s1 True s'(1) by (simp add: p)
    from s'(3) show ?thesis
    proof
      assume "r = 0 \<and> get s' = get s1 ++ map_of (rev kvs)"
      then have "r = 0" "get s' = get s ++ map_of (rev (p # kvs))" unfolding p by (simp_all only: e)
      with l s'(2) show ?thesis by blast
    next
      assume "r = -1 \<and> (\<exists>k v before after. kvs = before @ (k, v) # after \<and>
         get s' = get s1 ++ map_of (rev before) \<and> (\<not> fits v \<or> get s' k = Some v))"
      then obtain k' v' before after where "r = -1" "(k, v) # kvs = ((k, v) # before) @ (k', v') # after"
        "get s' = get s ++ map_of (rev ((k, v) # before))" "\<not> fits v' \<or> get s' k' = Some v'"
        using e by auto
      with l s'(2) show ?thesis unfolding p by blast
    qed
  next
    case False
    then have "(k, v) # kvs = [] @ (k, v) # kvs" "get s = get s ++ map_of (rev [])" "\<not> fits v \<or> get s k = Some v"
      by auto
    moreover have "load_all (put_or_change add change) (p # kvs) s = Some (-1, s)"
      using s1 False by (auto simp: p)
    ultimately show ?thesis using Cons.prems unfolding p by blast
  qed
qed

end

text \<open>The configuration table is such a store, when memory does not run out.\<close>

definition cfg_fits :: "bytes \<Rightarrow> bool" where
  "cfg_fits v \<longleftrightarrow> length v < 4096"

lemma config_append_law:
  assumes "cfg_ok st"
  shows "\<exists>r st'. config_append_value (\<lambda>_ _. True) (Some k) (Some v) st = Some (r, st') \<and> cfg_ok st' \<and>
    (if cfg_fits v \<and> cfg st k = None then r = 0 \<and> cfg st' = (cfg st)(k \<mapsto> v) else r = -1 \<and> st' = st)"
proof (cases "cfg_fits v \<and> cfg st k = None")
  case True
  let ?ps = "\<lparr>key = k, val = v\<rparr> # bucket st k"
  have "k \<notin> key ` set (bucket st k)" using True by (simp add: cfg_def map_of_eq_None_iff)
  then have "bucket_ok (hash_key k) ?ps" "\<not> (\<exists>mc \<in> set (bucket st k). key mc = k)"
    using bucket_okD [OF assms, of k] True by (auto simp: bucket_ok_def cfg_fits_def)
  moreover have "cfg (set_bucket k ?ps st) = (cfg st)(k \<mapsto> v)"
    by (rule cfg_set_bucket [OF assms]) simp
  ultimately show ?thesis
    using True assms cfg_ok_set_bucket [OF assms, of k ?ps]
    by (simp add: config_append_value_def cfg_fits_def CONFIG_VAL_SIZE_def Let_def cfg_ok_def)
next
  case False
  moreover have "cfg st k \<noteq> None \<longleftrightarrow> (\<exists>mc \<in> set (bucket st k). key mc = k)"
    by (auto simp: cfg_def map_of_eq_None_iff)
  ultimately show ?thesis
    using assms by (auto simp: config_append_value_def cfg_fits_def CONFIG_VAL_SIZE_def Let_def cfg_ok_def)
qed

lemma config_update_law:
  assumes "cfg_ok st"
  shows "\<exists>r st'. config_update_value (Some k) (Some v) st = Some (r, st') \<and> cfg_ok st' \<and>
    (if cfg_fits v \<and> cfg st k \<noteq> None \<and> cfg st k \<noteq> Some v
     then r = 0 \<and> cfg st' = (cfg st)(k \<mapsto> v) else r = -1 \<and> st' = st)"
proof -
  have b: "bucket_ok (hash_key k) (bucket st k)" by (rule bucket_okD [OF assms])
  have i: "has_init st" using assms by (simp add: cfg_ok_def)
  note u = update_entry_map_of [of "bucket st k" k v]
  show ?thesis
  proof (cases "cfg_fits v")
    case False
    then show ?thesis using assms by (simp add: config_update_value_def cfg_fits_def CONFIG_VAL_SIZE_def Let_def)
  next
    case True
    show ?thesis
    proof (cases "update_entry k v (bucket st k)")
      case None
      then show ?thesis using u b i assms
        by (auto simp: config_update_value_def bucket_ok_def cfg_def CONFIG_VAL_SIZE_def Let_def)
    next
      case (Some ps)
      then have p: "map_of (pairs (bucket st k)) k \<noteq> None" "map_of (pairs (bucket st k)) k \<noteq> Some v"
        "map_of (pairs ps) = (map_of (pairs (bucket st k)))(k \<mapsto> v)" "map key ps = map key (bucket st k)"
        "set (map val ps) \<subseteq> insert v (set (map val (bucket st k)))"
        using u b by (auto simp: bucket_ok_def)
      have "\<forall>w \<in> set (map val ps). length w < 4096"
        using p(5) b True by (fastforce simp: bucket_ok_def cfg_fits_def)
      then have "cfg_ok (set_bucket k ps st)"
        by (intro cfg_ok_set_bucket assms bucket_ok_same_keys [OF b p(4)])
      moreover have "cfg (set_bucket k ps st) = (cfg st)(k \<mapsto> v)" by (rule cfg_set_bucket [OF assms p(3)])
      ultimately show ?thesis using Some True i p(1,2)
        by (simp add: config_update_value_def cfg_fits_def cfg_def CONFIG_VAL_SIZE_def Let_def)
    qed
  qed
qed

abbreviation cfg_add :: "bytes \<Rightarrow> bytes \<Rightarrow> config_state \<Rightarrow> (int \<times> config_state) option" where
  "cfg_add k v \<equiv> config_append_value (\<lambda>_ _. True) (Some k) (Some v)"

abbreviation cfg_change :: "bytes \<Rightarrow> bytes \<Rightarrow> config_state \<Rightarrow> (int \<times> config_state) option" where
  "cfg_change k v \<equiv> config_update_value (Some k) (Some v)"

interpretation conf: settings_store cfg_add cfg_change cfg cfg_ok cfg_fits
  by unfold_locales (fact config_append_law config_update_law)+

lemma config_reset_or_add_eq:
  "config_reset_or_add_value (\<lambda>_ _. True) (Some k) (Some v) = put_or_change cfg_add cfg_change k v"
  by (rule ext) (simp add: config_reset_or_add_value_def put_or_change_def)

section \<open>What the parser reads\<close>

text \<open>The settings of a configuration text, in order.\<close>

definition line_setting :: "bytes \<Rightarrow> (bytes \<times> bytes) list" where
  "line_setting line =
     (case str_split (Some myifs) line 2 of
        [k, v] \<Rightarrow> if line \<noteq> [] \<and> hd line = 35 then [] else [(k, v)]
      | _ \<Rightarrow> [])"

function settings :: "bytes \<Rightarrow> (bytes \<times> bytes) list" where
  "settings s =
     (if s = [] then []
      else line_setting (takeWhile (\<lambda>c. c \<noteq> 10) s) @
        (let e = dropWhile (\<lambda>c. c \<noteq> 10) s in if e = [] then [] else settings (tl e)))"
  by pat_completeness auto
termination
proof (relation "measure length", simp, goal_cases)
  case (1 s x)
  then show ?case using length_tl_dropWhile [of "\<lambda>c. c \<noteq> 10" s] by simp
qed

declare settings.simps [simp del]

lemma load_all_append:
  "load_all put (xs @ ys) s =
    do { (r, s) \<leftarrow> load_all put xs s; if r = -1 then Some (-1, s) else load_all put ys s }"
proof (induction put xs s rule: load_all.induct)
  case (2 put k v kvs s)
  then show ?case by (cases "put k v s") auto
qed simp

lemma load_all_result: "load_all put kvs s = Some (r, s') \<Longrightarrow> r = 0 \<or> r = -1"
  by (induction put kvs s rule: load_all.induct) (auto elim!: bind_eq_SomeE split: if_splits)

lemma reset_or_add_code:
  "(case config_reset_or_add_value mal k v st of
      None \<Rightarrow> None | Some (r, st) \<Rightarrow> if r = -1 then Some (-1, st) else Some (0, st)) =
    config_reset_or_add_value mal k v st"
  by (auto simp: config_reset_or_add_value_def split: option.splits bind_splits if_splits prod.splits)

lemma parse_line:
  assumes "start \<noteq> []"
  shows "(if hd start \<noteq> 35 \<and> length (str_split (Some myifs) (takeWhile (\<lambda>c. c \<noteq> 10) start) 2) = 2
        then config_reset_or_add_value mal
          (Some (str_split (Some myifs) (takeWhile (\<lambda>c. c \<noteq> 10) start) 2 ! 0))
          (Some (str_split (Some myifs) (takeWhile (\<lambda>c. c \<noteq> 10) start) 2 ! 1)) st
        else Some (0, st)) =
    load_all (\<lambda>k v. config_reset_or_add_value mal (Some k) (Some v))
      (line_setting (takeWhile (\<lambda>c. c \<noteq> 10) start)) st"
proof -
  let ?line = "takeWhile (\<lambda>c. c \<noteq> 10) start"
  have c: "?line \<noteq> [] \<and> hd ?line = 35 \<longleftrightarrow> hd start = 35" using assms by (cases start) auto
  show ?thesis
  proof (cases "length (str_split (Some myifs) ?line 2) = 2")
    case True
    then obtain k v where "str_split (Some myifs) ?line 2 = [k, v]"
      by (auto simp: numeral_2_eq_2 length_Suc_conv)
    then show ?thesis
      using reset_or_add_code [of mal "Some k" "Some v" st]
      by (auto simp: line_setting_def c split: option.splits)
  next
    case False
    then have "line_setting ?line = []" by (auto simp: line_setting_def split: list.splits)
    with False show ?thesis by simp
  qed
qed

lemma parse_config_load:
  "parse_config mal buf st =
    load_all (\<lambda>k v. config_reset_or_add_value mal (Some k) (Some v)) (settings buf) st"
proof (induction mal buf st rule: parse_config.induct)
  case (1 mal start st)
  let ?put = "\<lambda>k v. config_reset_or_add_value mal (Some k) (Some v)"
  let ?ls = "line_setting (takeWhile (\<lambda>c. c \<noteq> 10) start)"
  let ?e = "dropWhile (\<lambda>c. c \<noteq> 10) start"
  show ?case
  proof (cases "start = []")
    case True
    then show ?thesis by (simp add: parse_config.simps settings.simps)
  next
    case False
    note p = parse_line [OF False, of mal st]
    have IH: "parse_config mal (tl ?e) st1 = load_all ?put (settings (tl ?e)) st1"
      if "load_all ?put ?ls st = Some (r, st1)" "r \<noteq> -1" "?e \<noteq> []" for r st1
      using "1.IH" [OF False refl refl refl, of "(r, st1)" r st1] that p by simp
    have "parse_config mal start st =
      do { (r, st) \<leftarrow> load_all ?put ?ls st;
           if r = -1 then Some (-1, st)
           else if ?e \<noteq> [] then parse_config mal (tl ?e) st else Some (0, st) }"
      using False by (subst parse_config.simps) (simp only: Let_def p if_False)
    moreover have "settings start = ?ls @ (if ?e = [] then [] else settings (tl ?e))"
      using False by (subst settings.simps) (simp only: Let_def if_False)
    ultimately show ?thesis
      using IH load_all_result [of ?put ?ls st]
      by (cases "load_all ?put ?ls st") (auto simp: load_all_append)
  qed
qed

section \<open>Printing settings\<close>

definition print_config :: "(bytes \<times> bytes) list \<Rightarrow> bytes" where
  "print_config kvs = concat (map (\<lambda>(k, v). k @ [61] @ v @ [10]) kvs)"

definition good_key :: "bytes \<Rightarrow> bool" where
  "good_key k \<longleftrightarrow> k \<noteq> [] \<and> list_all (\<lambda>c. \<not> myifs c) k \<and> hd k \<noteq> 35"

definition good_val :: "bytes \<Rightarrow> bool" where
  "good_val v \<longleftrightarrow> v \<noteq> [] \<and> list_all (\<lambda>c. c \<noteq> 10) v \<and> \<not> myifs (hd v) \<and> \<not> myifs (last v)"

lemma dropWhile_hd: "xs = [] \<or> \<not> P (hd xs) \<Longrightarrow> dropWhile P xs = xs"
  by (cases xs) auto

lemma str_split_setting:
  assumes "good_key k" "good_val v"
  shows "str_split (Some myifs) (k @ [61] @ v) 2 = [k, v]"
proof -
  have k: "takeWhile (\<lambda>c. \<not> myifs c) (k @ 61 # v) = k" "dropWhile (\<lambda>c. \<not> myifs c) (k @ 61 # v) = 61 # v"
    using assms(1) by (simp_all add: good_key_def list_all_iff takeWhile_append2 dropWhile_append2 myifs_def)
  have d: "dropWhile myifs (k @ 61 # v) = k @ 61 # v"
    by (rule dropWhile_hd) (use assms(1) in \<open>cases k; simp add: good_key_def\<close>)
  have v: "dropWhile myifs v = v" "rev (dropWhile myifs (rev v)) = v" "v \<noteq> []"
    using assms(2) by (auto simp: good_val_def dropWhile_hd hd_rev)
  have "str_split_from myifs v 2 (Suc 0) = [v]"
    using v by (subst str_split_from.simps) simp
  then show ?thesis
    unfolding str_split_def by (subst str_split_from.simps) (simp add: d k)
qed

lemma settings_setting:
  assumes "good_key k" "good_val v"
  shows "settings (k @ [61] @ v @ [10] @ rest) = (k, v) # settings rest"
proof -
  have n: "c \<noteq> 10" if "c \<in> set (k @ [61] @ v)" for c
    using that assms by (auto simp: good_key_def good_val_def list_all_iff myifs_def)
  have t: "takeWhile (\<lambda>c. c \<noteq> 10) ((k @ [61] @ v) @ 10 # rest) = k @ [61] @ v"
    "dropWhile (\<lambda>c. c \<noteq> 10) ((k @ [61] @ v) @ 10 # rest) = 10 # rest"
    by (subst takeWhile_append2, erule n, simp) (subst dropWhile_append2, erule n, simp)
  have "hd (k @ [61] @ v) \<noteq> 35" using assms(1) by (cases k) (auto simp: good_key_def)
  then have l: "line_setting (k @ [61] @ v) = [(k, v)]"
    by (simp only: line_setting_def str_split_setting [OF assms] list.case) simp
  have "settings ((k @ [61] @ v) @ 10 # rest) = (k, v) # settings rest"
    by (subst settings.simps) (simp only: t l Let_def, simp)
  then show ?thesis by simp
qed

lemma settings_print:
  "list_all (\<lambda>(k, v). good_key k \<and> good_val v) kvs \<Longrightarrow> settings (print_config kvs) = kvs"
proof (induction kvs)
  case Nil
  then show ?case by (simp add: print_config_def settings.simps)
next
  case (Cons p kvs)
  obtain k v where p: "p = (k, v)" by fastforce
  have "print_config (p # kvs) = k @ [61] @ v @ [10] @ print_config kvs" by (simp add: print_config_def p)
  with Cons show ?case by (simp only: settings_setting p list.pred_inject prod.case)
qed

section \<open>The dump loop\<close>

definition dump_rest :: "config_state \<Rightarrow> (bytes \<times> bytes) list" where
  "dump_rest st =
     (let ps = ini_key_head st ! dump_loop_index st
      in pairs (drop (length ps - dump_loop_iter st) ps) @
         concat (map pairs (drop (dump_loop_index st + 1) (ini_key_head st))))"

definition dump_ok :: "config_state \<Rightarrow> bool" where
  "dump_ok st \<longleftrightarrow> has_init st \<and> length (ini_key_head st) = 256 \<and> dump_loop_index st < 256 \<and>
     dump_loop_iter st \<le> length (ini_key_head st ! dump_loop_index st)"

lemma dump_loop_retry_step:
  "dump_ok st \<Longrightarrow>
    (case dump_rest st of
       [] \<Rightarrow> dump_loop_retry st = (None, config_dump_loop_reset (st\<lparr>dump_loop_iter := 0\<rparr>))
     | p # ps \<Rightarrow> \<exists>st'. dump_loop_retry st = (Some p, st') \<and> dump_ok st' \<and> dump_rest st' = ps \<and>
         ini_key_head st' = ini_key_head st \<and> dump_loop_first_flag st' = dump_loop_first_flag st)"
proof (induction st rule: dump_loop_retry.induct)
  case (1 st)
  let ?i = "dump_loop_index st" and ?n = "dump_loop_iter st" and ?H = "ini_key_head st"
  show ?case
  proof (cases "?n = 0")
    case False
    let ?k = "length (?H ! ?i) - ?n"
    have k: "?k < length (?H ! ?i)" using 1 False by (auto simp: dump_ok_def)
    have "drop ?k (?H ! ?i) = ?H ! ?i ! ?k # drop (Suc ?k) (?H ! ?i)" by (rule Cons_nth_drop_Suc [OF k, symmetric])
    moreover have "Suc ?k = length (?H ! ?i) - (?n - 1)" using 1 False by (auto simp: dump_ok_def)
    ultimately show ?thesis using 1 False
      by (subst dump_loop_retry.simps) (auto simp: dump_rest_def Let_def dump_ok_def)
  next
    case True
    show ?thesis
    proof (cases "?i + 1 \<ge> 256")
      case last: True
      then have "dump_rest st = []" using True "1.prems" by (simp add: dump_rest_def dump_ok_def)
      with last True show ?thesis
        by (subst dump_loop_retry.simps) (simp add: INIKEY_HASHBITS_def config_dump_loop_reset_def)
    next
      case more: False
      let ?st = "st\<lparr>dump_loop_index := ?i + 1, dump_loop_iter := length (?H ! (?i + 1))\<rparr>"
      have i: "Suc ?i < length ?H" using more "1.prems" by (simp add: dump_ok_def)
      have ok: "dump_ok ?st" using more "1.prems" by (simp add: dump_ok_def)
      have r: "dump_rest ?st = dump_rest st"
        using True by (simp add: dump_rest_def Cons_nth_drop_Suc [OF i, symmetric] del: Cons_nth_drop_Suc)
      have e: "dump_loop_retry st = dump_loop_retry ?st"
        using True more by (subst dump_loop_retry.simps) (simp add: INIKEY_HASHBITS_def)
      have "case dump_rest ?st of
         [] \<Rightarrow> dump_loop_retry ?st = (None, config_dump_loop_reset (?st\<lparr>dump_loop_iter := 0\<rparr>))
       | p # ps \<Rightarrow> \<exists>st'. dump_loop_retry ?st = (Some p, st') \<and> dump_ok st' \<and> dump_rest st' = ps \<and>
           ini_key_head st' = ini_key_head ?st \<and> dump_loop_first_flag st' = dump_loop_first_flag ?st"
        by (rule "1.IH" [OF refl _ _ refl ok]) (use True more in \<open>simp_all add: INIKEY_HASHBITS_def\<close>)
      then show ?thesis unfolding r e by (cases "dump_rest st") (simp_all add: config_dump_loop_reset_def)
    qed
  qed
qed

text \<open>Calling \<open>config_dump_loop_next\<close> a number of times.\<close>

fun dump_calls :: "nat \<Rightarrow> config_state \<Rightarrow> ((bytes \<times> bytes) option list \<times> config_state) option" where
  "dump_calls 0 st = Some ([], st)"
| "dump_calls (Suc n) st =
     do { (p, st) \<leftarrow> config_dump_loop_next st; (ps, st) \<leftarrow> dump_calls n st; Some (p # ps, st) }"

lemma dump_calls_rest:
  "config_dump_loop_next st = Some (dump_loop_retry st1) \<Longrightarrow> dump_ok st1 \<Longrightarrow> dump_loop_first_flag st1 \<noteq> 0 \<Longrightarrow>
    \<exists>st'. dump_calls (Suc (length (dump_rest st1))) st = Some (map Some (dump_rest st1) @ [None], st') \<and>
      ini_key_head st' = ini_key_head st1 \<and> dump_loop_index st' = 0 \<and> dump_loop_first_flag st' = 0"
proof (induction "dump_rest st1" arbitrary: st st1)
  case Nil
  with dump_loop_retry_step [OF Nil(3)] show ?case
    by (simp add: config_dump_loop_reset_def flip: Nil(1))
next
  case (Cons p ps)
  from dump_loop_retry_step [OF Cons(4)] Cons(2) [symmetric] obtain st' where
    st': "dump_loop_retry st1 = (Some p, st')" "dump_ok st'" "dump_rest st' = ps"
    "ini_key_head st' = ini_key_head st1" "dump_loop_first_flag st' = dump_loop_first_flag st1" by auto
  let ?st = "st'\<lparr>dump_loop_first_flag := dump_loop_first_flag st' + 1\<rparr>"
  have s: "dump_ok ?st" "dump_rest ?st = ps" "dump_loop_first_flag ?st \<noteq> 0"
    using st' by (simp_all add: dump_ok_def dump_rest_def)
  have n: "config_dump_loop_next st' = Some (dump_loop_retry ?st)"
    using st'(2,5) Cons(5) by (simp add: config_dump_loop_next_def dump_ok_def)
  from Cons(1) [OF s(2) [symmetric] n s(1,3)] s(2) st'(4) obtain st2 where
    "dump_calls (Suc (length ps)) st' = Some (map Some ps @ [None], st2)"
    "ini_key_head st2 = ini_key_head st1" "dump_loop_index st2 = 0" "dump_loop_first_flag st2 = 0" by auto
  then show ?case
    using st'(1) Cons(2) [symmetric] Cons(3) dump_calls.simps(2) [of "Suc (length ps)" st]
    by (simp del: dump_calls.simps)
qed

lemma foldl_count: "foldl (\<lambda>n _. n + 1) (t :: nat) ps = t + length ps"
  by (induction ps arbitrary: t) auto

lemma config_dump_get_count_eq:
  "has_init st \<Longrightarrow> config_dump_get_count st = length (concat (map pairs (ini_key_head st)))" (is "_ \<Longrightarrow> ?thesis")
proof -
  have "foldl (foldl (\<lambda>n _. n + 1)) (t :: nat) H = t + length (concat (map pairs H))"
    for t and H :: "config_pair list list"
    by (induction H arbitrary: t) (simp_all only: foldl.simps foldl_count, simp_all)
  from this [of 0 "ini_key_head st"]
  show "has_init st \<Longrightarrow> ?thesis" by (simp add: config_dump_get_count_def)
qed

lemma buckets_distinct:
  "\<forall>i < length H. bucket_ok (n + i) (H ! i) \<Longrightarrow>
    distinct (map fst (concat (map pairs H))) \<and> (\<forall>p \<in> set (concat (map pairs H)). n \<le> hash_key (fst p))"
proof (induction H arbitrary: n)
  case Nil
  then show ?case by simp
next
  case (Cons ps H)
  have p: "bucket_ok n ps" using Cons.prems by (auto dest: spec [of _ 0])
  have "\<forall>i < length H. bucket_ok (Suc n + i) (H ! i)"
  proof (intro allI impI)
    fix i assume "i < length H"
    then show "bucket_ok (Suc n + i) (H ! i)" using Cons.prems [rule_format, of "Suc i"] by simp
  qed
  note IH = Cons.IH [OF this]
  have f: "map fst (pairs ps) = map key ps" by (simp add: pairs_def)
  have h: "hash_key k = n" if "k \<in> key ` set ps" for k using p that by (auto simp: bucket_ok_def)
  have "key ` set ps \<inter> fst ` set (concat (map pairs H)) = {}"
    using IH h by fastforce
  then have "distinct (map fst (concat (map pairs (ps # H))))"
    using IH p f by (simp add: bucket_ok_def)
  moreover have "n \<le> hash_key (fst q)" if "q \<in> set (concat (map pairs (ps # H)))" for q
    using that IH h by (fastforce simp: pairs_def)
  ultimately show ?case by blast
qed

lemma cfg_concat:
  assumes "cfg_ok st"
  shows "map_of (concat (map pairs (ini_key_head st))) = cfg st"
    and "distinct (map fst (concat (map pairs (ini_key_head st))))"
proof -
  let ?L = "concat (map pairs (ini_key_head st))"
  show d: "distinct (map fst ?L)"
    using buckets_distinct [of "ini_key_head st" 0] assms by (simp add: cfg_ok_def)
  have db: "distinct (map fst (pairs (bucket st k)))" for k
    using bucket_okD [OF assms, of k] by (simp add: bucket_ok_def pairs_def comp_def)
  have m: "(k, v) \<in> set ?L \<longleftrightarrow> (k, v) \<in> set (pairs (bucket st k))" for k v
  proof
    assume "(k, v) \<in> set ?L"
    then obtain ps where "ps \<in> set (ini_key_head st)" "(k, v) \<in> set (pairs ps)" by auto
    then obtain i where i: "i < 256" "(k, v) \<in> set (pairs (ini_key_head st ! i))"
      using assms by (metis cfg_ok_def in_set_conv_nth)
    then have "hash_key k = i" using assms by (auto simp: cfg_ok_def bucket_ok_def pairs_def)
    with i show "(k, v) \<in> set (pairs (bucket st k))" by (simp add: bucket_def)
  next
    assume "(k, v) \<in> set (pairs (bucket st k))"
    moreover have "bucket st k \<in> set (ini_key_head st)" using assms by (simp add: bucket_def cfg_ok_def)
    ultimately show "(k, v) \<in> set ?L" by auto
  qed
  have "map_of ?L k = Some v \<longleftrightarrow> cfg st k = Some v" for k v
    unfolding cfg_def map_of_eq_Some_iff [OF d] map_of_eq_Some_iff [OF db] by (rule m)
  then show "map_of ?L = cfg st" by (intro ext) (metis not_None_eq)
qed

section \<open>Properties\<close>

definition empty_config :: config_state where
  "empty_config = \<lparr>has_init = True, ini_key_head = replicate 256 [], use_lua = False,
     dump_loop_index = 0, dump_loop_first_flag = 0, dump_loop_iter = 0\<rparr>"

lemma empty_config_ok: "cfg_ok empty_config"
  by (simp add: cfg_ok_def empty_config_def bucket_ok_def)

lemma cfg_empty: "cfg empty_config = Map.empty"
  by (rule ext) (simp add: cfg_def bucket_def empty_config_def)

text \<open>
  On a well-formed table \<open>config_reset_or_add_value\<close> succeeds exactly when the value
  fits and differs from the one in force; the key then has the new value and every other
  key its old one, whatever the hash collisions. Setting a key to the value it already
  has is reported as an error.
\<close>

theorem config_reset_or_add_refines:
  assumes "cfg_ok st"
  shows "\<exists>r st'. config_reset_or_add_value (\<lambda>_ _. True) (Some k) (Some v) st = Some (r, st') \<and> cfg_ok st' \<and>
    (if length v < 4096 \<and> cfg st k \<noteq> Some v
     then r = 0 \<and> cfg st' = (cfg st)(k \<mapsto> v) else r = -1 \<and> st' = st)"
  using conf.put_law [OF assms, of k v] by (simp add: config_reset_or_add_eq cfg_fits_def)

theorem config_reset_or_add_refines_witness:
  "\<exists>st'. config_reset_or_add_value (\<lambda>_ _. True) (Some [97]) (Some [49]) empty_config = Some (0, st') \<and>
    cfg st' = [[97] \<mapsto> [49]]"
  using config_reset_or_add_refines [OF empty_config_ok, of "[97]" "[49]"] by (auto simp: cfg_empty)

text \<open>
  C23: loading a text never fails to return. If it returns 0, the last setting of every
  key in the text is in force and the keys the text does not set keep their values; if it
  returns -1, then some setting was overlong or set the value already in force, exactly
  the settings before it are in force, and the rest of the text was ignored.
\<close>

theorem parse_config_refines:
  assumes "cfg_ok st"
  shows "\<exists>r st'. parse_config (\<lambda>_ _. True) buf st = Some (r, st') \<and> cfg_ok st' \<and>
    (r = 0 \<and> cfg st' = cfg st ++ map_of (rev (settings buf)) \<or>
     r = -1 \<and> (\<exists>k v before after. settings buf = before @ (k, v) # after \<and>
       cfg st' = cfg st ++ map_of (rev before) \<and> (length v \<ge> 4096 \<or> cfg st' k = Some v)))"
  using conf.load_ok [OF assms, of "settings buf"]
  by (simp add: parse_config_load config_reset_or_add_eq cfg_fits_def linorder_not_less)

theorem parse_config_refines_witness:
  "\<exists>r st'. parse_config (\<lambda>_ _. True) (print_config [([97], [49])]) empty_config = Some (r, st') \<and> cfg_ok st'"
  using parse_config_refines [OF empty_config_ok, of "print_config [([97], [49])]"] by blast

text \<open>
  A text written line by line as \<open>key=value\<close> is read back as exactly those settings,
  when the keys hold no separator and do not start a comment, and the values are single
  lines without separators at their ends.
\<close>

theorem parse_print_config:
  assumes "list_all (\<lambda>(k, v). good_key k \<and> good_val v \<and> length v < 4096) kvs" "distinct (map fst kvs)"
    "cfg_ok st" "cfg st = Map.empty"
  shows "\<exists>st'. parse_config (\<lambda>_ _. True) (print_config kvs) st = Some (0, st') \<and> cfg_ok st' \<and>
    cfg st' = map_of kvs"
proof -
  have s: "settings (print_config kvs) = kvs"
    by (rule settings_print) (use assms(1) in \<open>auto simp: list_all_iff\<close>)
  from conf.load_ok [OF assms(3), of kvs] obtain r st' where
    st': "load_all (put_or_change cfg_add cfg_change) kvs st = Some (r, st')" "cfg_ok st'"
    "r = 0 \<and> cfg st' = cfg st ++ map_of (rev kvs) \<or>
     r = -1 \<and> (\<exists>k v before after. kvs = before @ (k, v) # after \<and>
       cfg st' = cfg st ++ map_of (rev before) \<and> (\<not> cfg_fits v \<or> cfg st' k = Some v))" by blast
  have "cfg_fits v \<and> map_of (rev before) k \<noteq> Some v" if "kvs = before @ (k, v) # after" for k v before after
  proof -
    have "k \<notin> fst ` set (rev before)" using assms(2) that by auto
    then have "map_of (rev before) k = None" by (simp add: map_of_eq_None_iff)
    then show ?thesis using assms(1) that by (simp add: cfg_fits_def)
  qed
  with st'(3) assms(4) have "r = 0" "cfg st' = map_of (rev kvs)" by auto
  moreover have "map_of (rev kvs) = map_of kvs"
    using assms(2) by (intro map_of_eqI) (auto simp: rev_map [symmetric] distinct_map)
  ultimately show ?thesis
    using st'(1,2) by (simp add: parse_config_load config_reset_or_add_eq s)
qed

theorem parse_print_config_witness:
  "\<exists>st'. parse_config (\<lambda>_ _. True) (print_config [([97, 98], [49, 32, 50]), ([99], [51])]) empty_config =
    Some (0, st') \<and> cfg_ok st' \<and> cfg st' = map_of [([97, 98], [49, 32, 50]), ([99], [51])]"
  by (rule parse_print_config [OF _ _ empty_config_ok cfg_empty])
     (simp_all add: good_key_def good_val_def myifs_def)

text \<open>
  Loading a text a second time, as \<open>config_update\<close> does with a file that has not
  changed, fails at its first setting as soon as there is one and no key occurs twice.
\<close>

theorem config_update_unchanged_fails:
  assumes "cfg_ok st" "parse_config (\<lambda>_ _. True) buf st = Some (0, st')"
    "settings buf \<noteq> []" "distinct (map fst (settings buf))"
  shows "parse_config (\<lambda>_ _. True) buf st' = Some (-1, st')"
proof -
  obtain k v kvs where s: "settings buf = (k, v) # kvs" using assms(3) by (cases "settings buf") auto
  from conf.load_ok [OF assms(1), of "settings buf"] assms(2) have
    st': "cfg_ok st'" "cfg st' = cfg st ++ map_of (rev (settings buf))"
    by (auto simp: parse_config_load config_reset_or_add_eq)
  have "k \<notin> fst ` set (rev kvs)" using assms(4) s by auto
  then have "map_of (rev kvs) k = None" by (simp add: map_of_eq_None_iff)
  then have "cfg st' k = Some v" using st'(2) s by (simp add: map_add_def)
  with conf.put_law [OF st'(1), of k v]
  have "put_or_change cfg_add cfg_change k v st' = Some (-1, st')" by auto
  then show ?thesis by (simp add: parse_config_load config_reset_or_add_eq s)
qed

lemma load_one:
  "\<exists>st'. parse_config (\<lambda>_ _. True) (print_config [([97], [49])]) empty_config = Some (0, st')"
proof -
  have s: "settings (print_config [([97], [49])]) = [([97], [49])]"
    by (rule settings_print) (simp add: good_key_def good_val_def myifs_def)
  show ?thesis
    using conf.put_law [OF empty_config_ok, of "[97]" "[49]"]
    by (auto simp: parse_config_load config_reset_or_add_eq s cfg_empty cfg_fits_def)
qed

theorem config_update_unchanged_fails_witness:
  "\<exists>st'. parse_config (\<lambda>_ _. True) (print_config [([97], [49])]) empty_config = Some (0, st') \<and>
    parse_config (\<lambda>_ _. True) (print_config [([97], [49])]) st' = Some (-1, st')"
proof -
  have s: "settings (print_config [([97], [49])]) = [([97], [49])]"
    by (rule settings_print) (simp add: good_key_def good_val_def myifs_def)
  obtain st' where "parse_config (\<lambda>_ _. True) (print_config [([97], [49])]) empty_config = Some (0, st')"
    using load_one by blast
  with config_update_unchanged_fails [OF empty_config_ok this] s show ?thesis by auto
qed

text \<open>
  After a reset, calling the dump function once per entry and once more hands out
  every setting of the table exactly once, as many as \<open>config_dump_get_count\<close> says, then
  answers 0 and is ready to start over.
\<close>

theorem config_dump_complete:
  assumes "cfg_ok st"
  shows "\<exists>st'. dump_calls (config_dump_get_count st + 1) (config_dump_loop_reset st) =
      Some (map Some (concat (map pairs (ini_key_head st))) @ [None], st') \<and>
    map_of (concat (map pairs (ini_key_head st))) = cfg st \<and>
    distinct (map fst (concat (map pairs (ini_key_head st)))) \<and>
    ini_key_head st' = ini_key_head st \<and> dump_loop_index st' = 0 \<and> dump_loop_first_flag st' = 0"
proof -
  let ?r = "config_dump_loop_reset st"
  let ?s = "?r\<lparr>dump_loop_iter := length (ini_key_head st ! 0), dump_loop_first_flag := 1\<rparr>"
  have i: "has_init st" "length (ini_key_head st) = 256" using assms by (simp_all add: cfg_ok_def)
  then obtain ps H where H: "ini_key_head st = ps # H" by (cases "ini_key_head st") auto
  have "dump_ok ?s" using i by (simp add: dump_ok_def config_dump_loop_reset_def)
  moreover have rest: "dump_rest ?s = concat (map pairs (ini_key_head st))"
    by (simp add: dump_rest_def config_dump_loop_reset_def H)
  moreover have "config_dump_loop_next ?r = Some (dump_loop_retry ?s)"
    using i by (simp add: config_dump_loop_next_def config_dump_loop_reset_def)
  ultimately obtain st' where "dump_calls (Suc (length (concat (map pairs (ini_key_head st))))) ?r =
      Some (map Some (concat (map pairs (ini_key_head st))) @ [None], st')"
    "ini_key_head st' = ini_key_head st" "dump_loop_index st' = 0" "dump_loop_first_flag st' = 0"
    using dump_calls_rest [of ?r ?s] by (auto simp: config_dump_loop_reset_def)
  then show ?thesis
    unfolding config_dump_get_count_eq [OF i(1)] cfg_concat(1) [OF assms] using cfg_concat(2) [OF assms]
    by auto
qed

theorem config_dump_complete_witness:
  "\<exists>st'. dump_calls 1 (config_dump_loop_reset empty_config) = Some ([None], st')"
proof -
  have "config_dump_get_count empty_config = 0"
    by (simp add: config_dump_get_count_eq empty_config_def)
  moreover have "concat (map pairs (ini_key_head empty_config)) = []" by (simp add: empty_config_def)
  ultimately show ?thesis using config_dump_complete [OF empty_config_ok]
    by (simp del: dump_calls.simps concat_eq_Nil_conv) (auto simp del: dump_calls.simps)
qed

text \<open>The decimal notation of an integer.\<close>

fun dec_digits :: "nat \<Rightarrow> bytes" where
  "dec_digits n = (if n < 10 then [48 + of_nat n] else dec_digits (n div 10) @ [48 + of_nat (n mod 10)])"

declare dec_digits.simps [simp del]

definition dec_int :: "int \<Rightarrow> bytes" where
  "dec_int i = (if i < 0 then 45 # dec_digits (nat (- i)) else dec_digits (nat i))"

lemma digit_byte:
  assumes "n < 10"
  shows "is_digit (48 + of_nat n)" "unat (48 + of_nat n :: u8) = 48 + n"
proof -
  have "unat (of_nat n :: u8) = n" using assms by (simp add: unsigned_of_nat take_bit_nat_eq_self)
  then show u: "unat (48 + of_nat n :: u8) = 48 + n" using assms by (simp add: unat_word_ariths)
  show "is_digit (48 + of_nat n)" using u assms by (simp add: is_digit_def word_le_nat_alt)
qed

lemma dec_value_append: "list_all is_digit xs \<Longrightarrow> dec_value acc (xs @ ys) = dec_value (dec_value acc xs) ys"
  by (induction xs arbitrary: acc) auto

lemma dec_digits_value: "list_all is_digit (dec_digits n) \<and> dec_digits n \<noteq> [] \<and> dec_value 0 (dec_digits n) = int n"
proof (induction n rule: dec_digits.induct)
  case (1 n)
  show ?case
  proof (cases "n < 10")
    case True
    then show ?thesis using digit_byte [OF True] by (subst (1 2 3) dec_digits.simps) simp
  next
    case False
    have "n mod 10 < 10" by simp
    moreover have "int (n div 10) * 10 + int (n mod 10) = int n" by presburger
    ultimately show ?thesis using digit_byte [of "n mod 10"] 1 [OF False] False
      by (subst (1 2 3) dec_digits.simps) (simp add: dec_value_append)
  qed
qed

lemma strtol10_dec_int:
  assumes "\<bar>i\<bar> < 2 ^ 63"
  shows "strtol10 (dec_int i) = i"
proof -
  have d: "is_digit (hd (dec_digits n))" "dec_digits n \<noteq> []" for n
    using dec_digits_value [of n] by (auto simp: list_all_iff)
  have nd: "\<not> is_space c" "c \<noteq> 45" "c \<noteq> 43" if "is_digit c" for c
    using that by (auto simp: is_digit_def is_space_def word_le_nat_alt)
  have p: "strtol10 (dec_digits n) = int n" if "int n < 2 ^ 63" for n
    using d [of n] nd [OF d(1)] dec_digits_value [of n] that
    by (simp add: strtol10_def Let_def dropWhile_hd)
  have m: "strtol10 (45 # dec_digits n) = - int n" if "int n < 2 ^ 63" for n
    using dec_digits_value [of n] that by (simp add: strtol10_def is_space_def)
  show ?thesis
  proof (cases "i < 0")
    case True
    then show ?thesis using m [of "nat (- i)"] assms by (simp add: dec_int_def)
  next
    case False
    then show ?thesis using p [of "nat i"] assms by (simp add: dec_int_def)
  qed
qed

text \<open>
  An \<open>int\<close> set as its decimal notation is read back by \<open>config_get_intval\<close> as the
  same number, the sign and the smallest \<open>int\<close> included; a key that is not set gives the
  default.
\<close>

theorem config_intval_roundtrip:
  assumes "cfg_ok st" "- (2 ^ 31) \<le> i" "i < 2 ^ 31"
  shows "(cfg st k = Some (dec_int i) \<longrightarrow> config_get_intval k def st = Some i) \<and>
    (cfg st k = None \<longrightarrow> config_get_intval k def st = Some def)"
proof -
  have "signed_take_bit 31 i = i" using assms(2,3) by (simp add: signed_take_bit_int_eq_self)
  then have "atoi (dec_int i) = i" using assms(2,3) by (simp add: atoi_def strtol10_dec_int)
  then show ?thesis
    by (simp add: config_get_intval_def config_get_strval_cfg [OF assms(1)])
qed

theorem config_intval_roundtrip_witness:
  "\<exists>st. cfg_ok st \<and> config_get_intval [97] 0 st = Some (-12)"
proof -
  obtain st where st: "cfg_ok st" "cfg st = Map.empty([97] \<mapsto> dec_int (-12))"
    using config_append_law [OF empty_config_ok, of "[97]" "dec_int (-12)"]
    by (auto simp: cfg_empty cfg_fits_def dec_int_def dec_digits.simps)
  then show ?thesis using config_intval_roundtrip [OF st(1), of "-12" "[97]" 0] by auto
qed

end
