(* ===== verification/DirtyService.thy ===== *)
theory DirtyService
  imports DirtyFile AcsmMask Config
begin

unbundle bit_operations_syntax

text \<open>
  \<open>tm_dirty/tm_dirty.c\<close>: the dirty-word service of a process. Two machines lie in memory that
  the updating process and any number of other processes share; both machines carry a
  \<open>flag\<close> that names the one in use, and an update fills the other one before it switches.
  \<open>mach sh i\<close> stands for the tables of machine \<open>i\<close>, whose header fields \<open>total_pattern\<close>,
  \<open>acsmNumStates\<close> and \<open>acsmMaxStates\<close> are part of it, and \<open>flags sh i\<close> for its flag. A pointer
  to a machine is \<open>Shared i\<close>, or \<open>Info i\<close> for the copy of the header an attached process
  keeps in \<open>tm_dirty_handle_info\<close>, whose table pointers lead to the shared tables. \<open>None\<close> is
  an access through a bad pointer, to a read-only mapping or past an array, or a call that
  does not return.
\<close>

section \<open>State\<close>

record dirty_shared =
  mach :: "nat \<Rightarrow> acsm_struct"
  flags :: "nat \<Rightarrow> int"

datatype handle = Null | Shared nat | Info nat

record acsm_header =
  hdr_max :: int
  hdr_num :: int
  hdr_total :: int
  hdr_flag :: int

record dirty_proc =
  tm_dirty_handle :: "nat \<Rightarrow> handle"
  tm_dirty_inner_handle :: "nat \<Rightarrow> handle"
  tm_dirty_handle_info :: "nat \<Rightarrow> acsm_header"
  daemon_called :: bool
  dirty_err_count :: int
  loop_thread :: int

definition header_of :: "dirty_shared \<Rightarrow> nat \<Rightarrow> acsm_header" where
  "header_of sh i = \<lparr>hdr_max = acsmMaxStates (mach sh i), hdr_num = acsmNumStates (mach sh i),
     hdr_total = int (length (acsmPatterns (mach sh i))), hdr_flag = flags sh i\<rparr>"

definition set_mach :: "nat \<Rightarrow> acsm_struct \<Rightarrow> dirty_shared \<Rightarrow> dirty_shared" where
  "set_mach i A sh = sh\<lparr>mach := (mach sh)(i := A)\<rparr>"

text \<open>Reading a header through a pointer, and the machine behind a pointer.\<close>

fun deref :: "dirty_shared \<Rightarrow> dirty_proc \<Rightarrow> handle \<Rightarrow> acsm_header option" where
  "deref sh p Null = None"
| "deref sh p (Shared i) = Some (header_of sh i)"
| "deref sh p (Info i) = Some (tm_dirty_handle_info p i)"

fun machine_at :: "dirty_shared \<Rightarrow> dirty_proc \<Rightarrow> handle \<Rightarrow> acsm_struct option" where
  "machine_at sh p Null = None"
| "machine_at sh p (Shared i) = Some (mach sh i)"
| "machine_at sh p (Info i) = Some ((mach sh i)\<lparr>acsmMaxStates := hdr_max (tm_dirty_handle_info p i),
     acsmNumStates := hdr_num (tm_dirty_handle_info p i)\<rparr>)"

text \<open>\<open>tm_dirty_handle[flag]\<close>, an array of two.\<close>

definition handle_at :: "dirty_proc \<Rightarrow> int \<Rightarrow> handle option" where
  "handle_at p i = (if i = 0 \<or> i = 1 then Some (tm_dirty_handle p (nat i)) else None)"

section \<open>Attaching\<close>

text \<open>What the process can do with the file: open it, map it.\<close>

record shm_env =
  can_open :: "bytes \<Rightarrow> bool"
  can_mmap :: "bytes \<Rightarrow> bool"

definition attach_to_dirty_shm ::
  "shm_env \<Rightarrow> bytes \<Rightarrow> dirty_shared \<Rightarrow> dirty_proc \<Rightarrow> int \<times> dirty_proc" where
  "attach_to_dirty_shm env path sh p =
     (if \<not> can_open env path then (-1, p\<lparr>dirty_err_count := dirty_err_count p + 1\<rparr>)
      else if \<not> can_mmap env path then (-1, p\<lparr>dirty_err_count := dirty_err_count p + 1\<rparr>)
      else (0, p\<lparr>tm_dirty_inner_handle := (tm_dirty_inner_handle p)(0 := Shared 0, 1 := Shared 1),
        tm_dirty_handle_info := (tm_dirty_handle_info p)(0 := header_of sh 0, 1 := header_of sh 1),
        tm_dirty_handle := (tm_dirty_handle p)(0 := Info 0, 1 := Info 1),
        daemon_called := True\<rparr>))"

text \<open>
  The refresh of \<open>common_routine\<close>: a header copy whose flag differs from the shared one takes
  over its fields. A pointer to the shared machine itself never differs.
\<close>

fun store_header :: "handle \<Rightarrow> acsm_header \<Rightarrow> dirty_proc \<Rightarrow> dirty_proc option" where
  "store_header (Info i) h p = Some (p\<lparr>tm_dirty_handle_info := (tm_dirty_handle_info p)(i := h)\<rparr>)"
| "store_header _ h p = None"

definition shm_file_key :: bytes where
  "shm_file_key = map of_nat [116, 109, 95, 100, 105, 114, 116, 121, 95, 115, 104, 109, 95, 102, 105, 108, 101,
     95, 112, 97, 116, 104]"

text \<open>The return code, the flag and the process after the call.\<close>

definition common_routine ::
  "config_state \<Rightarrow> shm_env \<Rightarrow> dirty_shared \<Rightarrow> dirty_proc \<Rightarrow> (int \<times> int \<times> dirty_proc) option" where
  "common_routine cs env sh p =
     (if daemon_called p then do {
        h \<leftarrow> deref sh p (tm_dirty_handle p 0);
        inner \<leftarrow> deref sh p (tm_dirty_inner_handle p 0);
        p \<leftarrow> (if hdr_flag h \<noteq> hdr_flag inner then store_header (tm_dirty_handle p 0) inner p else Some p);
        h \<leftarrow> deref sh p (tm_dirty_handle p 0);
        Some (0, hdr_flag h, p) }
      else do {
        path \<leftarrow> config_get_strval shm_file_key cs;
        case path of
          None \<Rightarrow> Some (-1, 0, p\<lparr>dirty_err_count := dirty_err_count p + 1\<rparr>)
        | Some path \<Rightarrow>
            let (rc, p) = attach_to_dirty_shm env path sh p in
            if rc = 0 then do {
              h \<leftarrow> deref sh p (tm_dirty_handle p 0);
              Some (0, hdr_flag h, p\<lparr>dirty_err_count := 0\<rparr>) }
            else Some (-1, 0, p) })"

section \<open>Using the machine\<close>

definition tm_dirty_check_jump_tag ::
  "config_state \<Rightarrow> shm_env \<Rightarrow> dirty_shared \<Rightarrow> dirty_proc \<Rightarrow> bytes \<Rightarrow> bytes \<Rightarrow> int \<Rightarrow> (int \<times> dirty_proc) option" where
  "tm_dirty_check_jump_tag cs env sh p junk msg jump_tag = do {
     (rc, flag, p) \<leftarrow> common_routine cs env sh p;
     if rc = -1 then Some (-1, p)
     else do {
       h \<leftarrow> handle_at p flag;
       if h = Null then Some (-1, p)
       else do { A \<leftarrow> machine_at sh p h; Some (acsmSearch A junk msg jump_tag, p) } } }"

definition tm_dirty_check where
  "tm_dirty_check cs env sh p junk msg = tm_dirty_check_jump_tag cs env sh p junk msg 0"

definition tm_dirty_check_where_jump_tag ::
  "config_state \<Rightarrow> shm_env \<Rightarrow> dirty_shared \<Rightarrow> dirty_proc \<Rightarrow> bytes \<Rightarrow> bytes \<Rightarrow> int \<Rightarrow>
   (int \<times> bytes option \<times> dirty_proc) option" where
  "tm_dirty_check_where_jump_tag cs env sh p junk msg jump_tag = do {
     (rc, flag, p) \<leftarrow> common_routine cs env sh p;
     if rc = -1 then Some (-1, None, p)
     else do {
       h \<leftarrow> handle_at p flag;
       if h = Null then Some (-1, None, p)
       else do {
         A \<leftarrow> machine_at sh p h;
         let (r, word) = acsm_get_first_dirty_word A junk msg jump_tag in Some (r, word, p) } } }"

definition tm_dirty_check_where where
  "tm_dirty_check_where cs env sh p junk msg = tm_dirty_check_where_jump_tag cs env sh p junk msg 0"

text \<open>The second component is the message, with the words replaced.\<close>

definition tm_dirty_replace_jump_tag ::
  "config_state \<Rightarrow> shm_env \<Rightarrow> dirty_shared \<Rightarrow> dirty_proc \<Rightarrow> bytes \<Rightarrow> bytes \<Rightarrow> int \<Rightarrow>
   (int \<times> bytes \<times> dirty_proc) option" where
  "tm_dirty_replace_jump_tag cs env sh p junk msg jump_tag = do {
     (rc, flag, p) \<leftarrow> common_routine cs env sh p;
     if rc = -1 then Some (-1, msg, p)
     else do {
       h \<leftarrow> handle_at p flag;
       if h = Null then Some (-1, msg, p)
       else do {
         A \<leftarrow> machine_at sh p h;
         (r, msg) \<leftarrow> acsm_pattern_replace A junk msg jump_tag;
         Some (r, msg, p) } } }"

definition tm_dirty_replace where
  "tm_dirty_replace cs env sh p junk msg = tm_dirty_replace_jump_tag cs env sh p junk msg 0"

definition tm_dirty_word_count ::
  "config_state \<Rightarrow> shm_env \<Rightarrow> dirty_shared \<Rightarrow> dirty_proc \<Rightarrow> (int \<times> dirty_proc) option" where
  "tm_dirty_word_count cs env sh p = do {
     (rc, flag, p) \<leftarrow> common_routine cs env sh p;
     if rc = -1 then Some (-1, p)
     else do {
       h \<leftarrow> handle_at p flag;
       if h = Null then Some (0, p)
       else do { hd \<leftarrow> deref sh p h; Some (hdr_total hd, p) } } }"

text \<open>The second component is the number of words written to the log.\<close>

definition tm_dirty_list_word ::
  "config_state \<Rightarrow> shm_env \<Rightarrow> dirty_shared \<Rightarrow> dirty_proc \<Rightarrow> (int \<times> int \<times> dirty_proc) option" where
  "tm_dirty_list_word cs env sh p = do {
     (rc, flag, p) \<leftarrow> common_routine cs env sh p;
     if rc = -1 then Some (-1, 0, p)
     else do {
       h \<leftarrow> handle_at p flag;
       if h = Null then Some (0, 0, p)
       else do { hd \<leftarrow> deref sh p h; Some (0, max 0 (hdr_total hd), p) } } }"

section \<open>Updating\<close>

definition reset_machine :: "acsm_struct \<Rightarrow> acsm_struct" where
  "reset_machine A = A\<lparr>acsmMaxStates := 0, acsmNumStates := 0, acsmPatterns := []\<rparr>"

text \<open>\<open>h->flag = u\<close>; only the shared machines are written.\<close>

fun store_flag :: "handle \<Rightarrow> int \<Rightarrow> dirty_shared \<Rightarrow> dirty_shared option" where
  "store_flag (Shared i) u sh = Some (sh\<lparr>flags := (flags sh)(i := u)\<rparr>)"
| "store_flag _ u sh = None"

definition tm_dirty_load_new ::
  "(int \<Rightarrow> bool) \<Rightarrow> (bytes \<Rightarrow> bytes option) \<Rightarrow> bytes \<Rightarrow> dirty_proc \<Rightarrow> dirty_shared \<Rightarrow> (int \<times> dirty_shared) option" where
  "tm_dirty_load_new mal files path p sh = do {
     hd \<leftarrow> deref sh p (tm_dirty_handle p 0);
     let update_flag = hdr_flag hd XOR 1 in do {
     h \<leftarrow> handle_at p update_flag;
     case h of
       Shared i \<Rightarrow>
         let sh = set_mach i (reset_machine (mach sh i)) sh in
         (case files path of
            None \<Rightarrow> Some (-1, sh)
          | Some bs \<Rightarrow> do {
              A \<leftarrow> load_words (fopen_read bs) (mach sh i);
              (rc, A) \<leftarrow> acsmCompile mal A;
              let sh = set_mach i A sh in
              if rc = -1 then Some (-1, sh)
              else do {
                sh \<leftarrow> store_flag (tm_dirty_handle p 1) update_flag sh;
                sh \<leftarrow> store_flag (tm_dirty_handle p 0) update_flag sh;
                Some (0, sh) } })
     | _ \<Rightarrow> None } }"

text \<open>The old interface does nothing.\<close>

definition tm_load_dirty :: "bytes \<Rightarrow> dirty_proc \<Rightarrow> int" where
  "tm_load_dirty conf_file_path p = (if daemon_called p then 0 else 0)"

text \<open>
  \<open>cancel\<close> is what \<open>pthread_cancel\<close> answers. The memory the handles point to is unmapped in
  part (\<open>acsmFree\<close>) and no longer reachable through them.
\<close>

definition tm_dirty_free :: "int \<Rightarrow> dirty_proc \<Rightarrow> int \<times> dirty_proc" where
  "tm_dirty_free cancel p =
     (if loop_thread p \<noteq> 0 \<and> cancel \<noteq> 0 then (-1, p)
      else (0, p\<lparr>tm_dirty_handle := (tm_dirty_handle p)(0 := Null, 1 := Null)\<rparr>))"

section \<open>Trimming\<close>

text \<open>\<open>trim_blank\<close> on the C string \<open>s\<close>: the blanks are space, tab and newline.\<close>

definition trim_char :: "u8 \<Rightarrow> bool" where
  "trim_char c \<longleftrightarrow> c = 32 \<or> c = 9 \<or> c = 10"

text \<open>The scan from the right for the last byte that is no blank.\<close>

fun trim_right :: "bytes \<Rightarrow> nat \<Rightarrow> nat" where
  "trim_right s 0 = 0"
| "trim_right s (Suc r) = (if trim_char (s ! Suc r) then trim_right s r else Suc r)"

definition trim_blank :: "bytes \<Rightarrow> bytes" where
  "trim_blank s =
     (let l = length (takeWhile trim_char s) in
      if l = length s then []
      else let r = trim_right s (length s - 1) in map (\<lambda>i. s ! i) [l..<Suc r])"

end
