(* ===== verification/DirtyReach.thy ===== *)
theory DirtyReach
  imports DirtyService
begin

text \<open>
  The dirty-word service as a system of processes: one that updates the shared machines step
  by step and uses them, and others that attach and use them in between. What they see is
  always the machine of the last update that came to its end.
\<close>

section \<open>The machine behind a header copy\<close>

lemma scan_cong: "acsmStateTable A = acsmStateTable B \<Longrightarrow> scan A skip s T = scan B skip s T"
  by (induction T arbitrary: s) (simp_all add: Let_def)

lemma acsmSearch_cong: "acsmStateTable A = acsmStateTable B \<Longrightarrow> acsmSearch A junk T tag = acsmSearch B junk T tag"
  using scan_cong [of A B] by (simp add: acsmSearch_def Let_def)

section \<open>Steps\<close>

datatype load_phase = Idle | Reading c_file | Compiling | Flag_one | Flag_zero

record dirty_sys =
  shared :: dirty_shared
  daemon :: dirty_proc
  phase :: load_phase
  readers :: "dirty_proc list"

definition no_header :: acsm_header where
  "no_header = \<lparr>hdr_max = 0, hdr_num = 0, hdr_total = 0, hdr_flag = 0\<rparr>"

text \<open>A process as it starts, the updating process after it has mapped its machines, and the machines.\<close>

definition new_proc :: dirty_proc where
  "new_proc = \<lparr>tm_dirty_handle = (\<lambda>_. Null), tm_dirty_inner_handle = (\<lambda>_. Null), tm_dirty_handle_info = (\<lambda>_. no_header),
     daemon_called = False, dirty_err_count = 0, loop_thread = 0\<rparr>"

definition mapped_proc :: "dirty_proc \<Rightarrow> dirty_proc" where
  "mapped_proc p = p\<lparr>tm_dirty_handle := (tm_dirty_handle p)(0 := Shared 0, 1 := Shared 1),
     tm_dirty_inner_handle := (tm_dirty_inner_handle p)(0 := Shared 0, 1 := Shared 1)\<rparr>"

definition new_shared :: dirty_shared where
  "new_shared = \<lparr>mach = (\<lambda>_. acsmNew), flags = (\<lambda>_. 0)\<rparr>"

definition first_sys :: dirty_sys where
  "first_sys = \<lparr>shared = new_shared, daemon = mapped_proc new_proc, phase = Idle, readers = []\<rparr>"

text \<open>The machine that is being filled and the one in use.\<close>

definition upd :: "dirty_sys \<Rightarrow> nat" where
  "upd s = nat (flags (shared s) 0 XOR 1)"

definition active :: "dirty_sys \<Rightarrow> acsm_struct" where
  "active s = mach (shared s) (nat (flags (shared s) 0))"

definition filling :: "dirty_sys \<Rightarrow> acsm_struct" where
  "filling s = mach (shared s) (upd s)"

definition put :: "acsm_struct \<Rightarrow> load_phase \<Rightarrow> dirty_sys \<Rightarrow> dirty_sys" where
  "put A ph s = s\<lparr>shared := set_mach (upd s) A (shared s), phase := ph\<rparr>"

definition put_flag :: "nat \<Rightarrow> load_phase \<Rightarrow> dirty_sys \<Rightarrow> dirty_sys" where
  "put_flag i ph s = s\<lparr>shared := (shared s)\<lparr>flags := (flags (shared s))(i := int (upd s))\<rparr>, phase := ph\<rparr>"

text \<open>
  \<open>dirty_reach pub s\<close>: the system can get to \<open>s\<close>, and \<open>pub\<close> are the words of the last
  update that has been switched to, when there is one. A load may find no file, and any
  \<open>malloc\<close> of a compilation may fail (\<open>mal\<close>). The files that are read hold no null byte: a
  line that starts with one is stored as a pattern of length -1.
\<close>

inductive dirty_reach :: "bytes list option \<Rightarrow> dirty_sys \<Rightarrow> bool" where
  start: "dirty_reach None first_sys"
| begin_load: "dirty_reach pub s \<Longrightarrow> phase s = Idle \<Longrightarrow> (\<And>bs. source = Some bs \<Longrightarrow> 0 \<notin> set bs) \<Longrightarrow>
    dirty_reach pub (put (reset_machine (filling s))
      (case source of None \<Rightarrow> Idle | Some bs \<Rightarrow> Reading (fopen_read bs)) s)"
| read_on: "dirty_reach pub s \<Longrightarrow> phase s = Reading f \<Longrightarrow> load_step f (filling s) = Inl (f', A) \<Longrightarrow>
    dirty_reach pub (put A (Reading f') s)"
| read_all: "dirty_reach pub s \<Longrightarrow> phase s = Reading f \<Longrightarrow> load_step f (filling s) = Inr A \<Longrightarrow>
    dirty_reach pub (put A Compiling s)"
| compile: "dirty_reach pub s \<Longrightarrow> phase s = Compiling \<Longrightarrow> acsmCompile mal (filling s) = Some (rc, A) \<Longrightarrow>
    dirty_reach pub (put A (if rc = -1 then Idle else Flag_one) s)"
| switch_one: "dirty_reach pub s \<Longrightarrow> phase s = Flag_one \<Longrightarrow> dirty_reach pub (put_flag 1 Flag_zero s)"
| switch_zero: "dirty_reach pub s \<Longrightarrow> phase s = Flag_zero \<Longrightarrow>
    dirty_reach (Some (words (filling s))) (put_flag 0 Idle s)"
| daemon_ready: "dirty_reach (Some ws) s \<Longrightarrow>
    dirty_reach (Some ws) (s\<lparr>daemon := (daemon s)\<lparr>daemon_called := True\<rparr>\<rparr>)"
| attach: "dirty_reach pub s \<Longrightarrow> attach_to_dirty_shm env path (shared s) new_proc = (0, p) \<Longrightarrow>
    dirty_reach pub (s\<lparr>readers := p # readers s\<rparr>)"
| use_reader: "dirty_reach pub s \<Longrightarrow> i < length (readers s) \<Longrightarrow>
    common_routine cs env (shared s) (readers s ! i) = Some (rc, flag, p) \<Longrightarrow>
    dirty_reach pub (s\<lparr>readers := (readers s)[i := p]\<rparr>)"


section \<open>The invariant\<close>

definition compiled :: "acsm_struct \<Rightarrow> bool" where
  "compiled A \<longleftrightarrow> (\<exists>path N. automaton_ok path N A)"

definition attached :: "dirty_proc \<Rightarrow> bool" where
  "attached p \<longleftrightarrow> daemon_called p \<and> tm_dirty_handle p 0 = Info 0 \<and> tm_dirty_handle p 1 = Info 1 \<and>
     tm_dirty_inner_handle p 0 = Shared 0"

definition updating :: "dirty_proc \<Rightarrow> bool" where
  "updating p \<longleftrightarrow> tm_dirty_handle p 0 = Shared 0 \<and> tm_dirty_handle p 1 = Shared 1 \<and> tm_dirty_inner_handle p 0 = Shared 0"

definition sys_inv :: "bytes list option \<Rightarrow> dirty_sys \<Rightarrow> bool" where
  "sys_inv pub s \<longleftrightarrow> flags (shared s) 0 \<in> {0, 1} \<and>
     (\<forall>ws. pub = Some ws \<longrightarrow> compiled (active s) \<and> words (active s) = ws) \<and>
     (phase s \<noteq> Idle \<longrightarrow> patterns_ok (filling s)) \<and>
     (\<forall>f. phase s = Reading f \<longrightarrow> 0 \<notin> set (content f)) \<and>
     (phase s \<in> {Flag_one, Flag_zero} \<longrightarrow> compiled (filling s)) \<and>
     updating (daemon s) \<and> list_all attached (readers s)"

lemma flag_cases:
  assumes "flags (shared s) 0 \<in> {0, 1}"
  shows "upd s = 1 - nat (flags (shared s) 0)" "nat (flags (shared s) 0) \<noteq> upd s" "upd s \<in> {0, 1}"
  using assms by (auto simp: upd_def)

lemma put_simps [simp]:
  "phase (put A ph s) = ph" "daemon (put A ph s) = daemon s" "readers (put A ph s) = readers s"
  "flags (shared (put A ph s)) = flags (shared s)" "filling (put A ph s) = A" "upd (put A ph s) = upd s"
  by (simp_all add: put_def set_mach_def filling_def upd_def)

lemma active_put [simp]: "flags (shared s) 0 \<in> {0, 1} \<Longrightarrow> active (put A ph s) = active s"
  using flag_cases(2) [of s] by (simp add: put_def set_mach_def active_def)

lemma put_flag_one [simp]:
  "active (put_flag (Suc 0) ph s) = active s" "filling (put_flag (Suc 0) ph s) = filling s" "phase (put_flag (Suc 0) ph s) = ph"
  "daemon (put_flag (Suc 0) ph s) = daemon s" "readers (put_flag (Suc 0) ph s) = readers s"
  "flags (shared (put_flag (Suc 0) ph s)) 0 = flags (shared s) 0" "upd (put_flag (Suc 0) ph s) = upd s"
  by (simp_all add: put_flag_def active_def filling_def upd_def)

lemma put_flag_zero [simp]:
  "active (put_flag 0 ph s) = filling s" "phase (put_flag 0 ph s) = ph"
  "daemon (put_flag 0 ph s) = daemon s" "readers (put_flag 0 ph s) = readers s"
  "flags (shared (put_flag 0 ph s)) 0 = int (upd s)"
  by (simp_all add: put_flag_def active_def filling_def)

text \<open>Reading leaves the content of the stream alone, and a line comes from it.\<close>

lemma content_fgetc [simp]: "content (snd (fgetc f)) = content f"
  by (simp add: fgetc_def)

lemma content_fseek_back [simp]: "content (fseek_back f) = content f"
  by (simp add: fseek_back_def)

lemma content_skip_comment [simp]: "content (skip_comment c f) = content f"
  by (induction c f rule: skip_comment.induct) (subst skip_comment.simps, simp)

lemma content_skip_blanks [simp]: "content (skip_blanks c f) = content f"
  by (induction c f rule: skip_blanks.induct) (subst skip_blanks.simps, simp)

lemma content_getline: "getline f = (r, f') \<Longrightarrow> content f' = content f"
  by (auto simp: getline_def Let_def split: if_splits)

lemma getline_some: "getline f = (Some w, f') \<Longrightarrow> w \<noteq> [] \<and> set w \<subseteq> insert 10 (set (content f))"
  by (auto simp: getline_def Let_def split: if_splits dest!: set_takeWhileD in_set_dropD)

lemma dirty_len_bounds:
  assumes "w \<noteq> []" "0 \<notin> set w"
  shows "0 \<le> dirty_len w" "dirty_len w \<le> int (length w)"
proof -
  have "takeWhile (\<lambda>c. c \<noteq> 0) w = w" using assms(2) by (metis (mono_tags, lifting) takeWhile_eq_all_conv)
  then show "0 \<le> dirty_len w" "dirty_len w \<le> int (length w)"
    using length_takeWhile_le [of "\<lambda>c. c \<noteq> 9" w] assms(1) unfolding dirty_len_def Let_def
    by (simp_all add: Suc_le_eq del: takeWhile_eq_all_conv)
qed

lemma add_line_ok:
  assumes "w \<noteq> []" "0 \<notin> set w" "patterns_ok A" "acsmAddPattern A w (dirty_len w) = (r, A')"
  shows "patterns_ok A'"
proof -
  let ?v = "take (nat (dirty_len w)) w"
  have "dirty_len w = int (length ?v)" using dirty_len_bounds [OF assms(1,2)] by simp
  then have "acsmAddPattern A w (dirty_len w) = acsmAddPattern A ?v (int (length ?v))"
    using acsmAddPattern_take [of A w "dirty_len w"] by simp
  then show ?thesis using add_pattern_spec [OF assms(3), of ?v] assms(4) by (auto split: prod.splits)
qed

text \<open>One round, by what it does with the stream.\<close>

lemma load_step_cases:
  assumes "load_step f A = r" "0 \<notin> set (content f)"
  obtains g B where "r = Inl (g, B)" "content g = content f" "B = A"
  | "r = Inr A"
  | g w c B where "content g = content f" "w \<noteq> []" "0 \<notin> set w" "acsmAddPattern A w (dirty_len w) = (c, B)"
      "r = Inr B \<or> r = Inl (g, B)"
proof -
  obtain c g where g: "fgetc f = (c, g)" by fastforce
  then have cg: "content g = content f" using content_fgetc [of f] by simp
  obtain l h where l: "getline (fseek_back g) = (l, h)" by fastforce
  then have ch: "content h = content f" using content_getline cg by fastforce
  have w: "w \<noteq> [] \<and> 0 \<notin> set w" if "l = Some w" for w
    using getline_some [of "fseek_back g" w h] l that cg assms(2) by auto
  obtain d B where "l = Some w \<Longrightarrow> acsmAddPattern A w (dirty_len w) = (d, B)" for w
    by (cases l) (auto simp: prod_eq_iff)
  then show ?thesis
    using assms(1) that cg ch w l g
    by (auto simp: load_step_def split: if_splits option.splits)
qed

lemma load_step_content: "load_step f A = Inl (f', A') \<Longrightarrow> 0 \<notin> set (content f) \<Longrightarrow> content f' = content f"
  by (erule load_step_cases) auto

lemma load_step_patterns:
  assumes "patterns_ok A" "0 \<notin> set (content f)"
  shows "load_step f A = Inl (f', A') \<Longrightarrow> patterns_ok A'" "load_step f A = Inr A' \<Longrightarrow> patterns_ok A'"
  by (erule load_step_cases [OF _ assms(2)]; use assms(1) in \<open>auto intro: add_line_ok\<close>)+

text \<open>A compilation that succeeds does what it does with enough memory.\<close>

lemma queue_children_mal:
  "queue_children mal is A q = (r, A', q') \<Longrightarrow> r \<noteq> -1 \<Longrightarrow> queue_children (\<lambda>_. True) is A q = (r, A', q')"
  by (induction "mal" "is" A q rule: queue_children.induct) (auto simp: Let_def queue_add_def split: if_splits)

lemma expand_state_mal:
  "expand_state mal s is A q = Some (r, A', q') \<Longrightarrow> r \<noteq> -1 \<Longrightarrow> expand_state (\<lambda>_. True) s is A q = Some (r, A', q')"
  by (induction "mal" s "is" A q rule: expand_state.induct)
    (auto simp: Let_def queue_add_def split: if_splits elim!: bind_eq_SomeE)

lemma dfa_loop_mal:
  assumes "dfa_loop mal A q = Some (r, A')" "r \<noteq> -1"
  shows "dfa_loop (\<lambda>_. True) A q = Some (r, A')"
proof -
  define P where "P = (\<lambda>A q r. fst r \<noteq> -1 \<longrightarrow> dfa_loop (\<lambda>_. True) A q = Some r)"
  have "P A q (r, A')"
  proof (rule dfa_loop.raw_induct [OF _ assms(1), of "\<lambda>_. P"])
    fix g :: "(int \<Rightarrow> bool) \<Rightarrow> acsm_struct \<Rightarrow> queue \<Rightarrow> (int \<times> acsm_struct) option"
      and mal A q r
    assume IH: "\<And>mal A q r. g mal A q = Some r \<Longrightarrow> P A q r"
      and r: "(if queue_count q > 0 then do {
          (rc, A, q) \<leftarrow> expand_state mal (fst (queue_remove q)) alphabet A (snd (queue_remove q));
          if rc = -1 then Some (-1, A) else g mal A q } else Some (0, A)) = Some r"
    show "P A q r"
    proof (cases "queue_count q > 0")
      case True
      with r obtain rc B q' where e: "expand_state mal (fst (queue_remove q)) alphabet A (snd (queue_remove q)) = Some (rc, B, q')"
        and g: "(if rc = -1 then Some (-1, B) else g mal B q') = Some r"
        by (auto elim!: bind_eq_SomeE)
      show ?thesis
      proof (cases "rc = -1")
        case False
        then show ?thesis using True g IH [of mal B q' r] expand_state_mal [OF e False]
          by (simp add: P_def dfa_loop.simps [of _ A])
      qed (use g in \<open>auto simp: P_def\<close>)
    qed (use r in \<open>simp add: P_def dfa_loop.simps [of _ A]\<close>)
  qed
  then show ?thesis using assms(2) by (simp add: P_def)
qed

lemma Build_DFA_mal:
  assumes "Build_DFA mal A = Some (r, A')" "r \<noteq> -1"
  shows "Build_DFA (\<lambda>_. True) A = Some (r, A')"
proof -
  obtain c B q where c: "queue_children mal alphabet A queue_init = (c, B, q)" by (rule prod_cases3)
  with assms have "c \<noteq> -1" "dfa_loop mal B q = Some (r, A')" by (auto simp: Build_DFA_def split: if_splits)
  then show ?thesis
    using queue_children_mal [OF c] dfa_loop_mal [OF _ assms(2)] by (simp add: Build_DFA_def)
qed

lemma acsmCompile_mal:
  assumes "acsmCompile mal A = Some (rc, A')" "rc \<noteq> -1"
  shows "acsmCompile (\<lambda>_. True) A = Some (rc, A')"
proof -
  have "(do { (r, A) \<leftarrow> Build_DFA (\<lambda>_. True) B; if r = -1 then Some (-1, A) else Some (0, A) }) = Some (rc, A')"
    if "(do { (r, A) \<leftarrow> Build_DFA mal B; if r = -1 then Some (-1, A) else Some (0, A) }) = Some (rc, A')" for B
  proof -
    from that obtain r C where "Build_DFA mal B = Some (r, C)" "r \<noteq> -1" "rc = 0" "C = A'"
      using assms(2) by (auto elim!: bind_eq_SomeE split: if_splits)
    then show ?thesis using Build_DFA_mal by simp
  qed
  with assms show ?thesis by (auto simp only: acsmCompile_def Let_def split: if_splits prod.splits)
qed

lemma compile_ok:
  assumes "patterns_ok A" "acsmCompile mal A = Some (rc, A')" "rc \<noteq> -1"
  shows "compiled A'" "words A' = words A" "patterns_ok A'"
proof -
  note c = acsmCompile_mal [OF assms(2,3)]
  have "sum_list (map length (words A)) < 524288"
  proof (rule ccontr)
    assume "\<not> ?thesis"
    then have "acsmMaxStates (A\<lparr>acsmMaxStates := 1 + sum_list (map pat_n (acsmPatterns A))\<rparr>) > MAX_STATE"
      using sum_pat_n [OF assms(1)] by (simp add: MAX_STATE_def)
    then have "rc = -1" using c by (simp add: acsmCompile_def Let_def)
    then show False using assms(3) by simp
  qed
  from acsmCompile_spec [OF assms(1) TrueI [THEN allI] this] obtain path N A1 where
    1: "acsmCompile (\<lambda>_. True) A = Some (0, A1)" "automaton_ok path N A1" "acsmPatterns A1 = acsmPatterns A" by blast
  then have "A1 = A'" using c by simp
  with 1 assms(1) show "compiled A'" "words A' = words A" "patterns_ok A'"
    by (auto simp: compiled_def words_def patterns_ok_def)
qed

lemma attach_attached: "attach_to_dirty_shm env path sh p = (0, q) \<Longrightarrow> attached q"
  by (auto simp: attach_to_dirty_shm_def attached_def split: if_splits)

text \<open>What \<open>common_routine\<close> does in a process that is attached, and in the updating process.\<close>

lemma common_attached:
  assumes "attached p"
  shows "\<exists>q. common_routine cs env sh p = Some (0, flags sh 0, q) \<and> attached q"
  using assms by (auto simp: common_routine_def attached_def header_of_def)

lemma common_updating:
  assumes "updating p" "daemon_called p"
  shows "common_routine cs env sh p = Some (0, flags sh 0, p)"
  using assms by (auto simp: common_routine_def updating_def header_of_def)

lemma sys_inv_reach:
  assumes "dirty_reach pub s"
  shows "sys_inv pub s"
  using assms
proof (induction rule: dirty_reach.induct)
  case start
  show ?case by (simp add: sys_inv_def first_sys_def new_shared_def updating_def mapped_proc_def)
next
  case (begin_load pub s source)
  then show ?case by (auto simp: sys_inv_def reset_machine_def patterns_ok_def fopen_read_def split: option.splits)
next
  case (read_on pub s f f' A)
  then show ?case using load_step_patterns(1) [of "filling s" f f' A] load_step_content [of f "filling s" f' A]
    by (auto simp: sys_inv_def)
next
  case (read_all pub s f A)
  then show ?case using load_step_patterns(2) [of "filling s" f A] by (auto simp: sys_inv_def)
next
  case (compile pub s mal rc A)
  then show ?case using compile_ok [of "filling s" mal rc A] by (auto simp: sys_inv_def)
next
  case (switch_one pub s)
  then show ?case by (auto simp: sys_inv_def)
next
  case (switch_zero pub s)
  then show ?case using flag_cases(3) [of s] by (auto simp: sys_inv_def)
next
  case (daemon_ready ws s)
  then show ?case by (auto simp: sys_inv_def updating_def active_def filling_def upd_def)
next
  case (attach pub s env path p)
  then show ?case using attach_attached by (auto simp: sys_inv_def active_def filling_def upd_def)
next
  case (use_reader pub s i cs env rc flag p)
  then have "attached (readers s ! i)" by (simp add: sys_inv_def list_all_length)
  then have "attached p" using common_attached [of "readers s ! i" cs env "shared s"] use_reader.hyps(3) by auto
  then show ?case using use_reader
    by (auto simp: sys_inv_def active_def filling_def upd_def list_all_length nth_list_update)
qed

section \<open>A load as a run of the system\<close>

lemma put_put [simp]: "put B ph (put A ph' s) = put B ph s"
  by (simp add: put_def set_mach_def upd_def)

lemma put_same [simp]: "put (filling s) (phase s) s = s"
  by (simp add: put_def set_mach_def filling_def)

lemma load_words_run:
  assumes "load_words f A = Some A'"
  shows "dirty_reach pub s \<Longrightarrow> phase s = Reading f \<Longrightarrow> filling s = A \<Longrightarrow> dirty_reach pub (put A' Compiling s)"
proof -
  define P where "P = (\<lambda>f A A'. \<forall>s. dirty_reach pub s \<longrightarrow> phase s = Reading f \<longrightarrow> filling s = A \<longrightarrow>
    dirty_reach pub (put A' Compiling s))"
  have "P f A A'"
  proof (rule load_words.raw_induct [OF _ assms])
    fix g f A A'
    assume IH: "\<And>f A A'. g f A = Some A' \<Longrightarrow> P f A A'"
      and r: "(case load_step f A of Inl s \<Rightarrow> g (fst s) (snd s) | Inr A \<Rightarrow> Some A) = Some A'"
    show "P f A A'" unfolding P_def
    proof (intro allI impI)
      fix s assume s: "dirty_reach pub s" "phase s = Reading f" "filling s = A"
      show "dirty_reach pub (put A' Compiling s)"
      proof (cases "load_step f A")
        case (Inl x)
        then have "dirty_reach pub (put (snd x) (Reading (fst x)) s)"
          using dirty_reach.read_on [OF s(1,2), of "fst x" "snd x"] s(3) by simp
        then show ?thesis using IH [of "fst x" "snd x" A'] Inl r by (auto simp: P_def)
      next
        case (Inr B)
        then show ?thesis using dirty_reach.read_all [OF s(1,2), of B] s(3) r by simp
      qed
    qed
  qed
  then show "dirty_reach pub s \<Longrightarrow> phase s = Reading f \<Longrightarrow> filling s = A \<Longrightarrow> ?thesis"
    by (simp add: P_def)
qed

lemma loading_machine:
  assumes "flags sh 0 \<in> {0, 1}" "updating p"
  shows "handle_at p (flags sh 0 XOR 1) = Some (Shared (nat (flags sh 0 XOR 1)))"
  using assms by (auto simp: handle_at_def updating_def)

lemma load_new_eq:
  assumes "flags sh 0 \<in> {0, 1}" "updating p"
  defines "u \<equiv> nat (flags sh 0 XOR 1)"
  shows "tm_dirty_load_new mal files path p sh =
    (let A = reset_machine (mach sh u) in
     case files path of None \<Rightarrow> Some (-1, set_mach u A sh)
     | Some bs \<Rightarrow> do {
         A \<leftarrow> load_words (fopen_read bs) A;
         (rc, A) \<leftarrow> acsmCompile mal A;
         if rc = -1 then Some (-1, set_mach u A sh)
         else Some (0, (set_mach u A sh)\<lparr>flags := (flags sh)(1 := int u, 0 := int u)\<rparr>) })"
proof -
  have u: "flags sh 0 XOR 1 = int u" using assms(1) by (auto simp: u_def)
  have h: "handle_at p (int u) = Some (Shared u)" using loading_machine [OF assms(1,2)] u by simp
  have d: "deref sh p (tm_dirty_handle p 0) = Some (header_of sh 0)" using assms(2) by (simp add: updating_def)
  have "tm_dirty_handle p 0 = Shared 0" "tm_dirty_handle p 1 = Shared 1" using assms(2) by (simp_all add: updating_def)
  then show ?thesis
    by (auto simp: tm_dirty_load_new_def d header_of_def u h set_mach_def Let_def split: option.splits Option.bind_splits prod.splits)
qed

lemma load_new_run:
  assumes "dirty_reach pub s" "phase s = Idle" "\<And>bs. files path = Some bs \<Longrightarrow> 0 \<notin> set bs"
    and r: "tm_dirty_load_new mal files path (daemon s) (shared s) = Some (rc, sh)"
  shows "dirty_reach (if rc = -1 then pub else Some (words (mach sh (upd s)))) (s\<lparr>shared := sh\<rparr>)"
proof -
  have inv: "flags (shared s) 0 \<in> {0, 1}" "updating (daemon s)"
    using sys_inv_reach [OF assms(1)] by (auto simp: sys_inv_def)
  have id: "put A Idle s = s\<lparr>shared := set_mach (upd s) A (shared s)\<rparr>" for A
    using assms(2) by (simp add: put_def)
  note eq = r [unfolded load_new_eq [OF inv], folded upd_def filling_def, unfolded Let_def]
  note begin_load = dirty_reach.begin_load [OF assms(1,2)]
  show ?thesis
  proof (cases "files path")
    case None
    then show ?thesis using eq begin_load [of None] by (simp add: id)
  next
    case (Some bs)
    with eq obtain A rc' A' where
      A: "load_words (fopen_read bs) (reset_machine (filling s)) = Some A" "acsmCompile mal A = Some (rc', A')"
      and e: "(if rc' = -1 then Some (-1, set_mach (upd s) A' (shared s))
        else Some (0, (set_mach (upd s) A' (shared s))\<lparr>flags := (flags (shared s))(1 := int (upd s), 0 := int (upd s))\<rparr>)) = Some (rc, sh)"
      by (auto elim!: bind_eq_SomeE)
    have "dirty_reach pub (put A Compiling s)"
      using load_words_run [OF A(1) begin_load [of "Some bs"]] assms(3) Some by simp
    from dirty_reach.compile [OF this, of mal rc' A'] A(2)
    have c: "dirty_reach pub (put A' (if rc' = -1 then Idle else Flag_one) s)" by simp
    show ?thesis
    proof (cases "rc' = -1")
      case True
      then show ?thesis using c e by (auto simp: id)
    next
      case False
      then have c1: "dirty_reach pub (put A' Flag_one s)" using c by simp
      let ?t = "put_flag 0 Idle (put_flag 1 Flag_zero (put A' Flag_one s))"
      have "dirty_reach (Some (words A')) ?t"
        using dirty_reach.switch_zero [OF dirty_reach.switch_one [OF c1]] by simp
      moreover have "?t = s\<lparr>shared := sh\<rparr>" "words (mach sh (upd s)) = words A'" "rc = 0"
        using e False assms(2) by (auto simp: put_flag_def put_def set_mach_def upd_def)
      ultimately show ?thesis by simp
    qed
  qed
qed

section \<open>Answers\<close>

text \<open>The answer of the service: a message of more than 1000000 bytes is refused.\<close>

definition service_answer :: "bytes list \<Rightarrow> bytes \<Rightarrow> bytes \<Rightarrow> int \<Rightarrow> int" where
  "service_answer ws junk msg tag =
     (if length msg \<le> 1000000 then dirty_answer ws (filtered_text junk msg tag) else -1)"

lemma machine_answer:
  assumes "compiled (mach sh i)" "handle_at p (int i) = Some h" "h = Shared i \<or> h = Info i"
  shows "\<exists>A. machine_at sh p h = Some A \<and> acsmSearch A junk msg tag = service_answer (words (mach sh i)) junk msg tag"
proof -
  from assms(1) obtain path N where ok: "automaton_ok path N (mach sh i)" unfolding compiled_def by blast
  obtain A where A: "machine_at sh p h = Some A" "acsmStateTable A = acsmStateTable (mach sh i)" using assms(3) by auto
  have "acsmSearch (mach sh i) junk msg tag = service_answer (words (mach sh i)) junk msg tag"
  proof (cases "length msg \<le> 1000000")
    case True
    then show ?thesis using search_spec [OF ok True] by (simp add: service_answer_def)
  next
    case False
    then show ?thesis by (simp add: service_answer_def acsmSearch_def MAX_STR_BUFFER_def)
  qed
  then show ?thesis using A acsmSearch_cong by metis
qed

lemma check_answer:
  assumes f: "flags sh 0 \<in> {0, 1}" and c: "compiled (mach sh (nat (flags sh 0)))"
    and p: "attached p \<or> updating p \<and> daemon_called p"
  shows "\<exists>q. tm_dirty_check_jump_tag cs env sh p junk msg tag =
    Some (service_answer (words (mach sh (nat (flags sh 0)))) junk msg tag, q)"
proof -
  let ?i = "nat (flags sh 0)"
  obtain q where q: "common_routine cs env sh p = Some (0, flags sh 0, q)" "attached q \<or> updating q"
    using p common_attached [of p cs env sh] common_updating [of p cs env sh] by blast
  define h where "h = tm_dirty_handle q ?i"
  have h: "handle_at q (flags sh 0) = Some h" "h = Shared ?i \<or> h = Info ?i"
    using f q(2) by (auto simp: handle_at_def h_def attached_def updating_def)
  have "int ?i = flags sh 0" using f by auto
  with h(1) have "handle_at q (int ?i) = Some h" by simp
  from machine_answer [OF c this h(2)] obtain A where
    A: "machine_at sh q h = Some A" "acsmSearch A junk msg tag = service_answer (words (mach sh ?i)) junk msg tag"
    by blast
  have "h \<noteq> Null" using h(2) by auto
  then show ?thesis by (simp add: tm_dirty_check_jump_tag_def q(1) h(1) A)
qed

end
