(* ===== verification/SockIo.thy ===== *)
theory SockIo
  imports Memory "HOL-Library.Sublist"
begin

unbundle bit_operations_syntax

text \<open>
  \<open>inet/tcp.c\<close> and \<open>inet/inet_utils.c\<close>: reading and writing exactly \<open>n\<close> bytes, listening,
  accepting and connecting. What the kernel answers is data: a socket to read from is the list
  of what the calls of \<open>recv\<close> will find, one to write to the list of what \<open>send\<close> takes, and the
  results of the other calls are fields of a record. Descriptors that are open form a list.
  \<open>None\<close> is a failed assertion.
\<close>

section \<open>Reading\<close>

text \<open>
  What \<open>recv\<close> meets: bytes that have arrived, the end of the connection, a signal, no data in
  time, another error. Bytes beyond the size of the buffer stay for the next call; after the
  last event the connection is closed.
\<close>

datatype recv_event = Data bytes | Closed | Recv_intr | Recv_again | Recv_fail

fun recv :: "nat \<Rightarrow> recv_event list \<Rightarrow> recv_event \<times> recv_event list" where
  "recv n [] = (Closed, [])"
| "recv n (Data bs # s) =
     (if bs = [] then recv n s
      else if length bs \<le> n then (Data bs, s) else (Data (take n bs), Data (drop n bs) # s))"
| "recv n (e # s) = (e, s)"

text \<open>The result, the bytes written to the buffer, and what is left to be read.\<close>

function safe_tcp_recv :: "nat \<Rightarrow> recv_event list \<Rightarrow> int \<times> bytes \<times> recv_event list" where
  "safe_tcp_recv bufsize s =
     (case recv bufsize s of
        (Data bs, s) \<Rightarrow> (int (length bs), bs, s)
      | (Closed, s) \<Rightarrow> (0, [], s)
      | (Recv_intr, s) \<Rightarrow> safe_tcp_recv bufsize s
      | (_, s) \<Rightarrow> (-1, [], s))"
  by pat_completeness auto

lemma recv_events: "recv n s = (e, s') \<Longrightarrow> e \<noteq> Closed \<Longrightarrow> (\<And>bs. e \<noteq> Data bs) \<Longrightarrow> length s' < length s"
  by (induction n s rule: recv.induct) (auto split: if_splits)

termination safe_tcp_recv
  by (relation "measure (\<lambda>(_, s). length s)") (auto dest!: sym [of "(_, _)"] recv_events)

text \<open>The loop of \<open>safe_tcp_recv_n\<close>: \<open>rest\<close> bytes are still to come after \<open>got\<close>.\<close>

function recv_loop :: "nat \<Rightarrow> bytes \<Rightarrow> recv_event list \<Rightarrow> int \<times> bytes \<times> recv_event list" where
  "recv_loop rest got s =
     (if rest = 0 then (int (length got), got, s)
      else
        case recv rest s of
          (Data bs, s) \<Rightarrow> recv_loop (rest - length bs) (got @ bs) s
        | (Closed, s) \<Rightarrow> (0, got, s)
        | (Recv_intr, s) \<Rightarrow> recv_loop rest got s
        | (Recv_again, s) \<Rightarrow> (int (length got), got, s)
        | (Recv_fail, s) \<Rightarrow> (-1, got, s))"
  by pat_completeness auto

lemma recv_Data: "recv n s = (Data bs, s') \<Longrightarrow> 0 < n \<Longrightarrow> bs \<noteq> [] \<and> length bs \<le> n"
  by (induction n s rule: recv.induct) (auto split: if_splits)

lemma recv_Data_length: "recv n s = (Data bs, s') \<Longrightarrow> length s' \<le> length s"
  by (induction n s rule: recv.induct) (auto split: if_splits)

lemma recv_Data_less:
  assumes "recv n s = (Data bs, s')" "0 < n"
  shows "length s' + (n - length bs) < length s + n"
  using recv_Data [OF assms] recv_Data_length [OF assms(1)] by (cases bs) auto

termination recv_loop
  apply (relation "measure (\<lambda>(rest, _, s). length s + rest)")
    apply simp
   apply (simp, metis recv_Data_less neq0_conv)
  apply (simp, metis recv_events recv_event.distinct(1,3,5,7,9,11,13,15,17,19))
  done

definition safe_tcp_recv_n :: "int \<Rightarrow> recv_event list \<Rightarrow> (int \<times> bytes \<times> recv_event list) option" where
  "safe_tcp_recv_n n s = (if n > 0 then Some (recv_loop (nat n) [] s) else None)"

section \<open>Writing\<close>

text \<open>\<open>Took k\<close>: the call takes up to \<open>k\<close> bytes. The third component is what has been sent.\<close>

datatype send_event = Took nat | Send_intr | Send_again | Send_fail

fun send_loop :: "bytes \<Rightarrow> bytes \<Rightarrow> send_event list \<Rightarrow> int \<times> bytes \<times> send_event list" where
  "send_loop rest sent s =
     (if rest = [] then (int (length sent), sent, s)
      else
        case s of
          [] \<Rightarrow> (-1, sent, [])
        | Took k # s \<Rightarrow> send_loop (drop k rest) (sent @ take k rest) s
        | Send_intr # s \<Rightarrow> send_loop rest sent s
        | Send_again # s \<Rightarrow> (int (length sent), sent, s)
        | Send_fail # s \<Rightarrow> (-1, sent, s))"

declare safe_tcp_recv.simps [simp del] recv_loop.simps [simp del] send_loop.simps [simp del]

definition safe_tcp_send_n :: "bytes \<Rightarrow> send_event list \<Rightarrow> (int \<times> bytes \<times> send_event list) option" where
  "safe_tcp_send_n bs s = (if bs \<noteq> [] then Some (send_loop bs [] s) else None)"

section \<open>Options of a socket\<close>

definition O_NONBLOCK :: u32 where "O_NONBLOCK = 0x800"

text \<open>\<open>fcntl\<close> with \<open>F_GETFL\<close> answers \<open>fl\<close>; the flags that are set.\<close>

definition set_io_blockability :: "u32 \<Rightarrow> bool \<Rightarrow> u32" where
  "set_io_blockability fl nonblock = (if nonblock then O_NONBLOCK OR fl else NOT O_NONBLOCK AND fl)"

text \<open>The seconds and microseconds of a time-out in milliseconds; C divides towards zero.\<close>

definition set_sock_timeo :: "int \<Rightarrow> int \<times> int" where
  "set_sock_timeo millisec =
     (sgn millisec * (\<bar>millisec\<bar> div 1000), sgn millisec * (\<bar>millisec\<bar> mod 1000) * 1000)"

section \<open>Sockets\<close>

datatype sock_type = SOCK_STREAM | SOCK_DGRAM | SOCK_OTHER

text \<open>What the calls on the way to a listening or connected socket answer.\<close>

record sock_sys =
  sys_pton :: "string \<Rightarrow> u32 option"
  sys_socket :: int
  sys_reuse :: int
  sys_rcvbuf :: int
  sys_sndbuf :: int
  sys_bind :: "u32 \<Rightarrow> u16 \<Rightarrow> int"
  sys_listen :: int
  sys_connect :: "u32 \<Rightarrow> u16 \<Rightarrow> int"

definition htons :: "u16 \<Rightarrow> u16" where
  "htons p = push_bit 8 p OR drop_bit 8 p"

text \<open>
  The result, the descriptors left open among \<open>fds\<close> and the new one, and the address and port
  the socket is bound to when it is.
\<close>

definition safe_socket_listen ::
  "sock_sys \<Rightarrow> string option \<Rightarrow> u16 \<Rightarrow> sock_type \<Rightarrow> int \<Rightarrow> int \<Rightarrow> int list \<Rightarrow>
   (int \<times> int list \<times> (u32 \<times> u16) option) option" where
  "safe_socket_listen sys ipaddr port type backlog bufsize fds =
     (if backlog > 0 \<and> bufsize > 0 \<and> bufsize \<le> 10 * 1024 * 1024 then
        let sin_addr = (case ipaddr of None \<Rightarrow> 0 | Some s \<Rightarrow> (case sys_pton sys s of None \<Rightarrow> 0 | Some a \<Rightarrow> a));
            sin_port = htons port;
            listenfd = sys_socket sys
        in
        if listenfd = -1 then Some (-1, fds, None)
        else if type \<noteq> SOCK_DGRAM \<and> sys_reuse sys = -1 then Some (-1, fds, None)
        else if sys_rcvbuf sys = -1 then Some (-1, fds, None)
        else if sys_sndbuf sys = -1 then Some (-1, fds, None)
        else if sys_bind sys sin_addr sin_port = -1 then Some (-1, fds, None)
        else if type = SOCK_STREAM \<and> sys_listen sys = -1 then Some (-1, fds, None)
        else Some (listenfd, listenfd # fds, Some (sin_addr, sin_port))
      else None)"

text \<open>
  What \<open>getaddrinfo\<close> finds first: an address, or its error code. The family and the address
  go to \<open>socket\<close> and \<open>bind\<close> as they are.
\<close>

record passive_sys =
  ps_addrinfo :: "int + (u32 \<times> u16)"
  ps_sock :: sock_sys
  ps_errno :: int

definition eai_to_errno :: "int \<Rightarrow> int \<Rightarrow> int" where
  "eai_to_errno errno eai =
     (if eai = -9 then 97
      else if eai = -3 then 11
      else if eai = -10 then 12
      else if eai = -8 \<or> eai = -7 then 94
      else if eai = -11 then errno
      else 99)"

text \<open>The result, the open descriptors and \<open>errno\<close>, which is \<open>ps_errno\<close> after a failed call.\<close>

definition create_passive_endpoint ::
  "passive_sys \<Rightarrow> sock_type \<Rightarrow> int \<Rightarrow> int \<Rightarrow> int list \<Rightarrow> (int \<times> int list \<times> int) option" where
  "create_passive_endpoint ps socktype backlog bufsize fds =
     (if backlog > 0 \<and> bufsize > 0 \<and> bufsize \<le> 10 * 1024 * 1024 then
        let sys = ps_sock ps in
        (case ps_addrinfo ps of
           Inl err \<Rightarrow> Some (-1, fds, eai_to_errno (ps_errno ps) err)
         | Inr (addr, port) \<Rightarrow>
             let listenfd = sys_socket sys; failed = Some (-1, fds, ps_errno ps) in
             if listenfd < 0 then failed
             else if socktype \<noteq> SOCK_DGRAM \<and> sys_reuse sys = -1 then failed
             else if sys_rcvbuf sys = -1 then failed
             else if sys_sndbuf sys = -1 then failed
             else if sys_bind sys addr port < 0 then failed
             else if socktype = SOCK_STREAM \<and> sys_listen sys = -1 then failed
             else Some (listenfd, listenfd # fds, 0))
      else None)"

datatype accept_event = Conn int | Accept_intr | Accept_fail

text \<open>\<open>nb\<close> says whether the new socket can be made non-blocking.\<close>

fun safe_tcp_accept :: "accept_event list \<Rightarrow> bool \<Rightarrow> bool \<Rightarrow> int list \<Rightarrow> int \<times> int list" where
  "safe_tcp_accept [] nonblock nb fds = (-1, fds)"
| "safe_tcp_accept (Accept_intr # s) nonblock nb fds = safe_tcp_accept s nonblock nb fds"
| "safe_tcp_accept (Accept_fail # s) nonblock nb fds = (-1, fds)"
| "safe_tcp_accept (Conn fd # s) nonblock nb fds =
     (if nonblock \<and> \<not> nb then (-1, fds) else (fd, fd # fds))"

definition safe_tcp_connect :: "sock_sys \<Rightarrow> string \<Rightarrow> u16 \<Rightarrow> int list \<Rightarrow> int \<times> int list" where
  "safe_tcp_connect sys ipaddr port fds =
     (case sys_pton sys ipaddr of
        None \<Rightarrow> (-1, fds)
      | Some addr \<Rightarrow>
          let sockfd = sys_socket sys in
          if sockfd = -1 then (-1, fds)
          else if sys_connect sys addr (htons port) = -1 then (-1, fds)
          else (sockfd, sockfd # fds))"

section \<open>Addresses\<close>

text \<open>\<open>inet_aton\<close> is a parameter; a null pointer is \<open>None\<close>.\<close>

definition is_legal_ip :: "('s \<Rightarrow> bool) \<Rightarrow> 's option \<Rightarrow> int" where
  "is_legal_ip aton str_ip = (case str_ip of None \<Rightarrow> 0 | Some s \<Rightarrow> if \<not> aton s then 0 else 1)"

definition is_legal_port :: "int \<Rightarrow> int" where
  "is_legal_port port = (if port > 0 \<and> port < 65536 then 1 else 0)"

text \<open>An interface: its name, the family of its address when it has one, what \<open>getnameinfo\<close> answers for it.\<close>

record ifaddr =
  ifa_name :: string
  ifa_family :: "int option"
  ifa_nameinfo :: "int + string"

text \<open>The result code, \<open>errno\<close> and the text of the address; \<open>ifs = None\<close> is a failure of \<open>getifaddrs\<close>.\<close>

definition get_ip_addr ::
  "ifaddr list option \<Rightarrow> int \<Rightarrow> string \<Rightarrow> int \<Rightarrow> nat \<Rightarrow> (int \<times> int \<times> string option) option" where
  "get_ip_addr ifs errno nif af len =
     (if af = 2 \<and> len \<ge> 16 \<or> af = 10 \<and> len \<ge> 46 then
        case ifs of
          None \<Rightarrow> Some (-1, errno, None)
        | Some ifs \<Rightarrow>
            (case find (\<lambda>i. ifa_family i = Some af \<and> ifa_name i = nif) ifs of
               None \<Rightarrow> Some (-1, 99, None)
             | Some i \<Rightarrow>
                 (case ifa_nameinfo i of
                    Inr ip \<Rightarrow> Some (0, 99, Some ip)
                  | Inl e \<Rightarrow> Some (-1, if e = -11 then errno else 99, None)))
      else None)"

section \<open>Exact reads and writes\<close>

text \<open>The bytes that arrive before a connection ends, times out or fails.\<close>

fun incoming :: "recv_event list \<Rightarrow> bytes" where
  "incoming (Data bs # s) = bs @ incoming s"
| "incoming (Recv_intr # s) = incoming s"
| "incoming _ = []"

lemma incoming_recv:
  assumes "0 < n"
  shows "case recv n s of (Data bs, s') \<Rightarrow> incoming s = bs @ incoming s' | (Recv_intr, s') \<Rightarrow> incoming s' = incoming s
    | (_, s') \<Rightarrow> incoming s = []"
  using assms by (induction n s rule: recv.induct) (auto split: recv_event.splits)

lemma recv_loop_spec:
  "recv_loop rest got s = (r, got', s') \<Longrightarrow>
    got' = got @ take rest (incoming s) \<and>
    (rest \<le> length (incoming s) \<longrightarrow> r = int (length got + rest) \<and> incoming s' = drop rest (incoming s)) \<and>
    (length (incoming s) < rest \<longrightarrow> r < int (length got + rest))"
proof (induction rest got s arbitrary: r got' s' rule: recv_loop.induct)
  case (1 rest got s)
  show ?case
  proof (cases "rest = 0")
    case True
    then show ?thesis using 1(3) by (auto simp: recv_loop.simps [of 0])
  next
    case False
    then have inc: "case recv rest s of (Data bs, s') \<Rightarrow> incoming s = bs @ incoming s' | (Recv_intr, s') \<Rightarrow> incoming s' = incoming s
      | (_, s') \<Rightarrow> incoming s = []" by (intro incoming_recv) simp
    obtain e s1 where e: "recv rest s = (e, s1)" by fastforce
    show ?thesis
    proof (cases e)
      case (Data bs)
      have r: "recv_loop (rest - length bs) (got @ bs) s1 = (r, got', s')"
        using 1(3) False e Data by (simp add: recv_loop.simps [of rest])
      have l: "length bs \<le> rest" using recv_Data [of rest s bs s1] e Data False by simp
      have i: "incoming s = bs @ incoming s1" using inc e Data by simp
      show ?thesis using 1(1) [OF False e [symmetric] Data r] l unfolding i by auto
    next
      case Recv_intr
      have r: "recv_loop rest got s1 = (r, got', s')" using 1(3) False e Recv_intr by (simp add: recv_loop.simps [of rest])
      have i: "incoming s1 = incoming s" using inc e Recv_intr by simp
      show ?thesis using 1(2) [OF False e [symmetric] Recv_intr r] unfolding i by auto
    qed (use 1(3) False e inc in \<open>auto simp: recv_loop.simps [of rest]\<close>)
  qed
qed

text \<open>
  C20: \<open>safe_tcp_recv_n\<close> always returns. It takes the next \<open>n\<close> bytes of the connection in order,
  in whatever pieces they arrive and through interrupted calls, and leaves the rest; it
  answers \<open>n\<close> exactly when that many bytes arrive, and never writes past the buffer.
\<close>

theorem recv_n_exact:
  assumes "0 < n"
  shows "\<exists>r got s'. safe_tcp_recv_n n s = Some (r, got, s') \<and> got = take (nat n) (incoming s) \<and>
    (r = n \<longleftrightarrow> nat n \<le> length (incoming s)) \<and> (r = n \<longrightarrow> incoming s' = drop (nat n) (incoming s))"
proof -
  obtain r got s' where r: "recv_loop (nat n) [] s = (r, got, s')" by (cases "recv_loop (nat n) [] s")
  from recv_loop_spec [OF this] assms show ?thesis
    by (intro exI [of _ r] exI [of _ got] exI [of _ s']) (auto simp: safe_tcp_recv_n_def r)
qed

theorem recv_n_exact_witness:
  "\<exists>r got s'. safe_tcp_recv_n 3 [Data [1, 2], Recv_intr, Data [3, 4]] = Some (r, got, s') \<and> got = [1, 2, 3] \<and> r = 3 \<and> incoming s' = [4]"
  using recv_n_exact [of 3 "[Data [1, 2], Recv_intr, Data [3, 4]]"] by auto

lemma send_loop_spec:
  "send_loop rest sent s = (r, sent', s') \<Longrightarrow>
    (\<exists>k. sent' = sent @ take k rest \<and> k \<le> length rest \<and> (r = int (length sent + length rest) \<longrightarrow> k = length rest)) \<and>
    r \<le> int (length sent + length rest)"
proof (induction rest sent s arbitrary: r sent' s' rule: send_loop.induct)
  case (1 rest sent s)
  show ?case
  proof (cases "rest = []")
    case False
    show ?thesis
    proof (cases s)
      case Nil
      then show ?thesis using 1(3) False by (auto simp: send_loop.simps [of rest] intro: exI [of _ 0])
    next
      case (Cons e s1)
      show ?thesis
      proof (cases e)
        case (Took k)
        have r: "send_loop (drop k rest) (sent @ take k rest) s1 = (r, sent', s')"
          using 1(3) False Cons Took by (simp add: send_loop.simps [of rest])
        from 1(1) [OF False Cons Took r] obtain j where
          j: "sent' = (sent @ take k rest) @ take j (drop k rest)" "j \<le> length (drop k rest)"
          "r = int (length (sent @ take k rest) + length (drop k rest)) \<longrightarrow> j = length (drop k rest)"
          "r \<le> int (length (sent @ take k rest) + length (drop k rest))" by blast
        have "take k rest @ take j (drop k rest) = take (min (k + j) (length rest)) rest"
          by (simp add: take_add min_def)
        then show ?thesis using j by (intro conjI exI [of _ "min (k + j) (length rest)"]) auto
      next
        case Send_intr
        then show ?thesis using 1(2) [OF False Cons] 1(3) False Cons by (simp add: send_loop.simps [of rest])
      qed (use 1(3) False Cons in \<open>auto simp: send_loop.simps [of rest] intro: exI [of _ 0]\<close>)
    qed
  qed (use 1(3) in \<open>auto simp: send_loop.simps [of "[]"]\<close>)
qed

lemma send_n_exact:
  assumes "bs \<noteq> []"
  shows "\<exists>r sent s'. safe_tcp_send_n bs s = Some (r, sent, s') \<and> prefix sent bs \<and> r \<le> int (length bs) \<and>
    (r = int (length bs) \<longrightarrow> sent = bs)"
proof -
  obtain r sent s' where r: "send_loop bs [] s = (r, sent, s')" by (cases "send_loop bs [] s")
  from send_loop_spec [OF this] assms show ?thesis
    by (auto simp: safe_tcp_send_n_def r take_is_prefix)
qed

section \<open>Descriptors\<close>

text \<open>
  Opening a socket leaks no descriptor: listening, the passive endpoint, accepting and
  connecting leave the new descriptor open exactly when they return it, and after every
  failure the open descriptors are those from before the call.
\<close>

theorem sockets_not_leaked:
  "(safe_socket_listen sys ipaddr port type backlog bufsize fds = Some (r, fds', b) \<longrightarrow> fds' = (if r = -1 then fds else r # fds)) \<and>
   (create_passive_endpoint ps type backlog bufsize fds = Some (r, fds', e) \<longrightarrow> fds' = (if r = -1 then fds else r # fds)) \<and>
   (list_all (\<lambda>ev. \<forall>fd. ev = Conn fd \<longrightarrow> fd \<noteq> -1) evs \<longrightarrow> safe_tcp_accept evs nonblock nb fds = (r, fds') \<longrightarrow>
      fds' = (if r = -1 then fds else r # fds)) \<and>
   (safe_tcp_connect sys host port fds = (r, fds') \<longrightarrow> fds' = (if r = -1 then fds else r # fds))"
proof (intro conjI impI)
  show "fds' = (if r = -1 then fds else r # fds)"
    if "safe_socket_listen sys ipaddr port type backlog bufsize fds = Some (r, fds', b)"
    using that by (auto simp: safe_socket_listen_def Let_def split: if_splits)
  show "fds' = (if r = -1 then fds else r # fds)"
    if "create_passive_endpoint ps type backlog bufsize fds = Some (r, fds', e)"
    using that by (auto simp: create_passive_endpoint_def Let_def split: if_splits sum.splits prod.splits)
  show "fds' = (if r = -1 then fds else r # fds)"
    if "list_all (\<lambda>ev. \<forall>fd. ev = Conn fd \<longrightarrow> fd \<noteq> -1) evs" "safe_tcp_accept evs nonblock nb fds = (r, fds')"
    using that by (induction evs nonblock nb fds rule: safe_tcp_accept.induct) (auto split: if_splits)
  show "fds' = (if r = -1 then fds else r # fds)" if "safe_tcp_connect sys host port fds = (r, fds')"
    using that by (auto simp: safe_tcp_connect_def Let_def split: if_splits option.splits)
qed

definition quiet_sys :: sock_sys where
  "quiet_sys = \<lparr>sys_pton = (\<lambda>_. None), sys_socket = 5, sys_reuse = 0, sys_rcvbuf = 0, sys_sndbuf = 0,
     sys_bind = (\<lambda>_ _. 0), sys_listen = 0, sys_connect = (\<lambda>_ _. 0)\<rparr>"

theorem sockets_not_leaked_witness:
  "safe_socket_listen quiet_sys (Some ''x'') 80 SOCK_STREAM 5 4096 [3] = Some (5, [5, 3], Some (0, htons 80)) \<and> [5, 3] = (if 5 = (-1 :: int) then [3] else 5 # [3 :: int])"
proof -
  have r: "safe_socket_listen quiet_sys (Some ''x'') 80 SOCK_STREAM 5 4096 [3] = Some (5, [5, 3], Some (0, htons 80))"
    by (simp add: safe_socket_listen_def quiet_sys_def Let_def)
  with sockets_not_leaked [of quiet_sys "Some ''x''" 80 SOCK_STREAM 5 4096 "[3]" 5 "[5, 3]" "Some (0, htons 80)"] show ?thesis by simp
qed

text \<open>
  An address that cannot be read is not refused: the socket is bound to the address 0, which
  is every interface of the machine.
\<close>

lemma listen_bad_address:
  assumes "sys_pton sys ip = None" "safe_socket_listen sys (Some ip) port type backlog bufsize fds = Some (r, fds', Some b)"
  shows "b = (0, htons port)"
  using assms by (auto simp: safe_socket_listen_def Let_def split: if_splits)

end
