(* ===== verification/DirtyUpdate.thy ===== *)
theory DirtyUpdate
  imports DirtyReach SockIo
begin

unbundle bit_operations_syntax

text \<open>
  \<open>tm_dirty/tm_dirty.c\<close>: fetching the file of words from a server. The packets are read into a
  buffer of 8192 bytes; a read or copy that would leave it is \<open>None\<close>, and so are a failed
  assertion and a loop that does not end. The network, the file system, MD5 and \<open>malloc\<close> are
  fields of \<open>update_env\<close>; the files that the code writes are part of its state.
\<close>

section \<open>Packets\<close>

definition BUF_LEN :: nat where "BUF_LEN = 8192"
definition HEAD_LEN :: nat where "HEAD_LEN = 18"
definition DIRTY_FILE_PACKET_FIX_LEN :: nat where "DIRTY_FILE_PACKET_FIX_LEN = 78"
definition DIRTY_FILE_PACKET_MAX_LEN :: nat where "DIRTY_FILE_PACKET_MAX_LEN = DIRTY_FILE_PACKET_FIX_LEN + 4096"

definition proto_dirty_cmp_md5 :: u16 where "proto_dirty_cmp_md5 = 65001"
definition proto_dirty_get_file :: u16 where "proto_dirty_get_file = 65002"
definition proto_dirty_ads_report :: u16 where "proto_dirty_ads_report = 65003"

definition load16 :: "memory \<Rightarrow> nat \<Rightarrow> u16" where
  "load16 m p = ucast (m p) OR push_bit 8 (ucast (m (p + 1)))"

text \<open>The fields of \<open>tm_dirty_protocol_t\<close> lie one after the other: len, seq, cmd, ret, id.\<close>

definition tm_dirty_init_proto_head :: "memory \<Rightarrow> u32 \<Rightarrow> u16 \<Rightarrow> u32 \<Rightarrow> u32 \<Rightarrow> u32 \<Rightarrow> memory" where
  "tm_dirty_init_proto_head buf len cmd ident seq ret =
     mem_write buf 0 (le32 len @ le32 seq @ le16 cmd @ le32 ret @ le32 ident)"

abbreviation p_len :: "memory \<Rightarrow> u32" where "p_len m \<equiv> load32 m 0"
abbreviation p_cmd :: "memory \<Rightarrow> u16" where "p_cmd m \<equiv> load16 m 8"

text \<open>The body of a file packet: md5, totallen, endable, 32 reserved bytes; then the block with its length.\<close>

abbreviation p_md5 :: "memory \<Rightarrow> bytes" where "p_md5 m \<equiv> mem_read m 18 16"
abbreviation p_totallen :: "memory \<Rightarrow> u32" where "p_totallen m \<equiv> load32 m 34"
abbreviation p_endable :: "memory \<Rightarrow> u32" where "p_endable m \<equiv> load32 m 38"
abbreviation p_block_len :: "memory \<Rightarrow> u32" where "p_block_len m \<equiv> load32 m 74"

section \<open>State\<close>

record update_env =
  ue_mkdir :: "bytes \<Rightarrow> bool"
  ue_access :: "bytes \<Rightarrow> bool"
  ue_connect :: "bytes \<Rightarrow> u16 \<Rightarrow> bool"
  ue_send :: "send_event list"
  ue_recv :: "recv_event list"
  ue_md5 :: "bytes \<Rightarrow> bytes option"
  ue_create :: "bytes \<Rightarrow> bool"
  ue_mal :: "int \<Rightarrow> bool"
  ue_junk :: memory

text \<open>
  \<open>ue_access\<close>: \<open>access\<close> fails with an error other than \<open>ENOENT\<close>. \<open>ue_junk\<close>: what the
  uninitialised buffer holds. \<open>warnings\<close> counts the calls of the warning callback.
\<close>

record update_state =
  local_md5_dgst :: bytes
  local_md5_exist :: bool
  servr_md5_dgst :: bytes
  servr_md5_recorded :: bool
  tm_dirty_server_ip :: "bytes list"
  tm_dirty_server_port :: "u16 list"
  tm_dirty_valid_server_count :: nat
  tm_dirty_available_server_flag :: nat
  connect_failed_counter :: int
  tm_dirty_warning_func :: bool
  warnings :: nat
  tm_dirty_local_dirty_file_path :: bytes
  tm_dirty_update_cycle :: u32
  files :: "bytes \<Rightarrow> bytes option"
  machines :: dirty_shared
  process :: dirty_proc
  sent_packets :: "bytes list"

definition tm_dirty_generate_md5_from_file :: "update_env \<Rightarrow> (bytes \<Rightarrow> bytes option) \<Rightarrow> bytes \<Rightarrow> bytes option" where
  "tm_dirty_generate_md5_from_file env fs path = (case fs path of None \<Rightarrow> None | Some bs \<Rightarrow> ue_md5 env bs)"

text \<open>\<open>snprintf(new_file, 1024, "%s.new", path)\<close>.\<close>

definition new_file :: "bytes \<Rightarrow> bytes" where
  "new_file path = take 1023 (path @ [46, 110, 101, 119])"

section \<open>Before the download\<close>

definition know_local_md5 :: "update_env \<Rightarrow> update_state \<Rightarrow> bool \<times> update_state" where
  "know_local_md5 env st =
     (let path = tm_dirty_local_dirty_file_path st in
      if \<not> ue_access env path \<and> files st path = None then (True, st\<lparr>local_md5_dgst := replicate 16 0\<rparr>)
      else if \<not> local_md5_exist st then
        (case tm_dirty_generate_md5_from_file env (files st) path of
           Some d \<Rightarrow> (True, st\<lparr>local_md5_dgst := d, local_md5_exist := True\<rparr>)
         | None \<Rightarrow> (False, st))
      else (True, st))"

text \<open>The servers are tried in turn, from the one that answered last time.\<close>

fun try_servers :: "update_env \<Rightarrow> update_state \<Rightarrow> nat list \<Rightarrow> nat option" where
  "try_servers env st [] = None"
| "try_servers env st (i # is) =
     (let flag = (i + tm_dirty_available_server_flag st) mod tm_dirty_valid_server_count st in
      if ue_connect env (tm_dirty_server_ip st ! flag) (tm_dirty_server_port st ! flag) then Some flag
      else try_servers env st is)"

definition choose_server :: "update_env \<Rightarrow> update_state \<Rightarrow> nat option" where
  "choose_server env st = try_servers env st [0..<tm_dirty_valid_server_count st]"

definition warn_no_server :: "update_state \<Rightarrow> update_state" where
  "warn_no_server st =
     (if tm_dirty_warning_func st then
        if connect_failed_counter st = 3 then st\<lparr>connect_failed_counter := 0, warnings := warnings st + 1\<rparr>
        else st\<lparr>connect_failed_counter := connect_failed_counter st + 1\<rparr>
      else st)"

section \<open>The download\<close>

record fetch =
  fbuf :: memory
  fscript :: "recv_event list"
  fopened :: bool
  ffile_len :: u32
  fstate :: update_state

text \<open>\<open>safe_tcp_recv_n(fd, buf + off, n)\<close>.\<close>

definition recv_at :: "nat \<Rightarrow> nat \<Rightarrow> fetch \<Rightarrow> (int \<times> fetch) option" where
  "recv_at off n f =
     (if off + n > BUF_LEN then None
      else do {
        (r, got, s) \<leftarrow> safe_tcp_recv_n (int n) (fscript f);
        Some (r, f\<lparr>fbuf := mem_write (fbuf f) off got, fscript := s\<rparr>) })"

text \<open>The rest of a packet, after \<open>tot\<close> bytes; a read that comes back short is tried again.\<close>

function recv_rest :: "nat \<Rightarrow> nat \<Rightarrow> fetch \<Rightarrow> (bool \<times> nat \<times> fetch) option" where
  "recv_rest rest tot f =
     (case recv_at tot rest f of
        None \<Rightarrow> None
      | Some (cur, f) \<Rightarrow>
          if cur = int rest then Some (True, tot + rest, f)
          else if cur < int rest \<and> cur > 0 then recv_rest (rest - nat cur) (tot + nat cur) f
          else Some (False, tot, f))"
  by pat_completeness auto
termination by (relation "measure (\<lambda>(rest, _, _). rest)") auto

declare recv_rest.simps [simp del]

text \<open>What a packet leads to: the function returns, the file is complete, or the next packet follows.\<close>

datatype verdict = Return int | Complete | Next nat

definition record_md5 :: "memory \<Rightarrow> update_state \<Rightarrow> update_state" where
  "record_md5 m st =
     (if servr_md5_recorded st then st else st\<lparr>servr_md5_dgst := p_md5 m, servr_md5_recorded := True\<rparr>)"

text \<open>\<open>fopen(new_file, "wb")\<close> truncates; \<open>fwrite\<close> appends.\<close>

definition write_block :: "bytes \<Rightarrow> bool \<Rightarrow> update_state \<Rightarrow> update_state" where
  "write_block bs opened st =
     (let new = new_file (tm_dirty_local_dirty_file_path st);
          old = (if opened then (case files st new of None \<Rightarrow> [] | Some b \<Rightarrow> b) else [])
      in st\<lparr>files := (files st)(new \<mapsto> old @ bs)\<rparr>)"

definition fetch_packet :: "update_env \<Rightarrow> nat \<Rightarrow> fetch \<Rightarrow> (verdict \<times> fetch) option" where
  "fetch_packet env cur f =
     (let packet_len = unat (p_len (fbuf f)) in
      if p_cmd (fbuf f) \<noteq> proto_dirty_get_file \<or> packet_len > DIRTY_FILE_PACKET_MAX_LEN then Some (Return (-1), f)
      else do {
        (ok, tot, f) \<leftarrow> (if cur < packet_len then recv_rest (packet_len - cur) cur f else Some (True, cur, f));
        if \<not> ok then Some (Return (-1), f)
        else
          let m = fbuf f in
          if p_endable m \<noteq> 0 \<and> p_endable m \<noteq> 1 then Some (Return (-1), f)
          else if p_totallen m = 0 then Some (Return 0, f)
          else if ffile_len f \<noteq> 0 \<and> ffile_len f \<noteq> p_totallen m then Some (Return (-1), f)
          else
            let f = f\<lparr>ffile_len := p_totallen m, fstate := record_md5 m (fstate f)\<rparr>;
                block_len = unat (p_block_len m)
            in
            if unat (p_len m) \<noteq> DIRTY_FILE_PACKET_FIX_LEN + block_len then Some (Return (-1), f)
            else if \<not> fopened f \<and> \<not> ue_create env (new_file (tm_dirty_local_dirty_file_path (fstate f))) then Some (Return (-1), f)
            else if DIRTY_FILE_PACKET_FIX_LEN + block_len > BUF_LEN then None
            else
              let f = f\<lparr>fopened := True,
                        fstate := write_block (mem_read m DIRTY_FILE_PACKET_FIX_LEN block_len) (fopened f) (fstate f)\<rparr>
              in
              if p_endable m = 1 then Some (Complete, f)
              else
                let over = tot - packet_len; src = DIRTY_FILE_PACKET_FIX_LEN + block_len in
                if over > 0 \<and> src + over > BUF_LEN then None
                else Some (Next over, f\<lparr>fbuf := mem_write m 0 (mem_read m src over)\<rparr>) })"

text \<open>
  The loop over the packets: \<open>cur\<close> bytes of the next one are there already, \<open>needed\<close> are
  missing of its head, and go to \<open>buf + ptr\<close>.
\<close>

partial_function (option) fetch_loop ::
  "update_env \<Rightarrow> int \<Rightarrow> int \<Rightarrow> nat \<Rightarrow> fetch \<Rightarrow> (verdict \<times> fetch) option" where
  "fetch_loop env cur needed ptr f = do {
     (cur, ok, f) \<leftarrow>
       (if cur \<ge> int HEAD_LEN then Some (cur, True, f)
        else do { (r, f) \<leftarrow> recv_at ptr (nat needed) f; Some (cur + r, cur + r \<ge> needed, f) });
     if \<not> ok then Some (Return (-1), f)
     else do {
       (v, f) \<leftarrow> fetch_packet env (nat cur) f;
       case v of
         Next over \<Rightarrow> fetch_loop env (int over) (int HEAD_LEN - int over) over f
       | _ \<Rightarrow> Some (v, f) } }"

section \<open>After the download\<close>

text \<open>\<open>remove(path); rename(new_file, path)\<close>.\<close>

definition replace_file :: "bytes \<Rightarrow> bytes \<Rightarrow> (bytes \<Rightarrow> bytes option) \<Rightarrow> bytes \<Rightarrow> bytes option" where
  "replace_file new path fs =
     (let fs = fs(path := None) in
      case fs new of None \<Rightarrow> fs | Some bs \<Rightarrow> (fs(path \<mapsto> bs))(new := None))"

definition finish_update :: "update_env \<Rightarrow> update_state \<Rightarrow> (int \<times> update_state) option" where
  "finish_update env st =
     (let path = tm_dirty_local_dirty_file_path st; new = new_file path in
      case tm_dirty_generate_md5_from_file env (files st) new of
        None \<Rightarrow> Some (-1, st)
      | Some d \<Rightarrow>
          let st = st\<lparr>local_md5_dgst := d\<rparr> in
          if d \<noteq> servr_md5_dgst st then Some (-1, st)
          else
            let st = st\<lparr>files := replace_file new path (files st)\<rparr> in do {
              (rc, sh) \<leftarrow> tm_dirty_load_new (ue_mal env) (files st) path (process st) (machines st);
              Some (if rc = -1 then -1 else 0, st\<lparr>machines := sh\<rparr>) })"

definition send_packet :: "bytes \<Rightarrow> send_event list \<Rightarrow> update_state \<Rightarrow> (int \<times> send_event list \<times> update_state) option" where
  "send_packet bs evs st = do {
     (r, out, evs) \<leftarrow> safe_tcp_send_n bs evs;
     Some (r, evs, st\<lparr>sent_packets := sent_packets st @ [out]\<rparr>) }"

text \<open>
  The request for the file: the head of the packet is set up, the rest of the buffer is sent
  as it is.
\<close>

definition request_file ::
  "update_env \<Rightarrow> memory \<Rightarrow> recv_event list \<Rightarrow> send_event list \<Rightarrow> update_state \<Rightarrow> (int \<times> update_state) option" where
  "request_file env buf s evs st =
     (let buf = tm_dirty_init_proto_head buf 66 proto_dirty_get_file 0 0 0 in do {
        (r, evs, st) \<leftarrow> send_packet (mem_read buf 0 66) evs st;
        if r < 66 then Some (-1, st)
        else do {
          (v, f) \<leftarrow> fetch_loop env 0 (int HEAD_LEN) 0
            \<lparr>fbuf = buf, fscript = s, fopened = False, ffile_len = 0, fstate = st\<rparr>;
          case v of
            Complete \<Rightarrow> finish_update env (fstate f)
          | Return r \<Rightarrow> Some (r, fstate f)
          | Next _ \<Rightarrow> None } })"

text \<open>The comparison of the MD5 sums, over a new connection.\<close>

definition compare_md5 :: "update_env \<Rightarrow> update_state \<Rightarrow> (int \<times> update_state) option" where
  "compare_md5 env st =
     (let buf = tm_dirty_init_proto_head (ue_junk env) 18 proto_dirty_cmp_md5 0 0 0 in do {
        (r, evs, st) \<leftarrow> send_packet (mem_read buf 0 18) (ue_send env) st;
        if r < 18 then Some (-1, st)
        else do {
          (r, got, s) \<leftarrow> safe_tcp_recv_n 34 (ue_recv env);
          let buf = mem_write buf 0 got in
          if r < 34 then Some (-1, st)
          else if p_cmd buf \<noteq> proto_dirty_cmp_md5 \<or> p_len buf \<noteq> 34 then Some (-1, st)
          else if p_md5 buf = local_md5_dgst st then Some (-1, st)
          else request_file env buf s evs st } })"

definition tm_dirty_load_from_server :: "update_env \<Rightarrow> update_state \<Rightarrow> (int \<times> update_state) option" where
  "tm_dirty_load_from_server env st =
     (let st = st\<lparr>servr_md5_recorded := False\<rparr> in
      if \<not> ue_mkdir env (tm_dirty_local_dirty_file_path st) then Some (-1, st)
      else
        let (known, st) = know_local_md5 env st in
        if \<not> known then Some (-1, st)
        else if tm_dirty_valid_server_count st = 0 then None
        else
          case choose_server env st of
            None \<Rightarrow> Some (-1, warn_no_server st)
          | Some flag \<Rightarrow>
              compare_md5 env (st\<lparr>tm_dirty_available_server_flag := flag, connect_failed_counter := 0\<rparr>))"

text \<open>The updating thread: one update after the other.\<close>

fun tm_dirty_update_thread :: "update_env list \<Rightarrow> update_state \<Rightarrow> update_state option" where
  "tm_dirty_update_thread [] st = Some st"
| "tm_dirty_update_thread (env # envs) st = do {
     (_, st) \<leftarrow> tm_dirty_load_from_server env st;
     tm_dirty_update_thread envs st }"

end
