(* ===== verification/DirtyProps.thy ===== *)
theory DirtyProps
  imports DirtyReach
begin

text \<open>
  The properties of loading a file of words and of the service that uses it.
\<close>

section \<open>From a file to the answers\<close>

lemma load_new_ok:
  assumes "updating p" "flags sh 0 \<in> {0, 1}" "\<forall>s. mal s" "files path = Some (file_of ls @ l)"
    "list_all line_ok ls" "line_ok l" "l = [] \<or> \<not> list_all blank l"
    "length (file_words ls) < 81920" "sum_list (map (length \<circ> stored_word) (file_words ls @ last_words l)) < 524288"
  defines "u \<equiv> nat (flags sh 0 XOR 1)"
  shows "\<exists>A. tm_dirty_load_new mal files path p sh =
      Some (0, (set_mach u A sh)\<lparr>flags := (flags sh)(1 := int u, 0 := int u)\<rparr>) \<and> compiled A \<and>
      words A = filter (\<lambda>w. w \<noteq> []) (map stored_word (file_words ls @ last_words l))"
proof -
  let ?ws = "file_words ls @ last_words l" and ?R = "reset_machine (mach sh u)"
  have R: "patterns_ok ?R" "words ?R = []" by (simp_all add: reset_machine_def patterns_ok_def words_def)
  have L: "load_words (fopen_read (file_of ls @ l)) ?R = Some (add_words ?R ?ws)"
    using load_words_spec [OF assms(5,6) R(1)] R(2) assms(7,8) by auto
  have "length (last_words l) \<le> 1" by (auto simp: last_words_def split: option.splits)
  then have n: "length (words ?R) + length ?ws \<le> 81920" using R(2) assms(8) by simp
  define A where "A = add_words ?R ?ws"
  have A: "patterns_ok A" "words A = filter (\<lambda>w. w \<noteq> []) (map stored_word ?ws)"
    using add_words_spec [OF R(1) n] R(2) by (simp_all add: A_def del: filter_map)
  have "sum_list (map length (filter (\<lambda>w. w \<noteq> []) ws)) = sum_list (map length ws)" for ws :: "bytes list"
    by (induction ws) auto
  from this [of "map stored_word ?ws"] have "sum_list (map length (words A)) < 524288"
    using assms(9) unfolding A(2) by (simp add: comp_def del: filter_map)
  from acsmCompile_spec [OF A(1) assms(3) this] obtain path' N A' where
    A': "acsmCompile mal A = Some (0, A')" "automaton_ok path' N A'" "acsmPatterns A' = acsmPatterns A" by blast
  have "words A' = words A" using A'(3) by (rule words_cong)
  then show ?thesis
    using A'(1,2) L A(2) by (auto simp: load_new_eq [OF assms(2,1)] assms(4) u_def [symmetric] Let_def A_def [symmetric] compiled_def)
qed

lemma load_then_check:
  assumes "updating p" "daemon_called p" "flags sh 0 \<in> {0, 1}" "\<forall>s. mal s" "files path = Some (file_of ls @ l)"
    "list_all line_ok ls" "line_ok l" "l = [] \<or> \<not> list_all blank l"
    "length (file_words ls) < 81920" "sum_list (map (length \<circ> stored_word) (file_words ls @ last_words l)) < 524288"
  shows "\<exists>sh'. tm_dirty_load_new mal files path p sh = Some (0, sh') \<and>
    (\<forall>cs env junk msg tag. tm_dirty_check_jump_tag cs env sh' p junk msg tag =
      Some (service_answer (filter (\<lambda>w. w \<noteq> []) (map stored_word (file_words ls @ last_words l))) junk msg tag, p))"
proof -
  from load_new_ok [of p sh mal files path ls l] assms(1,3-10) obtain A sh' where
    A: "tm_dirty_load_new mal files path p sh = Some (0, sh')" "compiled A"
    "words A = filter (\<lambda>w. w \<noteq> []) (map stored_word (file_words ls @ last_words l))"
    and s: "sh' = (set_mach (nat (flags sh 0 XOR 1)) A sh)\<lparr>flags := (flags sh)(1 := int (nat (flags sh 0 XOR 1)), 0 := int (nat (flags sh 0 XOR 1)))\<rparr>"
    by blast
  have f: "flags sh' 0 \<in> {0, 1}" "mach sh' (nat (flags sh' 0)) = A"
    using assms(3) by (auto simp: s set_mach_def)
  have "tm_dirty_check_jump_tag cs env sh' p junk msg tag = Some (service_answer (words A) junk msg tag, p)" for cs env junk msg tag
  proof -
    obtain q where q: "tm_dirty_check_jump_tag cs env sh' p junk msg tag = Some (service_answer (words A) junk msg tag, q)"
      using check_answer [OF f(1)] f(2) A(2) assms(1,2) by metis
    moreover have "q = p"
      using q common_updating [OF assms(1,2), of cs env sh']
      by (auto simp: tm_dirty_check_jump_tag_def split: if_splits elim!: bind_eq_SomeE)
    ultimately show ?thesis by simp
  qed
  then show ?thesis using A(1,3) by auto
qed

text \<open>
  C3: in a process that has mapped its machines and set up the service, and when memory suffices, a
  load of a readable file ends and succeeds if no line holds a null byte or has 0xFF for its first
  byte after blanks (which looks like the end of the file), a last line without a line break is not
  made of blanks only, the lines with a break hold fewer than 81920 words, and the stored forms of
  all words have fewer than 524288 bytes together. From then on the updating process answers for
  exactly the words on the lines of the file: what stands after leading blanks up to a tab or the
  end of the line, without comment lines, in the normalised form. Of a last line without a line
  break it drops the last byte unless a tab ends the word. A message of more than 1000000 bytes is
  answered with -1.
\<close>

theorem dirty_load_check:
  assumes "updating p" "daemon_called p" "flags sh 0 \<in> {0, 1}" "\<forall>s. mal s" "files path = Some (file_of ls @ l)"
    "list_all line_ok ls" "line_ok l" "l = [] \<or> \<not> list_all blank l"
    "length (file_words ls) < 81920" "sum_list (map (length \<circ> stored_word) (file_words ls @ last_words l)) < 524288"
  shows "\<exists>sh'. tm_dirty_load_new mal files path p sh = Some (0, sh') \<and>
    (\<forall>cs env junk msg tag. tm_dirty_check_jump_tag cs env sh' p junk msg tag =
      Some (service_answer (filter (\<lambda>w. w \<noteq> []) (map stored_word (file_words ls @ last_words l))) junk msg tag, p))"
  using assms by (rule load_then_check)

lemma stored_ab: "stored_word [0x61, 0x62] = [0x41, 0x42]"
  by (simp add: stored_word_def string_filter_def string_filter_loop.simps punct_scan_def punct_switch_def char_class_defs xlatcase_def)

lemma ab_line: "line_word [0x61, 0x62] = Some [0x61, 0x62]" "line_ok [0x61, 0x62]" "line_ok []" "file_words [[0x61, 0x62]] = [[0x61, 0x62]]" "last_words [] = []"
  by (simp_all add: line_ok_def line_word_def last_words_def blank_def)

definition ready_proc :: dirty_proc where
  "ready_proc = (mapped_proc new_proc)\<lparr>daemon_called := True\<rparr>"

lemma ready_proc_ok: "updating ready_proc" "daemon_called ready_proc"
  by (simp_all add: ready_proc_def updating_def mapped_proc_def)

lemma new_shared_flag: "flags new_shared 0 \<in> {0, 1}"
  by (simp add: new_shared_def)

definition any_env :: shm_env where
  "any_env = \<lparr>can_open = (\<lambda>_. True), can_mmap = (\<lambda>_. True)\<rparr>"

theorem dirty_load_check_witness:
  "\<exists>sh'. tm_dirty_load_new (\<lambda>_. True) (\<lambda>_. Some [0x61, 0x62, 10]) [] ready_proc new_shared = Some (0, sh') \<and>
    tm_dirty_check_jump_tag empty_config any_env sh' ready_proc [] [0x61, 0x42] 0 = Some (3, ready_proc)"
  using dirty_load_check [of ready_proc new_shared "\<lambda>_. True" "\<lambda>_. Some [0x61, 0x62, 10]" "[]" "[[0x61, 0x62]]" "[]"]
    ready_proc_ok new_shared_flag
  by (auto simp: ab_line stored_ab filter_ab service_answer_def dirty_answer_def)

section \<open>Updates and readers\<close>

text \<open>
  C2: however the steps of updates and the calls of processes that share the machines are
  interleaved, every check answers for the words of the last update that was switched to: never
  for a machine that is being filled, and also when an update stops half way because there is
  no file, a table is full or memory runs out. The files of the updates are arbitrary but for
  null bytes, which they do not hold. A message of more than 1000000 bytes is answered with -1.
\<close>

theorem readers_see_published:
  assumes "dirty_reach (Some ws) s" "p \<in> set (readers s) \<or> p = daemon s \<and> daemon_called p"
  shows "\<exists>q. tm_dirty_check_jump_tag cs env (shared s) p junk msg tag = Some (service_answer ws junk msg tag, q)"
proof -
  have i: "flags (shared s) 0 \<in> {0, 1}" "compiled (active s)" "words (active s) = ws" "updating (daemon s)"
    "list_all attached (readers s)"
    using sys_inv_reach [OF assms(1)] by (auto simp: sys_inv_def)
  have "attached p \<or> updating p \<and> daemon_called p" using assms(2) i(4,5) by (auto simp: list_all_iff)
  from check_answer [OF i(1) i(2) [unfolded active_def] this] i(3) show ?thesis
    unfolding active_def by metis
qed

lemma ab_run:
  "\<exists>s. dirty_reach (Some [[0x41, 0x42]]) s \<and> phase s = Idle"
proof -
  have u: "updating (mapped_proc new_proc)" by (simp add: updating_def mapped_proc_def)
  from load_new_ok [OF u new_shared_flag, of "\<lambda>_. True" "\<lambda>_. Some [0x61, 0x62, 10]" "[]" "[[0x61, 0x62]]" "[]"] obtain A sh where
    1: "tm_dirty_load_new (\<lambda>_. True) (\<lambda>_. Some [0x61, 0x62, 10]) [] (mapped_proc new_proc) new_shared = Some (0, sh)"
    "words A = [[0x41, 0x42]]" "mach sh 1 = A"
    by (auto simp: ab_line stored_ab new_shared_def set_mach_def)
  have "dirty_reach None first_sys" by (rule dirty_reach.start)
  from load_new_run [OF this, of "\<lambda>_. Some [0x61, 0x62, 10]" "[]" "\<lambda>_. True" 0 sh]
  have "dirty_reach (Some [[0x41, 0x42]]) (first_sys\<lparr>shared := sh\<rparr>)"
    using 1 by (simp add: first_sys_def upd_def new_shared_def)
  from dirty_reach.daemon_ready [OF this] show ?thesis
    by (intro exI) (auto simp: first_sys_def)
qed

text \<open>A process that has attached checks a message while the next update is being read.\<close>

theorem readers_see_published_witness:
  "\<exists>s p q. dirty_reach (Some [[0x41, 0x42]]) s \<and> phase s = Reading (fopen_read [0x63, 10]) \<and> p \<in> set (readers s) \<and>
    tm_dirty_check_jump_tag empty_config any_env (shared s) p [] [0x61, 0x42] 0 = Some (3, q)"
proof -
  obtain s where s: "dirty_reach (Some [[0x41, 0x42]]) s" "phase s = Idle" using ab_run by blast
  obtain p where "attach_to_dirty_shm any_env [] (shared s) new_proc = (0, p)" by (simp add: attach_to_dirty_shm_def any_env_def)
  from dirty_reach.attach [OF s(1) this] have a: "dirty_reach (Some [[0x41, 0x42]]) (s\<lparr>readers := p # readers s\<rparr>)" .
  define t where "t = put (reset_machine (filling (s\<lparr>readers := p # readers s\<rparr>))) (Reading (fopen_read [0x63, 10]))
    (s\<lparr>readers := p # readers s\<rparr>)"
  have t: "dirty_reach (Some [[0x41, 0x42]]) t" "phase t = Reading (fopen_read [0x63, 10])" "p \<in> set (readers t)"
    using dirty_reach.begin_load [OF a, of "Some [0x63, 10]"] s(2) by (simp_all add: t_def)
  from readers_see_published [OF t(1), of p empty_config any_env "[]" "[0x61, 0x42]" 0] t
  show ?thesis by (auto simp: filter_ab service_answer_def dirty_answer_def)
qed

section \<open>Loads that fail\<close>

text \<open>
  C39: a load that fails, because the file cannot be opened, the words need too many states
  or memory runs out, answers -1 and leaves the machine in use and its flag as they are.
\<close>

theorem dirty_load_failure_keeps:
  assumes "updating p" "flags sh 0 \<in> {0, 1}" "tm_dirty_load_new mal files path p sh = Some (rc, sh')" "rc \<noteq> 0"
  shows "rc = -1 \<and> flags sh' = flags sh \<and> mach sh' (nat (flags sh 0)) = mach sh (nat (flags sh 0))"
  using assms(3,4) assms(2)
  by (auto simp: load_new_eq [OF assms(2,1)] set_mach_def Let_def split: option.splits if_splits elim!: bind_eq_SomeE)

theorem dirty_load_failure_keeps_witness:
  "tm_dirty_load_new (\<lambda>_. True) (\<lambda>_. None) [] ready_proc new_shared =
     Some (-1, set_mach 1 (reset_machine acsmNew) new_shared) \<and>
   flags (set_mach 1 (reset_machine acsmNew) new_shared) = flags new_shared"
proof -
  have 1: "tm_dirty_load_new (\<lambda>_. True) (\<lambda>_. None) [] ready_proc new_shared =
     Some (-1, set_mach 1 (reset_machine acsmNew) new_shared)"
    by (simp add: load_new_eq [OF new_shared_flag ready_proc_ok(1)] Let_def) (simp add: new_shared_def)
  then show ?thesis using dirty_load_failure_keeps [OF ready_proc_ok(1) new_shared_flag 1] by simp
qed

text \<open>
  A file whose last line is made of blanks only, without a line break, is never read to
  its end: the load goes on for ever at the last blank.
\<close>

theorem dirty_load_hangs:
  assumes "updating p" "flags sh 0 \<in> {0, 1}" "files path = Some (file_of ls @ l)" "list_all line_ok ls"
    "l \<noteq> []" "list_all blank l" "length (file_words ls) < 81920"
  shows "tm_dirty_load_new mal files path p sh = None"
proof -
  let ?R = "reset_machine (mach sh (nat (flags sh 0 XOR 1)))"
  have R: "patterns_ok ?R" "words ?R = []" by (simp_all add: reset_machine_def patterns_ok_def words_def)
  have "dropWhile blank l = []" using assms(6) by (simp add: list_all_iff dropWhile_eq_Nil_conv)
  moreover have "10 \<notin> set l" "0 \<notin> set l" using assms(6) by (auto simp: list_all_iff blank_def)
  ultimately have "line_ok l" unfolding line_ok_def by (simp only: list.case simp_thms)
  then show ?thesis
    using load_words_spec [OF assms(4) _ R(1), of l] R(2) assms(3,5-7) by (simp add: load_new_eq [OF assms(2,1)])
qed

theorem dirty_load_hangs_witness:
  "tm_dirty_load_new (\<lambda>_. True) (\<lambda>_. Some [0x61, 0x62, 10, 32]) [] ready_proc new_shared = None"
  using dirty_load_hangs [OF ready_proc_ok(1) new_shared_flag, of "\<lambda>_. Some [0x61, 0x62, 10, 32]" "[]" "[[0x61, 0x62]]" "[32]"]
  by (simp add: ab_line blank_def)

text \<open>
  A line that starts with a null byte becomes a pattern of length -1, which takes a state away
  from the table and matches at the root. After a file with only such a line, loaded into new
  machines, every message of which the filter leaves something counts as dirty.
\<close>

definition empty_pattern :: acsm_pattern where
  "empty_pattern = \<lparr>patrn = [], pat_n = -1\<rparr>"

lemma add_nul_line:
  "length (acsmPatterns A) < 81920 \<Longrightarrow>
    acsmAddPattern A (0 # w) (-1) = (0, A\<lparr>acsmPatterns := clear_in_front (acsmPatterns A) @ [empty_pattern]\<rparr>)"
  by (auto simp: acsmAddPattern_def MAX_PATTERNS_def MAX_KEYWORD_LEN_def empty_pattern_def split: prod.split)

lemma load_nul_line:
  "load_words (fopen_read [0, 10]) acsmNew = Some (acsmNew\<lparr>acsmPatterns := [empty_pattern]\<rparr>)"
proof -
  let ?f = "\<lparr>content = [0, 10], fpos = 0, feof = False\<rparr>" and ?g = "\<lparr>content = [0, 10], fpos = 2, feof = False\<rparr>"
  have d: "drop 0 [0, 10] = 0 # [10 :: u8]" by simp
  have "load_step ?f acsmNew = Inl (?g, acsmNew\<lparr>acsmPatterns := [empty_pattern]\<rparr>)"
    using add_nul_line [of acsmNew "[10]"]
    by (simp add: load_step_byte [OF d] blank_def getline_def dirty_len_def Let_def acsmNew_def [THEN arg_cong [where f = acsmPatterns]])
  moreover have "load_words ?g B = Some B" for B using load_end [of 2 "[0, 10]"] by simp
  ultimately show ?thesis by (simp add: fopen_read_def load_words_Inl)
qed

lemma queue_children_none:
  "(\<And>c. next_state A 0 c \<in> {-1, 0}) \<Longrightarrow> queue_children mal is A q = (0, A, q)"
  by (induction "is") (auto simp: Let_def)

lemma compile_nul_line:
  "\<exists>A. acsmCompile mal (acsmNew\<lparr>acsmPatterns := [empty_pattern]\<rparr>) = Some (0, A) \<and>
    lpi A 0 \<noteq> -1 \<and> (\<forall>c. next_state A 0 c = 0)"
proof -
  define B where "B = acsmNew\<lparr>acsmPatterns := [empty_pattern], acsmMaxStates := 0, acsmNumStates := 0\<rparr>"
  have add: "add_patterns [0..<1] B = (0, B)"
    by (simp add: AddPatternStates_def AddMatchListEntry_def B_def acsmNew_def empty_pattern_def)
  have B: "next_state (close_root B) 0 c = 0" "lpi (close_root B) 0 = 0" for c
    by (simp_all add: close_root_def set_entry_def B_def acsmNew_def)
  have "Build_DFA mal (close_root B) = Some (0, close_root B)"
    using queue_children_none [of "close_root B" mal alphabet queue_init] B(1)
    by (simp add: Build_DFA_def dfa_loop.simps [of mal "close_root B"] queue_init_def queue_count_def)
  moreover have "clear_states (acsmNew\<lparr>acsmPatterns := [empty_pattern], acsmMaxStates := 0, acsmNumStates := 0\<rparr>) = B"
    by (auto simp: clear_states_def B_def acsmNew_def fun_eq_iff)
  moreover have "length (acsmPatterns B) = 1" by (simp add: B_def)
  ultimately have "acsmCompile mal (acsmNew\<lparr>acsmPatterns := [empty_pattern]\<rparr>) = Some (0, close_root B)"
    using add by (simp only: acsmCompile_def) (simp add: empty_pattern_def MAX_STATE_def acsmNew_def)
  then show ?thesis using B by simp
qed

theorem nul_line_matches_all:
  assumes "files path = Some [0, 10]"
  shows "\<exists>sh. tm_dirty_load_new mal files path ready_proc new_shared = Some (0, sh) \<and>
    (\<forall>msg junk tag. length msg \<le> 1000000 \<longrightarrow> filtered_text junk msg tag \<noteq> [] \<longrightarrow>
      acsmSearch (mach sh (nat (flags sh 0))) junk msg tag = 3)"
proof -
  have R: "reset_machine (mach new_shared 1) = acsmNew" by (simp add: reset_machine_def new_shared_def acsmNew_def)
  have u: "nat (flags new_shared 0 XOR 1) = 1" by (simp add: new_shared_def)
  from compile_nul_line obtain A where
    A: "acsmCompile mal (acsmNew\<lparr>acsmPatterns := [empty_pattern]\<rparr>) = Some (0, A)" "lpi A 0 \<noteq> -1" "\<forall>c. next_state A 0 c = 0" by blast
  let ?sh = "(set_mach 1 A new_shared)\<lparr>flags := (flags new_shared)(1 := 1, 0 := 1)\<rparr>"
  have "tm_dirty_load_new mal files path ready_proc new_shared = Some (0, ?sh)"
    by (simp add: load_new_eq [OF new_shared_flag ready_proc_ok(1)] u R [unfolded One_nat_def] assms load_nul_line A(1))
  moreover have "acsmSearch A junk msg tag = 3" if "length msg \<le> 1000000" "filtered_text junk msg tag \<noteq> []" for msg junk tag
    using that A(2,3) by (cases "filtered_text junk msg tag") (simp_all add: acsmSearch_def MAX_STR_BUFFER_def Let_def)
  ultimately show ?thesis by (intro exI [of _ ?sh]) (simp add: set_mach_def)
qed

theorem nul_line_matches_all_witness:
  "\<exists>sh. tm_dirty_load_new (\<lambda>_. True) (\<lambda>_. Some [0, 10]) [] ready_proc new_shared = Some (0, sh) \<and>
    acsmSearch (mach sh (nat (flags sh 0))) [] [0x61, 0x42] 0 = 3"
proof -
  obtain sh where "tm_dirty_load_new (\<lambda>_. True) (\<lambda>_. Some [0, 10]) [] ready_proc new_shared = Some (0, sh)"
    "\<forall>msg junk tag. length msg \<le> 1000000 \<longrightarrow> filtered_text junk msg tag \<noteq> [] \<longrightarrow>
      acsmSearch (mach sh (nat (flags sh 0))) junk msg tag = 3"
    using nul_line_matches_all [of "\<lambda>_. Some [0, 10]" "[]" "\<lambda>_. True"] by blast
  moreover have "filtered_text [] [0x61, 0x42] 0 \<noteq> []" by (simp add: filter_ab)
  ultimately show ?thesis by auto
qed

section \<open>Attached processes\<close>

text \<open>
  An attached process never refreshes its copy of the second header: once the second
  machine is in use, \<open>tm_dirty_word_count\<close> answers the number of words that machine had when
  the process attached, however many it has now.
\<close>

theorem attached_count_stale:
  assumes "attach_to_dirty_shm env path sh p = (0, q)" "flags sh' 0 = 1"
  shows "\<exists>q'. tm_dirty_word_count cs env sh' q = Some (int (length (acsmPatterns (mach sh 1))), q')"
proof -
  have q: "tm_dirty_handle q 0 = Info 0" "tm_dirty_handle q 1 = Info 1" "tm_dirty_inner_handle q 0 = Shared 0" "daemon_called q"
    "tm_dirty_handle_info q 1 = header_of sh 1"
    using assms(1) by (auto simp: attach_to_dirty_shm_def split: if_splits)
  then show ?thesis using assms(2)
    by (auto simp: tm_dirty_word_count_def common_routine_def handle_at_def header_of_def)
qed

theorem attached_count_stale_witness:
  "\<exists>q q'. attach_to_dirty_shm any_env [] new_shared new_proc = (0, q) \<and>
    tm_dirty_word_count empty_config any_env
      \<lparr>mach = (\<lambda>_. ab_acsm), flags = (\<lambda>_. 1)\<rparr> q = Some (0, q')"
proof -
  obtain q where q: "attach_to_dirty_shm any_env [] new_shared new_proc = (0, q)" by (simp add: attach_to_dirty_shm_def any_env_def)
  from attached_count_stale [OF q, of "\<lparr>mach = (\<lambda>_. ab_acsm), flags = (\<lambda>_. 1)\<rparr>" empty_config] q
  show ?thesis by (auto simp: new_shared_def acsmNew_def)
qed

text \<open>
  After \<open>tm_dirty_free\<close> has succeeded in a process that used the service, the next check
  goes through a null pointer: the flag that says the service is set up is not reset.
\<close>

theorem check_after_free_crashes:
  assumes "daemon_called p" "tm_dirty_free cancel p = (0, q)"
  shows "tm_dirty_check_jump_tag cs env sh q junk msg tag = None"
  using assms by (auto simp: tm_dirty_free_def tm_dirty_check_jump_tag_def common_routine_def split: if_splits)

theorem check_after_free_crashes_witness:
  "tm_dirty_check_jump_tag empty_config any_env new_shared
     (snd (tm_dirty_free 0 ready_proc)) [] [0x41] 0 = None"
  using check_after_free_crashes [OF ready_proc_ok(2), of 0] by (auto simp: tm_dirty_free_def split: if_splits)

section \<open>Trimming\<close>

lemma trim_right_spec:
  "r < length s \<Longrightarrow> \<exists>i \<le> r. \<not> trim_char (s ! i) \<Longrightarrow>
    take (Suc (trim_right s r)) s = rev (dropWhile trim_char (rev (take (Suc r) s)))"
proof (induction s r rule: trim_right.induct)
  case (1 s)
  then show ?case by (cases s) auto
next
  case (2 s r)
  have t: "take (Suc (Suc r)) s = take (Suc r) s @ [s ! Suc r]" using 2(2) by (rule take_Suc_conv_app_nth)
  show ?case
  proof (cases "trim_char (s ! Suc r)")
    case True
    then have "\<exists>i \<le> r. \<not> trim_char (s ! i)" using 2(3) le_Suc_eq by metis
    then show ?thesis using 2 True by (simp add: t)
  next
    case False
    then show ?thesis by (simp add: t)
  qed
qed

lemma trim_right_le: "trim_right s r \<le> r"
  by (induction s r rule: trim_right.induct) auto

text \<open>
  \<open>trim_blank\<close> removes the spaces, tabs and newlines at both ends of a string and nothing
  else.
\<close>

theorem trim_blank_strips:
  "trim_blank s = rev (dropWhile trim_char (rev (dropWhile trim_char s)))"
proof -
  let ?l = "length (takeWhile trim_char s)"
  have d: "dropWhile trim_char s = drop ?l s" by (rule dropWhile_eq_drop)
  show ?thesis
  proof (cases "?l = length s")
    case True
    then have "dropWhile trim_char s = []" using d by simp
    then show ?thesis using True by (simp only: trim_blank_def Let_def if_True simp_thms list.simps rev.simps dropWhile.simps)
  next
    case False
    then have l: "?l < length s" using length_takeWhile_le [of trim_char s] by simp
    have n: "\<not> trim_char (s ! ?l)" using l by (rule nth_length_takeWhile)
    then have "\<exists>i \<le> length s - 1. \<not> trim_char (s ! i)" using l by (intro exI [of _ ?l]) simp
    then have r: "take (Suc (trim_right s (length s - 1))) s = rev (dropWhile trim_char (rev s))"
      using trim_right_spec [of "length s - 1" s] l by simp
    define k where "k = trim_right s (length s - 1)"
    have k: "k < length s" using l trim_right_le [of s "length s - 1"] by (simp add: k_def)
    have "map (\<lambda>i. s ! i) [?l..<Suc k] = drop ?l (take (Suc k) s)"
      using k by (intro nth_equalityI) (auto simp del: upt_Suc)
    also have "\<dots> = drop ?l (rev (dropWhile trim_char (rev s)))" using r by (simp add: k_def)
    also have "\<dots> = rev (dropWhile trim_char (rev (drop ?l s)))"
    proof -
      obtain x post where xp: "drop ?l s = x # post" using l by (cases "drop ?l s") auto
      then have x: "\<not> trim_char x" using n l by (metis hd_drop_conv_nth list.sel(1))
      have "s = takeWhile trim_char s @ x # post" using d xp by (metis takeWhile_dropWhile_id)
      then have "rev s = rev (x # post) @ rev (takeWhile trim_char s)" by (metis rev_append)
      moreover have "x \<in> set (rev (x # post))" by simp
      ultimately have "dropWhile trim_char (rev s) = dropWhile trim_char (rev (x # post)) @ rev (takeWhile trim_char s)"
        using x dropWhile_append1 by metis
      then show ?thesis unfolding xp by simp
    qed
    finally show ?thesis using False unfolding trim_blank_def Let_def k_def d by (simp only: if_False)
  qed
qed

end
