(* ===== verification/DirtyFetch.thy ===== *)
theory DirtyFetch
  imports DirtyUpdate DirtyProps
begin

text \<open>
  Properties of fetching the file of words: whatever the server sends, the download comes to
  an end within its buffer and either leaves the local file and the machines alone or installs
  a file whose MD5 is the announced one; and a server that follows the protocol gets its file
  across, in whatever pieces the network delivers it.
\<close>

section \<open>What an update leaves alone\<close>

definition keeps :: "update_state \<Rightarrow> update_state \<Rightarrow> bool" where
  "keeps st st' \<longleftrightarrow> machines st' = machines st \<and> process st' = process st \<and>
     tm_dirty_local_dirty_file_path st' = tm_dirty_local_dirty_file_path st \<and>
     (\<forall>q. q \<noteq> new_file (tm_dirty_local_dirty_file_path st) \<longrightarrow> files st' q = files st q)"

lemma keeps_refl [simp]: "keeps st st"
  by (simp add: keeps_def)

lemma keeps_trans: "keeps a b \<Longrightarrow> keeps b c \<Longrightarrow> keeps a c"
  by (auto simp: keeps_def)

lemma keeps_updates [simp]:
  "keeps st (st\<lparr>servr_md5_recorded := b\<rparr>)" "keeps st (st\<lparr>local_md5_dgst := d\<rparr>)"
  "keeps st (st\<lparr>local_md5_dgst := d, local_md5_exist := b\<rparr>)"
  "keeps st (st\<lparr>tm_dirty_available_server_flag := n, connect_failed_counter := i\<rparr>)"
  "keeps st (st\<lparr>sent_packets := ps\<rparr>)" "keeps st (warn_no_server st)" "keeps st (record_md5 m st)"
  "keeps st (write_block bs opened st)"
  by (simp_all add: keeps_def warn_no_server_def record_md5_def write_block_def Let_def)

lemma keeps_local_md5: "know_local_md5 env st = (b, st') \<Longrightarrow> keeps st st'"
  by (auto simp: know_local_md5_def Let_def split: if_splits option.splits)

lemma recv_at_state: "recv_at off n f = Some (r, f') \<Longrightarrow> fstate f' = fstate f \<and> fopened f' = fopened f \<and> ffile_len f' = ffile_len f"
  by (auto simp: recv_at_def split: if_splits elim!: bind_eq_SomeE)

lemma recv_rest_state:
  "recv_rest rest tot f = Some (ok, tot', f') \<Longrightarrow> fstate f' = fstate f \<and> fopened f' = fopened f \<and> ffile_len f' = ffile_len f"
proof (induction rest tot f rule: recv_rest.induct)
  case (1 rest tot f)
  obtain cur g where r: "recv_at tot rest f = Some (cur, g)"
    using 1(2) by (auto simp: recv_rest.simps [of rest] split: option.splits)
  have g: "fstate g = fstate f \<and> fopened g = fopened f \<and> ffile_len g = ffile_len f" using recv_at_state [OF r] .
  show ?case
  proof (cases "cur < int rest \<and> cur > 0")
    case True
    then have "recv_rest (rest - nat cur) (tot + nat cur) g = Some (ok, tot', f')"
      using 1(2) r by (simp add: recv_rest.simps [of rest])
    with 1(1) [OF r refl] True g show ?thesis by simp
  next
    case False
    then show ?thesis using 1(2) r g by (auto simp: recv_rest.simps [of rest] split: if_splits)
  qed
qed

lemma fetch_packet_keeps:
  assumes "fetch_packet env cur f = Some (v, f')"
  shows "keeps (fstate f) (fstate f')"
proof -
  have k: "keeps st (write_block bs opened (record_md5 m st))" for st bs opened m
    by (rule keeps_trans [of _ "record_md5 m st"]) simp_all
  show ?thesis
    using assms
    by (auto simp: fetch_packet_def Let_def k split: if_splits elim!: bind_eq_SomeE dest!: recv_rest_state)
qed

lemma fetch_loop_keeps:
  assumes "fetch_loop env cur needed ptr f = Some (v, f')"
  shows "keeps (fstate f) (fstate f')"
proof -
  define P where "P = (\<lambda>(env :: update_env) (cur :: int) (needed :: int) (ptr :: nat) (f :: fetch) (vf :: verdict \<times> fetch). keeps (fstate f) (fstate (snd vf)))"
  have "P env cur needed ptr f (v, f')"
  proof (rule fetch_loop.raw_induct [OF _ assms])
    fix g env cur needed ptr f r
    assume IH: "\<And>env cur needed ptr f r. g env cur needed ptr f = Some r \<Longrightarrow> P env cur needed ptr f r"
      and r: "do { (cur, ok, f) \<leftarrow>
            (if cur \<ge> int HEAD_LEN then Some (cur, True, f)
             else do { (r, f) \<leftarrow> recv_at ptr (nat needed) f; Some (cur + r, cur + r \<ge> needed, f) });
          if \<not> ok then Some (Return (-1), f)
          else do {
            (v, f) \<leftarrow> fetch_packet env (nat cur) f;
            case v of
              Next over \<Rightarrow> g env (int over) (int HEAD_LEN - int over) over f
            | _ \<Rightarrow> Some (v, f) } } = Some r"
    from r obtain cur1 ok f1 where
      1: "(if cur \<ge> int HEAD_LEN then Some (cur, True, f)
             else do { (r, f) \<leftarrow> recv_at ptr (nat needed) f; Some (cur + r, cur + r \<ge> needed, f) }) = Some (cur1, ok, f1)"
      and 2: "(if \<not> ok then Some (Return (-1), f1)
          else do {
            (v, f) \<leftarrow> fetch_packet env (nat cur1) f1;
            case v of
              Next over \<Rightarrow> g env (int over) (int HEAD_LEN - int over) over f
            | _ \<Rightarrow> Some (v, f) }) = Some r"
      by (auto elim!: bind_eq_SomeE)
    have s: "fstate f1 = fstate f"
      using 1 by (auto split: if_splits elim!: bind_eq_SomeE dest!: recv_at_state)
    show "P env cur needed ptr f r"
    proof (cases ok)
      case False
      then show ?thesis using 2 s by (auto simp: P_def)
    next
      case True
      with 2 obtain v f2 where 3: "fetch_packet env (nat cur1) f1 = Some (v, f2)"
        "(case v of Next over \<Rightarrow> g env (int over) (int HEAD_LEN - int over) over f2 | _ \<Rightarrow> Some (v, f2)) = Some r"
        by (auto elim!: bind_eq_SomeE)
      have k: "keeps (fstate f) (fstate f2)" using fetch_packet_keeps [OF 3(1)] s by simp
      show ?thesis
      proof (cases v)
        case (Next over)
        then have "P env (int over) (int HEAD_LEN - int over) over f2 r" using 3(2) IH by simp
        then show ?thesis using k keeps_trans unfolding P_def by blast
      qed (use 3(2) k in \<open>auto simp: P_def\<close>)
    qed
  qed
  then show ?thesis by (simp add: P_def)
qed

text \<open>
  The file at the local path is one whose MD5 is the one the server announced, and \<open>rc\<close> is what
  loading the words of exactly that file answered.
\<close>

definition installed :: "update_env \<Rightarrow> update_state \<Rightarrow> int \<Rightarrow> update_state \<Rightarrow> bool" where
  "installed env st rc st' \<longleftrightarrow>
     (let path = tm_dirty_local_dirty_file_path st in
      \<exists>bs. files st' path = Some bs \<and> ue_md5 env bs = Some (servr_md5_dgst st') \<and>
        tm_dirty_load_new (ue_mal env) (files st') path (process st) (machines st) = Some (rc, machines st'))"

lemma new_file_other: "length path < 1023 \<Longrightarrow> new_file path \<noteq> path"
  by (auto simp: new_file_def dest: arg_cong [where f = length])

text \<open>
  With a path of 1023 bytes, the longest that fits, the name of the new file is the path itself:
  the first block that comes overwrites the local file, whatever becomes of the update.
\<close>

theorem long_path_loses_file:
  assumes "length (tm_dirty_local_dirty_file_path st) = 1023"
  shows "files (write_block bs False st) (tm_dirty_local_dirty_file_path st) = Some bs"
  using assms by (simp add: write_block_def Let_def new_file_def)

text \<open>A load answers 0 or -1, and one that fails leaves the machine in use alone.\<close>

lemma load_new_answers:
  assumes "updating p" "flags sh 0 \<in> {0, 1}" "tm_dirty_load_new mal fs path p sh = Some (rc, sh')"
  shows "rc = 0 \<or> rc = -1 \<and> flags sh' = flags sh \<and> mach sh' (nat (flags sh 0)) = mach sh (nat (flags sh 0))"
  using assms(3,2)
  by (auto simp: load_new_eq [OF assms(2,1)] set_mach_def Let_def split: option.splits if_splits elim!: bind_eq_SomeE)

lemma finish_update_cases:
  assumes "finish_update env st = Some (rc, st')" "length (tm_dirty_local_dirty_file_path st) < 1023"
    "updating (process st)" "flags (machines st) 0 \<in> {0, 1}"
  shows "rc = -1 \<and> keeps st st' \<or> installed env st rc st' \<and> process st' = process st"
proof -
  let ?path = "tm_dirty_local_dirty_file_path st"
  let ?new = "new_file ?path"
  have n: "?new \<noteq> ?path" by (rule new_file_other [OF assms(2)])
  show ?thesis
  proof (cases "files st ?new")
    case None
    then show ?thesis using assms(1) by (auto simp: finish_update_def Let_def tm_dirty_generate_md5_from_file_def)
  next
    case (Some bs)
    have f: "replace_file ?new ?path (files st) = (files st)(?path \<mapsto> bs, ?new := None)"
      using n Some by (auto simp: replace_file_def Let_def fun_eq_iff)
    show ?thesis
    proof (cases "ue_md5 env bs = Some (servr_md5_dgst st)")
      case True
      then obtain r sh where
        l: "tm_dirty_load_new (ue_mal env) ((files st)(?path \<mapsto> bs, ?new := None)) ?path (process st) (machines st) = Some (r, sh)"
        and st': "st' = st\<lparr>local_md5_dgst := servr_md5_dgst st, files := (files st)(?path \<mapsto> bs, ?new := None), machines := sh\<rparr>"
        and rc: "rc = (if r = -1 then -1 else 0)"
        using assms(1) Some f
        by (auto simp: finish_update_def Let_def tm_dirty_generate_md5_from_file_def elim!: bind_eq_SomeE)
      have "rc = r" using rc load_new_answers [OF assms(3,4) l] by auto
      then have "installed env st rc st'" unfolding installed_def Let_def
        using l True n st' by (intro exI [of _ bs]) simp
      then show ?thesis using st' by simp
    next
      case False
      then show ?thesis using assms(1) Some
        by (auto simp: finish_update_def Let_def tm_dirty_generate_md5_from_file_def split: option.splits if_splits)
    qed
  qed
qed

lemma installed_keeps:
  assumes "keeps st st1" "installed env st1 rc st2"
  shows "installed env st rc st2"
  using assms unfolding installed_def keeps_def Let_def by simp

lemma send_packet_keeps: "send_packet bs evs st = Some (r, evs', st') \<Longrightarrow> keeps st st'"
  by (auto simp: send_packet_def elim!: bind_eq_SomeE)

text \<open>An outcome of an update: it keeps the state, or it came to \<open>finish_update\<close> from such a state.\<close>

definition outcome :: "update_env \<Rightarrow> update_state \<Rightarrow> int \<times> update_state \<Rightarrow> bool" where
  "outcome env st r \<longleftrightarrow> keeps st (snd r) \<or> (\<exists>st1. keeps st st1 \<and> finish_update env st1 = Some r)"

lemma outcome_trans: "keeps st st1 \<Longrightarrow> outcome env st1 r \<Longrightarrow> outcome env st r"
  by (auto simp: outcome_def intro: keeps_trans)

lemma outcome_keeps: "keeps st (snd r) \<Longrightarrow> outcome env st r"
  by (simp add: outcome_def)

lemma outcome_same [simp]: "outcome env st (x, st)"
  by (simp add: outcome_def)

lemma request_file_outcome:
  assumes "request_file env buf s evs st = Some r"
  shows "outcome env st r"
proof -
  from assms obtain r1 evs' st1 where
    1: "send_packet (mem_read (tm_dirty_init_proto_head buf 66 proto_dirty_get_file 0 0 0) 0 66) evs st = Some (r1, evs', st1)"
    and 2: "(if r1 < 66 then Some (-1, st1)
        else do {
          (v, f) \<leftarrow> fetch_loop env 0 (int HEAD_LEN) 0 \<lparr>fbuf = tm_dirty_init_proto_head buf 66 proto_dirty_get_file 0 0 0,
            fscript = s, fopened = False, ffile_len = 0, fstate = st1\<rparr>;
          case v of
            Complete \<Rightarrow> finish_update env (fstate f)
          | Return r \<Rightarrow> Some (r, fstate f)
          | Next _ \<Rightarrow> None }) = Some r"
    unfolding request_file_def Let_def by (auto elim!: bind_eq_SomeE)
  have "outcome env st1 r"
  proof (cases "r1 < 66")
    case True
    then show ?thesis using 2 by (auto intro: outcome_keeps)
  next
    case False
    with 2 obtain v f where l: "fetch_loop env 0 (int HEAD_LEN) 0 \<lparr>fbuf = tm_dirty_init_proto_head buf 66 proto_dirty_get_file 0 0 0,
            fscript = s, fopened = False, ffile_len = 0, fstate = st1\<rparr> = Some (v, f)"
      and v: "(case v of Complete \<Rightarrow> finish_update env (fstate f) | Return r \<Rightarrow> Some (r, fstate f) | Next _ \<Rightarrow> None) = Some r"
      by (auto elim!: bind_eq_SomeE)
    have "keeps st1 (fstate f)" using fetch_loop_keeps [OF l] by simp
    then show ?thesis using v by (cases v) (auto simp: outcome_def)
  qed
  then show ?thesis using outcome_trans [OF send_packet_keeps [OF 1]] by blast
qed

lemma compare_md5_outcome:
  assumes "compare_md5 env st = Some r"
  shows "outcome env st r"
proof -
  define buf where "buf = tm_dirty_init_proto_head (ue_junk env) 18 proto_dirty_cmp_md5 0 0 0"
  from assms obtain r1 evs st1 where
    1: "send_packet (mem_read buf 0 18) (ue_send env) st = Some (r1, evs, st1)"
    and 2: "(if r1 < 18 then Some (-1, st1)
        else do {
          (r, got, s) \<leftarrow> safe_tcp_recv_n 34 (ue_recv env);
          let buf = mem_write buf 0 got in
          if r < 34 then Some (-1, st1)
          else if p_cmd buf \<noteq> proto_dirty_cmp_md5 \<or> p_len buf \<noteq> 34 then Some (-1, st1)
          else if p_md5 buf = local_md5_dgst st1 then Some (-1, st1)
          else request_file env buf s evs st1 }) = Some r"
    unfolding compare_md5_def buf_def [symmetric] Let_def by (auto elim!: bind_eq_SomeE)
  have "outcome env st1 r"
    using 2 by (auto simp: Let_def split: if_splits elim!: bind_eq_SomeE dest: request_file_outcome)
  then show ?thesis using outcome_trans [OF send_packet_keeps [OF 1]] by blast
qed

lemma load_from_server_outcome:
  assumes "tm_dirty_load_from_server env st = Some r"
  shows "outcome env st r"
proof -
  define st0 where "st0 = st\<lparr>servr_md5_recorded := False\<rparr>"
  have k0: "keeps st st0" by (simp add: st0_def)
  obtain known st1 where k: "know_local_md5 env st0 = (known, st1)" by fastforce
  have k1: "keeps st st1" using keeps_local_md5 [OF k] k0 keeps_trans by blast
  have "outcome env st0 r \<or> outcome env st1 r"
    using assms unfolding tm_dirty_load_from_server_def Let_def st0_def [symmetric] k prod.case
    by (auto split: if_splits option.splits intro: outcome_keeps
      dest!: compare_md5_outcome outcome_trans [OF keeps_updates(4) [of st1], rotated])
  then show ?thesis using outcome_trans k0 k1 by blast
qed

text \<open>
  C6: whatever the server answers and however the network behaves, an update that returns (a load
  of the new file that never ends does not), in a process that has mapped its machines, leaves the
  local file and both machines as they are, or it installs a file whose MD5 is the one the server
  announced with its blocks and loads the words from exactly that file. It answers what that load
  answers: 0, or -1 when the load failed, and then the machine in use and its flag are as before.
  The path of the local file has fewer than 1023 bytes: with more, the new file is written over the
  local one.
\<close>

theorem update_all_or_nothing:
  assumes "tm_dirty_load_from_server env st = Some (rc, st')" "length (tm_dirty_local_dirty_file_path st) < 1023"
    "updating (process st)" "flags (machines st) 0 \<in> {0, 1}"
  shows "process st' = process st \<and>
    (files st' (tm_dirty_local_dirty_file_path st) = files st (tm_dirty_local_dirty_file_path st) \<and> machines st' = machines st \<or>
     installed env st rc st' \<and>
      (rc = 0 \<or> rc = -1 \<and> flags (machines st') = flags (machines st) \<and>
        mach (machines st') (nat (flags (machines st) 0)) = mach (machines st) (nat (flags (machines st) 0))))"
proof -
  let ?path = "tm_dirty_local_dirty_file_path st"
  have n: "new_file ?path \<noteq> ?path" by (rule new_file_other [OF assms(2)])
  have same: "files b ?path = files st ?path \<and> machines b = machines st \<and> process b = process st" if "keeps st b" for b
    using that n by (auto simp: keeps_def)
  from load_from_server_outcome [OF assms(1)] consider "keeps st st'" |
    st1 where "keeps st st1" "finish_update env st1 = Some (rc, st')" by (auto simp: outcome_def)
  then show ?thesis
  proof cases
    case 1
    then show ?thesis using same by blast
  next
    case 2
    have p: "tm_dirty_local_dirty_file_path st1 = ?path" "process st1 = process st" "machines st1 = machines st"
      using 2(1) by (auto simp: keeps_def)
    from finish_update_cases [OF 2(2)] assms(2-4) p
    have "keeps st1 st' \<or> installed env st1 rc st' \<and> process st' = process st1" by auto
    then show ?thesis
    proof
      assume "keeps st1 st'"
      then show ?thesis using keeps_trans [OF 2(1)] same by blast
    next
      assume i: "installed env st1 rc st' \<and> process st' = process st1"
      then have "installed env st rc st'" using installed_keeps [OF 2(1)] by simp
      moreover from this load_new_answers [OF assms(3,4)] have "rc = 0 \<or> rc = -1 \<and> flags (machines st') = flags (machines st) \<and>
        mach (machines st') (nat (flags (machines st) 0)) = mach (machines st) (nat (flags (machines st) 0))"
        unfolding installed_def Let_def by blast
      ultimately show ?thesis using i p(2) by simp
    qed
  qed
qed

definition ab_state :: update_state where
  "ab_state = \<lparr>local_md5_dgst = replicate 16 0, local_md5_exist = False, servr_md5_dgst = replicate 16 0, servr_md5_recorded = False,
     tm_dirty_server_ip = [[49]], tm_dirty_server_port = [80], tm_dirty_valid_server_count = 1,
     tm_dirty_available_server_flag = 0, connect_failed_counter = 0, tm_dirty_warning_func = False, warnings = 0,
     tm_dirty_local_dirty_file_path = [100], tm_dirty_update_cycle = 600, files = (\<lambda>_. None), machines = new_shared,
     process = ready_proc, sent_packets = []\<rparr>"

section \<open>The download comes to an end\<close>

fun event_size :: "recv_event \<Rightarrow> nat" where
  "event_size (Data bs) = Suc (length bs)"
| "event_size _ = 1"

definition pending :: "recv_event list \<Rightarrow> nat" where
  "pending s = sum_list (map event_size s)"

lemma pending_simps [simp]: "pending [] = 0" "pending (e # s) = event_size e + pending s"
  by (simp_all add: pending_def)

lemma recv_pending:
  "0 < n \<Longrightarrow> pending (snd (recv n s)) + (case fst (recv n s) of Data bs \<Rightarrow> length bs | _ \<Rightarrow> 0) \<le> pending s"
  by (induction n s rule: recv.induct) (auto split: recv_event.splits)

lemma recv_loop_pending:
  "recv_loop rest got s = (r, got', s') \<Longrightarrow> pending s' + length got' \<le> pending s + length got"
proof (induction rest got s arbitrary: r got' s' rule: recv_loop.induct)
  case (1 rest got s)
  show ?case
  proof (cases "rest = 0")
    case True
    then show ?thesis using 1(3) by (auto simp: recv_loop.simps [of 0])
  next
    case False
    obtain e s1 where e: "recv rest s = (e, s1)" by fastforce
    have p: "pending s1 + (case e of Data bs \<Rightarrow> length bs | _ \<Rightarrow> 0) \<le> pending s" using recv_pending [of rest s] False e by simp
    show ?thesis
    proof (cases e)
      case (Data bs)
      have r: "recv_loop (rest - length bs) (got @ bs) s1 = (r, got', s')"
        using 1(3) False e Data by (simp add: recv_loop.simps [of rest])
      show ?thesis using 1(1) [OF False e [symmetric] Data r] p Data by simp
    next
      case Recv_intr
      have r: "recv_loop rest got s1 = (r, got', s')" using 1(3) False e Recv_intr by (simp add: recv_loop.simps [of rest])
      show ?thesis using 1(2) [OF False e [symmetric] Recv_intr r] p Recv_intr by simp
    qed (use 1(3) False e p in \<open>auto simp: recv_loop.simps [of rest]\<close>)
  qed
qed

lemma recv_at_total:
  assumes "0 < n" "off + n \<le> BUF_LEN"
  shows "\<exists>r got s'. recv_at off n f = Some (r, f\<lparr>fbuf := mem_write (fbuf f) off got, fscript := s'\<rparr>) \<and>
    pending s' + length got \<le> pending (fscript f) \<and> got = take n (incoming (fscript f)) \<and>
    (r = int n \<longleftrightarrow> n \<le> length (incoming (fscript f))) \<and> r \<le> int n \<and> (r = int n \<longrightarrow> incoming s' = drop n (incoming (fscript f)))"
proof -
  obtain r got s' where l: "recv_loop n [] (fscript f) = (r, got, s')" by (cases "recv_loop n [] (fscript f)")
  from recv_loop_spec [OF l] recv_loop_pending [OF l] assms show ?thesis
    by (intro exI [of _ r] exI [of _ got] exI [of _ s']) (auto simp: recv_at_def safe_tcp_recv_n_def l)
qed

lemma recv_rest_total:
  "0 < rest \<Longrightarrow> tot + rest \<le> BUF_LEN \<Longrightarrow> \<exists>ok tot' f'. recv_rest rest tot f = Some (ok, tot', f') \<and>
     (ok \<longrightarrow> tot' = tot + rest) \<and> pending (fscript f') \<le> pending (fscript f) \<and>
     (\<forall>k < tot. fbuf f' k = fbuf f k)"
proof (induction rest tot f rule: recv_rest.induct)
  case (1 rest tot f)
  obtain r got s' where r: "recv_at tot rest f = Some (r, f\<lparr>fbuf := mem_write (fbuf f) tot got, fscript := s'\<rparr>)"
    "pending s' + length got \<le> pending (fscript f)" "r \<le> int rest"
    using recv_at_total [OF 1(2,3), of f] by blast
  let ?g = "f\<lparr>fbuf := mem_write (fbuf f) tot got, fscript := s'\<rparr>"
  have m: "fbuf ?g k = fbuf f k" if "k < tot" for k using that by (simp add: mem_write_outside)
  show ?case
  proof (cases "r < int rest \<and> r > 0")
    case True
    then have nr: "r \<noteq> int rest" "0 < rest - nat r" "tot + nat r + (rest - nat r) \<le> BUF_LEN" using 1(3) by auto
    have eq: "recv_rest rest tot f = recv_rest (rest - nat r) (tot + nat r) ?g"
      using True r(1) by (simp add: recv_rest.simps [of rest])
    from 1(1) [OF r(1) refl nr(1) True nr(2,3)] obtain ok tot' f' where
      f': "recv_rest (rest - nat r) (tot + nat r) ?g = Some (ok, tot', f')" "ok \<longrightarrow> tot' = tot + nat r + (rest - nat r)"
      "pending (fscript f') \<le> pending (fscript ?g)" "\<forall>k < tot + nat r. fbuf f' k = fbuf ?g k" by blast
    then have "\<forall>k < tot. fbuf f' k = fbuf f k" using m by simp
    moreover have "ok \<longrightarrow> tot' = tot + rest" using f'(2) True by auto
    ultimately show ?thesis using f'(1,3) r(2) eq by auto
  next
    case False
    then show ?thesis using r m by (auto simp: recv_rest.simps [of rest])
  qed
qed

lemma load32_cong: "(\<And>k. p \<le> k \<Longrightarrow> k < p + 4 \<Longrightarrow> m k = m' k) \<Longrightarrow> load32 m p = load32 m' p"
  unfolding load32_def mem_read_def by (intro arg_cong [where f = of_le32] map_cong) auto

text \<open>A packet of which just the head has arrived: nothing of the next one is read with it.\<close>

lemma fetch_packet_total:
  "\<exists>v f'. fetch_packet env 18 f = Some (v, f') \<and> pending (fscript f') \<le> pending (fscript f) \<and>
    (\<forall>over. v = Next over \<longrightarrow> over = 0)"
proof -
  define n where "n = unat (p_len (fbuf f))"
  show ?thesis
  proof (cases "p_cmd (fbuf f) \<noteq> proto_dirty_get_file \<or> n > DIRTY_FILE_PACKET_MAX_LEN")
    case True
    then show ?thesis by (simp add: fetch_packet_def Let_def n_def [symmetric])
  next
    case False
    then have n: "n \<le> 4174" by (simp add: DIRTY_FILE_PACKET_MAX_LEN_def DIRTY_FILE_PACKET_FIX_LEN_def)
    obtain ok tot g where g: "(if 18 < n then recv_rest (n - 18) 18 f else Some (True, 18, f)) = Some (ok, tot, g)"
      and tot: "ok \<longrightarrow> tot = max 18 n" and p: "pending (fscript g) \<le> pending (fscript f)" and h: "p_len (fbuf g) = p_len (fbuf f)"
    proof (cases "18 < n")
      case True
      then have "0 < n - 18" "18 + (n - 18) \<le> BUF_LEN" using n by (auto simp: BUF_LEN_def)
      from recv_rest_total [OF this, of f] obtain ok tot g where
        1: "recv_rest (n - 18) 18 f = Some (ok, tot, g)" "ok \<longrightarrow> tot = 18 + (n - 18)"
        "pending (fscript g) \<le> pending (fscript f)" "\<forall>k < 18. fbuf g k = fbuf f k" by blast
      moreover have "p_len (fbuf g) = p_len (fbuf f)" using 1(4) by (intro load32_cong) simp
      ultimately show ?thesis using that [of ok tot g] True by simp
    qed (use that [of True 18 f] in simp)
    have eq: "fetch_packet env 18 f = (if \<not> ok then Some (Return (-1), g)
        else
          let m = fbuf g in
          if p_endable m \<noteq> 0 \<and> p_endable m \<noteq> 1 then Some (Return (-1), g)
          else if p_totallen m = 0 then Some (Return 0, g)
          else if ffile_len g \<noteq> 0 \<and> ffile_len g \<noteq> p_totallen m then Some (Return (-1), g)
          else
            let f = g\<lparr>ffile_len := p_totallen m, fstate := record_md5 m (fstate g)\<rparr>;
                block_len = unat (p_block_len m)
            in
            if unat (p_len m) \<noteq> DIRTY_FILE_PACKET_FIX_LEN + block_len then Some (Return (-1), f)
            else if \<not> fopened f \<and> \<not> ue_create env (new_file (tm_dirty_local_dirty_file_path (fstate f))) then Some (Return (-1), f)
            else if DIRTY_FILE_PACKET_FIX_LEN + block_len > BUF_LEN then None
            else
              let f = f\<lparr>fopened := True,
                        fstate := write_block (mem_read m DIRTY_FILE_PACKET_FIX_LEN block_len) (fopened f) (fstate f)\<rparr>
              in
              if p_endable m = 1 then Some (Complete, f)
              else
                let over = tot - n; src = DIRTY_FILE_PACKET_FIX_LEN + block_len in
                if over > 0 \<and> src + over > BUF_LEN then None
                else Some (Next over, f\<lparr>fbuf := mem_write m 0 (mem_read m src over)\<rparr>))"
      using False g by (simp add: fetch_packet_def n_def [symmetric])
    have "tot - n = 0 \<and> DIRTY_FILE_PACKET_FIX_LEN + unat (p_block_len (fbuf g)) \<le> BUF_LEN"
      if "ok" "unat (p_len (fbuf g)) = DIRTY_FILE_PACKET_FIX_LEN + unat (p_block_len (fbuf g))"
      using that tot h n by (simp add: n_def [symmetric] DIRTY_FILE_PACKET_FIX_LEN_def BUF_LEN_def)
    then show ?thesis using p unfolding eq by (auto simp: Let_def)
  qed
qed

text \<open>
  C19: the download never hangs and never leaves its buffer: for every sequence of events on
  the connection, with any bytes in them, the loop over the packets comes to a verdict.
\<close>

theorem download_ends:
  "\<exists>v f'. fetch_loop env 0 (int HEAD_LEN) 0 f = Some (v, f') \<and> (\<forall>over. v \<noteq> Next over)"
proof (induction "pending (fscript f)" arbitrary: f rule: less_induct)
  case less
  have "(0::nat) < 18" "0 + 18 \<le> BUF_LEN" by (simp_all add: BUF_LEN_def)
  from recv_at_total [OF this, of f] obtain r got s' where
    r: "recv_at 0 18 f = Some (r, f\<lparr>fbuf := mem_write (fbuf f) 0 got, fscript := s'\<rparr>)"
    "pending s' + length got \<le> pending (fscript f)" "got = take 18 (incoming (fscript f))"
    "r = 18 \<longleftrightarrow> 18 \<le> length (incoming (fscript f))" "r \<le> 18" by auto
  let ?g = "f\<lparr>fbuf := mem_write (fbuf f) 0 got, fscript := s'\<rparr>"
  show ?case
  proof (cases "r = 18")
    case False
    then show ?thesis using r by (simp add: fetch_loop.simps [of env 0] HEAD_LEN_def)
  next
    case True
    obtain v g where g: "fetch_packet env 18 ?g = Some (v, g)" "pending (fscript g) \<le> pending s'" "\<forall>over. v = Next over \<longrightarrow> over = 0"
      using fetch_packet_total [of env ?g] by auto
    have eq: "fetch_loop env 0 (int HEAD_LEN) 0 f =
        (case v of Next over \<Rightarrow> fetch_loop env (int over) (int HEAD_LEN - int over) over g | _ \<Rightarrow> Some (v, g))"
      using r(1) True g(1) by (simp add: fetch_loop.simps [of env 0] HEAD_LEN_def)
    show ?thesis
    proof (cases v)
      case (Next over)
      have "length got = 18" using r(3,4) True by simp
      then have "pending (fscript g) < pending (fscript f)" using g(2) r(2) by simp
      from less [OF this] show ?thesis using g(3) Next unfolding eq by simp
    qed (use eq in auto)
  qed
qed

section \<open>A server that follows the protocol\<close>

record packet_fields =
  pk_seq :: u32
  pk_ret :: u32
  pk_id :: u32
  pk_md5 :: bytes
  pk_totallen :: u32
  pk_reserve :: bytes

definition file_packet :: "packet_fields \<Rightarrow> u32 \<Rightarrow> bytes \<Rightarrow> bytes" where
  "file_packet h endable block =
     le32 (of_nat (78 + length block)) @ le32 (pk_seq h) @ le16 proto_dirty_get_file @ le32 (pk_ret h) @ le32 (pk_id h) @
     pk_md5 h @ le32 (pk_totallen h) @ le32 endable @ pk_reserve h @ le32 (of_nat (length block)) @ block"

fun file_stream :: "packet_fields \<Rightarrow> bytes list \<Rightarrow> bytes" where
  "file_stream h [] = []"
| "file_stream h [b] = file_packet h 1 b"
| "file_stream h (b # bs) = file_packet h 0 b @ file_stream h bs"

definition fields_ok :: "packet_fields \<Rightarrow> bool" where
  "fields_ok h \<longleftrightarrow> length (pk_md5 h) = 16 \<and> length (pk_reserve h) = 32 \<and> pk_totallen h \<noteq> 0"

lemma length_file_packet [simp]: "fields_ok h \<Longrightarrow> length (file_packet h e b) = 78 + length b"
  by (simp add: file_packet_def fields_ok_def)

lemma mem_read_part:
  assumes "mem_read m 0 n = bs" "k + j \<le> n"
  shows "mem_read m k j = take j (drop k bs)"
proof (rule nth_equalityI)
  have l: "length bs = n" using assms(1) by auto
  then show "length (mem_read m k j) = length (take j (drop k bs))" using assms(2) by simp
  fix i assume "i < length (mem_read m k j)"
  then have i: "i < j" by simp
  then have "bs ! (k + i) = m (k + i)" using assms by (auto simp: mem_read_def simp flip: assms(1))
  then show "mem_read m k j ! i = take j (drop k bs) ! i" using i l assms(2) by (simp add: mem_read_def)
qed

lemma load32_part: "mem_read m 0 n = bs \<Longrightarrow> k + 4 \<le> n \<Longrightarrow> load32 m k = of_le32 (take 4 (drop k bs))"
  by (simp add: load32_def mem_read_part)

lemma load16_part:
  assumes "mem_read m 0 n = bs" "k + 2 \<le> n" "take 2 (drop k bs) = le16 v"
  shows "load16 m k = v"
proof -
  have "mem_read m k 2 = le16 v" using mem_read_part [OF assms(1,2)] assms(3) by simp
  then have "m k = ucast v" "m (k + 1) = ucast (drop_bit 8 v)" by (simp_all add: mem_read_def le16_def upt_rec numeral_2_eq_2)
  then show ?thesis by (intro bit_word_eqI) (auto simp: load16_def bit_simps)
qed

lemma packet_head:
  assumes "fields_ok h" "length b \<le> 4096" "mem_read m 0 n = take n (file_packet h e b)" "18 \<le> n"
  shows "p_len m = of_nat (78 + length b)" "p_cmd m = proto_dirty_get_file"
proof -
  have "take 4 (take n (file_packet h e b)) = le32 (of_nat (78 + length b))"
    using assms(4) by (simp add: file_packet_def min_def)
  then show "p_len m = of_nat (78 + length b)" using load32_part [OF assms(3), of 0] assms(4) by simp
  have "take 2 (drop 8 (take n (file_packet h e b))) = le16 proto_dirty_get_file"
    using assms(4) by (simp add: file_packet_def drop_take min_def)
  then show "p_cmd m = proto_dirty_get_file" using load16_part [OF assms(3)] assms(4) by simp
qed

lemma packet_body:
  assumes "fields_ok h" "mem_read m 0 (78 + length b) = file_packet h e b"
  shows "p_md5 m = pk_md5 h" "p_totallen m = pk_totallen h" "p_endable m = e"
    "p_block_len m = of_nat (length b)" "mem_read m 78 (length b) = b"
  using assms(1)
  by (simp_all add: load32_part [OF assms(2)] mem_read_part [OF assms(2)] file_packet_def fields_ok_def)

definition note_md5 :: "packet_fields \<Rightarrow> update_state \<Rightarrow> update_state" where
  "note_md5 h st = (if servr_md5_recorded st then st else st\<lparr>servr_md5_dgst := pk_md5 h, servr_md5_recorded := True\<rparr>)"

lemma mem_read_two:
  "mem_read (mem_write (mem_write m 0 a) (length a) b) 0 (length a + length b) = a @ b"
  by (rule nth_equalityI) (auto simp: mem_read_def mem_write_def nth_append)

lemma one_packet:
  assumes h: "fields_ok h" and b: "length b \<le> 4096" and e: "e = 0 \<or> e = 1"
    and s: "incoming (fscript f) = file_packet h e b @ later"
    and fl: "ffile_len f = 0 \<or> ffile_len f = pk_totallen h"
    and c: "fopened f \<or> ue_create env (new_file (tm_dirty_local_dirty_file_path (fstate f)))"
  shows "\<exists>f1 f2. recv_at 0 18 f = Some (18, f1) \<and>
    fetch_packet env 18 f1 = Some (if e = 1 then Complete else Next 0, f2) \<and>
    incoming (fscript f2) = later \<and> fopened f2 \<and> ffile_len f2 = pk_totallen h \<and>
    fstate f2 = write_block b (fopened f) (note_md5 h (fstate f))"
proof -
  let ?pk = "file_packet h e b" and ?L = "78 + length b"
  have "(0::nat) < 18" "0 + 18 \<le> BUF_LEN" by (simp_all add: BUF_LEN_def)
  from recv_at_total [OF this, of f] obtain r got s1 where
    1: "recv_at 0 18 f = Some (r, f\<lparr>fbuf := mem_write (fbuf f) 0 got, fscript := s1\<rparr>)"
    "got = take 18 (incoming (fscript f))" "r = 18 \<longleftrightarrow> 18 \<le> length (incoming (fscript f))"
    "r = 18 \<longrightarrow> incoming s1 = drop 18 (incoming (fscript f))" by auto
  have got: "got = take 18 ?pk" "r = 18" "incoming s1 = drop 18 ?pk @ later" "length got = 18"
    using 1(2-4) s h by auto
  define f1 where "f1 = f\<lparr>fbuf := mem_write (fbuf f) 0 got, fscript := s1\<rparr>"
  have "(0::nat) < ?L - 18" "18 + (?L - 18) \<le> BUF_LEN" using b by (auto simp: BUF_LEN_def)
  from recv_at_total [OF this, of f1] obtain r' got' s2 where
    2: "recv_at 18 (?L - 18) f1 = Some (r', f1\<lparr>fbuf := mem_write (fbuf f1) 18 got', fscript := s2\<rparr>)"
    "got' = take (?L - 18) (incoming (fscript f1))" "r' = int (?L - 18) \<longleftrightarrow> ?L - 18 \<le> length (incoming (fscript f1))"
    "r' = int (?L - 18) \<longrightarrow> incoming s2 = drop (?L - 18) (incoming (fscript f1))" by blast
  have got': "got' = drop 18 ?pk" "r' = int (?L - 18)" "incoming s2 = later"
    using 2(2-4) got(3) h by (auto simp: f1_def)
  define g where "g = f1\<lparr>fbuf := mem_write (fbuf f1) 18 got', fscript := s2\<rparr>"
  have rest: "recv_rest (60 + length b) 18 f1 = Some (True, 78 + length b, g)"
    by (subst recv_rest.simps) (use 2(1) got'(2) in \<open>simp add: g_def\<close>)
  have m: "mem_read (fbuf g) 0 ?L = ?pk"
    using mem_read_two [of "fbuf f" got got'] got(1,4) got'(1) h by (simp add: g_def f1_def)
  have h1: "p_len (fbuf f1) = of_nat ?L" "p_cmd (fbuf f1) = proto_dirty_get_file"
    using packet_head [OF h b, of "fbuf f1" 18] got(1,4) by (simp_all add: f1_def)
  have h2: "p_len (fbuf g) = of_nat ?L"
    using packet_head(1) [OF h b, of "fbuf g" ?L] m h by simp
  have len: "unat (of_nat ?L :: u32) = ?L" "unat (of_nat (length b) :: u32) = length b"
    by (rule unat_of_nat_small, use b in simp)+
  note body = packet_body [OF h m]
  have tl: "pk_totallen h \<noteq> 0" using h by (simp add: fields_ok_def)
  have rec: "record_md5 (fbuf g) st = note_md5 h st" for st by (simp add: record_md5_def note_md5_def body(1))
  have path: "tm_dirty_local_dirty_file_path (note_md5 h st) = tm_dirty_local_dirty_file_path st" for st
    by (simp add: note_md5_def)
  have fg: "ffile_len g = ffile_len f" "fopened g = fopened f" "fstate g = fstate f" by (simp_all add: g_def f1_def)
  let ?f2 = "g\<lparr>ffile_len := pk_totallen h, fstate := write_block b (fopened f) (note_md5 h (fstate f)), fopened := True\<rparr>"
  have "\<exists>f2. fetch_packet env 18 f1 = Some (if e = 1 then Complete else Next 0, f2) \<and> fscript f2 = fscript g \<and>
      fopened f2 \<and> ffile_len f2 = pk_totallen h \<and> fstate f2 = write_block b (fopened f) (note_md5 h (fstate f))"
    using b e fl c tl
    by (auto simp: fetch_packet_def Let_def h1 h2 len rest body rec path fg DIRTY_FILE_PACKET_MAX_LEN_def
      DIRTY_FILE_PACKET_FIX_LEN_def BUF_LEN_def simp del: of_nat_add)
  then show ?thesis using 1(1) got(2) got'(3) by (auto simp: f1_def g_def)
qed

lemma write_blocks:
  assumes "files st (new_file (tm_dirty_local_dirty_file_path st)) = Some old"
  shows "files (write_block b True st) (new_file (tm_dirty_local_dirty_file_path st)) = Some (old @ b)"
  using assms by (simp add: write_block_def)

lemma stream_rest:
  "bs \<noteq> [] \<Longrightarrow> fields_ok h \<Longrightarrow> \<forall>b \<in> set bs. length b \<le> 4096 \<Longrightarrow> incoming (fscript f) = file_stream h bs @ later \<Longrightarrow>
    ffile_len f = 0 \<or> ffile_len f = pk_totallen h \<Longrightarrow>
    fopened f \<or> ue_create env (new_file (tm_dirty_local_dirty_file_path (fstate f))) \<Longrightarrow>
    \<exists>f'. fetch_loop env 0 (int HEAD_LEN) 0 f = Some (Complete, f') \<and>
      fstate f' = foldl (\<lambda>st b. write_block b True st)
        (write_block (hd bs) (fopened f) (note_md5 h (fstate f))) (tl bs)"
proof (induction h bs arbitrary: f rule: file_stream.induct)
  case (2 h b)
  from one_packet [of h b 1 f later env] 2 obtain f1 f2 where
    "recv_at 0 18 f = Some (18, f1)" "fetch_packet env 18 f1 = Some (Complete, f2)"
    "fstate f2 = write_block b (fopened f) (note_md5 h (fstate f))" by auto
  then show ?case by (simp add: fetch_loop.simps [of env 0] HEAD_LEN_def)
next
  case (3 h b b' bs)
  from one_packet [of h b 0 f "file_stream h (b' # bs) @ later" env] 3(3-7) obtain f1 f2 where
    1: "recv_at 0 18 f = Some (18, f1)" "fetch_packet env 18 f1 = Some (Next 0, f2)"
    "incoming (fscript f2) = file_stream h (b' # bs) @ later" "fopened f2" "ffile_len f2 = pk_totallen h"
    "fstate f2 = write_block b (fopened f) (note_md5 h (fstate f))" by auto
  have eq: "fetch_loop env 0 (int HEAD_LEN) 0 f = fetch_loop env 0 (int HEAD_LEN) 0 f2"
    using 1(1,2) by (simp add: fetch_loop.simps [of env 0 _ _ f] HEAD_LEN_def)
  have "servr_md5_recorded (fstate f2)" by (simp add: 1(6) note_md5_def write_block_def Let_def)
  then have n: "note_md5 h (fstate f2) = fstate f2" by (simp add: note_md5_def)
  from 3(1) [of f2] 3(3,4) 1(3-5) obtain f' where
    "fetch_loop env 0 (int HEAD_LEN) 0 f2 = Some (Complete, f')"
    "fstate f' = foldl (\<lambda>st b. write_block b True st) (write_block b' True (fstate f2)) bs"
    by (auto simp: n)
  then show ?case using eq 1(6) by simp
qed simp
definition md5_reply :: "packet_fields \<Rightarrow> bytes" where
  "md5_reply h = le32 34 @ le32 (pk_seq h) @ le16 proto_dirty_cmp_md5 @ le32 (pk_ret h) @ le32 (pk_id h) @ pk_md5 h"

lemma send_ok:
  assumes "evs = Took k # evs'" "length bs \<le> k" "bs \<noteq> []"
  shows "send_packet bs evs st = Some (int (length bs), evs', st\<lparr>sent_packets := sent_packets st @ [bs]\<rparr>)"
proof -
  have "send_loop bs [] (Took k # evs') = (int (length bs), bs, evs')"
    using assms(2,3) by (simp add: send_loop.simps)
  then show ?thesis using assms(1,3) by (simp add: send_packet_def safe_tcp_send_n_def)
qed

lemma mem_read_nonempty: "0 < n \<Longrightarrow> mem_read m p n \<noteq> []"
  by (simp add: mem_read_def)

lemma finish_update_ok:
  assumes "files st (new_file path) = Some bs" "tm_dirty_local_dirty_file_path st = path" "length path < 1023"
    "ue_md5 env bs = Some (servr_md5_dgst st)"
    "tm_dirty_load_new (ue_mal env) ((files st)(path \<mapsto> bs, new_file path := None)) path (process st) (machines st) = Some (0, sh)"
  shows "finish_update env st = Some (0, st\<lparr>local_md5_dgst := servr_md5_dgst st,
    files := (files st)(path \<mapsto> bs, new_file path := None), machines := sh\<rparr>)"
proof -
  have "replace_file (new_file path) path (files st) = (files st)(path \<mapsto> bs, new_file path := None)"
    using new_file_other [OF assms(3)] assms(1) by (auto simp: replace_file_def Let_def fun_eq_iff)
  then show ?thesis using assms by (simp add: finish_update_def Let_def tm_dirty_generate_md5_from_file_def)
qed

lemma blocks_file:
  fixes h :: packet_fields
  assumes "bs \<noteq> []" "\<not> servr_md5_recorded st"
  defines "st' \<equiv> foldl (\<lambda>st b. write_block b True st) (write_block (hd bs) False (note_md5 h st)) (tl bs)"
  shows "files st' = (files st)(new_file (tm_dirty_local_dirty_file_path st) \<mapsto> concat bs)"
    "servr_md5_dgst st' = pk_md5 h" "tm_dirty_local_dirty_file_path st' = tm_dirty_local_dirty_file_path st"
    "process st' = process st" "machines st' = machines st" "sent_packets st' = sent_packets st"
proof -
  let ?new = "new_file (tm_dirty_local_dirty_file_path st)"
  have go: "files (foldl (\<lambda>st b. write_block b True st) s xs) = (files st)(?new \<mapsto> old @ concat xs) \<and>
      servr_md5_dgst (foldl (\<lambda>st b. write_block b True st) s xs) = servr_md5_dgst s \<and>
      tm_dirty_local_dirty_file_path (foldl (\<lambda>st b. write_block b True st) s xs) = tm_dirty_local_dirty_file_path st \<and>
      process (foldl (\<lambda>st b. write_block b True st) s xs) = process s \<and>
      machines (foldl (\<lambda>st b. write_block b True st) s xs) = machines s \<and>
      sent_packets (foldl (\<lambda>st b. write_block b True st) s xs) = sent_packets s"
    if "files s = (files st)(?new \<mapsto> old)" "tm_dirty_local_dirty_file_path s = tm_dirty_local_dirty_file_path st" for s old xs
    using that
  proof (induction xs arbitrary: s old)
    case (Cons x xs)
    let ?s = "write_block x True s"
    have "files ?s = (files st)(?new \<mapsto> old @ x)" "tm_dirty_local_dirty_file_path ?s = tm_dirty_local_dirty_file_path st"
      using Cons.prems by (simp_all add: write_block_def Let_def fun_eq_iff)
    from Cons.IH [OF this] show ?case by (simp add: write_block_def Let_def)
  qed simp
  let ?s = "write_block (hd bs) False (note_md5 h st)"
  have s: "files ?s = (files st)(?new \<mapsto> hd bs)" "tm_dirty_local_dirty_file_path ?s = tm_dirty_local_dirty_file_path st"
    "servr_md5_dgst ?s = pk_md5 h" "process ?s = process st" "machines ?s = machines st" "sent_packets ?s = sent_packets st"
    using assms(2) by (simp_all add: write_block_def Let_def note_md5_def)
  have "hd bs @ concat (tl bs) = concat bs" using assms(1) by (cases bs) auto
  with go [OF s(1,2), of "tl bs"] s(3-6) show
    "files st' = (files st)(?new \<mapsto> concat bs)" "servr_md5_dgst st' = pk_md5 h"
    "tm_dirty_local_dirty_file_path st' = tm_dirty_local_dirty_file_path st"
    "process st' = process st" "machines st' = machines st" "sent_packets st' = sent_packets st"
    unfolding st'_def by simp_all
qed

text \<open>A reply whose MD5 differs leads to the download, and what is then sent as the request.\<close>

lemma md5_reply_read:
  assumes h: "fields_ok h" and s: "incoming (ue_recv env) = md5_reply h @ later"
  shows "\<exists>s. safe_tcp_recv_n 34 (ue_recv env) = Some (34, md5_reply h, s) \<and> incoming s = later"
proof -
  have l: "length (md5_reply h) = 34" using h by (simp add: md5_reply_def fields_ok_def)
  obtain r got s' where r: "recv_loop 34 [] (ue_recv env) = (r, got, s')" by (cases "recv_loop 34 [] (ue_recv env)")
  from recv_loop_spec [OF r] s l show ?thesis by (auto simp: safe_tcp_recv_n_def r)
qed

lemma reply_fields:
  fixes h :: packet_fields and buf :: memory
  assumes "fields_ok h"
  defines "m \<equiv> mem_write buf 0 (md5_reply h)"
  shows "p_cmd m = proto_dirty_cmp_md5" "p_len m = 34" "p_md5 m = pk_md5 h"
proof -
  have l: "length (md5_reply h) = 34" using assms(1) by (simp add: md5_reply_def fields_ok_def)
  have m: "mem_read m 0 34 = md5_reply h" using l by (simp add: m_def)
  show "p_cmd m = proto_dirty_cmp_md5"
    by (rule load16_part [OF m]) (use assms(1) in \<open>simp_all add: md5_reply_def fields_ok_def\<close>)
  show "p_len m = 34" "p_md5 m = pk_md5 h"
    using assms(1) by (simp_all add: load32_part [OF m] mem_read_part [OF m] md5_reply_def fields_ok_def)
qed

definition request_packet :: "memory \<Rightarrow> bytes" where
  "request_packet buf = mem_read (tm_dirty_init_proto_head buf 66 proto_dirty_get_file 0 0 0) 0 66"

lemma request_md5:
  assumes "fields_ok h"
  shows "take 16 (drop 18 (request_packet (mem_write buf 0 (md5_reply h)))) = pk_md5 h" "length (request_packet m) = 66"
proof -
  let ?m = "mem_write buf 0 (md5_reply h)"
  have "mem_read (tm_dirty_init_proto_head ?m 66 proto_dirty_get_file 0 0 0) 18 16 = p_md5 ?m"
    unfolding tm_dirty_init_proto_head_def by (rule mem_read_write_other) simp
  moreover have "take 16 (drop 18 (mem_read mm 0 66)) = mem_read mm 18 16" for mm
    using mem_read_part [of mm 66 "mem_read mm 0 66" 18 16] by simp
  ultimately show "take 16 (drop 18 (request_packet ?m)) = pk_md5 h"
    unfolding request_packet_def using reply_fields(3) [OF assms] by simp
  show "length (request_packet m) = 66" by (simp add: request_packet_def)
qed



text \<open>
  An exchange as the protocol has it: a server can be reached, takes both requests, announces
  the MD5 of its file, which is not the one of the local file, and sends the file in blocks.
\<close>

definition good_exchange :: "update_env \<Rightarrow> update_state \<Rightarrow> packet_fields \<Rightarrow> bytes list \<Rightarrow> bool" where
  "good_exchange env st h blocks \<longleftrightarrow>
     (let path = tm_dirty_local_dirty_file_path st in
      ue_mkdir env path \<and> \<not> ue_access env path \<and> length path < 1023 \<and> ue_create env (new_file path) \<and>
      (files st path = None \<or> local_md5_exist st) \<and>
      pk_md5 h \<noteq> (if files st path = None then replicate 16 0 else local_md5_dgst st) \<and>
      tm_dirty_valid_server_count st \<noteq> 0 \<and> choose_server env st \<noteq> None \<and>
      ue_send env = [Took 18, Took 66] \<and> incoming (ue_recv env) = md5_reply h @ file_stream h blocks \<and>
      fields_ok h \<and> blocks \<noteq> [] \<and> (\<forall>b \<in> set blocks. length b \<le> 4096) \<and> ue_md5 env (concat blocks) = Some (pk_md5 h))"

lemma try_servers_cong:
  "tm_dirty_available_server_flag st' = tm_dirty_available_server_flag st \<Longrightarrow> tm_dirty_valid_server_count st' = tm_dirty_valid_server_count st \<Longrightarrow>
   tm_dirty_server_ip st' = tm_dirty_server_ip st \<Longrightarrow> tm_dirty_server_port st' = tm_dirty_server_port st \<Longrightarrow>
   try_servers env st' is = try_servers env st is"
  by (induction "is") (simp_all add: Let_def)

lemma request_file_ok:
  assumes h: "fields_ok h" and b: "blocks \<noteq> []" "\<forall>b \<in> set blocks. length b \<le> 4096"
    and s: "incoming s = file_stream h blocks" and c: "ue_create env (new_file (tm_dirty_local_dirty_file_path st))"
    and r: "\<not> servr_md5_recorded st" and e: "evs = [Took 66]"
  shows "\<exists>st2. request_file env buf s evs st = finish_update env st2 \<and>
    files st2 = (files st)(new_file (tm_dirty_local_dirty_file_path st) \<mapsto> concat blocks) \<and> servr_md5_dgst st2 = pk_md5 h \<and>
    tm_dirty_local_dirty_file_path st2 = tm_dirty_local_dirty_file_path st \<and>
    process st2 = process st \<and> machines st2 = machines st \<and> sent_packets st2 = sent_packets st @ [request_packet buf]"
proof -
  let ?buf = "tm_dirty_init_proto_head buf 66 proto_dirty_get_file 0 0 0"
  let ?st = "st\<lparr>sent_packets := sent_packets st @ [request_packet buf]\<rparr>"
  let ?f = "\<lparr>fbuf = ?buf, fscript = s, fopened = False, ffile_len = 0, fstate = ?st\<rparr>"
  have sd: "send_packet (mem_read ?buf 0 66) evs st = Some (66, [], ?st)"
    using send_ok [OF e, of "request_packet buf"] request_md5(2) [OF h, of buf] mem_read_nonempty [of 66]
    by (simp add: request_packet_def)
  from stream_rest [OF b(1) h b(2), of ?f "[]" env] s c obtain f' where
    f': "fetch_loop env 0 (int HEAD_LEN) 0 ?f = Some (Complete, f')"
    "fstate f' = foldl (\<lambda>st b. write_block b True st) (write_block (hd blocks) False (note_md5 h ?st)) (tl blocks)" by auto
  have "request_file env buf s evs st = finish_update env (fstate f')"
    by (simp add: request_file_def Let_def sd f'(1))
  then show ?thesis using blocks_file [OF b(1), of ?st h] r unfolding f'(2) by auto
qed

text \<open>A state and an environment to try this on.\<close>

definition ab_fields :: packet_fields where
  "ab_fields = \<lparr>pk_seq = 0, pk_ret = 0, pk_id = 0, pk_md5 = replicate 16 1, pk_totallen = 3, pk_reserve = replicate 32 0\<rparr>"

definition ab_env :: update_env where
  "ab_env = \<lparr>ue_mkdir = (\<lambda>_. True), ue_access = (\<lambda>_. False), ue_connect = (\<lambda>_ _. True), ue_send = [Took 18, Took 66],
     ue_recv = [Data (md5_reply ab_fields), Recv_intr, Data (file_stream ab_fields [[0x61], [0x62, 10]])],
     ue_md5 = (\<lambda>_. Some (replicate 16 1)), ue_create = (\<lambda>_. True), ue_mal = (\<lambda>_. True), ue_junk = (\<lambda>_. 0)\<rparr>"

lemma ab_exchange: "good_exchange ab_env ab_state ab_fields [[0x61], [0x62, 10]]"
proof -
  have c: "choose_server ab_env ab_state \<noteq> None" by (simp add: choose_server_def ab_env_def ab_state_def)
  have f: "fields_ok ab_fields" by (simp add: fields_ok_def ab_fields_def)
  have "(1 :: u8) \<noteq> 0" by simp
  then have n: "pk_md5 ab_fields \<noteq> replicate 16 0" by (simp add: ab_fields_def)
  show ?thesis unfolding good_exchange_def Let_def using c f n
    by (simp add: ab_state_def ab_env_def del: file_stream.simps) (simp add: ab_fields_def)
qed

lemma exchange_downloads:
  assumes x: "good_exchange env st h blocks"
  shows "\<exists>st' p1 p2. tm_dirty_load_from_server env st = finish_update env st' \<and>
    files st' = (files st)(new_file (tm_dirty_local_dirty_file_path st) \<mapsto> concat blocks) \<and> servr_md5_dgst st' = pk_md5 h \<and>
    tm_dirty_local_dirty_file_path st' = tm_dirty_local_dirty_file_path st \<and> process st' = process st \<and> machines st' = machines st \<and>
    sent_packets st' = sent_packets st @ [p1, p2] \<and> take 16 (drop 18 p2) = pk_md5 h"
proof -
  let ?path = "tm_dirty_local_dirty_file_path st"
  let ?local = "if files st ?path = None then replicate 16 0 else local_md5_dgst st"
  have g: "ue_mkdir env ?path" "\<not> ue_access env ?path" "length ?path < 1023" "ue_create env (new_file ?path)"
    "files st ?path = None \<or> local_md5_exist st" "pk_md5 h \<noteq> ?local" "tm_dirty_valid_server_count st \<noteq> 0"
    "ue_send env = [Took 18, Took 66]" "incoming (ue_recv env) = md5_reply h @ file_stream h blocks"
    "fields_ok h" "blocks \<noteq> []" "\<forall>b \<in> set blocks. length b \<le> 4096" "ue_md5 env (concat blocks) = Some (pk_md5 h)"
    using x by (simp_all add: good_exchange_def Let_def)
  obtain flag where fl: "choose_server env st = Some flag" using x by (auto simp: good_exchange_def Let_def)
  define st1 where "st1 = st\<lparr>servr_md5_recorded := False, local_md5_dgst := ?local\<rparr>"
  have k: "know_local_md5 env (st\<lparr>servr_md5_recorded := False\<rparr>) = (True, st1)"
    using g(2,5) by (auto simp: know_local_md5_def Let_def st1_def)
  have c: "choose_server env st1 = Some flag"
    using fl try_servers_cong [of st1 st env] by (simp add: choose_server_def st1_def)
  define st2 where "st2 = st1\<lparr>tm_dirty_available_server_flag := flag, connect_failed_counter := 0\<rparr>"
  have l: "tm_dirty_load_from_server env st = compare_md5 env st2"
    using g(1,7) by (simp add: tm_dirty_load_from_server_def Let_def k c) (simp add: st1_def st2_def)
  define buf where "buf = tm_dirty_init_proto_head (ue_junk env) 18 proto_dirty_cmp_md5 0 0 0"
  define st3 where "st3 = st2\<lparr>sent_packets := sent_packets st @ [mem_read buf 0 18]\<rparr>"
  have "mem_read buf 0 18 \<noteq> []" by (simp add: mem_read_nonempty)
  then have sd: "send_packet (mem_read buf 0 18) (ue_send env) st2 = Some (18, [Took 66], st3)"
    using send_ok [OF g(8), of "mem_read buf 0 18" st2] by (simp add: st3_def st2_def st1_def)
  obtain s where s: "safe_tcp_recv_n 34 (ue_recv env) = Some (34, md5_reply h, s)" "incoming s = file_stream h blocks"
    using md5_reply_read [OF g(10,9)] by blast
  let ?buf = "mem_write buf 0 (md5_reply h)"
  have "local_md5_dgst st3 = ?local" by (simp add: st3_def st2_def st1_def)
  then have cm: "compare_md5 env st2 = request_file env ?buf s [Took 66] st3"
    using g(6) reply_fields [OF g(10), of buf] by (auto simp: compare_md5_def buf_def [symmetric] Let_def sd s(1))
  have p3: "tm_dirty_local_dirty_file_path st3 = ?path" "files st3 = files st" "process st3 = process st" "machines st3 = machines st"
    "\<not> servr_md5_recorded st3" "sent_packets st3 = sent_packets st @ [mem_read buf 0 18]"
    by (simp_all add: st3_def st2_def st1_def)
  from request_file_ok [OF g(10-12) s(2) _ p3(5), of env "[Took 66]" ?buf] g(4) p3 obtain st4 where
    r: "request_file env ?buf s [Took 66] st3 = finish_update env st4"
    "files st4 = (files st)(new_file ?path \<mapsto> concat blocks)" "servr_md5_dgst st4 = pk_md5 h"
    "tm_dirty_local_dirty_file_path st4 = ?path" "process st4 = process st" "machines st4 = machines st"
    "sent_packets st4 = sent_packets st @ [mem_read buf 0 18, request_packet ?buf]" by auto
  show ?thesis using l cm r request_md5(1) [OF g(10), of buf]
    by (intro exI [of _ st4] exI [of _ "mem_read buf 0 18"] exI [of _ "request_packet ?buf"]) simp
qed

lemma exchange_installs:
  assumes x: "good_exchange env st h blocks" and f: "concat blocks = file_of ls @ l"
    "list_all line_ok ls" "line_ok l" "l = [] \<or> \<not> list_all blank l"
    "length (file_words ls) < 81920" "sum_list (map (length \<circ> stored_word) (file_words ls @ last_words l)) < 524288"
    and m: "updating (process st)" "daemon_called (process st)" "flags (machines st) 0 \<in> {0, 1}" "\<forall>s. ue_mal env s"
  shows "\<exists>st' p1 p2. tm_dirty_load_from_server env st = Some (0, st') \<and>
    files st' (tm_dirty_local_dirty_file_path st) = Some (concat blocks) \<and> local_md5_dgst st' = pk_md5 h \<and>
    sent_packets st' = sent_packets st @ [p1, p2] \<and> take 16 (drop 18 p2) = pk_md5 h \<and>
    (\<forall>cs shm junk msg tag. tm_dirty_check_jump_tag cs shm (machines st') (process st') junk msg tag =
      Some (service_answer (filter (\<lambda>w. w \<noteq> []) (map stored_word (file_words ls @ last_words l))) junk msg tag, process st'))"
proof -
  let ?path = "tm_dirty_local_dirty_file_path st"
  have g: "length ?path < 1023" "ue_md5 env (concat blocks) = Some (pk_md5 h)" using x by (simp_all add: good_exchange_def Let_def)
  from exchange_downloads [OF x] obtain st4 p1 p2 where
    r: "tm_dirty_load_from_server env st = finish_update env st4" "files st4 = (files st)(new_file ?path \<mapsto> concat blocks)"
    "servr_md5_dgst st4 = pk_md5 h" "tm_dirty_local_dirty_file_path st4 = ?path" "process st4 = process st" "machines st4 = machines st"
    "sent_packets st4 = sent_packets st @ [p1, p2]" "take 16 (drop 18 p2) = pk_md5 h" by blast
  define fs where "fs = (files st4)(?path \<mapsto> concat blocks, new_file ?path := None)"
  have p: "fs ?path = Some (concat blocks)" using new_file_other [OF g(1)] by (simp add: fs_def)
  with f(1) have "fs ?path = Some (file_of ls @ l)" by simp
  from load_then_check [where files = fs and path = ?path, OF m(1-4) this f(2-6)]
  obtain sh where sh: "tm_dirty_load_new (ue_mal env) fs ?path (process st) (machines st) = Some (0, sh)"
    "\<forall>cs shm junk msg tag. tm_dirty_check_jump_tag cs shm sh (process st) junk msg tag =
      Some (service_answer (filter (\<lambda>w. w \<noteq> []) (map stored_word (file_words ls @ last_words l))) junk msg tag, process st)"
    by blast
  have "finish_update env st4 = Some (0, st4\<lparr>local_md5_dgst := servr_md5_dgst st4, files := fs, machines := sh\<rparr>)"
    unfolding fs_def by (rule finish_update_ok [OF _ r(4) g(1)]) (use r g(2) sh(1) in \<open>simp_all add: fs_def\<close>)
  then show ?thesis
    using r(1,3,5,7,8) sh(2) p
    by (intro exI [of _ "st4\<lparr>local_md5_dgst := servr_md5_dgst st4, files := fs, machines := sh\<rparr>"] exI [of _ p1] exI [of _ p2]) simp
qed

text \<open>
  C5: an exchange that follows the protocol (\<open>good_exchange\<close>: directories can be made,
  a server is reached and takes both requests, the sum of the local file is known or there is no
  such file, the server's is another one and that of the blocks it sends, the blocks have at most
  4096 bytes, the new file can be created, the path has fewer than 1023 bytes) installs the file
  and answers 0, when the service is set up, memory suffices and the file can be loaded: no line
  with a null byte or with 0xFF for its first byte after blanks, no last line of blanks only
  without a line break, fewer than 81920 words on the lines with a break, and fewer than 524288
  bytes of stored words. Then the local file is the concatenation of the blocks, whatever pieces
  they arrive in, its MD5 is remembered, and checks answer for the words of that file. The request
  for the file carries in its MD5 field the sum the server has just sent, not the one of the local
  file.
\<close>

theorem update_installs:
  assumes x: "good_exchange env st h blocks" and f: "concat blocks = file_of ls @ l"
    "list_all line_ok ls" "line_ok l" "l = [] \<or> \<not> list_all blank l"
    "length (file_words ls) < 81920" "sum_list (map (length \<circ> stored_word) (file_words ls @ last_words l)) < 524288"
    and m: "updating (process st)" "daemon_called (process st)" "flags (machines st) 0 \<in> {0, 1}" "\<forall>s. ue_mal env s"
  shows "\<exists>st' p1 p2. tm_dirty_load_from_server env st = Some (0, st') \<and>
    files st' (tm_dirty_local_dirty_file_path st) = Some (concat blocks) \<and> local_md5_dgst st' = pk_md5 h \<and>
    sent_packets st' = sent_packets st @ [p1, p2] \<and> take 16 (drop 18 p2) = pk_md5 h \<and>
    (\<forall>cs shm junk msg tag. tm_dirty_check_jump_tag cs shm (machines st') (process st') junk msg tag =
      Some (service_answer (filter (\<lambda>w. w \<noteq> []) (map stored_word (file_words ls @ last_words l))) junk msg tag, process st'))"
  using assms by (rule exchange_installs)

lemma ab_ready:
  "updating (process ab_state)" "daemon_called (process ab_state)" "flags (machines ab_state) 0 \<in> {0, 1}" "\<forall>s. ue_mal ab_env s"
  using ready_proc_ok new_shared_flag by (simp_all add: ab_state_def ab_env_def)

lemma ab_file: "concat [[0x61], [0x62, 10]] = file_of [[0x61, 0x62 :: u8]] @ []"
  by simp

theorem update_installs_witness:
  "\<exists>st' p1 p2. tm_dirty_load_from_server ab_env ab_state = Some (0, st') \<and>
    files st' [100] = Some [0x61, 0x62, 10] \<and> sent_packets st' = [p1, p2] \<and>
    tm_dirty_check_jump_tag empty_config any_env (machines st') (process st') [] [0x61, 0x42] 0 = Some (3, process st')"
proof -
  from update_installs [OF ab_exchange ab_file _ _ _ _ _ ab_ready] obtain st' p1 p2 where
    r: "tm_dirty_load_from_server ab_env ab_state = Some (0, st')" "files st' [100] = Some [0x61, 0x62, 10]" "sent_packets st' = [p1, p2]"
    and c: "tm_dirty_check_jump_tag cs shm (machines st') (process st') junk msg tag =
      Some (service_answer [[0x41, 0x42]] junk msg tag, process st')" for cs shm junk msg tag
    by (auto simp: ab_line stored_ab ab_state_def)
  from r show ?thesis using c [of empty_config any_env "[]" "[0x61, 0x42]" 0]
    by (auto simp: filter_ab service_answer_def dirty_answer_def)
qed

text \<open>The same exchange, as an update that installs its file.\<close>

theorem update_all_or_nothing_witness:
  "\<exists>st'. tm_dirty_load_from_server ab_env ab_state = Some (0, st') \<and> installed ab_env ab_state 0 st'"
proof -
  from exchange_installs [OF ab_exchange ab_file _ _ _ _ _ ab_ready] obtain st' where
    r: "tm_dirty_load_from_server ab_env ab_state = Some (0, st')" "files st' [100] = Some [0x61, 0x62, 10]"
    by (auto simp: ab_line stored_ab ab_state_def)
  have "length (tm_dirty_local_dirty_file_path ab_state) < 1023" by (simp add: ab_state_def)
  from update_all_or_nothing [OF r(1) this ab_ready(1,3)] r(2)
  have "installed ab_env ab_state 0 st'" by (auto simp: ab_state_def)
  with r(1) show ?thesis by blast
qed

end
