(* ===== verification/DirtyDaemon.thy ===== *)
theory DirtyDaemon
  imports DirtyFetch
begin

unbundle bit_operations_syntax

text \<open>
  \<open>tm_dirty/tm_dirty.c\<close>: starting the updating process. The list of servers is parsed into two
  tables of 16 rows, the machines are mapped, the first words are loaded, and a thread goes on
  from there. Also the report of advertisements, which shares the packet head. \<open>None\<close> is a
  write outside a table or buffer.
\<close>

section \<open>The list of servers\<close>

definition addr_char :: "u8 \<Rightarrow> bool" where
  "addr_char c \<longleftrightarrow> is_digit c \<or> c = 58 \<or> c = 59 \<or> c = 46"

text \<open>\<open>strtoul\<close> of text without blanks and signs: digits up to another character, clamped.\<close>

definition strtoul10 :: "bytes \<Rightarrow> int" where
  "strtoul10 s = min (2 ^ 64 - 1) (dec_value 0 s)"

text \<open>The result code, the number of servers, and the tables of addresses and ports.\<close>

function parse_servers ::
  "(bytes \<Rightarrow> bool) \<Rightarrow> bytes \<Rightarrow> nat \<Rightarrow> bytes list \<Rightarrow> u16 list \<Rightarrow> (int \<times> nat \<times> bytes list \<times> u16 list) option" where
  "parse_servers aton str i ips ports =
     (case dropWhile (\<lambda>c. c \<noteq> 58) str of
        [] \<Rightarrow> Some (0, i, ips, ports)
      | _ # after \<Rightarrow>
          let ip = takeWhile (\<lambda>c. c \<noteq> 58) str in
          if length ip > 15 then Some (-1, i, ips, ports)
          else if i \<ge> 16 then None
          else
            let ips = ips[i := ip];
                ports = (if after \<noteq> [] then ports[i := of_int (strtoul10 after)] else ports)
            in
            if is_legal_ip aton (Some (ips ! i)) = 1 \<and> is_legal_port (uint (ports ! i)) = 1 then
              (case dropWhile (\<lambda>c. c \<noteq> 59) after of
                 [] \<Rightarrow> Some (0, i + 1, ips, ports)
               | _ # str \<Rightarrow> parse_servers aton str (i + 1) ips ports)
            else Some (-1, i, ips, ports))"
  by pat_completeness auto

lemma length_dropWhile_Cons: "dropWhile P xs = y # ys \<Longrightarrow> length ys < length xs"
  by (metis Suc_le_lessD length_Cons length_dropWhile_le)

termination parse_servers
proof (relation "measure (\<lambda>(_, str, _). length str)", goal_cases)
  case (2 aton str i ips ports c after)
  then show ?case using length_dropWhile_Cons by (metis (no_types, lifting) case_prod_conv in_measure less_trans)
qed simp

declare parse_servers.simps [simp del]

section \<open>Starting\<close>

text \<open>
  What a start meets: \<open>inet_aton\<close>, whether the two mappings succeed, what an existing shared file
  holds, the network and files of the first update, and the id of the thread.
\<close>

record daemon_env =
  de_aton :: "bytes \<Rightarrow> bool"
  de_mmap :: "bool \<times> bool"
  de_open :: bool
  de_file :: dirty_shared
  de_update :: update_env
  de_thread :: "int option"

definition set_servers :: "(bytes \<Rightarrow> bool) \<Rightarrow> bytes option \<Rightarrow> update_state \<Rightarrow> (int \<times> update_state) option" where
  "set_servers aton server_addr st =
     (case server_addr of
        None \<Rightarrow> Some (-1, st)
      | Some addr \<Rightarrow>
          let buf = filter addr_char addr in
          if length buf \<ge> 1024 then None
          else do {
            (rc, i, ips, ports) \<leftarrow> parse_servers aton buf 0 (tm_dirty_server_ip st) (tm_dirty_server_port st);
            let st = st\<lparr>tm_dirty_server_ip := ips, tm_dirty_server_port := ports\<rparr> in
            if rc = -1 then Some (-1, st)
            else if i = 0 then Some (-1, st)
            else Some (0, st\<lparr>tm_dirty_valid_server_count := i\<rparr>) })"

text \<open>A path that fills its array leaves no room for the terminating 0.\<close>

definition set_local_path :: "bytes option \<Rightarrow> update_state \<Rightarrow> update_state option" where
  "set_local_path path st =
     (case path of None \<Rightarrow> Some st
      | Some p \<Rightarrow> if length p \<ge> 1024 then None else Some (st\<lparr>tm_dirty_local_dirty_file_path := p\<rparr>))"

definition set_cycle :: "u32 \<Rightarrow> update_state \<Rightarrow> update_state" where
  "set_cycle cycle st = (if cycle \<ge> 10 then st\<lparr>tm_dirty_update_cycle := cycle\<rparr> else st)"

text \<open>The handles after the mappings, and both flags set to 0.\<close>

definition set_handles :: "bool \<Rightarrow> bool \<Rightarrow> dirty_proc \<Rightarrow> dirty_proc" where
  "set_handles m0 m1 p =
     (let h = (\<lambda>_. Null)(0 := if m0 then Shared 0 else Null, 1 := if m1 then Shared 1 else Null)
      in p\<lparr>tm_dirty_handle := h, tm_dirty_inner_handle := h\<rparr>)"

text \<open>The first words: from the server, or from the local file when the server has nothing to give.\<close>

definition first_load :: "update_env \<Rightarrow> update_state \<Rightarrow> (int \<times> update_state) option" where
  "first_load env st = do {
     (ret, st) \<leftarrow> tm_dirty_load_from_server env st;
     if ret = -1 then
       if local_md5_exist st then do {
         (rc, sh) \<leftarrow> tm_dirty_load_new (ue_mal env) (files st) (tm_dirty_local_dirty_file_path st) (process st) (machines st);
         Some (if rc = -1 then -1 else 0, st\<lparr>machines := sh\<rparr>) }
       else Some (-1, st)
     else Some (0, st) }"

definition start_thread :: "int option \<Rightarrow> update_state \<Rightarrow> int \<times> update_state" where
  "start_thread thread st =
     (let st = st\<lparr>process := (process st)\<lparr>daemon_called := True\<rparr>\<rparr> in
      case thread of None \<Rightarrow> (-1, st) | Some t \<Rightarrow> (0, st\<lparr>process := (process st)\<lparr>loop_thread := t\<rparr>\<rparr>))"

definition tm_dirty_daemon ::
  "daemon_env \<Rightarrow> bytes option \<Rightarrow> bytes option \<Rightarrow> u32 \<Rightarrow> bool \<Rightarrow> update_state \<Rightarrow> (int \<times> update_state) option" where
  "tm_dirty_daemon de path server_addr cycle warning st =
     (if daemon_called (process st) then Some (0, st)
      else do {
        st \<leftarrow> set_local_path path st;
        (rc, st) \<leftarrow> set_servers (de_aton de) server_addr st;
        if rc = -1 then Some (-1, st)
        else
          let st = set_cycle cycle st;
              st = (if warning then st\<lparr>tm_dirty_warning_func := True\<rparr> else st);
              (m0, m1) = de_mmap de;
              st = st\<lparr>process := set_handles m0 m1 (process st), machines := new_shared\<rparr>
          in
          if \<not> m0 \<or> \<not> m1 then Some (-1, st)
          else do {
            (rc, st) \<leftarrow> first_load (de_update de) st;
            if rc = -1 then Some (-1, st) else Some (start_thread (de_thread de) st) } })"

text \<open>
  The machines of the second entry live in a file and keep what is there; only the flags are
  reset. When the mapping fails, \<open>acsmNew_with_fd\<close> goes on and writes through the bad pointer.
\<close>

definition tm_dirty_daemon_with_named_mmap ::
  "daemon_env \<Rightarrow> bytes option \<Rightarrow> bytes option \<Rightarrow> u32 \<Rightarrow> update_state \<Rightarrow> (int \<times> update_state) option" where
  "tm_dirty_daemon_with_named_mmap de path server_addr cycle st =
     (if daemon_called (process st) then Some (loop_thread (process st), st)
      else do {
        st \<leftarrow> set_local_path path st;
        (rc, st) \<leftarrow> set_servers (de_aton de) server_addr st;
        if rc = -1 then Some (-1, st)
        else
          let st = set_cycle cycle st in
          if \<not> de_open de then Some (-1, st)
          else if \<not> fst (de_mmap de) then None
          else
            let st = st\<lparr>process := set_handles True True (process st), machines := (de_file de)\<lparr>flags := (\<lambda>_. 0)\<rparr>\<rparr> in do {
            (rc, st) \<leftarrow> first_load (de_update de) st;
            if rc = -1 then Some (-1, st)
            else
              let (rc, st) = start_thread (de_thread de) st in
              Some (if rc = -1 then -1 else loop_thread (process st), st) } })"

section \<open>Reports\<close>

record ads_report =
  gameid :: u32
  userid :: u32
  recvid :: u32
  onlineid :: u32
  ads_timestamp :: u32
  msglen :: u32

definition ads_bytes :: "ads_report \<Rightarrow> bytes" where
  "ads_bytes a = le32 (gameid a) @ le32 (userid a) @ le32 (recvid a) @ le32 (onlineid a) @ le32 (ads_timestamp a) @ le32 (msglen a)"

definition MAX_MSG_LEN :: nat where "MAX_MSG_LEN = 1000000"

text \<open>The socket, or -1: \<open>inet_pton\<close> and \<open>socket\<close> are parameters.\<close>

definition init_ads_report_udp_socket :: "(string \<Rightarrow> u32 option) \<Rightarrow> int \<Rightarrow> string \<Rightarrow> int" where
  "init_ads_report_udp_socket pton sock ip = (case pton ip of None \<Rightarrow> -1 | Some _ \<Rightarrow> sock)"

text \<open>
  The result and the datagram. The length is a 32-bit sum; the message is copied by its own
  length, to a static buffer and from \<open>msg\<close>. \<open>dbbuf\<close> is what the buffer holds before.
\<close>

definition send_udp_ads_report_to_db ::
  "memory \<Rightarrow> int \<Rightarrow> (bytes \<Rightarrow> int) \<Rightarrow> ads_report \<Rightarrow> bytes \<Rightarrow> (int \<times> bytes option) option" where
  "send_udp_ads_report_to_db dbbuf fd sendto a msg =
     (if fd = -1 then Some (-1, None)
      else
        let len = 18 + 24 + msglen a in
        if unat len > MAX_MSG_LEN then Some (-1, None)
        else
          let n = unat (msglen a) in
          if 42 + n > MAX_MSG_LEN \<or> n > length msg then None
          else
            let buf = tm_dirty_init_proto_head dbbuf len proto_dirty_ads_report (userid a) 0 0;
                buf = mem_write buf 18 (ads_bytes a);
                buf = mem_write buf 42 (take n msg);
                pkt = mem_read buf 0 (unat len)
            in Some (sendto pkt, Some pkt))"

end
