(* ===== verification/DaemonProps.thy ===== *)
theory DaemonProps
  imports DirtyDaemon
begin

text \<open>Properties of starting the updating process and of the reports.\<close>

section \<open>The tables of servers\<close>

definition entry_ok :: "(bytes \<Rightarrow> bool) \<Rightarrow> bytes \<Rightarrow> u16 \<Rightarrow> bool" where
  "entry_ok aton ip port \<longleftrightarrow> aton ip \<and> length ip \<le> 15 \<and> port \<noteq> 0"

lemma legal_port_u16: "is_legal_port (uint (p :: u16)) = 1 \<longleftrightarrow> p \<noteq> 0"
proof -
  have "uint p < 65536" using uint_lt2p [of p] by simp
  then show ?thesis using uint_0_iff [of p] by (auto simp: is_legal_port_def less_le)
qed

lemma legal_ip_iff: "is_legal_ip aton (Some ip) = 1 \<longleftrightarrow> aton ip"
  by (simp add: is_legal_ip_def)

lemma parse_servers_entries:
  "parse_servers aton str i ips ports = Some (rc, n, ips', ports') \<Longrightarrow> length ips = 16 \<Longrightarrow> length ports = 16 \<Longrightarrow> i \<le> 16 \<Longrightarrow>
    \<forall>k < i. entry_ok aton (ips ! k) (ports ! k) \<Longrightarrow>
    length ips' = 16 \<and> length ports' = 16 \<and> n \<le> 16 \<and> (\<forall>k < n. entry_ok aton (ips' ! k) (ports' ! k))"
proof (induction aton str i ips ports arbitrary: rc n ips' ports' rule: parse_servers.induct)
  case (1 aton str i ips ports)
  show ?case
  proof (cases "dropWhile (\<lambda>c. c \<noteq> 58) str")
    case Nil
    have "parse_servers aton str i ips ports = Some (0, i, ips, ports)"
      unfolding parse_servers.simps [of aton str] Nil by simp
    then show ?thesis using 1(2-) by simp
  next
    case (Cons c after)
    define ip where "ip = takeWhile (\<lambda>c. c \<noteq> 58) str"
    define ips1 where "ips1 = ips[i := ip]"
    define ports1 where "ports1 = (if after \<noteq> [] then ports[i := of_int (strtoul10 after)] else ports)"
    have eq: "parse_servers aton str i ips ports =
        (if length ip > 15 then Some (-1, i, ips, ports)
         else if i \<ge> 16 then None
         else if is_legal_ip aton (Some (ips1 ! i)) = 1 \<and> is_legal_port (uint (ports1 ! i)) = 1 then
           (case dropWhile (\<lambda>c. c \<noteq> 59) after of [] \<Rightarrow> Some (0, i + 1, ips1, ports1)
            | _ # str \<Rightarrow> parse_servers aton str (i + 1) ips1 ports1)
         else Some (-1, i, ips1, ports1))"
      unfolding parse_servers.simps [of aton str] Cons Let_def list.case ip_def ips1_def ports1_def ..
    show ?thesis
    proof (cases "length ip > 15 \<or> i \<ge> 16")
      case True
      then show ?thesis using 1(2-) by (auto simp: eq split: if_splits)
    next
      case False
      have l: "length ips1 = 16" "length ports1 = 16" using 1(3,4) by (simp_all add: ips1_def ports1_def)
      have old: "\<forall>k < i. entry_ok aton (ips1 ! k) (ports1 ! k)" using 1(6) by (simp add: ips1_def ports1_def)
      show ?thesis
      proof (cases "is_legal_ip aton (Some (ips1 ! i)) = 1 \<and> is_legal_port (uint (ports1 ! i)) = 1")
        case False': False
        have "(rc, n, ips', ports') = (-1, i, ips1, ports1)" using 1(2) False by (simp add: eq if_not_P [OF False'])
        then show ?thesis using l old 1(5) by simp
      next
        case True
        have "ips1 ! i = ip" using False 1(3) by (simp add: ips1_def)
        then have "entry_ok aton (ips1 ! i) (ports1 ! i)"
          using True False by (simp add: entry_ok_def legal_ip_iff legal_port_u16)
        then have new: "\<forall>k < i + 1. entry_ok aton (ips1 ! k) (ports1 ! k)" using old less_Suc_eq by auto
        show ?thesis
        proof (cases "dropWhile (\<lambda>c. c \<noteq> 59) after")
          case Nil
          have "(rc, n, ips', ports') = (0, i + 1, ips1, ports1)" using 1(2) False unfolding eq if_P [OF True] Nil by simp
          then show ?thesis using l new False by simp
        next
          case (Cons c' str')
          have r: "parse_servers aton str' (i + 1) ips1 ports1 = Some (rc, n, ips', ports')"
            using 1(2) False unfolding eq if_P [OF True] Cons by simp
          have i: "\<not> 15 < length ip" "\<not> 16 \<le> i" "i + 1 \<le> 16" using False by auto
          show ?thesis
            using 1(1) [OF \<open>dropWhile (\<lambda>c. c \<noteq> 58) str = c # after\<close> ip_def i(1,2) ips1_def ports1_def True Cons r l i(3) new] .
        qed
      qed
    qed
  qed
qed

text \<open>
  C22: a start that does not write outside the tables (which a list with a seventeenth good server
  does) accepts a list of servers or refuses it with -1. After an accepted list there is at least
  one server, and every row in use holds an address that \<open>inet_aton\<close> accepts, short
  enough for its row with the terminating 0, and a port that is not 0, whatever the rows held
  before. A refused list leaves the number of servers as it was.
\<close>

theorem servers_well_formed:
  assumes "set_servers aton addr st = Some (rc, st')"
    "length (tm_dirty_server_ip st) = 16" "length (tm_dirty_server_port st) = 16"
  shows "if rc = 0 then 1 \<le> tm_dirty_valid_server_count st' \<and>
      list_all2 (entry_ok aton) (take (tm_dirty_valid_server_count st') (tm_dirty_server_ip st'))
        (take (tm_dirty_valid_server_count st') (tm_dirty_server_port st'))
    else rc = -1 \<and> tm_dirty_valid_server_count st' = tm_dirty_valid_server_count st"
proof (cases "rc = 0")
  case True
  then obtain a where a: "addr = Some a" using assms(1) by (cases addr) (auto simp: set_servers_def)
  from assms(1) True obtain r n ips ports where
    p: "parse_servers aton (filter addr_char a) 0 (tm_dirty_server_ip st) (tm_dirty_server_port st) = Some (r, n, ips, ports)"
    "n \<noteq> 0" "st' = st\<lparr>tm_dirty_server_ip := ips, tm_dirty_server_port := ports, tm_dirty_valid_server_count := n\<rparr>"
    by (auto simp: set_servers_def a Let_def split: if_splits elim!: bind_eq_SomeE)
  from parse_servers_entries [OF p(1) assms(2,3)] p(2,3) True show ?thesis
    by (simp add: list_all2_conv_all_nth)
next
  case False
  then show ?thesis using assms(1)
    by (auto simp: set_servers_def Let_def split: option.splits if_splits elim!: bind_eq_SomeE)
qed

section \<open>Printing and parsing\<close>

fun print_servers :: "(bytes \<times> nat) list \<Rightarrow> bytes" where
  "print_servers [] = []"
| "print_servers [(ip, port)] = ip @ 58 # dec_digits port"
| "print_servers ((ip, port) # srv) = ip @ 58 # dec_digits port @ 59 # print_servers srv"

definition good_server :: "(bytes \<Rightarrow> bool) \<Rightarrow> bytes \<times> nat \<Rightarrow> bool" where
  "good_server aton s \<longleftrightarrow> aton (fst s) \<and> length (fst s) \<le> 15 \<and> 58 \<notin> set (fst s) \<and> 1 \<le> snd s \<and> snd s < 65536"

lemma strtoul10_digits:
  assumes "rest = [] \<or> hd rest = 59" "p < 65536"
  shows "strtoul10 (dec_digits p @ rest) = int p"
proof -
  have "dec_value n rest = n" for n using assms(1) by (cases rest) (auto simp: is_digit_def)
  then show ?thesis using dec_digits_value [of p] assms(2) by (simp add: strtoul10_def dec_value_append)
qed

lemma dec_digits_no_sep: "58 \<notin> set (dec_digits p)" "59 \<notin> set (dec_digits p)" "dec_digits p \<noteq> []"
  using dec_digits_value [of p] by (auto simp: list_all_iff is_digit_def)

lemma dropWhile_sep: "c \<notin> set xs \<Longrightarrow> dropWhile (\<lambda>x. x \<noteq> c) (xs @ c # ys) = c # ys"
  by (induction xs) auto

lemma takeWhile_sep: "c \<notin> set xs \<Longrightarrow> takeWhile (\<lambda>x. x \<noteq> c) (xs @ c # ys) = xs"
  by (induction xs) auto

lemma dropWhile_none: "c \<notin> set xs \<Longrightarrow> dropWhile (\<lambda>x. x \<noteq> c) xs = []"
  by (induction xs) auto

text \<open>One entry of the list.\<close>

lemma parse_entry:
  assumes "good_server aton (ip, port)" "rest = [] \<or> hd rest = 59" "length ips = 16" "length ports = 16"
  shows "parse_servers aton (ip @ 58 # dec_digits port @ rest) i ips ports =
    (if i \<ge> 16 then None
     else case rest of [] \<Rightarrow> Some (0, i + 1, ips[i := ip], ports[i := of_nat port])
       | _ # str \<Rightarrow> parse_servers aton str (i + 1) (ips[i := ip]) (ports[i := of_nat port]))"
proof -
  have g: "aton ip" "length ip \<le> 15" "58 \<notin> set ip" "1 \<le> port" "port < 65536" using assms(1) by (auto simp: good_server_def)
  have "uint (of_nat port :: u16) = int port" using g(5) by (simp add: uint_nat unsigned_of_nat take_bit_nat_eq_self)
  then have lp: "is_legal_port (uint (of_nat port :: u16)) = 1" using g(4,5) by (simp add: is_legal_port_def)
  have dr: "dropWhile (\<lambda>c. c \<noteq> 59) (dec_digits port @ rest) = rest"
  proof (cases rest)
    case Nil
    then show ?thesis using dropWhile_none [OF dec_digits_no_sep(2)] by simp
  next
    case (Cons c cs)
    then show ?thesis using dropWhile_sep [OF dec_digits_no_sep(2), of port cs] assms(2) by simp
  qed
  have ne: "dec_digits port @ rest \<noteq> []" using dec_digits_no_sep(3) by simp
  show ?thesis
    unfolding parse_servers.simps [of aton "ip @ 58 # dec_digits port @ rest"]
      dropWhile_sep [OF g(3)] takeWhile_sep [OF g(3)]
    using g(1,2) lp ne assms(3,4) strtoul10_digits [OF assms(2) g(5)] by (auto simp: Let_def dr legal_ip_iff split: list.splits)
qed

lemma parse_print:
  "srv \<noteq> [] \<Longrightarrow> list_all (good_server aton) srv \<Longrightarrow> length ips = 16 \<Longrightarrow> length ports = 16 \<Longrightarrow> i \<le> 16 \<Longrightarrow>
    parse_servers aton (print_servers srv) i ips ports =
    (if i + length srv > 16 then None
     else Some (0, i + length srv, take i ips @ map fst srv @ drop (i + length srv) ips,
       take i ports @ map (of_nat \<circ> snd) srv @ drop (i + length srv) ports))"
proof (induction srv arbitrary: i ips ports rule: print_servers.induct)
  case (2 ip port)
  have "parse_servers aton (ip @ 58 # dec_digits port @ []) i ips ports = (if i \<ge> 16 then None
     else Some (0, i + 1, ips[i := ip], ports[i := of_nat port]))"
    using parse_entry [of aton ip port "[]" ips ports i] 2 by simp
  then show ?case using 2 by (simp add: upd_conv_take_nth_drop)
next
  case (3 ip port s srv)
  have g: "good_server aton (ip, port)" "list_all (good_server aton) (s # srv)" using 3(3) by simp_all
  have e: "parse_servers aton (print_servers ((ip, port) # s # srv)) i ips ports = (if i \<ge> 16 then None
     else parse_servers aton (print_servers (s # srv)) (i + 1) (ips[i := ip]) (ports[i := of_nat port]))"
    using parse_entry [OF g(1), of "59 # print_servers (s # srv)" ips ports i] 3(4,5) by simp
  show ?case
  proof (cases "i \<ge> 16")
    case True
    then show ?thesis using e by simp
  next
    case False
    then have i: "i < length ips" "i < length ports" "i + 1 \<le> 16" using 3(4,5) by auto
    have t: "take (i + 1) (ips[i := ip]) = take i ips @ [ip]" "take (i + 1) (ports[i := of_nat port]) = take i ports @ [of_nat port]"
      using i(1,2) by (simp_all add: take_Suc_conv_app_nth)
    have "parse_servers aton (print_servers (s # srv)) (i + 1) (ips[i := ip]) (ports[i := of_nat port]) =
      (if i + 1 + length (s # srv) > 16 then None
       else Some (0, i + 1 + length (s # srv), take (i + 1) (ips[i := ip]) @ map fst (s # srv) @ drop (i + 1 + length (s # srv)) (ips[i := ip]),
         take (i + 1) (ports[i := of_nat port]) @ map (of_nat \<circ> snd) (s # srv) @ drop (i + 1 + length (s # srv)) (ports[i := of_nat port])))"
      by (rule 3(1)) (use g(2) 3(4,5) i(3) in simp_all)
    then show ?thesis using e False unfolding t by simp
  qed
qed simp

text \<open>
  C21: a list of servers is read as it is written: the text for up to 16 pairs of address and
  port, with anything else than digits, points, colons and semicolons between, fills the first
  rows of the tables with these pairs in order. A text for more pairs is written past them.
\<close>

theorem servers_roundtrip:
  assumes "list_all (good_server aton) srv" "srv \<noteq> []" "filter addr_char addr = print_servers srv" "length (print_servers srv) < 1024"
    "length (tm_dirty_server_ip st) = 16" "length (tm_dirty_server_port st) = 16"
  shows "if length srv > 16 then set_servers aton (Some addr) st = None
    else \<exists>st'. set_servers aton (Some addr) st = Some (0, st') \<and> tm_dirty_valid_server_count st' = length srv \<and>
      zip (take (length srv) (tm_dirty_server_ip st')) (take (length srv) (tm_dirty_server_port st')) = map (\<lambda>(ip, port). (ip, of_nat port)) srv"
proof -
  have z: "zip (map fst srv) (map (of_nat \<circ> snd) srv) = map (\<lambda>(ip, port). (ip, of_nat port :: u16)) srv" by (induction srv) auto
  show ?thesis
    using parse_print [OF assms(2,1,5,6), of 0] assms(2-4) z by (auto simp: set_servers_def Let_def)
qed

theorem servers_roundtrip_witness:
  "\<exists>st'. set_servers (\<lambda>_. True) (Some [49, 46, 50, 58, 56, 48, 59, 32, 51, 58, 57]) (ab_state\<lparr>tm_dirty_server_ip := replicate 16 [], tm_dirty_server_port := replicate 16 0\<rparr>) = Some (0, st') \<and>
    tm_dirty_valid_server_count st' = Suc (Suc 0)"
  using servers_roundtrip [of "\<lambda>_. True" "[([49, 46, 50], 80), ([51], 9)]" "[49, 46, 50, 58, 56, 48, 59, 32, 51, 58, 57]"
    "ab_state\<lparr>tm_dirty_server_ip := replicate 16 [], tm_dirty_server_port := replicate 16 0\<rparr>"]
  by (simp add: good_server_def addr_char_def is_digit_def dec_digits.simps) blast

theorem servers_well_formed_witness:
  "\<exists>st'. set_servers (\<lambda>_. True) (Some [51, 58, 57]) (ab_state\<lparr>tm_dirty_server_ip := replicate 16 [], tm_dirty_server_port := replicate 16 0\<rparr>) = Some (0, st') \<and>
    entry_ok (\<lambda>_. True) (tm_dirty_server_ip st' ! 0) (tm_dirty_server_port st' ! 0)"
proof -
  let ?st = "ab_state\<lparr>tm_dirty_server_ip := replicate 16 [], tm_dirty_server_port := replicate 16 0\<rparr>"
  have "\<exists>st'. set_servers (\<lambda>_. True) (Some [51, 58, 57]) ?st = Some (0, st') \<and>
      length (tm_dirty_server_ip st') = 16 \<and> length (tm_dirty_server_port st') = 16"
    using parse_print [of "[([51], 9)]" "\<lambda>_. True" "replicate 16 []" "replicate 16 0" 0]
    by (simp add: set_servers_def addr_char_def is_digit_def good_server_def dec_digits.simps)
  then obtain st' where s: "set_servers (\<lambda>_. True) (Some [51, 58, 57]) ?st = Some (0, st')"
    "length (tm_dirty_server_ip st') = 16" "length (tm_dirty_server_port st') = 16" by blast
  from servers_well_formed [OF s(1)] s(2,3) have
    "entry_ok (\<lambda>_. True) (tm_dirty_server_ip st' ! 0) (tm_dirty_server_port st' ! 0)"
    by (auto simp: list_all2_conv_all_nth)
  with s show ?thesis by blast
qed

end
