(* ===== verification/Timer.thy ===== *)
theory Timer
  imports LinkedList
begin

text \<open>
  \<open>timer.h\<close> and \<open>timer.c\<close>: second timers in five buckets by distance from now, and a flat
  list of microsecond timers. Every ring of the library is a ring of one heap whose
  addresses are the list heads embedded in the structures: \<open>Vec i\<close> is \<open>vec[i].head\<close>, \<open>Micro\<close>
  is \<open>micro_timer\<close>, \<open>Owner k\<close> a head of the program that owns timers, \<open>Entry t\<close> and \<open>Sprite t\<close>
  the two members of the second timer \<open>t\<close>, \<open>MicroEntry t\<close> the member of a microsecond timer.
  Timers are allocated by \<open>g_slice_alloc\<close>, which never returns the null pointer; the address
  it hands out is an argument. \<open>time_t\<close> is an integer; the one place that narrows a
  difference of times to an \<open>int\<close> does so in the model too. \<open>None\<close> is an access through a
  null or dangling pointer, or a walk that does not come back to its head.
\<close>

section \<open>Times\<close>

datatype timeval = Timeval (tv_sec: int) (tv_usec: int)

instantiation timeval :: linorder
begin

definition less_eq_timeval :: "timeval \<Rightarrow> timeval \<Rightarrow> bool" where
  "a \<le> b \<longleftrightarrow> tv_sec a < tv_sec b \<or> tv_sec a = tv_sec b \<and> tv_usec a \<le> tv_usec b"

definition less_timeval :: "timeval \<Rightarrow> timeval \<Rightarrow> bool" where
  "a < b \<longleftrightarrow> tv_sec a < tv_sec b \<or> tv_sec a = tv_sec b \<and> tv_usec a < tv_usec b"

instance
  by standard (auto simp: less_eq_timeval_def less_timeval_def timeval.expand)

end

section \<open>Structures\<close>

datatype node = Vec nat | Micro | Owner nat | Entry nat | Sprite nat | MicroEntry nat

text \<open>A callback is named by a number; \<open>None\<close> is the null function pointer.\<close>

record timer_struct =
  expire :: int
  owner :: nat
  data :: nat
  func :: "nat option"
  func_indx :: nat

record micro_timer_struct =
  tv :: timeval
  mowner :: nat
  mdata :: nat
  mfunc :: "nat option"
  mfunc_indx :: nat

datatype timer_add_mode = timer_add_new_timer | timer_replace_timer

record tvec_root =
  vexpire :: int
  min_expiring_time :: int

text \<open>\<open>world\<close> is the state of the program outside the library, which callbacks change.\<close>

record 'w timers =
  heap :: "node list_heap"
  tmr :: "nat \<Rightarrow> timer_struct option"
  micro :: "nat \<Rightarrow> micro_timer_struct option"
  vec :: "tvec_root list"
  now :: timeval
  tcfs :: "nat \<Rightarrow> nat option"
  last_sec :: int
  world :: 'w

type_synonym 'w callbacks = "nat \<Rightarrow> nat \<Rightarrow> nat \<Rightarrow> 'w timers \<Rightarrow> (int \<times> 'w timers) option"

definition TIMER_VEC_SIZE :: nat where "TIMER_VEC_SIZE = 5"
definition max_timer_type :: nat where "max_timer_type = 10000"

definition set_timer :: "nat \<Rightarrow> timer_struct \<Rightarrow> 'w timers \<Rightarrow> 'w timers" where
  "set_timer t tm st = st\<lparr>tmr := (tmr st)(t := Some tm)\<rparr>"

definition set_micro :: "nat \<Rightarrow> micro_timer_struct \<Rightarrow> 'w timers \<Rightarrow> 'w timers" where
  "set_micro t tm st = st\<lparr>micro := (micro st)(t := Some tm)\<rparr>"

text \<open>Running an operation of the list library on the heap of the timers.\<close>

definition on_heap :: "(node list_heap \<Rightarrow> node list_heap option) \<Rightarrow> 'w timers \<Rightarrow> 'w timers option" where
  "on_heap f st = map_option (\<lambda>h. st\<lparr>heap := h\<rparr>) (f (heap st))"

section \<open>Setting up\<close>

text \<open>\<open>t\<close> is what \<open>gettimeofday\<close> reports; the broken-down time is not modelled.\<close>

definition renew_now :: "timeval \<Rightarrow> 'w timers \<Rightarrow> 'w timers" where
  "renew_now t st = st\<lparr>now := t\<rparr>"

definition init_vec :: "nat \<Rightarrow> 'w timers \<Rightarrow> 'w timers" where
  "init_vec i st = st\<lparr>heap := INIT_LIST_HEAD (Vec i) (heap st),
     vec := (vec st)[i := (vec st ! i)\<lparr>vexpire := 2 ^ (i + 2)\<rparr>]\<rparr>"

definition setup_timer :: "timeval \<Rightarrow> 'w timers \<Rightarrow> 'w timers" where
  "setup_timer t st =
     (let st = fold init_vec [0..<TIMER_VEC_SIZE] (renew_now t st)
      in st\<lparr>heap := INIT_LIST_HEAD Micro (heap st)\<rparr>)"

section \<open>Choosing a bucket\<close>

text \<open>
  The loop of \<open>add_timer\<close> and \<open>mod_expire_time\<close>: the first bucket but the last that
  reaches far enough, otherwise the last.
\<close>

fun pick_bucket :: "tvec_root list \<Rightarrow> int \<Rightarrow> nat" where
  "pick_bucket (v # w # vs) diff = (if diff \<le> vexpire v then 0 else Suc (pick_bucket (w # vs) diff))"
| "pick_bucket _ diff = 0"

fun find_min_idx :: "tvec_root list \<Rightarrow> int \<Rightarrow> nat \<Rightarrow> nat" where
  "find_min_idx vs diff 0 = 0"
| "find_min_idx vs diff (Suc m) = (if vexpire (vs ! m) \<ge> diff then find_min_idx vs diff m else Suc m)"

definition set_min_exptm :: "int \<Rightarrow> nat \<Rightarrow> 'w timers \<Rightarrow> 'w timers" where
  "set_min_exptm exptm idx st =
     (if exptm < min_expiring_time (vec st ! idx) \<or> min_expiring_time (vec st ! idx) = 0
      then st\<lparr>vec := (vec st)[idx := (vec st ! idx)\<lparr>min_expiring_time := exptm\<rparr>]\<rparr> else st)"

definition add_timer :: "nat \<Rightarrow> 'w timers \<Rightarrow> 'w timers option" where
  "add_timer t st = do {
     tm \<leftarrow> tmr st t;
     let diff = signed_take_bit 31 (expire tm - tv_sec (now st));
         i = pick_bucket (vec st) diff
     in do { st \<leftarrow> on_heap (list_add_tail (Entry t) (Vec i)) st;
             Some (set_min_exptm (expire tm) i st) } }"

definition mod_expire_time :: "nat \<Rightarrow> int \<Rightarrow> 'w timers \<Rightarrow> 'w timers option" where
  "mod_expire_time t expiretime st = do {
     tm \<leftarrow> tmr st t;
     if expire tm = 0 then Some st
     else
       let diff = expiretime - tv_sec (now st);
           st = set_timer t (tm\<lparr>expire := expiretime\<rparr>) st;
           j = pick_bucket (vec st) diff
       in do { st \<leftarrow> on_heap (list_del_init (Entry t)) st;
               st \<leftarrow> on_heap (list_add_tail (Entry t) (Vec j)) st;
               Some (set_min_exptm expiretime j st) } }"

section \<open>Adding and removing second timers\<close>

text \<open>The searching loops: the first timer of an owner's ring with a property.\<close>

partial_function (option) find_sprite ::
  "(timer_struct \<Rightarrow> bool) \<Rightarrow> 'w timers \<Rightarrow> node \<Rightarrow> node \<Rightarrow> nat option option" where
  "find_sprite P st head pos =
     (if pos = head then Some None
      else (case pos of
              Sprite t \<Rightarrow> do {
                tm \<leftarrow> tmr st t;
                if P tm then Some (Some t) else do { n \<leftarrow> nxt (heap st) pos; find_sprite P st head n } }
            | _ \<Rightarrow> None))"

definition find_event :: "node \<Rightarrow> nat option \<Rightarrow> 'w timers \<Rightarrow> nat option option" where
  "find_event head function st =
     do { p \<leftarrow> nxt (heap st) head; find_sprite (\<lambda>tm. func tm = function) st head p }"

definition find_event_with_expire :: "node \<Rightarrow> nat option \<Rightarrow> int \<Rightarrow> 'w timers \<Rightarrow> nat option option" where
  "find_event_with_expire head function exptm st =
     do { p \<leftarrow> nxt (heap st) head;
          find_sprite (\<lambda>tm. func tm = function \<and> expire tm = exptm) st head p }"

definition new_event ::
  "nat \<Rightarrow> node \<Rightarrow> nat option \<Rightarrow> nat \<Rightarrow> nat \<Rightarrow> int \<Rightarrow> 'w timers \<Rightarrow> (nat \<times> 'w timers) option" where
  "new_event t head function own dat exptm st =
     (let h = INIT_LIST_HEAD (Entry t) (INIT_LIST_HEAD (Sprite t) (heap st));
          st = set_timer t \<lparr>expire = exptm, owner = own, data = dat, func = function, func_indx = 0\<rparr>
                 (st\<lparr>heap := h\<rparr>)
      in do { st \<leftarrow> on_heap (list_add_tail (Sprite t) head) st;
              st \<leftarrow> add_timer t st;
              Some (t, st) })"

text \<open>\<open>t\<close> is the address the allocator hands out if a timer is created.\<close>

definition add_event ::
  "nat \<Rightarrow> node \<Rightarrow> nat option \<Rightarrow> nat \<Rightarrow> nat \<Rightarrow> int \<Rightarrow> timer_add_mode \<Rightarrow> 'w timers \<Rightarrow> (nat \<times> 'w timers) option" where
  "add_event t head function own dat exptm flag st =
     (if flag \<noteq> timer_add_new_timer then do {
        found \<leftarrow> find_event head function st;
        case found of
          None \<Rightarrow> new_event t head function own dat exptm st
        | Some timer \<Rightarrow>
            do { st \<leftarrow> (if flag = timer_replace_timer then mod_expire_time timer exptm st else Some st);
                 Some (timer, st) } }
      else new_event t head function own dat exptm st)"

definition add_event_ex ::
  "nat \<Rightarrow> node \<Rightarrow> nat \<Rightarrow> nat \<Rightarrow> nat \<Rightarrow> int \<Rightarrow> timer_add_mode \<Rightarrow> 'w timers \<Rightarrow> (nat option \<times> 'w timers) option" where
  "add_event_ex t head fidx own dat exptm flag st =
     (if fidx \<ge> max_timer_type then None
      else if tcfs st fidx = None then Some (None, st)
      else do {
        (timer, st) \<leftarrow> add_event t head (tcfs st fidx) own dat exptm flag st;
        tm \<leftarrow> tmr st timer;
        Some (Some timer, set_timer timer (tm\<lparr>func_indx := fidx\<rparr>) st) })"

definition do_remove_timer :: "nat \<Rightarrow> bool \<Rightarrow> 'w timers \<Rightarrow> 'w timers option" where
  "do_remove_timer t freed st = do {
     tm \<leftarrow> tmr st t;
     st \<leftarrow> (if nxt (heap st) (Sprite t) \<noteq> None then on_heap (list_del (Sprite t)) st else Some st);
     if freed then do {
       st \<leftarrow> on_heap (list_del (Entry t)) st;
       Some (st\<lparr>tmr := (tmr st)(t := None)\<rparr>) }
     else Some (set_timer t (tm\<lparr>func := None, func_indx := 0\<rparr>) st) }"

text \<open>\<open>list_entry\<close>: from the embedded list node to its timer.\<close>

fun entry_of :: "node \<Rightarrow> nat option" where
  "entry_of (Entry t) = Some t"
| "entry_of _ = None"

fun sprite_of :: "node \<Rightarrow> nat option" where
  "sprite_of (Sprite t) = Some t"
| "sprite_of _ = None"

fun micro_of :: "node \<Rightarrow> nat option" where
  "micro_of (MicroEntry t) = Some t"
| "micro_of _ = None"

definition remove_timers :: "node \<Rightarrow> 'w timers \<Rightarrow> 'w timers option" where
  "remove_timers head st =
     list_for_each_safe heap (\<lambda>l st. do { t \<leftarrow> sprite_of l; do_remove_timer t False st }) head st"

section \<open>Scanning the second timers\<close>

definition scan_list_step :: "nat \<Rightarrow> node \<Rightarrow> 'w timers \<times> int \<Rightarrow> ('w timers \<times> int) option" where
  "scan_list_step idx cur = (\<lambda>(st, min_exptm). do {
     t \<leftarrow> entry_of cur;
     tm \<leftarrow> tmr st t;
     if func tm \<noteq> None then
       let i = find_min_idx (vec st) (expire tm - tv_sec (now st)) idx in
       if i \<noteq> idx then do {
         st \<leftarrow> on_heap (list_del (Entry t)) st;
         st \<leftarrow> on_heap (list_add_tail (Entry t) (Vec i)) st;
         Some (set_min_exptm (expire tm) i st, min_exptm) }
       else if expire tm < min_exptm \<or> min_exptm = 0 then Some (st, expire tm)
       else Some (st, min_exptm)
     else do { st \<leftarrow> do_remove_timer t True st; Some (st, min_exptm) } })"

definition scan_timer_list :: "nat \<Rightarrow> 'w timers \<Rightarrow> 'w timers option" where
  "scan_timer_list idx st = do {
     (st, min_exptm) \<leftarrow> list_for_each_safe (heap \<circ> fst) (scan_list_step idx) (Vec idx) (st, 0);
     Some (st\<lparr>vec := (vec st)[idx := (vec st ! idx)\<lparr>min_expiring_time := min_exptm\<rparr>]\<rparr>) }"

definition fire_step :: "'w callbacks \<Rightarrow> node \<Rightarrow> 'w timers \<Rightarrow> 'w timers option" where
  "fire_step call l st = do {
     t \<leftarrow> entry_of l;
     tm \<leftarrow> tmr st t;
     case func tm of
       None \<Rightarrow> do_remove_timer t True st
     | Some f \<Rightarrow>
         if expire tm \<le> tv_sec (now st) then do {
           (r, st) \<leftarrow> call f (owner tm) (data tm) st;
           if r = 0 then do_remove_timer t True st else Some st }
         else Some st }"

fun scan_buckets :: "nat list \<Rightarrow> 'w timers \<Rightarrow> 'w timers option" where
  "scan_buckets [] st = Some st"
| "scan_buckets (i # is) st = do {
     st \<leftarrow> (if min_expiring_time (vec st ! i) - tv_sec (now st) < 2 then scan_timer_list i st else Some st);
     scan_buckets is st }"

definition scan_seconds_timer :: "'w callbacks \<Rightarrow> 'w timers \<Rightarrow> 'w timers option" where
  "scan_seconds_timer call st = do {
     st \<leftarrow> list_for_each_safe heap (fire_step call) (Vec 0) st;
     scan_buckets [1..<TIMER_VEC_SIZE] st }"

section \<open>Microsecond timers\<close>

definition add_micro_event ::
  "nat \<Rightarrow> nat option \<Rightarrow> timeval \<Rightarrow> nat \<Rightarrow> nat \<Rightarrow> 'w timers \<Rightarrow> (nat \<times> 'w timers) option" where
  "add_micro_event t function when own dat st =
     (let st = set_micro t \<lparr>tv = when, mowner = own, mdata = dat, mfunc = function, mfunc_indx = 0\<rparr>
                 (st\<lparr>heap := INIT_LIST_HEAD (MicroEntry t) (heap st)\<rparr>)
      in do { st \<leftarrow> on_heap (list_add_tail (MicroEntry t) Micro) st; Some (t, st) })"

definition add_micro_event_ex ::
  "nat \<Rightarrow> nat \<Rightarrow> timeval \<Rightarrow> nat \<Rightarrow> nat \<Rightarrow> 'w timers \<Rightarrow> (nat \<times> 'w timers) option" where
  "add_micro_event_ex t fidx when own dat st =
     (if fidx \<ge> max_timer_type then None
      else do {
        (timer, st) \<leftarrow> add_micro_event t (tcfs st fidx) when own dat st;
        tm \<leftarrow> micro st timer;
        Some (timer, set_micro timer (tm\<lparr>mfunc_indx := fidx\<rparr>) st) })"

definition remove_micro_timer :: "nat \<Rightarrow> bool \<Rightarrow> 'w timers \<Rightarrow> 'w timers option" where
  "remove_micro_timer t freed st = do {
     tm \<leftarrow> micro st t;
     if freed then do {
       st \<leftarrow> on_heap (list_del_init (MicroEntry t)) st;
       Some (st\<lparr>micro := (micro st)(t := None)\<rparr>) }
     else Some (set_micro t (tm\<lparr>mfunc := None, mfunc_indx := 0\<rparr>) st) }"

definition micro_step :: "'w callbacks \<Rightarrow> node \<Rightarrow> 'w timers \<Rightarrow> 'w timers option" where
  "micro_step call l st = do {
     t \<leftarrow> micro_of l;
     tm \<leftarrow> micro st t;
     case mfunc tm of
       None \<Rightarrow> remove_micro_timer t True st
     | Some f \<Rightarrow>
         if tv_sec (now st) > tv_sec (tv tm) \<or>
            tv_sec (now st) = tv_sec (tv tm) \<and> tv_usec (now st) > tv_usec (tv tm) then do {
           (r, st) \<leftarrow> call f (mowner tm) (mdata tm) st;
           if r = 0 then remove_micro_timer t True st else Some st }
         else Some st }"

definition scan_microseconds_timer :: "'w callbacks \<Rightarrow> 'w timers \<Rightarrow> 'w timers option" where
  "scan_microseconds_timer call st = list_for_each_safe heap (micro_step call) Micro st"

definition remove_micro_timers :: "nat \<Rightarrow> 'w timers \<Rightarrow> 'w timers option" where
  "remove_micro_timers own st =
     list_for_each_safe heap (\<lambda>l st. do {
       t \<leftarrow> micro_of l;
       tm \<leftarrow> micro st t;
       if mowner tm = own then remove_micro_timer t False st else Some st }) Micro st"

section \<open>The driver, and leaving\<close>

definition handle_timer :: "'w callbacks \<Rightarrow> timeval \<Rightarrow> 'w timers \<Rightarrow> 'w timers option" where
  "handle_timer call t st =
     (let st = renew_now t st in do {
        st \<leftarrow> (if last_sec st \<noteq> tv_sec (now st)
              then scan_seconds_timer call (st\<lparr>last_sec := tv_sec (now st)\<rparr>) else Some st);
        scan_microseconds_timer call st })"

fun destroy_buckets :: "nat list \<Rightarrow> 'w timers \<Rightarrow> 'w timers option" where
  "destroy_buckets [] st = Some st"
| "destroy_buckets (i # is) st = do {
     st \<leftarrow> list_for_each_safe heap (\<lambda>l st. do { t \<leftarrow> entry_of l; do_remove_timer t True st }) (Vec i) st;
     destroy_buckets is st }"

definition destroy_timer :: "'w timers \<Rightarrow> 'w timers option" where
  "destroy_timer st = do {
     st \<leftarrow> destroy_buckets [0..<TIMER_VEC_SIZE] st;
     list_for_each_safe heap (\<lambda>l st. do { t \<leftarrow> micro_of l; remove_micro_timer t True st }) Micro st }"

section \<open>Callbacks by number\<close>

definition register_timer_callback :: "int \<Rightarrow> nat option \<Rightarrow> 'w timers \<Rightarrow> int \<times> 'w timers" where
  "register_timer_callback nbr cb st =
     (if nbr \<le> 0 \<or> nbr \<ge> int max_timer_type then (-1, st)
      else if tcfs st (nat nbr) \<noteq> None then (-1, st)
      else (0, st\<lparr>tcfs := (tcfs st)(nat nbr := cb)\<rparr>))"

definition unregister_timers_callback :: "'w timers \<Rightarrow> 'w timers" where
  "unregister_timers_callback st = st\<lparr>tcfs := (\<lambda>_. None)\<rparr>"

fun refresh_buckets :: "nat list \<Rightarrow> 'w timers \<Rightarrow> 'w timers option" where
  "refresh_buckets [] st = Some st"
| "refresh_buckets (i # is) st = do {
     p \<leftarrow> nxt (heap st) (Vec i);
     st \<leftarrow> list_for_each heap (\<lambda>l st. do {
       t \<leftarrow> entry_of l;
       tm \<leftarrow> tmr st t;
       Some (set_timer t (tm\<lparr>func := tcfs st (func_indx tm)\<rparr>) st) }) (Vec i) p st;
     refresh_buckets is st }"

definition refresh_timers_callback :: "'w timers \<Rightarrow> 'w timers option" where
  "refresh_timers_callback st = do {
     st \<leftarrow> refresh_buckets [0..<TIMER_VEC_SIZE] st;
     p \<leftarrow> nxt (heap st) Micro;
     list_for_each heap (\<lambda>l st. do {
       t \<leftarrow> micro_of l;
       tm \<leftarrow> micro st t;
       Some (set_micro t (tm\<lparr>mfunc := tcfs st (mfunc_indx tm)\<rparr>) st) }) Micro p st }"

end
