(* ===== verification/TimerShape.thy ===== *)
theory TimerShape
  imports Timer
begin

text \<open>
  The rings the timers form. A state has the shape \<open>(B, S, M)\<close> over the owners \<open>O\<close> when
  bucket \<open>i\<close> is the ring of the entries \<open>B i\<close>, the ring of the owner \<open>o\<close> holds the timers
  \<open>S o\<close>, and the microsecond list is \<open>M\<close>; every live timer is in exactly one bucket, and its
  \<open>sprite_list\<close> is either on its owner's ring or null. The lemmas give what the operations
  on single timers do to a shape.
\<close>

section \<open>Rings as the timers use them\<close>

lemma ring_unlink:
  assumes "del_ring.rings h Q f" "q \<in> Q" "x \<in> set (f q)"
  shows "\<exists>h'. list_del x h = Some h' \<and> del_ring.rings h' Q (\<lambda>q. remove1 x (f q)) \<and>
    nxt h' x = None \<and> (\<forall>y. y \<notin> used Q f \<longrightarrow> nxt h' y = nxt h y)"
proof -
  from list_exec_del [OF assms] obtain h' where h': "list_del x h = Some h'"
    "del_ring.rings h' Q (\<lambda>q. remove1 x (f q))" by blast
  from list_del_spec [OF del_ring.ringsD [OF assms(1,2)] assms(3)] h'(1)
  have "nxt h' x = None" "heap_eq_outside (set (q # f q)) h h'" by auto
  with h' assms(2) show ?thesis by (auto simp: heap_eq_outside_def used_def)
qed

lemma ring_unlink_init:
  assumes "del_ring.rings h Q f" "q \<in> Q" "x \<in> set (f q)"
  shows "\<exists>h'. list_del_init x h = Some h' \<and> del_ring.rings h' Q (\<lambda>q. remove1 x (f q)) \<and>
    (\<forall>y. y \<notin> used Q f \<longrightarrow> nxt h' y = nxt h y)"
proof -
  from del_init_ring.unlink_rings [of h Q f q x] assms obtain h' where h': "list_del_init x h = Some h'"
    "del_ring.rings h' Q (f(q := remove1 x (f q)))"
    by (auto simp: del_ring.rings_def del_init_ring.rings_def)
  from list_del_init_spec [OF del_ring.ringsD [OF assms(1,2)] assms(3)] h'(1)
  have "heap_eq_outside (set (q # f q)) h h'" by auto
  with h'(1) remove1_rings [OF assms h'(2)] assms(2) show ?thesis
    by (auto simp: heap_eq_outside_def used_def)
qed

lemma ring_link:
  assumes "del_ring.rings h Q f" "q \<in> Q" "x \<notin> used Q f"
  shows "\<exists>h'. list_add_tail x q h = Some h' \<and> del_ring.rings h' Q (f(q := f q @ [x])) \<and>
    (\<forall>y. y \<notin> insert x (used Q f) \<longrightarrow> nxt h' y = nxt h y)"
proof -
  from del_ring.link_rings [OF assms] obtain h' where h': "list_add_tail x q h = Some h'"
    "del_ring.rings h' Q (f(q := f q @ [x]))" by blast
  have "x \<notin> set (q # f q)" using assms(2,3) by (auto simp: used_def)
  from list_add_tail_spec [OF del_ring.ringsD [OF assms(1,2)] this] h'(1)
  have "heap_eq_outside (insert x (set (q # f q))) h h'" by auto
  with h' assms(2) show ?thesis by (auto simp: heap_eq_outside_def used_def)
qed

lemma ring_init:
  assumes "del_ring.rings h Q f" "x \<notin> used Q f"
  shows "del_ring.rings (INIT_LIST_HEAD x h) Q f"
  unfolding del_ring.rings_def
proof (intro conjI ballI)
  fix q assume "q \<in> Q"
  then show "dlist (INIT_LIST_HEAD x h) q (f q)"
    using dlist_frame_outside [OF INIT_LIST_HEAD_outside _ del_ring.ringsD [OF assms(1)], of x q] assms(2)
    by (auto simp: used_def)
qed (use assms(1) in \<open>simp add: del_ring.rings_def\<close>)

lemma ring_next:
  assumes "del_ring.rings h Q f" "q \<in> Q" "x \<in> set (f q)"
  shows "nxt h x \<noteq> None"
proof -
  obtain ys zs where xs: "f q = ys @ x # zs" using split_list [OF assms(3)] by blast
  show ?thesis
    using list_del_between_dlist(3) [of h q ys x zs] del_ring.ringsD [OF assms(1,2)] xs by auto
qed

lemma remove1_map_inj: "inj g \<Longrightarrow> remove1 (g x) (map g xs) = map g (remove1 x xs)"
  by (induction xs) (auto simp: inj_eq)

lemma remove1_map_other: "(\<And>y. g y \<noteq> x) \<Longrightarrow> remove1 x (map g xs) = map g xs"
  by (induction xs) auto

section \<open>Shapes\<close>

fun ring_of :: "(nat \<Rightarrow> nat list) \<Rightarrow> (nat \<Rightarrow> nat list) \<Rightarrow> nat list \<Rightarrow> node \<Rightarrow> node list" where
  "ring_of B S M (Vec i) = map Entry (B i)"
| "ring_of B S M (Owner k) = map Sprite (S k)"
| "ring_of B S M Micro = map MicroEntry M"
| "ring_of B S M _ = []"

definition ring_heads :: "nat set \<Rightarrow> node set" where
  "ring_heads O' = Vec ` {..<5} \<union> {Micro} \<union> Owner ` O'"

definition shape ::
  "nat set \<Rightarrow> (nat \<Rightarrow> nat list) \<Rightarrow> (nat \<Rightarrow> nat list) \<Rightarrow> nat list \<Rightarrow> 'w timers \<Rightarrow> bool" where
  "shape O' B S M st \<longleftrightarrow>
     del_ring.rings (heap st) (ring_heads O') (ring_of B S M) \<and>
     (\<forall>t. tmr st t \<noteq> None \<longleftrightarrow> (\<exists>i<5. t \<in> set (B i))) \<and> (\<forall>t. micro st t \<noteq> None \<longleftrightarrow> t \<in> set M) \<and>
     (\<forall>k\<in>O'. \<forall>t\<in>set (S k). tmr st t \<noteq> None) \<and>
     (\<forall>t. tmr st t \<noteq> None \<longrightarrow> nxt (heap st) (Sprite t) \<noteq> None \<longrightarrow> (\<exists>k\<in>O'. t \<in> set (S k)))"

lemma inj_nodes [simp]: "inj Entry" "inj Sprite" "inj MicroEntry"
  by (simp_all add: inj_def)

lemma ring_of_remove:
  "(\<lambda>q. remove1 (Entry t) (ring_of B S M q)) = ring_of (\<lambda>i. remove1 t (B i)) S M"
  "(\<lambda>q. remove1 (Sprite t) (ring_of B S M q)) = ring_of B (\<lambda>k. remove1 t (S k)) M"
  "(\<lambda>q. remove1 (MicroEntry t) (ring_of B S M q)) = ring_of B S (remove1 t M)"
proof -
  have "remove1 (Entry t) (ring_of B S M q) = ring_of (\<lambda>i. remove1 t (B i)) S M q"
    "remove1 (Sprite t) (ring_of B S M q) = ring_of B (\<lambda>k. remove1 t (S k)) M q"
    "remove1 (MicroEntry t) (ring_of B S M q) = ring_of B S (remove1 t M) q" for q
    by (cases q; simp add: remove1_map_inj remove1_map_other)+
  then show "(\<lambda>q. remove1 (Entry t) (ring_of B S M q)) = ring_of (\<lambda>i. remove1 t (B i)) S M"
    "(\<lambda>q. remove1 (Sprite t) (ring_of B S M q)) = ring_of B (\<lambda>k. remove1 t (S k)) M"
    "(\<lambda>q. remove1 (MicroEntry t) (ring_of B S M q)) = ring_of B S (remove1 t M)" by auto
qed

lemma ring_of_upd:
  "(ring_of B S M)(Vec i := map Entry xs) = ring_of (B(i := xs)) S M"
  "(ring_of B S M)(Owner k := map Sprite xs) = ring_of B (S(k := xs)) M"
  "(ring_of B S M)(Micro := map MicroEntry xs) = ring_of B S xs"
proof -
  have "((ring_of B S M)(Vec i := map Entry xs)) q = ring_of (B(i := xs)) S M q"
    "((ring_of B S M)(Owner k := map Sprite xs)) q = ring_of B (S(k := xs)) M q"
    "((ring_of B S M)(Micro := map MicroEntry xs)) q = ring_of B S xs q" for q
    by (cases q; simp)+
  then show "(ring_of B S M)(Vec i := map Entry xs) = ring_of (B(i := xs)) S M"
    "(ring_of B S M)(Owner k := map Sprite xs) = ring_of B (S(k := xs)) M"
    "(ring_of B S M)(Micro := map MicroEntry xs) = ring_of B S xs" by blast+
qed

lemma used_nodes [simp]:
  "Entry t \<in> used (ring_heads O') (ring_of B S M) \<longleftrightarrow> (\<exists>i<5. t \<in> set (B i))"
  "Sprite t \<in> used (ring_heads O') (ring_of B S M) \<longleftrightarrow> (\<exists>k\<in>O'. t \<in> set (S k))"
  "MicroEntry t \<in> used (ring_heads O') (ring_of B S M) \<longleftrightarrow> t \<in> set M"
  by (auto simp: used_def ring_heads_def)

lemma ring_heads_mem [simp]:
  "Vec i \<in> ring_heads O' \<longleftrightarrow> i < 5" "Micro \<in> ring_heads O'" "Owner k \<in> ring_heads O' \<longleftrightarrow> k \<in> O'"
  by (auto simp: ring_heads_def)

lemma shapeI:
  assumes "del_ring.rings (heap st) (ring_heads O') (ring_of B S M)"
    "\<And>t. tmr st t \<noteq> None \<longleftrightarrow> (\<exists>i<5. t \<in> set (B i))" "\<And>t. micro st t \<noteq> None \<longleftrightarrow> t \<in> set M"
    "\<And>k t. k \<in> O' \<Longrightarrow> t \<in> set (S k) \<Longrightarrow> tmr st t \<noteq> None"
    "\<And>t. tmr st t \<noteq> None \<Longrightarrow> nxt (heap st) (Sprite t) \<noteq> None \<Longrightarrow> \<exists>k\<in>O'. t \<in> set (S k)"
  shows "shape O' B S M st"
  unfolding shape_def using assms by blast

lemma shapeD:
  assumes "shape O' B S M st"
  shows "del_ring.rings (heap st) (ring_heads O') (ring_of B S M)"
    "tmr st t \<noteq> None \<longleftrightarrow> (\<exists>i<5. t \<in> set (B i))" "micro st t \<noteq> None \<longleftrightarrow> t \<in> set M"
    "k \<in> O' \<Longrightarrow> t \<in> set (S k) \<Longrightarrow> tmr st t \<noteq> None"
    "tmr st t \<noteq> None \<Longrightarrow> nxt (heap st) (Sprite t) \<noteq> None \<Longrightarrow> \<exists>k\<in>O'. t \<in> set (S k)"
  using assms unfolding shape_def by blast+

lemma shape_cong:
  assumes "shape O' B S M st" "\<And>i. i < 5 \<Longrightarrow> B' i = B i" "\<And>k. k \<in> O' \<Longrightarrow> S' k = S k"
  shows "shape O' B' S' M st"
proof (rule shapeI)
  show "del_ring.rings (heap st) (ring_heads O') (ring_of B' S' M)"
    by (rule rings_on [OF shapeD(1) [OF assms(1)]]) (auto simp: ring_heads_def assms(2,3))
  show "tmr st t \<noteq> None \<longleftrightarrow> (\<exists>i<5. t \<in> set (B' i))" for t
    unfolding shapeD(2) [OF assms(1)] using assms(2) by auto
  show "\<exists>k\<in>O'. t \<in> set (S' k)" if "tmr st t \<noteq> None" "nxt (heap st) (Sprite t) \<noteq> None" for t
    using shapeD(5) [OF assms(1) that] assms(3) by auto
  show "tmr st t \<noteq> None" if "k \<in> O'" "t \<in> set (S' k)" for k t
    using shapeD(4) [OF assms(1), of k t] that assms(3) by simp
qed (rule shapeD(3) [OF assms(1)])

text \<open>What a shape says about its lists.\<close>

lemma shape_rings: "shape O' B S M st \<Longrightarrow> del_ring.rings (heap st) (ring_heads O') (ring_of B S M)"
  by (simp add: shape_def)

lemma shape_bucket: "shape O' B S M st \<Longrightarrow> i < 5 \<Longrightarrow> dlist (heap st) (Vec i) (map Entry (B i))"
  using del_ring.ringsD [OF shape_rings, of O' B S M st "Vec i"] by simp

lemma shape_owner: "shape O' B S M st \<Longrightarrow> k \<in> O' \<Longrightarrow> dlist (heap st) (Owner k) (map Sprite (S k))"
  using del_ring.ringsD [OF shape_rings, of O' B S M st "Owner k"] by simp

lemma shape_micro: "shape O' B S M st \<Longrightarrow> dlist (heap st) Micro (map MicroEntry M)"
  using del_ring.ringsD [OF shape_rings, of O' B S M st Micro] by simp

lemma shape_distinct:
  assumes "shape O' B S M st"
  shows "i < 5 \<Longrightarrow> distinct (B i)" "k \<in> O' \<Longrightarrow> distinct (S k)" "distinct M"
  using dlist_distinct(1) [OF shape_bucket [OF assms]] dlist_distinct(1) [OF shape_owner [OF assms]]
    dlist_distinct(1) [OF shape_micro [OF assms]] by (auto simp: distinct_map)

lemma shape_one_bucket:
  assumes "shape O' B S M st" "i < 5" "j < 5" "t \<in> set (B i)" "t \<in> set (B j)"
  shows "i = j"
proof (rule ccontr)
  assume "i \<noteq> j"
  then show False
    using apartD [of "ring_heads O'" "ring_of B S M" "Vec i" "Vec j"] shape_rings [OF assms(1)] assms(2-5)
    by (auto simp: del_ring.rings_def)
qed

lemma shape_live: "shape O' B S M st \<Longrightarrow> i < 5 \<Longrightarrow> t \<in> set (B i) \<Longrightarrow> \<exists>tm. tmr st t = Some tm"
  unfolding shape_def by blast

lemma shape_live_micro: "shape O' B S M st \<Longrightarrow> t \<in> set M \<Longrightarrow> \<exists>tm. micro st t = Some tm"
  unfolding shape_def by blast

lemma shape_bucket_of: "shape O' B S M st \<Longrightarrow> tmr st t = Some tm \<Longrightarrow> \<exists>i<5. t \<in> set (B i)"
  unfolding shape_def by blast

text \<open>The shape sees the heap and which timers are live, nothing else.\<close>

lemma shape_fields:
  assumes "shape O' B S M st" "heap st' = heap st" "\<And>t. tmr st' t = None \<longleftrightarrow> tmr st t = None"
    "\<And>t. micro st' t = None \<longleftrightarrow> micro st t = None"
  shows "shape O' B S M st'"
  using assms(1) unfolding shape_def assms(2-4) .

section \<open>Operations on one timer\<close>

lemma in_remove1_bucket:
  assumes "shape O' B S M st"
  shows "(\<exists>i<5. u \<in> set (remove1 t (B i))) \<longleftrightarrow> u \<noteq> t \<and> (\<exists>i<5. u \<in> set (B i))"
  using shape_distinct(1) [OF assms] by auto

text \<open>The first half of \<open>do_remove_timer\<close>: leaving the owner's ring, if still on it.\<close>

lemma unlink_sprite:
  assumes "shape O' B S M st" "tmr st t \<noteq> None"
  shows "\<exists>h. (if nxt (heap st) (Sprite t) \<noteq> None then on_heap (list_del (Sprite t)) st else Some st) =
      Some (st\<lparr>heap := h\<rparr>) \<and> shape O' B (\<lambda>k. remove1 t (S k)) M (st\<lparr>heap := h\<rparr>) \<and> nxt h (Sprite t) = None"
proof (cases "nxt (heap st) (Sprite t) = None")
  case True
  have "t \<notin> set (S k)" if "k \<in> O'" for k
    using ring_next [OF shape_rings [OF assms(1)], of "Owner k" "Sprite t"] that True by auto
  then have "shape O' B (\<lambda>k. remove1 t (S k)) M st"
    by (intro shape_cong [OF assms(1)]) (auto simp: remove1_idem)
  then show ?thesis using True by (intro exI [of _ "heap st"]) simp
next
  case False
  then obtain k where k: "k \<in> O'" "t \<in> set (S k)" using assms unfolding shape_def by blast
  from ring_unlink [OF shape_rings [OF assms(1)], of "Owner k" "Sprite t"] k obtain h where h:
    "list_del (Sprite t) (heap st) = Some h" "nxt h (Sprite t) = None"
    "del_ring.rings h (ring_heads O') (ring_of B (\<lambda>k. remove1 t (S k)) M)"
    "\<forall>y. y \<notin> used (ring_heads O') (ring_of B S M) \<longrightarrow> nxt h y = nxt (heap st) y"
    by (auto simp: ring_of_remove)
  have "\<exists>k\<in>O'. u \<in> set (remove1 t (S k))" if "tmr st u \<noteq> None" "nxt h (Sprite u) \<noteq> None" for u
  proof -
    have "\<exists>k\<in>O'. u \<in> set (S k)"
      using that h(4) assms(1) unfolding shape_def by (metis used_nodes(2))
    moreover have "u \<noteq> t" using that h(2) by auto
    ultimately show ?thesis by (auto simp: in_set_remove1)
  qed
  then have "shape O' B (\<lambda>k. remove1 t (S k)) M (st\<lparr>heap := h\<rparr>)"
    by (intro shapeI) (use h(3) shapeD(2-4) [OF assms(1)] in \<open>auto dest: in_set_remove1D simp del: not_None_eq\<close>)
  then show ?thesis using False h(1,2) by (auto simp: on_heap_def)
qed

lemma unlink_entry:
  assumes "shape O' B S M st" "tmr st t \<noteq> None" "nxt (heap st) (Sprite t) = None"
  shows "\<exists>h. on_heap (list_del (Entry t)) st = Some (st\<lparr>heap := h\<rparr>) \<and>
    shape O' (\<lambda>i. remove1 t (B i)) S M (st\<lparr>heap := h, tmr := (tmr st)(t := None)\<rparr>)"
proof -
  obtain i where i: "i < 5" "t \<in> set (B i)" using assms(1,2) unfolding shape_def by blast
  from ring_unlink [OF shape_rings [OF assms(1)], of "Vec i" "Entry t"] i obtain h where h:
    "list_del (Entry t) (heap st) = Some h"
    "del_ring.rings h (ring_heads O') (ring_of (\<lambda>i. remove1 t (B i)) S M)"
    "\<forall>y. y \<notin> used (ring_heads O') (ring_of B S M) \<longrightarrow> nxt h y = nxt (heap st) y"
    by (auto simp: ring_of_remove)
  have s: "t \<notin> set (S k)" if "k \<in> O'" for k
    using ring_next [OF shape_rings [OF assms(1)], of "Owner k" "Sprite t"] that assms(3) by auto
  have "\<exists>k\<in>O'. u \<in> set (S k)" if "tmr st u \<noteq> None" "nxt h (Sprite u) \<noteq> None" for u
    using that h(3) assms(1) unfolding shape_def by (metis used_nodes(2))
  then have "shape O' (\<lambda>i. remove1 t (B i)) S M (st\<lparr>heap := h, tmr := (tmr st)(t := None)\<rparr>)"
    by (intro shapeI) (use h(2) s shapeD(2-4) [OF assms(1)] in_remove1_bucket [OF assms(1)] in
        \<open>auto simp del: not_None_eq split: if_splits\<close>)
  then show ?thesis using h(1) by (auto simp: on_heap_def)
qed


lemma do_remove_freed:
  assumes "shape O' B S M st" "tmr st t \<noteq> None"
  shows "\<exists>h. do_remove_timer t True st = Some (st\<lparr>heap := h, tmr := (tmr st)(t := None)\<rparr>) \<and>
    shape O' (\<lambda>i. remove1 t (B i)) (\<lambda>k. remove1 t (S k)) M (st\<lparr>heap := h, tmr := (tmr st)(t := None)\<rparr>)"
proof -
  obtain tm where tm: "tmr st t = Some tm" using assms(2) by auto
  from unlink_sprite [OF assms] obtain h where h:
    "(if nxt (heap st) (Sprite t) \<noteq> None then on_heap (list_del (Sprite t)) st else Some st) = Some (st\<lparr>heap := h\<rparr>)"
    "shape O' B (\<lambda>k. remove1 t (S k)) M (st\<lparr>heap := h\<rparr>)" "nxt h (Sprite t) = None" by blast
  from unlink_entry [OF h(2), of t] assms(2) h(3) obtain h' where h':
    "on_heap (list_del (Entry t)) (st\<lparr>heap := h\<rparr>) = Some (st\<lparr>heap := h'\<rparr>)"
    "shape O' (\<lambda>i. remove1 t (B i)) (\<lambda>k. remove1 t (S k)) M (st\<lparr>heap := h', tmr := (tmr st)(t := None)\<rparr>)"
    by (auto simp del: not_None_eq)
  show ?thesis using h'(2) by (auto simp: do_remove_timer_def tm h(1) [simplified] h'(1))
qed

lemma do_remove_kept:
  assumes "shape O' B S M st" "tmr st t = Some tm"
  shows "\<exists>h. do_remove_timer t False st =
      Some (st\<lparr>heap := h, tmr := (tmr st)(t := Some (tm\<lparr>func := None, func_indx := 0\<rparr>))\<rparr>) \<and>
    shape O' B (\<lambda>k. remove1 t (S k)) M
      (st\<lparr>heap := h, tmr := (tmr st)(t := Some (tm\<lparr>func := None, func_indx := 0\<rparr>))\<rparr>)"
proof -
  have "tmr st t \<noteq> None" using assms(2) by simp
  from unlink_sprite [OF assms(1) this] obtain h where h:
    "(if nxt (heap st) (Sprite t) \<noteq> None then on_heap (list_del (Sprite t)) st else Some st) = Some (st\<lparr>heap := h\<rparr>)"
    "shape O' B (\<lambda>k. remove1 t (S k)) M (st\<lparr>heap := h\<rparr>)" by blast
  have "shape O' B (\<lambda>k. remove1 t (S k)) M
      (st\<lparr>heap := h, tmr := (tmr st)(t := Some (tm\<lparr>func := None, func_indx := 0\<rparr>))\<rparr>)"
    by (rule shape_fields [OF h(2)]) (use assms(2) in auto)
  then show ?thesis by (auto simp: do_remove_timer_def assms(2) h(1) [simplified] set_timer_def)
qed

text \<open>An entry that leaves its bucket and enters another one, or the same one at its tail.\<close>

lemma move_entry:
  assumes "shape O' B S M st" "tmr st t \<noteq> None" "j < 5" "unl = list_del \<or> unl = list_del_init"
  shows "\<exists>h h'. on_heap (unl (Entry t)) st = Some (st\<lparr>heap := h\<rparr>) \<and>
    on_heap (list_add_tail (Entry t) (Vec j)) (st\<lparr>heap := h\<rparr>) = Some (st\<lparr>heap := h'\<rparr>) \<and>
    shape O' (\<lambda>i. remove1 t (B i) @ (if i = j then [t] else [])) S M (st\<lparr>heap := h'\<rparr>)"
proof -
  obtain i where i: "i < 5" "t \<in> set (B i)" using assms(2) shapeD(2) [OF assms(1)] by blast
  let ?B = "\<lambda>i. remove1 t (B i)"
  have "\<exists>h. unl (Entry t) (heap st) = Some h \<and> del_ring.rings h (ring_heads O') (ring_of ?B S M) \<and>
    (\<forall>y. y \<notin> used (ring_heads O') (ring_of B S M) \<longrightarrow> nxt h y = nxt (heap st) y)"
    using assms(4) ring_unlink [OF shape_rings [OF assms(1)], of "Vec i" "Entry t"]
      ring_unlink_init [OF shape_rings [OF assms(1)], of "Vec i" "Entry t"] i
    by (auto simp: ring_of_remove)
  then obtain h where h: "unl (Entry t) (heap st) = Some h" "del_ring.rings h (ring_heads O') (ring_of ?B S M)"
    "\<forall>y. y \<notin> used (ring_heads O') (ring_of B S M) \<longrightarrow> nxt h y = nxt (heap st) y" by blast
  have "Entry t \<notin> used (ring_heads O') (ring_of ?B S M)" using in_remove1_bucket [OF assms(1)] by simp
  from ring_link [OF h(2) _ this, of "Vec j"] assms(3) obtain h' where h':
    "list_add_tail (Entry t) (Vec j) h = Some h'"
    "del_ring.rings h' (ring_heads O') (ring_of (?B(j := ?B j @ [t])) S M)"
    "\<forall>y. y \<notin> insert (Entry t) (used (ring_heads O') (ring_of ?B S M)) \<longrightarrow> nxt h' y = nxt h y"
    by (auto simp: ring_of_upd [symmetric])
  have B: "?B(j := ?B j @ [t]) = (\<lambda>i. remove1 t (B i) @ (if i = j then [t] else []))" by auto
  have "shape O' (\<lambda>i. remove1 t (B i) @ (if i = j then [t] else [])) S M (st\<lparr>heap := h'\<rparr>)"
  proof (rule shapeI)
    show "del_ring.rings (heap (st\<lparr>heap := h'\<rparr>)) (ring_heads O')
        (ring_of (\<lambda>i. remove1 t (B i) @ (if i = j then [t] else [])) S M)" using h'(2) by (simp add: B)
    show "tmr (st\<lparr>heap := h'\<rparr>) u \<noteq> None \<longleftrightarrow> (\<exists>i<5. u \<in> set (remove1 t (B i) @ (if i = j then [t] else [])))" for u
      using in_remove1_bucket [OF assms(1), of u t] shapeD(2) [OF assms(1), of u] assms(2,3)
      by (auto simp del: not_None_eq)
    show "\<exists>k\<in>O'. u \<in> set (S k)"
      if "tmr (st\<lparr>heap := h'\<rparr>) u \<noteq> None" "nxt (heap (st\<lparr>heap := h'\<rparr>)) (Sprite u) \<noteq> None" for u
    proof (rule ccontr)
      assume no: "\<not> (\<exists>k\<in>O'. u \<in> set (S k))"
      have "Sprite u \<notin> insert (Entry t) (used (ring_heads O') (ring_of ?B S M))"
        "Sprite u \<notin> used (ring_heads O') (ring_of B S M)" using no by simp_all
      then have "nxt h' (Sprite u) = nxt (heap st) (Sprite u)" using h'(3) h(3) by metis
      then show False using shapeD(5) [OF assms(1), of u] that no by simp
    qed
  qed (use shapeD(3,4) [OF assms(1)] in \<open>simp_all del: not_None_eq\<close>)
  with h(1) h'(1) show ?thesis by (auto simp: on_heap_def)
qed

text \<open>A new timer, from the allocator to its owner's ring.\<close>

lemma link_sprite:
  assumes "shape O' B S M st" "tmr st t = None" "k \<in> O'"
    and "h0 = INIT_LIST_HEAD (Entry t) (INIT_LIST_HEAD (Sprite t) (heap st))"
  shows "\<exists>h. list_add_tail (Sprite t) (Owner k) h0 = Some h \<and>
    del_ring.rings h (ring_heads O') (ring_of B (S(k := S k @ [t])) M) \<and>
    (\<forall>u. u \<noteq> t \<longrightarrow> Sprite u \<notin> used (ring_heads O') (ring_of B S M) \<longrightarrow> nxt h (Sprite u) = nxt (heap st) (Sprite u))"
proof -
  have "Entry t \<notin> used (ring_heads O') (ring_of B S M)" "Sprite t \<notin> used (ring_heads O') (ring_of B S M)"
    using shapeD(2) [OF assms(1), of t] shapeD(4) [OF assms(1), of _ t] assms(2) by auto
  note fresh = this
  have "del_ring.rings h0 (ring_heads O') (ring_of B S M)"
    unfolding assms(4) by (intro ring_init shape_rings [OF assms(1)] fresh)
  from ring_link [OF this _ fresh(2), of "Owner k"] assms(3) obtain h where h:
    "list_add_tail (Sprite t) (Owner k) h0 = Some h"
    "del_ring.rings h (ring_heads O') (ring_of B (S(k := S k @ [t])) M)"
    "\<forall>y. y \<notin> insert (Sprite t) (used (ring_heads O') (ring_of B S M)) \<longrightarrow> nxt h y = nxt h0 y"
    by (auto simp: ring_of_upd [symmetric])
  then show ?thesis by (auto simp: assms(4) INIT_LIST_HEAD_def)
qed

lemma link_new_entry:
  assumes "shape O' B S M st" "tmr st t = None" "k \<in> O'" "j < 5"
  shows "\<exists>h h'. on_heap (list_add_tail (Sprite t) (Owner k))
      (set_timer t tm (st\<lparr>heap := INIT_LIST_HEAD (Entry t) (INIT_LIST_HEAD (Sprite t) (heap st))\<rparr>)) =
        Some (set_timer t tm (st\<lparr>heap := h\<rparr>)) \<and>
    on_heap (list_add_tail (Entry t) (Vec j)) (set_timer t tm (st\<lparr>heap := h\<rparr>)) =
      Some (set_timer t tm (st\<lparr>heap := h'\<rparr>)) \<and>
    shape O' (B(j := B j @ [t])) (S(k := S k @ [t])) M (set_timer t tm (st\<lparr>heap := h'\<rparr>))"
proof -
  from link_sprite [OF assms(1-3) refl] obtain h where h:
    "list_add_tail (Sprite t) (Owner k) (INIT_LIST_HEAD (Entry t) (INIT_LIST_HEAD (Sprite t) (heap st))) = Some h"
    "del_ring.rings h (ring_heads O') (ring_of B (S(k := S k @ [t])) M)"
    "\<forall>u. u \<noteq> t \<longrightarrow> Sprite u \<notin> used (ring_heads O') (ring_of B S M) \<longrightarrow> nxt h (Sprite u) = nxt (heap st) (Sprite u)"
    by blast
  have "Entry t \<notin> used (ring_heads O') (ring_of B (S(k := S k @ [t])) M)"
    using shapeD(2) [OF assms(1), of t] assms(2) by auto
  from ring_link [OF h(2) _ this, of "Vec j"] assms(4) obtain h' where h':
    "list_add_tail (Entry t) (Vec j) h = Some h'"
    "del_ring.rings h' (ring_heads O') (ring_of (B(j := B j @ [t])) (S(k := S k @ [t])) M)"
    "\<forall>y. y \<notin> insert (Entry t) (used (ring_heads O') (ring_of B (S(k := S k @ [t])) M)) \<longrightarrow> nxt h' y = nxt h y"
    using ring_of_upd(1) [of B "S(k := S k @ [t])" M j "B j @ [t]"] by auto
  have "shape O' (B(j := B j @ [t])) (S(k := S k @ [t])) M (set_timer t tm (st\<lparr>heap := h'\<rparr>))"
  proof (rule shapeI)
    show "tmr (set_timer t tm (st\<lparr>heap := h'\<rparr>)) u \<noteq> None \<longleftrightarrow> (\<exists>i<5. u \<in> set ((B(j := B j @ [t])) i))" for u
      using shapeD(2) [OF assms(1), of u] assms(4) by (auto simp: set_timer_def simp del: not_None_eq)
    show "\<exists>q\<in>O'. u \<in> set ((S(k := S k @ [t])) q)"
      if "tmr (set_timer t tm (st\<lparr>heap := h'\<rparr>)) u \<noteq> None"
        "nxt (heap (set_timer t tm (st\<lparr>heap := h'\<rparr>))) (Sprite u) \<noteq> None" for u
    proof (rule ccontr)
      assume no: "\<not> (\<exists>q\<in>O'. u \<in> set ((S(k := S k @ [t])) q))"
      then have u: "u \<noteq> t" "\<not> (\<exists>q\<in>O'. u \<in> set (S q))" using assms(3) by (auto split: if_splits)
      have "Sprite u \<notin> insert (Entry t) (used (ring_heads O') (ring_of B (S(k := S k @ [t])) M))"
        "Sprite u \<notin> used (ring_heads O') (ring_of B S M)" using no u by simp_all
      then have "nxt h' (Sprite u) = nxt (heap st) (Sprite u)" using h'(3) h(3) u(1) by metis
      then show False using shapeD(5) [OF assms(1), of u] that u by (simp add: set_timer_def)
    qed
    show "tmr (set_timer t tm (st\<lparr>heap := h'\<rparr>)) u \<noteq> None" if "q \<in> O'" "u \<in> set ((S(k := S k @ [t])) q)" for q u
      using shapeD(4) [OF assms(1) that(1), of u] that(2) by (auto simp: set_timer_def split: if_splits)
  qed (use h'(2) shapeD(3) [OF assms(1)] in \<open>simp_all add: set_timer_def del: not_None_eq\<close>)
  with h(1) h'(1) show ?thesis by (intro exI [of _ h] exI [of _ h']) (simp add: on_heap_def set_timer_def)
qed

end
