(* ===== verification/TimerScan.thy ===== *)
theory TimerScan
  imports TimerShape
begin

text \<open>
  The scans over the buckets. The invariant of the timers is their shape together with
  the bucket widths, positive times, and for every bucket but the first a minimum that
  is set and not above any timer of the bucket. The first part gives one turn of the loop
  over the due bucket, the second the redistribution of the others.
\<close>

abbreviation min_at :: "'w timers \<Rightarrow> nat \<Rightarrow> int" where
  "min_at st i \<equiv> min_expiring_time (vec st ! i)"

definition vec_ok :: "'w timers \<Rightarrow> bool" where
  "vec_ok st \<longleftrightarrow> length (vec st) = 5 \<and> (\<forall>i<5. vexpire (vec st ! i) = 2 ^ (i + 2))"

definition expires_ok :: "'w timers \<Rightarrow> bool" where
  "expires_ok st \<longleftrightarrow> (\<forall>t tm. tmr st t = Some tm \<longrightarrow> 0 < expire tm)"

definition min_ok :: "nat \<Rightarrow> nat list \<Rightarrow> 'w timers \<Rightarrow> bool" where
  "min_ok i ts st \<longleftrightarrow> (\<forall>t\<in>set ts. \<forall>tm. tmr st t = Some tm \<longrightarrow> min_at st i \<noteq> 0 \<and> min_at st i \<le> expire tm)"

definition far :: "nat list \<Rightarrow> 'w timers \<Rightarrow> bool" where
  "far ts st \<longleftrightarrow> (\<forall>t\<in>set ts. \<forall>tm. tmr st t = Some tm \<longrightarrow> tv_sec (now st) + 2 \<le> expire tm)"

definition timers_inv ::
  "nat set \<Rightarrow> (nat \<Rightarrow> nat list) \<Rightarrow> (nat \<Rightarrow> nat list) \<Rightarrow> nat list \<Rightarrow> 'w timers \<Rightarrow> bool" where
  "timers_inv O' B S M st \<longleftrightarrow> shape O' B S M st \<and> vec_ok st \<and> expires_ok st \<and> (\<forall>i\<in>{1..<5}. min_ok i (B i) st)"

lemma timers_invD:
  assumes "timers_inv O' B S M st"
  shows "shape O' B S M st" "vec_ok st" "expires_ok st" "i \<in> {1..<5} \<Longrightarrow> min_ok i (B i) st"
  using assms by (simp_all add: timers_inv_def)

text \<open>Timers that leave a bucket, or are freed, do no harm to what is known of it.\<close>

lemma min_ok_mono:
  "min_ok i ts st \<Longrightarrow> set ts' \<subseteq> set ts \<Longrightarrow> vec st' = vec st \<Longrightarrow>
    (\<And>t tm. tmr st' t = Some tm \<Longrightarrow> \<exists>tm'. tmr st t = Some tm' \<and> expire tm' = expire tm) \<Longrightarrow> min_ok i ts' st'"
  unfolding min_ok_def by (metis subsetD)

lemma far_mono:
  "far ts st \<Longrightarrow> set ts' \<subseteq> set ts \<Longrightarrow> now st' = now st \<Longrightarrow>
    (\<And>t tm. tmr st' t = Some tm \<Longrightarrow> \<exists>tm'. tmr st t = Some tm' \<and> expire tm' = expire tm) \<Longrightarrow> far ts' st'"
  unfolding far_def by (metis subsetD)

section \<open>The walk over a bucket\<close>

text \<open>The nodes the safe loop still has to read are where the shape puts them.\<close>

lemma bucket_walk:
  assumes "shape O' B S M st" "i < 5" "B i = done @ rest"
  shows "chain (heap st) (map Entry rest @ [Vec i]) \<and> nxt (heap st) (Vec i) \<noteq> None"
  using dlist_chain [of "heap st" "Vec i" "map Entry done" "map Entry rest"] shape_bucket [OF assms(1,2)]
    dlist_ends(1) [OF shape_bucket [OF assms(1,2)]] assms(3) by (auto split: list.splits)

lemma remove_current:
  assumes "shape O' B S M st" "i < 5" "B i = done @ t # rest"
  shows "remove1 t (B i) = done @ rest" "j < 5 \<Longrightarrow> j \<noteq> i \<Longrightarrow> remove1 t (B j) = B j"
proof -
  show "remove1 t (B i) = done @ rest"
    using shape_distinct(1) [OF assms(1,2)] assms(3) by (simp add: remove1_append)
  show "remove1 t (B j) = B j" if "j < 5" "j \<noteq> i"
  proof (rule remove1_idem)
    show "t \<notin> set (B j)" using shape_one_bucket [OF assms(1,2) that(1), of t] assms(3) that by auto
  qed
qed

section \<open>Firing\<close>

text \<open>
  A callback that leaves the timers alone: it reads and writes the world outside, and its
  result says whether its timer stays.
\<close>

definition quiet_call :: "(nat \<Rightarrow> nat \<Rightarrow> nat \<Rightarrow> 'w \<Rightarrow> int \<times> 'w) \<Rightarrow> 'w callbacks" where
  "quiet_call act f own dat st = Some (fst (act f own dat (world st)), st\<lparr>world := snd (act f own dat (world st))\<rparr>)"

text \<open>
  What firing amounts to: in order, every timer with a callback whose time has come is
  called; a removed timer, or one whose callback answers 0, is dropped.
\<close>

fun fire :: "(nat \<Rightarrow> nat \<Rightarrow> nat \<Rightarrow> 'w \<Rightarrow> int \<times> 'w) \<Rightarrow> (nat \<Rightarrow> timer_struct option) \<Rightarrow> int \<Rightarrow>
    nat list \<Rightarrow> 'w \<Rightarrow> nat list \<times> 'w" where
  "fire act T n [] w = ([], w)"
| "fire act T n (t # ts) w =
     (case T t of
        None \<Rightarrow> fire act T n ts w
      | Some tm \<Rightarrow>
          (case func tm of
             None \<Rightarrow> fire act T n ts w
           | Some f \<Rightarrow>
               if expire tm \<le> n then
                 let (r, w) = act f (owner tm) (data tm) w; (ks, w) = fire act T n ts w
                 in (if r = 0 then ks else t # ks, w)
               else let (ks, w) = fire act T n ts w in (t # ks, w)))"

definition dropped :: "nat list \<Rightarrow> nat list \<Rightarrow> (nat \<Rightarrow> 'a option) \<Rightarrow> nat \<Rightarrow> 'a option" where
  "dropped old kept T t = (if t \<in> set old - set kept then None else T t)"

text \<open>The state between two turns of the loop.\<close>

definition firing ::
  "(nat \<Rightarrow> nat \<Rightarrow> nat \<Rightarrow> 'w \<Rightarrow> int \<times> 'w) \<Rightarrow> nat set \<Rightarrow> (nat \<Rightarrow> nat list) \<Rightarrow> nat list \<Rightarrow> 'w timers \<Rightarrow>
   node list \<Rightarrow> 'w timers \<Rightarrow> bool" where
  "firing act O' B M st xs s \<longleftrightarrow> (\<exists>done rest S. xs = map Entry rest \<and> shape O' (B(0 := done @ rest)) S M s \<and>
     s = st\<lparr>heap := heap s, tmr := dropped (B 0) (done @ rest) (tmr st), world := world s\<rparr> \<and>
     set (done @ rest) \<subseteq> set (B 0) \<and>
     fire act (tmr st) (tv_sec (now st)) (B 0) (world st) =
       (case fire act (tmr st) (tv_sec (now st)) rest (world s) of (ks, w) \<Rightarrow> (done @ ks, w)))"

lemma firing_step:
  assumes "firing act O' B M st (x # xs) s"
  shows "\<exists>s'. fire_step (quiet_call act) x s = Some s' \<and> firing act O' B M st xs s'"
proof -
  from assms obtain don t rest S where f: "x = Entry t" "xs = map Entry rest"
    "shape O' (B(0 := don @ t # rest)) S M s"
    "s = st\<lparr>heap := heap s, tmr := dropped (B 0) (don @ t # rest) (tmr st), world := world s\<rparr>"
    "set (don @ t # rest) \<subseteq> set (B 0)"
    "fire act (tmr st) (tv_sec (now st)) (B 0) (world st) =
       (case fire act (tmr st) (tv_sec (now st)) (t # rest) (world s) of (ks, w) \<Rightarrow> (don @ ks, w))"
    unfolding firing_def by (auto simp: Cons_eq_map_conv)
  obtain tm where tm: "tmr s t = Some tm" using shape_live [OF f(3), of 0 t] by auto
  have T: "tmr s = dropped (B 0) (don @ t # rest) (tmr st)" "now s = now st" by (subst f(4), simp)+
  then have tm': "tmr st t = Some tm" using tm by (simp add: dropped_def)
  have d: "distinct (don @ t # rest)" using shape_distinct(1) [OF f(3), of 0] by simp
  have drop: "(\<lambda>u. if u = t then None else dropped (B 0) (don @ t # rest) (tmr st) u) =
      dropped (B 0) (don @ rest) (tmr st)"
    using d f(5) by (auto simp: dropped_def)
  define freed where "freed w = (\<exists>s'. do_remove_timer t True (s\<lparr>world := w\<rparr>) = Some s' \<and>
      shape O' (B(0 := don @ rest)) (\<lambda>k. remove1 t (S k)) M s' \<and>
      s' = st\<lparr>heap := heap s', tmr := dropped (B 0) (don @ rest) (tmr st), world := w\<rparr>)" for w
  have freed: "freed w" for w
  proof -
    have sh: "shape O' (B(0 := don @ t # rest)) S M (s\<lparr>world := w\<rparr>)" by (rule shape_fields [OF f(3)]) simp_all
    from do_remove_freed [OF sh, of t] tm obtain h where h:
      "do_remove_timer t True (s\<lparr>world := w\<rparr>) = Some (s\<lparr>world := w, heap := h, tmr := (tmr s)(t := None)\<rparr>)"
      "shape O' (\<lambda>i. remove1 t ((B(0 := don @ t # rest)) i)) (\<lambda>k. remove1 t (S k)) M
         (s\<lparr>world := w, heap := h, tmr := (tmr s)(t := None)\<rparr>)" by auto
    have "shape O' (B(0 := don @ rest)) (\<lambda>k. remove1 t (S k)) M (s\<lparr>world := w, heap := h, tmr := (tmr s)(t := None)\<rparr>)"
      by (rule shape_cong [OF h(2)])
        (use remove_current [OF f(3), of 0 don t rest] in \<open>simp_all split: if_splits\<close>)
    moreover have "s\<lparr>world := w, heap := h, tmr := (tmr s)(t := None)\<rparr> =
        st\<lparr>heap := h, tmr := dropped (B 0) (don @ rest) (tmr st), world := w\<rparr>"
      by (subst f(4)) (simp add: T fun_upd_def drop)
    ultimately show ?thesis unfolding freed_def using h(1) by auto
  qed
  have nexts: "firing act O' B M st xs s'" if "freed w" "fire act (tmr st) (tv_sec (now st)) (B 0) (world st) =
      (case fire act (tmr st) (tv_sec (now st)) rest w of (ks, w) \<Rightarrow> (don @ ks, w))"
    "do_remove_timer t True (s\<lparr>world := w\<rparr>) = Some s'" for w s'
  proof -
    from that(1,3) have s': "shape O' (B(0 := don @ rest)) (\<lambda>k. remove1 t (S k)) M s'"
      "s' = st\<lparr>heap := heap s', tmr := dropped (B 0) (don @ rest) (tmr st), world := w\<rparr>"
      by (auto simp: freed_def)
    have "world s' = w" by (subst s'(2)) simp
    then show ?thesis unfolding firing_def using s' f(2,5) that(2) by auto
  qed
  have stay: "firing act O' B M st xs (s\<lparr>world := w\<rparr>)" if "fire act (tmr st) (tv_sec (now st)) (B 0) (world st) =
      (case fire act (tmr st) (tv_sec (now st)) rest w of (ks, w) \<Rightarrow> (don @ t # ks, w))" for w
  proof -
    have "shape O' (B(0 := don @ t # rest)) S M (s\<lparr>world := w\<rparr>)" by (rule shape_fields [OF f(3)]) simp_all
    then have "shape O' (B(0 := (don @ [t]) @ rest)) S M (s\<lparr>world := w\<rparr>)" by simp
    moreover have "s\<lparr>world := w\<rparr> = st\<lparr>heap := heap s, tmr := dropped (B 0) ((don @ [t]) @ rest) (tmr st), world := w\<rparr>"
      by (subst f(4)) simp
    ultimately show ?thesis unfolding firing_def using f(2,5) that
      by (intro exI [of _ "don @ [t]"] exI [of _ rest] exI [of _ S]) auto
  qed
  have ws: "s\<lparr>world := world s\<rparr> = s" by simp
  have step: "fire_step (quiet_call act) x s = (case func tm of
       None \<Rightarrow> do_remove_timer t True s
     | Some c \<Rightarrow> if expire tm \<le> tv_sec (now st) then
         (if fst (act c (owner tm) (data tm) (world s)) = 0
          then do_remove_timer t True (s\<lparr>world := snd (act c (owner tm) (data tm) (world s))\<rparr>)
          else Some (s\<lparr>world := snd (act c (owner tm) (data tm) (world s))\<rparr>))
         else Some s)"
    by (simp add: fire_step_def f(1) tm quiet_call_def T(2) split: option.split)
  show ?thesis
  proof (cases "func tm")
    case None
    obtain s' where "do_remove_timer t True (s\<lparr>world := world s\<rparr>) = Some s'"
      using freed [of "world s"] unfolding freed_def by blast
    with nexts [OF freed _ this] f(6) show ?thesis by (simp add: step None tm' ws)
  next
    case (Some c)
    let ?r = "fst (act c (owner tm) (data tm) (world s))" and ?w = "snd (act c (owner tm) (data tm) (world s))"
    consider (late) "expire tm \<le> tv_sec (now st)" "?r = 0" | (kept) "expire tm \<le> tv_sec (now st)" "?r \<noteq> 0"
      | (early) "\<not> expire tm \<le> tv_sec (now st)" by blast
    then show ?thesis
    proof cases
      case late
      obtain s' where "do_remove_timer t True (s\<lparr>world := ?w\<rparr>) = Some s'"
        using freed [of ?w] unfolding freed_def by blast
      with nexts [OF freed _ this] f(6) late show ?thesis
        by (simp add: step Some tm' split: prod.splits)
    next
      case kept
      with stay [of ?w] f(6) show ?thesis by (simp add: step Some tm' split: prod.splits)
    next
      case early
      with stay [of "world s"] f(6) show ?thesis by (simp add: step Some tm' split: prod.splits)
    qed
  qed
qed


lemma dropped_same [simp]: "dropped ts ts T = T"
  by (simp add: dropped_def fun_eq_iff)

lemma firing_walk:
  "firing act O' B M st xs s \<Longrightarrow> chain (heap s) (xs @ [Vec 0]) \<and> nxt (heap s) (Vec 0) \<noteq> None"
  unfolding firing_def using bucket_walk [of O' _ _ M s 0] by fastforce

text \<open>The first loop of \<open>scan_seconds_timer\<close> is \<open>fire\<close> on the first bucket.\<close>

lemma fire_loop:
  assumes "timers_inv O' B S M st"
    and "fire act (tmr st) (tv_sec (now st)) (B 0) (world st) = (ks, w)"
  shows "\<exists>st' S'. list_for_each_safe heap (fire_step (quiet_call act)) (Vec 0) st = Some st' \<and>
    timers_inv O' (B(0 := ks)) S' M st' \<and> set ks \<subseteq> set (B 0) \<and>
    st' = st\<lparr>heap := heap st', tmr := dropped (B 0) ks (tmr st), world := w\<rparr>"
proof -
  note inv = timers_invD [OF assms(1)]
  have start: "firing act O' B M st (map Entry (B 0)) st"
    unfolding firing_def
    by (rule exI [of _ "[]"], rule exI [of _ "B 0"], rule exI [of _ S]) (use inv(1) in simp)
  have "\<exists>st'. list_for_each_safe heap (fire_step (quiet_call act)) (Vec 0) st = Some st' \<and>
      firing act O' B M st [] st'"
    by (rule list_for_each_safe_rule [where I = "firing act O' B M st", OF start])
      (fact firing_step, fact firing_walk, rule shape_bucket [OF inv(1)], simp)
  then obtain st' where st': "list_for_each_safe heap (fire_step (quiet_call act)) (Vec 0) st = Some st'"
    "firing act O' B M st [] st'" by blast
  from st'(2) assms(2) obtain S' where f: "shape O' (B(0 := ks)) S' M st'" "set ks \<subseteq> set (B 0)"
    "st' = st\<lparr>heap := heap st', tmr := dropped (B 0) ks (tmr st), world := w\<rparr>"
    unfolding firing_def by auto
  have T: "tmr st' = dropped (B 0) ks (tmr st)" "vec st' = vec st" by (subst f(3), simp)+
  have live: "tmr st t = Some tm" if "tmr st' t = Some tm" for t tm
    using that by (simp add: T dropped_def split: if_splits)
  have "min_ok i ((B(0 := ks)) i) st'" if "i \<in> {1..<5}" for i
    by (rule min_ok_mono [OF inv(4) [OF that]]) (use that live T in auto)
  then have "timers_inv O' (B(0 := ks)) S' M st'"
    using f(1) inv(2,3) live unfolding timers_inv_def vec_ok_def expires_ok_def T(2) by blast
  with st'(1) f(2,3) show ?thesis by blast
qed

section \<open>Choosing a bucket\<close>

lemma find_min_idx_spec:
  "find_min_idx vs diff m \<le> m"
  "find_min_idx vs diff m \<noteq> 0 \<Longrightarrow> vexpire (vs ! (find_min_idx vs diff m - 1)) < diff"
  by (induction m) (auto split: if_splits)

lemma bucket_reach:
  assumes "vec_ok st" "i < 5"
  shows "4 \<le> vexpire (vec st ! i)"
proof -
  have "(2::int) ^ 2 \<le> 2 ^ (i + 2)" by (rule power_increasing) simp_all
  then show ?thesis using assms by (simp add: vec_ok_def)
qed

lemma pick_bucket_spec:
  "vs \<noteq> [] \<Longrightarrow> pick_bucket vs diff < length vs"
  "pick_bucket vs diff \<noteq> 0 \<Longrightarrow> vexpire (hd vs) < diff"
  by (induction vs diff rule: pick_bucket.induct) (auto split: if_splits)

lemma pick_bucket_far:
  assumes "vec_ok st"
  shows "pick_bucket (vec st) diff < 5" "pick_bucket (vec st) diff \<noteq> 0 \<Longrightarrow> 4 < diff"
proof -
  have ne: "vec st \<noteq> []" "length (vec st) = 5" using assms by (auto simp: vec_ok_def)
  show "pick_bucket (vec st) diff < 5" using pick_bucket_spec(1) [OF ne(1)] ne(2) by simp
  show "4 < diff" if "pick_bucket (vec st) diff \<noteq> 0"
    using pick_bucket_spec(2) [OF that] bucket_reach [OF assms, of 0] ne(1) by (simp add: hd_conv_nth)
qed

text \<open>What \<open>set_min_exptm\<close> does to the minimum of its bucket and to the others.\<close>

lemma set_min_exptm_fields [simp]:
  "heap (set_min_exptm e i st) = heap st" "tmr (set_min_exptm e i st) = tmr st"
  "micro (set_min_exptm e i st) = micro st" "now (set_min_exptm e i st) = now st"
  "world (set_min_exptm e i st) = world st" "tcfs (set_min_exptm e i st) = tcfs st"
  "last_sec (set_min_exptm e i st) = last_sec st"
  by (simp_all add: set_min_exptm_def)

lemma set_min_exptm_only: "\<exists>v. set_min_exptm e i st = st\<lparr>vec := v\<rparr>"
  by (cases "e < min_at st i \<or> min_at st i = 0") (auto simp: set_min_exptm_def intro: exI [of _ "vec st"])

lemma vexpire_update_min:
  "vexpire (vs[i := (vs ! i)\<lparr>min_expiring_time := e\<rparr>] ! k) = vexpire (vs ! k)"
  by (cases "k = i"; cases "i < length vs") (simp_all add: list_update_beyond)

lemma set_min_exptm_vec_ok: "vec_ok st \<Longrightarrow> vec_ok (set_min_exptm e i st)"
  by (auto simp: vec_ok_def set_min_exptm_def vexpire_update_min)

lemma set_min_exptm_other: "k \<noteq> i \<Longrightarrow> vec (set_min_exptm e i st) ! k = vec st ! k"
  by (simp add: set_min_exptm_def)

lemma set_min_exptm_min:
  assumes "vec_ok st" "i < 5" "e \<noteq> 0"
  shows "min_at (set_min_exptm e i st) i \<noteq> 0" "min_at (set_min_exptm e i st) i \<le> e"
    "min_at st i \<noteq> 0 \<Longrightarrow> min_at (set_min_exptm e i st) i \<le> min_at st i"
  using assms by (auto simp: set_min_exptm_def vec_ok_def)

text \<open>A timer entering a bucket with its time noted keeps all minima right.\<close>

lemma min_ok_set_min:
  assumes "vec_ok st" "i < 5" "tmr st t = Some tm" "0 < expire tm" "k < 5"
    and "min_ok k ts st"
  shows "min_ok k (ts @ (if k = i then [t] else [])) (set_min_exptm (expire tm) i st)"
proof (cases "k = i")
  case True
  note m = set_min_exptm_min [OF assms(1,2), of "expire tm"]
  show ?thesis unfolding min_ok_def
  proof (intro ballI allI impI)
    fix u um assume u: "u \<in> set (ts @ (if k = i then [t] else []))"
      "tmr (set_min_exptm (expire tm) i st) u = Some um"
    show "min_at (set_min_exptm (expire tm) i st) k \<noteq> 0 \<and>
        min_at (set_min_exptm (expire tm) i st) k \<le> expire um"
    proof (cases "u = t")
      case True
      then show ?thesis using m assms(3,4) u(2) \<open>k = i\<close> by simp
    next
      case False
      then have "min_at st i \<noteq> 0 \<and> min_at st i \<le> expire um"
        using assms(6) u \<open>k = i\<close> by (auto simp: min_ok_def)
      then show ?thesis using m assms(4) \<open>k = i\<close> by auto
    qed
  qed
next
  case False
  then show ?thesis using assms(6) by (simp add: min_ok_def set_min_exptm_other)
qed

section \<open>Redistributing a bucket\<close>

text \<open>
  How the state between two turns of \<open>scan_timer_list idx\<close> relates to the state before:
  removed timers go, the others keep their fields, other buckets stay far if they were, and
  what has been walked over and stays is far, with the minimum collected so far below it.
\<close>

definition pruned :: "'w timers \<Rightarrow> 'w timers \<Rightarrow> bool" where
  "pruned st s \<longleftrightarrow> s = st\<lparr>heap := heap s, tmr := tmr s, vec := vec s\<rparr> \<and>
     (\<forall>t. tmr s t = tmr st t \<or> tmr s t = None \<and> (\<exists>tm. tmr st t = Some tm \<and> func tm = None))"

lemma pruned_refl [simp]: "pruned st st"
  by (simp add: pruned_def)

lemma prunedD:
  assumes "pruned st s"
  shows "now s = now st" "micro s = micro st" "world s = world st" "last_sec s = last_sec st" "tcfs s = tcfs st"
    "tmr s t = Some tm \<Longrightarrow> tmr st t = Some tm"
    "tmr st t = Some tm \<Longrightarrow> func tm \<noteq> None \<Longrightarrow> tmr s t = Some tm"
proof -
  have s: "s = st\<lparr>heap := heap s, tmr := tmr s, vec := vec s\<rparr>" using assms by (simp add: pruned_def)
  show "now s = now st" "micro s = micro st" "world s = world st" "last_sec s = last_sec st" "tcfs s = tcfs st"
    by (subst s, simp)+
  show "tmr s t = Some tm \<Longrightarrow> tmr st t = Some tm"
    "tmr st t = Some tm \<Longrightarrow> func tm \<noteq> None \<Longrightarrow> tmr s t = Some tm"
    using assms unfolding pruned_def by (metis option.distinct(1) option.inject)+
qed

lemma pruned_trans:
  assumes "pruned a b" "pruned b c"
  shows "pruned a c"
proof -
  have b: "b = a\<lparr>heap := heap b, tmr := tmr b, vec := vec b\<rparr>"
    and c: "c = b\<lparr>heap := heap c, tmr := tmr c, vec := vec c\<rparr>" using assms by (simp_all add: pruned_def)
  have "c = a\<lparr>heap := heap c, tmr := tmr c, vec := vec c\<rparr>" by (subst c, subst b) simp
  moreover have "tmr c t = tmr a t \<or> tmr c t = None \<and> (\<exists>tm. tmr a t = Some tm \<and> func tm = None)" for t
    using assms unfolding pruned_def by metis
  ultimately show ?thesis by (simp add: pruned_def)
qed

definition redistributing ::
  "nat \<Rightarrow> nat set \<Rightarrow> (nat \<Rightarrow> nat list) \<Rightarrow> nat list \<Rightarrow> 'w timers \<Rightarrow> node list \<Rightarrow> 'w timers \<times> int \<Rightarrow> bool" where
  "redistributing idx O' B M st xs = (\<lambda>(s, m). \<exists>done rest B' S'. xs = map Entry rest \<and> B' idx = done @ rest \<and>
     shape O' B' S' M s \<and> vec_ok s \<and> pruned st s \<and>
     (\<forall>k\<in>{1..<5}. k \<noteq> idx \<longrightarrow> min_ok k (B' k) s \<and> (far (B k) st \<longrightarrow> far (B' k) s)) \<and>
     (\<forall>t\<in>set done. \<forall>tm. tmr s t = Some tm \<longrightarrow>
        tv_sec (now st) + 2 \<le> expire tm \<and> m \<noteq> 0 \<and> m \<le> expire tm))"

lemma redistributing_walk:
  assumes "redistributing idx O' B M st xs s" "idx < 5"
  shows "chain ((heap \<circ> fst) s) (xs @ [Vec idx]) \<and> nxt ((heap \<circ> fst) s) (Vec idx) \<noteq> None"
  using assms unfolding redistributing_def using bucket_walk [of O' _ _ M "fst s" idx]
  by (fastforce split: prod.splits)

text \<open>One turn: the timer is freed, goes to a nearer bucket, or stays.\<close>

lemma redistributing_drop:
  assumes "redistributing idx O' B M st (Entry t # xs) (s, m)" "idx < 5" "tmr s t = Some tm" "func tm = None"
  shows "\<exists>s'. do_remove_timer t True s = Some s' \<and> redistributing idx O' B M st xs (s', m)"
proof -
  from assms(1) obtain don rest B' S' where r: "xs = map Entry rest" "B' idx = don @ t # rest"
    "shape O' B' S' M s" "vec_ok s" "pruned st s"
    "\<And>k. k \<in> {1..<5} \<Longrightarrow> k \<noteq> idx \<Longrightarrow> min_ok k (B' k) s \<and> (far (B k) st \<longrightarrow> far (B' k) s)"
    "\<And>u um. u \<in> set don \<Longrightarrow> tmr s u = Some um \<Longrightarrow> tv_sec (now st) + 2 \<le> expire um \<and> m \<noteq> 0 \<and> m \<le> expire um"
    unfolding redistributing_def by (auto simp: Cons_eq_map_conv)
  from do_remove_freed [OF r(3), of t] assms(3) obtain h where h:
    "do_remove_timer t True s = Some (s\<lparr>heap := h, tmr := (tmr s)(t := None)\<rparr>)"
    "shape O' (\<lambda>i. remove1 t (B' i)) (\<lambda>k. remove1 t (S' k)) M (s\<lparr>heap := h, tmr := (tmr s)(t := None)\<rparr>)"
    by auto
  define s' where "s' = s\<lparr>heap := h, tmr := (tmr s)(t := None)\<rparr>"
  have s': "vec s' = vec s" "now s' = now s" and sub: "\<And>u um. tmr s' u = Some um \<Longrightarrow> tmr s u = Some um"
    by (auto simp: s'_def split: if_splits)
  have "pruned s s'" using assms(3,4) by (simp add: pruned_def s'_def)
  then have p: "pruned st s'" by (rule pruned_trans [OF r(5)])
  have others: "min_ok k (remove1 t (B' k)) s' \<and> (far (B k) st \<longrightarrow> far (remove1 t (B' k)) s')"
    if "k \<in> {1..<5}" "k \<noteq> idx" for k
    using r(6) [OF that] min_ok_mono [of k "B' k" s "remove1 t (B' k)" s'] far_mono [of "B' k" s "remove1 t (B' k)" s']
      sub s' set_remove1_subset [of t "B' k"] by blast
  have "redistributing idx O' B M st xs (s', m)"
    unfolding redistributing_def prod.case
    by (rule exI [of _ don], rule exI [of _ rest], rule exI [of _ "\<lambda>i. remove1 t (B' i)"],
        rule exI [of _ "\<lambda>k. remove1 t (S' k)"])
      (use r(1,4,7) remove_current(1) [OF r(3) assms(2) r(2)] h(2) p others sub in
        \<open>simp add: s'_def [symmetric] vec_ok_def s'\<close>)
  then show ?thesis using h(1) by (simp add: s'_def)
qed

lemma redistributing_move:
  assumes "redistributing idx O' B M st (Entry t # xs) (s, m)" "idx < 5" "tmr s t = Some tm" "0 < expire tm"
    and "j < 5" "j \<noteq> idx" "j \<noteq> 0 \<Longrightarrow> tv_sec (now st) + 2 \<le> expire tm"
  shows "\<exists>s1 s2. on_heap (list_del (Entry t)) s = Some s1 \<and> on_heap (list_add_tail (Entry t) (Vec j)) s1 = Some s2 \<and>
    redistributing idx O' B M st xs (set_min_exptm (expire tm) j s2, m)"
proof -
  from assms(1) obtain don rest B' S' where r: "xs = map Entry rest" "B' idx = don @ t # rest"
    "shape O' B' S' M s" "vec_ok s" "pruned st s"
    "\<And>k. k \<in> {1..<5} \<Longrightarrow> k \<noteq> idx \<Longrightarrow> min_ok k (B' k) s \<and> (far (B k) st \<longrightarrow> far (B' k) s)"
    "\<And>u um. u \<in> set don \<Longrightarrow> tmr s u = Some um \<Longrightarrow> tv_sec (now st) + 2 \<le> expire um \<and> m \<noteq> 0 \<and> m \<le> expire um"
    unfolding redistributing_def by (auto simp: Cons_eq_map_conv)
  from move_entry [OF r(3) _ assms(5), of t list_del] assms(3) obtain h h' where h:
    "on_heap (list_del (Entry t)) s = Some (s\<lparr>heap := h\<rparr>)"
    "on_heap (list_add_tail (Entry t) (Vec j)) (s\<lparr>heap := h\<rparr>) = Some (s\<lparr>heap := h'\<rparr>)"
    "shape O' (\<lambda>i. remove1 t (B' i) @ (if i = j then [t] else [])) S' M (s\<lparr>heap := h'\<rparr>)" by auto
  let ?B = "\<lambda>i. remove1 t (B' i) @ (if i = j then [t] else [])"
  define s' where "s' = set_min_exptm (expire tm) j (s\<lparr>heap := h'\<rparr>)"
  obtain v where v: "s' = s\<lparr>heap := h', vec := v\<rparr>"
    using set_min_exptm_only [of "expire tm" j "s\<lparr>heap := h'\<rparr>"] unfolding s'_def by auto
  have "pruned s s'" by (simp add: pruned_def v)
  then have p: "pruned st s'" by (rule pruned_trans [OF r(5)])
  have sh: "shape O' ?B S' M s'" by (rule shape_fields [OF h(3)]) (simp_all add: v)
  have ok: "vec_ok (s\<lparr>heap := h'\<rparr>)" using r(4) by (simp add: vec_ok_def)
  have ok': "vec_ok s'" unfolding s'_def by (rule set_min_exptm_vec_ok [OF ok])
  have others: "min_ok k (?B k) s' \<and> (far (B k) st \<longrightarrow> far (?B k) s')" if k: "k \<in> {1..<5}" "k \<noteq> idx" for k
  proof
    have "min_ok k (remove1 t (B' k)) (s\<lparr>heap := h'\<rparr>)"
      using r(6) [OF k] set_remove1_subset [of t "B' k"] by (auto simp: min_ok_def)
    then show "min_ok k (?B k) s'"
      unfolding s'_def using k assms(3,4) by (intro min_ok_set_min [OF ok assms(5)]) simp_all
    show "far (B k) st \<longrightarrow> far (?B k) s'"
      using r(6) [OF k] assms(3,7) k prunedD(1) [OF r(5)]
      by (auto simp: far_def v dest!: in_set_remove1D split: if_splits)
  qed
  have "redistributing idx O' B M st xs (s', m)"
    unfolding redistributing_def prod.case
    by (rule exI [of _ don], rule exI [of _ rest], rule exI [of _ ?B], rule exI [of _ S'])
      (use r(1,7) remove_current(1) [OF r(3) assms(2) r(2)] sh p others assms(6) ok' in \<open>simp add: v\<close>)
  then show ?thesis using h(1,2) by (auto simp: s'_def)
qed

lemma redistributing_stay:
  assumes "redistributing idx O' B M st (Entry t # xs) (s, m)" "tmr s t = Some tm" "0 < expire tm"
    and "tv_sec (now st) + 2 \<le> expire tm" "m' = (if expire tm < m \<or> m = 0 then expire tm else m)"
  shows "redistributing idx O' B M st xs (s, m')"
proof -
  from assms(1) obtain don rest B' S' where r: "xs = map Entry rest" "B' idx = don @ t # rest"
    "shape O' B' S' M s" "vec_ok s" "pruned st s"
    "\<forall>k\<in>{1..<5}. k \<noteq> idx \<longrightarrow> min_ok k (B' k) s \<and> (far (B k) st \<longrightarrow> far (B' k) s)"
    "\<forall>u\<in>set don. \<forall>um. tmr s u = Some um \<longrightarrow> tv_sec (now st) + 2 \<le> expire um \<and> m \<noteq> 0 \<and> m \<le> expire um"
    unfolding redistributing_def by (auto simp: Cons_eq_map_conv)
  have "tv_sec (now st) + 2 \<le> expire um \<and> m' \<noteq> 0 \<and> m' \<le> expire um"
    if "u \<in> set (don @ [t])" "tmr s u = Some um" for u um
    using that r(7) assms(2-5) by (cases "u = t") (fastforce split: if_splits)+
  then show ?thesis
    unfolding redistributing_def prod.case
    by (rule_tac exI [of _ "don @ [t]"], rule_tac exI [of _ rest], rule_tac exI [of _ B'], rule_tac exI [of _ S'])
      (use r in simp)
qed


lemma redistributing_step:
  assumes "redistributing idx O' B M st (x # xs) sm" "idx \<in> {1..<5}" "expires_ok st"
  shows "\<exists>sm'. scan_list_step idx x sm = Some sm' \<and> redistributing idx O' B M st xs sm'"
proof -
  obtain s m where sm: "sm = (s, m)" by fastforce
  from assms(1) obtain t where x: "x = Entry t" unfolding redistributing_def sm by (auto simp: Cons_eq_map_conv)
  note R = assms(1) [unfolded sm x]
  obtain don rest B' S' where sh: "B' idx = don @ t # rest" "shape O' B' S' M s" "vec_ok s" "pruned st s"
    using R unfolding redistributing_def by (auto simp: Cons_eq_map_conv)
  obtain tm where tm: "tmr s t = Some tm" using shape_live [OF sh(2), of idx t] sh(1) assms(2) by auto
  have pos: "0 < expire tm" using prunedD(6) [OF sh(4) tm] assms(3) by (auto simp: expires_ok_def)
  have n: "now s = now st" by (rule prunedD(1) [OF sh(4)])
  let ?j = "find_min_idx (vec s) (expire tm - tv_sec (now s)) idx"
  have reach: "tv_sec (now st) + 2 \<le> expire tm" if "?j \<noteq> 0"
  proof -
    have "vexpire (vec s ! (?j - 1)) < expire tm - tv_sec (now s)" by (rule find_min_idx_spec(2) [OF that])
    moreover have "4 \<le> vexpire (vec s ! (?j - 1))"
      using find_min_idx_spec(1) [of "vec s" "expire tm - tv_sec (now s)" idx] assms(2)
      by (intro bucket_reach [OF sh(3)]) (simp, linarith)
    ultimately show ?thesis by (simp add: n)
  qed
  consider (gone) "func tm = None" | (moved) "func tm \<noteq> None" "?j \<noteq> idx" | (kept) "func tm \<noteq> None" "?j = idx"
    by blast
  then show ?thesis
  proof cases
    case gone
    from redistributing_drop [OF R _ tm gone] assms(2) show ?thesis
      by (auto simp: sm x scan_list_step_def tm gone)
  next
    case moved
    have j: "?j < 5" using find_min_idx_spec(1) [of "vec s" "expire tm - tv_sec (now s)" idx] assms(2) by simp
    from redistributing_move [OF R _ tm pos j moved(2) reach] assms(2) obtain s1 s2 where
      "on_heap (list_del (Entry t)) s = Some s1" "on_heap (list_add_tail (Entry t) (Vec ?j)) s1 = Some s2"
      "redistributing idx O' B M st xs (set_min_exptm (expire tm) ?j s2, m)" by auto
    then show ?thesis using moved by (simp add: sm x scan_list_step_def tm Let_def)
  next
    case kept
    have "idx \<noteq> 0" using assms(2) by simp
    then have "tv_sec (now st) + 2 \<le> expire tm" using reach kept(2) by simp
    from redistributing_stay [OF R tm pos this refl] show ?thesis
      using kept by (auto simp: sm x scan_list_step_def tm Let_def)
  qed
qed

text \<open>
  One call: the bucket is far afterwards, no bucket loses that, and nothing happens to a
  timer that is not removed except where it is.
\<close>

lemma scan_timer_list_spec:
  assumes "timers_inv O' B S M st" "idx \<in> {1..<5}"
  shows "\<exists>st' B' S'. scan_timer_list idx st = Some st' \<and> timers_inv O' B' S' M st' \<and> pruned st st' \<and>
    far (B' idx) st' \<and> (\<forall>k\<in>{1..<5}. far (B k) st \<longrightarrow> far (B' k) st')"
proof -
  note inv = timers_invD [OF assms(1)]
  have start: "redistributing idx O' B M st (map Entry (B idx)) (st, 0)"
    unfolding redistributing_def prod.case
    by (rule exI [of _ "[]"], rule exI [of _ "B idx"], rule exI [of _ B], rule exI [of _ S])
      (use inv(1,2,4) in simp)
  have "\<exists>sm. list_for_each_safe (heap \<circ> fst) (scan_list_step idx) (Vec idx) (st, 0) = Some sm \<and>
      redistributing idx O' B M st [] sm"
    by (rule list_for_each_safe_rule [where I = "redistributing idx O' B M st", OF start])
      (use redistributing_step [OF _ assms(2) inv(3)] redistributing_walk [of idx O' B M st] assms(2)
        shape_bucket [OF inv(1), of idx] in simp_all)
  then obtain s m where l: "list_for_each_safe (heap \<circ> fst) (scan_list_step idx) (Vec idx) (st, 0) = Some (s, m)"
    "redistributing idx O' B M st [] (s, m)" by auto
  from l(2) obtain B' S' where r: "shape O' B' S' M s" "vec_ok s" "pruned st s"
    "\<And>k. k \<in> {1..<5} \<Longrightarrow> k \<noteq> idx \<Longrightarrow> min_ok k (B' k) s \<and> (far (B k) st \<longrightarrow> far (B' k) s)"
    "\<And>t tm. t \<in> set (B' idx) \<Longrightarrow> tmr s t = Some tm \<Longrightarrow> tv_sec (now st) + 2 \<le> expire tm \<and> m \<noteq> 0 \<and> m \<le> expire tm"
    unfolding redistributing_def by auto
  define s' where "s' = s\<lparr>vec := (vec s)[idx := (vec s ! idx)\<lparr>min_expiring_time := m\<rparr>]\<rparr>"
  have s': "tmr s' = tmr s" "now s' = now s" by (simp_all add: s'_def)
  have n: "now s = now st" by (rule prunedD(1) [OF r(3)])
  have p: "pruned st s'" by (rule pruned_trans [OF r(3)]) (simp add: pruned_def s'_def)
  have mins: "min_ok k (B' k) s'" if "k \<in> {1..<5}" for k
    using r(2,4,5) that by (cases "k = idx") (auto simp: min_ok_def s'_def vec_ok_def)
  have exp: "expires_ok s'" using inv(3) prunedD(6) [OF p] by (auto simp: expires_ok_def)
  have "vec_ok s'" using r(2) by (simp add: vec_ok_def s'_def vexpire_update_min)
  moreover have "shape O' B' S' M s'" by (rule shape_fields [OF r(1)]) (simp_all add: s'_def)
  ultimately have "timers_inv O' B' S' M s'" using exp mins by (simp add: timers_inv_def)
  moreover have "far (B' idx) s'" using r(5) by (auto simp: far_def s' n)
  moreover have "far (B k) st \<longrightarrow> far (B' k) s'" if "k \<in> {1..<5}" for k
    using r(4) [OF that] calculation(2) by (cases "k = idx") (auto simp: far_def s')
  moreover have "scan_timer_list idx st = Some s'" using l(1) by (simp add: scan_timer_list_def s'_def)
  ultimately show ?thesis using p by blast
qed

text \<open>A bucket the test \<open>min_expiring_time - now < 2\<close> passes over is far already.\<close>

lemma min_far:
  assumes "min_ok k ts st" "\<not> min_at st k - tv_sec (now st) < 2"
  shows "far ts st"
  using assms by (fastforce simp: min_ok_def far_def)

lemma scan_buckets_spec:
  assumes "timers_inv O' B S M st" "set bs \<subseteq> {1..<5}"
  shows "\<exists>st' B' S'. scan_buckets bs st = Some st' \<and> timers_inv O' B' S' M st' \<and> pruned st st' \<and>
    (\<forall>k\<in>{1..<5}. far (B k) st \<or> k \<in> set bs \<longrightarrow> far (B' k) st')"
  using assms
proof (induction bs arbitrary: B S st)
  case (Cons i bs)
  have i: "i \<in> {1..<5}" using Cons.prems(2) by simp
  have "\<exists>s B1 S1. (if min_at st i - tv_sec (now st) < 2 then scan_timer_list i st else Some st) = Some s \<and>
      timers_inv O' B1 S1 M s \<and> pruned st s \<and> far (B1 i) s \<and> (\<forall>k\<in>{1..<5}. far (B k) st \<longrightarrow> far (B1 k) s)"
  proof (cases "min_at st i - tv_sec (now st) < 2")
    case True
    then show ?thesis using scan_timer_list_spec [OF Cons.prems(1) i] by simp
  next
    case False
    then show ?thesis unfolding if_not_P [OF False]
      using Cons.prems(1) min_far [OF timers_invD(4) [OF Cons.prems(1) i] False] pruned_refl by blast
  qed
  then obtain s B1 S1 where s: "(if min_at st i - tv_sec (now st) < 2 then scan_timer_list i st else Some st) = Some s"
    "timers_inv O' B1 S1 M s" "pruned st s" "far (B1 i) s" "\<forall>k\<in>{1..<5}. far (B k) st \<longrightarrow> far (B1 k) s" by blast
  from Cons.IH [OF s(2)] Cons.prems(2) obtain st' B' S' where st': "scan_buckets bs s = Some st'"
    "timers_inv O' B' S' M st'" "pruned s st'" "\<forall>k\<in>{1..<5}. far (B1 k) s \<or> k \<in> set bs \<longrightarrow> far (B' k) st'" by auto
  have "pruned st st'" by (rule pruned_trans [OF s(3) st'(3)])
  moreover have "far (B' k) st'" if "k \<in> {1..<5}" "far (B k) st \<or> k \<in> set (i # bs)" for k
    using s(4,5) st'(4) that by auto
  moreover have "scan_buckets (i # bs) st = Some st'" using s(1) st'(1) by simp
  ultimately show ?case using st'(2) by blast
qed (auto intro!: exI)

end
