(* ===== verification/TimerMicro.thy ===== *)
theory TimerMicro
  imports TimerScan
begin

text \<open>
  A whole scan of the second timers, and the microsecond timers: one flat ring, scanned in
  full on every call. What a scan does to them is given by \<open>mfire\<close>, as \<open>fire\<close> does for
  the first bucket of the second timers.
\<close>

section \<open>A scan of the second timers\<close>

lemma timers_inv_fields:
  assumes "timers_inv O' B S M st" "shape O' B S M' st'" "tmr st' = tmr st" "vec st' = vec st"
  shows "timers_inv O' B S M' st'"
  using assms by (simp add: timers_inv_def vec_ok_def expires_ok_def min_ok_def)

lemma scan_seconds_spec:
  assumes "timers_inv O' B S M st"
    and "fire act (tmr st) (tv_sec (now st)) (B 0) (world st) = (ks, w)"
  shows "\<exists>st' B' S'. scan_seconds_timer (quiet_call act) st = Some st' \<and> timers_inv O' B' S' M st' \<and>
    (\<forall>k\<in>{1..<5}. far (B' k) st') \<and> world st' = w \<and> now st' = now st \<and> micro st' = micro st \<and>
    last_sec st' = last_sec st \<and> tcfs st' = tcfs st \<and>
    (\<forall>t tm. tmr st' t = Some tm \<longrightarrow> tmr st t = Some tm) \<and>
    (\<forall>t tm. tmr st t = Some tm \<longrightarrow> func tm \<noteq> None \<longrightarrow> t \<notin> set (B 0) - set ks \<longrightarrow> tmr st' t = Some tm) \<and>
    (\<forall>t \<in> set (B 0) - set ks. tmr st' t = None)"
proof -
  from fire_loop [OF assms] obtain s S1 where s:
    "list_for_each_safe heap (fire_step (quiet_call act)) (Vec 0) st = Some s" "timers_inv O' (B(0 := ks)) S1 M s"
    "s = st\<lparr>heap := heap s, tmr := dropped (B 0) ks (tmr st), world := w\<rparr>" by blast
  have f: "world s = w" "now s = now st" "micro s = micro st" "last_sec s = last_sec st" "tcfs s = tcfs st"
    "tmr s = dropped (B 0) ks (tmr st)" by (subst s(3), simp)+
  from scan_buckets_spec [OF s(2), of "[1..<TIMER_VEC_SIZE]"] obtain st' B' S' where st':
    "scan_buckets [1..<TIMER_VEC_SIZE] s = Some st'" "timers_inv O' B' S' M st'" "pruned s st'"
    "\<forall>k\<in>{1..<5}. far (B' k) st'" by (auto simp: TIMER_VEC_SIZE_def)
  note p = prunedD [OF st'(3)]
  have gone: "\<forall>t \<in> set (B 0) - set ks. tmr st' t = None"
  proof
    fix t assume "t \<in> set (B 0) - set ks"
    then show "tmr st' t = None" using p(6) [of t] by (cases "tmr st' t") (auto simp: f(6) dropped_def)
  qed
  have kept: "\<forall>t tm. tmr st t = Some tm \<longrightarrow> func tm \<noteq> None \<longrightarrow> t \<notin> set (B 0) - set ks \<longrightarrow> tmr st' t = Some tm"
  proof (intro allI impI)
    fix t tm assume "tmr st t = Some tm" "func tm \<noteq> None" "t \<notin> set (B 0) - set ks"
    then show "tmr st' t = Some tm" by (intro p(7)) (simp_all add: f(6) dropped_def)
  qed
  have old: "\<forall>t tm. tmr st' t = Some tm \<longrightarrow> tmr st t = Some tm"
  proof (intro allI impI)
    fix t tm assume "tmr st' t = Some tm"
    from p(6) [OF this] show "tmr st t = Some tm" by (simp add: f(6) dropped_def split: if_splits)
  qed
  have run: "scan_seconds_timer (quiet_call act) st = Some st'" using s(1) st'(1) by (simp add: scan_seconds_timer_def)
  have same: "world st' = w" "now st' = now st" "micro st' = micro st" "last_sec st' = last_sec st" "tcfs st' = tcfs st"
    using p(1-5) f(1-5) by simp_all
  show ?thesis
    by (rule exI [of _ st'], rule exI [of _ B'], rule exI [of _ S'], intro conjI)
      (fact run st'(2,4) same gone kept old)+
qed

section \<open>Microsecond timers\<close>

fun mfire :: "(nat \<Rightarrow> nat \<Rightarrow> nat \<Rightarrow> 'w \<Rightarrow> int \<times> 'w) \<Rightarrow> (nat \<Rightarrow> micro_timer_struct option) \<Rightarrow> timeval \<Rightarrow>
    nat list \<Rightarrow> 'w \<Rightarrow> nat list \<times> 'w" where
  "mfire act T n [] w = ([], w)"
| "mfire act T n (t # ts) w =
     (case T t of
        None \<Rightarrow> mfire act T n ts w
      | Some tm \<Rightarrow>
          (case mfunc tm of
             None \<Rightarrow> mfire act T n ts w
           | Some f \<Rightarrow>
               if tv tm < n then
                 let (r, w) = act f (mowner tm) (mdata tm) w; (ks, w) = mfire act T n ts w
                 in (if r = 0 then ks else t # ks, w)
               else let (ks, w) = mfire act T n ts w in (t # ks, w)))"

lemma remove_micro_freed:
  assumes "shape O' B S M st" "t \<in> set M"
  shows "\<exists>h. remove_micro_timer t True st = Some (st\<lparr>heap := h, micro := (micro st)(t := None)\<rparr>) \<and>
    shape O' B S (remove1 t M) (st\<lparr>heap := h, micro := (micro st)(t := None)\<rparr>)"
proof -
  obtain tm where tm: "micro st t = Some tm" using shape_live_micro [OF assms] by blast
  from ring_unlink_init [OF shape_rings [OF assms(1)], of Micro "MicroEntry t"] assms(2) obtain h where h:
    "list_del_init (MicroEntry t) (heap st) = Some h"
    "del_ring.rings h (ring_heads O') (ring_of B S (remove1 t M))"
    "\<forall>y. y \<notin> used (ring_heads O') (ring_of B S M) \<longrightarrow> nxt h y = nxt (heap st) y"
    by (auto simp: ring_of_remove)
  have "shape O' B S (remove1 t M) (st\<lparr>heap := h, micro := (micro st)(t := None)\<rparr>)"
  proof (rule shapeI)
    show "micro (st\<lparr>heap := h, micro := (micro st)(t := None)\<rparr>) u \<noteq> None \<longleftrightarrow> u \<in> set (remove1 t M)" for u
      using shapeD(3) [OF assms(1), of u] shape_distinct(3) [OF assms(1)] by (auto simp del: not_None_eq)
    show "\<exists>k\<in>O'. u \<in> set (S k)"
      if "tmr (st\<lparr>heap := h, micro := (micro st)(t := None)\<rparr>) u \<noteq> None"
        "nxt (heap (st\<lparr>heap := h, micro := (micro st)(t := None)\<rparr>)) (Sprite u) \<noteq> None" for u
      using that h(3) shapeD(5) [OF assms(1), of u] by simp (metis used_nodes(2))
  qed (use h(2) shapeD(2,4) [OF assms(1)] in \<open>simp_all del: not_None_eq\<close>)
  then show ?thesis using h(1) by (auto simp: remove_micro_timer_def tm on_heap_def)
qed

definition mfiring ::
  "(nat \<Rightarrow> nat \<Rightarrow> nat \<Rightarrow> 'w \<Rightarrow> int \<times> 'w) \<Rightarrow> nat set \<Rightarrow> (nat \<Rightarrow> nat list) \<Rightarrow> (nat \<Rightarrow> nat list) \<Rightarrow> nat list \<Rightarrow>
   'w timers \<Rightarrow> node list \<Rightarrow> 'w timers \<Rightarrow> bool" where
  "mfiring act O' B S M st xs s \<longleftrightarrow> (\<exists>done rest. xs = map MicroEntry rest \<and> shape O' B S (done @ rest) s \<and>
     s = st\<lparr>heap := heap s, micro := dropped M (done @ rest) (micro st), world := world s\<rparr> \<and>
     set (done @ rest) \<subseteq> set M \<and>
     mfire act (micro st) (now st) M (world st) =
       (case mfire act (micro st) (now st) rest (world s) of (ks, w) \<Rightarrow> (done @ ks, w)))"

lemma mfiring_walk:
  assumes "mfiring act O' B S M st xs s"
  shows "chain (heap s) (xs @ [Micro]) \<and> nxt (heap s) Micro \<noteq> None"
proof -
  from assms obtain don rest where s: "xs = map MicroEntry rest" "shape O' B S (don @ rest) s"
    unfolding mfiring_def by blast
  show ?thesis
    using dlist_chain [of "heap s" Micro "map MicroEntry don" "map MicroEntry rest"] shape_micro [OF s(2)]
      dlist_ends(1) [OF shape_micro [OF s(2)]] s(1) by (auto split: list.splits)
qed

lemma mfiring_step:
  assumes "mfiring act O' B S M st (x # xs) s"
  shows "\<exists>s'. micro_step (quiet_call act) x s = Some s' \<and> mfiring act O' B S M st xs s'"
proof -
  from assms obtain don t rest where f: "x = MicroEntry t" "xs = map MicroEntry rest"
    "shape O' B S (don @ t # rest) s"
    "s = st\<lparr>heap := heap s, micro := dropped M (don @ t # rest) (micro st), world := world s\<rparr>"
    "set (don @ t # rest) \<subseteq> set M"
    "mfire act (micro st) (now st) M (world st) =
       (case mfire act (micro st) (now st) (t # rest) (world s) of (ks, w) \<Rightarrow> (don @ ks, w))"
    unfolding mfiring_def by (auto simp: Cons_eq_map_conv)
  obtain tm where tm: "micro s t = Some tm" using shape_live_micro [OF f(3), of t] by auto
  have T: "micro s = dropped M (don @ t # rest) (micro st)" "now s = now st" by (subst f(4), simp)+
  then have tm': "micro st t = Some tm" using tm by (simp add: dropped_def)
  have d: "distinct (don @ t # rest)" using shape_distinct(3) [OF f(3)] .
  have drop: "(\<lambda>u. if u = t then None else dropped M (don @ t # rest) (micro st) u) =
      dropped M (don @ rest) (micro st)"
    using d f(5) by (auto simp: dropped_def)
  define freed where "freed w = (\<exists>s'. remove_micro_timer t True (s\<lparr>world := w\<rparr>) = Some s' \<and>
      shape O' B S (don @ rest) s' \<and>
      s' = st\<lparr>heap := heap s', micro := dropped M (don @ rest) (micro st), world := w\<rparr>)" for w
  have freed: "freed w" for w
  proof -
    have sh: "shape O' B S (don @ t # rest) (s\<lparr>world := w\<rparr>)" by (rule shape_fields [OF f(3)]) simp_all
    from remove_micro_freed [OF sh, of t] obtain h where h:
      "remove_micro_timer t True (s\<lparr>world := w\<rparr>) = Some (s\<lparr>world := w, heap := h, micro := (micro s)(t := None)\<rparr>)"
      "shape O' B S (remove1 t (don @ t # rest)) (s\<lparr>world := w, heap := h, micro := (micro s)(t := None)\<rparr>)" by auto
    have "remove1 t (don @ t # rest) = don @ rest" using d by (simp add: remove1_append)
    moreover have "s\<lparr>world := w, heap := h, micro := (micro s)(t := None)\<rparr> =
        st\<lparr>heap := h, micro := dropped M (don @ rest) (micro st), world := w\<rparr>"
      by (subst f(4)) (simp add: T fun_upd_def drop)
    ultimately show ?thesis unfolding freed_def using h by auto
  qed
  have nexts: "mfiring act O' B S M st xs s'" if "freed w" "mfire act (micro st) (now st) M (world st) =
      (case mfire act (micro st) (now st) rest w of (ks, w) \<Rightarrow> (don @ ks, w))"
    "remove_micro_timer t True (s\<lparr>world := w\<rparr>) = Some s'" for w s'
  proof -
    from that(1,3) have s': "shape O' B S (don @ rest) s'"
      "s' = st\<lparr>heap := heap s', micro := dropped M (don @ rest) (micro st), world := w\<rparr>"
      by (auto simp: freed_def)
    have "world s' = w" by (subst s'(2)) simp
    then show ?thesis unfolding mfiring_def using s' f(2,5) that(2) by auto
  qed
  have stay: "mfiring act O' B S M st xs (s\<lparr>world := w\<rparr>)" if "mfire act (micro st) (now st) M (world st) =
      (case mfire act (micro st) (now st) rest w of (ks, w) \<Rightarrow> (don @ t # ks, w))" for w
  proof -
    have "shape O' B S (don @ t # rest) (s\<lparr>world := w\<rparr>)" by (rule shape_fields [OF f(3)]) simp_all
    then have "shape O' B S ((don @ [t]) @ rest) (s\<lparr>world := w\<rparr>)" by simp
    moreover have "s\<lparr>world := w\<rparr> = st\<lparr>heap := heap s, micro := dropped M ((don @ [t]) @ rest) (micro st), world := w\<rparr>"
      by (subst f(4)) simp
    ultimately show ?thesis unfolding mfiring_def using f(2,5) that
      by (intro exI [of _ "don @ [t]"] exI [of _ rest]) auto
  qed
  have ws: "s\<lparr>world := world s\<rparr> = s" by simp
  have step: "micro_step (quiet_call act) x s = (case mfunc tm of
       None \<Rightarrow> remove_micro_timer t True s
     | Some c \<Rightarrow> if tv tm < now st then
         (if fst (act c (mowner tm) (mdata tm) (world s)) = 0
          then remove_micro_timer t True (s\<lparr>world := snd (act c (mowner tm) (mdata tm) (world s))\<rparr>)
          else Some (s\<lparr>world := snd (act c (mowner tm) (mdata tm) (world s))\<rparr>))
         else Some s)"
  proof -
    have "(tv_sec (now s) > tv_sec (tv tm) \<or> tv_sec (now s) = tv_sec (tv tm) \<and> tv_usec (now s) > tv_usec (tv tm)) =
        (tv tm < now st)" by (auto simp: T(2) less_timeval_def)
    then show ?thesis
      by (simp add: micro_step_def f(1) tm quiet_call_def split: option.split)
  qed
  show ?thesis
  proof (cases "mfunc tm")
    case None
    obtain s' where "remove_micro_timer t True (s\<lparr>world := world s\<rparr>) = Some s'"
      using freed [of "world s"] unfolding freed_def by blast
    with nexts [OF freed _ this] f(6) show ?thesis by (simp add: step None tm' ws)
  next
    case (Some c)
    let ?r = "fst (act c (mowner tm) (mdata tm) (world s))" and ?w = "snd (act c (mowner tm) (mdata tm) (world s))"
    consider (late) "tv tm < now st" "?r = 0" | (kept) "tv tm < now st" "?r \<noteq> 0" | (early) "\<not> tv tm < now st" by blast
    then show ?thesis
    proof cases
      case late
      obtain s' where "remove_micro_timer t True (s\<lparr>world := ?w\<rparr>) = Some s'"
        using freed [of ?w] unfolding freed_def by blast
      with nexts [OF freed _ this] f(6) late show ?thesis
        by (simp add: step Some tm' split: prod.splits)
    next
      case kept
      with stay [of ?w] f(6) show ?thesis by (simp add: step Some tm' split: prod.splits)
    next
      case early
      with stay [of "world s"] f(6) show ?thesis by (simp add: step Some tm' split: prod.splits)
    qed
  qed
qed

lemma scan_micro_spec:
  assumes "timers_inv O' B S M st" "mfire act (micro st) (now st) M (world st) = (ks, w)"
  shows "\<exists>st'. scan_microseconds_timer (quiet_call act) st = Some st' \<and> timers_inv O' B S ks st' \<and>
    st' = st\<lparr>heap := heap st', micro := dropped M ks (micro st), world := w\<rparr>"
proof -
  have sh: "shape O' B S M st" by (rule timers_invD(1) [OF assms(1)])
  have start: "mfiring act O' B S M st (map MicroEntry M) st"
    unfolding mfiring_def by (rule exI [of _ "[]"], rule exI [of _ M]) (use sh in simp)
  have "\<exists>st'. list_for_each_safe heap (micro_step (quiet_call act)) Micro st = Some st' \<and> mfiring act O' B S M st [] st'"
    by (rule list_for_each_safe_rule [where I = "mfiring act O' B S M st", OF start])
      (fact mfiring_step, fact mfiring_walk, rule shape_micro [OF sh])
  then obtain st' where st': "list_for_each_safe heap (micro_step (quiet_call act)) Micro st = Some st'"
    "mfiring act O' B S M st [] st'" by blast
  then have f: "shape O' B S ks st'" "st' = st\<lparr>heap := heap st', micro := dropped M ks (micro st), world := w\<rparr>"
    using assms(2) unfolding mfiring_def by auto
  have "timers_inv O' B S ks st'" by (rule timers_inv_fields [OF assms(1) f(1)]) (subst f(2), simp)+
  then show ?thesis using st'(1) f(2) unfolding scan_microseconds_timer_def by blast
qed

end
