(* ===== verification/TimerOps.thy ===== *)
theory TimerOps
  imports TimerMicro
begin

text \<open>
  The operations a program calls between two scans: adding, rescheduling and removing
  timers. Each lemma gives the result, the invariant after it, and which bucket a timer
  enters; a bucket other than the first is entered only by a timer more than 4 seconds away.
\<close>

section \<open>A timer enters a bucket\<close>

lemma signed_31_far:
  fixes d :: int
  assumes "- (2 ^ 31) \<le> d" "4 < signed_take_bit 31 d"
  shows "4 < d"
proof (cases "d < 2 ^ 31")
  case True
  then have "signed_take_bit 31 d = d" using assms(1) by (intro signed_take_bit_int_eq_self) simp_all
  then show ?thesis using assms(2) by simp
qed simp

lemma enter_bucket:
  assumes "shape O' B' S' M s" "vec_ok s" "expires_ok s" "tmr s t = Some tm" "j < 5"
    and "B' = (\<lambda>i. B0 i @ (if i = j then [t] else []))" "\<And>i. i \<in> {1..<5} \<Longrightarrow> min_ok i (B0 i) s"
  shows "timers_inv O' B' S' M (set_min_exptm (expire tm) j s)"
proof -
  have "0 < expire tm" using assms(3,4) by (auto simp: expires_ok_def)
  then have "min_ok i (B' i) (set_min_exptm (expire tm) j s)" if "i \<in> {1..<5}" for i
    unfolding assms(6) using that by (intro min_ok_set_min [OF assms(2,5,4) _ _ assms(7)]) auto
  moreover have "shape O' B' S' M (set_min_exptm (expire tm) j s)" by (rule shape_fields [OF assms(1)]) simp_all
  ultimately show ?thesis
    using assms(2,3) set_min_exptm_vec_ok by (auto simp: timers_inv_def expires_ok_def)
qed

definition plain_timer :: "int \<Rightarrow> nat \<Rightarrow> nat \<Rightarrow> nat option \<Rightarrow> timer_struct" where
  "plain_timer e own dat fn = \<lparr>expire = e, owner = own, data = dat, func = fn, func_indx = 0\<rparr>"

lemma new_event_spec:
  assumes "timers_inv O' B S M st" "tmr st t = None" "k \<in> O'" "0 < e" "- (2 ^ 31) \<le> e - tv_sec (now st)"
  shows "\<exists>st' j. new_event t (Owner k) fn own dat e st = Some (t, st') \<and>
    timers_inv O' (\<lambda>i. B i @ (if i = j then [t] else [])) (S(k := S k @ [t])) M st' \<and>
    j < 5 \<and> (j \<noteq> 0 \<longrightarrow> 4 < e - tv_sec (now st)) \<and>
    st' = st\<lparr>heap := heap st', vec := vec st', tmr := (tmr st)(t := Some (plain_timer e own dat fn))\<rparr>"
proof -
  note inv = timers_invD [OF assms(1)]
  let ?tm = "plain_timer e own dat fn"
  let ?diff = "signed_take_bit 31 (e - tv_sec (now st))"
  let ?j = "pick_bucket (vec st) ?diff"
  note pick = pick_bucket_far [OF inv(2), of ?diff]
  from link_new_entry [OF inv(1) assms(2,3) pick(1), of ?tm] obtain h h' where h:
    "on_heap (list_add_tail (Sprite t) (Owner k))
      (set_timer t ?tm (st\<lparr>heap := INIT_LIST_HEAD (Entry t) (INIT_LIST_HEAD (Sprite t) (heap st))\<rparr>)) =
        Some (set_timer t ?tm (st\<lparr>heap := h\<rparr>))"
    "on_heap (list_add_tail (Entry t) (Vec ?j)) (set_timer t ?tm (st\<lparr>heap := h\<rparr>)) =
      Some (set_timer t ?tm (st\<lparr>heap := h'\<rparr>))"
    "shape O' (B(?j := B ?j @ [t])) (S(k := S k @ [t])) M (set_timer t ?tm (st\<lparr>heap := h'\<rparr>))" by blast
  let ?s = "set_timer t ?tm (st\<lparr>heap := h'\<rparr>)"
  have run: "new_event t (Owner k) fn own dat e st = Some (t, set_min_exptm e ?j ?s)"
    using h(1,2) by (simp add: new_event_def add_timer_def plain_timer_def set_timer_def Let_def)
  have B: "B(?j := B ?j @ [t]) = (\<lambda>i. B i @ (if i = ?j then [t] else []))" by auto
  have "timers_inv O' (\<lambda>i. B i @ (if i = ?j then [t] else [])) (S(k := S k @ [t])) M (set_min_exptm (expire ?tm) ?j ?s)"
  proof (rule enter_bucket)
    show "expires_ok ?s" using inv(3) assms(4) by (simp add: expires_ok_def set_timer_def plain_timer_def)
    show "min_ok i (B i) ?s" if "i \<in> {1..<5}" for i
    proof -
      have "t \<notin> set (B i)" using shape_live [OF inv(1), of i t] assms(2) that by auto
      then show ?thesis using inv(4) [OF that] by (auto simp: min_ok_def set_timer_def)
    qed
  qed (use h(3) inv(2) pick(1) in \<open>simp_all add: B set_timer_def vec_ok_def\<close>)
  moreover have "?j \<noteq> 0 \<longrightarrow> 4 < e - tv_sec (now st)" using pick(2) signed_31_far [OF assms(5)] by blast
  moreover obtain v where "set_min_exptm e ?j ?s = ?s\<lparr>vec := v\<rparr>" using set_min_exptm_only by blast
  ultimately show ?thesis
    using run pick(1) by (intro exI [of _ "set_min_exptm e ?j ?s"] exI [of _ ?j])
      (simp add: plain_timer_def set_timer_def)
qed

lemma mod_expire_spec:
  assumes "timers_inv O' B S M st" "tmr st t = Some tm" "0 < e"
  shows "\<exists>st' j. mod_expire_time t e st = Some st' \<and>
    timers_inv O' (\<lambda>i. remove1 t (B i) @ (if i = j then [t] else [])) S M st' \<and>
    j < 5 \<and> (j \<noteq> 0 \<longrightarrow> 4 < e - tv_sec (now st)) \<and>
    st' = st\<lparr>heap := heap st', vec := vec st', tmr := (tmr st)(t := Some (tm\<lparr>expire := e\<rparr>))\<rparr>"
proof -
  note inv = timers_invD [OF assms(1)]
  have pos: "expire tm \<noteq> 0" using inv(3) assms(2) unfolding expires_ok_def by (metis less_irrefl)
  let ?st = "set_timer t (tm\<lparr>expire := e\<rparr>) st"
  let ?j = "pick_bucket (vec st) (e - tv_sec (now st))"
  note pick = pick_bucket_far [OF inv(2), of "e - tv_sec (now st)"]
  have sh: "shape O' B S M ?st" by (rule shape_fields [OF inv(1)]) (use assms(2) in \<open>simp_all add: set_timer_def\<close>)
  from move_entry [OF sh _ pick(1), of t list_del_init] obtain h h' where h:
    "on_heap (list_del_init (Entry t)) ?st = Some (?st\<lparr>heap := h\<rparr>)"
    "on_heap (list_add_tail (Entry t) (Vec ?j)) (?st\<lparr>heap := h\<rparr>) = Some (?st\<lparr>heap := h'\<rparr>)"
    "shape O' (\<lambda>i. remove1 t (B i) @ (if i = ?j then [t] else [])) S M (?st\<lparr>heap := h'\<rparr>)"
    by (auto simp: set_timer_def)
  let ?s = "?st\<lparr>heap := h'\<rparr>"
  have run: "mod_expire_time t e st = Some (set_min_exptm e ?j ?s)"
    using h(1,2) pos assms(2) by (simp add: mod_expire_time_def set_timer_def Let_def)
  have "timers_inv O' (\<lambda>i. remove1 t (B i) @ (if i = ?j then [t] else [])) S M
      (set_min_exptm (expire (tm\<lparr>expire := e\<rparr>)) ?j ?s)"
  proof (rule enter_bucket [OF h(3)])
    show "expires_ok ?s" using inv(3) assms(3) by (simp add: expires_ok_def set_timer_def)
    show "min_ok i (remove1 t (B i)) ?s" if "i \<in> {1..<5}" for i
    proof -
      have "t \<notin> set (remove1 t (B i))" using shape_distinct(1) [OF inv(1), of i] that by simp
      then show ?thesis
        using inv(4) [OF that] set_remove1_subset [of t "B i"] by (auto simp: min_ok_def set_timer_def)
    qed
  qed (use inv(2) pick(1) in \<open>simp_all add: set_timer_def vec_ok_def\<close>)
  moreover obtain v where "set_min_exptm e ?j ?s = ?s\<lparr>vec := v\<rparr>" using set_min_exptm_only by blast
  ultimately show ?thesis
    using run pick by (intro exI [of _ "set_min_exptm e ?j ?s"] exI [of _ ?j]) (simp add: set_timer_def)
qed

section \<open>Finding and removing\<close>

text \<open>The search runs over the owner's timers in their order and stops at the first hit.\<close>

lemma find_sprite_chain:
  assumes "chain (heap st) (map Sprite ts @ [Owner k])" "\<forall>t\<in>set ts. tmr st t \<noteq> None"
  shows "find_sprite P st (Owner k) (hd (map Sprite ts @ [Owner k])) = Some (find (\<lambda>t. P (the (tmr st t))) ts)"
  using assms
proof (induction ts)
  case (Cons t ts)
  obtain tm where tm: "tmr st t = Some tm" using Cons.prems(2) by auto
  have n: "nxt (heap st) (Sprite t) = Some (hd (map Sprite ts @ [Owner k]))"
    using Cons.prems(1) by (cases ts) auto
  have "chain (heap st) (map Sprite ts @ [Owner k])" using Cons.prems(1) by (cases ts) auto
  with Cons.IH Cons.prems(2) show ?case by (simp add: find_sprite.simps [of P st _ "Sprite t"] tm n)
qed (simp add: find_sprite.simps)

lemma find_event_spec:
  assumes "shape O' B S M st" "k \<in> O'"
  shows "find_event (Owner k) fn st = Some (find (\<lambda>t. func (the (tmr st t)) = fn) (S k))"
    "find_event_with_expire (Owner k) fn e st =
      Some (find (\<lambda>t. func (the (tmr st t)) = fn \<and> expire (the (tmr st t)) = e) (S k))"
proof -
  note d = shape_owner [OF assms]
  have n: "nxt (heap st) (Owner k) = Some (hd (map Sprite (S k) @ [Owner k]))"
    using dlist_ends(1) [OF d] by (cases "S k") auto
  have c: "chain (heap st) (map Sprite (S k) @ [Owner k])" using dlist_chain [of _ _ "[]"] d by simp
  have l: "\<forall>t\<in>set (S k). tmr st t \<noteq> None" using shapeD(4) [OF assms] by blast
  show "find_event (Owner k) fn st = Some (find (\<lambda>t. func (the (tmr st t)) = fn) (S k))"
    "find_event_with_expire (Owner k) fn e st =
      Some (find (\<lambda>t. func (the (tmr st t)) = fn \<and> expire (the (tmr st t)) = e) (S k))"
    unfolding find_event_def find_event_with_expire_def n by (simp_all add: find_sprite_chain [OF c l])
qed

text \<open>Marking a timer as removed changes neither its bucket nor its time.\<close>

definition unset :: "timer_struct \<Rightarrow> timer_struct" where
  "unset tm = tm\<lparr>func := None, func_indx := 0\<rparr>"

lemma remove_kept_inv:
  assumes "timers_inv O' B S M st" "tmr st t = Some tm"
  shows "\<exists>h. do_remove_timer t False st = Some (st\<lparr>heap := h, tmr := (tmr st)(t := Some (unset tm))\<rparr>) \<and>
    timers_inv O' B (\<lambda>k. remove1 t (S k)) M (st\<lparr>heap := h, tmr := (tmr st)(t := Some (unset tm))\<rparr>)"
proof -
  note inv = timers_invD [OF assms(1)]
  from do_remove_kept [OF inv(1) assms(2)] obtain h where h:
    "do_remove_timer t False st = Some (st\<lparr>heap := h, tmr := (tmr st)(t := Some (unset tm))\<rparr>)"
    "shape O' B (\<lambda>k. remove1 t (S k)) M (st\<lparr>heap := h, tmr := (tmr st)(t := Some (unset tm))\<rparr>)"
    by (auto simp: unset_def)
  let ?s = "st\<lparr>heap := h, tmr := (tmr st)(t := Some (unset tm))\<rparr>"
  have "min_ok i (B i) ?s" if "i \<in> {1..<5}" for i
    by (rule min_ok_mono [OF inv(4) [OF that]]) (use assms(2) in \<open>auto simp: unset_def split: if_splits\<close>)
  moreover have "vec_ok ?s" "expires_ok ?s"
    using inv(2,3) assms(2) by (auto simp: vec_ok_def expires_ok_def unset_def)
  ultimately show ?thesis using h by (auto simp: timers_inv_def)
qed

definition all_unset :: "nat list \<Rightarrow> (nat \<Rightarrow> timer_struct option) \<Rightarrow> nat \<Rightarrow> timer_struct option" where
  "all_unset ts T t = (if t \<in> set ts then map_option unset (T t) else T t)"

definition unsetting :: "nat \<Rightarrow> nat set \<Rightarrow> (nat \<Rightarrow> nat list) \<Rightarrow> (nat \<Rightarrow> nat list) \<Rightarrow> nat list \<Rightarrow> 'w timers \<Rightarrow>
    node list \<Rightarrow> 'w timers \<Rightarrow> bool" where
  "unsetting k O' B S M st xs s \<longleftrightarrow> (\<exists>done rest. xs = map Sprite rest \<and> S k = done @ rest \<and>
     timers_inv O' B (S(k := rest)) M s \<and> s = st\<lparr>heap := heap s, tmr := all_unset done (tmr st)\<rparr>)"

lemma shape_one_owner:
  assumes "shape O' B S M st" "k \<in> O'" "k' \<in> O'" "t \<in> set (S k)" "t \<in> set (S k')"
  shows "k = k'"
proof (rule ccontr)
  assume "k \<noteq> k'"
  then show False
    using apartD [of "ring_heads O'" "ring_of B S M" "Owner k" "Owner k'"] shape_rings [OF assms(1)] assms(2-5)
    by (auto simp: del_ring.rings_def)
qed

lemma timers_inv_cong:
  assumes "timers_inv O' B S M st" "\<And>k. k \<in> O' \<Longrightarrow> S' k = S k"
  shows "timers_inv O' B S' M st"
  using assms(1) shape_cong [OF timers_invD(1) [OF assms(1)], of B S'] assms(2) by (simp add: timers_inv_def)

lemma remove_timers_spec:
  assumes "timers_inv O' B S M st" "k \<in> O'"
  shows "\<exists>st'. remove_timers (Owner k) st = Some st' \<and> timers_inv O' B (S(k := [])) M st' \<and>
    st' = st\<lparr>heap := heap st', tmr := all_unset (S k) (tmr st)\<rparr>"
proof -
  let ?I = "unsetting k O' B S M st"
  let ?body = "\<lambda>l st. do { t \<leftarrow> sprite_of l; do_remove_timer t False st }"
  have "?I (map Sprite (S k)) st"
    unfolding unsetting_def by (rule exI [of _ "[]"], rule exI [of _ "S k"])
      (use assms(1) in \<open>simp add: all_unset_def [abs_def]\<close>)
  moreover have "\<exists>s'. ?body x s = Some s' \<and> ?I xs s'" if "?I (x # xs) s" for x xs s
  proof -
    from that obtain don t rest where u: "x = Sprite t" "xs = map Sprite rest" "S k = don @ t # rest"
      "timers_inv O' B (S(k := t # rest)) M s" "s = st\<lparr>heap := heap s, tmr := all_unset don (tmr st)\<rparr>"
      unfolding unsetting_def by (auto simp: Cons_eq_map_conv)
    note sh = timers_invD(1) [OF u(4)]
    obtain tm where tm: "tmr s t = Some tm" using shapeD(4) [OF sh assms(2), of t] by auto
    have T: "tmr s = all_unset don (tmr st)" by (subst u(5)) simp
    from remove_kept_inv [OF u(4) tm] obtain h where h:
      "do_remove_timer t False s = Some (s\<lparr>heap := h, tmr := (tmr s)(t := Some (unset tm))\<rparr>)"
      "timers_inv O' B (\<lambda>q. remove1 t ((S(k := t # rest)) q)) M (s\<lparr>heap := h, tmr := (tmr s)(t := Some (unset tm))\<rparr>)"
      by blast
    have "timers_inv O' B (S(k := rest)) M (s\<lparr>heap := h, tmr := (tmr s)(t := Some (unset tm))\<rparr>)"
    proof (rule timers_inv_cong [OF h(2)])
      fix q assume q: "q \<in> O'"
      have "remove1 t (S q) = S q" if "q \<noteq> k"
        by (rule remove1_idem) (use shape_one_owner [OF sh assms(2) q, of t] that in auto)
      then show "(S(k := rest)) q = remove1 t ((S(k := t # rest)) q)" by simp
    qed
    moreover have d: "t \<notin> set don" using shape_distinct(2) [OF timers_invD(1) [OF assms(1)] assms(2)] u(3) by simp
    then have "(tmr s)(t := Some (unset tm)) = all_unset (don @ [t]) (tmr st)"
      using tm by (auto simp: T all_unset_def fun_eq_iff)
    then have "s\<lparr>heap := h, tmr := (tmr s)(t := Some (unset tm))\<rparr> =
        st\<lparr>heap := h, tmr := all_unset (don @ [t]) (tmr st)\<rparr>" by (subst u(5)) simp
    ultimately show ?thesis
      using h(1) u(1-3) unfolding unsetting_def
      by (auto intro!: exI [of _ "don @ [t]"] exI [of _ rest])
  qed
  moreover have "chain (heap s) (xs @ [Owner k]) \<and> nxt (heap s) (Owner k) \<noteq> None" if "?I xs s" for xs s
  proof -
    from that obtain rest where r: "xs = map Sprite rest" "timers_inv O' B (S(k := rest)) M s"
      unfolding unsetting_def by blast
    note d = shape_owner [OF timers_invD(1) [OF r(2)] assms(2)]
    have "chain (heap s) (map Sprite rest @ [Owner k])"
      using dlist_chain [of "heap s" "Owner k" "[]" "map Sprite rest"] d by simp
    then show ?thesis using dlist_ends(1) [OF d] r(1) by simp
  qed
  ultimately have "\<exists>st'. list_for_each_safe heap ?body (Owner k) st = Some st' \<and> ?I [] st'"
    by (intro list_for_each_safe_rule) (use shape_owner [OF timers_invD(1) [OF assms(1)] assms(2)] in blast)+
  then show ?thesis unfolding remove_timers_def unsetting_def by auto
qed

end
