(* ===== verification/TimerRun.thy ===== *)
theory TimerRun
  imports TimerOps
begin

text \<open>
  Programs over the timers: which states can be reached by the operations and by clock
  ticks of at most a second, and what a tick does in such a state.
\<close>

section \<open>No timer far away is due\<close>

definition settled :: "(nat \<Rightarrow> nat list) \<Rightarrow> 'w timers \<Rightarrow> bool" where
  "settled B st \<longleftrightarrow> (\<forall>k\<in>{1..<5}. far (B k) st)"

lemma settled_keep:
  assumes "settled B st" "now st' = now st"
    and "\<And>t tm. tmr st' t = Some tm \<Longrightarrow> \<exists>tm'. tmr st t = Some tm' \<and> expire tm' = expire tm"
  shows "settled B st'"
  using assms far_mono [of _ st _ st'] by (auto simp: settled_def)

lemma settled_enter:
  assumes "settled B st" "now st' = now st" "tmr st' = (tmr st)(t := Some tm)"
    and "\<And>i. i \<in> {1..<5} \<Longrightarrow> set (B0 i) \<subseteq> set (B i) - {t}"
    and "j \<noteq> 0 \<longrightarrow> 4 < expire tm - tv_sec (now st)"
  shows "settled (\<lambda>i. B0 i @ (if i = j then [t] else [])) st'"
  unfolding settled_def
proof
  fix i :: nat assume i: "i \<in> {1..<5}"
  show "far (B0 i @ (if i = j then [t] else [])) st'"
    unfolding far_def
  proof (intro ballI allI impI)
    fix u um assume u: "u \<in> set (B0 i @ (if i = j then [t] else []))" "tmr st' u = Some um"
    show "tv_sec (now st') + 2 \<le> expire um"
    proof (cases "u = t")
      case True
      then have "i = j" using u(1) assms(4) [OF i] by (auto split: if_splits)
      then show ?thesis using True u(2) i assms(2,3,5) by auto
    next
      case False
      then have "u \<in> set (B i)" "tmr st u = Some um" using u assms(3,4) i by (auto split: if_splits)
      then show ?thesis using assms(1,2) i by (auto simp: settled_def far_def)
    qed
  qed
qed

section \<open>Adding an event in either mode\<close>

lemma add_event_spec:
  assumes "timers_inv O' B S M st" "settled B st" "k \<in> O'" "tmr st t = None" "0 < e"
    "- (2 ^ 31) \<le> e - tv_sec (now st)"
    and "target = (if mode = timer_add_new_timer then None
      else find (\<lambda>t. func (the (tmr st t)) = fn) (S k))"
  shows "\<exists>st' B' S'. add_event t (Owner k) fn own dat e mode st =
      Some (case target of None \<Rightarrow> t | Some u \<Rightarrow> u, st') \<and>
    timers_inv O' B' S' M st' \<and> settled B' st' \<and>
    (case target of
       None \<Rightarrow> tmr st' = (tmr st)(t := Some (plain_timer e own dat fn)) \<and> S' = S(k := S k @ [t])
     | Some u \<Rightarrow> tmr st' = (tmr st)(u := Some ((the (tmr st u))\<lparr>expire := e\<rparr>)) \<and> S' = S) \<and>
    st' = st\<lparr>heap := heap st', vec := vec st', tmr := tmr st'\<rparr>"
proof (cases target)
  case None
  from new_event_spec [OF assms(1,4,3,5,6), of fn own dat] obtain st' j where n:
    "new_event t (Owner k) fn own dat e st = Some (t, st')"
    "timers_inv O' (\<lambda>i. B i @ (if i = j then [t] else [])) (S(k := S k @ [t])) M st'"
    "j \<noteq> 0 \<longrightarrow> 4 < e - tv_sec (now st)"
    "st' = st\<lparr>heap := heap st', vec := vec st', tmr := (tmr st)(t := Some (plain_timer e own dat fn))\<rparr>" by blast
  have T: "tmr st' = (tmr st)(t := Some (plain_timer e own dat fn))" "now st' = now st" by (subst n(4), simp)+
  have "t \<notin> set (B i)" if "i \<in> {1..<5}" for i
    using shape_live [OF timers_invD(1) [OF assms(1)], of i t] assms(4) that by auto
  then have "settled (\<lambda>i. B i @ (if i = j then [t] else [])) st'"
    using n(3) by (intro settled_enter [OF assms(2) T(2,1)]) (auto simp: plain_timer_def)
  moreover have "add_event t (Owner k) fn own dat e mode st = Some (t, st')"
    using None assms(7) find_event_spec(1) [OF timers_invD(1) [OF assms(1)] assms(3), of fn] n(1)
    by (simp add: add_event_def split: if_splits)
  ultimately show ?thesis using n(2,4) T(1) None by auto
next
  case (Some u)
  then have m: "mode = timer_replace_timer" "find (\<lambda>t. func (the (tmr st t)) = fn) (S k) = Some u"
    using assms(7) by (cases mode; simp)+
  then have "u \<in> set (S k)" by (auto simp: find_Some_iff)
  then obtain um where um: "tmr st u = Some um"
    using shapeD(4) [OF timers_invD(1) [OF assms(1)] assms(3), of u] by auto
  from mod_expire_spec [OF assms(1) um assms(5)] obtain st' j where n:
    "mod_expire_time u e st = Some st'"
    "timers_inv O' (\<lambda>i. remove1 u (B i) @ (if i = j then [u] else [])) S M st'"
    "j \<noteq> 0 \<longrightarrow> 4 < e - tv_sec (now st)"
    "st' = st\<lparr>heap := heap st', vec := vec st', tmr := (tmr st)(u := Some (um\<lparr>expire := e\<rparr>))\<rparr>" by blast
  have T: "tmr st' = (tmr st)(u := Some (um\<lparr>expire := e\<rparr>))" "now st' = now st" by (subst n(4), simp)+
  have "set (remove1 u (B i)) \<subseteq> set (B i) - {u}" if "i \<in> {1..<5}" for i
    using shape_distinct(1) [OF timers_invD(1) [OF assms(1)], of i] that by simp
  then have "settled (\<lambda>i. remove1 u (B i) @ (if i = j then [u] else [])) st'"
    using n(3) by (intro settled_enter [OF assms(2) T(2,1)]) auto
  moreover have "add_event t (Owner k) fn own dat e mode st = Some (u, st')"
    using m find_event_spec(1) [OF timers_invD(1) [OF assms(1)] assms(3), of fn] n(1)
    by (simp add: add_event_def)
  ultimately show ?thesis using n(2,4) T(1) Some um by auto
qed

section \<open>Adding and removing microsecond timers\<close>

lemma add_micro_spec:
  assumes "timers_inv O' B S M st" "micro st t = None"
  shows "\<exists>h. add_micro_event t fn when own dat st = Some (t, st\<lparr>heap := h, micro := (micro st)(t := Some
      \<lparr>tv = when, mowner = own, mdata = dat, mfunc = fn, mfunc_indx = 0\<rparr>)\<rparr>) \<and>
    timers_inv O' B S (M @ [t]) (st\<lparr>heap := h, micro := (micro st)(t := Some
      \<lparr>tv = when, mowner = own, mdata = dat, mfunc = fn, mfunc_indx = 0\<rparr>)\<rparr>)"
proof -
  let ?tm = "\<lparr>tv = when, mowner = own, mdata = dat, mfunc = fn, mfunc_indx = 0\<rparr>"
  note sh = timers_invD(1) [OF assms(1)]
  have fresh: "MicroEntry t \<notin> used (ring_heads O') (ring_of B S M)" using shapeD(3) [OF sh, of t] assms(2) by simp
  from ring_link [OF ring_init [OF shape_rings [OF sh] fresh] _ fresh, of Micro] obtain h where h:
    "list_add_tail (MicroEntry t) Micro (INIT_LIST_HEAD (MicroEntry t) (heap st)) = Some h"
    "del_ring.rings h (ring_heads O') (ring_of B S (M @ [t]))"
    "\<forall>y. y \<notin> insert (MicroEntry t) (used (ring_heads O') (ring_of B S M)) \<longrightarrow>
       nxt h y = nxt (INIT_LIST_HEAD (MicroEntry t) (heap st)) y"
    using ring_of_upd(3) [of B S M "M @ [t]"] by auto
  let ?s = "st\<lparr>heap := h, micro := (micro st)(t := Some ?tm)\<rparr>"
  have "shape O' B S (M @ [t]) ?s"
  proof (rule shapeI)
    show "micro ?s u \<noteq> None \<longleftrightarrow> u \<in> set (M @ [t])" for u
      using shapeD(3) [OF sh, of u] by (auto simp del: not_None_eq)
    show "\<exists>k\<in>O'. u \<in> set (S k)" if "tmr ?s u \<noteq> None" "nxt (heap ?s) (Sprite u) \<noteq> None" for u
    proof (rule ccontr)
      assume no: "\<not> (\<exists>k\<in>O'. u \<in> set (S k))"
      then have "nxt h (Sprite u) = nxt (heap st) (Sprite u)" using h(3) by (simp add: INIT_LIST_HEAD_def)
      then show False using shapeD(5) [OF sh, of u] that no by simp
    qed
  qed (use h(2) shapeD(2,4) [OF sh] in \<open>simp_all del: not_None_eq\<close>)
  from timers_inv_fields [OF assms(1) this] h(1) show ?thesis
    by (intro exI [of _ h]) (simp add: add_micro_event_def on_heap_def set_micro_def Let_def)
qed

lemma micro_fields_inv:
  assumes "timers_inv O' B S M st" "\<And>u. m u = None \<longleftrightarrow> micro st u = None"
  shows "timers_inv O' B S M (st\<lparr>micro := m\<rparr>)"
  by (rule timers_inv_fields [OF assms(1)]) (rule shape_fields [OF timers_invD(1) [OF assms(1)]], simp_all add: assms(2))

definition munset :: "micro_timer_struct \<Rightarrow> micro_timer_struct" where
  "munset tm = tm\<lparr>mfunc := None, mfunc_indx := 0\<rparr>"

definition unset_owned :: "nat \<Rightarrow> nat list \<Rightarrow> (nat \<Rightarrow> micro_timer_struct option) \<Rightarrow> nat \<Rightarrow> micro_timer_struct option" where
  "unset_owned own ts T t =
     (if t \<in> set ts then map_option (\<lambda>tm. if mowner tm = own then munset tm else tm) (T t) else T t)"

lemma remove_micro_kept:
  assumes "micro st t = Some tm"
  shows "remove_micro_timer t False st = Some (st\<lparr>micro := (micro st)(t := Some (munset tm))\<rparr>)"
  using assms by (simp add: remove_micro_timer_def set_micro_def munset_def)

lemma remove_micro_timers_spec:
  assumes "timers_inv O' B S M st"
  shows "remove_micro_timers own st = Some (st\<lparr>micro := unset_owned own M (micro st)\<rparr>) \<and>
    timers_inv O' B S M (st\<lparr>micro := unset_owned own M (micro st)\<rparr>)"
proof -
  let ?I = "\<lambda>xs s. \<exists>don rest. xs = map MicroEntry rest \<and> M = don @ rest \<and>
    s = st\<lparr>micro := unset_owned own don (micro st)\<rparr>"
  let ?body = "\<lambda>l st. do { t \<leftarrow> micro_of l; tm \<leftarrow> micro st t;
     if mowner tm = own then remove_micro_timer t False st else Some st }"
  note sh = timers_invD(1) [OF assms]
  have inv: "timers_inv O' B S M (st\<lparr>micro := unset_owned own ts (micro st)\<rparr>)" for ts
    by (rule micro_fields_inv [OF assms]) (simp add: unset_owned_def)
  have start: "?I (map MicroEntry M) st" by (rule exI [of _ "[]"], rule exI [of _ M]) (simp add: unset_owned_def [abs_def])
  have step: "\<exists>s'. ?body x s = Some s' \<and> ?I xs s'" if "?I (x # xs) s" for x xs s
  proof -
    from that obtain don t rest where u: "x = MicroEntry t" "xs = map MicroEntry rest" "M = don @ t # rest"
      "s = st\<lparr>micro := unset_owned own don (micro st)\<rparr>" by (auto simp: Cons_eq_map_conv)
    have t: "t \<notin> set don" using shape_distinct(3) [OF sh] u(3) by simp
    obtain tm where tm: "micro st t = Some tm" using shape_live_micro [OF sh, of t] u(3) by auto
    then have tm': "micro s t = Some tm" using t by (simp add: u(4) unset_owned_def)
    have "unset_owned own (don @ [t]) (micro st) =
        (unset_owned own don (micro st))(t := Some (if mowner tm = own then munset tm else tm))"
      using tm t by (auto simp: unset_owned_def fun_eq_iff)
    moreover have "(unset_owned own don (micro st))(t := Some tm) = unset_owned own don (micro st)"
      using tm t by (auto simp: unset_owned_def fun_eq_iff)
    ultimately have b: "?body x s = Some (st\<lparr>micro := unset_owned own (don @ [t]) (micro st)\<rparr>)"
      using remove_micro_kept [OF tm'] tm' by (simp add: u(1,4))
    have I: "?I xs (st\<lparr>micro := unset_owned own (don @ [t]) (micro st)\<rparr>)"
      by (rule exI [of _ "don @ [t]"], rule exI [of _ rest]) (use u(2,3) in simp)
    show ?thesis by (rule exI, rule conjI, rule b, rule I)
  qed
  have walk: "chain (heap s) (xs @ [Micro]) \<and> nxt (heap s) Micro \<noteq> None" if "?I xs s" for xs s
  proof -
    from that obtain don rest where r: "xs = map MicroEntry rest" "M = don @ rest" "heap s = heap st" by auto
    show ?thesis using dlist_chain [of "heap st" Micro "map MicroEntry don" "map MicroEntry rest"]
        shape_micro [OF sh] dlist_ends(1) [OF shape_micro [OF sh]] r by auto
  qed
  have "\<exists>st'. list_for_each_safe heap ?body Micro st = Some st' \<and> ?I [] st'"
  proof (rule list_for_each_safe_rule [where I = "?I" and xs = "map MicroEntry M"])
    show "\<exists>s'. ?body x s = Some s' \<and> ?I rest s'" if "?I (x # rest) s" for x rest s using that by (rule step)
    show "chain (heap s) (rest @ [Micro]) \<and> nxt (heap s) Micro \<noteq> None" if "?I rest s" for rest s
      using that by (rule walk)
  qed (fact start, rule shape_micro [OF sh])
  then show ?thesis using inv unfolding remove_micro_timers_def by auto
qed


section \<open>Programs\<close>

datatype timer_op =
  AddEvent nat nat "nat option" nat nat int timer_add_mode
| ModExpire nat int
| RemoveTimer nat
| RemoveOwner nat
| AddMicro nat "nat option" timeval nat nat
| RemoveMicro nat
| RemoveMicros nat
| Tick timeval

fun exec_op :: "(nat \<Rightarrow> nat \<Rightarrow> nat \<Rightarrow> 'w \<Rightarrow> int \<times> 'w) \<Rightarrow> timer_op \<Rightarrow> 'w timers \<Rightarrow> 'w timers option" where
  "exec_op act (AddEvent t k fn own dat e mode) st = map_option snd (add_event t (Owner k) fn own dat e mode st)"
| "exec_op act (ModExpire t e) st = mod_expire_time t e st"
| "exec_op act (RemoveTimer t) st = do_remove_timer t False st"
| "exec_op act (RemoveOwner k) st = remove_timers (Owner k) st"
| "exec_op act (AddMicro t fn when own dat) st = map_option snd (add_micro_event t fn when own dat st)"
| "exec_op act (RemoveMicro t) st = remove_micro_timer t False st"
| "exec_op act (RemoveMicros own) st = remove_micro_timers own st"
| "exec_op act (Tick t) st = handle_timer (quiet_call act) t st"

text \<open>
  What a caller has to respect: a new timer gets an address that is not in use, an owner's
  list is one of those set up, a timer named is one that exists, times are positive and not
  more than \<open>2 ^ 31\<close> seconds back, and the clock does not jump by more than a second.
\<close>

fun op_ok :: "nat set \<Rightarrow> timer_op \<Rightarrow> 'w timers \<Rightarrow> bool" where
  "op_ok O' (AddEvent t k fn own dat e mode) st \<longleftrightarrow>
     tmr st t = None \<and> k \<in> O' \<and> 0 < e \<and> - (2 ^ 31) \<le> e - tv_sec (now st)"
| "op_ok O' (ModExpire t e) st \<longleftrightarrow> tmr st t \<noteq> None \<and> 0 < e"
| "op_ok O' (RemoveTimer t) st \<longleftrightarrow> tmr st t \<noteq> None"
| "op_ok O' (RemoveOwner k) st \<longleftrightarrow> k \<in> O'"
| "op_ok O' (AddMicro t fn when own dat) st \<longleftrightarrow> micro st t = None"
| "op_ok O' (RemoveMicro t) st \<longleftrightarrow> micro st t \<noteq> None"
| "op_ok O' (RemoveMicros own) st \<longleftrightarrow> True"
| "op_ok O' (Tick t) st \<longleftrightarrow> tv_sec (now st) \<le> tv_sec t \<and> tv_sec t \<le> tv_sec (now st) + 1"

text \<open>The statics of the library as the loader leaves them, and a program that has set up its lists.\<close>

definition static_timers :: "'w \<Rightarrow> 'w timers" where
  "static_timers w = \<lparr>heap = \<lparr>nxt = \<lambda>_. None, prv = \<lambda>_. None\<rparr>, tmr = \<lambda>_. None, micro = \<lambda>_. None,
     vec = replicate 5 \<lparr>vexpire = 0, min_expiring_time = 0\<rparr>, now = Timeval 0 0, tcfs = \<lambda>_. None,
     last_sec = 0, world = w\<rparr>"

definition start_timers :: "nat list \<Rightarrow> timeval \<Rightarrow> 'w \<Rightarrow> 'w timers" where
  "start_timers ks t w =
     (let st = setup_timer t (static_timers w) in st\<lparr>heap := init_heads (map Owner ks) (heap st)\<rparr>)"

inductive timers_reach ::
  "(nat \<Rightarrow> nat \<Rightarrow> nat \<Rightarrow> 'w \<Rightarrow> int \<times> 'w) \<Rightarrow> nat list \<Rightarrow> 'w timers \<Rightarrow> bool" for act ks where
  reach_start: "0 \<le> tv_sec t \<Longrightarrow> timers_reach act ks (start_timers ks t w)"
| reach_step: "timers_reach act ks st \<Longrightarrow> op_ok (set ks) p st \<Longrightarrow> exec_op act p st = Some st' \<Longrightarrow>
    timers_reach act ks st'"

inductive_cases timers_reach_cases: "timers_reach act ks st"

definition timers_good :: "nat set \<Rightarrow> 'w timers \<Rightarrow> bool" where
  "timers_good O' st \<longleftrightarrow> (\<exists>B S M. timers_inv O' B S M st \<and> settled B st \<and> last_sec st \<le> tv_sec (now st))"

lemma start_timers_good:
  assumes "0 \<le> tv_sec t"
  shows "timers_good (set ks) (start_timers ks t w)"
proof -
  let ?st = "start_timers ks t w"
  have hp: "heap ?st = init_heads (map Vec [0..<5] @ [Micro] @ map Owner ks) (heap (static_timers w))"
    by (simp add: start_timers_def setup_timer_def TIMER_VEC_SIZE_def upt_rec init_vec_def renew_now_def
        init_heads_def static_timers_def)
  have heads: "set (map Vec [0..<5] @ [Micro] @ map Owner ks) = ring_heads (set ks)"
    by (auto simp: ring_heads_def)
  have empty: "ring_of (\<lambda>_. []) (\<lambda>_. []) [] = (\<lambda>_. [])"
  proof
    show "ring_of (\<lambda>_. []) (\<lambda>_. []) [] q = []" for q by (cases q) simp_all
  qed
  have none: "tmr ?st = (\<lambda>_. None)" "micro ?st = (\<lambda>_. None)" "last_sec ?st = 0" "now ?st = t"
    by (simp_all add: start_timers_def setup_timer_def TIMER_VEC_SIZE_def upt_rec init_vec_def renew_now_def
        static_timers_def)
  have "del_ring.rings (heap ?st) (ring_heads (set ks)) (ring_of (\<lambda>_. []) (\<lambda>_. []) [])"
    unfolding hp empty using init_heads_rings [of "map Vec [0..<5] @ [Micro] @ map Owner ks"] by (simp only: heads)
  then have "shape (set ks) (\<lambda>_. []) (\<lambda>_. []) [] ?st" by (rule shapeI) (simp_all add: none)
  moreover have "vec ?st = map (\<lambda>i. \<lparr>vexpire = 2 ^ (i + 2), min_expiring_time = 0\<rparr>) [0..<5]"
    by (simp add: start_timers_def setup_timer_def TIMER_VEC_SIZE_def upt_rec init_vec_def renew_now_def
        static_timers_def numeral_eq_Suc)
  then have "vec_ok ?st" by (simp add: vec_ok_def)
  ultimately have "timers_inv (set ks) (\<lambda>_. []) (\<lambda>_. []) [] ?st"
    by (simp add: timers_inv_def expires_ok_def min_ok_def none)
  then show ?thesis using assms
    unfolding timers_good_def by (metis settled_def far_def empty_iff list.set(1) none(3,4))
qed

section \<open>A tick\<close>

lemma renewed_inv:
  assumes "timers_inv O' B S M st"
  shows "timers_inv O' B S M (st\<lparr>now := n, last_sec := l\<rparr>)"
  by (rule timers_inv_fields [OF assms]) (rule shape_fields [OF timers_invD(1) [OF assms]], simp_all)

lemma tick_same_second:
  assumes "timers_inv O' B S M st" "settled B st" "last_sec st = tv_sec t" "tv_sec t = tv_sec (now st)"
    and "mfire act (micro st) t M (world st) = (ms, w)"
  shows "\<exists>st'. handle_timer (quiet_call act) t st = Some st' \<and> timers_inv O' B S ms st' \<and> settled B st' \<and>
    st' = st\<lparr>now := t, heap := heap st', micro := dropped M ms (micro st), world := w\<rparr>"
proof -
  have "timers_inv O' B S M (st\<lparr>now := t\<rparr>)" using renewed_inv [OF assms(1), where n = t and l = "last_sec st"] by simp
  from scan_micro_spec [OF this, of act ms w] assms(5) obtain st' where s:
    "scan_microseconds_timer (quiet_call act) (st\<lparr>now := t\<rparr>) = Some st'" "timers_inv O' B S ms st'"
    "st' = st\<lparr>now := t, heap := heap st', micro := dropped M ms (micro st), world := w\<rparr>" by auto
  have n: "now st' = t" "tmr st' = tmr st" by (subst s(3), simp)+
  have "settled B st'" using assms(2,4) by (simp add: settled_def far_def n)
  with s assms(3) show ?thesis by (auto simp: handle_timer_def renew_now_def)
qed

lemma tick_next_second:
  assumes "timers_inv O' B S M st" "last_sec st \<noteq> tv_sec t"
    and "fire act (tmr st) (tv_sec t) (B 0) (world st) = (ks, w1)"
    and "mfire act (micro st) t M w1 = (ms, w2)"
  shows "\<exists>st' B' S'. handle_timer (quiet_call act) t st = Some st' \<and> timers_inv O' B' S' ms st' \<and>
    settled B' st' \<and> world st' = w2 \<and> now st' = t \<and> last_sec st' = tv_sec t \<and> micro st' = dropped M ms (micro st) \<and>
    (\<forall>t tm. tmr st t = Some tm \<longrightarrow> func tm \<noteq> None \<longrightarrow> t \<notin> set (B 0) - set ks \<longrightarrow> tmr st' t = Some tm) \<and>
    (\<forall>t \<in> set (B 0) - set ks. tmr st' t = None)"
proof -
  let ?st = "st\<lparr>now := t, last_sec := tv_sec t\<rparr>"
  from scan_seconds_spec [OF renewed_inv [OF assms(1), where n = t and l = "tv_sec t"], of act ks w1] assms(3)
  obtain s B' S' where s: "scan_seconds_timer (quiet_call act) ?st = Some s" "timers_inv O' B' S' M s"
    "\<forall>k\<in>{1..<5}. far (B' k) s" "world s = w1" "now s = t" "micro s = micro st" "last_sec s = tv_sec t"
    "\<forall>t tm. tmr st t = Some tm \<longrightarrow> func tm \<noteq> None \<longrightarrow> t \<notin> set (B 0) - set ks \<longrightarrow> tmr s t = Some tm"
    "\<forall>t \<in> set (B 0) - set ks. tmr s t = None" by auto
  from scan_micro_spec [OF s(2), of act ms w2] assms(4) s(4-6) obtain st' where st':
    "scan_microseconds_timer (quiet_call act) s = Some st'" "timers_inv O' B' S' ms st'"
    "st' = s\<lparr>heap := heap st', micro := dropped M ms (micro st), world := w2\<rparr>" by auto
  have f: "now st' = t" "tmr st' = tmr s" "last_sec st' = tv_sec t" "world st' = w2"
    "micro st' = dropped M ms (micro st)" by (subst st'(3), simp add: s(5,7))+
  have "handle_timer (quiet_call act) t st = Some st'"
    using s(1) st'(1) assms(2) by (simp add: handle_timer_def renew_now_def)
  moreover have "settled B' st'" using s(3,5) by (simp add: settled_def far_def f)
  ultimately show ?thesis using st'(2) s(8,9) f by metis
qed

text \<open>Every operation a program may perform succeeds and keeps the state good.\<close>

lemma timers_good_intro:
  "timers_inv O' B S M st' \<Longrightarrow> settled B st' \<Longrightarrow> last_sec st' = last_sec st \<Longrightarrow> now st' = now st \<Longrightarrow>
    last_sec st \<le> tv_sec (now st) \<Longrightarrow> timers_good O' st'"
  unfolding timers_good_def by metis


lemma op_good:
  assumes "timers_good O' st" "op_ok O' p st"
  shows "\<exists>st'. exec_op act p st = Some st' \<and> timers_good O' st'"
proof -
  from assms(1) obtain B S M where g: "timers_inv O' B S M st" "settled B st" "last_sec st \<le> tv_sec (now st)"
    unfolding timers_good_def by blast
  note sh = timers_invD(1) [OF g(1)]
  show ?thesis
  proof (cases p)
    case (AddEvent t k fn own dat e mode)
    with assms(2) add_event_spec [OF g(1,2), of k t e _ mode fn own dat, OF _ _ _ _ refl]
    obtain r st' B' S' where a: "add_event t (Owner k) fn own dat e mode st = Some (r, st')"
      "timers_inv O' B' S' M st'" "settled B' st'" "st' = st\<lparr>heap := heap st', vec := vec st', tmr := tmr st'\<rparr>"
      by (auto simp del: not_None_eq)
    have "now st' = now st" "last_sec st' = last_sec st" by (subst a(4), simp)+
    with a g(3) show ?thesis by (auto simp: AddEvent intro: timers_good_intro)
  next
    case (ModExpire t e)
    then obtain tm where tm: "tmr st t = Some tm" "0 < e" using assms(2) by auto
    from mod_expire_spec [OF g(1) tm] obtain st' j where m: "mod_expire_time t e st = Some st'"
      "timers_inv O' (\<lambda>i. remove1 t (B i) @ (if i = j then [t] else [])) S M st'"
      "j \<noteq> 0 \<longrightarrow> 4 < e - tv_sec (now st)"
      "st' = st\<lparr>heap := heap st', vec := vec st', tmr := (tmr st)(t := Some (tm\<lparr>expire := e\<rparr>))\<rparr>" by blast
    have f: "now st' = now st" "last_sec st' = last_sec st" "tmr st' = (tmr st)(t := Some (tm\<lparr>expire := e\<rparr>))"
      by (subst m(4), simp)+
    have "set (remove1 t (B i)) \<subseteq> set (B i) - {t}" if "i \<in> {1..<5}" for i
      using shape_distinct(1) [OF sh, of i] that by simp
    then have "settled (\<lambda>i. remove1 t (B i) @ (if i = j then [t] else [])) st'"
      using m(3) by (intro settled_enter [OF g(2) f(1,3)]) auto
    with m(1,2) f(1,2) g(3) show ?thesis by (auto simp: ModExpire intro: timers_good_intro)
  next
    case (RemoveTimer t)
    then obtain tm where tm: "tmr st t = Some tm" using assms(2) by auto
    from remove_kept_inv [OF g(1) tm] obtain h where r:
      "do_remove_timer t False st = Some (st\<lparr>heap := h, tmr := (tmr st)(t := Some (unset tm))\<rparr>)"
      "timers_inv O' B (\<lambda>k. remove1 t (S k)) M (st\<lparr>heap := h, tmr := (tmr st)(t := Some (unset tm))\<rparr>)" by blast
    have "settled B (st\<lparr>heap := h, tmr := (tmr st)(t := Some (unset tm))\<rparr>)"
      by (rule settled_keep [OF g(2)]) (use tm in \<open>auto simp: unset_def split: if_splits\<close>)
    with r g(3) show ?thesis by (auto simp: RemoveTimer intro: timers_good_intro)
  next
    case (RemoveOwner k)
    with assms(2) remove_timers_spec [OF g(1), of k] obtain st' where r: "remove_timers (Owner k) st = Some st'"
      "timers_inv O' B (S(k := [])) M st'" "st' = st\<lparr>heap := heap st', tmr := all_unset (S k) (tmr st)\<rparr>" by auto
    have f: "now st' = now st" "last_sec st' = last_sec st" "tmr st' = all_unset (S k) (tmr st)" by (subst r(3), simp)+
    have "settled B st'"
      by (rule settled_keep [OF g(2) f(1)]) (auto simp: f(3) all_unset_def unset_def split: if_splits)
    with r f g(3) show ?thesis by (auto simp: RemoveOwner intro: timers_good_intro)
  next
    case (AddMicro t fn wh own dat)
    with assms(2) add_micro_spec [OF g(1), of t fn wh own dat] obtain h where r:
      "add_micro_event t fn wh own dat st = Some (t, st\<lparr>heap := h, micro := (micro st)(t := Some
        \<lparr>tv = wh, mowner = own, mdata = dat, mfunc = fn, mfunc_indx = 0\<rparr>)\<rparr>)"
      "timers_inv O' B S (M @ [t]) (st\<lparr>heap := h, micro := (micro st)(t := Some
        \<lparr>tv = wh, mowner = own, mdata = dat, mfunc = fn, mfunc_indx = 0\<rparr>)\<rparr>)" by auto
    from timers_good_intro [OF r(2), of st] g(2,3) r(1) show ?thesis
      by (simp add: AddMicro settled_def far_def)
  next
    case (RemoveMicro t)
    then obtain tm where tm: "micro st t = Some tm" using assms(2) by auto
    have "timers_inv O' B S M (st\<lparr>micro := (micro st)(t := Some (munset tm))\<rparr>)"
      by (rule micro_fields_inv [OF g(1)]) (use tm in auto)
    from timers_good_intro [OF this, of st] g(2,3) remove_micro_kept [OF tm] show ?thesis
      by (simp add: RemoveMicro settled_def far_def)
  next
    case (RemoveMicros own)
    note r = remove_micro_timers_spec [OF g(1), of own]
    from timers_good_intro [OF conjunct2 [OF r], of st] g(2,3) r show ?thesis
      by (simp add: RemoveMicros settled_def far_def)
  next
    case (Tick t)
    then have t: "tv_sec (now st) \<le> tv_sec t" "tv_sec t \<le> tv_sec (now st) + 1" using assms(2) by simp_all
    show ?thesis
    proof (cases "last_sec st = tv_sec t")
      case True
      obtain ms w where "mfire act (micro st) t M (world st) = (ms, w)" by fastforce
      from tick_same_second [OF g(1,2) True _ this] True g(3) t obtain st' where s:
        "handle_timer (quiet_call act) t st = Some st'" "timers_inv O' B S ms st'" "settled B st'"
        "st' = st\<lparr>now := t, heap := heap st', micro := dropped M ms (micro st), world := w\<rparr>" by auto
      have "now st' = t" "last_sec st' = last_sec st" by (subst s(4), simp)+
      with s True show ?thesis unfolding timers_good_def by (auto simp: Tick)
    next
      case False
      obtain ks w1 where f: "fire act (tmr st) (tv_sec t) (B 0) (world st) = (ks, w1)" by fastforce
      obtain ms w2 where m: "mfire act (micro st) t M w1 = (ms, w2)" by fastforce
      from tick_next_second [OF g(1) False f m] obtain st' B' S' where s:
        "handle_timer (quiet_call act) t st = Some st'" "timers_inv O' B' S' ms st'" "settled B' st'"
        "now st' = t" "last_sec st' = tv_sec t" by blast
      have "timers_good O' st'" unfolding timers_good_def using s(2-5) by (metis order_refl)
      with s(1) show ?thesis by (simp add: Tick)
    qed
  qed
qed

lemma reach_good: "timers_reach act ks st \<Longrightarrow> timers_good (set ks) st"
proof (induction rule: timers_reach.induct)
  case (reach_step st p st')
  with op_good [OF reach_step.IH reach_step.hyps(2), of act] show ?case by auto
qed (rule start_timers_good)

section \<open>The log of calls\<close>

text \<open>A callback that only answers; the world is the list of the calls made.\<close>

type_synonym call_log = "(nat \<times> nat \<times> nat) list"

definition log_act :: "(nat \<Rightarrow> nat \<Rightarrow> nat \<Rightarrow> int) \<Rightarrow> nat \<Rightarrow> nat \<Rightarrow> nat \<Rightarrow> call_log \<Rightarrow> int \<times> call_log" where
  "log_act ret f own dat w = (ret f own dat, w @ [(f, own, dat)])"

definition due :: "(nat \<Rightarrow> timer_struct option) \<Rightarrow> int \<Rightarrow> nat \<Rightarrow> bool" where
  "due T n t \<longleftrightarrow> (\<exists>tm. T t = Some tm \<and> func tm \<noteq> None \<and> expire tm \<le> n)"

definition call_of :: "(nat \<Rightarrow> timer_struct option) \<Rightarrow> nat \<Rightarrow> nat \<times> nat \<times> nat" where
  "call_of T t = (the (func (the (T t))), owner (the (T t)), data (the (T t)))"

definition mdue :: "(nat \<Rightarrow> micro_timer_struct option) \<Rightarrow> timeval \<Rightarrow> nat \<Rightarrow> bool" where
  "mdue T n t \<longleftrightarrow> (\<exists>tm. T t = Some tm \<and> mfunc tm \<noteq> None \<and> tv tm < n)"

definition mcall_of :: "(nat \<Rightarrow> micro_timer_struct option) \<Rightarrow> nat \<Rightarrow> nat \<times> nat \<times> nat" where
  "mcall_of T t = (the (mfunc (the (T t))), mowner (the (T t)), mdata (the (T t)))"

lemma fire_log:
  "fire (log_act ret) T n ts w =
     (filter (\<lambda>t. \<exists>tm f. T t = Some tm \<and> func tm = Some f \<and> (expire tm \<le> n \<longrightarrow> ret f (owner tm) (data tm) \<noteq> 0)) ts,
      w @ map (call_of T) (filter (due T n) ts))"
  by (induction ts arbitrary: w)
    (auto simp: due_def call_of_def log_act_def split: option.splits prod.splits)

lemma mfire_log:
  "mfire (log_act ret) T n ts w =
     (filter (\<lambda>t. \<exists>tm f. T t = Some tm \<and> mfunc tm = Some f \<and> (tv tm < n \<longrightarrow> ret f (mowner tm) (mdata tm) \<noteq> 0)) ts,
      w @ map (mcall_of T) (filter (mdue T n) ts))"
  by (induction ts arbitrary: w)
    (auto simp: mdue_def mcall_of_def log_act_def split: option.splits prod.splits)

lemma settled_due:
  assumes "timers_inv O' B S M st" "settled B st" "due (tmr st) n t" "n \<le> tv_sec (now st) + 1"
  shows "t \<in> set (B 0)"
proof -
  obtain tm where tm: "tmr st t = Some tm" "expire tm \<le> n" using assms(3) by (auto simp: due_def)
  obtain i where i: "i < 5" "t \<in> set (B i)" using shape_bucket_of [OF timers_invD(1) [OF assms(1)] tm(1)] by blast
  have "i = 0"
  proof (rule ccontr)
    assume "i \<noteq> 0"
    then have "far (B i) st" using assms(2) i(1) by (simp add: settled_def)
    then have "tv_sec (now st) + 2 \<le> expire tm" using i(2) tm(1) by (auto simp: far_def)
    then show False using tm(2) assms(4) by simp
  qed
  with i show ?thesis by simp
qed

end
