(* ===== verification/TimerProps.thy ===== *)
theory TimerProps
  imports TimerRun
begin

text \<open>
  What the timers promise: programs never run into an error, every timer fires when it is
  due and not before, rescheduling and removal do what they say, and leaving frees
  everything. The last property is about a callback that breaks the loop that calls it.
\<close>

section \<open>Destroying\<close>

lemma destroy_bucket:
  assumes "shape O' B S M st" "i < 5"
  shows "\<exists>st' S'. list_for_each_safe heap (\<lambda>l st. do { t \<leftarrow> entry_of l; do_remove_timer t True st }) (Vec i) st = Some st' \<and>
    shape O' (B(i := [])) S' M st' \<and> micro st' = micro st"
proof -
  let ?body = "\<lambda>l st. do { t \<leftarrow> entry_of l; do_remove_timer t True st }"
  let ?I = "\<lambda>xs s. \<exists>rest S'. xs = map Entry rest \<and> shape O' (B(i := rest)) S' M s \<and> micro s = micro st"
  have start: "?I (map Entry (B i)) st" by (rule exI [of _ "B i"], rule exI [of _ S]) (use assms(1) in simp)
  have step: "\<exists>s'. ?body x s = Some s' \<and> ?I xs s'" if "?I (x # xs) s" for x xs s
  proof -
    from that obtain t rest S' where u: "x = Entry t" "xs = map Entry rest" "shape O' (B(i := t # rest)) S' M s"
      "micro s = micro st" by (auto simp: Cons_eq_map_conv)
    obtain tm where "tmr s t = Some tm" using shape_live [OF u(3) assms(2), of t] by auto
    with do_remove_freed [OF u(3), of t] obtain h where h:
      "do_remove_timer t True s = Some (s\<lparr>heap := h, tmr := (tmr s)(t := None)\<rparr>)"
      "shape O' (\<lambda>k. remove1 t ((B(i := t # rest)) k)) (\<lambda>k. remove1 t (S' k)) M (s\<lparr>heap := h, tmr := (tmr s)(t := None)\<rparr>)"
      by auto
    have "shape O' (B(i := rest)) (\<lambda>k. remove1 t (S' k)) M (s\<lparr>heap := h, tmr := (tmr s)(t := None)\<rparr>)"
      by (rule shape_cong [OF h(2)])
        (use remove_current [OF u(3) assms(2), of "[]" t rest] in \<open>simp_all split: if_splits\<close>)
    then have I: "?I xs (s\<lparr>heap := h, tmr := (tmr s)(t := None)\<rparr>)" using u(2,4) by auto
    have b: "?body x s = Some (s\<lparr>heap := h, tmr := (tmr s)(t := None)\<rparr>)" using h(1) u(1) by simp
    show ?thesis by (rule exI, rule conjI, rule b, rule I)
  qed
  have walk: "chain (heap s) (xs @ [Vec i]) \<and> nxt (heap s) (Vec i) \<noteq> None" if "?I xs s" for xs s
    using that bucket_walk [of O' _ _ M s i "[]"] assms(2) by fastforce
  have "\<exists>st'. list_for_each_safe heap ?body (Vec i) st = Some st' \<and> ?I [] st'"
  proof (rule list_for_each_safe_rule [where I = "?I" and xs = "map Entry (B i)"])
    show "\<exists>s'. ?body x s = Some s' \<and> ?I rest s'" if "?I (x # rest) s" for x rest s using that by (rule step)
    show "chain (heap s) (rest @ [Vec i]) \<and> nxt (heap s) (Vec i) \<noteq> None" if "?I rest s" for rest s
      using that by (rule walk)
  qed (fact start, rule shape_bucket [OF assms])
  then show ?thesis by auto
qed

lemma destroy_buckets_spec:
  assumes "shape O' B S M st" "set bs \<subseteq> {..<5}"
  shows "\<exists>st' B' S'. destroy_buckets bs st = Some st' \<and> shape O' B' S' M st' \<and> micro st' = micro st \<and>
    (\<forall>i. B' i = (if i \<in> set bs then [] else B i))"
  using assms
proof (induction bs arbitrary: B S st)
  case (Cons i bs)
  from destroy_bucket [OF Cons.prems(1), of i] Cons.prems(2) obtain s S1 where s:
    "list_for_each_safe heap (\<lambda>l st. do { t \<leftarrow> entry_of l; do_remove_timer t True st }) (Vec i) st = Some s"
    "shape O' (B(i := [])) S1 M s" "micro s = micro st" by auto
  from Cons.IH [OF s(2)] Cons.prems(2) s(1,3) show ?case by fastforce
qed auto

lemma destroy_micro:
  assumes "shape O' B S M st"
  shows "\<exists>st'. list_for_each_safe heap (\<lambda>l st. do { t \<leftarrow> micro_of l; remove_micro_timer t True st }) Micro st = Some st' \<and>
    shape O' B S [] st' \<and> tmr st' = tmr st"
proof -
  let ?body = "\<lambda>l st. do { t \<leftarrow> micro_of l; remove_micro_timer t True st }"
  let ?I = "\<lambda>xs s. \<exists>rest. xs = map MicroEntry rest \<and> shape O' B S rest s \<and> tmr s = tmr st"
  have start: "?I (map MicroEntry M) st" using assms by auto
  have step: "\<exists>s'. ?body x s = Some s' \<and> ?I xs s'" if "?I (x # xs) s" for x xs s
  proof -
    from that obtain t rest where u: "x = MicroEntry t" "xs = map MicroEntry rest" "shape O' B S (t # rest) s"
      "tmr s = tmr st" by (auto simp: Cons_eq_map_conv)
    from remove_micro_freed [OF u(3), of t] obtain h where h:
      "remove_micro_timer t True s = Some (s\<lparr>heap := h, micro := (micro s)(t := None)\<rparr>)"
      "shape O' B S rest (s\<lparr>heap := h, micro := (micro s)(t := None)\<rparr>)" by auto
    have I: "?I xs (s\<lparr>heap := h, micro := (micro s)(t := None)\<rparr>)" using u(2,4) h(2) by auto
    have b: "?body x s = Some (s\<lparr>heap := h, micro := (micro s)(t := None)\<rparr>)" using h(1) u(1) by simp
    show ?thesis by (rule exI, rule conjI, rule b, rule I)
  qed
  have walk: "chain (heap s) (xs @ [Micro]) \<and> nxt (heap s) Micro \<noteq> None" if "?I xs s" for xs s
  proof -
    from that obtain rest where r: "xs = map MicroEntry rest" "shape O' B S rest s" by blast
    note d = shape_micro [OF r(2)]
    have "chain (heap s) (map MicroEntry rest @ [Micro])"
      using dlist_chain [of "heap s" Micro "[]" "map MicroEntry rest"] d by simp
    then show ?thesis using dlist_ends(1) [OF d] r(1) by simp
  qed
  have "\<exists>st'. list_for_each_safe heap ?body Micro st = Some st' \<and> ?I [] st'"
  proof (rule list_for_each_safe_rule [where I = "?I" and xs = "map MicroEntry M"])
    show "\<exists>s'. ?body x s = Some s' \<and> ?I rest s'" if "?I (x # rest) s" for x rest s using that by (rule step)
    show "chain (heap s) (rest @ [Micro]) \<and> nxt (heap s) Micro \<noteq> None" if "?I rest s" for rest s
      using that by (rule walk)
  qed (fact start, rule shape_micro [OF assms])
  then show ?thesis by auto
qed

section \<open>A small program\<close>

text \<open>One owner, two timers added at second 10, due at 11 and at 100.\<close>

lemma add_new_good:
  assumes "timers_good O' st" "k \<in> O'" "tmr st t = None" "0 < e" "- (2 ^ 31) \<le> e - tv_sec (now st)"
  shows "\<exists>st'. exec_op act (AddEvent t k (Some fn) own dat e timer_add_new_timer) st = Some st' \<and>
    timers_good O' st' \<and> tmr st' = (tmr st)(t := Some (plain_timer e own dat (Some fn))) \<and> now st' = now st \<and>
    micro st' = micro st \<and> world st' = world st"
proof -
  from assms(1) obtain B S M where g: "timers_inv O' B S M st" "settled B st" unfolding timers_good_def by blast
  from add_event_spec [OF g assms(2-5), of None timer_add_new_timer "Some fn" own dat] obtain st' where a:
    "add_event t (Owner k) (Some fn) own dat e timer_add_new_timer st = Some (t, st')"
    "tmr st' = (tmr st)(t := Some (plain_timer e own dat (Some fn)))"
    "st' = st\<lparr>heap := heap st', vec := vec st', tmr := tmr st'\<rparr>" by auto
  have "now st' = now st" "micro st' = micro st" "world st' = world st" by (subst a(3), simp)+
  moreover have "exec_op act (AddEvent t k (Some fn) own dat e timer_add_new_timer) st = Some st'" using a(1) by simp
  moreover have "op_ok O' (AddEvent t k (Some fn) own dat e timer_add_new_timer) st" using assms by simp
  ultimately show ?thesis using op_good [OF assms(1), of _ act] a(2) by (metis option.inject)
qed

definition two_timers :: "call_log timers" where
  "two_timers = the (do {
     st \<leftarrow> exec_op (log_act (\<lambda>_ _ _. 0)) (AddEvent 0 7 (Some 3) 70 1 11 timer_add_new_timer)
       (start_timers [7] (Timeval 10 0) []);
     exec_op (log_act (\<lambda>_ _ _. 0)) (AddEvent 1 7 (Some 4) 70 2 100 timer_add_new_timer) st })"

lemma two_timers_reach:
  "timers_reach (log_act (\<lambda>_ _ _. 0)) [7] two_timers"
  "now two_timers = Timeval 10 0" "micro two_timers = (\<lambda>_. None)" "world two_timers = []"
  "tmr two_timers = (\<lambda>_. None)(0 := Some (plain_timer 11 70 1 (Some 3)), 1 := Some (plain_timer 100 70 2 (Some 4)))"
proof -
  let ?act = "log_act (\<lambda>_ _ _. 0)" and ?s = "start_timers [7] (Timeval 10 0) ([] :: call_log)"
  have s: "timers_reach ?act [7] ?s" by (rule reach_start) simp
  have f: "tmr ?s = (\<lambda>_. None)" "micro ?s = (\<lambda>_. None)" "now ?s = Timeval 10 0" "world ?s = []"
    by (simp_all add: start_timers_def setup_timer_def TIMER_VEC_SIZE_def upt_rec init_vec_def renew_now_def
        static_timers_def)
  from add_new_good [OF reach_good [OF s], of 7 0 11 ?act 3 70 1] obtain s1 where s1:
    "exec_op ?act (AddEvent 0 7 (Some 3) 70 1 11 timer_add_new_timer) ?s = Some s1"
    "tmr s1 = (\<lambda>_. None)(0 := Some (plain_timer 11 70 1 (Some 3)))" "now s1 = Timeval 10 0"
    "micro s1 = (\<lambda>_. None)" "world s1 = []" by (auto simp: f)
  have r1: "timers_reach ?act [7] s1" by (rule reach_step [OF s _ s1(1)]) (simp add: f)
  from add_new_good [OF reach_good [OF r1], of 7 1 100 ?act 4 70 2] obtain s2 where s2:
    "exec_op ?act (AddEvent 1 7 (Some 4) 70 2 100 timer_add_new_timer) s1 = Some s2"
    "tmr s2 = (\<lambda>_. None)(0 := Some (plain_timer 11 70 1 (Some 3)), 1 := Some (plain_timer 100 70 2 (Some 4)))"
    "now s2 = Timeval 10 0" "micro s2 = (\<lambda>_. None)" "world s2 = []" by (auto simp: s1(2-5))
  have r2: "timers_reach ?act [7] s2" by (rule reach_step [OF r1 _ s2(1)]) (simp add: s1(2,3))
  have "two_timers = s2" unfolding two_timers_def s1(1) bind.simps s2(1) option.sel ..
  with r2 s2(2-5) show "timers_reach ?act [7] two_timers" "now two_timers = Timeval 10 0"
    "micro two_timers = (\<lambda>_. None)" "world two_timers = []"
    "tmr two_timers = (\<lambda>_. None)(0 := Some (plain_timer 11 70 1 (Some 3)), 1 := Some (plain_timer 100 70 2 (Some 4)))"
    by simp_all
qed

section \<open>Properties\<close>

text \<open>
  C10: let the callbacks leave the timers alone (they answer a number and change state of the
  program only). Then after any sequence of additions, changes, removals and clock ticks of at most
  a second, the next such operation never follows a null or dangling pointer and comes to an end.
  The operations name timers and owners that exist, give new timers addresses that are not in use,
  and have times that are positive and at most \<open>2 ^ 31\<close> seconds back. Callbacks that
  add, change or remove timers are left out: one that moves the timer behind its own breaks the
  scan.
\<close>

theorem timers_never_stuck:
  assumes "timers_reach act ks st" "op_ok (set ks) p st"
  shows "\<exists>st'. exec_op act p st = Some st' \<and> timers_reach act ks st'"
  using op_good [OF reach_good [OF assms(1)] assms(2), of act] reach_step [OF assms] by blast

theorem timers_never_stuck_witness:
  "\<exists>st'. exec_op (log_act (\<lambda>_ _ _. 0)) (Tick (Timeval 11 0)) two_timers = Some st' \<and>
    timers_reach (log_act (\<lambda>_ _ _. 0)) [7] st'"
  by (rule timers_never_stuck [OF two_timers_reach(1)]) (simp add: two_timers_reach(2))

text \<open>
  C9: let the callbacks leave the timers alone, and let the timers be in a state that additions,
  changes, removals and clock ticks of at most a second lead to. When the clock reaches the next
  second, exactly the timers with a callback whose time has come are called, each once, with their
  owner and data, the second timers in the order of the first bucket and then the microsecond
  timers in their order. None is early, and none is missed: every due second timer is in the first
  bucket. A timer of either kind whose callback answers 0 is freed, every other one with a callback
  is kept as it is.
\<close>

theorem timers_fire_exactly:
  assumes "timers_reach (log_act ret) ks st" "tv_sec t = tv_sec (now st) + 1"
  shows "\<exists>st' ts ms. handle_timer (quiet_call (log_act ret)) t st = Some st' \<and>
    list_nodes (Vec 0) (heap st) = Some (map Entry ts) \<and> list_nodes Micro (heap st) = Some (map MicroEntry ms) \<and>
    world st' = world st @ map (call_of (tmr st)) (filter (due (tmr st) (tv_sec t)) ts) @
      map (mcall_of (micro st)) (filter (mdue (micro st) t) ms) \<and>
    distinct ts \<and> (\<forall>x. due (tmr st) (tv_sec t) x \<longrightarrow> x \<in> set ts) \<and>
    distinct ms \<and> (\<forall>x. mdue (micro st) t x \<longrightarrow> x \<in> set ms) \<and>
    (\<forall>x tm f. tmr st x = Some tm \<longrightarrow> func tm = Some f \<longrightarrow>
      tmr st' x = (if expire tm \<le> tv_sec t \<and> ret f (owner tm) (data tm) = 0 then None else Some tm)) \<and>
    (\<forall>x tm f. micro st x = Some tm \<longrightarrow> mfunc tm = Some f \<longrightarrow>
      micro st' x = (if tv tm < t \<and> ret f (mowner tm) (mdata tm) = 0 then None else Some tm))"
proof -
  from reach_good [OF assms(1)] obtain B S M where g:
    "timers_inv (set ks) B S M st" "settled B st" "last_sec st \<le> tv_sec (now st)"
    unfolding timers_good_def by blast
  note sh = timers_invD(1) [OF g(1)]
  have l: "last_sec st \<noteq> tv_sec t" using g(3) assms(2) by simp
  let ?M = "filter (\<lambda>x. \<exists>tm f. micro st x = Some tm \<and> mfunc tm = Some f \<and>
    (tv tm < t \<longrightarrow> ret f (mowner tm) (mdata tm) \<noteq> 0)) M"
  from tick_next_second [OF g(1) l fire_log mfire_log] obtain st' where s:
    "handle_timer (quiet_call (log_act ret)) t st = Some st'"
    "world st' = (world st @ map (call_of (tmr st)) (filter (due (tmr st) (tv_sec t)) (B 0))) @
       map (mcall_of (micro st)) (filter (mdue (micro st) t) M)"
    "\<forall>x tm. tmr st x = Some tm \<longrightarrow> func tm \<noteq> None \<longrightarrow>
       x \<notin> set (B 0) - set (filter (\<lambda>t'. \<exists>tm f. tmr st t' = Some tm \<and> func tm = Some f \<and>
         (expire tm \<le> tv_sec t \<longrightarrow> ret f (owner tm) (data tm) \<noteq> 0)) (B 0)) \<longrightarrow> tmr st' x = Some tm"
    "\<forall>x \<in> set (B 0) - set (filter (\<lambda>t'. \<exists>tm f. tmr st t' = Some tm \<and> func tm = Some f \<and>
         (expire tm \<le> tv_sec t \<longrightarrow> ret f (owner tm) (data tm) \<noteq> 0)) (B 0)). tmr st' x = None"
    "micro st' = dropped M ?M (micro st)" by blast
  have inB: "x \<in> set (B 0)" if "due (tmr st) (tv_sec t) x" for x
    using settled_due [OF g(1,2) that] assms(2) by simp
  have inM: "x \<in> set M" if "mdue (micro st) t x" for x
    using that shapeD(3) [OF sh, of x] by (auto simp: mdue_def)
  have kept: "tmr st' x = (if expire tm \<le> tv_sec t \<and> ret f (owner tm) (data tm) = 0 then None else Some tm)"
    if "tmr st x = Some tm" "func tm = Some f" for x tm f
    using s(3,4) inB [of x] that by (auto simp: due_def)
  have mkept: "micro st' x = (if tv tm < t \<and> ret f (mowner tm) (mdata tm) = 0 then None else Some tm)"
    if "micro st x = Some tm" "mfunc tm = Some f" for x tm f
    using inM [of x] that by (auto simp: s(5) dropped_def mdue_def)
  note final = kept mkept s(1,2) inB inM shape_distinct(1) [OF sh, of 0] shape_distinct(3) [OF sh]
    list_nodes_dlist [OF shape_bucket [OF sh, of 0]] list_nodes_dlist [OF shape_micro [OF sh]]
  show ?thesis
    by (rule exI [of _ st'], rule exI [of _ "B 0"], rule exI [of _ M]) (use final in \<open>simp add: append_assoc\<close>)
qed


lemma filter_unique: "distinct xs \<Longrightarrow> a \<in> set xs \<Longrightarrow> filter (\<lambda>x. x = a) xs = [a]"
  by (induction xs) (auto simp: filter_empty_conv)

theorem timers_fire_exactly_witness:
  "\<exists>st'. handle_timer (quiet_call (log_act (\<lambda>_ _ _. 0))) (Timeval 11 0) two_timers = Some st' \<and>
    world st' = [(3, 70, 1)] \<and> tmr st' 0 = None \<and> tmr st' 1 = Some (plain_timer 100 70 2 (Some 4))"
proof -
  have "tv_sec (Timeval 11 0) = tv_sec (now two_timers) + 1" by (simp add: two_timers_reach(2))
  from timers_fire_exactly [OF two_timers_reach(1) this] obtain st' ts ms where s:
    "handle_timer (quiet_call (log_act (\<lambda>_ _ _. 0))) (Timeval 11 0) two_timers = Some st'"
    "world st' = map (call_of (tmr two_timers)) (filter (due (tmr two_timers) 11) ts) @
      map (mcall_of (micro two_timers)) (filter (mdue (micro two_timers) (Timeval 11 0)) ms)"
    "distinct ts" "\<forall>x. due (tmr two_timers) 11 x \<longrightarrow> x \<in> set ts"
    "\<forall>x tm f. tmr two_timers x = Some tm \<longrightarrow> func tm = Some f \<longrightarrow>
      tmr st' x = (if expire tm \<le> 11 then None else Some tm)" by (auto simp: two_timers_reach(4))
  have d: "due (tmr two_timers) 11 x \<longleftrightarrow> x = 0" for x
    by (auto simp: due_def two_timers_reach(5) plain_timer_def)
  have "filter (\<lambda>x. x = 0) ts = [0]" by (rule filter_unique [OF s(3)]) (use s(4) d in blast)
  moreover have "due (tmr two_timers) 11 = (\<lambda>x. x = 0)" "mdue (micro two_timers) (Timeval 11 0) = (\<lambda>_. False)"
    by (rule ext, rule d, rule ext, simp add: mdue_def two_timers_reach(3))
  moreover have "call_of (tmr two_timers) 0 = (3, 70, 1)" by (simp add: call_of_def two_timers_reach(5) plain_timer_def)
  ultimately have "world st' = [(3, 70, 1)]" using s(2) by simp
  moreover have "tmr st' 0 = None" "tmr st' 1 = Some (plain_timer 100 70 2 (Some 4))"
    using s(5) by (simp_all add: two_timers_reach(5) plain_timer_def)
  ultimately show ?thesis using s(1) by blast
qed

text \<open>
  Adding an event creates a timer at the end of its owner's list, unless the mode asks to
  replace and the list holds a timer with the same callback: then the first such timer gets
  the new time, keeps its place, owner and data, and its address is returned.
\<close>

theorem add_event_schedules:
  assumes "timers_reach act ks st" "op_ok (set ks) (AddEvent t k fn own dat e mode) st"
  shows "\<exists>ts t' st' ts'. list_nodes (Owner k) (heap st) = Some (map Sprite ts) \<and>
    add_event t (Owner k) fn own dat e mode st = Some (t', st') \<and>
    list_nodes (Owner k) (heap st') = Some (map Sprite ts') \<and>
    (case if mode = timer_add_new_timer then None else find (\<lambda>u. func (the (tmr st u)) = fn) ts of
       None \<Rightarrow> t' = t \<and> ts' = ts @ [t] \<and> tmr st' = (tmr st)(t := Some (plain_timer e own dat fn))
     | Some u \<Rightarrow> t' = u \<and> ts' = ts \<and> tmr st' = (tmr st)(u := Some ((the (tmr st u))\<lparr>expire := e\<rparr>)))"
proof -
  from reach_good [OF assms(1)] obtain B S M where g: "timers_inv (set ks) B S M st" "settled B st"
    unfolding timers_good_def by blast
  have k: "k \<in> set ks" using assms(2) by simp
  let ?target = "if mode = timer_add_new_timer then None else find (\<lambda>u. func (the (tmr st u)) = fn) (S k)"
  from add_event_spec [OF g, of k t e ?target mode fn own dat] assms(2) obtain st' B' S' where a:
    "add_event t (Owner k) fn own dat e mode st = Some (case ?target of None \<Rightarrow> t | Some u \<Rightarrow> u, st')"
    "timers_inv (set ks) B' S' M st'"
    "case ?target of
       None \<Rightarrow> tmr st' = (tmr st)(t := Some (plain_timer e own dat fn)) \<and> S' = S(k := S k @ [t])
     | Some u \<Rightarrow> tmr st' = (tmr st)(u := Some ((the (tmr st u))\<lparr>expire := e\<rparr>)) \<and> S' = S" by (auto simp del: not_None_eq)
  note n = list_nodes_dlist [OF shape_owner [OF timers_invD(1) [OF g(1)] k]]
    list_nodes_dlist [OF shape_owner [OF timers_invD(1) [OF a(2)] k]]
  show ?thesis
  proof (cases ?target)
    case None
    show ?thesis
      by (rule exI [of _ "S k"], rule exI [of _ t], rule exI [of _ st'], rule exI [of _ "S' k"])
        (use n a(1,3) None in simp)
  next
    case (Some u)
    show ?thesis
      by (rule exI [of _ "S k"], rule exI [of _ u], rule exI [of _ st'], rule exI [of _ "S' k"])
        (use n a(1,3) Some in simp)
  qed
qed

theorem add_event_schedules_witness:
  "\<exists>st'. add_event 5 (Owner 7) (Some 4) 70 9 20 timer_add_new_timer two_timers = Some (5, st') \<and>
    tmr st' 5 = Some (plain_timer 20 70 9 (Some 4))"
proof -
  have "op_ok (set [7]) (AddEvent 5 7 (Some 4) 70 9 20 timer_add_new_timer) two_timers"
    by (simp add: two_timers_reach)
  from add_event_schedules [OF two_timers_reach(1) this] show ?thesis by auto
qed

text \<open>
  Removing the timers of an owner empties its list and takes the callback from every
  timer that was on it, so that none of them is ever due again; no other timer changes.
\<close>

theorem remove_timers_silences:
  assumes "timers_reach act ks st" "k \<in> set ks"
  shows "\<exists>ts st'. list_nodes (Owner k) (heap st) = Some (map Sprite ts) \<and> remove_timers (Owner k) st = Some st' \<and>
    list_nodes (Owner k) (heap st') = Some [] \<and> (\<forall>u \<in> set ts. \<forall>n. \<not> due (tmr st') n u) \<and>
    (\<forall>u. u \<notin> set ts \<longrightarrow> tmr st' u = tmr st u)"
proof -
  from reach_good [OF assms(1)] obtain B S M where g: "timers_inv (set ks) B S M st"
    unfolding timers_good_def by blast
  from remove_timers_spec [OF g assms(2)] obtain st' where r: "remove_timers (Owner k) st = Some st'"
    "timers_inv (set ks) B (S(k := [])) M st'" "st' = st\<lparr>heap := heap st', tmr := all_unset (S k) (tmr st)\<rparr>" by blast
  have T: "tmr st' = all_unset (S k) (tmr st)" by (subst r(3)) simp
  show ?thesis
    using list_nodes_dlist [OF shape_owner [OF timers_invD(1) [OF g] assms(2)]]
      list_nodes_dlist [OF shape_owner [OF timers_invD(1) [OF r(2)] assms(2)]] r(1)
    by (intro exI [of _ "S k"]) (auto simp: T due_def all_unset_def unset_def)
qed

theorem remove_timers_silences_witness:
  "\<exists>ts st'. list_nodes (Owner 7) (heap two_timers) = Some (map Sprite ts) \<and>
    remove_timers (Owner 7) two_timers = Some st' \<and> list_nodes (Owner 7) (heap st') = Some []"
  using remove_timers_silences [OF two_timers_reach(1), of 7] by auto

text \<open>
  Leaving frees every timer of both kinds and empties the lists of all owners.
\<close>

theorem destroy_timer_frees_all:
  assumes "timers_reach act ks st"
  shows "\<exists>st'. destroy_timer st = Some st' \<and> tmr st' = (\<lambda>_. None) \<and> micro st' = (\<lambda>_. None) \<and>
    (\<forall>k \<in> set ks. list_nodes (Owner k) (heap st') = Some [])"
proof -
  from reach_good [OF assms] obtain B S M where "timers_inv (set ks) B S M st" unfolding timers_good_def by blast
  note sh = timers_invD(1) [OF this]
  have "set [0..<TIMER_VEC_SIZE] \<subseteq> {..<5}" by (auto simp: TIMER_VEC_SIZE_def)
  from destroy_buckets_spec [OF sh this] obtain s B' S' where s:
    "destroy_buckets [0..<TIMER_VEC_SIZE] st = Some s" "shape (set ks) B' S' M s"
    "\<forall>i. B' i = (if i < 5 then [] else B i)" by (auto simp: TIMER_VEC_SIZE_def)
  from destroy_micro [OF s(2)] obtain st' where st':
    "list_for_each_safe heap (\<lambda>l st. do { t \<leftarrow> micro_of l; remove_micro_timer t True st }) Micro s = Some st'"
    "shape (set ks) B' S' [] st'" by blast
  have t: "tmr st' u = None" "micro st' u = None" for u
    using shapeD(2,3) [OF st'(2), of u] s(3) by auto
  have "S' k = []" if "k \<in> set ks" for k
    using shapeD(4) [OF st'(2) that] t(1) by (cases "S' k") auto
  then have "list_nodes (Owner k) (heap st') = Some []" if "k \<in> set ks" for k
    using list_nodes_dlist [OF shape_owner [OF st'(2) that]] that by simp
  then show ?thesis using s(1) st'(1) t by (auto simp: destroy_timer_def fun_eq_iff)
qed

theorem destroy_timer_frees_all_witness:
  "\<exists>st'. destroy_timer two_timers = Some st' \<and> tmr st' = (\<lambda>_. None)"
  using destroy_timer_frees_all [OF two_timers_reach(1)] by auto



definition moving_callback :: "unit callbacks" where
  "moving_callback f own dat st = map_option (\<lambda>s. (0, s)) (mod_expire_time 1 100 st)"

definition two_due_timers :: "unit timers option" where
  "two_due_timers = Option.bind (exec_op (\<lambda>_ _ _ w. (0, w)) (AddEvent 0 7 (Some 3) 70 1 11 timer_add_new_timer)
      (start_timers [7] (Timeval 11 0) ())) (exec_op (\<lambda>_ _ _ w. (0, w)) (AddEvent 1 7 (Some 4) 70 2 12 timer_add_new_timer))"

lemma two_due: "\<not> Option.is_none two_due_timers"
  by code_simp

lemma scan_stuck: "scan_seconds_timer moving_callback (the two_due_timers) = None"
  apply code_simp
  apply (subst list_for_each_safe_from.simps, code_simp)+
  done

text \<open>
  The scan saves the next timer before it calls a callback. A callback that reschedules
  just that timer (here timer 1, from the callback of timer 0) moves it to another bucket,
  the loop follows it there, and takes that bucket's head for a timer: the scan of two due
  timers has no result.
\<close>

theorem scan_leaves_its_bucket:
  "\<exists>st. two_due_timers = Some st \<and> scan_seconds_timer moving_callback st = None"
proof -
  from two_due obtain st where "two_due_timers = Some st" by (cases two_due_timers) (simp only: Option.is_none_simps simp_thms, blast)
  with scan_stuck show ?thesis by (metis option.sel)
qed


end
