(* ===== verification/HashTable.thy ===== *)
theory HashTable
  imports Prelude
begin

text \<open>
  \<open>attr_api/hash_table.h\<close> and \<open>attr_api/hash_table.c\<close>: a hash table over one block of
  memory, a sequence of rows of nodes with a modulus for each row. A key has one candidate
  node in every row. The table stores nothing itself: \<open>compare\<close> tells whether a node holds
  a key, in the memory \<open>'m\<close> it is given, and the caller fills in the nodes. Pointers and
  \<open>size_t\<close> are 64-bit words, the null pointer is 0. \<open>None\<close> is an access outside an array, a
  call of the null \<open>compare\<close>, a division by a modulus of 0, or a \<open>compare\<close> that itself goes wrong.
\<close>

section \<open>The table\<close>

definition HASH_MAX_ROW :: u32 where "HASH_MAX_ROW = 100"

record ('k, 'm) hash_table =
  table :: u64
  node_size :: u64
  total_node_num :: u32
  row_num :: u32
  nodes_num :: "u32 list"
  mods :: "u32 list"
  row_nodes_size :: "u64 list"
  row_starts :: "u64 list"
  compare :: "('k \<Rightarrow> u64 \<Rightarrow> 'm \<Rightarrow> int option) option"

definition calc_hash_table_size :: "u64 \<Rightarrow> u32 \<Rightarrow> u32 list \<Rightarrow> u64 option" where
  "calc_hash_table_size node_sz rows nodes =
     (if rows > HASH_MAX_ROW then Some 0
      else if length nodes < unat rows then None
      else Some (node_sz * ucast (fold (\<lambda>n tot. tot + n) (take (unat rows) nodes) 0)))"

text \<open>
  One turn of the loop of \<open>hash_table_init\<close> on the node counts and moduli the caller
  passes; \<open>Inl\<close> is a return of -1, with what has been written to the structure by then.
\<close>

definition init_row ::
  "u32 list \<Rightarrow> u32 list \<Rightarrow> nat \<Rightarrow> ('k, 'm) hash_table \<times> u32 \<Rightarrow> ('k, 'm) hash_table + ('k, 'm) hash_table \<times> u32" where
  "init_row ns ms i = (\<lambda>(ht, count).
     if ms ! i > ns ! i then Inl ht
     else
       let ht = ht\<lparr>nodes_num := (nodes_num ht)[i := ns ! i]\<rparr> in
       if ns ! i = 0 then Inl ht
       else
         let ht = ht\<lparr>mods := (mods ht)[i := ms ! i]\<rparr> in
         if ms ! i = 0 then Inl ht
         else
           let ht = ht\<lparr>row_nodes_size := (row_nodes_size ht)[i := node_size ht * ucast (ns ! i)]\<rparr>;
               row = (if i = 0 then table ht else row_starts ht ! (i - 1) + row_nodes_size ht ! (i - 1))
           in Inr (ht\<lparr>row_starts := (row_starts ht)[i := row]\<rparr>, count + ns ! i))"

fun init_rows ::
  "u32 list \<Rightarrow> u32 list \<Rightarrow> nat list \<Rightarrow> ('k, 'm) hash_table \<times> u32 \<Rightarrow> ('k, 'm) hash_table + ('k, 'm) hash_table \<times> u32" where
  "init_rows ns ms [] s = Inr s"
| "init_rows ns ms (i # is') s = (case init_row ns ms i s of Inl ht \<Rightarrow> Inl ht | Inr s' \<Rightarrow> init_rows ns ms is' s')"

text \<open>The structure to fill in is an argument: its arrays have \<open>HASH_MAX_ROW\<close> entries.\<close>

definition hash_table_init ::
  "('k, 'm) hash_table \<Rightarrow> u64 \<Rightarrow> u64 \<Rightarrow> u64 \<Rightarrow> u32 \<Rightarrow> u32 list \<Rightarrow> u32 list \<Rightarrow>
   ('k \<Rightarrow> u64 \<Rightarrow> 'm \<Rightarrow> int option) option \<Rightarrow> (int \<times> ('k, 'm) hash_table) option" where
  "hash_table_init ht tab table_size node_sz rows ns ms cmp =
     (let ht = ht\<lparr>compare := cmp\<rparr> in if cmp = None then Some (-1, ht) else
      let ht = ht\<lparr>table := tab\<rparr> in if tab = 0 then Some (-1, ht) else
      let ht = ht\<lparr>node_size := node_sz\<rparr> in if node_sz = 0 then Some (-1, ht) else
      let ht = ht\<lparr>row_num := rows\<rparr> in if rows = 0 then Some (-1, ht) else
      if rows > HASH_MAX_ROW then Some (-1, ht)
      else if length ns < unat rows \<or> length ms < unat rows then None
      else case init_rows ns ms [0..<unat rows] (ht, 0) of
        Inl ht \<Rightarrow> Some (-1, ht)
      | Inr (ht, count) \<Rightarrow>
          if table_size \<noteq> node_sz * ucast count then Some (-1, ht)
          else Some (0, ht\<lparr>total_node_num := count\<rparr>))"

section \<open>Looking up\<close>

definition call_compare :: "('k, 'm) hash_table \<Rightarrow> 'k \<Rightarrow> u64 \<Rightarrow> 'm \<Rightarrow> int option" where
  "call_compare ht k node m = Option.bind (compare ht) (\<lambda>f. f k node m)"

text \<open>The candidate node of a short key in row \<open>i\<close>.\<close>

definition col_of :: "('k, 'm) hash_table \<Rightarrow> u32 \<Rightarrow> nat \<Rightarrow> u32" where
  "col_of ht short_key i = short_key mod mods ht ! i"

definition node_of :: "('k, 'm) hash_table \<Rightarrow> u32 \<Rightarrow> nat \<Rightarrow> u64" where
  "node_of ht short_key i = row_starts ht ! i + node_size ht * ucast (col_of ht short_key i)"

fun lookup_rows :: "('k, 'm) hash_table \<Rightarrow> 'k \<Rightarrow> u32 \<Rightarrow> 'm \<Rightarrow> nat list \<Rightarrow> (nat \<times> u64) option option" where
  "lookup_rows ht k sk m [] = Some None"
| "lookup_rows ht k sk m (i # is') =
     (if mods ht ! i = 0 then None
      else do {
        c \<leftarrow> call_compare ht k (node_of ht sk i) m;
        if c = 0 then Some (Some (i, node_of ht sk i)) else lookup_rows ht k sk m is' })"

definition hash_table_lookup_node :: "('k, 'm) hash_table \<Rightarrow> 'k \<Rightarrow> u32 \<Rightarrow> 'm \<Rightarrow> u64 option" where
  "hash_table_lookup_node ht k sk m =
     map_option (\<lambda>r. case r of None \<Rightarrow> 0 | Some (i, node) \<Rightarrow> node) (lookup_rows ht k sk m [0..<unat (row_num ht)])"

text \<open>The position is stored only when the key is found.\<close>

definition hash_table_lookup_node_posinfo ::
  "('k, 'm) hash_table \<Rightarrow> 'k \<Rightarrow> u32 \<Rightarrow> 'm \<Rightarrow> u32 \<times> u32 \<Rightarrow> (u64 \<times> u32 \<times> u32) option" where
  "hash_table_lookup_node_posinfo ht k sk m pos =
     map_option (\<lambda>r. case r of None \<Rightarrow> (0, pos) | Some (i, node) \<Rightarrow> (node, of_nat i, col_of ht sk i))
       (lookup_rows ht k sk m [0..<unat (row_num ht)])"

text \<open>
  The lookup that also remembers the first empty node: \<open>e\<close> is that node with its row, if one has
  been seen. The boolean says whether 1 is stored through \<open>exist\<close>.
\<close>

fun lookup_rows_ex ::
  "('k, 'm) hash_table \<Rightarrow> 'k \<Rightarrow> 'k \<Rightarrow> u32 \<Rightarrow> 'm \<Rightarrow> nat list \<Rightarrow> (nat \<times> u64) option \<Rightarrow> ((nat \<times> u64) option \<times> bool) option" where
  "lookup_rows_ex ht ek k sk m [] e = Some (e, False)"
| "lookup_rows_ex ht ek k sk m (i # is') e =
     (if mods ht ! i = 0 then None
      else do {
        c \<leftarrow> call_compare ht k (node_of ht sk i) m;
        if c = 0 then Some (Some (i, node_of ht sk i), True)
        else if e = None then do {
          d \<leftarrow> call_compare ht ek (node_of ht sk i) m;
          lookup_rows_ex ht ek k sk m is' (if d = 0 then Some (i, node_of ht sk i) else None) }
        else lookup_rows_ex ht ek k sk m is' e })"

definition hash_table_lookup_node_ex ::
  "('k, 'm) hash_table \<Rightarrow> 'k \<Rightarrow> 'k \<Rightarrow> u32 \<Rightarrow> 'm \<Rightarrow> (u64 \<times> bool) option" where
  "hash_table_lookup_node_ex ht ek k sk m =
     map_option (\<lambda>(e, exist). (case e of None \<Rightarrow> 0 | Some (i, node) \<Rightarrow> node, exist))
       (lookup_rows_ex ht ek k sk m [0..<unat (row_num ht)] None)"

text \<open>\<open>junk\<close> is what the uninitialised variables \<open>erow\<close> and \<open>ecol\<close> hold.\<close>

definition hash_table_lookup_node_ex_posinfo ::
  "u32 \<times> u32 \<Rightarrow> ('k, 'm) hash_table \<Rightarrow> 'k \<Rightarrow> 'k \<Rightarrow> u32 \<Rightarrow> 'm \<Rightarrow> (u64 \<times> bool \<times> u32 \<times> u32) option" where
  "hash_table_lookup_node_ex_posinfo junk ht ek k sk m =
     map_option (\<lambda>(e, exist). case e of None \<Rightarrow> (0, exist, junk) | Some (i, node) \<Rightarrow> (node, exist, of_nat i, col_of ht sk i))
       (lookup_rows_ex ht ek k sk m [0..<unat (row_num ht)] None)"

section \<open>Walking through the table\<close>

definition hash_table_get_node :: "('k, 'm) hash_table \<Rightarrow> u32 \<Rightarrow> u32 \<Rightarrow> u64" where
  "hash_table_get_node ht row_idx col_idx =
     (if row_idx \<ge> row_num ht \<or> col_idx \<ge> nodes_num ht ! unat row_idx then 0
      else row_starts ht ! unat row_idx + node_size ht * ucast col_idx)"

definition hash_table_walk :: "('k, 'm) hash_table \<Rightarrow> u32 \<Rightarrow> u32 \<Rightarrow> u64 \<times> u32 \<times> u32" where
  "hash_table_walk ht row_idx col_idx =
     (let node = hash_table_get_node ht row_idx col_idx in
      if node = 0 then (0, row_idx, col_idx)
      else if col_idx + 1 \<ge> nodes_num ht ! unat row_idx then (node, row_idx + 1, 0)
      else (node, row_idx, col_idx + 1))"

text \<open>The loop of a caller that walks from the first node until there is none left.\<close>

partial_function (option) walk_from :: "('k, 'm) hash_table \<Rightarrow> u32 \<Rightarrow> u32 \<Rightarrow> u64 list option" where
  "walk_from ht r c =
     (case hash_table_walk ht r c of (node, r', c') \<Rightarrow>
        if node = 0 then Some [] else do { ps \<leftarrow> walk_from ht r' c'; Some (node # ps) })"


section \<open>Layout\<close>

text \<open>The number of nodes before row \<open>i\<close>.\<close>

definition row_base :: "u32 list \<Rightarrow> nat \<Rightarrow> nat" where
  "row_base ns i = (\<Sum>j<i. unat (ns ! j))"

lemma row_base_simps [simp]: "row_base ns 0 = 0" "row_base ns (Suc i) = row_base ns i + unat (ns ! i)"
  by (simp_all add: row_base_def)

lemma row_base_mono: "i \<le> j \<Longrightarrow> row_base ns i \<le> row_base ns j"
  unfolding row_base_def by (rule sum_mono2) auto

definition row_ok :: "u32 list \<Rightarrow> u32 list \<Rightarrow> nat \<Rightarrow> bool" where
  "row_ok ns ms i \<longleftrightarrow> ns ! i \<noteq> 0 \<and> ms ! i \<noteq> 0 \<and> ms ! i \<le> ns ! i"

definition arrays_ok :: "('k, 'm) hash_table \<Rightarrow> bool" where
  "arrays_ok ht \<longleftrightarrow> length (nodes_num ht) = 100 \<and> length (mods ht) = 100 \<and>
     length (row_nodes_size ht) = 100 \<and> length (row_starts ht) = 100"

definition rows_set :: "u32 list \<Rightarrow> u32 list \<Rightarrow> nat \<Rightarrow> ('k, 'm) hash_table \<Rightarrow> bool" where
  "rows_set ns ms n ht \<longleftrightarrow> arrays_ok ht \<and>
     (\<forall>j<n. nodes_num ht ! j = ns ! j \<and> mods ht ! j = ms ! j \<and> row_ok ns ms j \<and>
        row_nodes_size ht ! j = node_size ht * of_nat (unat (ns ! j)) \<and>
        row_starts ht ! j = table ht + node_size ht * of_nat (row_base ns j))"

definition same_frame :: "('k, 'm) hash_table \<Rightarrow> ('k, 'm) hash_table \<Rightarrow> bool" where
  "same_frame ht ht' \<longleftrightarrow> table ht' = table ht \<and> node_size ht' = node_size ht \<and> row_num ht' = row_num ht \<and>
     compare ht' = compare ht"

lemma init_row_ok:
  assumes "rows_set ns ms i ht" "i < 100" "row_ok ns ms i"
  shows "\<exists>ht'. init_row ns ms i (ht, of_nat (row_base ns i)) = Inr (ht', of_nat (row_base ns (Suc i))) \<and>
    rows_set ns ms (Suc i) ht' \<and> same_frame ht ht'"
proof -
  let ?row = "if i = 0 then table ht else row_starts ht ! (i - 1) + row_nodes_size ht ! (i - 1)"
  let ?ht = "ht\<lparr>nodes_num := (nodes_num ht)[i := ns ! i], mods := (mods ht)[i := ms ! i],
    row_nodes_size := (row_nodes_size ht)[i := node_size ht * ucast (ns ! i)],
    row_starts := (row_starts ht)[i := ?row]\<rparr>"
  have len: "arrays_ok ht" using assms(1) by (simp add: rows_set_def)
  have row: "?row = table ht + node_size ht * of_nat (row_base ns i)"
  proof (cases i)
    case (Suc j)
    then have "row_starts ht ! j = table ht + node_size ht * of_nat (row_base ns j)"
      "row_nodes_size ht ! j = node_size ht * of_nat (unat (ns ! j))"
      using assms(1) by (auto simp: rows_set_def)
    then show ?thesis by (simp add: Suc algebra_simps)
  qed simp
  have "init_row ns ms i (ht, of_nat (row_base ns i)) = Inr (?ht, of_nat (row_base ns (Suc i)))"
    using assms(2,3) len by (auto simp: init_row_def row_ok_def arrays_ok_def Let_def nth_list_update)
  moreover have "rows_set ns ms (Suc i) ?ht"
    using assms len row by (auto simp: rows_set_def arrays_ok_def less_Suc_eq nth_list_update unsigned_ucast_eq)
  moreover have "same_frame ht ?ht" by (simp add: same_frame_def)
  ultimately show ?thesis by blast
qed

lemma init_row_bad: "\<not> row_ok ns ms i \<Longrightarrow> \<exists>ht'. init_row ns ms i (ht, c) = Inl ht'"
  by (auto simp: init_row_def row_ok_def Let_def not_le)

lemma same_frame_trans: "same_frame a b \<Longrightarrow> same_frame b c \<Longrightarrow> same_frame a c"
  by (simp add: same_frame_def)

lemma init_rows_spec:
  assumes "rows_set ns ms i ht" "i \<le> n" "n \<le> 100"
  shows "if \<forall>j \<in> {i..<n}. row_ok ns ms j
    then \<exists>ht'. init_rows ns ms [i..<n] (ht, of_nat (row_base ns i)) = Inr (ht', of_nat (row_base ns n)) \<and>
      rows_set ns ms n ht' \<and> same_frame ht ht'
    else \<exists>ht'. init_rows ns ms [i..<n] (ht, of_nat (row_base ns i)) = Inl ht'"
  using assms
proof (induction "n - i" arbitrary: i ht)
  case 0
  then show ?case by (simp add: same_frame_def)
next
  case (Suc d)
  then have u: "[i..<n] = i # [Suc i..<n]" and i: "i < n" by (simp_all add: upt_rec)
  show ?case
  proof (cases "row_ok ns ms i")
    case True
    from init_row_ok [OF Suc.prems(1) _ True] i Suc.prems obtain ht' where
      r: "init_row ns ms i (ht, of_nat (row_base ns i)) = Inr (ht', of_nat (row_base ns (Suc i)))"
      "rows_set ns ms (Suc i) ht'" "same_frame ht ht'" by (meson order_less_le_trans)
    have d: "d = n - Suc i" using Suc.hyps(2) by simp
    have iff: "(\<forall>j \<in> {i..<n}. row_ok ns ms j) \<longleftrightarrow> (\<forall>j \<in> {Suc i..<n}. row_ok ns ms j)"
      using True i by (metis atLeastLessThan_iff le_eq_less_or_eq Suc_le_eq)
    have e: "init_rows ns ms [i..<n] (ht, of_nat (row_base ns i)) =
      init_rows ns ms [Suc i..<n] (ht', of_nat (row_base ns (Suc i)))" by (simp add: u r(1) del: row_base_simps)
    show ?thesis unfolding iff e
      using Suc.hyps(1) [OF d r(2)] i Suc.prems(3) same_frame_trans [OF r(3)]
      by (auto simp del: row_base_simps split: if_split_asm)
  next
    case False
    then show ?thesis using init_row_bad [OF False, of ht "of_nat (row_base ns i)"] i by (force simp: u)
  qed
qed

text \<open>What a successful initialisation has built.\<close>

definition laid_out :: "u64 \<Rightarrow> u64 \<Rightarrow> nat \<Rightarrow> u32 list \<Rightarrow> u32 list \<Rightarrow> ('k, 'm) hash_table \<Rightarrow> bool" where
  "laid_out tab sz n ns ms ht \<longleftrightarrow> rows_set ns ms n ht \<and> table ht = tab \<and> node_size ht = sz \<and> tab \<noteq> 0 \<and> sz \<noteq> 0 \<and>
     unat (row_num ht) = n \<and> 0 < n \<and> n \<le> 100 \<and> total_node_num ht = of_nat (row_base ns n)"

lemma hash_table_init_iff:
  assumes "arrays_ok ht" "unat rows \<le> length ns" "unat rows \<le> length ms"
  shows "\<exists>r ht'. hash_table_init ht tab table_size sz rows ns ms cmp = Some (r, ht') \<and>
    (if cmp \<noteq> None \<and> tab \<noteq> 0 \<and> sz \<noteq> 0 \<and> 0 < unat rows \<and> unat rows \<le> 100 \<and>
        (\<forall>j < unat rows. row_ok ns ms j) \<and> table_size = sz * ucast (of_nat (row_base ns (unat rows)) :: u32)
     then r = 0 \<and> laid_out tab sz (unat rows) ns ms ht' \<and> compare ht' = cmp else r = -1)"
proof (cases "cmp \<noteq> None \<and> tab \<noteq> 0 \<and> sz \<noteq> 0 \<and> 0 < unat rows \<and> unat rows \<le> 100")
  case True
  let ?ht = "ht\<lparr>compare := cmp, table := tab, node_size := sz, row_num := rows\<rparr>"
  have rs: "rows_set ns ms 0 ?ht" using assms(1) by (simp add: rows_set_def arrays_ok_def)
  have rows: "rows \<noteq> 0" "\<not> rows > HASH_MAX_ROW" using True by (auto simp: HASH_MAX_ROW_def word_less_nat_alt)
  have h: "hash_table_init ht tab table_size sz rows ns ms cmp =
    (case init_rows ns ms [0..<unat rows] (?ht, 0) of Inl ht \<Rightarrow> Some (-1, ht)
      | Inr (ht, count) \<Rightarrow> if table_size \<noteq> sz * ucast count then Some (-1, ht) else Some (0, ht\<lparr>total_node_num := count\<rparr>))"
    using True rows assms by (auto simp add: hash_table_init_def Let_def)
  have spec: "if \<forall>j < unat rows. row_ok ns ms j
    then \<exists>ht'. init_rows ns ms [0..<unat rows] (?ht, 0) = Inr (ht', of_nat (row_base ns (unat rows))) \<and>
      rows_set ns ms (unat rows) ht' \<and> same_frame ?ht ht'
    else \<exists>ht'. init_rows ns ms [0..<unat rows] (?ht, 0) = Inl ht'"
    using init_rows_spec [OF rs, of "unat rows"] True by (simp add: Ball_def cong del: if_weak_cong)
  show ?thesis
  proof (cases "\<forall>j < unat rows. row_ok ns ms j")
    case ok: True
    with spec obtain ht' where i: "init_rows ns ms [0..<unat rows] (?ht, 0) = Inr (ht', of_nat (row_base ns (unat rows)))"
      "rows_set ns ms (unat rows) ht'" "same_frame ?ht ht'" by auto
    have "laid_out tab sz (unat rows) ns ms (ht'\<lparr>total_node_num := of_nat (row_base ns (unat rows))\<rparr>)"
      using i(2,3) True by (auto simp: laid_out_def rows_set_def arrays_ok_def same_frame_def)
    then show ?thesis using i ok True unfolding h by (simp add: same_frame_def)
  next
    case False
    with spec show ?thesis unfolding h by auto
  qed
next
  case False
  then show ?thesis using assms
    by (auto simp: hash_table_init_def Let_def HASH_MAX_ROW_def word_less_nat_alt unat_gt_0)
qed

section \<open>Nodes of a laid-out table\<close>

lemma laid_outD:
  assumes "laid_out tab sz n ns ms ht" "i < n"
  shows "nodes_num ht ! i = ns ! i" "mods ht ! i = ms ! i" "row_ok ns ms i" "mods ht ! i \<noteq> 0"
    "row_starts ht ! i = tab + sz * of_nat (row_base ns i)" "node_size ht = sz"
  using assms by (auto simp: laid_out_def rows_set_def row_ok_def)

text \<open>The candidate of a short key in row \<open>i\<close> is node number \<open>node_index\<close> of the table.\<close>

definition node_index :: "u32 list \<Rightarrow> u32 list \<Rightarrow> u32 \<Rightarrow> nat \<Rightarrow> nat" where
  "node_index ns ms sk i = row_base ns i + unat (sk mod ms ! i)"

lemma node_of_index:
  assumes "laid_out tab sz n ns ms ht" "i < n"
  shows "node_of ht sk i = tab + sz * of_nat (node_index ns ms sk i)"
proof -
  note laid_outD [OF assms, simp]
  have "(ucast (sk mod ms ! i) :: u64) = of_nat (unat (sk mod ms ! i))" by (simp add: unsigned_ucast_eq)
  then show ?thesis by (simp add: node_of_def col_of_def node_index_def algebra_simps)
qed

lemma mod_less_row: "row_ok ns ms i \<Longrightarrow> unat (sk mod ms ! i) < unat (ns ! i)"
  unfolding row_ok_def by (metis order_less_le_trans unat_mod_distrib word_le_nat_alt mod_less_divisor unat_gt_0)

lemma node_index_bounds:
  assumes "row_ok ns ms i" "i < n"
  shows "row_base ns i \<le> node_index ns ms sk i" "node_index ns ms sk i < row_base ns (Suc i)"
    "node_index ns ms sk i < row_base ns n"
  using mod_less_row [OF assms(1), of sk] row_base_mono [of "Suc i" n ns] assms(2)
  by (auto simp: node_index_def)

lemma node_index_distinct:
  assumes "\<forall>j<n. row_ok ns ms j"
  shows "distinct (map (node_index ns ms sk) [0..<n])"
proof -
  have "node_index ns ms sk i < node_index ns ms sk j" if "i < j" "j < n" for i j
  proof -
    have "node_index ns ms sk i < row_base ns (Suc i)" using node_index_bounds(2) [of ns ms i n] assms that by simp
    also have "\<dots> \<le> row_base ns j" using that by (intro row_base_mono) simp
    also have "\<dots> \<le> node_index ns ms sk j" by (simp add: node_index_def)
    finally show ?thesis .
  qed
  then have "inj_on (node_index ns ms sk) {0..<n}"
    by (intro inj_onI) (metis atLeastLessThan_iff linorder_neqE_nat order_less_irrefl)
  then show ?thesis by (simp add: distinct_map)
qed

lemma unat_node:
  fixes tab sz :: u64
  assumes "unat tab + unat sz * N \<le> 2 ^ 64" "sz \<noteq> 0" "k < N"
  shows "unat (tab + sz * of_nat k) = unat tab + unat sz * k"
    "unat tab + unat sz * k + unat sz \<le> unat tab + unat sz * N"
proof -
  have s: "unat sz * k + unat sz \<le> unat sz * N"
    using assms(3) by (metis Suc_leI mult_Suc_right add.commute mult_le_mono2)
  then show "unat tab + unat sz * k + unat sz \<le> unat tab + unat sz * N" by simp
  have p: "0 < unat sz" using assms(2) by (simp add: unat_gt_0)
  then have lt: "unat tab + unat sz * k < 2 ^ 64" using s assms(1) by linarith
  have "tab + sz * of_nat k = of_nat (unat tab + unat sz * k)" by simp
  then show "unat (tab + sz * of_nat k) = unat tab + unat sz * k"
    using unat_of_nat_u64 [OF lt] by (simp only:)
qed

lemma hash_table_init_laid_out:
  assumes "hash_table_init ht tab table_size sz rows ns ms cmp = Some (0, ht')" "arrays_ok ht"
  shows "laid_out tab sz (unat rows) ns ms ht'" "table_size = sz * ucast (of_nat (row_base ns (unat rows)) :: u32)"
    "compare ht' = cmp"
proof -
  have "unat rows \<le> length ns" "unat rows \<le> length ms"
    using assms(1) by (auto simp: hash_table_init_def Let_def HASH_MAX_ROW_def split: if_split_asm)
  from hash_table_init_iff [OF assms(2) this, of tab table_size sz cmp] assms(1)
  show "laid_out tab sz (unat rows) ns ms ht'" "table_size = sz * ucast (of_nat (row_base ns (unat rows)) :: u32)"
    "compare ht' = cmp" by (auto split: if_split_asm)
qed

text \<open>
  C30: whatever the short key, the node a lookup inspects in each row is a whole node of the
  block the table was initialised with, provided the node counts do not overflow their 32-bit
  sum and the block does not wrap around the address space.
\<close>

theorem hash_table_in_bounds:
  assumes "hash_table_init ht tab table_size sz rows ns ms cmp = Some (0, ht')" "arrays_ok ht"
    and "row_base ns (unat rows) < 2 ^ 32" "unat tab + unat sz * row_base ns (unat rows) \<le> 2 ^ 64"
    and "i < unat rows"
  shows "unat tab \<le> unat (node_of ht' sk i) \<and> unat (node_of ht' sk i) + unat sz \<le> unat tab + unat table_size \<and>
    (unat (node_of ht' sk i) - unat tab) mod unat sz = 0"
proof -
  note ok = hash_table_init_laid_out [OF assms(1,2)]
  let ?t = "row_base ns (unat rows)" and ?k = "node_index ns ms sk i"
  have z: "sz \<noteq> 0" "tab \<noteq> 0" using ok(1) by (simp_all add: laid_out_def)
  have "(ucast (of_nat ?t :: u32) :: u64) = of_nat ?t" using assms(3) by (simp add: ucast_of_nat_64)
  then have t: "table_size = of_nat (unat sz * ?t)" by (simp add: ok(2))
  have "unat sz * ?t < 2 ^ 64" using assms(4) z(2) unat_gt_0 [of tab] by linarith
  then have ts: "unat table_size = unat sz * ?t" unfolding t by (rule unat_of_nat_u64)
  have k: "?k < ?t" using node_index_bounds(3) [OF laid_outD(3) [OF ok(1) assms(5)] assms(5)] .
  from unat_node [OF assms(4) z(1) k] show ?thesis
    unfolding node_of_index [OF ok(1) assms(5)] ts by simp
qed

section \<open>Walking\<close>

lemma unat_of_row: "r \<le> 100 \<Longrightarrow> unat (of_nat r :: u32) = r"
  by (rule unat_of_nat_small) simp

lemma walk_node:
  assumes lo: "laid_out tab sz n ns ms ht" and fit: "unat tab + unat sz * row_base ns n \<le> 2 ^ 64"
    and r: "r < n" and c: "c < unat (ns ! r)"
  shows "hash_table_walk ht (of_nat r) (of_nat c) =
    (tab + sz * of_nat (row_base ns r + c),
     if Suc c < unat (ns ! r) then (of_nat r, of_nat (Suc c)) else (of_nat (Suc r), 0))"
    and "tab + sz * of_nat (row_base ns r + c) \<noteq> 0"
proof -
  note D = laid_outD [OF lo r]
  have n: "n \<le> 100" "unat (row_num ht) = n" "tab \<noteq> 0" "sz \<noteq> 0" using lo by (auto simp: laid_out_def)
  have ur: "unat (of_nat r :: u32) = r" using r n(1) by (simp add: unat_of_row)
  have c32: "Suc c < 4294967296" using c unat_u32_bound [of "ns ! r"] by linarith
  then have uc: "unat (of_nat c :: u32) = c" "unat (of_nat (Suc c) :: u32) = Suc c"
    by (simp_all add: unat_of_nat_small del: of_nat_Suc)
  have k: "row_base ns r + c < row_base ns n" using c row_base_mono [of "Suc r" n ns] r by simp
  show nz: "tab + sz * of_nat (row_base ns r + c) \<noteq> 0"
  proof
    assume "tab + sz * of_nat (row_base ns r + c) = 0"
    then have "unat tab + unat sz * (row_base ns r + c) = 0" using unat_node(1) [OF fit n(4) k] by simp
    then show False using n(3) by (simp add: unat_eq_0)
  qed
  have g: "hash_table_get_node ht (of_nat r) (of_nat c) = tab + sz * of_nat (row_base ns r + c)"
    using r c c32 by (simp add: hash_table_get_node_def word_le_nat_alt n ur uc D ucast_of_nat_64 algebra_simps)
  have s: "(of_nat c + 1 :: u32) = of_nat (Suc c)" "(of_nat r + 1 :: u32) = of_nat (Suc r)" by simp_all
  have le: "of_nat (Suc c) \<ge> ns ! r \<longleftrightarrow> \<not> Suc c < unat (ns ! r)" by (simp only: word_le_nat_alt uc not_less)
  show "hash_table_walk ht (of_nat r) (of_nat c) =
    (tab + sz * of_nat (row_base ns r + c),
     if Suc c < unat (ns ! r) then (of_nat r, of_nat (Suc c)) else (of_nat (Suc r), 0))"
    unfolding hash_table_walk_def g s Let_def ur D(1) le using nz by (simp only: if_False simp_thms split: if_split) simp
qed

lemma walk_end: "laid_out tab sz n ns ms ht \<Longrightarrow> hash_table_walk ht (of_nat n) 0 = (0, of_nat n, 0)"
  by (auto simp: hash_table_walk_def hash_table_get_node_def laid_out_def word_le_nat_alt unat_of_row)

lemma walk_from_node:
  assumes lo: "laid_out tab sz n ns ms ht" and fit: "unat tab + unat sz * row_base ns n \<le> 2 ^ 64"
  shows "r < n \<Longrightarrow> c < unat (ns ! r) \<Longrightarrow>
    walk_from ht (of_nat r) (of_nat c) = Some (map (\<lambda>k. tab + sz * of_nat k) [row_base ns r + c..<row_base ns n])"
proof (induction "row_base ns n - (row_base ns r + c)" arbitrary: r c rule: less_induct)
  case less
  let ?k = "row_base ns r + c"
  have k: "?k < row_base ns n" using less.prems row_base_mono [of "Suc r" n ns] by simp
  have rest: "(if Suc c < unat (ns ! r) then walk_from ht (of_nat r) (of_nat (Suc c)) else walk_from ht (of_nat (Suc r)) 0) =
    Some (map (\<lambda>k. tab + sz * of_nat k) [Suc ?k..<row_base ns n])"
  proof (cases "Suc c < unat (ns ! r)")
    case True
    then show ?thesis using less.hyps [of r "Suc c"] k less.prems(1) by (simp del: of_nat_Suc)
  next
    case False
    then have e: "Suc ?k = row_base ns (Suc r)" using less.prems(2) by simp
    show ?thesis
    proof (cases "Suc r < n")
      case True
      then have "0 < unat (ns ! Suc r)" using laid_outD(3) [OF lo True] by (simp add: row_ok_def unat_gt_0)
      then show ?thesis using less.hyps [of "Suc r" 0] k True False e by (simp del: of_nat_Suc row_base_simps(2))
    next
      case last_row: False
      then have "Suc r = n" using less.prems(1) by simp
      then show ?thesis using walk_end [OF lo] False e by (simp add: walk_from.simps [of ht "of_nat n" 0] del: of_nat_Suc row_base_simps(2))
    qed
  qed
  show ?case
    using rest walk_node [OF lo fit less.prems] k
    by (simp add: walk_from.simps [of ht "of_nat r"] upt_rec [of ?k] del: of_nat_Suc split: if_split_asm)
qed

text \<open>
  C32: a caller that walks an initialised table from its first node meets every node of the
  block, each once and in the order of their addresses, and the walk ends.
\<close>

theorem hash_table_walk_visits_all:
  assumes "hash_table_init ht tab table_size sz rows ns ms cmp = Some (0, ht')" "arrays_ok ht"
    and "unat tab + unat sz * row_base ns (unat rows) \<le> 2 ^ 64"
  shows "walk_from ht' 0 0 = Some (map (\<lambda>k. tab + sz * of_nat k) [0..<row_base ns (unat rows)])"
proof -
  have lo: "laid_out tab sz (unat rows) ns ms ht'" using hash_table_init_laid_out [OF assms(1,2)] by simp
  then have "0 < unat rows" by (simp add: laid_out_def)
  moreover from this have "0 < unat (ns ! 0)" using laid_outD(3) [OF lo] by (auto simp: row_ok_def unat_gt_0)
  ultimately show ?thesis using walk_from_node [OF lo assms(3), of 0 0] by simp
qed

section \<open>Lookups as searches\<close>

text \<open>
  When \<open>compare\<close> goes well on every candidate, the lookups are searches through the rows for
  the first candidate that holds the key and for the first empty one.
\<close>

lemma lookup_rows_find:
  assumes "\<And>i. i \<in> set is' \<Longrightarrow> mods ht ! i \<noteq> 0"
    and "\<And>i. i \<in> set is' \<Longrightarrow> call_compare ht k (node_of ht sk i) m = Some (if P i then 0 else 1)"
  shows "lookup_rows ht k sk m is' = Some (map_option (\<lambda>i. (i, node_of ht sk i)) (find P is'))"
  using assms by (induction is') auto

lemma lookup_rows_ex_find:
  assumes "\<And>i. i \<in> set is' \<Longrightarrow> mods ht ! i \<noteq> 0"
    and "\<And>i. i \<in> set is' \<Longrightarrow> call_compare ht k (node_of ht sk i) m = Some (if P i then 0 else 1)"
    and "\<And>i. i \<in> set is' \<Longrightarrow> call_compare ht ek (node_of ht sk i) m = Some (if E i then 0 else 1)"
  shows "lookup_rows_ex ht ek k sk m is' e =
    Some (case find P is' of Some i \<Rightarrow> (Some (i, node_of ht sk i), True)
      | None \<Rightarrow> (case e of Some x \<Rightarrow> Some x | None \<Rightarrow> map_option (\<lambda>i. (i, node_of ht sk i)) (find E is'), False))"
  using assms by (induction is' arbitrary: e) (auto split: option.splits)

text \<open>The lookups that report a position find the same node as those that do not.\<close>

lemma posinfo_lookup:
  "map_option fst (hash_table_lookup_node_posinfo ht k sk m pos) = hash_table_lookup_node ht k sk m"
  by (auto simp: hash_table_lookup_node_posinfo_def hash_table_lookup_node_def option.map_comp comp_def
      intro!: map_option_cong split: option.splits)

lemma ex_posinfo_lookup:
  "map_option (\<lambda>(node, exist, pos). (node, exist)) (hash_table_lookup_node_ex_posinfo junk ht ek k sk m) =
    hash_table_lookup_node_ex ht ek k sk m"
  by (auto simp: hash_table_lookup_node_ex_posinfo_def hash_table_lookup_node_ex_def option.map_comp comp_def
      intro!: map_option_cong split: option.splits prod.splits)

text \<open>When there is neither the key nor an empty node, the position is uninitialised memory.\<close>

lemma ex_posinfo_uninitialised:
  assumes "hash_table_lookup_node_ex ht ek k sk m = Some (0, False)" "\<And>i. node_of ht sk i \<noteq> 0"
  shows "hash_table_lookup_node_ex_posinfo junk ht ek k sk m = Some (0, False, junk)"
proof -
  have "node \<noteq> 0" if "lookup_rows_ex ht ek k sk m is' e = Some (Some (i, node), x)"
    "\<And>i node. e = Some (i, node) \<Longrightarrow> node \<noteq> 0" for is' e i node x
    using that assms(2)
    by (induction is' arbitrary: e) (auto split: if_splits bind_splits)
  from this [of "[0..<unat (row_num ht)]" None]
  have nz: "lookup_rows_ex ht ek k sk m [0..<unat (row_num ht)] None = Some (Some (i, node), x) \<Longrightarrow> node \<noteq> 0" for i node x
    by blast
  from assms(1) obtain e where e: "lookup_rows_ex ht ek k sk m [0..<unat (row_num ht)] None = Some (e, False)"
    "case e of None \<Rightarrow> True | Some (i, node) \<Rightarrow> node = 0"
    by (auto simp: hash_table_lookup_node_ex_def split: option.splits)
  then have "e = None" using nz by (cases e) auto
  then show ?thesis using e by (simp add: hash_table_lookup_node_ex_posinfo_def)
qed

section \<open>Concrete tables\<close>

definition blank_table :: "('k, 'm) hash_table" where
  "blank_table = \<lparr>table = 0, node_size = 0, total_node_num = 0, row_num = 0, nodes_num = replicate 100 0,
     mods = replicate 100 0, row_nodes_size = replicate 100 0, row_starts = replicate 100 0, compare = None\<rparr>"

lemma blank_arrays_ok [simp]: "arrays_ok blank_table"
  by (simp add: arrays_ok_def blank_table_def)

lemma all_less_2: "(\<forall>j<2. P j) \<longleftrightarrow> P 0 \<and> P (Suc 0)"
  by (auto simp: less_2_cases_iff)

lemma row_base_Cons [simp]: "row_base (n # ns) (Suc i) = unat n + row_base ns i"
  unfolding row_base_def by (subst sum.lessThan_Suc_shift) simp

lemma row_base_2: "row_base [a, b] 2 = unat a + unat b" "row_base [a, b] 1 = unat a"
  using row_base_Cons [of a "[b]" 1] row_base_Cons [of b "[]" 0] row_base_Cons [of a "[b]" 0]
  by (simp_all add: numeral_eq_Suc)

lemma small_table:
  obtains ht where "hash_table_init blank_table 4096 120 24 2 [3, 2] [3, 1] (Some (\<lambda>_ _ _. Some 0)) = Some (0, ht)"
  using hash_table_init_iff [OF blank_arrays_ok, of 2 "[3, 2]" "[3, 1]" 4096 120 24 "Some (\<lambda>_ _ _. Some 0)"]
  by (auto simp: all_less_2 row_ok_def row_base_2 word_le_nat_alt)

theorem hash_table_in_bounds_witness:
  "\<exists>ht. hash_table_init blank_table 4096 120 24 2 [3, 2] [3, 1] (Some (\<lambda>(_ :: nat) _ (_ :: nat). Some 0)) = Some (0, ht) \<and>
    unat (node_of ht 7 1) + 24 \<le> 4096 + 120"
proof -
  obtain ht :: "(nat, nat) hash_table" where
    h: "hash_table_init blank_table 4096 120 24 2 [3, 2] [3, 1] (Some (\<lambda>_ _ _. Some 0)) = Some (0, ht)" by (rule small_table)
  have "row_base [3, 2] 2 = 5" by (simp add: row_base_2)
  then show ?thesis using hash_table_in_bounds [OF h blank_arrays_ok, of 1 7] h by simp
qed

theorem hash_table_walk_visits_all_witness:
  "\<exists>ht. hash_table_init blank_table 4096 120 24 2 [3, 2] [3, 1] (Some (\<lambda>(_ :: nat) _ (_ :: nat). Some 0)) = Some (0, ht) \<and>
    walk_from ht 0 0 = Some [4096, 4120, 4144, 4168, 4192]"
proof -
  obtain ht :: "(nat, nat) hash_table" where
    h: "hash_table_init blank_table 4096 120 24 2 [3, 2] [3, 1] (Some (\<lambda>_ _ _. Some 0)) = Some (0, ht)" by (rule small_table)
  have "row_base [3, 2] 2 = 5" by (simp add: row_base_2)
  then show ?thesis using hash_table_walk_visits_all [OF h blank_arrays_ok] h by (simp add: upt_rec)
qed

text \<open>
  The node counts are added up in 32 bits: a block of one byte passes for a table of more than
  four thousand million nodes, whose second row starts two thousand million bytes past it.
\<close>

theorem hash_table_init_overflow:
  "\<exists>ht. hash_table_init blank_table 4096 1 1 2 [0x80000000, 0x80000001] [1, 1]
      (Some (\<lambda>(_ :: nat) _ (_ :: nat). Some 0)) = Some (0, ht) \<and> node_of ht 0 1 = 4096 + 0x80000000"
proof -
  let ?cmp = "Some (\<lambda>(_ :: nat) _ (_ :: nat). Some 0)"
  have b: "row_base [0x80000000, 0x80000001] 2 = 0x100000001" "row_base [0x80000000, 0x80000001] 1 = 0x80000000"
    by (simp_all add: row_base_2)
  have "\<exists>ht. hash_table_init blank_table 4096 1 1 2 [0x80000000, 0x80000001] [1, 1] ?cmp = Some (0, ht)"
    using hash_table_init_iff [OF blank_arrays_ok, of 2 "[0x80000000, 0x80000001]" "[1, 1]" 4096 1 1 ?cmp]
    by (auto simp: all_less_2 row_ok_def b word_le_nat_alt)
  then obtain ht where h: "hash_table_init blank_table 4096 1 1 2 [0x80000000, 0x80000001] [1, 1] ?cmp = Some (0, ht)" by blast
  from node_of_index [OF hash_table_init_laid_out(1) [OF h blank_arrays_ok], of 1 0]
  have "node_of ht 0 1 = 4096 + 0x80000000" by (simp add: node_index_def b)
  with h show ?thesis by blast
qed

end
