(* ===== verification/Shm.thy ===== *)
theory Shm
  imports Memory
begin

text \<open>
  \<open>attr_api/shm.h\<close> and \<open>attr_api/shm.c\<close>: finding, creating, initialising and attaching
  System V shared-memory segments. A process is its memory, the part of its address space
  that is mapped, and the kernel's state \<open>'k\<close>. The system calls are parameters, collected in
  a record. Sizes and pointers are 64-bit words; \<open>-1\<close> is the failure of \<open>shmat\<close>. The outer
  \<open>None\<close> is an access to memory that is not mapped. Messages are not modelled.
\<close>

section \<open>Processes and system calls\<close>

record 'k process =
  pmem :: memory
  mapped :: "nat \<Rightarrow> bool"
  kern :: 'k

record 'k shm_sys =
  shmget :: "int \<Rightarrow> u64 \<Rightarrow> int \<Rightarrow> 'k \<Rightarrow> int \<times> 'k"
  shmctl_stat :: "int \<Rightarrow> 'k \<Rightarrow> u64 option"
  shmat :: "int \<Rightarrow> 'k process \<Rightarrow> u64 \<times> 'k process"
  shmdt :: "u64 \<Rightarrow> 'k process \<Rightarrow> 'k process"

definition accessible :: "'k process \<Rightarrow> nat \<Rightarrow> nat \<Rightarrow> bool" where
  "accessible p a n = list_all (\<lambda>i. mapped p (a + i)) [0..<n]"

definition write_bytes :: "u64 \<Rightarrow> bytes \<Rightarrow> 'k process \<Rightarrow> 'k process option" where
  "write_bytes a bs p =
     (if accessible p (unat a) (length bs) then Some (p\<lparr>pmem := mem_write (pmem p) (unat a) bs\<rparr>) else None)"

text \<open>\<open>memcpy\<close> of the first \<open>n\<close> bytes of a buffer, which has to be that long.\<close>

definition copy_buffer :: "u64 \<Rightarrow> bytes \<Rightarrow> nat \<Rightarrow> 'k process \<Rightarrow> 'k process option" where
  "copy_buffer a buf n p = (if length buf < n then None else write_bytes a (take n buf) p)"

section \<open>Segments\<close>

datatype create_noexist_opt = create_noexist_no | create_noexist_yes
datatype init_exist_opt = init_exist_no | init_exist_yes

record shm_mgr =
  key :: int
  shmid :: int
  size :: u64
  shm :: u64

text \<open>\<open>None\<close> stands for \<open>get_shm_info_nonexist\<close>.\<close>

definition get_shm_info :: "'k shm_sys \<Rightarrow> int \<Rightarrow> 'k process \<Rightarrow> (int \<times> u64) option \<times> 'k process" where
  "get_shm_info sys k p =
     (case shmget sys k 0 0 (kern p) of (ident, kn) \<Rightarrow>
        let p = p\<lparr>kern := kn\<rparr> in
        if ident = -1 then (None, p)
        else (map_option (\<lambda>sz. (ident, sz)) (shmctl_stat sys ident kn), p))"

text \<open>\<open>IPC_CREAT | IPC_EXCL | 0600\<close>.\<close>

definition create_flags :: int where "create_flags = 1920"

definition create_shm_init ::
  "'k shm_sys \<Rightarrow> int \<Rightarrow> u64 \<Rightarrow> bytes option \<Rightarrow> u64 \<Rightarrow> 'k process \<Rightarrow> (int \<times> 'k process) option" where
  "create_shm_init sys k sz buf len p =
     (case shmget sys k sz create_flags (kern p) of (ident, kn) \<Rightarrow>
        let p = p\<lparr>kern := kn\<rparr> in
        if ident = -1 then Some (-1, p)
        else case shmat sys ident p of (a, p) \<Rightarrow>
          if a = -1 then Some (-1, p)
          else do {
            p \<leftarrow> (case buf of None \<Rightarrow> Some p | Some b \<Rightarrow> copy_buffer a b (unat (if sz < len then sz else len)) p);
            Some (0, shmdt sys a p) })"

definition create_shm :: "'k shm_sys \<Rightarrow> int \<Rightarrow> u64 \<Rightarrow> 'k process \<Rightarrow> (int \<times> 'k process) option" where
  "create_shm sys k sz p = create_shm_init sys k sz None 0 p"

text \<open>
  Unlike \<open>create_shm_init\<close>, \<open>get_shm\<close> keeps the number of bytes to copy in an \<open>int\<close>, which
  \<open>memcpy\<close> widens with its sign.
\<close>

definition int_size :: "u64 \<Rightarrow> u64" where
  "int_size n = scast (ucast n :: u32)"

definition get_shm ::
  "'k shm_sys \<Rightarrow> int \<Rightarrow> u64 \<Rightarrow> create_noexist_opt \<Rightarrow> init_exist_opt \<Rightarrow> bytes option \<Rightarrow> u64 \<Rightarrow>
   'k process \<Rightarrow> (int \<times> 'k process) option" where
  "get_shm sys k sz create_nonexist init_exist buf len p =
     (if k = 0 then Some (-1, p)
      else case get_shm_info sys k p of
        (None, p) \<Rightarrow>
          if create_nonexist = create_noexist_no then Some (-1, p) else create_shm_init sys k sz buf len p
      | (Some (elder_shmid, elder_size), p) \<Rightarrow>
          if sz \<noteq> elder_size then Some (-1, p)
          else if init_exist = init_exist_no then Some (0, p)
          else case shmat sys elder_shmid p of (a, p) \<Rightarrow>
            if a = -1 then Some (-1, p)
            else do {
              p \<leftarrow> (case buf of
                     None \<Rightarrow> write_bytes a (replicate (unat sz) 0) p
                   | Some b \<Rightarrow> copy_buffer a b (unat (int_size (if sz < len then sz else len))) p);
              Some (0, shmdt sys a p) })"

definition init_shm_mgr :: "shm_mgr \<Rightarrow> int \<Rightarrow> shm_mgr" where
  "init_shm_mgr mgr k = mgr\<lparr>key := k, shmid := -1, size := 0, shm := 0\<rparr>"

text \<open>\<open>None\<close> as manager is the null pointer.\<close>

definition update_shm_attach ::
  "'k shm_sys \<Rightarrow> shm_mgr option \<Rightarrow> 'k process \<Rightarrow> int \<times> shm_mgr option \<times> 'k process" where
  "update_shm_attach sys mgr p =
     (case mgr of None \<Rightarrow> (-1, mgr, p)
      | Some g \<Rightarrow>
          if key g = 0 then (-1, mgr, p)
          else case get_shm_info sys (key g) p of
            (None, p) \<Rightarrow> (-1, mgr, p)
          | (Some (ident, sz), p) \<Rightarrow>
              if shmid g = ident then (if size g = sz then (0, mgr, p) else (-1, mgr, p))
              else case shmat sys ident p of (a, p) \<Rightarrow>
                if a = -1 then (-1, mgr, p)
                else (0, Some (g\<lparr>shmid := ident, size := sz, shm := a\<rparr>), shmdt sys (shm g) p))"

section \<open>Shorthands\<close>

definition get_shm_nocreate_noinitexist where
  "get_shm_nocreate_noinitexist sys k sz = get_shm sys k sz create_noexist_no init_exist_no None 0"

definition get_shm_nocreate_initexist where
  "get_shm_nocreate_initexist sys k sz buf len = get_shm sys k sz create_noexist_no init_exist_yes buf len"

definition get_shm_create_noinitexist where
  "get_shm_create_noinitexist sys k sz buf len = get_shm sys k sz create_noexist_yes init_exist_no buf len"

definition get_shm_create_initexist where
  "get_shm_create_initexist sys k sz buf len = get_shm sys k sz create_noexist_yes init_exist_yes buf len"

definition get_shm_nocreate where
  "get_shm_nocreate sys k sz init_exist buf len = get_shm sys k sz create_noexist_no init_exist buf len"

definition get_shm_create where
  "get_shm_create sys k sz init_exist buf len = get_shm sys k sz create_noexist_yes init_exist buf len"

definition get_shm_noinitexist where
  "get_shm_noinitexist sys k sz create_exist buf len = get_shm sys k sz create_exist init_exist_no buf len"

definition get_shm_initexist where
  "get_shm_initexist sys k sz create_exist buf len = get_shm sys k sz create_exist init_exist_yes buf len"


section \<open>What the calls report\<close>

text \<open>
  Attaching either succeeds, and the manager then describes the segment the kernel has under
  its key, or fails and leaves the manager as it was.
\<close>

lemma update_shm_attach_outcome:
  assumes "update_shm_attach sys mgr p = (r, mgr', p')"
  shows "r = 0 \<and> (\<exists>g g'. mgr = Some g \<and> mgr' = Some g' \<and> key g \<noteq> 0 \<and> key g' = key g \<and>
      fst (get_shm_info sys (key g) p) = Some (shmid g', size g')) \<or> r = -1 \<and> mgr' = mgr"
  using assms by (auto simp: update_shm_attach_def split: option.splits prod.splits if_split_asm)

text \<open>A segment of another size is left alone, whatever the options.\<close>

lemma get_shm_other_size:
  assumes "fst (get_shm_info sys k p) = Some (ident, elder)" "elder \<noteq> sz" "k \<noteq> 0"
  shows "get_shm sys k sz c i buf len p = Some (-1, snd (get_shm_info sys k p))"
  using assms by (cases "get_shm_info sys k p") (simp add: get_shm_def)

lemma get_shm_no_create:
  assumes "fst (get_shm_info sys k p) = None" "k \<noteq> 0"
  shows "get_shm sys k sz create_noexist_no i buf len p = Some (-1, snd (get_shm_info sys k p))"
  using assms by (cases "get_shm_info sys k p") (simp add: get_shm_def)

text \<open>Initialising a segment of 2 GiB or more: the number of bytes to copy becomes negative.\<close>

lemma int_size_small: "unat n < 2 ^ 31 \<Longrightarrow> int_size n = n"
proof -
  assume n: "unat n < 2 ^ 31"
  then have "take_bit 31 n = n"
    by (simp add: word_unat_eq_iff unsigned_take_bit_eq take_bit_nat_eq_self)
  then have high: "31 \<le> i \<Longrightarrow> \<not> bit n i" for i by (metis bit_take_bit_iff leD)
  show ?thesis
  proof (rule bit_word_eqI)
    fix i
    show "bit (int_size n) i = bit n i"
      using high [of i] high [of 31] by (cases "i < 31") (auto simp: int_size_def bit_simps min_def dest: bit_imp_le_length)
  qed
qed

lemma int_size_negative: "int_size 0x80000000 = 0xFFFFFFFF80000000"
  by (simp add: int_size_def)

end
