(* ===== verification/AttrApi.thy ===== *)
theory AttrApi
  imports HashTable Shm
begin

text \<open>
  \<open>attr_api/api_util.c\<close>, \<open>attr_api/attr_api.h\<close> and \<open>attr_api/attr_api.c\<close>: counters of a
  process, kept in a hash table in shared memory under a key made from the counter's number
  and the process id. A node is 24 bytes: its key, the counter and the value. The first use
  attaches the segment, creating it if need be. Signed overflow is \<open>None\<close>, as is an access
  to memory that is not mapped.
\<close>

section \<open>Keys\<close>

unbundle bit_operations_syntax

definition make_attr_key :: "u64 \<Rightarrow> u32 \<Rightarrow> u64" where
  "make_attr_key attr pid =
     (let attr_h8 = attr AND 0xFF00;
          attr_l8 = attr AND 0xFF;
          pid_h8 = ucast pid AND 0xFF00;
          pid_l8 = ucast pid AND 0xFF;
          key_h16 = ((attr_h8 XOR pid_h8) OR (attr_l8 OR pid_l8)) AND 0xFFFF;
          key_l16 = ((attr_h8 OR pid_h8) OR (attr_l8 XOR pid_l8)) AND 0xFFFF;
          key_l32 = push_bit 16 key_h16 OR key_l16
      in push_bit 32 attr OR (key_l32 AND 0xFFFFFFFF))"

definition check_attr_key_matchable :: "u64 \<Rightarrow> u64 \<Rightarrow> int" where
  "check_attr_key_matchable attr k = c_bool (drop_bit 32 k = attr AND 0xFFFFFFFF)"

section \<open>Nodes\<close>

definition SHM_KEY_ATTR :: int where "SHM_KEY_ATTR = 1000000"
definition MAX_HT_NODES_NUM :: u32 where "MAX_HT_NODES_NUM = 1000000"
definition sizeof_attr_node :: u64 where "sizeof_attr_node = 24"
definition empty_key :: u64 where "empty_key = 0"

definition node_key :: "u64 \<Rightarrow> 'k process \<Rightarrow> u64 option" where
  "node_key a p = (if accessible p (unat a) 8 then Some (load64 (pmem p) (unat a)) else None)"

definition node_val :: "u64 \<Rightarrow> 'k process \<Rightarrow> u64 option" where
  "node_val a p = (if accessible p (unat a + 16) 8 then Some (load64 (pmem p) (unat a + 16)) else None)"

definition set_node_val :: "u64 \<Rightarrow> u64 \<Rightarrow> 'k process \<Rightarrow> 'k process option" where
  "set_node_val a v p =
     (if accessible p (unat a + 16) 8 then Some (p\<lparr>pmem := store64 (pmem p) (unat a + 16) v\<rparr>) else None)"

text \<open>A node taken into use: key, counter and a value of 0.\<close>

definition new_node :: "u64 \<Rightarrow> u64 \<Rightarrow> u64 \<Rightarrow> 'k process \<Rightarrow> 'k process option" where
  "new_node a k attr p =
     (if accessible p (unat a) 24 then
        Some (p\<lparr>pmem := store64 (store64 (store64 (pmem p) (unat a) k) (unat a + 8) attr) (unat a + 16) 0\<rparr>)
      else None)"

definition attr_node_compare :: "u64 \<Rightarrow> u64 \<Rightarrow> 'k process \<Rightarrow> int option" where
  "attr_node_compare k node p = map_option (\<lambda>nk. if k = nk then 0 else 1) (node_key node p)"

section \<open>The process-wide table\<close>

definition nodes_num_tab :: "u32 list" where "nodes_num_tab = replicate 20 50000"

definition mods_tab :: "u32 list" where
  "mods_tab = [49999, 49993, 49991, 49957, 49943, 49939, 49937, 49927, 49921, 49919,
     49891, 49877, 49871, 49853, 49843, 49831, 49823, 49811, 49807, 49801]"

definition row_num_tab :: u32 where "row_num_tab = of_nat (length nodes_num_tab)"

record 'k attr_state =
  proc :: "'k process"
  attr_mgr :: shm_mgr
  attr_nodes_htab :: "(u64, 'k process) hash_table"
  keypid :: u64
  attr_shm :: u64

definition get_attr_shm :: "'k shm_sys \<Rightarrow> 'k attr_state \<Rightarrow> (int \<times> 'k attr_state) option" where
  "get_attr_shm sys st = do {
     size \<leftarrow> calc_hash_table_size sizeof_attr_node row_num_tab nodes_num_tab;
     let st = st\<lparr>attr_mgr := init_shm_mgr (attr_mgr st) SHM_KEY_ATTR\<rparr>;
     (ignored, p) \<leftarrow> get_shm_create_noinitexist sys SHM_KEY_ATTR size None 0 (proc st);
     case update_shm_attach sys (Some (attr_mgr st)) p of (r, mgr, p) \<Rightarrow>
       let st = st\<lparr>proc := p, attr_mgr := the mgr\<rparr> in
       if r = -1 then Some (-1, st)
       else do {
         (r, htab) \<leftarrow> hash_table_init (attr_nodes_htab st) (shm (attr_mgr st)) size sizeof_attr_node
            row_num_tab nodes_num_tab mods_tab (Some attr_node_compare);
         let st = st\<lparr>attr_nodes_htab := htab\<rparr>;
         if r = -1 then Some (-1, st)
         else if total_node_num htab > MAX_HT_NODES_NUM then Some (-1, st)
         else Some (0, st\<lparr>attr_shm := shm (attr_mgr st)\<rparr>) } }"

text \<open>The condition \<open>!attr_shm && get_attr_shm() == -1\<close>: \<open>True\<close> is the failure.\<close>

definition no_attr_shm :: "'k shm_sys \<Rightarrow> 'k attr_state \<Rightarrow> (bool \<times> 'k attr_state) option" where
  "no_attr_shm sys st =
     (if attr_shm st \<noteq> 0 then Some (False, st)
      else map_option (\<lambda>(r, st). (r = -1, st)) (get_attr_shm sys st))"

definition set_keypid :: "u32 \<Rightarrow> 'k attr_state \<Rightarrow> 'k attr_state" where
  "set_keypid getpid st = (if keypid st = 0 then st\<lparr>keypid := ucast getpid\<rparr> else st)"

definition HTAB_LOOKUP :: "(u64, 'k process) hash_table \<Rightarrow> u64 \<Rightarrow> 'k process \<Rightarrow> u64 option" where
  "HTAB_LOOKUP htab k p = hash_table_lookup_node htab k (ucast k) p"

definition HTAB_LOOKUP_EX :: "(u64, 'k process) hash_table \<Rightarrow> u64 \<Rightarrow> 'k process \<Rightarrow> (u64 \<times> bool) option" where
  "HTAB_LOOKUP_EX htab k p = hash_table_lookup_node_ex htab empty_key k (ucast k) p"

section \<open>Updating and reading counters\<close>

definition ATTR_UPDATE_METHOD_INCR :: int where "ATTR_UPDATE_METHOD_INCR = 0"
definition ATTR_UPDATE_METHOD_SET :: int where "ATTR_UPDATE_METHOD_SET = 1"

definition signed_add :: "u64 \<Rightarrow> u64 \<Rightarrow> u64 option" where
  "signed_add a b = (if sint (a + b) = sint a + sint b then Some (a + b) else None)"

text \<open>
  The result is the returned number, what is stored through \<open>exist\<close> (nothing if the call
  fails), and the new state.
\<close>

definition update_attr ::
  "'k shm_sys \<Rightarrow> u32 \<Rightarrow> u64 \<Rightarrow> u64 \<Rightarrow> int \<Rightarrow> 'k attr_state \<Rightarrow> (int \<times> bool option \<times> 'k attr_state) option" where
  "update_attr sys getpid attr v method st = do {
     (failed, st) \<leftarrow> no_attr_shm sys st;
     if failed then Some (-1, None, st)
     else do {
       let st = set_keypid getpid st;
       let k = make_attr_key attr (ucast (keypid st));
       (node, exist) \<leftarrow> HTAB_LOOKUP_EX (attr_nodes_htab st) k (proc st);
       if node = 0 then Some (-1, None, st)
       else do {
         p \<leftarrow> (if exist then Some (proc st) else new_node node k attr (proc st));
         p \<leftarrow> (if method = ATTR_UPDATE_METHOD_INCR
               then do { old \<leftarrow> node_val node p; new \<leftarrow> signed_add old v; set_node_val node new p }
               else set_node_val node v p);
         Some (0, Some exist, st\<lparr>proc := p\<rparr>) } } }"

text \<open>The result is the returned number, and the stored value and existence.\<close>

definition get_attr ::
  "'k shm_sys \<Rightarrow> u64 \<Rightarrow> u64 \<Rightarrow> 'k attr_state \<Rightarrow> (int \<times> (u64 \<times> bool) option \<times> 'k attr_state) option" where
  "get_attr sys k attr st = do {
     (failed, st) \<leftarrow> no_attr_shm sys st;
     if failed then Some (-1, None, st)
     else do {
       node \<leftarrow> HTAB_LOOKUP (attr_nodes_htab st) k (proc st);
       if node = 0 then Some (0, Some (0, False), st)
       else do { v \<leftarrow> node_val node (proc st); Some (0, Some (v, True), st) } } }"

definition get_self_attr ::
  "'k shm_sys \<Rightarrow> u32 \<Rightarrow> u64 \<Rightarrow> 'k attr_state \<Rightarrow> (int \<times> (u64 \<times> bool) option \<times> 'k attr_state) option" where
  "get_self_attr sys getpid attr st =
     (let st = set_keypid getpid st in get_attr sys (make_attr_key attr (ucast (keypid st))) attr st)"


section \<open>Which counters share a key\<close>

lemma key_masks:
  "(0xFF :: u64) = mask 8" "(0xFF00 :: u64) = push_bit 8 (mask 8)" "(0xFFFF :: u64) = mask 16"
  "(0xFFFFFFFF :: u64) = mask 32"
  by (simp_all add: mask_eq_exp_minus_1 push_bit_eq_mult)

lemma bit_make_attr_key:
  assumes "n < 64"
  shows "bit (make_attr_key attr pid) n =
    (if 32 \<le> n then bit attr (n - 32)
     else if 24 \<le> n then bit attr (n - 16) \<noteq> bit pid (n - 16)
     else if 16 \<le> n then bit attr (n - 16) \<or> bit pid (n - 16)
     else if 8 \<le> n then bit attr n \<or> bit pid n
     else bit attr n \<noteq> bit pid n)"
proof -
  have "\<exists>k. n = 32 + k \<and> k < 32 \<or> (n = 24 + k \<or> n = 16 + k \<or> n = 8 + k \<or> n = k) \<and> k < 8" using assms by presburger
  then obtain k where "n = 32 + k \<and> k < 32 \<or> (n = 24 + k \<or> n = 16 + k \<or> n = 8 + k \<or> n = k) \<and> k < 8" ..
  then show ?thesis unfolding make_attr_key_def Let_def key_masks
    by (elim disjE conjE) (auto simp: bit_simps)
qed

lemma make_attr_key_eq_iff:
  "make_attr_key a p = make_attr_key b q \<longleftrightarrow> (ucast a :: u32) = ucast b \<and> (ucast p :: u16) = ucast q"
proof
  assume e: "make_attr_key a p = make_attr_key b q"
  then have bits: "bit (make_attr_key a p) n = bit (make_attr_key b q) n" for n by simp
  have a: "bit a n = bit b n" if "n < 32" for n
    using bits [of "n + 32"] that by (simp add: bit_make_attr_key)
  have "bit p n = bit q n" if "n < 16" for n
  proof (cases "n < 8")
    case True
    then show ?thesis using bits [of n] a [of n] by (auto simp: bit_make_attr_key)
  next
    case False
    then show ?thesis using bits [of "n + 16"] a [of n] that by (auto simp: bit_make_attr_key)
  qed
  with a show "(ucast a :: u32) = ucast b \<and> (ucast p :: u16) = ucast q"
    by (auto intro!: bit_word_eqI simp: bit_simps)
next
  assume e: "(ucast a :: u32) = ucast b \<and> (ucast p :: u16) = ucast q"
  have a: "bit a n = bit b n" if "n < 32" for n
  proof -
    from e have "bit (ucast a :: u32) n = bit (ucast b :: u32) n" by simp
    then show ?thesis using that by (simp add: bit_simps)
  qed
  have p: "bit p n = bit q n" if "n < 16" for n
  proof -
    from e have "bit (ucast p :: u16) n = bit (ucast q :: u16) n" by simp
    then show ?thesis using that by (simp add: bit_simps)
  qed
  show "make_attr_key a p = make_attr_key b q"
    by (rule bit_word_eqI) (simp add: bit_make_attr_key a p)
qed

lemma make_attr_key_matches: "check_attr_key_matchable b (make_attr_key a p) = c_bool ((ucast a :: u32) = ucast b)"
proof -
  have "drop_bit 32 (make_attr_key a p) = b AND 0xFFFFFFFF \<longleftrightarrow> (ucast a :: u32) = ucast b"
  proof -
    have "drop_bit 32 (make_attr_key a p) = ucast (ucast a :: u32)"
    proof (rule bit_word_eqI)
      fix n :: nat
      show "bit (drop_bit 32 (make_attr_key a p)) n = bit (ucast (ucast a :: u32) :: u64) n"
        by (cases "n < 32") (auto simp: bit_simps bit_make_attr_key dest: bit_imp_le_length)
    qed
    moreover have "b AND 0xFFFFFFFF = ucast (ucast b :: u32)" unfolding key_masks
      by (rule bit_word_eqI) (auto simp: bit_simps)
    ultimately show ?thesis by (metis ucast_ucast_u32_64)
  qed
  then show ?thesis by (simp add: check_attr_key_matchable_def)
qed

text \<open>A process id whose lower 16 bits are not all 0 never makes the key of an empty node.\<close>

lemma make_attr_key_not_empty:
  assumes "(ucast pid :: u16) \<noteq> 0"
  shows "make_attr_key attr pid \<noteq> empty_key"
proof
  assume "make_attr_key attr pid = empty_key"
  then have z: "\<not> bit (make_attr_key attr pid) n" for n by (simp add: empty_key_def)
  have "\<not> bit pid n" if "n < 16" for n
    using z [of n] z [of "n + 16"] that by (cases "n < 8") (auto simp: bit_make_attr_key)
  then have "(ucast pid :: u16) = 0" by (auto intro!: bit_word_eqI simp: bit_simps)
  with assms show False by simp
qed

text \<open>
  In one process two counters have the same key exactly when their numbers agree in the
  lower 32 bits; two processes have different keys for a counter unless their ids agree in the
  lower 16 bits. The check that a key belongs to a counter looks at the lower 32 bits only.
\<close>

theorem attr_keys_shared:
  "(make_attr_key a p = make_attr_key b q \<longleftrightarrow>
     unat a mod 2 ^ 32 = unat b mod 2 ^ 32 \<and> unat p mod 2 ^ 16 = unat q mod 2 ^ 16) \<and>
   check_attr_key_matchable b (make_attr_key a p) = c_bool (unat a mod 2 ^ 32 = unat b mod 2 ^ 32)"
proof -
  have a: "(ucast a :: u32) = ucast b \<longleftrightarrow> unat a mod 2 ^ 32 = unat b mod 2 ^ 32"
    by (simp add: word_unat_eq_iff unsigned_ucast_eq take_bit_eq_mod)
  have p: "(ucast p :: u16) = ucast q \<longleftrightarrow> unat p mod 2 ^ 16 = unat q mod 2 ^ 16"
    by (simp add: word_unat_eq_iff unsigned_ucast_eq take_bit_eq_mod)
  show ?thesis unfolding make_attr_key_eq_iff make_attr_key_matches a p by simp
qed

end
