(* ===== verification/KeyTable.thy ===== *)
theory KeyTable
  imports Prelude
begin

text \<open>
  The contract between a table of nodes and its client: every key has a list of candidate
  nodes, a node holds a key and a value, taking a node for a key and setting its value change
  nothing else. The client's view of such a table is a map from keys to values.
\<close>

definition table_map ::
  "('k \<Rightarrow> 'a list) \<Rightarrow> ('m \<Rightarrow> 'a \<Rightarrow> 'k) \<Rightarrow> ('m \<Rightarrow> 'a \<Rightarrow> 'v) \<Rightarrow> 'k \<Rightarrow> 'm \<Rightarrow> 'k \<Rightarrow> 'v option" where
  "table_map slots key_at val_at nokey m k =
     (if k = nokey then None else map_option (val_at m) (find (\<lambda>a. key_at m a = k) (slots k)))"

text \<open>Every node in use is a candidate of its key, and no two nodes hold the same key.\<close>

definition placed :: "('k \<Rightarrow> 'a list) \<Rightarrow> ('m \<Rightarrow> 'a \<Rightarrow> 'k) \<Rightarrow> 'k \<Rightarrow> 'a set \<Rightarrow> 'm \<Rightarrow> bool" where
  "placed slots key_at nokey nodes m \<longleftrightarrow>
     (\<forall>a \<in> nodes. key_at m a \<noteq> nokey \<longrightarrow> a \<in> set (slots (key_at m a))) \<and>
     (\<forall>a \<in> nodes. \<forall>b \<in> nodes. key_at m a = key_at m b \<longrightarrow> key_at m a \<noteq> nokey \<longrightarrow> a = b)"

lemma find_None_set: "find P xs = None \<longleftrightarrow> (\<forall>x \<in> set xs. \<not> P x)"
  by (auto simp: find_None_iff)

lemma find_SomeD: "find P xs = Some x \<Longrightarrow> x \<in> set xs \<and> P x"
  by (metis find_Some_iff nth_mem)

lemma find_equal: "x \<in> set xs \<Longrightarrow> find (\<lambda>y. y = x) xs = Some x"
  by (induction xs) auto

locale key_table =
  fixes slots :: "'k \<Rightarrow> 'a list"
    and key_at :: "'m \<Rightarrow> 'a \<Rightarrow> 'k"
    and val_at :: "'m \<Rightarrow> 'a \<Rightarrow> 'v"
    and occupy :: "'m \<Rightarrow> 'a \<Rightarrow> 'k \<Rightarrow> 'x \<Rightarrow> 'm"
    and set_val :: "'m \<Rightarrow> 'a \<Rightarrow> 'v \<Rightarrow> 'm"
    and nokey :: 'k
    and fresh_val :: 'v
    and nodes :: "'a set"
  assumes key_occupy: "a \<in> nodes \<Longrightarrow> b \<in> nodes \<Longrightarrow> key_at (occupy m a k x) b = (if b = a then k else key_at m b)"
    and val_occupy: "a \<in> nodes \<Longrightarrow> b \<in> nodes \<Longrightarrow> val_at (occupy m a k x) b = (if b = a then fresh_val else val_at m b)"
    and key_set_val: "a \<in> nodes \<Longrightarrow> b \<in> nodes \<Longrightarrow> key_at (set_val m a v) b = key_at m b"
    and val_set_val: "a \<in> nodes \<Longrightarrow> b \<in> nodes \<Longrightarrow> val_at (set_val m a v) b = (if b = a then v else val_at m b)"
    and slots_nodes: "set (slots k) \<subseteq> nodes"
    and slots_distinct: "distinct (slots k)"
    and nodes_finite: "finite nodes"
begin

abbreviation tmap where "tmap \<equiv> table_map slots key_at val_at nokey"
abbreviation ok where "ok \<equiv> placed slots key_at nokey nodes"

lemma find_key_cong:
  "(\<And>a. a \<in> nodes \<Longrightarrow> (key_at m a = k) = (key_at m' a = k)) \<Longrightarrow>
    find (\<lambda>a. key_at m a = k) (slots k) = find (\<lambda>a. key_at m' a = k) (slots k)"
  by (rule find_cong) (use slots_nodes in auto)

lemma tmap_set_val:
  assumes "find (\<lambda>a. key_at m a = k) (slots k) = Some a" "k \<noteq> nokey"
  shows "tmap (set_val m a v) = (tmap m)(k \<mapsto> v)"
proof
  fix k'
  have a: "a \<in> nodes" "key_at m a = k" using find_SomeD [OF assms(1)] slots_nodes by auto
  have f: "find (\<lambda>b. key_at (set_val m a v) b = k') (slots k') = find (\<lambda>b. key_at m b = k') (slots k')"
    by (rule find_key_cong) (simp add: key_set_val a)
  show "tmap (set_val m a v) k' = ((tmap m)(k \<mapsto> v)) k'"
  proof (cases "find (\<lambda>b. key_at m b = k') (slots k')")
    case (Some b)
    then have "b \<in> nodes" "key_at m b = k'" using find_SomeD [OF Some] slots_nodes by auto
    then show ?thesis using Some a assms f by (auto simp: table_map_def val_set_val)
  qed (use f assms in \<open>auto simp: table_map_def\<close>)
qed

lemma find_occupy:
  assumes "find (\<lambda>a. key_at m a = k) (slots k) = None" "a \<in> set (slots k)" "key_at m a = nokey" "k \<noteq> nokey"
  shows "find (\<lambda>b. key_at (occupy m a k x) b = k) (slots k) = Some a"
proof -
  have n: "b \<in> nodes" if "b \<in> set (slots k)" for b using slots_nodes that by blast
  have "find (\<lambda>b. key_at (occupy m a k x) b = k) (slots k) = find (\<lambda>b. b = a) (slots k)"
    using assms(1,2) by (intro find_cong refl) (auto simp: key_occupy n find_None_set)
  also have "\<dots> = Some a" using assms(2) by (rule find_equal)
  finally show ?thesis .
qed

lemma tmap_occupy:
  assumes "find (\<lambda>a. key_at m a = k) (slots k) = None" "a \<in> set (slots k)" "key_at m a = nokey" "k \<noteq> nokey"
  shows "tmap (occupy m a k x) = (tmap m)(k \<mapsto> fresh_val)"
proof
  fix k'
  have a: "a \<in> nodes" using assms(2) slots_nodes by auto
  show "tmap (occupy m a k x) k' = ((tmap m)(k \<mapsto> fresh_val)) k'"
  proof (cases "k' = k \<or> k' = nokey")
    case True
    then show ?thesis using find_occupy [OF assms] assms(4) a by (auto simp: table_map_def val_occupy)
  next
    case False
    have f: "find (\<lambda>b. key_at (occupy m a k x) b = k') (slots k') = find (\<lambda>b. key_at m b = k') (slots k')"
      by (rule find_key_cong) (use a assms False in \<open>auto simp: key_occupy\<close>)
    show ?thesis
    proof (cases "find (\<lambda>b. key_at m b = k') (slots k')")
      case (Some b)
      then have "b \<in> nodes" "key_at m b = k'" using find_SomeD [OF Some] slots_nodes by auto
      then show ?thesis using Some a assms f False by (auto simp: table_map_def val_occupy)
    qed (use f False in \<open>auto simp: table_map_def\<close>)
  qed
qed

lemma ok_set_val: "ok m \<Longrightarrow> a \<in> nodes \<Longrightarrow> ok (set_val m a v)"
  by (auto simp: placed_def key_set_val)

lemma ok_occupy:
  assumes "ok m" "find (\<lambda>a. key_at m a = k) (slots k) = None" "a \<in> set (slots k)"
  shows "ok (occupy m a k x)"
proof -
  have a: "a \<in> nodes" using assms(3) slots_nodes by auto
  have free: "key_at m b \<noteq> k" if "b \<in> nodes" "k \<noteq> nokey" for b
    using assms(1,2) that by (auto simp: placed_def find_None_set)
  have "b \<in> set (slots (key_at (occupy m a k x) b))" if "b \<in> nodes" "key_at (occupy m a k x) b \<noteq> nokey" for b
    using that assms(1,3) a by (auto simp: key_occupy placed_def split: if_split_asm)
  moreover have "b = c" if "b \<in> nodes" "c \<in> nodes" "key_at (occupy m a k x) b = key_at (occupy m a k x) c"
    "key_at (occupy m a k x) b \<noteq> nokey" for b c
    using that assms(1) a free by (auto simp: key_occupy placed_def split: if_split_asm)
  ultimately show ?thesis unfolding placed_def by blast
qed

lemma tmap_node: "ok m \<Longrightarrow> a \<in> nodes \<Longrightarrow> key_at m a \<noteq> nokey \<Longrightarrow> key_at m a \<in> dom (tmap m)"
  by (cases "find (\<lambda>b. key_at m b = key_at m a) (slots (key_at m a))")
    (auto simp: table_map_def placed_def find_None_set)

lemma finite_dom_tmap: "finite (dom (tmap m))"
proof (rule finite_subset)
  show "dom (tmap m) \<subseteq> key_at m ` nodes"
    using slots_nodes by (fastforce simp: table_map_def dom_def dest: find_SomeD split: if_split_asm)
qed (use nodes_finite in simp)

text \<open>A key that is not in a table of few keys has an empty candidate.\<close>

lemma empty_slot:
  assumes "ok m" "card (dom (tmap m)) < length (slots k)"
  shows "\<exists>a \<in> set (slots k). key_at m a = nokey"
proof (rule ccontr)
  assume "\<not> ?thesis"
  then have used: "key_at m a \<noteq> nokey" "a \<in> nodes" if "a \<in> set (slots k)" for a using that slots_nodes by auto
  have "inj_on (key_at m) (set (slots k))"
    using assms(1) used by (auto simp: placed_def intro!: inj_onI)
  moreover have "key_at m ` set (slots k) \<subseteq> dom (tmap m)" using tmap_node [OF assms(1)] used by auto
  ultimately have "card (set (slots k)) \<le> card (dom (tmap m))"
    using card_inj_on_le finite_dom_tmap by blast
  then show False using assms(2) slots_distinct [of k] by (simp add: distinct_card)
qed

end

end
