(* ===== verification/AttrRun.thy ===== *)
theory AttrRun
  imports AttrApi KeyTable
begin

text \<open>
  The counters of \<open>AttrApi\<close> as a map. The nodes of the segment, numbered from its start, are a
  \<open>key_table\<close>; updating and reading counters refine a map from counter numbers to values, and
  a program of such calls gets the answers the map gives.
\<close>

section \<open>The nodes of the segment as a table of keys\<close>

lemma tab_rows_ok: "\<forall>j<20. row_ok nodes_num_tab mods_tab j"
proof -
  have "list_all (row_ok nodes_num_tab mods_tab) [0..<20]" by code_simp
  then show ?thesis by (simp add: list_all_iff)
qed

lemma row_base_tab: "row_base nodes_num_tab 20 = 1000000"
  unfolding row_base_def nodes_num_tab_def by simp

definition attr_slots :: "u64 \<Rightarrow> nat list" where
  "attr_slots k = map (node_index nodes_num_tab mods_tab (ucast k)) [0..<20]"

definition slot_key :: "nat \<Rightarrow> memory \<Rightarrow> nat \<Rightarrow> u64" where
  "slot_key b m j = load64 m (b + 24 * j)"

definition slot_val :: "nat \<Rightarrow> memory \<Rightarrow> nat \<Rightarrow> u64" where
  "slot_val b m j = load64 m (b + 24 * j + 16)"

definition slot_occupy :: "nat \<Rightarrow> memory \<Rightarrow> nat \<Rightarrow> u64 \<Rightarrow> u64 \<Rightarrow> memory" where
  "slot_occupy b m j k attr =
     store64 (store64 (store64 m (b + 24 * j) k) (b + 24 * j + 8) attr) (b + 24 * j + 16) 0"

definition slot_set :: "nat \<Rightarrow> memory \<Rightarrow> nat \<Rightarrow> u64 \<Rightarrow> memory" where
  "slot_set b m j v = store64 m (b + 24 * j + 16) v"

lemmas slot_defs = slot_key_def slot_val_def slot_occupy_def slot_set_def

lemma slots_apart: "(i :: nat) \<noteq> j \<Longrightarrow> 24 * i + 24 \<le> 24 * j \<or> 24 * j + 24 \<le> 24 * i"
  by presburger

lemma attr_slots_nodes: "set (attr_slots k) \<subseteq> {..<1000000}"
  using node_index_bounds(3) [of nodes_num_tab mods_tab _ 20] tab_rows_ok row_base_tab
  by (auto simp: attr_slots_def)

lemma attr_slots_length: "length (attr_slots k) = 20"
  by (simp add: attr_slots_def)

lemma attr_slots_distinct: "distinct (attr_slots k)"
  unfolding attr_slots_def by (rule node_index_distinct) (rule tab_rows_ok)

interpretation at: key_table attr_slots "slot_key b" "slot_val b" "slot_occupy b" "slot_set b" 0 0 "{..<1000000}" for b
proof (unfold_locales, goal_cases)
  case (1 i j m k x)
  then show ?case using slots_apart [of i j] by (cases "j = i") (auto simp: slot_defs load64_store64_other)
next
  case (2 i j m k x)
  then show ?case using slots_apart [of i j] by (cases "j = i") (auto simp: slot_defs load64_store64_other)
next
  case (3 i j m v)
  then show ?case using slots_apart [of i j] by (cases "j = i") (auto simp: slot_defs load64_store64_other)
next
  case (4 i j m v)
  then show ?case using slots_apart [of i j] by (cases "j = i") (auto simp: slot_defs load64_store64_other)
qed (simp_all add: attr_slots_nodes attr_slots_distinct)

section \<open>An attached process\<close>

definition attached :: "nat \<Rightarrow> 'k attr_state \<Rightarrow> bool" where
  "attached b st \<longleftrightarrow> attr_shm st \<noteq> 0 \<and> b + 24000000 \<le> 2 ^ 64 \<and>
     laid_out (of_nat b) 24 20 nodes_num_tab mods_tab (attr_nodes_htab st) \<and>
     compare (attr_nodes_htab st) = Some attr_node_compare \<and>
     (\<forall>i < 24000000. mapped (proc st) (b + i))"

lemma accessible_node:
  assumes "attached b st" "j < 1000000" "i + n \<le> 24"
  shows "accessible (proc st) (b + 24 * j + i) n"
  using assms by (auto simp: attached_def accessible_def list_all_iff add.assoc)

lemma attached_node:
  assumes "attached b st" "i < 20"
  shows "unat (node_of (attr_nodes_htab st) sk i) = b + 24 * node_index nodes_num_tab mods_tab sk i"
    and "node_of (attr_nodes_htab st) sk i \<noteq> 0"
proof -
  have lo: "laid_out (of_nat b) 24 20 nodes_num_tab mods_tab (attr_nodes_htab st)" using assms by (simp add: attached_def)
  let ?j = "node_index nodes_num_tab mods_tab sk i"
  have j: "?j < 1000000" using node_index_bounds(3) [of nodes_num_tab mods_tab i 20 sk] tab_rows_ok assms(2) row_base_tab by simp
  have b: "b < 2 ^ 64" "b + 24 * 1000000 \<le> 2 ^ 64" using assms(1) by (auto simp: attached_def)
  have "unat (of_nat b :: u64) = b" using unat_of_nat_u64 [OF b(1)] .
  with unat_node(1) [of "of_nat b" 24 1000000 ?j] b(2) j
  show u: "unat (node_of (attr_nodes_htab st) sk i) = b + 24 * ?j"
    unfolding node_of_index [OF lo assms(2)] by simp
  have "(of_nat b :: u64) \<noteq> 0" using lo by (simp add: laid_out_def)
  then have "b \<noteq> 0" by (cases "b = 0") simp_all
  then show "node_of (attr_nodes_htab st) sk i \<noteq> 0" using u by auto
qed

lemma attached_compare:
  assumes "attached b st" "i < 20"
  shows "call_compare (attr_nodes_htab st) k (node_of (attr_nodes_htab st) sk i) (proc st) =
    Some (if slot_key b (pmem (proc st)) (node_index nodes_num_tab mods_tab sk i) = k then 0 else 1)"
proof -
  have "node_index nodes_num_tab mods_tab sk i < 1000000"
    using node_index_bounds(3) [of nodes_num_tab mods_tab i 20 sk] tab_rows_ok assms(2) row_base_tab by simp
  from accessible_node [OF assms(1) this, of 0 8] assms(1) show ?thesis
    by (auto simp: call_compare_def attached_def attr_node_compare_def node_key_def
        attached_node(1) [OF assms] slot_key_def)
qed

lemma find_map_option: "find P (map f xs) = map_option f (find (\<lambda>x. P (f x)) xs)"
  by (induction xs) auto

text \<open>The two lookups on an attached process, in terms of numbered nodes.\<close>

definition node_addr :: "nat \<Rightarrow> nat \<Rightarrow> u64" where
  "node_addr b j = of_nat b + 24 * of_nat j"

lemma unat_node_addr: "attached b st \<Longrightarrow> j < 1000000 \<Longrightarrow> unat (node_addr b j) = b + 24 * j"
proof -
  assume a: "attached b st" "j < 1000000"
  then have b: "b < 2 ^ 64" "b + 24 * 1000000 \<le> 2 ^ 64" by (auto simp: attached_def)
  show ?thesis using unat_node(1) [of "of_nat b" 24 1000000 j] b a(2) unat_of_nat_u64 [OF b(1)]
    by (simp add: node_addr_def)
qed

lemma node_addr_nz: "attached b st \<Longrightarrow> j < 1000000 \<Longrightarrow> node_addr b j \<noteq> 0"
proof
  assume a: "attached b st" "j < 1000000" "node_addr b j = 0"
  from unat_node_addr [OF a(1,2)] a(3) have "b = 0" by simp
  then show False using a(1) by (simp add: attached_def laid_out_def)
qed

lemma attached_lookup:
  assumes "attached b st"
  shows "HTAB_LOOKUP (attr_nodes_htab st) k (proc st) =
    Some (case find (\<lambda>j. slot_key b (pmem (proc st)) j = k) (attr_slots k) of None \<Rightarrow> 0 | Some j \<Rightarrow> node_addr b j)"
proof -
  have lo: "laid_out (of_nat b) 24 20 nodes_num_tab mods_tab (attr_nodes_htab st)" using assms by (simp add: attached_def)
  have rn: "unat (row_num (attr_nodes_htab st)) = 20" using lo by (simp add: laid_out_def)
  let ?P = "\<lambda>i. slot_key b (pmem (proc st)) (node_index nodes_num_tab mods_tab (ucast k) i) = k"
  have "lookup_rows (attr_nodes_htab st) k (ucast k) (proc st) [0..<20] =
    Some (map_option (\<lambda>i. (i, node_of (attr_nodes_htab st) (ucast k) i)) (find ?P [0..<20]))"
    using laid_outD(4) [OF lo] attached_compare [OF assms] by (intro lookup_rows_find) auto
  moreover have "node_of (attr_nodes_htab st) (ucast k) i = node_addr b (node_index nodes_num_tab mods_tab (ucast k) i)"
    if "find ?P [0..<20] = Some i" for i
    using node_of_index [OF lo] find_SomeD [OF that] by (simp add: node_addr_def)
  ultimately show ?thesis
    by (auto simp: HTAB_LOOKUP_def hash_table_lookup_node_def rn attr_slots_def find_map_option split: option.splits)
qed

lemma attached_lookup_ex:
  assumes "attached b st"
  shows "HTAB_LOOKUP_EX (attr_nodes_htab st) k (proc st) =
    Some (case find (\<lambda>j. slot_key b (pmem (proc st)) j = k) (attr_slots k) of Some j \<Rightarrow> (node_addr b j, True)
      | None \<Rightarrow> (case find (\<lambda>j. slot_key b (pmem (proc st)) j = 0) (attr_slots k) of None \<Rightarrow> 0 | Some j \<Rightarrow> node_addr b j, False))"
proof -
  have lo: "laid_out (of_nat b) 24 20 nodes_num_tab mods_tab (attr_nodes_htab st)" using assms by (simp add: attached_def)
  have rn: "unat (row_num (attr_nodes_htab st)) = 20" using lo by (simp add: laid_out_def)
  let ?P = "\<lambda>k' i. slot_key b (pmem (proc st)) (node_index nodes_num_tab mods_tab (ucast k) i) = k'"
  have l: "lookup_rows_ex (attr_nodes_htab st) empty_key k (ucast k) (proc st) [0..<20] None =
    Some (case find (?P k) [0..<20] of Some i \<Rightarrow> (Some (i, node_of (attr_nodes_htab st) (ucast k) i), True)
      | None \<Rightarrow> (map_option (\<lambda>i. (i, node_of (attr_nodes_htab st) (ucast k) i)) (find (?P 0) [0..<20]), False))"
    using laid_outD(4) [OF lo] attached_compare [OF assms]
    by (subst lookup_rows_ex_find [where P = "?P k" and E = "?P 0"]) (auto simp: empty_key_def split: option.splits)
  have n: "node_of (attr_nodes_htab st) (ucast k) i = node_addr b (node_index nodes_num_tab mods_tab (ucast k) i)"
    if "find (?P k') [0..<20] = Some i" for i k'
    using node_of_index [OF lo] find_SomeD [OF that] by (simp add: node_addr_def)
  show ?thesis
    by (auto simp: HTAB_LOOKUP_EX_def hash_table_lookup_node_ex_def rn l attr_slots_def find_map_option n split: option.splits)
qed


section \<open>The calls on an attached process\<close>

lemma set_keypid_simps [simp]:
  "attr_shm (set_keypid pid st) = attr_shm st" "attr_nodes_htab (set_keypid pid st) = attr_nodes_htab st"
  "proc (set_keypid pid st) = proc st" "attached b (set_keypid pid st) = attached b st"
  by (simp_all add: set_keypid_def attached_def)

lemma no_attr_shm_attached: "attached b st \<Longrightarrow> no_attr_shm sys st = Some (False, st)"
  by (simp add: no_attr_shm_def attached_def)

lemma find_slot: "find P (attr_slots k) = Some j \<Longrightarrow> j < 1000000"
  using find_SomeD [of P "attr_slots k" j] attr_slots_nodes [of k] by auto

lemma signed_add_0 [simp]: "signed_add 0 v = Some v"
  by (simp add: signed_add_def)

lemma accessible_pmem [simp]: "accessible (p\<lparr>pmem := m\<rparr>) a n = accessible p a n"
  by (simp add: accessible_def)

lemma node_access:
  assumes "attached b st" "j < 1000000"
  shows "accessible (proc st) (unat (node_addr b j)) 8" "accessible (proc st) (unat (node_addr b j)) 24"
    "accessible (proc st) (unat (node_addr b j) + 16) 8" "unat (node_addr b j) = b + 24 * j" "node_addr b j \<noteq> 0"
  using accessible_node [OF assms, of 0 8] accessible_node [OF assms, of 0 24] accessible_node [OF assms, of 16 8]
    unat_node_addr [OF assms] node_addr_nz [OF assms] by simp_all

definition attr_key :: "u32 \<Rightarrow> u64 \<Rightarrow> 'k attr_state \<Rightarrow> u64" where
  "attr_key pid attr st = make_attr_key attr (ucast (keypid (set_keypid pid st)))"

lemma update_attr_known:
  assumes "attached b st" "find (\<lambda>j. slot_key b (pmem (proc st)) j = attr_key pid attr st) (attr_slots (attr_key pid attr st)) = Some j"
  shows "update_attr sys pid attr v method st =
    map_option (\<lambda>new. (0, Some True, (set_keypid pid st)\<lparr>proc := (proc st)\<lparr>pmem := slot_set b (pmem (proc st)) j new\<rparr>\<rparr>))
      (if method = ATTR_UPDATE_METHOD_INCR then signed_add (slot_val b (pmem (proc st)) j) v else Some v)"
proof -
  have l: "HTAB_LOOKUP_EX (attr_nodes_htab st) (attr_key pid attr st) (proc st) = Some (node_addr b j, True)"
    using attached_lookup_ex [OF assms(1), of "attr_key pid attr st"] assms(2) by simp
  show ?thesis
    using node_access [OF assms(1) find_slot [OF assms(2)]]
    by (cases "signed_add (slot_val b (pmem (proc st)) j) v")
      (auto simp: update_attr_def no_attr_shm_attached [OF assms(1)] Let_def l [unfolded attr_key_def]
        node_val_def set_node_val_def slot_set_def slot_val_def)
qed

lemma update_attr_new:
  assumes "attached b st" "find (\<lambda>j. slot_key b (pmem (proc st)) j = attr_key pid attr st) (attr_slots (attr_key pid attr st)) = None"
    and "find (\<lambda>j. slot_key b (pmem (proc st)) j = 0) (attr_slots (attr_key pid attr st)) = Some j"
  shows "update_attr sys pid attr v method st =
    Some (0, Some False, (set_keypid pid st)\<lparr>proc := (proc st)\<lparr>pmem :=
      slot_set b (slot_occupy b (pmem (proc st)) j (attr_key pid attr st) attr) j v\<rparr>\<rparr>)"
proof -
  have l: "HTAB_LOOKUP_EX (attr_nodes_htab st) (attr_key pid attr st) (proc st) = Some (node_addr b j, False)"
    using attached_lookup_ex [OF assms(1), of "attr_key pid attr st"] assms(2,3) by simp
  show ?thesis
    using node_access [OF assms(1) find_slot [OF assms(3)]]
    by (auto simp: update_attr_def no_attr_shm_attached [OF assms(1)] Let_def l [unfolded attr_key_def]
        node_val_def set_node_val_def new_node_def slot_set_def slot_occupy_def attr_key_def)
qed

lemma update_attr_full:
  assumes "attached b st" "find (\<lambda>j. slot_key b (pmem (proc st)) j = attr_key pid attr st) (attr_slots (attr_key pid attr st)) = None"
    and "find (\<lambda>j. slot_key b (pmem (proc st)) j = 0) (attr_slots (attr_key pid attr st)) = None"
  shows "update_attr sys pid attr v method st = Some (-1, None, set_keypid pid st)"
  using attached_lookup_ex [OF assms(1), of "attr_key pid attr st"] assms(2,3)
  by (simp add: update_attr_def no_attr_shm_attached [OF assms(1)] Let_def attr_key_def)

lemma get_self_attr_attached:
  assumes "attached b st"
  shows "get_self_attr sys pid attr st =
    Some (0, Some (case find (\<lambda>j. slot_key b (pmem (proc st)) j = attr_key pid attr st) (attr_slots (attr_key pid attr st)) of
      None \<Rightarrow> (0, False) | Some j \<Rightarrow> (slot_val b (pmem (proc st)) j, True)), set_keypid pid st)"
proof (cases "find (\<lambda>j. slot_key b (pmem (proc st)) j = attr_key pid attr st) (attr_slots (attr_key pid attr st))")
  case None
  then show ?thesis using attached_lookup [OF assms, of "attr_key pid attr st"] assms
    by (simp add: get_self_attr_def get_attr_def no_attr_shm_attached Let_def attr_key_def)
next
  case (Some j)
  have l: "HTAB_LOOKUP (attr_nodes_htab st) (attr_key pid attr st) (proc st) = Some (node_addr b j)"
    using attached_lookup [OF assms, of "attr_key pid attr st"] Some by simp
  show ?thesis using node_access [OF assms find_slot [OF Some]] assms Some
    by (simp add: get_self_attr_def get_attr_def no_attr_shm_attached Let_def l [unfolded attr_key_def]
        node_val_def slot_val_def attr_key_def)
qed

section \<open>Programs of updates and reads\<close>

datatype attr_op = Incr u64 u64 | Put u64 u64 | Get u64
datatype attr_out = Updated int "bool option" | Got int "(u64 \<times> bool) option"

fun counter :: "attr_op \<Rightarrow> u32" where
  "counter (Incr attr v) = ucast attr"
| "counter (Put attr v) = ucast attr"
| "counter (Get attr) = ucast attr"

fun attr_exec :: "'k shm_sys \<Rightarrow> u32 \<Rightarrow> attr_op \<Rightarrow> 'k attr_state \<Rightarrow> (attr_out \<times> 'k attr_state) option" where
  "attr_exec sys pid (Incr attr v) st =
     map_option (\<lambda>(r, e, st). (Updated r e, st)) (update_attr sys pid attr v ATTR_UPDATE_METHOD_INCR st)"
| "attr_exec sys pid (Put attr v) st =
     map_option (\<lambda>(r, e, st). (Updated r e, st)) (update_attr sys pid attr v ATTR_UPDATE_METHOD_SET st)"
| "attr_exec sys pid (Get attr) st =
     map_option (\<lambda>(r, e, st). (Got r e, st)) (get_self_attr sys pid attr st)"

fun attr_run :: "'k shm_sys \<Rightarrow> u32 \<Rightarrow> attr_op list \<Rightarrow> 'k attr_state \<Rightarrow> (attr_out list \<times> 'k attr_state) option" where
  "attr_run sys pid [] st = Some ([], st)"
| "attr_run sys pid (p # ps) st = do {
     (x, st) \<leftarrow> attr_exec sys pid p st;
     (xs, st) \<leftarrow> attr_run sys pid ps st;
     Some (x # xs, st) }"

text \<open>The specification: a map from the lower 32 bits of a counter's number to its value.\<close>

fun attr_spec :: "attr_op \<Rightarrow> (u32 \<rightharpoonup> u64) \<Rightarrow> (attr_out \<times> (u32 \<rightharpoonup> u64)) option" where
  "attr_spec (Incr attr v) M =
     (case M (ucast attr) of
        None \<Rightarrow> Some (Updated 0 (Some False), M(ucast attr \<mapsto> v))
      | Some old \<Rightarrow> map_option (\<lambda>new. (Updated 0 (Some True), M(ucast attr \<mapsto> new))) (signed_add old v))"
| "attr_spec (Put attr v) M = Some (Updated 0 (Some (M (ucast attr) \<noteq> None)), M(ucast attr \<mapsto> v))"
| "attr_spec (Get attr) M =
     Some (Got 0 (Some (case M (ucast attr) of None \<Rightarrow> (0, False) | Some v \<Rightarrow> (v, True))), M)"

fun attr_spec_run :: "attr_op list \<Rightarrow> (u32 \<rightharpoonup> u64) \<Rightarrow> (attr_out list \<times> (u32 \<rightharpoonup> u64)) option" where
  "attr_spec_run [] M = Some ([], M)"
| "attr_spec_run (p # ps) M = do {
     (x, M) \<leftarrow> attr_spec p M;
     (xs, M) \<leftarrow> attr_spec_run ps M;
     Some (x # xs, M) }"

section \<open>Refinement\<close>

abbreviation ckey :: "u32 \<Rightarrow> u32 \<Rightarrow> u64" where
  "ckey pid c \<equiv> make_attr_key (ucast c) pid"

abbreviation attr_map :: "nat \<Rightarrow> 'k attr_state \<Rightarrow> u64 \<rightharpoonup> u64" where
  "attr_map b st \<equiv> table_map attr_slots (slot_key b) (slot_val b) 0 (pmem (proc st))"

definition attr_inv :: "nat \<Rightarrow> u32 \<Rightarrow> (u32 \<rightharpoonup> u64) \<Rightarrow> 'k attr_state \<Rightarrow> bool" where
  "attr_inv b pid M st \<longleftrightarrow> attached b st \<and> (keypid st = 0 \<or> keypid st = ucast pid) \<and>
     placed attr_slots (slot_key b) 0 {..<1000000} (pmem (proc st)) \<and>
     (\<forall>c. attr_map b st (ckey pid c) = M c) \<and> dom (attr_map b st) \<subseteq> range (ckey pid)"

lemma attr_invD:
  assumes "attr_inv b pid M st"
  shows "attached b st" "placed attr_slots (slot_key b) 0 {..<1000000} (pmem (proc st))"
    "attr_map b st (ckey pid c) = M c" "dom (attr_map b st) \<subseteq> range (ckey pid)"
  using assms by (auto simp: attr_inv_def)

lemma ckey_inj: "ckey pid c = ckey pid d \<longleftrightarrow> c = d"
  by (simp add: make_attr_key_eq_iff)

lemma attr_key_ckey:
  "attr_inv b pid M st \<Longrightarrow> attr_key pid attr st = ckey pid (ucast attr)"
  by (auto simp: attr_key_def attr_inv_def set_keypid_def make_attr_key_eq_iff)

text \<open>The key is the empty key only for the counter 0 of a process whose id is divisible by 65536.\<close>

lemma ckey_nz: "(ucast pid :: u16) \<noteq> 0 \<or> c \<noteq> 0 \<Longrightarrow> ckey pid c \<noteq> 0"
proof (cases "(ucast pid :: u16) = 0")
  case True
  assume "(ucast pid :: u16) \<noteq> 0 \<or> c \<noteq> 0"
  then have c: "c \<noteq> 0" using True by simp
  have "ckey pid 0 = make_attr_key 0 0" using True by (simp add: make_attr_key_eq_iff)
  also have "\<dots> = 0" by (simp add: make_attr_key_def)
  finally have "ckey pid 0 = 0" .
  then show ?thesis using ckey_inj [where c = c and pid = pid and d = 0] c by simp
next
  case False
  then show ?thesis using make_attr_key_not_empty [of pid "ucast c"] by (simp add: empty_key_def)
qed

lemma card_attr_map:
  assumes "attr_inv b pid M st"
  shows "card (dom (attr_map b st)) = card (dom M)"
proof -
  have "dom (attr_map b st) = ckey pid ` dom M"
  proof
    show "dom (attr_map b st) \<subseteq> ckey pid ` dom M"
    proof
      fix k assume k: "k \<in> dom (attr_map b st)"
      then obtain c where "k = ckey pid c" using attr_invD(4) [OF assms] by blast
      then show "k \<in> ckey pid ` dom M" using k attr_invD(3) [OF assms, of c] by (auto simp: domIff)
    qed
  qed (use attr_invD(3) [OF assms] in \<open>auto simp: domIff\<close>)
  then show ?thesis by (simp add: card_image inj_on_def ckey_inj)
qed

lemma finite_attr_inv: "attr_inv b pid M st \<Longrightarrow> finite (dom M)"
proof -
  assume i: "attr_inv b pid M st"
  have "ckey pid ` dom M \<subseteq> dom (attr_map b st)" using attr_invD(3) [OF i] by (auto simp: domIff)
  then have "finite (ckey pid ` dom M)" using at.finite_dom_tmap by (rule finite_subset)
  then show ?thesis by (rule finite_imageD) (simp add: inj_on_def ckey_inj)
qed

text \<open>Writing a counter, whether its node is old or new, is an update of the map.\<close>

lemma attr_inv_update:
  assumes "attr_inv b pid M st" "table_map attr_slots (slot_key b) (slot_val b) 0 m = (attr_map b st)(ckey pid c \<mapsto> v)"
    and "placed attr_slots (slot_key b) 0 {..<1000000} m"
  shows "attr_inv b pid (M(c \<mapsto> v)) ((set_keypid pid st)\<lparr>proc := (proc st)\<lparr>pmem := m\<rparr>\<rparr>)"
proof -
  have "attached b ((set_keypid pid st)\<lparr>proc := (proc st)\<lparr>pmem := m\<rparr>\<rparr>)"
    using attr_invD(1) [OF assms(1)] by (simp add: attached_def)
  moreover have "keypid ((set_keypid pid st)\<lparr>proc := (proc st)\<lparr>pmem := m\<rparr>\<rparr>) = 0 \<or>
    keypid ((set_keypid pid st)\<lparr>proc := (proc st)\<lparr>pmem := m\<rparr>\<rparr>) = ucast pid"
    using assms(1) by (auto simp: attr_inv_def set_keypid_def)
  ultimately show ?thesis
    using assms attr_invD(3,4) [OF assms(1)] by (auto simp: attr_inv_def ckey_inj)
qed

lemma known_counter:
  assumes "attr_inv b pid M st" "M c = Some old" "(ucast pid :: u16) \<noteq> 0 \<or> c \<noteq> 0"
  obtains j where "find (\<lambda>j. slot_key b (pmem (proc st)) j = ckey pid c) (attr_slots (ckey pid c)) = Some j"
    "slot_val b (pmem (proc st)) j = old"
    "\<And>v. attr_inv b pid (M(c \<mapsto> v)) ((set_keypid pid st)\<lparr>proc := (proc st)\<lparr>pmem := slot_set b (pmem (proc st)) j v\<rparr>\<rparr>)"
proof -
  note nz = ckey_nz [OF assms(3)]
  from attr_invD(3) [OF assms(1), of c] assms(2) nz
  obtain j where j: "find (\<lambda>j. slot_key b (pmem (proc st)) j = ckey pid c) (attr_slots (ckey pid c)) = Some j"
    "slot_val b (pmem (proc st)) j = old" by (auto simp: table_map_def)
  have "j \<in> {..<1000000}" using find_slot [OF j(1)] by simp
  from that [OF j attr_inv_update [OF assms(1) at.tmap_set_val [OF j(1) nz] at.ok_set_val [OF attr_invD(2) [OF assms(1)] this]]]
  show ?thesis .
qed

lemma new_counter:
  assumes "attr_inv b pid M st" "M c = None" "(ucast pid :: u16) \<noteq> 0 \<or> c \<noteq> 0" "card (dom M) < 20"
  obtains j where "find (\<lambda>j. slot_key b (pmem (proc st)) j = ckey pid c) (attr_slots (ckey pid c)) = None"
    "find (\<lambda>j. slot_key b (pmem (proc st)) j = 0) (attr_slots (ckey pid c)) = Some j"
    "\<And>v attr. attr_inv b pid (M(c \<mapsto> v)) ((set_keypid pid st)\<lparr>proc := (proc st)\<lparr>pmem :=
       slot_set b (slot_occupy b (pmem (proc st)) j (ckey pid c) attr) j v\<rparr>\<rparr>)"
proof -
  let ?m = "pmem (proc st)"
  note nz = ckey_nz [OF assms(3)] and ok = attr_invD(2) [OF assms(1)]
  from attr_invD(3) [OF assms(1), of c] assms(2) nz
  have n: "find (\<lambda>j. slot_key b ?m j = ckey pid c) (attr_slots (ckey pid c)) = None" by (auto simp: table_map_def)
  have "card (dom (attr_map b st)) < length (attr_slots (ckey pid c))"
    using assms(4) card_attr_map [OF assms(1)] by (simp add: attr_slots_def)
  from at.empty_slot [OF ok this] have "find (\<lambda>j. slot_key b ?m j = 0) (attr_slots (ckey pid c)) \<noteq> None"
    unfolding find_None_set by blast
  then obtain j where j: "find (\<lambda>j. slot_key b ?m j = 0) (attr_slots (ckey pid c)) = Some j" by blast
  note js = find_SomeD [OF j]
  have jn: "j \<in> {..<1000000}" using find_slot [OF j] by simp
  have "attr_inv b pid (M(c \<mapsto> v)) ((set_keypid pid st)\<lparr>proc := (proc st)\<lparr>pmem :=
       slot_set b (slot_occupy b ?m j (ckey pid c) attr) j v\<rparr>\<rparr>)" for v attr
  proof (rule attr_inv_update [OF assms(1)])
    show "table_map attr_slots (slot_key b) (slot_val b) 0 (slot_set b (slot_occupy b ?m j (ckey pid c) attr) j v) =
      (attr_map b st)(ckey pid c \<mapsto> v)"
      using at.tmap_set_val [OF at.find_occupy [OF n _ _ nz] nz] at.tmap_occupy [OF n _ _ nz] js by simp
    show "placed attr_slots (slot_key b) 0 {..<1000000} (slot_set b (slot_occupy b ?m j (ckey pid c) attr) j v)"
      using at.ok_set_val [OF at.ok_occupy [OF ok n] jn] js by simp
  qed
  from that [OF n j this] show ?thesis .
qed

lemma attr_step:
  assumes "attr_inv b pid M st" "(ucast pid :: u16) \<noteq> 0 \<or> counter p \<noteq> 0" "card (insert (counter p) (dom M)) \<le> 20"
  shows "case attr_spec p M of None \<Rightarrow> attr_exec sys pid p st = None
    | Some (x, M') \<Rightarrow> \<exists>st'. attr_exec sys pid p st = Some (x, st') \<and> attr_inv b pid M' st'"
proof -
  note at = attr_invD(1) [OF assms(1)] and key = attr_key_ckey [OF assms(1)]
  have less: "card (dom M) < 20" if "M (counter p) = None"
    using assms(3) that finite_attr_inv [OF assms(1)] by (simp add: domIff card_insert_if)
  have keep: "attr_inv b pid M (set_keypid pid st)"
    using assms(1) by (auto simp: attr_inv_def) (auto simp: set_keypid_def split: if_split_asm)
  show ?thesis
  proof (cases p)
    case (Incr attr v)
    with assms(2) have nz: "(ucast pid :: u16) \<noteq> 0 \<or> (ucast attr :: u32) \<noteq> 0" by simp
    show ?thesis
    proof (cases "M (ucast attr)")
      case None
      from new_counter [OF assms(1) None nz less] None Incr obtain j where
        "find (\<lambda>j. slot_key b (pmem (proc st)) j = ckey pid (ucast attr)) (attr_slots (ckey pid (ucast attr))) = None"
        "find (\<lambda>j. slot_key b (pmem (proc st)) j = 0) (attr_slots (ckey pid (ucast attr))) = Some j"
        "\<And>v x. attr_inv b pid (M(ucast attr \<mapsto> v)) ((set_keypid pid st)\<lparr>proc := (proc st)\<lparr>pmem :=
           slot_set b (slot_occupy b (pmem (proc st)) j (ckey pid (ucast attr)) x) j v\<rparr>\<rparr>)" by auto
      then show ?thesis using None Incr by (simp add: update_attr_new [OF at] key)
    next
      case (Some old)
      from known_counter [OF assms(1) Some nz] obtain j where
        "find (\<lambda>j. slot_key b (pmem (proc st)) j = ckey pid (ucast attr)) (attr_slots (ckey pid (ucast attr))) = Some j"
        "slot_val b (pmem (proc st)) j = old"
        "\<And>v. attr_inv b pid (M(ucast attr \<mapsto> v)) ((set_keypid pid st)\<lparr>proc := (proc st)\<lparr>pmem := slot_set b (pmem (proc st)) j v\<rparr>\<rparr>)"
        by auto
      then show ?thesis using Some Incr
        by (cases "signed_add old v") (simp_all add: update_attr_known [OF at] key)
    qed
  next
    case (Put attr v)
    with assms(2) have nz: "(ucast pid :: u16) \<noteq> 0 \<or> (ucast attr :: u32) \<noteq> 0" by simp
    show ?thesis
    proof (cases "M (ucast attr)")
      case None
      from new_counter [OF assms(1) None nz less] None Put obtain j where
        "find (\<lambda>j. slot_key b (pmem (proc st)) j = ckey pid (ucast attr)) (attr_slots (ckey pid (ucast attr))) = None"
        "find (\<lambda>j. slot_key b (pmem (proc st)) j = 0) (attr_slots (ckey pid (ucast attr))) = Some j"
        "\<And>v x. attr_inv b pid (M(ucast attr \<mapsto> v)) ((set_keypid pid st)\<lparr>proc := (proc st)\<lparr>pmem :=
           slot_set b (slot_occupy b (pmem (proc st)) j (ckey pid (ucast attr)) x) j v\<rparr>\<rparr>)" by auto
      then show ?thesis using None Put by (simp add: update_attr_new [OF at] key)
    next
      case (Some old)
      from known_counter [OF assms(1) Some nz] obtain j where
        "find (\<lambda>j. slot_key b (pmem (proc st)) j = ckey pid (ucast attr)) (attr_slots (ckey pid (ucast attr))) = Some j"
        "\<And>v. attr_inv b pid (M(ucast attr \<mapsto> v)) ((set_keypid pid st)\<lparr>proc := (proc st)\<lparr>pmem := slot_set b (pmem (proc st)) j v\<rparr>\<rparr>)"
        by auto
      then show ?thesis using Some Put
        by (simp add: update_attr_known [OF at] key ATTR_UPDATE_METHOD_INCR_def ATTR_UPDATE_METHOD_SET_def)
    qed
  next
    case (Get attr)
    with assms(2) have nz: "(ucast pid :: u16) \<noteq> 0 \<or> (ucast attr :: u32) \<noteq> 0" by simp
    have m: "M (ucast attr) = attr_map b st (ckey pid (ucast attr))" by (rule attr_invD(3) [OF assms(1), symmetric])
    show ?thesis using Get ckey_nz [OF nz] keep
      by (auto simp: get_self_attr_attached [OF at] key m table_map_def split: option.splits)
  qed
qed

lemma attr_spec_dom: "attr_spec p M = Some (x, M') \<Longrightarrow> dom M' \<subseteq> insert (counter p) (dom M)"
  by (cases p) (auto split: option.splits if_split_asm)

lemma attr_run_sim:
  assumes "attr_inv b pid M st" "(ucast pid :: u16) \<noteq> 0 \<or> 0 \<notin> counter ` set ps" "card (counter ` set ps \<union> dom M) \<le> 20"
  shows "case attr_spec_run ps M of None \<Rightarrow> attr_run sys pid ps st = None
    | Some (xs, M') \<Rightarrow> \<exists>st'. attr_run sys pid ps st = Some (xs, st') \<and> attr_inv b pid M' st'"
  using assms
proof (induction ps arbitrary: M st)
  case Nil
  then show ?case by auto
next
  case (Cons p ps)
  have fin: "finite (counter ` set (p # ps) \<union> dom M)" using finite_attr_inv [OF Cons.prems(1)] by simp
  have "insert (counter p) (dom M) \<subseteq> counter ` set (p # ps) \<union> dom M" by auto
  from card_mono [OF fin this] have c: "card (insert (counter p) (dom M)) \<le> 20" using Cons.prems(3) by linarith
  have nz: "(ucast pid :: u16) \<noteq> 0 \<or> counter p \<noteq> 0" "(ucast pid :: u16) \<noteq> 0 \<or> 0 \<notin> counter ` set ps"
    using Cons.prems(2) by auto
  note step = attr_step [OF Cons.prems(1) nz(1) c, of sys]
  show ?case
  proof (cases "attr_spec p M")
    case None
    then show ?thesis using step by simp
  next
    case (Some r)
    then obtain x M' where r: "attr_spec p M = Some (x, M')" by (cases r) auto
    with step obtain st' where s: "attr_exec sys pid p st = Some (x, st')" "attr_inv b pid M' st'" by auto
    have "counter ` set ps \<union> dom M' \<subseteq> counter ` set (p # ps) \<union> dom M" using attr_spec_dom [OF r] by auto
    from card_mono [OF fin this] have "card (counter ` set ps \<union> dom M') \<le> 20" using Cons.prems(3) by linarith
    from Cons.IH [OF s(2) nz(2) this] show ?thesis
      by (auto simp: r s(1) split: option.splits)
  qed
qed

lemma zero_slot:
  assumes "\<forall>i < 24000000. m (b + i) = 0" "j < 1000000"
  shows "slot_key b m j = 0"
proof -
  have "mem_read m (b + 24 * j) 8 = replicate 8 0"
    using assms by (auto simp: mem_read_def list_eq_iff_nth_eq add.assoc)
  then show ?thesis by (simp add: slot_key_def load64_def of_le64_def numeral_eq_Suc)
qed

text \<open>
  C28: a process newly attached to an empty segment of full size that works with at most 20
  counters gets exactly the answers of a map from the lower 32 bits of a counter's number to its
  value, whatever the order of its updates and reads; no update fails for want of a node. The
  program goes wrong exactly where adding to a counter overflows. One counter is left out: the
  number 0 (in its lower 32 bits) in a process whose id is divisible by 65536 has the key of an
  empty node.
\<close>

theorem attr_run_refines:
  assumes "attached b st" "keypid st = 0" "(ucast pid :: u16) \<noteq> 0 \<or> 0 \<notin> counter ` set ps" "card (counter ` set ps) \<le> 20"
    and "\<forall>i < 24000000. pmem (proc st) (b + i) = 0"
  shows "map_option fst (attr_run sys pid ps st) = map_option fst (attr_spec_run ps Map.empty)"
proof -
  note z = zero_slot [OF assms(5)]
  have n: "attr_map b st k = None" for k
  proof (cases "k = 0")
    case False
    have "find (\<lambda>j. slot_key b (pmem (proc st)) j = k) (attr_slots k) = None"
      unfolding find_None_set using z attr_slots_nodes [of k] False by auto
    then show ?thesis by (simp add: table_map_def)
  qed (simp add: table_map_def)
  have i: "attr_inv b pid Map.empty st"
    using assms(1,2) z by (auto simp: attr_inv_def n placed_def)
  from attr_run_sim [OF i assms(3), of sys] assms(4) show ?thesis
    by (auto split: option.splits)
qed

text \<open>
  The counter that is left out: its first update in an empty segment already reports that it
  exists, and its value goes into a node that stays empty for all others.
\<close>

theorem attr_empty_key_exists:
  assumes "attached b st" "keypid st = 0" "(ucast pid :: u16) = 0" "(ucast attr :: u32) = 0"
    and "\<forall>i < 24000000. pmem (proc st) (b + i) = 0"
  shows "\<exists>st'. update_attr sys pid attr v ATTR_UPDATE_METHOD_SET st = Some (0, Some True, st')"
proof -
  have "attr_key pid attr st = make_attr_key 0 0"
    using assms(2-4) by (simp add: attr_key_def set_keypid_def make_attr_key_eq_iff)
  then have k: "attr_key pid attr st = 0" by (simp add: make_attr_key_def)
  have "find (\<lambda>j. slot_key b (pmem (proc st)) j = 0) (attr_slots 0) \<noteq> None"
    unfolding find_None_set using zero_slot [OF assms(5)] attr_slots_nodes [of 0] attr_slots_length [of 0]
    by (cases "attr_slots 0") auto
  then obtain j where "find (\<lambda>j. slot_key b (pmem (proc st)) j = attr_key pid attr st) (attr_slots (attr_key pid attr st)) = Some j"
    unfolding k by blast
  from update_attr_known [OF assms(1) this] show ?thesis by (simp add: ATTR_UPDATE_METHOD_SET_def ATTR_UPDATE_METHOD_INCR_def)
qed

section \<open>Attaching\<close>

lemma tab_size: "calc_hash_table_size sizeof_attr_node row_num_tab nodes_num_tab = Some 24000000"
  by code_simp

lemma row_num_tab: "row_num_tab = 20" "unat row_num_tab = 20" "length nodes_num_tab = 20" "length mods_tab = 20"
  by (simp_all add: row_num_tab_def nodes_num_tab_def mods_tab_def)

lemma init_tab:
  assumes "arrays_ok ht" "a \<noteq> 0"
  obtains ht' where "hash_table_init ht a 24000000 sizeof_attr_node row_num_tab nodes_num_tab mods_tab (Some attr_node_compare) = Some (0, ht')"
    "laid_out a 24 20 nodes_num_tab mods_tab ht'" "compare ht' = Some attr_node_compare" "total_node_num ht' = 1000000"
proof -
  from hash_table_init_iff [OF assms(1), of row_num_tab nodes_num_tab mods_tab a 24000000 24 "Some attr_node_compare"]
  obtain ht' where "hash_table_init ht a 24000000 24 row_num_tab nodes_num_tab mods_tab (Some attr_node_compare) = Some (0, ht')"
    "laid_out a 24 20 nodes_num_tab mods_tab ht'" "compare ht' = Some attr_node_compare"
    using tab_rows_ok assms(2) by (auto simp: row_num_tab row_base_tab)
  moreover from this have "total_node_num ht' = 1000000" by (simp add: laid_out_def row_base_tab)
  ultimately show ?thesis using that by (simp add: sizeof_attr_node_def)
qed

lemma get_attr_shm_ok:
  assumes "get_shm_create_noinitexist sys SHM_KEY_ATTR 24000000 None 0 (proc st) = Some (r, p1)"
    and "update_shm_attach sys (Some (init_shm_mgr (attr_mgr st) SHM_KEY_ATTR)) p1 = (0, Some g, p2)"
    and "arrays_ok (attr_nodes_htab st)" "shm g \<noteq> 0"
  obtains st' where "get_attr_shm sys st = Some (0, st')" "attr_shm st' = shm g" "proc st' = p2" "keypid st' = keypid st"
    "laid_out (shm g) 24 20 nodes_num_tab mods_tab (attr_nodes_htab st')"
    "compare (attr_nodes_htab st') = Some attr_node_compare"
proof -
  obtain ht' where h: "hash_table_init (attr_nodes_htab st) (shm g) 24000000 sizeof_attr_node row_num_tab nodes_num_tab mods_tab
      (Some attr_node_compare) = Some (0, ht')" "laid_out (shm g) 24 20 nodes_num_tab mods_tab ht'"
    "compare ht' = Some attr_node_compare" "total_node_num ht' = 1000000" by (rule init_tab [OF assms(3,4)])
  show ?thesis
    by (rule that [of "st\<lparr>attr_mgr := g, proc := p2, attr_nodes_htab := ht', attr_shm := shm g\<rparr>"])
      (simp_all add: get_attr_shm_def tab_size assms(1,2) h MAX_HT_NODES_NUM_def Let_def)
qed

text \<open>A kernel with one segment of \<open>n\<close> bytes, mapped at 65536, and a process that has not used it yet.\<close>

definition one_segment :: "u64 \<Rightarrow> unit shm_sys" where
  "one_segment n = \<lparr>shmget = \<lambda>_ _ _ _. (7, ()), shmctl_stat = \<lambda>_ _. Some n,
     shmat = \<lambda>_ p. (65536, p\<lparr>mapped := \<lambda>a. 65536 \<le> a \<and> a < 65536 + unat n\<rparr>), shmdt = \<lambda>_ p. p\<rparr>"

definition new_process :: "unit attr_state" where
  "new_process = \<lparr>proc = \<lparr>pmem = \<lambda>_. 0, mapped = \<lambda>_. False, kern = ()\<rparr>,
     attr_mgr = \<lparr>key = 0, shmid = 0, size = 0, shm = 0\<rparr>, attr_nodes_htab = blank_table, keypid = 0, attr_shm = 0\<rparr>"

lemma one_segment_attach:
  obtains st where "get_attr_shm (one_segment n) new_process = Some (0, st)" "attr_shm st = 65536" "keypid st = 0"
    "proc st = \<lparr>pmem = \<lambda>_. 0, mapped = \<lambda>a. 65536 \<le> a \<and> a < 65536 + unat n, kern = ()\<rparr>"
    "laid_out 65536 24 20 nodes_num_tab mods_tab (attr_nodes_htab st)"
    "compare (attr_nodes_htab st) = Some attr_node_compare"
proof -
  have "\<exists>r. get_shm_create_noinitexist (one_segment n) SHM_KEY_ATTR 24000000 None 0 (proc new_process) = Some (r, proc new_process)"
    by (simp add: get_shm_create_noinitexist_def get_shm_def get_shm_info_def one_segment_def new_process_def SHM_KEY_ATTR_def)
  then obtain r where r: "get_shm_create_noinitexist (one_segment n) SHM_KEY_ATTR 24000000 None 0 (proc new_process) =
    Some (r, proc new_process)" ..
  have u: "update_shm_attach (one_segment n) (Some (init_shm_mgr (attr_mgr new_process) SHM_KEY_ATTR)) (proc new_process) =
    (0, Some \<lparr>key = 1000000, shmid = 7, size = n, shm = 65536\<rparr>,
     \<lparr>pmem = \<lambda>_. 0, mapped = \<lambda>a. 65536 \<le> a \<and> a < 65536 + unat n, kern = ()\<rparr>)"
    by (simp add: update_shm_attach_def get_shm_info_def one_segment_def new_process_def SHM_KEY_ATTR_def init_shm_mgr_def)
  from get_attr_shm_ok [OF r u] show ?thesis
    using that by (auto simp: new_process_def)
qed

theorem attr_run_refines_witness:
  "\<exists>st. get_attr_shm (one_segment 24000000) new_process = Some (0, st) \<and>
    map_option fst (attr_run (one_segment 24000000) 4242 [Incr 10001 100, Incr 10001 5, Get 10001, Put 10002 7, Get 10003] st) =
    Some [Updated 0 (Some False), Updated 0 (Some True), Got 0 (Some (105, True)), Updated 0 (Some False), Got 0 (Some (0, False))]"
proof -
  obtain st where st: "get_attr_shm (one_segment 24000000) new_process = Some (0, st)" "attr_shm st = 65536" "keypid st = 0"
    "proc st = \<lparr>pmem = \<lambda>_. 0, mapped = \<lambda>a. 65536 \<le> a \<and> a < 65536 + unat (24000000 :: u64), kern = ()\<rparr>"
    "laid_out 65536 24 20 nodes_num_tab mods_tab (attr_nodes_htab st)"
    "compare (attr_nodes_htab st) = Some attr_node_compare" by (rule one_segment_attach)
  have a: "attached 65536 st" using st by (simp add: attached_def)
  let ?ps = "[Incr 10001 100, Incr 10001 5, Get 10001, Put 10002 7, Get 10003]"
  have "map_option fst (attr_run (one_segment 24000000) 4242 ?ps st) = map_option fst (attr_spec_run ?ps Map.empty)"
    by (rule attr_run_refines [OF a st(3)]) (simp_all add: st(4))
  then show ?thesis using st(1) by (simp add: signed_add_def)
qed

text \<open>
  \<open>get_attr_shm\<close> ignores the failure of \<open>get_shm\<close>. When the kernel has a smaller segment
  under the key it attaches that one, reports success, and the first update reads outside it.
\<close>

theorem attr_small_segment_accepted:
  "\<exists>st. get_attr_shm (one_segment 24) new_process = Some (0, st) \<and>
    update_attr (one_segment 24) 4242 10001 100 ATTR_UPDATE_METHOD_INCR st = None"
proof -
  obtain st where st: "get_attr_shm (one_segment 24) new_process = Some (0, st)" "attr_shm st = 65536" "keypid st = 0"
    "proc st = \<lparr>pmem = \<lambda>_. 0, mapped = \<lambda>a. 65536 \<le> a \<and> a < 65536 + unat (24 :: u64), kern = ()\<rparr>"
    "laid_out 65536 24 20 nodes_num_tab mods_tab (attr_nodes_htab st)"
    "compare (attr_nodes_htab st) = Some attr_node_compare" by (rule one_segment_attach)
  let ?k = "make_attr_key 10001 4242"
  have k: "ucast ?k = (0x37933783 :: u32)" by code_simp
  have n: "node_of (attr_nodes_htab st) (ucast ?k) 0 = 390280"
    using node_of_index [OF st(5), of 0 "ucast ?k"] by (simp add: k node_index_def mods_tab_def)
  have "\<not> accessible (proc st) 390280 8" by (simp add: st(4) accessible_def list_all_iff, rule exI [of _ 0], simp)
  then have c: "call_compare (attr_nodes_htab st) ?k 390280 (proc st) = None"
    by (simp add: call_compare_def st(6) attr_node_compare_def node_key_def)
  have rn: "unat (row_num (attr_nodes_htab st)) = Suc 19" "mods (attr_nodes_htab st) ! 0 \<noteq> 0"
    using st(5) laid_outD(4) [OF st(5), of 0] by (simp_all add: laid_out_def)
  have "HTAB_LOOKUP_EX (attr_nodes_htab st) ?k (proc st) = None"
    using n c rn(2) by (simp add: HTAB_LOOKUP_EX_def hash_table_lookup_node_ex_def rn(1) upt_conv_Cons del: upt_Suc)
  then have "update_attr (one_segment 24) 4242 10001 100 ATTR_UPDATE_METHOD_INCR st = None"
    using st(2,3) by (simp add: update_attr_def no_attr_shm_def set_keypid_def)
  with st(1) show ?thesis by blast
qed

end
