(* ===== verification/Session.thy ===== *)
theory Session
  imports QDes Memory
begin

text \<open>
  \<open>project/constants.h\<close>, \<open>project/types.h\<close> and \<open>project/utilities.h\<close>: user numbers, and
  login sessions, 16 bytes that hold an address, a time (twice) and a user number under DES.
  What \<open>time(0)\<close> returns is an argument; \<open>TW_VER\<close> is the preprocessor symbol that selects the
  key. \<open>None\<close> is a read past the end of a buffer.
\<close>

section \<open>User numbers\<close>

definition base_user_id :: u32 where "base_user_id = 50000"
definition base_guest_id :: u32 where "base_guest_id = 2000000001"

definition is_guest_id :: "u32 \<Rightarrow> int" where
  "is_guest_id uid = c_bool (uid \<ge> base_guest_id)"

definition is_valid_uid :: "u32 \<Rightarrow> int" where
  "is_valid_uid uid = c_bool (uid < base_guest_id \<and> uid \<ge> base_user_id)"

section \<open>Sessions\<close>

definition LOGIN_DES_KEY :: "bool \<Rightarrow> bytes" where
  "LOGIN_DES_KEY TW_VER = map of_char (if TW_VER then '',.ta0me>'' else ''!tA:mEv,'')"

definition encrypt_login_session :: "bool \<Rightarrow> int \<Rightarrow> u32 \<Rightarrow> u32 \<Rightarrow> (int \<times> bytes) option" where
  "encrypt_login_session tw time uid ip =
     (let inbuf1 = word_of_int time;
          inbuf = le32 ip @ le32 inbuf1 @ le32 uid @ le32 inbuf1
      in map_option (\<lambda>buf. (16, buf)) (des_encrypt_n (LOGIN_DES_KEY tw) inbuf 2))"

definition verify_login_session :: "bool \<Rightarrow> int \<Rightarrow> u32 \<Rightarrow> bytes \<Rightarrow> int option" where
  "verify_login_session tw time uid sess =
     map_option (\<lambda>out.
       let outbuf = (\<lambda>i. of_le32 (take 4 (drop (4 * i) out)));
           diff = time - uint (outbuf 1)
       in if outbuf 2 \<noteq> uid \<or> outbuf 1 \<noteq> outbuf 3 \<or> diff > 1800 \<or> diff < -1800 then -1 else 0)
       (des_decrypt_n (LOGIN_DES_KEY tw) sess 2)"

section \<open>Properties\<close>

lemma key_length: "8 \<le> length (LOGIN_DES_KEY tw)"
  by (simp add: LOGIN_DES_KEY_def)

lemma four_words:
  "length bs = 16 \<Longrightarrow> bs = le32 (of_le32 (take 4 bs)) @ le32 (of_le32 (take 4 (drop 4 bs))) @
     le32 (of_le32 (take 4 (drop 8 bs))) @ le32 (of_le32 (take 4 (drop 12 bs)))"
proof -
  assume l: "length bs = 16"
  have "bs = take 4 bs @ take 4 (drop 4 bs) @ take 4 (drop 8 bs) @ take 4 (drop 12 bs)"
    using append_take_drop_id [of 4 bs] append_take_drop_id [of 4 "drop 4 bs"] append_take_drop_id [of 4 "drop 8 bs"] l
    by (simp del: append_take_drop_id)
  then show ?thesis using l by (simp add: le32_of_le32)
qed

text \<open>
  C29: the sessions a user is let in with at a time are, among all strings of 16 bytes, exactly
  those that \<open>encrypt_login_session\<close> makes for this user, for some address and for a time (of
  the 32-bit epoch) that is at most 1800 seconds away, whatever the key in use.
\<close>

theorem session_accepted_iff:
  assumes "length sess = 16"
  shows "verify_login_session tw now uid sess = Some 0 \<longleftrightarrow>
    (\<exists>ip t. encrypt_login_session tw t uid ip = Some (16, sess) \<and> 0 \<le> t \<and> t < 2 ^ 32 \<and> \<bar>now - t\<bar> \<le> 1800)"
proof
  assume v: "verify_login_session tw now uid sess = Some 0"
  from des_n_inverse(2) [OF key_length, of 2 sess tw] assms
  obtain out where out: "des_decrypt_n (LOGIN_DES_KEY tw) sess 2 = Some out" "length out = 16"
    "des_encrypt_n (LOGIN_DES_KEY tw) out 2 = Some sess" by auto
  let ?w = "\<lambda>i. of_le32 (take 4 (drop (4 * i) out))"
  have w: "?w 2 = uid" "?w 1 = ?w 3" "\<bar>now - uint (?w 1)\<bar> \<le> 1800"
    using v by (auto simp: verify_login_session_def out(1) Let_def split: if_split_asm)
  have "out = le32 (?w 0) @ le32 (?w 1) @ le32 uid @ le32 (?w 1)"
    using four_words [OF out(2)] w(1,2) by simp
  then have "encrypt_login_session tw (uint (?w 1)) uid (?w 0) = Some (16, sess)"
    using out(3) by (simp add: encrypt_login_session_def Let_def)
  moreover have "uint (?w 1) < 2 ^ 32" using uint_lt2p [of "?w 1"] by simp
  ultimately show "\<exists>ip t. encrypt_login_session tw t uid ip = Some (16, sess) \<and> 0 \<le> t \<and> t < 2 ^ 32 \<and> \<bar>now - t\<bar> \<le> 1800"
    using w(3) by blast
next
  assume "\<exists>ip t. encrypt_login_session tw t uid ip = Some (16, sess) \<and> 0 \<le> t \<and> t < 2 ^ 32 \<and> \<bar>now - t\<bar> \<le> 1800"
  then obtain ip t where e: "encrypt_login_session tw t uid ip = Some (16, sess)" "0 \<le> t" "t < 2 ^ 32" "\<bar>now - t\<bar> \<le> 1800"
    by blast
  let ?in = "le32 ip @ le32 (word_of_int t) @ le32 uid @ le32 (word_of_int t)"
  from des_n_inverse(1) [OF key_length, of 2 ?in tw] e(1)
  have d: "des_decrypt_n (LOGIN_DES_KEY tw) sess 2 = Some ?in"
    by (auto simp: encrypt_login_session_def Let_def)
  have t: "uint (word_of_int t :: u32) = t" using e(2,3) by (simp add: uint_word_of_int)
  show "verify_login_session tw now uid sess = Some 0"
    using e(4) by (auto simp: verify_login_session_def d Let_def t)
qed

lemma encrypt_login_session_total: "\<exists>s. encrypt_login_session tw t uid ip = Some (16, s) \<and> length s = 16"
  using des_n_inverse(1) [OF key_length, of 2 "le32 ip @ le32 (word_of_int t) @ le32 uid @ le32 (word_of_int t)" tw]
  by (auto simp: encrypt_login_session_def Let_def)

theorem session_accepted_iff_witness:
  "\<exists>s. encrypt_login_session False 1000000 60000 7 = Some (16, s) \<and> verify_login_session False 1001800 60000 s = Some 0"
proof -
  obtain s where s: "encrypt_login_session False 1000000 60000 7 = Some (16, s)" "length s = 16"
    using encrypt_login_session_total by blast
  have "verify_login_session False 1001800 60000 s = Some 0"
    unfolding session_accepted_iff [OF s(2)] using s(1) by (intro exI [of _ 7] exI [of _ 1000000]) simp
  with s(1) show ?thesis by blast
qed

text \<open>After the last second of the 32-bit epoch no session is accepted at the time it is made.\<close>

lemma session_after_2106:
  assumes "encrypt_login_session tw t uid ip = Some (16, s)" "2 ^ 32 + 1800 \<le> t"
  shows "verify_login_session tw t uid s = Some (-1)"
proof -
  let ?in = "le32 ip @ le32 (word_of_int t) @ le32 uid @ le32 (word_of_int t)"
  from des_n_inverse(1) [OF key_length, of 2 ?in tw] assms(1)
  have d: "des_decrypt_n (LOGIN_DES_KEY tw) s 2 = Some ?in"
    by (auto simp: encrypt_login_session_def Let_def)
  have "uint (word_of_int t :: u32) < 2 ^ 32" using uint_lt2p [of "word_of_int t :: u32"] by simp
  then show ?thesis using assms(2) by (auto simp: verify_login_session_def d Let_def)
qed

end
