(* ===== verification/BitManip.thy ===== *)
theory BitManip
  imports Prelude
begin

unbundle bit_operations_syntax

text \<open>
  \<open>bitmanip/bitmanip.h\<close>: counting the bits of a number, and setting, clearing and testing a
  bit of an array of bytes or of a number. Positions start at 1. \<open>None\<close> is a failed
  \<open>assert\<close>, a shift by the width of its operand or more, or an access outside the array.
\<close>

section \<open>Counting bits\<close>

definition nbits_on8 :: "u8 \<Rightarrow> int" where
  "nbits_on8 v =
     (let v = drop_bit 1 (v AND 0xAA) + (v AND 0x55);
          v = drop_bit 2 (v AND 0xCC) + (v AND 0x33);
          v = drop_bit 4 (v AND 0xF0) + (v AND 0x0F)
      in uint v)"

text \<open>The macro reads a number byte by byte; \<open>byte i\<close> is the byte at offset \<open>i\<close> of its representation.\<close>

fun NBITS_ON :: "(nat \<Rightarrow> u8) \<Rightarrow> nat \<Rightarrow> nat \<Rightarrow> int \<Rightarrow> int" where
  "NBITS_ON byte i 0 cnt = cnt"
| "NBITS_ON byte i (Suc left) cnt = NBITS_ON byte (Suc i) left (cnt + nbits_on8 (byte i))"

definition byte_of :: "'a :: len word \<Rightarrow> nat \<Rightarrow> u8" where
  "byte_of v i = ucast (drop_bit (8 * i) v)"

definition nbits_on16 :: "u16 \<Rightarrow> int" where "nbits_on16 v = NBITS_ON (byte_of v) 0 2 0"
definition nbits_on32 :: "u32 \<Rightarrow> int" where "nbits_on32 v = NBITS_ON (byte_of v) 0 4 0"
definition nbits_on64 :: "u64 \<Rightarrow> int" where "nbits_on64 v = NBITS_ON (byte_of v) 0 8 0"

section \<open>Arrays of bytes\<close>

definition bit_slot :: "bytes \<Rightarrow> u64 \<Rightarrow> int \<Rightarrow> (nat \<times> nat) option" where
  "bit_slot arr len pos =
     (if \<not> pos > 0 then None
      else
        let pos = pos - 1; i = pos div 8
        in if \<not> i < uint len then None
           else if length arr \<le> nat i then None
           else Some (nat i, nat (pos mod 8)))"

definition set_bit_on :: "bytes \<Rightarrow> u64 \<Rightarrow> int \<Rightarrow> bytes option" where
  "set_bit_on arr len pos =
     map_option (\<lambda>(i, k). arr[i := arr ! i OR push_bit k 1]) (bit_slot arr len pos)"

definition set_bit_off :: "bytes \<Rightarrow> u64 \<Rightarrow> int \<Rightarrow> bytes option" where
  "set_bit_off arr len pos =
     map_option (\<lambda>(i, k). arr[i := arr ! i AND NOT (push_bit k 1)]) (bit_slot arr len pos)"

definition test_bit_on :: "bytes \<Rightarrow> u64 \<Rightarrow> int \<Rightarrow> int option" where
  "test_bit_on arr len pos =
     map_option (\<lambda>(i, k). c_bool (arr ! i AND push_bit k 1 \<noteq> 0)) (bit_slot arr len pos)"

section \<open>Numbers\<close>

definition set_bit_on32 :: "u32 \<Rightarrow> int \<Rightarrow> u32 option" where
  "set_bit_on32 v pos = (if \<not> pos > 0 \<or> pos - 1 \<ge> 32 then None else Some (v OR push_bit (nat (pos - 1)) 1))"

definition set_bit_on64 :: "u64 \<Rightarrow> int \<Rightarrow> u64 option" where
  "set_bit_on64 v pos = (if \<not> pos > 0 \<or> pos - 1 \<ge> 64 then None else Some (v OR push_bit (nat (pos - 1)) 1))"

definition set_bit_off32 :: "u32 \<Rightarrow> int \<Rightarrow> u32 option" where
  "set_bit_off32 v pos = (if \<not> pos > 0 \<or> pos - 1 \<ge> 32 then None else Some (v AND NOT (push_bit (nat (pos - 1)) 1)))"

definition set_bit_off64 :: "u64 \<Rightarrow> int \<Rightarrow> u64 option" where
  "set_bit_off64 v pos = (if \<not> pos > 0 \<or> pos - 1 \<ge> 64 then None else Some (v AND NOT (push_bit (nat (pos - 1)) 1)))"

definition test_bit_on32 :: "u32 \<Rightarrow> int \<Rightarrow> int option" where
  "test_bit_on32 v pos = (if \<not> pos > 0 \<or> pos - 1 \<ge> 32 then None else Some (c_bool (v AND push_bit (nat (pos - 1)) 1 \<noteq> 0)))"

definition test_bit_on64 :: "u64 \<Rightarrow> int \<Rightarrow> int option" where
  "test_bit_on64 v pos = (if \<not> pos > 0 \<or> pos - 1 \<ge> 64 then None else Some (c_bool (v AND push_bit (nat (pos - 1)) 1 \<noteq> 0)))"

section \<open>Populations\<close>

definition popcount :: "'a :: len word \<Rightarrow> nat" where
  "popcount v = length (filter (bit v) [0..<LENGTH('a)])"

lemma popcount_card: "popcount v = card {n. bit v n}"
proof -
  have "{n. bit v n} = set (filter (bit v) [0..<LENGTH('a)])" for v :: "'a :: len word"
    by (auto dest: bit_imp_le_length)
  then show ?thesis by (metis popcount_def distinct_card distinct_filter distinct_upt)
qed

lemma upt_8: "[0..<8] = [0, 1, 2, 3, 4, 5, 6, 7 :: nat]"
  by (simp add: upt_rec)

text \<open>A byte is the sum of its bits.\<close>

lemma u8_bits:
  "(v :: u8) = of_bool (bit v 0) + 2 * of_bool (bit v 1) + 4 * of_bool (bit v 2) + 8 * of_bool (bit v 3) +
    16 * of_bool (bit v 4) + 32 * of_bool (bit v 5) + 64 * of_bool (bit v 6) + 128 * of_bool (bit v 7)"
proof -
  have h: "horner_sum of_bool 2 [b0, b1, b2, b3, b4, b5, b6, b7] = (of_bool b0 + 2 * of_bool b1 + 4 * of_bool b2 + 8 * of_bool b3 +
    16 * of_bool b4 + 32 * of_bool b5 + 64 * of_bool b6 + 128 * of_bool b7 :: u8)" for b0 b1 b2 b3 b4 b5 b6 b7
    by (simp add: algebra_simps)
  have "horner_sum of_bool 2 (map (bit v) [0..<8]) = take_bit 8 v" by (rule horner_sum_bit_eq_take_bit)
  then have "horner_sum of_bool 2 (map (bit v) [0..<8]) = v" by (simp add: take_bit_word_eq_self)
  then show ?thesis unfolding upt_8 list.map h by (rule sym)
qed

lemma nbits_on8_sum:
  "nbits_on8 (of_bool b0 + 2 * of_bool b1 + 4 * of_bool b2 + 8 * of_bool b3 + 16 * of_bool b4 + 32 * of_bool b5 +
     64 * of_bool b6 + 128 * of_bool b7) =
   of_bool b0 + of_bool b1 + of_bool b2 + of_bool b3 + of_bool b4 + of_bool b5 + of_bool b6 + of_bool b7"
  by (cases b0; cases b1; cases b2; cases b3; cases b4; cases b5; cases b6; cases b7) (simp_all add: nbits_on8_def)

lemma nbits_on8_popcount: "nbits_on8 v = int (popcount v)"
proof -
  have "popcount v = of_bool (bit v 0) + of_bool (bit v 1) + of_bool (bit v 2) + of_bool (bit v 3) + of_bool (bit v 4) +
    of_bool (bit v 5) + of_bool (bit v 6) + of_bool (bit v 7)"
    by (simp add: popcount_def upt_8)
  then show ?thesis by (subst u8_bits [of v]) (simp only: nbits_on8_sum of_nat_add of_nat_of_bool)
qed

text \<open>The bits of a number from bit \<open>8 * i\<close> on, a byte at a time.\<close>

lemma NBITS_ON_count:
  fixes v :: "'a :: len word"
  shows "8 * (i + left) \<le> LENGTH('a) \<Longrightarrow>
    NBITS_ON (byte_of v) i left cnt = cnt + int (length (filter (bit v) [8 * i..<8 * (i + left)]))"
proof (induction left arbitrary: i cnt)
  case (Suc left)
  have "filter (bit (byte_of v i)) [0..<8] = filter (\<lambda>n. bit v (8 * i + n)) [0..<8]"
    using Suc.prems by (intro filter_cong) (auto simp: byte_of_def bit_simps)
  then have "popcount (byte_of v i) = length (filter (bit v) (map (\<lambda>n. 8 * i + n) [0..<8]))"
    by (simp add: popcount_def filter_map comp_def)
  also have "map (\<lambda>n. 8 * i + n) [0..<8] = [8 * i..<8 * i + 8]"
    using map_add_upt [of "8 * i" 8] by (simp add: add.commute)
  finally have p: "popcount (byte_of v i) = length (filter (bit v) [8 * i..<8 * i + 8])" .
  have "[8 * i..<8 * (i + Suc left)] = [8 * i..<8 * i + 8] @ [8 * Suc i..<8 * (Suc i + left)]"
    using upt_add_eq_append [of "8 * i" "8 * i + 8" "8 * left"] by (simp add: algebra_simps)
  then show ?case using Suc p by (simp add: nbits_on8_popcount add.assoc)
qed simp

lemma nbits_popcount:
  "nbits_on16 w16 = int (popcount w16)" "nbits_on32 w32 = int (popcount w32)" "nbits_on64 w64 = int (popcount w64)"
  using NBITS_ON_count [of 0 2 w16 0] NBITS_ON_count [of 0 4 w32 0] NBITS_ON_count [of 0 8 w64 0]
  by (simp_all add: nbits_on16_def nbits_on32_def nbits_on64_def popcount_def)

text \<open>
  Each of the four counting functions returns the number of bits set in its argument.
\<close>

theorem nbits_count:
  "nbits_on8 w8 = int (card {n. bit w8 n}) \<and> nbits_on16 w16 = int (card {n. bit w16 n}) \<and>
   nbits_on32 w32 = int (card {n. bit w32 n}) \<and> nbits_on64 w64 = int (card {n. bit w64 n})"
  by (simp add: nbits_on8_popcount nbits_popcount popcount_card)

section \<open>Sets of positions\<close>

text \<open>
  The contract the array and both widths of numbers share: what is stored is a set of
  positions, some positions are valid, and at these setting, clearing and testing are
  insertion, deletion and membership; at all others the functions do not return.
\<close>

datatype bit_op = SetOn int | SetOff int | TestOn int

fun bit_exec ::
  "('s \<Rightarrow> int \<Rightarrow> 's option) \<Rightarrow> ('s \<Rightarrow> int \<Rightarrow> 's option) \<Rightarrow> ('s \<Rightarrow> int \<Rightarrow> int option) \<Rightarrow> bit_op \<Rightarrow> 's \<Rightarrow> (int list \<times> 's) option" where
  "bit_exec on off test (SetOn p) s = map_option (Pair []) (on s p)"
| "bit_exec on off test (SetOff p) s = map_option (Pair []) (off s p)"
| "bit_exec on off test (TestOn p) s = map_option (\<lambda>r. ([r], s)) (test s p)"

fun bit_run ::
  "('s \<Rightarrow> int \<Rightarrow> 's option) \<Rightarrow> ('s \<Rightarrow> int \<Rightarrow> 's option) \<Rightarrow> ('s \<Rightarrow> int \<Rightarrow> int option) \<Rightarrow> bit_op list \<Rightarrow> 's \<Rightarrow> (int list \<times> 's) option" where
  "bit_run on off test [] s = Some ([], s)"
| "bit_run on off test (p # ps) s = do {
     (x, s) \<leftarrow> bit_exec on off test p s;
     (xs, s) \<leftarrow> bit_run on off test ps s;
     Some (x @ xs, s) }"

fun pos_of :: "bit_op \<Rightarrow> int" where
  "pos_of (SetOn p) = p" | "pos_of (SetOff p) = p" | "pos_of (TestOn p) = p"

fun spec_exec :: "bit_op \<Rightarrow> int set \<Rightarrow> int list \<times> int set" where
  "spec_exec (SetOn p) A = ([], insert p A)"
| "spec_exec (SetOff p) A = ([], A - {p})"
| "spec_exec (TestOn p) A = ([c_bool (p \<in> A)], A)"

fun spec_run :: "bit_op list \<Rightarrow> int set \<Rightarrow> int list \<times> int set" where
  "spec_run [] A = ([], A)"
| "spec_run (p # ps) A =
     (case spec_exec p A of (x, A) \<Rightarrow> case spec_run ps A of (xs, A) \<Rightarrow> (x @ xs, A))"

locale bit_store =
  fixes on off :: "'s \<Rightarrow> int \<Rightarrow> 's option"
    and test :: "'s \<Rightarrow> int \<Rightarrow> int option"
    and bits :: "'s \<Rightarrow> int set"
    and valid :: "int \<Rightarrow> bool"
    and wf :: "'s \<Rightarrow> bool"
  assumes on_law: "wf s \<Longrightarrow> valid p \<Longrightarrow> \<exists>s'. on s p = Some s' \<and> wf s' \<and> bits s' = insert p (bits s)"
    and off_law: "wf s \<Longrightarrow> valid p \<Longrightarrow> \<exists>s'. off s p = Some s' \<and> wf s' \<and> bits s' = bits s - {p}"
    and test_law: "wf s \<Longrightarrow> valid p \<Longrightarrow> test s p = Some (c_bool (p \<in> bits s))"
    and invalid: "wf s \<Longrightarrow> \<not> valid p \<Longrightarrow> on s p = None \<and> off s p = None \<and> test s p = None"
begin

lemma exec_refines:
  assumes "wf s"
  shows "if valid (pos_of p) then \<exists>s'. bit_exec on off test p s = Some (fst (spec_exec p (bits s)), s') \<and> wf s' \<and>
      bits s' = snd (spec_exec p (bits s))
    else bit_exec on off test p s = None"
  using on_law [OF assms, of "pos_of p"] off_law [OF assms, of "pos_of p"] test_law [OF assms, of "pos_of p"]
    invalid [OF assms, of "pos_of p"] assms
  by (cases p) auto

lemma run_refines:
  "wf s \<Longrightarrow> if \<forall>p \<in> set ps. valid (pos_of p)
    then \<exists>s'. bit_run on off test ps s = Some (fst (spec_run ps (bits s)), s') \<and> wf s' \<and> bits s' = snd (spec_run ps (bits s))
    else bit_run on off test ps s = None"
proof (induction ps arbitrary: s)
  case (Cons p ps)
  show ?case
  proof (cases "valid (pos_of p)")
    case True
    with exec_refines [OF Cons.prems, of p] obtain s' where
      s: "bit_exec on off test p s = Some (fst (spec_exec p (bits s)), s')" "wf s'" "bits s' = snd (spec_exec p (bits s))" by auto
    show ?thesis using Cons.IH [OF s(2)] s True by (auto split: prod.splits if_split_asm)
  next
    case False
    then show ?thesis using exec_refines [OF Cons.prems, of p] by simp
  qed
qed simp

end

section \<open>The stores\<close>

lemma bit_single: "v AND 2 ^ k = 0 \<longleftrightarrow> \<not> bit v k" for v :: "'a :: len word"
  using bit_iff_and_push_bit_not_eq_0 [of v k] by (simp add: push_bit_eq_mult)

lemma bit_u8_on: "k < 8 \<Longrightarrow> bit ((v :: u8) OR push_bit k 1) n \<longleftrightarrow> bit v n \<or> n = k"
  by (auto simp: bit_simps)

lemma bit_u8_off: "k < 8 \<Longrightarrow> bit ((v :: u8) AND NOT (push_bit k 1)) n \<longleftrightarrow> bit v n \<and> n \<noteq> k"
  by (auto simp: bit_simps dest: bit_imp_le_length)

definition word_bits :: "'a :: len word \<Rightarrow> int set" where
  "word_bits v = {p. p > 0 \<and> bit v (nat (p - 1))}"

lemma pos_eq: "p > 0 \<Longrightarrow> q > 0 \<Longrightarrow> nat (p - 1) = nat (q - 1) \<longleftrightarrow> p = q"
  by auto

lemma word_bits_on:
  "0 < p \<Longrightarrow> p \<le> int LENGTH('a) \<Longrightarrow> word_bits ((v :: 'a :: len word) OR 2 ^ nat (p - 1)) = insert p (word_bits v)"
  by (auto simp: word_bits_def bit_simps pos_eq)

lemma word_bits_off:
  "0 < p \<Longrightarrow> p \<le> int LENGTH('a) \<Longrightarrow> word_bits ((v :: 'a :: len word) AND NOT (2 ^ nat (p - 1))) = word_bits v - {p}"
  by (auto simp: word_bits_def bit_simps pos_eq dest: bit_imp_le_length)

lemma word_bits_pos: "0 < p \<Longrightarrow> bit v (nat (p - 1)) \<longleftrightarrow> p \<in> word_bits v"
  by (simp add: word_bits_def)

interpretation w32: bit_store set_bit_on32 set_bit_off32 test_bit_on32 word_bits "\<lambda>p. 0 < p \<and> p \<le> 32" "\<lambda>_. True"
  by unfold_locales
    (simp_all add: set_bit_on32_def set_bit_off32_def test_bit_on32_def word_bits_on word_bits_off bit_single word_bits_pos not_le)

interpretation w64: bit_store set_bit_on64 set_bit_off64 test_bit_on64 word_bits "\<lambda>p. 0 < p \<and> p \<le> 64" "\<lambda>_. True"
  by unfold_locales
    (simp_all add: set_bit_on64_def set_bit_off64_def test_bit_on64_def word_bits_on word_bits_off bit_single word_bits_pos not_le)

definition array_bits :: "bytes \<Rightarrow> int set" where
  "array_bits arr = {p. 0 < p \<and> p \<le> 8 * int (length arr) \<and> bit (arr ! nat ((p - 1) div 8)) (nat ((p - 1) mod 8))}"

lemma bit_slot_eq:
  assumes "int (length arr) = uint len"
  shows "bit_slot arr len p =
    (if 0 < p \<and> p \<le> 8 * uint len then Some (nat ((p - 1) div 8), nat ((p - 1) mod 8)) else None)"
  using assms by (auto simp: bit_slot_def Let_def)

lemma slot_pos:
  assumes "0 < p" "0 < q" "nat ((p - 1) div 8) = nat ((q - 1) div 8)" "nat ((p - 1) mod 8) = nat ((q - 1) mod 8)"
  shows "p = q"
proof -
  have "0 \<le> (p - 1) div 8" "0 \<le> (q - 1) div 8" using assms(1,2) by (simp_all add: pos_imp_zdiv_nonneg_iff)
  then have d: "(p - 1) div 8 = (q - 1) div 8" using assms(3) by (rule iffD1 [OF eq_nat_nat_iff])
  have "0 \<le> (p - 1) mod 8" "0 \<le> (q - 1) mod 8" by simp_all
  then have m: "(p - 1) mod 8 = (q - 1) mod 8" using assms(4) by (rule iffD1 [OF eq_nat_nat_iff])
  have "p - 1 = q - 1"
    using div_mult_mod_eq [of "p - 1" 8] div_mult_mod_eq [of "q - 1" 8] unfolding d m by (rule trans [OF sym])
  then show ?thesis by simp
qed

text \<open>Changing the byte of position \<open>p\<close> at its bit only.\<close>

lemma array_bits_update:
  assumes p: "0 < p" "p \<le> 8 * int (length arr)"
    and bit: "\<And>n. n \<noteq> nat ((p - 1) mod 8) \<Longrightarrow> bit x n = bit (arr ! nat ((p - 1) div 8)) n"
  shows "array_bits (arr[nat ((p - 1) div 8) := x]) =
    (if bit x (nat ((p - 1) mod 8)) then insert p (array_bits arr) else array_bits arr - {p})"
proof (rule set_eqI)
  fix q
  let ?i = "nat ((p - 1) div 8)" and ?j = "nat ((q - 1) div 8)" and ?m = "nat ((q - 1) mod 8)"
  have "(p - 1) div 8 < int (length arr)" using p by presburger
  then have i: "?i < length arr" using p by (simp add: nat_less_iff pos_imp_zdiv_nonneg_iff)
  have mem: "r \<in> array_bits arr' \<longleftrightarrow> 0 < r \<and> r \<le> 8 * int (length arr') \<and>
    bit (arr' ! nat ((r - 1) div 8)) (nat ((r - 1) mod 8))" for r arr' by (simp only: array_bits_def mem_Collect_eq)
  note upd = mem [of _ "arr[?i := x]", unfolded length_list_update]
  have at_p: "p \<in> array_bits (arr[?i := x]) \<longleftrightarrow> bit x (nat ((p - 1) mod 8))"
    using p by (simp only: upd nth_list_update_eq [OF i] simp_thms)
  have other: "q \<in> array_bits (arr[?i := x]) \<longleftrightarrow> q \<in> array_bits arr" if "q \<noteq> p"
  proof (cases "0 < q \<and> ?j = ?i")
    case True
    then have "?m \<noteq> nat ((p - 1) mod 8)" using slot_pos [of q p] p(1) that by argo
    then show ?thesis using True by (simp only: upd mem nth_list_update_eq [OF i] bit simp_thms length_list_update)
  next
    case False
    then show ?thesis by (metis mem upd nth_list_update_neq)
  qed
  show "q \<in> array_bits (arr[?i := x]) \<longleftrightarrow>
    q \<in> (if bit x (nat ((p - 1) mod 8)) then insert p (array_bits arr) else array_bits arr - {p})"
  proof (cases "q = p")
    case True
    then show ?thesis using at_p by (simp split: if_split)
  next
    case False
    then show ?thesis using other [OF False] by (simp split: if_split)
  qed
qed

lemma array_bits_on:
  assumes "0 < p" "p \<le> 8 * int (length arr)"
  shows "array_bits (arr[nat ((p - 1) div 8) := arr ! nat ((p - 1) div 8) OR push_bit (nat ((p - 1) mod 8)) 1]) =
    insert p (array_bits arr)"
proof -
  have k: "nat ((p - 1) mod 8) < 8" by (simp add: nat_less_iff)
  show ?thesis by (subst array_bits_update [OF assms]) (simp_all only: bit_u8_on [OF k] if_True simp_thms)
qed

lemma array_bits_off:
  assumes "0 < p" "p \<le> 8 * int (length arr)"
  shows "array_bits (arr[nat ((p - 1) div 8) := arr ! nat ((p - 1) div 8) AND NOT (push_bit (nat ((p - 1) mod 8)) 1)]) =
    array_bits arr - {p}"
proof -
  have k: "nat ((p - 1) mod 8) < 8" by (simp add: nat_less_iff)
  show ?thesis by (subst array_bits_update [OF assms]) (simp_all only: bit_u8_off [OF k] if_False simp_thms)
qed

interpretation arr: bit_store "\<lambda>arr p. set_bit_on arr len p" "\<lambda>arr p. set_bit_off arr len p" "\<lambda>arr p. test_bit_on arr len p"
  array_bits "\<lambda>p. 0 < p \<and> p \<le> 8 * uint len" "\<lambda>arr. int (length arr) = uint len" for len
proof (unfold_locales, goal_cases)
  case (1 s p)
  then show ?case using array_bits_on [of p s] by (auto simp: set_bit_on_def bit_slot_eq)
next
  case (2 s p)
  then show ?case using array_bits_off [of p s] by (auto simp: set_bit_off_def bit_slot_eq)
next
  case (3 s p)
  then show ?case by (auto simp: test_bit_on_def bit_slot_eq bit_single array_bits_def)
next
  case (4 s p)
  then show ?case by (auto simp: set_bit_on_def set_bit_off_def test_bit_on_def bit_slot_eq)
qed

text \<open>
  C31: a program that sets, clears and tests bits of an array of \<open>len\<close> bytes gets the answers
  of a set of positions and leaves the array as that set; it goes through exactly when all its
  positions are between 1 and \<open>8 * len\<close>. The same holds of a 32-bit and a 64-bit number.
\<close>

theorem bit_programs_refine_sets:
  assumes "int (length arr) = uint len"
  shows "(if \<forall>p \<in> set ps. 0 < pos_of p \<and> pos_of p \<le> 8 * uint len
     then \<exists>arr'. bit_run (\<lambda>a p. set_bit_on a len p) (\<lambda>a p. set_bit_off a len p) (\<lambda>a p. test_bit_on a len p) ps arr =
         Some (fst (spec_run ps (array_bits arr)), arr') \<and> length arr' = length arr \<and> array_bits arr' = snd (spec_run ps (array_bits arr))
     else bit_run (\<lambda>a p. set_bit_on a len p) (\<lambda>a p. set_bit_off a len p) (\<lambda>a p. test_bit_on a len p) ps arr = None) \<and>
   (if \<forall>p \<in> set ps. 0 < pos_of p \<and> pos_of p \<le> 32
     then \<exists>v'. bit_run set_bit_on32 set_bit_off32 test_bit_on32 ps v = Some (fst (spec_run ps (word_bits v)), v') \<and>
         word_bits v' = snd (spec_run ps (word_bits v))
     else bit_run set_bit_on32 set_bit_off32 test_bit_on32 ps v = None) \<and>
   (if \<forall>p \<in> set ps. 0 < pos_of p \<and> pos_of p \<le> 64
     then \<exists>w'. bit_run set_bit_on64 set_bit_off64 test_bit_on64 ps w = Some (fst (spec_run ps (word_bits w)), w') \<and>
         word_bits w' = snd (spec_run ps (word_bits w))
     else bit_run set_bit_on64 set_bit_off64 test_bit_on64 ps w = None)"
  using arr.run_refines [OF assms, where ps = ps] w32.run_refines [where s = v and ps = ps]
    w64.run_refines [where s = w and ps = ps] assms
  by (auto split: if_split_asm)

theorem bit_programs_refine_sets_witness:
  "\<exists>arr'. bit_run (\<lambda>a p. set_bit_on a 2 p) (\<lambda>a p. set_bit_off a 2 p) (\<lambda>a p. test_bit_on a 2 p)
     [SetOn 9, SetOn 16, SetOff 9, TestOn 9, TestOn 16] [0, 0] = Some ([0, 1], arr')"
proof -
  have "array_bits [0, 0] = {}" by (auto simp: array_bits_def nth_Cons')
  moreover have "int (length [0 :: u8, 0]) = uint (2 :: u64)" by simp
  ultimately show ?thesis
    using bit_programs_refine_sets [of "[0, 0]" 2 "[SetOn 9, SetOn 16, SetOff 9, TestOn 9, TestOn 16]" 0 0]
    by (auto simp del: bit_run.simps)
qed

end
