(* ===== verification/BinStr.thy ===== *)
theory BinStr
  imports Memory
begin

text \<open>
  \<open>dataformatter/bin_str.h\<close>: bytes to and from hexadecimal text. Characters are bytes; \<open>char\<close>
  is signed. Buffers are memory at an address, as the functions write through a pointer.
\<close>

section \<open>Digits\<close>

text \<open>\<open>toupper\<close> in the C locale, on a signed character.\<close>

definition toupper_c :: "u8 \<Rightarrow> u8" where
  "toupper_c c = (if 97 \<le> c \<and> c \<le> 122 then c - 32 else c)"

definition hex_value :: "u8 \<Rightarrow> int" where
  "hex_value c = (if sint c \<ge> 65 then sint c - 65 + 10 else sint c - 48)"

definition char2hex :: "u8 \<Rightarrow> u8 \<Rightarrow> u8" where
  "char2hex first second =
     (let first = toupper_c first;
          second = toupper_c second;
          digit = word_of_int (hex_value first * 16)
      in digit + word_of_int (hex_value second))"

definition hex_map :: bytes where
  "hex_map = map of_char ''0123456789ABCDEF''"

definition hex2char :: "u8 \<Rightarrow> nat \<Rightarrow> memory \<Rightarrow> memory" where
  "hex2char hex dest m = m(dest := hex_map ! (unat hex div 16), dest + 1 := hex_map ! (unat hex mod 16))"

section \<open>Arrays to text\<close>

text \<open>The source is the list of its \<open>srclen\<close> bytes.\<close>

fun hex2str_loop :: "nat \<Rightarrow> bytes \<Rightarrow> nat \<Rightarrow> memory \<Rightarrow> memory" where
  "hex2str_loop i [] dest m = m"
| "hex2str_loop i (h # hs) dest m = hex2str_loop (i + 1) hs dest (hex2char h (dest + i * 2) m)"

definition hex2str :: "bytes \<Rightarrow> nat \<Rightarrow> memory \<Rightarrow> memory" where
  "hex2str hex dest m = (hex2str_loop 0 hex dest m)(dest + length hex * 2 := 0)"

text \<open>\<open>strcpy\<close> of the separator, with its terminating 0, after every pair of digits but the last.\<close>

fun hex2str_s_loop :: "nat \<Rightarrow> bytes \<Rightarrow> nat \<Rightarrow> bytes \<Rightarrow> memory \<Rightarrow> memory" where
  "hex2str_s_loop i [] dest sep m = m"
| "hex2str_s_loop i (h # hs) dest sep m =
     (let incr = length sep + 2;
          m = hex2char h (dest + i * incr) m;
          m = (if hs \<noteq> [] then mem_write m (dest + i * incr + 2) (sep @ [0]) else m)
      in hex2str_s_loop (i + 1) hs dest sep m)"

definition hex2str_s :: "bytes \<Rightarrow> nat \<Rightarrow> bytes \<Rightarrow> memory \<Rightarrow> memory" where
  "hex2str_s hex dest sep m =
     (let incr = length sep + 2
      in (hex2str_s_loop 0 hex dest sep m)(dest + length hex * incr := 0))"

section \<open>Text to arrays\<close>

text \<open>
  \<open>None\<close> is a source of odd length: the index then steps over \<open>srclen\<close> and the loop runs on
  outside both buffers.
\<close>

fun str2hex :: "bytes \<Rightarrow> bytes option" where
  "str2hex [] = Some []"
| "str2hex [c] = None"
| "str2hex (a # b # s) = map_option (Cons (char2hex a b)) (str2hex s)"


section \<open>Digits and bytes\<close>

lemma hex_digits: "list_all (\<lambda>n. hex_value (toupper_c (hex_map ! n)) = int n) [0..<16]"
  by code_simp

lemma hex_value_digit: "n < 16 \<Longrightarrow> hex_value (toupper_c (hex_map ! n)) = int n"
  using hex_digits by (simp add: list_all_iff)

lemma char2hex_digits:
  assumes "a < 16" "b < 16"
  shows "char2hex (hex_map ! a) (hex_map ! b) = of_nat (16 * a + b)"
  by (simp add: char2hex_def Let_def hex_value_digit assms mult.commute)

lemma char2hex_hex [simp]: "char2hex (hex_map ! (unat h div 16)) (hex_map ! (unat h mod 16)) = h"
proof -
  have "unat h div 16 < 16" using unat_less_256 [of h] by linarith
  then show ?thesis by (simp add: char2hex_digits)
qed

text \<open>The text of a list of bytes.\<close>

definition hex_text :: "bytes \<Rightarrow> bytes" where
  "hex_text hs = concat (map (\<lambda>h. [hex_map ! (unat h div 16), hex_map ! (unat h mod 16)]) hs)"

lemma hex_text_simps [simp]:
  "hex_text [] = []"
  "hex_text (h # hs) = hex_map ! (unat h div 16) # hex_map ! (unat h mod 16) # hex_text hs"
  by (simp_all add: hex_text_def)

lemma hex_text_append [simp]: "hex_text (hs @ gs) = hex_text hs @ hex_text gs"
  by (simp add: hex_text_def)

lemma length_hex_text [simp]: "length (hex_text hs) = 2 * length hs"
  by (induction hs) auto

lemma hex2char_write: "hex2char h d m = mem_write m d [hex_map ! (unat h div 16), hex_map ! (unat h mod 16)]"
  by (rule ext) (auto simp: hex2char_def mem_write_def nth_Cons' less_Suc_eq)

lemma mem_write_append: "mem_write (mem_write m d xs) (d + length xs) ys = mem_write m d (xs @ ys)"
  by (rule ext) (auto simp: mem_write_def nth_append)

lemma mem_write_upd: "(mem_write m d xs)(d + length xs := x) = mem_write m d (xs @ [x])"
  by (rule ext) (auto simp: mem_write_def nth_append)

lemma hex2str_loop_write:
  "hex2str_loop i hs dest (mem_write m dest (hex_text ps)) = mem_write m dest (hex_text (ps @ hs))" if "i = length ps"
  using that
proof (induction hs arbitrary: i ps)
  case (Cons h hs)
  have "hex2char h (dest + i * 2) (mem_write m dest (hex_text ps)) = mem_write m dest (hex_text (ps @ [h]))"
    using mem_write_append [of m dest "hex_text ps"] Cons.prems
    by (simp add: hex2char_write mult.commute [of _ 2])
  then show ?case using Cons.IH [of "Suc i" "ps @ [h]"] Cons.prems by simp
qed simp

lemma hex2str_write: "hex2str hs dest m = mem_write m dest (hex_text hs @ [0])"
proof -
  have "m = mem_write m dest (hex_text [])" by (rule ext) (auto simp: mem_write_def)
  then have "hex2str_loop 0 hs dest m = mem_write m dest (hex_text hs)"
    using hex2str_loop_write [of 0 "[]" hs dest m] by simp
  then show ?thesis using mem_write_upd [of m dest "hex_text hs" 0] by (simp add: hex2str_def mult.commute [of _ 2])
qed

lemma str2hex_text: "str2hex (hex_text hs) = Some hs"
  by (induction hs) simp_all

section \<open>Properties\<close>

text \<open>
  \<open>hex2str\<close> writes two characters for each byte and a terminating 0, and nothing else in
  memory; \<open>str2hex\<close> turns the characters back into the bytes.
\<close>

theorem hex2str_roundtrip:
  "str2hex (mem_read (hex2str hs dest m) dest (2 * length hs)) = Some hs \<and>
   hex2str hs dest m (dest + 2 * length hs) = 0 \<and>
   (\<forall>i. i < dest \<or> dest + 2 * length hs < i \<longrightarrow> hex2str hs dest m i = m i)"
proof -
  have "mem_read (hex2str hs dest m) dest (2 * length hs) = hex_text hs"
    by (rule nth_equalityI) (auto simp: hex2str_write mem_read_def mem_write_def nth_append)
  moreover have "hex2str hs dest m (dest + 2 * length hs) = 0"
    by (simp add: hex2str_write mem_write_def nth_append)
  moreover have "hex2str hs dest m i = m i" if "i < dest \<or> dest + 2 * length hs < i" for i
    using that by (auto simp: hex2str_write mem_write_def)
  ultimately show ?thesis by (simp add: str2hex_text)
qed

theorem hex2str_roundtrip_witness:
  "hex2str [0xAB, 0xCD] 100 (\<lambda>_. 7) 99 = 7 \<and> str2hex (mem_read (hex2str [0xAB, 0xCD] 100 (\<lambda>_. 7)) 100 4) = Some [0xAB, 0xCD]"
  using hex2str_roundtrip [of "[0xAB, 0xCD]" 100 "\<lambda>_. 7"] by simp

text \<open>
  With a separator, the terminating 0 goes a whole separator past the text: the bytes between
  are not written.
\<close>

theorem hex2str_s_gap:
  "mem_read (hex2str_s [0xAB, 0xCD] 100 [124] (\<lambda>_. 7)) 100 7 = [65, 66, 124, 67, 68, 7, 0]"
  by code_simp

end
