(* ===== verification/IpAddr.thy ===== *)
theory IpAddr
  imports Memory
begin

unbundle bit_operations_syntax

text \<open>
  \<open>inet/ipaddr_cat.h\<close>: classes of IPv4 addresses. An \<open>in_addr_t\<close> holds an address in network
  byte order, so its lowest byte is the first of the four. \<open>inet_pton\<close> is a parameter: \<open>None\<close> is
  a result other than 1.
\<close>

section \<open>Classes\<close>

definition is_private_ip2 :: "u32 \<Rightarrow> int" where
  "is_private_ip2 ip = c_bool (ip AND 0x0000FFFF = 0xA8C0 \<or> ip AND 0x000000FF = 0x0A \<or> ip AND 0x0000F0FF = 0x10AC)"

definition is_loopback_ip2 :: "u32 \<Rightarrow> int" where
  "is_loopback_ip2 ip = c_bool (ip AND 0x000000FF = 0x7F)"

definition is_zero_ip2 :: "u32 \<Rightarrow> int" where
  "is_zero_ip2 ip = c_bool (ip AND 0x000000FF = 0x00)"

definition is_zeroconf_ip2 :: "u32 \<Rightarrow> int" where
  "is_zeroconf_ip2 ip = c_bool (ip AND 0x0000FFFF = 0xFEA9)"

definition is_multicast_ip2 :: "u32 \<Rightarrow> int" where
  "is_multicast_ip2 ip = c_bool (ip AND 0x000000F0 = 0xE0)"

definition is_reserved_ip2 :: "u32 \<Rightarrow> int" where
  "is_reserved_ip2 ip = c_bool (ip AND 0x000000F0 = 0xF0)"

definition is_relay_ip2 :: "u32 \<Rightarrow> int" where
  "is_relay_ip2 ip = c_bool (ip AND 0x00FFFFFF = 0x6358C0)"

definition is_benchmark_ip2 :: "u32 \<Rightarrow> int" where
  "is_benchmark_ip2 ip = c_bool (ip AND 0x0000FEFF = 0x12C6)"

definition is_doc_ip2 :: "u32 \<Rightarrow> int" where
  "is_doc_ip2 ip = c_bool (ip AND 0x00FFFFFF = 0x0200C0)"

section \<open>Addresses in text\<close>

definition is_private_ip :: "(string \<Rightarrow> u32 option) \<Rightarrow> string \<Rightarrow> int" where
  "is_private_ip inet_pton ip = (case inet_pton ip of Some ipaddr \<Rightarrow> is_private_ip2 ipaddr | None \<Rightarrow> -1)"

definition is_loopback_ip :: "(string \<Rightarrow> u32 option) \<Rightarrow> string \<Rightarrow> int" where
  "is_loopback_ip inet_pton ip = (case inet_pton ip of Some ipaddr \<Rightarrow> is_loopback_ip2 ipaddr | None \<Rightarrow> -1)"

definition is_zero_ip :: "(string \<Rightarrow> u32 option) \<Rightarrow> string \<Rightarrow> int" where
  "is_zero_ip inet_pton ip = (case inet_pton ip of Some ipaddr \<Rightarrow> is_zero_ip2 ipaddr | None \<Rightarrow> -1)"

definition is_zeroconf_ip :: "(string \<Rightarrow> u32 option) \<Rightarrow> string \<Rightarrow> int" where
  "is_zeroconf_ip inet_pton ip = (case inet_pton ip of Some ipaddr \<Rightarrow> is_zeroconf_ip2 ipaddr | None \<Rightarrow> -1)"

definition is_multicast_ip :: "(string \<Rightarrow> u32 option) \<Rightarrow> string \<Rightarrow> int" where
  "is_multicast_ip inet_pton ip = (case inet_pton ip of Some ipaddr \<Rightarrow> is_multicast_ip2 ipaddr | None \<Rightarrow> -1)"

definition is_reserved_ip :: "(string \<Rightarrow> u32 option) \<Rightarrow> string \<Rightarrow> int" where
  "is_reserved_ip inet_pton ip = (case inet_pton ip of Some ipaddr \<Rightarrow> is_reserved_ip2 ipaddr | None \<Rightarrow> -1)"

definition is_relay_ip :: "(string \<Rightarrow> u32 option) \<Rightarrow> string \<Rightarrow> int" where
  "is_relay_ip inet_pton ip = (case inet_pton ip of Some ipaddr \<Rightarrow> is_relay_ip2 ipaddr | None \<Rightarrow> -1)"

definition is_benchmark_ip :: "(string \<Rightarrow> u32 option) \<Rightarrow> string \<Rightarrow> int" where
  "is_benchmark_ip inet_pton ip = (case inet_pton ip of Some ipaddr \<Rightarrow> is_benchmark_ip2 ipaddr | None \<Rightarrow> -1)"

definition is_doc_ip :: "(string \<Rightarrow> u32 option) \<Rightarrow> string \<Rightarrow> int" where
  "is_doc_ip inet_pton ip = (case inet_pton ip of Some ipaddr \<Rightarrow> is_doc_ip2 ipaddr | None \<Rightarrow> -1)"

section \<open>Dotted quads\<close>

lemma of_le32_inj: "of_le32 [a, b, c, d] = of_le32 [a', b', c', d'] \<longleftrightarrow> [a, b, c, d] = [a', b', c', d']"
proof
  assume "of_le32 [a, b, c, d] = of_le32 [a', b', c', d']"
  then have "le32 (of_le32 [a, b, c, d]) = le32 (of_le32 [a', b', c', d'])" by simp
  then show "[a, b, c, d] = [a', b', c', d']" by (simp add: le32_of_le32 del: of_le32.simps)
qed simp

lemma of_le32_and: "of_le32 [a, b, c, d] AND of_le32 [a', b', c', d'] = of_le32 [a AND a', b AND b', c AND c', d AND d']"
  by (rule bit_word_eqI) (auto simp: bit_simps dest: bit_imp_le_length)

lemma quad_masks:
  "0x000000FF = of_le32 [255, 0, 0, 0]" "0x0000FFFF = of_le32 [255, 255, 0, 0]" "0x0000F0FF = of_le32 [255, 240, 0, 0]"
  "0x000000F0 = of_le32 [240, 0, 0, 0]" "0x00FFFFFF = of_le32 [255, 255, 255, 0]" "0x0000FEFF = of_le32 [255, 254, 0, 0]"
  by (simp_all add: push_bit_eq_mult)

lemma u8_high_bits: "n \<le> 8 \<Longrightarrow> unat ((b :: u8) AND push_bit n (mask (8 - n))) = 2 ^ n * (unat b div 2 ^ n)"
proof -
  assume n: "n \<le> 8"
  have b: "unat b < 256" by simp
  have e: "b AND push_bit n (mask (8 - n)) = push_bit n (drop_bit n b)"
    by (rule bit_word_eqI) (use n in \<open>auto simp: bit_simps\<close>)
  have "unat (push_bit n (drop_bit n b)) = take_bit 8 (push_bit n (drop_bit n (unat b)))"
    using b by (simp add: unsigned_push_bit_eq unsigned_drop_bit_eq take_bit_nat_eq_self)
  then have u: "unat (push_bit n (drop_bit n b)) = take_bit 8 (2 ^ n * (unat b div 2 ^ n))"
    by (simp only: push_bit_eq_mult drop_bit_eq_div mult.commute)
  have "2 ^ n * (unat b div 2 ^ n) \<le> unat b" by (rule times_div_less_eq_dividend)
  also have "unat b < 2 ^ 8" using b by simp
  finally have "2 ^ n * (unat b div 2 ^ n) < 2 ^ 8" .
  then have "take_bit 8 (2 ^ n * (unat b div 2 ^ n)) = 2 ^ n * (unat b div 2 ^ n)" by (rule take_bit_nat_eq_self)
  then show ?thesis unfolding e u .
qed

lemma and_255 [simp]: "(b :: u8) AND 255 = b"
  using u8_high_bits [of 0 b] by (simp add: word_unat_eq_iff mask_eq_exp_minus_1)

lemma u8_high:
  "unat ((b :: u8) AND 240) = 16 * (unat b div 16)" "unat ((b :: u8) AND 254) = 2 * (unat b div 2)"
  using u8_high_bits [of 4 b] u8_high_bits [of 1 b] by (simp_all add: mask_eq_exp_minus_1 push_bit_eq_mult)

lemma u8_eq: "(x :: u8) = y \<longleftrightarrow> unat x = unat y" "x \<le> y \<longleftrightarrow> unat x \<le> unat y"
  by (simp_all add: word_unat_eq_iff word_le_nat_alt)

lemma and_240: "((b :: u8) AND 240 = 16) = (16 \<le> b \<and> b \<le> 31)" "((b :: u8) AND 240 = 224) = (224 \<le> b \<and> b \<le> 239)"
  "((b :: u8) AND 240 = 240) = (240 \<le> b)"
proof -
  have "unat b < 256" by simp
  then show "((b :: u8) AND 240 = 16) = (16 \<le> b \<and> b \<le> 31)" "((b :: u8) AND 240 = 224) = (224 \<le> b \<and> b \<le> 239)"
    "((b :: u8) AND 240 = 240) = (240 \<le> b)"
    unfolding u8_eq u8_high by (simp_all, linarith+)
qed

lemma and_254: "((b :: u8) AND 254 = 18) = (b = 18 \<or> b = 19)"
  by (auto simp: u8_eq u8_high)

lemma is_private_quad: "is_private_ip2 (of_le32 [a, b, c, d]) = c_bool (a = 10 \<or> a = 172 \<and> 16 \<le> b \<and> b \<le> 31 \<or> a = 192 \<and> b = 168)"
proof -
  have v: "0xA8C0 = of_le32 [192, 168, 0, 0]" "0x0A = of_le32 [10, 0, 0, 0]" "0x10AC = of_le32 [172, 16, 0, 0]"
    by (simp_all add: push_bit_eq_mult)
  show ?thesis unfolding is_private_ip2_def v quad_masks of_le32_and of_le32_inj
    by (rule arg_cong [where f = c_bool]) (auto simp: and_240)
qed

lemma is_loopback_quad: "is_loopback_ip2 (of_le32 [a, b, c, d]) = c_bool (a = 127)"
proof -
  have v: "0x7F = of_le32 [127, 0, 0, 0]" by (simp add: push_bit_eq_mult)
  show ?thesis unfolding is_loopback_ip2_def v quad_masks of_le32_and of_le32_inj
    by (rule arg_cong [where f = c_bool]) (auto simp: and_240 and_254)
qed

lemma is_zero_quad: "is_zero_ip2 (of_le32 [a, b, c, d]) = c_bool (a = 0)"
proof -
  have v: "0 = of_le32 [0, 0, 0, 0]" by (simp add: push_bit_eq_mult)
  show ?thesis unfolding is_zero_ip2_def v quad_masks of_le32_and of_le32_inj
    by (rule arg_cong [where f = c_bool]) (auto simp: and_240 and_254)
qed

lemma is_zeroconf_quad: "is_zeroconf_ip2 (of_le32 [a, b, c, d]) = c_bool (a = 169 \<and> b = 254)"
proof -
  have v: "0xFEA9 = of_le32 [169, 254, 0, 0]" by (simp add: push_bit_eq_mult)
  show ?thesis unfolding is_zeroconf_ip2_def v quad_masks of_le32_and of_le32_inj
    by (rule arg_cong [where f = c_bool]) (auto simp: and_240 and_254)
qed

lemma is_multicast_quad: "is_multicast_ip2 (of_le32 [a, b, c, d]) = c_bool (224 \<le> a \<and> a \<le> 239)"
proof -
  have v: "0xE0 = of_le32 [224, 0, 0, 0]" by (simp add: push_bit_eq_mult)
  show ?thesis unfolding is_multicast_ip2_def v quad_masks of_le32_and of_le32_inj
    by (rule arg_cong [where f = c_bool]) (auto simp: and_240 and_254)
qed

lemma is_reserved_quad: "is_reserved_ip2 (of_le32 [a, b, c, d]) = c_bool (240 \<le> a)"
proof -
  have v: "0xF0 = of_le32 [240, 0, 0, 0]" by (simp add: push_bit_eq_mult)
  show ?thesis unfolding is_reserved_ip2_def v quad_masks of_le32_and of_le32_inj
    by (rule arg_cong [where f = c_bool]) (auto simp: and_240 and_254)
qed

lemma is_relay_quad: "is_relay_ip2 (of_le32 [a, b, c, d]) = c_bool (a = 192 \<and> b = 88 \<and> c = 99)"
proof -
  have v: "0x6358C0 = of_le32 [192, 88, 99, 0]" by (simp add: push_bit_eq_mult)
  show ?thesis unfolding is_relay_ip2_def v quad_masks of_le32_and of_le32_inj
    by (rule arg_cong [where f = c_bool]) (auto simp: and_240 and_254)
qed

lemma is_benchmark_quad: "is_benchmark_ip2 (of_le32 [a, b, c, d]) = c_bool (a = 198 \<and> (b = 18 \<or> b = 19))"
proof -
  have v: "0x12C6 = of_le32 [198, 18, 0, 0]" by (simp add: push_bit_eq_mult)
  show ?thesis unfolding is_benchmark_ip2_def v quad_masks of_le32_and of_le32_inj
    by (rule arg_cong [where f = c_bool]) (auto simp: and_240 and_254)
qed

lemma is_doc_quad: "is_doc_ip2 (of_le32 [a, b, c, d]) = c_bool (a = 192 \<and> b = 0 \<and> c = 2)"
proof -
  have v: "0x0200C0 = of_le32 [192, 0, 2, 0]" by (simp add: push_bit_eq_mult)
  show ?thesis unfolding is_doc_ip2_def v quad_masks of_le32_and of_le32_inj
    by (rule arg_cong [where f = c_bool]) (auto simp: and_240 and_254)
qed

lemmas quads = is_private_quad is_loopback_quad is_zero_quad is_zeroconf_quad is_multicast_quad is_reserved_quad is_relay_quad is_benchmark_quad is_doc_quad

text \<open>
  The classes of an address a.b.c.d are those of its four numbers: private 10/8, 172.16/12
  and 192.168/16, loopback 127/8, zero 0/8, zeroconf 169.254/16, multicast 224/4, reserved 240/4,
  relay 192.88.99/24, benchmark 198.18/15, documentation 192.0.2/24.
\<close>

theorem ip_classes:
  "is_private_ip2 (of_le32 [a, b, c, d]) = c_bool (a = 10 \<or> a = 172 \<and> 16 \<le> b \<and> b \<le> 31 \<or> a = 192 \<and> b = 168) \<and>
   is_loopback_ip2 (of_le32 [a, b, c, d]) = c_bool (a = 127) \<and>
   is_zero_ip2 (of_le32 [a, b, c, d]) = c_bool (a = 0) \<and>
   is_zeroconf_ip2 (of_le32 [a, b, c, d]) = c_bool (a = 169 \<and> b = 254) \<and>
   is_multicast_ip2 (of_le32 [a, b, c, d]) = c_bool (224 \<le> a \<and> a \<le> 239) \<and>
   is_reserved_ip2 (of_le32 [a, b, c, d]) = c_bool (240 \<le> a) \<and>
   is_relay_ip2 (of_le32 [a, b, c, d]) = c_bool (a = 192 \<and> b = 88 \<and> c = 99) \<and>
   is_benchmark_ip2 (of_le32 [a, b, c, d]) = c_bool (a = 198 \<and> (b = 18 \<or> b = 19)) \<and>
   is_doc_ip2 (of_le32 [a, b, c, d]) = c_bool (a = 192 \<and> b = 0 \<and> c = 2)"
  by (simp only: quads simp_thms)

end
