(* ===== verification/Files.thy ===== *)
theory Files
  imports Config
begin

text \<open>
  What the two logging libraries use of the C library and the kernel: decimal fields of
  \<open>printf\<close>, broken-down time, and files. A directory entry is a path with an inode; a
  descriptor that is open refers to an inode, so that a file can be removed or replaced while
  it is being written.
\<close>

section \<open>Text\<close>

definition ascii :: "string \<Rightarrow> bytes" where
  "ascii s = map of_char s"

definition pad_left :: "nat \<Rightarrow> u8 \<Rightarrow> bytes \<Rightarrow> bytes" where
  "pad_left w c s = replicate (w - length s) c @ s"

text \<open>The conversions \<open>%0wd\<close> and \<open>%wd\<close>.\<close>

definition fmt_0d :: "nat \<Rightarrow> int \<Rightarrow> bytes" where
  "fmt_0d w i = (if i < 0 then 45 # pad_left (w - 1) 48 (dec_digits (nat (- i))) else pad_left w 48 (dec_digits (nat i)))"

definition fmt_d :: "nat \<Rightarrow> int \<Rightarrow> bytes" where
  "fmt_d w i = pad_left w 32 (dec_int i)"

text \<open>\<open>strcmp(a, b) < 0\<close>.\<close>

fun str_less :: "bytes \<Rightarrow> bytes \<Rightarrow> bool" where
  "str_less _ [] = False"
| "str_less [] (_ # _) = True"
| "str_less (a # as) (b # bs) = (a < b \<or> a = b \<and> str_less as bs)"

text \<open>The remainder of C, which has the sign of the dividend.\<close>

definition c_rem :: "int \<Rightarrow> int \<Rightarrow> int" where
  "c_rem a b = sgn a * (\<bar>a\<bar> mod \<bar>b\<bar>)"

text \<open>\<open>struct tm\<close>; from 1900 on all fields are natural numbers.\<close>

record tm =
  tm_year :: nat
  tm_mon :: nat
  tm_mday :: nat
  tm_hour :: nat
  tm_min :: nat
  tm_sec :: nat
  tm_yday :: nat

definition date_digits :: "tm \<Rightarrow> bytes" where
  "date_digits t = fmt_0d 4 (int (tm_year t + 1900)) @ fmt_0d 2 (int (tm_mon t + 1)) @ fmt_0d 2 (int (tm_mday t))"

definition clock_digits :: "tm \<Rightarrow> bytes" where
  "clock_digits t = fmt_0d 2 (int (tm_hour t)) @ 58 # fmt_0d 2 (int (tm_min t)) @ 58 # fmt_0d 2 (int (tm_sec t))"

text \<open>
  The line on the screen while a program starts, without its end. The blanks go behind the text
  the message would have, so a long message leaves the buffer of \<open>sz\<close> bytes.
\<close>

definition esc :: "string \<Rightarrow> bytes" where
  "esc s = 27 # ascii s"

definition boot_text :: "nat \<Rightarrow> int \<Rightarrow> int \<Rightarrow> bytes \<Rightarrow> bytes option" where
  "boot_text sz ok dummy msg =
     (let e = int (length msg);
          pos = 80 - 10 - c_rem (e - dummy) 80;
          i = max 0 pos;
          text = (if length msg < sz - 1 then msg @ replicate (nat i) 32 else take (sz - 2) msg);
          mark = (if ok = 0 then esc ''[1m'' @ esc ''[32m[ ok ]'' @ esc ''[m'' else esc ''[1m'' @ esc ''[31m[ failed ]'' @ esc ''[m'')
      in if e + i \<ge> int sz \<or> length text + length mark \<ge> sz then None else Some (text @ mark))"

section \<open>Files\<close>

record fsys =
  entries :: "(bytes \<times> nat) list"
  content :: "nat \<Rightarrow> bytes"
  descs :: "int \<Rightarrow> nat option"
  next_inode :: nat
  next_fd :: int

definition inode_at :: "bytes \<Rightarrow> fsys \<Rightarrow> nat option" where
  "inode_at path fs = map_of (entries fs) path"

definition file_exists :: "bytes \<Rightarrow> fsys \<Rightarrow> bool" where
  "file_exists path fs \<longleftrightarrow> inode_at path fs \<noteq> None"

definition file_bytes :: "bytes \<Rightarrow> fsys \<Rightarrow> bytes" where
  "file_bytes path fs = (case inode_at path fs of None \<Rightarrow> [] | Some i \<Rightarrow> content fs i)"

text \<open>\<open>open\<close> with \<open>O_CREAT\<close> and \<open>O_APPEND\<close>; a new entry is listed last.\<close>

definition creat_entry :: "bytes \<Rightarrow> fsys \<Rightarrow> fsys" where
  "creat_entry path fs =
     (if file_exists path fs then fs
      else fs\<lparr>entries := entries fs @ [(path, next_inode fs)],
             content := (content fs)(next_inode fs := []), next_inode := next_inode fs + 1\<rparr>)"

definition fs_open :: "bool \<Rightarrow> bytes \<Rightarrow> fsys \<Rightarrow> int \<times> fsys" where
  "fs_open may path fs =
     (if may then
        let fs = creat_entry path fs
        in (next_fd fs, fs\<lparr>descs := (descs fs)(next_fd fs := inode_at path fs), next_fd := next_fd fs + 1\<rparr>)
      else (-1, fs))"

definition fs_size :: "int \<Rightarrow> fsys \<Rightarrow> int" where
  "fs_size fd fs = (case descs fs fd of None \<Rightarrow> -1 | Some i \<Rightarrow> int (length (content fs i)))"

definition fs_close :: "int \<Rightarrow> fsys \<Rightarrow> fsys" where
  "fs_close fd fs = fs\<lparr>descs := (descs fs)(fd := None)\<rparr>"

text \<open>\<open>write\<close>, with \<open>space\<close> bytes left on the disk.\<close>

definition fs_write :: "nat \<Rightarrow> int \<Rightarrow> bytes \<Rightarrow> fsys \<Rightarrow> int \<times> fsys" where
  "fs_write space fd bs fs =
     (case descs fs fd of
        None \<Rightarrow> (-1, fs)
      | Some i \<Rightarrow>
          if bs \<noteq> [] \<and> space = 0 then (-1, fs)
          else (int (min space (length bs)), fs\<lparr>content := (content fs)(i := content fs i @ take space bs)\<rparr>))"

definition fs_remove :: "bytes \<Rightarrow> fsys \<Rightarrow> fsys" where
  "fs_remove path fs = fs\<lparr>entries := filter (\<lambda>e. fst e \<noteq> path) (entries fs)\<rparr>"

text \<open>The names that \<open>readdir\<close> lists for a directory.\<close>

definition in_dir :: "bytes \<Rightarrow> bytes \<Rightarrow> bool" where
  "in_dir d path \<longleftrightarrow> take (length d + 1) path = d @ [47] \<and> 47 \<notin> set (drop (length d + 1) path)"

definition names_in :: "bytes \<Rightarrow> fsys \<Rightarrow> bytes list" where
  "names_in d fs = map (drop (length d + 1)) (filter (in_dir d) (map fst (entries fs)))"

section \<open>Lemmas\<close>

definition fs_ok :: "fsys \<Rightarrow> bool" where
  "fs_ok fs \<longleftrightarrow> distinct (map fst (entries fs)) \<and> distinct (map snd (entries fs)) \<and>
     (\<forall>e \<in> set (entries fs). snd e < next_inode fs) \<and> 0 \<le> next_fd fs"

text \<open>A descriptor refers to the file at a path.\<close>

definition refers :: "int \<Rightarrow> bytes \<Rightarrow> fsys \<Rightarrow> bool" where
  "refers fd path fs \<longleftrightarrow> (\<exists>i. descs fs fd = Some i \<and> inode_at path fs = Some i)"

lemma inode_inj: "fs_ok fs \<Longrightarrow> inode_at p fs = Some i \<Longrightarrow> inode_at q fs = Some i \<Longrightarrow> p = q"
  unfolding fs_ok_def inode_at_def by (metis distinct_map inj_onD map_of_SomeD snd_conv Pair_inject)

lemma creat_entry_ok: "fs_ok fs \<Longrightarrow> fs_ok (creat_entry p fs)"
proof (cases "file_exists p fs")
  case False
  assume ok: "fs_ok fs"
  have "p \<notin> fst ` set (entries fs)" using False by (simp add: file_exists_def inode_at_def map_of_eq_None_iff)
  moreover have "next_inode fs \<notin> snd ` set (entries fs)" using ok by (auto simp: fs_ok_def)
  ultimately show ?thesis using False ok by (auto simp: creat_entry_def fs_ok_def less_Suc_eq)
qed (simp add: creat_entry_def)

lemma creat_entry_inode:
  "inode_at q (creat_entry p fs) = (if q = p \<and> \<not> file_exists p fs then Some (next_inode fs) else inode_at q fs)"
  by (auto simp: creat_entry_def inode_at_def file_exists_def map_add_Some_iff map_add_def map_of_append split: option.splits)

lemma creat_entry_bytes: "fs_ok fs \<Longrightarrow> file_bytes q (creat_entry p fs) = file_bytes q fs"
proof -
  assume ok: "fs_ok fs"
  have "i \<noteq> next_inode fs" if "inode_at q fs = Some i" for i
    using that ok by (auto simp: inode_at_def fs_ok_def dest!: map_of_SomeD)
  then show ?thesis using creat_entry_inode [of q p fs]
    by (auto simp: file_bytes_def creat_entry_def file_exists_def split: option.splits if_splits)
qed

lemma creat_entry_exists: "file_exists q (creat_entry p fs) \<longleftrightarrow> q = p \<or> file_exists q fs"
  by (auto simp: file_exists_def creat_entry_inode)

lemma creat_entry_fds [simp]: "descs (creat_entry p fs) = descs fs" "next_fd (creat_entry p fs) = next_fd fs"
  by (simp_all add: creat_entry_def)

lemma fs_upd_simps [simp]:
  "inode_at p (fs\<lparr>descs := d\<rparr>) = inode_at p fs" "inode_at p (fs\<lparr>next_fd := n\<rparr>) = inode_at p fs" "inode_at p (fs\<lparr>content := c\<rparr>) = inode_at p fs"
  "file_exists p (fs\<lparr>descs := d\<rparr>) = file_exists p fs" "file_exists p (fs\<lparr>next_fd := n\<rparr>) = file_exists p fs" "file_exists p (fs\<lparr>content := c\<rparr>) = file_exists p fs"
  "file_bytes p (fs\<lparr>descs := d\<rparr>) = file_bytes p fs" "file_bytes p (fs\<lparr>next_fd := n\<rparr>) = file_bytes p fs"
  by (simp_all add: inode_at_def file_exists_def file_bytes_def split: option.splits)

lemma fs_open_spec:
  assumes "fs_ok fs"
  shows "\<exists>fs'. fs_open True p fs = (next_fd fs, fs') \<and> fs_ok fs' \<and> refers (next_fd fs) p fs' \<and> next_fd fs' = next_fd fs + 1 \<and>
    (\<forall>q. file_bytes q fs' = file_bytes q fs) \<and> (\<forall>q. file_exists q fs' \<longleftrightarrow> q = p \<or> file_exists q fs) \<and>
    (\<forall>fd q. fd \<noteq> next_fd fs \<longrightarrow> refers fd q fs \<longrightarrow> refers fd q fs') \<and> entries fs' = entries (creat_entry p fs)"
proof -
  let ?c = "creat_entry p fs"
  let ?fs = "?c\<lparr>descs := (descs fs)(next_fd fs := inode_at p ?c), next_fd := next_fd fs + 1\<rparr>"
  have o: "fs_open True p fs = (next_fd fs, ?fs)" by (simp add: fs_open_def Let_def)
  have "fs_ok ?fs" using creat_entry_ok [OF assms, of p] by (simp add: fs_ok_def)
  moreover have "refers (next_fd fs) p ?fs" by (auto simp: refers_def creat_entry_inode file_exists_def)
  moreover have "refers fd q ?fs" if "fd \<noteq> next_fd fs" "refers fd q fs" for fd q
    using that by (auto simp: refers_def creat_entry_inode file_exists_def)
  ultimately show ?thesis using o by (intro exI [of _ ?fs]) (simp add: creat_entry_bytes [OF assms] creat_entry_exists)
qed

lemma fs_write_spec:
  assumes "fs_ok fs" "refers fd p fs" "length bs \<le> space"
  shows "\<exists>fs'. fs_write space fd bs fs = (int (length bs), fs') \<and> fs_ok fs' \<and> next_fd fs' = next_fd fs \<and>
    (\<forall>q. file_bytes q fs' = (if q = p then file_bytes p fs @ bs else file_bytes q fs)) \<and>
    (\<forall>q. file_exists q fs' = file_exists q fs) \<and> (\<forall>fd q. refers fd q fs' = refers fd q fs) \<and> entries fs' = entries fs"
proof -
  obtain i where i: "descs fs fd = Some i" "inode_at p fs = Some i" using assms(2) by (auto simp: refers_def)
  let ?fs = "fs\<lparr>content := (content fs)(i := content fs i @ bs)\<rparr>"
  have "fs_write space fd bs fs = (int (length bs), ?fs)"
    using i(1) assms(3) by (simp add: fs_write_def min_absorb2) (cases bs, simp_all)
  moreover have "file_bytes q ?fs = (if q = p then file_bytes p fs @ bs else file_bytes q fs)" for q
  proof (cases "inode_at q fs = Some i")
    case True
    then have "p = q" by (rule inode_inj [OF assms(1) i(2)])
    with i show ?thesis by (simp add: file_bytes_def)
  next
    case False
    then have "q \<noteq> p" using i by auto
    with False show ?thesis by (auto simp: file_bytes_def split: option.splits)
  qed
  ultimately show ?thesis using assms(1) by (intro exI [of _ ?fs]) (simp add: fs_ok_def refers_def)
qed

lemma fs_size_refers: "refers fd p fs \<Longrightarrow> fs_size fd fs = int (length (file_bytes p fs))"
  by (auto simp: refers_def fs_size_def file_bytes_def split: option.splits)

lemma fs_close_spec [simp]:
  "fs_ok (fs_close fd fs) = fs_ok fs" "file_bytes q (fs_close fd fs) = file_bytes q fs" "file_exists q (fs_close fd fs) = file_exists q fs"
  "fd' \<noteq> fd \<Longrightarrow> refers fd' q (fs_close fd fs) = refers fd' q fs" "next_fd (fs_close fd fs) = next_fd fs" "entries (fs_close fd fs) = entries fs"
  by (auto simp: fs_close_def fs_ok_def refers_def)

subsection \<open>Decimal fields\<close>

lemma length_dec_digits: "n < 10 ^ w \<Longrightarrow> 0 < w \<Longrightarrow> length (dec_digits n) \<le> w"
proof (induction w arbitrary: n)
  case (Suc w)
  show ?case
  proof (cases "n < 10")
    case False
    then have "n div 10 < 10 ^ w" "0 < w" using Suc(2) by (cases w; simp add: less_mult_imp_div_less mult.commute)+
    then show ?thesis using Suc(1) [of "n div 10"] False by (subst dec_digits.simps) simp
  qed (subst dec_digits.simps, simp)
qed simp

lemma length_fmt_0d: "i < 10 ^ w \<Longrightarrow> 0 \<le> i \<Longrightarrow> 0 < w \<Longrightarrow> length (fmt_0d w i) = w"
proof -
  assume a: "i < 10 ^ w" "0 \<le> i" "0 < w"
  have "nat i < 10 ^ w" using a(1,2) by (metis nat_less_iff of_nat_numeral of_nat_power)
  then show ?thesis using length_dec_digits [of "nat i" w] a by (simp add: fmt_0d_def pad_left_def)
qed

lemma dec_value_zeros: "dec_value 0 (replicate n 48 @ xs) = dec_value 0 xs"
  by (induction n) (simp_all add: is_digit_def)

lemma fmt_0d_digits: "0 \<le> i \<Longrightarrow> list_all is_digit (fmt_0d w i) \<and> dec_value 0 (fmt_0d w i) = i"
  using dec_digits_value [of "nat i"] by (auto simp: fmt_0d_def pad_left_def dec_value_zeros list_all_iff is_digit_def)

lemma fmt_0d_inj: "fmt_0d w i = fmt_0d w j \<Longrightarrow> 0 \<le> i \<Longrightarrow> 0 \<le> j \<Longrightarrow> i = j"
  using fmt_0d_digits by metis

text \<open>A date that takes eight digits, and the date of a broken-down time.\<close>

definition tm_ok :: "tm \<Rightarrow> bool" where
  "tm_ok t \<longleftrightarrow> tm_year t < 8100 \<and> tm_mon t < 12 \<and> tm_mday t < 100 \<and> tm_hour t < 100 \<and> tm_min t < 100 \<and> tm_sec t < 100"

definition date_of :: "tm \<Rightarrow> nat \<times> nat \<times> nat" where
  "date_of t = (tm_year t, tm_mon t, tm_mday t)"

lemma length_date_digits: "tm_ok t \<Longrightarrow> length (date_digits t) = 8"
  by (simp add: tm_ok_def date_digits_def length_fmt_0d)

lemma date_digits_inj: "tm_ok t \<Longrightarrow> tm_ok u \<Longrightarrow> date_digits t = date_digits u \<longleftrightarrow> date_of t = date_of u"
  by (auto simp: tm_ok_def date_digits_def date_of_def length_fmt_0d append_eq_append_conv dest!: fmt_0d_inj)

lemma atoi_digits: "list_all is_digit xs \<Longrightarrow> xs \<noteq> [] \<Longrightarrow> dec_value 0 xs < 2 ^ 31 \<Longrightarrow> 0 \<le> dec_value 0 xs \<Longrightarrow>
    \<not> is_digit c \<Longrightarrow> atoi (xs @ c # ys) = dec_value 0 xs"
proof -
  assume a: "list_all is_digit xs" "xs \<noteq> []" "dec_value 0 xs < 2 ^ 31" "0 \<le> dec_value 0 xs" "\<not> is_digit c"
  obtain x xs' where x: "xs = x # xs'" "is_digit x" using a(1,2) by (cases xs) auto
  have nd: "\<not> is_space x" "x \<noteq> 45" "x \<noteq> 43" using x(2) by (auto simp: is_digit_def is_space_def word_le_nat_alt)
  have "dec_value 0 (xs @ c # ys) = dec_value 0 xs" using a(1,5) by (simp add: dec_value_append)
  then have "strtol10 (xs @ c # ys) = dec_value 0 xs" using nd a(3,4) x(1) by (simp add: strtol10_def Let_def)
  then show ?thesis using a(3,4) by (simp add: atoi_def signed_take_bit_int_eq_self)
qed

end
