(* ===== verification/LogFile.thy ===== *)
theory LogFile
  imports Files
begin

unbundle bit_operations_syntax

text \<open>
  \<open>log.c\<close>: nine log files, one per level, that are shifted by size, by day or by interval, and
  optionally recycled. The text of a message arrives formatted. \<open>None\<close> is a failed assertion
  or an access outside an array. With one thread the mutex around \<open>shift_fd\<close> does nothing.
\<close>

section \<open>State\<close>

definition MAX_LOG_CNT :: nat where "MAX_LOG_CNT = 10000000"
definition log_buf_sz :: nat where "log_buf_sz = 8192"

definition log_lvl_emerg :: nat where "log_lvl_emerg = 0"
definition log_lvl_error :: nat where "log_lvl_error = 3"
definition log_lvl_debug :: nat where "log_lvl_debug = 7"
definition log_lvl_trace :: nat where "log_lvl_trace = 8"

definition log_dest_terminal :: u32 where "log_dest_terminal = 1"
definition log_dest_file :: u32 where "log_dest_file = 2"

definition lognames :: "bytes list" where
  "lognames = [ascii ''emerg'', ascii ''alert'', ascii ''crit'', ascii ''error'', ascii ''warn'', ascii ''notice'',
     ascii ''info'', ascii ''debug'', ascii ''trace'']"

text \<open>The escape sequences before and after a line on the terminal.\<close>

definition log_color :: "bytes list" where
  "log_color = map (\<lambda>s. esc ''[1m'' @ esc s)
     [''[35m'', ''[33m'', ''[34m'', ''[31m'', ''[32m'', ''[36m'', ''[1m'', ''[37m'', ''[37m'']"

definition color_end :: bytes where "color_end = esc ''[m''"

record fds =
  seq :: int
  opfd :: int
  day :: int
  base_filename :: bytes
  cur_day_seq_count :: int

record log_state =
  log_level :: u32
  g_log_dest :: u32
  g_multi_thread :: bool
  has_init :: bool
  max_log_files :: int
  config_max_log_files :: int
  log_size :: nat
  log_pre :: bytes
  log_dir :: bytes
  g_logtime_interval :: nat
  fds_info :: "nat \<Rightarrow> fds"
  disk :: fsys
  screen :: "(bool \<times> bytes) list"
  syslogs :: "(int \<times> bytes) list"

text \<open>
  What a call meets: the time, which files can be opened, the space on the disk, whether the
  directory can be read or written, the process id, and what the buffer of a name holds after
  its terminating 0. The code asks for the time more than once; it does not pass within a call.
\<close>

record log_env =
  le_now :: nat
  le_localtime :: "nat \<Rightarrow> tm"
  le_may_open :: "bytes \<Rightarrow> bool"
  le_space :: nat
  le_opendir :: bool
  le_access :: "bytes \<Rightarrow> bool"
  le_pid :: nat
  le_junk :: "bytes \<Rightarrow> bytes"

definition put_fds :: "nat \<Rightarrow> fds \<Rightarrow> log_state \<Rightarrow> log_state" where
  "put_fds lvl f st = st\<lparr>fds_info := (fds_info st)(lvl := f)\<rparr>"

section \<open>Names\<close>

definition get_logfile_seqno :: "log_env \<Rightarrow> log_state \<Rightarrow> bytes \<Rightarrow> nat \<Rightarrow> int" where
  "get_logfile_seqno env st name lvl =
     atoi (drop (length (base_filename (fds_info st lvl)) + 8) (name @ 0 # le_junk env name))"

definition log_file_name :: "log_state \<Rightarrow> nat \<Rightarrow> int \<Rightarrow> tm \<Rightarrow> bytes" where
  "log_file_name st lvl s t = base_filename (fds_info st lvl) @ date_digits t @ fmt_0d 7 s"

definition log_file_path :: "log_env \<Rightarrow> log_state \<Rightarrow> nat \<Rightarrow> int \<Rightarrow> tm \<Rightarrow> bytes" where
  "log_file_path env st lvl s t =
     (if g_logtime_interval st \<noteq> 0 then
        let t = le_localtime env (le_now env div g_logtime_interval st * g_logtime_interval st)
        in log_dir st @ 47 # base_filename (fds_info st lvl) @ date_digits t @ fmt_0d 2 (int (tm_hour t)) @ fmt_0d 2 (int (tm_min t))
      else log_dir st @ 47 # log_file_name st lvl s t)"

definition rm_files_by_seqno :: "log_env \<Rightarrow> nat \<Rightarrow> int \<Rightarrow> tm \<Rightarrow> log_state \<Rightarrow> log_state" where
  "rm_files_by_seqno env lvl seqno t st =
     (let filename = log_file_name st lvl seqno t; base = base_filename (fds_info st lvl) in
      if \<not> le_opendir env then st
      else
        case find (\<lambda>n. seqno = get_logfile_seqno env st n lvl \<and> take (length base) n = base \<and> filename \<noteq> n)
               (names_in (log_dir st) (disk st)) of
          None \<Rightarrow> st
        | Some n \<Rightarrow> st\<lparr>disk := fs_remove (log_dir st @ 47 # n) (disk st)\<rparr>)"

section \<open>The first number\<close>

text \<open>The loop of \<open>get_log_seq_nonrecycle\<close>: the first number without a file.\<close>

function first_free :: "log_env \<Rightarrow> log_state \<Rightarrow> nat \<Rightarrow> tm \<Rightarrow> nat \<Rightarrow> nat" where
  "first_free env st lvl t s =
     (if s \<ge> MAX_LOG_CNT then s
      else if \<not> file_exists (log_file_path env st lvl (int s) t) (disk st) then s
      else first_free env st lvl t (s + 1))"
  by pat_completeness auto
termination by (relation "measure (\<lambda>(_, _, _, _, s). MAX_LOG_CNT - s)") auto

declare first_free.simps [simp del]

definition get_log_seq_nonrecycle :: "log_env \<Rightarrow> log_state \<Rightarrow> nat \<Rightarrow> int" where
  "get_log_seq_nonrecycle env st lvl =
     (let s = first_free env st lvl (le_localtime env (le_now env)) 0
      in if s \<noteq> 0 then int s - 1 else 0)"

text \<open>The loop over the directory keeps the greatest name.\<close>

definition latest_name :: "bytes \<Rightarrow> bytes list \<Rightarrow> bytes" where
  "latest_name base ns = foldl (\<lambda>best n. if take (length base) n = base \<and> str_less best n then n else best) [] ns"

definition get_log_seq_recycle :: "log_env \<Rightarrow> log_state \<Rightarrow> nat \<Rightarrow> int" where
  "get_log_seq_recycle env st lvl =
     (if \<not> le_opendir env then -1
      else
        let base = base_filename (fds_info st lvl);
            t = le_localtime env (le_now env);
            name = latest_name base (names_in (log_dir st) (disk st));
            name = (if name = [] then log_file_name st lvl 0 t else name);
            seqno = get_logfile_seqno env st name lvl;
            today = take 8 (fmt_d 4 (int (tm_year t + 1900)) @ fmt_0d 2 (int (tm_mon t + 1)) @ fmt_0d 2 (int (tm_mday t)));
            seqno = (if take 8 (drop (length base) name) \<noteq> today then seqno + 1 else seqno)
        in c_rem seqno (max_log_files st))"

definition request_log_seq :: "log_env \<Rightarrow> log_state \<Rightarrow> nat \<Rightarrow> int" where
  "request_log_seq env st lvl =
     (if max_log_files st \<noteq> 0 then get_log_seq_recycle env st lvl else get_log_seq_nonrecycle env st lvl)"

definition get_log_time :: "log_env \<Rightarrow> log_state \<Rightarrow> int" where
  "get_log_time env st = int (le_now env div g_logtime_interval st)"

section \<open>Shifting\<close>

text \<open>The bookkeeping of \<open>open_fd\<close> after a file has been opened.\<close>

definition count_file :: "nat \<Rightarrow> tm \<Rightarrow> log_state \<Rightarrow> log_state" where
  "count_file lvl t st =
     (let f = fds_info st lvl;
          (f, st) = (if day f \<noteq> int (tm_yday t)
                     then (f\<lparr>cur_day_seq_count := 1, day := int (tm_yday t)\<rparr>, st\<lparr>max_log_files := config_max_log_files st\<rparr>)
                     else (f\<lparr>cur_day_seq_count := cur_day_seq_count f + 1\<rparr>, st))
      in if max_log_files st \<noteq> 0 \<and> cur_day_seq_count f > max_log_files st
         then put_fds lvl (f\<lparr>seq := max_log_files st\<rparr>) (st\<lparr>max_log_files := 0\<rparr>)
         else put_fds lvl f st)"

definition open_fd :: "log_env \<Rightarrow> nat \<Rightarrow> tm \<Rightarrow> log_state \<Rightarrow> int \<times> log_state" where
  "open_fd env lvl t st =
     (let path = log_file_path env st lvl (seq (fds_info st lvl)) t;
          (fd, fs) = fs_open (le_may_open env path) path (disk st);
          st = put_fds lvl ((fds_info st lvl)\<lparr>opfd := fd\<rparr>) (st\<lparr>disk := fs\<rparr>)
      in if fd \<noteq> -1 then
           let st = count_file lvl t st;
               st = (if max_log_files st \<noteq> 0 then rm_files_by_seqno env lvl (seq (fds_info st lvl)) t st else st)
           in (fd, st)
         else (fd, st))"

text \<open>The number of the next file.\<close>

definition next_seq :: "log_env \<Rightarrow> nat \<Rightarrow> tm \<Rightarrow> log_state \<Rightarrow> int" where
  "next_seq env lvl t st =
     (let f = fds_info st lvl in
      if g_logtime_interval st \<noteq> 0 then get_log_time env st
      else if max_log_files st \<noteq> 0 then c_rem (seq f + 1) (max_log_files st)
      else if day f \<noteq> int (tm_yday t) then 0
      else c_rem (seq f + 1) (int MAX_LOG_CNT))"

text \<open>The file in use is closed, and \<open>s\<close> is the number of the next.\<close>

definition turned :: "nat \<Rightarrow> int \<Rightarrow> log_state \<Rightarrow> log_state" where
  "turned L s st = put_fds L ((fds_info st L)\<lparr>seq := s\<rparr>) (st\<lparr>disk := fs_close (opfd (fds_info st L)) (disk st)\<rparr>)"

definition shift_opened :: "log_env \<Rightarrow> nat \<Rightarrow> tm \<Rightarrow> log_state \<Rightarrow> int \<times> log_state" where
  "shift_opened env lvl t st =
     (let f = fds_info st lvl; len = fs_size (opfd f) (disk st) in
      if (if g_logtime_interval st \<noteq> 0 then seq f = get_log_time env st
          else len < int (log_size st) \<and> day f = int (tm_yday t))
      then (0, st)
      else open_fd env lvl t (turned lvl (next_seq env lvl t st) st))"

definition shift_fd :: "log_env \<Rightarrow> nat \<Rightarrow> tm \<Rightarrow> log_state \<Rightarrow> int \<times> log_state" where
  "shift_fd env lvl t st =
     (let (fd, st) = (if opfd (fds_info st lvl) < 0 then open_fd env lvl t st else (opfd (fds_info st lvl), st))
      in if fd < 0 then (-1, st) else shift_opened env lvl t st)"

section \<open>Writing\<close>

definition log_head :: "log_env \<Rightarrow> tm \<Rightarrow> u32 \<Rightarrow> bytes" where
  "log_head env t k =
     91 # clock_digits t @ ascii ''] '' @ dec_digits (unat k) @ ascii '' ['' @ fmt_0d 5 (int (le_pid env)) @ [93]"

text \<open>What is written of a message: at most the buffer, and then the last byte is a line break.\<close>

definition log_line :: "log_env \<Rightarrow> tm \<Rightarrow> u32 \<Rightarrow> bytes \<Rightarrow> bytes" where
  "log_line env t k msg =
     (let head = log_head env t k; room = log_buf_sz - length head in
      if length msg \<ge> room then head @ take (room - 1) msg @ [10] else head @ msg)"

definition valid_lvl :: "int \<Rightarrow> bool" where
  "valid_lvl lvl \<longleftrightarrow> int log_lvl_emerg \<le> lvl \<and> lvl \<le> int log_lvl_trace"

definition to_terminal :: "log_state \<Rightarrow> bool" where
  "to_terminal st \<longleftrightarrow> \<not> has_init st \<or> g_log_dest st AND log_dest_terminal \<noteq> 0"

definition show_line :: "nat \<Rightarrow> tm \<Rightarrow> bytes \<Rightarrow> log_state \<Rightarrow> log_state" where
  "show_line lvl t msg st =
     st\<lparr>screen := screen st @ [(lvl \<le> log_lvl_error, log_color ! lvl @ clock_digits t @ 32 # msg @ color_end)]\<rparr>"

definition shown :: "nat \<Rightarrow> tm \<Rightarrow> bytes \<Rightarrow> log_state \<Rightarrow> log_state" where
  "shown lvl t msg st = (if to_terminal st then show_line lvl t msg st else st)"

definition write_log :: "log_env \<Rightarrow> int \<Rightarrow> u32 \<Rightarrow> bytes \<Rightarrow> log_state \<Rightarrow> log_state option" where
  "write_log env lvl k msg st =
     (if of_int lvl > log_level st then Some st
      else
        let t = le_localtime env (le_now env) in
        if to_terminal st \<and> \<not> valid_lvl lvl then None
        else
          let st = shown (nat lvl) t msg st in
          if g_log_dest st AND log_dest_file = 0 then Some st
          else if \<not> valid_lvl lvl then None
          else
            let (r, st) = shift_fd env (nat lvl) t st in
            if r < 0 then Some st
            else Some (st\<lparr>disk := snd (fs_write (le_space env) (opfd (fds_info st (nat lvl))) (log_line env t k msg) (disk st))\<rparr>))"

definition write_syslog :: "log_env \<Rightarrow> int \<Rightarrow> bytes \<Rightarrow> log_state \<Rightarrow> log_state option" where
  "write_syslog env lvl msg st =
     (if of_int lvl > log_level st then Some st
      else
        let t = le_localtime env (le_now env) in
        if to_terminal st \<and> \<not> valid_lvl lvl then None
        else
          let st = shown (nat lvl) t msg st;
              text = 91 # clock_digits t @ ascii ''][''  @ fmt_0d 5 (int (le_pid env)) @ 93 # msg
          in Some (if g_log_dest st AND log_dest_file \<noteq> 0
                   then st\<lparr>syslogs := syslogs st @ [(lvl, take (log_buf_sz - 1) text)]\<rparr> else st))"

text \<open>The line on the screen while a program starts, and the exit code when the process ends.\<close>

definition boot_log :: "int \<Rightarrow> int \<Rightarrow> bytes \<Rightarrow> (bytes \<times> int option) option" where
  "boot_log ok dummy msg =
     map_option (\<lambda>t. (13 # t @ [10], if ok \<noteq> 0 then Some ok else None)) (boot_text log_buf_sz ok dummy msg)"

section \<open>Starting and ending\<close>

text \<open>The loop of \<open>log_init\<close>; it ends early with the first level that gets no number.\<close>

fun init_levels :: "log_env \<Rightarrow> nat list \<Rightarrow> log_state \<Rightarrow> bool \<times> log_state" where
  "init_levels env [] st = (True, st)"
| "init_levels env (i # is) st =
     (let st = put_fds i ((fds_info st i)\<lparr>base_filename := log_pre st @ lognames ! i, opfd := -1\<rparr>) st;
          s = (if g_logtime_interval st \<noteq> 0 then get_log_time env st else request_log_seq env st i);
          st = put_fds i ((fds_info st i)\<lparr>seq := s\<rparr>) st
      in if s < 0 then (False, st) else init_levels env is st)"

definition log_init :: "log_env \<Rightarrow> bytes option \<Rightarrow> u32 \<Rightarrow> u32 \<Rightarrow> int \<Rightarrow> bytes option \<Rightarrow> log_state \<Rightarrow> (int \<times> log_state) option" where
  "log_init env dir lvl sz maxfiles pre_name st =
     (if maxfiles < 0 \<or> maxfiles > int MAX_LOG_CNT then None
      else
        let st = st\<lparr>log_level := lvl\<rparr> in
        case dir of
          None \<Rightarrow> Some (0, st)
        | Some d \<Rightarrow>
            if d = [] then Some (0, st)
            else
              let st = st\<lparr>log_size := unat sz, config_max_log_files := maxfiles, max_log_files := maxfiles\<rparr> in
              if lvl > of_nat log_lvl_trace then Some (-1, st)
              else if sz > 0x80000000 then Some (-1, st)
              else if \<not> le_access env d then Some (-1, st)
              else
                let st = st\<lparr>log_dir := take 255 d\<rparr>;
                    st = (case pre_name of None \<Rightarrow> st | Some p \<Rightarrow> st\<lparr>log_pre := take 31 p\<rparr>);
                    (ok, st) = init_levels env [0..<9] st
                in if \<not> ok then Some (-1, st)
                   else Some (0, st\<lparr>g_log_dest := log_dest_file, has_init := True\<rparr>))"

definition log_init_t :: "log_env \<Rightarrow> bytes option \<Rightarrow> u32 \<Rightarrow> bytes option \<Rightarrow> int \<Rightarrow> log_state \<Rightarrow> (int \<times> log_state) option" where
  "log_init_t env dir lvl pre_name logtime st =
     (if 0 < logtime \<and> logtime \<le> 30000000
      then log_init env dir lvl 0 0 pre_name (st\<lparr>g_logtime_interval := nat (logtime * 60)\<rparr>)
      else None)"

definition no_fds :: fds where
  "no_fds = \<lparr>seq = 0, opfd = 0, day = 0, base_filename = [], cur_day_seq_count = 0\<rparr>"

definition log_fini :: "log_state \<Rightarrow> log_state option" where
  "log_fini st =
     (if \<not> has_init st then None
      else
        let fs = foldl (\<lambda>fs i. if opfd (fds_info st i) \<noteq> -1 then fs_close (opfd (fds_info st i)) fs else fs) (disk st) [0..<9]
        in Some (st\<lparr>log_level := of_nat log_lvl_debug, log_size := 0, max_log_files := 0, g_log_dest := log_dest_terminal,
             has_init := False, config_max_log_files := 0, g_logtime_interval := 0, log_dir := [], log_pre := [],
             fds_info := (\<lambda>_. no_fds), disk := fs\<rparr>))"

definition set_log_dest :: "u32 \<Rightarrow> log_state \<Rightarrow> log_state option" where
  "set_log_dest dest st = (if has_init st then Some (st\<lparr>g_log_dest := dest\<rparr>) else None)"

definition enable_multi_thread :: "log_state \<Rightarrow> log_state" where
  "enable_multi_thread st = st\<lparr>g_multi_thread := True\<rparr>"

end
