(* ===== verification/LogProps.thy ===== *)
theory LogProps
  imports LogFile
begin

text \<open>
  Properties of \<open>log.c\<close>. A log that is not recycled keeps every line: the files of a level and
  a day, put together in the order of their numbers, are the lines that were written.
\<close>

section \<open>Paths\<close>

definition lpath :: "log_state \<Rightarrow> nat \<Rightarrow> tm \<Rightarrow> nat \<Rightarrow> bytes" where
  "lpath st lvl t s = log_dir st @ 47 # log_file_name st lvl (int s) t"

lemma log_file_path_plain: "g_logtime_interval st = 0 \<Longrightarrow> log_file_path env st lvl (int s) t = lpath st lvl t s"
  by (simp add: log_file_path_def lpath_def)

definition named :: "log_state \<Rightarrow> bool" where
  "named st \<longleftrightarrow> (\<forall>lvl < 9. base_filename (fds_info st lvl) = log_pre st @ lognames ! lvl)"

lemma lognames_ok: "L < 9 \<Longrightarrow> list_all (\<lambda>c. \<not> is_digit c) (lognames ! L)" "distinct lognames" "length lognames = 9"
proof -
  show "list_all (\<lambda>c. \<not> is_digit c) (lognames ! L)" if "L < 9"
  proof -
    have "L \<in> {0, 1, 2, 3, 4, 5, 6, 7, 8}" using that by auto
    then show ?thesis by (auto simp: lognames_def ascii_def is_digit_def)
  qed
qed (simp_all add: lognames_def ascii_def)

lemma date_digits_digits: "list_all is_digit (date_digits t)"
  using fmt_0d_digits by (simp add: date_digits_def)

lemma takeWhile_digits: "list_all (\<lambda>c. \<not> is_digit c) xs \<Longrightarrow> list_all is_digit ys \<Longrightarrow> ys \<noteq> [] \<Longrightarrow>
    takeWhile (\<lambda>c. \<not> is_digit c) (xs @ ys @ zs) = xs"
  by (induction xs) (cases ys; simp)+

lemma lpath_inj:
  assumes "named st" "L < 9" "L' < 9" "tm_ok t" "tm_ok t'" "s < MAX_LOG_CNT" "s' < MAX_LOG_CNT"
  shows "lpath st L t s = lpath st L' t' s' \<longleftrightarrow> L = L' \<and> date_of t = date_of t' \<and> s = s'"
proof
  assume "lpath st L t s = lpath st L' t' s'"
  then have e: "lognames ! L @ date_digits t @ fmt_0d 7 (int s) = lognames ! L' @ date_digits t' @ fmt_0d 7 (int s')"
    using assms(1-3) by (simp add: lpath_def log_file_name_def named_def)
  have d: "length (date_digits t) = 8" "length (date_digits t') = 8" using length_date_digits assms(4,5) by auto
  then have ne: "date_digits t \<noteq> []" "date_digits t' \<noteq> []" by auto
  have n: "lognames ! L = lognames ! L'"
    using takeWhile_digits [OF lognames_ok(1) [OF assms(2)] date_digits_digits ne(1), of "fmt_0d 7 (int s)"]
      takeWhile_digits [OF lognames_ok(1) [OF assms(3)] date_digits_digits ne(2), of "fmt_0d 7 (int s')"] e by simp
  then have "L = L'" using nth_eq_iff_index_eq [OF lognames_ok(2)] assms(2,3) by (simp add: lognames_ok(3))
  moreover have "date_digits t = date_digits t'" "fmt_0d 7 (int s) = fmt_0d 7 (int s')" using e n d by auto
  ultimately show "L = L' \<and> date_of t = date_of t' \<and> s = s'"
    using date_digits_inj [OF assms(4,5)] fmt_0d_inj [of 7 "int s" "int s'"] by simp
next
  assume "L = L' \<and> date_of t = date_of t' \<and> s = s'"
  then show "lpath st L t s = lpath st L' t' s'"
    using date_digits_inj [OF assms(4,5)] by (simp add: lpath_def log_file_name_def)
qed

text \<open>What a day has in a level, and how many files.\<close>

definition log_text :: "log_state \<Rightarrow> nat \<Rightarrow> tm \<Rightarrow> bytes" where
  "log_text st lvl t = concat (map (\<lambda>s. file_bytes (lpath st lvl t s) (disk st))
     (takeWhile (\<lambda>s. file_exists (lpath st lvl t s) (disk st)) [0..<MAX_LOG_CNT]))"

lemma takeWhile_upt: "k \<le> m \<Longrightarrow> \<forall>s < m. P s \<longleftrightarrow> s < k \<Longrightarrow> takeWhile P [0..<m] = [0..<k]"
proof -
  assume a: "k \<le> m" "\<forall>s < m. P s \<longleftrightarrow> s < k"
  have "[0..<m] = [0..<k] @ [k..<m]" using a(1) upt_add_eq_append [of 0 k "m - k"] by simp
  moreover have "takeWhile P ([0..<k] @ [k..<m]) = [0..<k] @ takeWhile P [k..<m]"
    by (rule takeWhile_append2) (use a in auto)
  moreover have "takeWhile P [k..<m] = []" using a(2) by (cases "k < m") (simp_all add: upt_rec [of k m])
  ultimately show ?thesis by simp
qed

section \<open>The invariant\<close>

definition plain_log :: "log_state \<Rightarrow> bool" where
  "plain_log st \<longleftrightarrow> has_init st \<and> g_log_dest st AND log_dest_file \<noteq> 0 \<and> max_log_files st = 0 \<and> config_max_log_files st = 0 \<and>
     g_logtime_interval st = 0 \<and> named st \<and> fs_ok (disk st)"

text \<open>Level \<open>lvl\<close>, after lines at the times \<open>ts\<close>.\<close>

definition lvl_inv :: "nat \<Rightarrow> tm list \<Rightarrow> log_state \<Rightarrow> bool" where
  "lvl_inv lvl ts st \<longleftrightarrow>
     (let f = fds_info st lvl in
      list_all tm_ok ts \<and>
      (\<forall>t s. tm_ok t \<longrightarrow> s < MAX_LOG_CNT \<longrightarrow> file_exists (lpath st lvl t s) (disk st) \<longrightarrow> date_of t \<in> date_of ` set ts) \<and>
      (ts = [] \<longrightarrow> opfd f = -1 \<and> seq f = 0) \<and>
      (ts \<noteq> [] \<longrightarrow> (\<exists>n. seq f = int n \<and> n \<le> length ts \<and> day f = int (tm_yday (last ts)) \<and> 0 \<le> opfd f \<and> opfd f < next_fd (disk st) \<and>
        refers (opfd f) (lpath st lvl (last ts) n) (disk st) \<and>
        (\<forall>s < MAX_LOG_CNT. file_exists (lpath st lvl (last ts) s) (disk st) \<longleftrightarrow> s \<le> n))) \<and>
      (\<forall>t s. tm_ok t \<longrightarrow> s < MAX_LOG_CNT \<longrightarrow> length (file_bytes (lpath st lvl t s) (disk st)) \<le> log_size st + log_buf_sz) \<and>
      (\<forall>t s. tm_ok t \<longrightarrow> s + 1 < MAX_LOG_CNT \<longrightarrow> file_exists (lpath st lvl t (s + 1)) (disk st) \<longrightarrow>
        log_size st \<le> length (file_bytes (lpath st lvl t s) (disk st))))"

lemma fds_commute: "f\<lparr>opfd := a, cur_day_seq_count := c, day := d\<rparr> = f\<lparr>opfd := a, day := d, cur_day_seq_count := c\<rparr>" for f :: fds
  by (cases f) simp

lemma fds_same_day: "day f = d \<Longrightarrow> f\<lparr>opfd := a, day := d, cur_day_seq_count := c\<rparr> = f\<lparr>opfd := a, cur_day_seq_count := c\<rparr>" for f :: fds
  by (cases f) simp

lemma open_plain:
  assumes "max_log_files st = 0" "config_max_log_files st = 0" "\<forall>p. le_may_open env p" "0 \<le> next_fd (disk st)"
  shows "\<exists>cnt. open_fd env lvl t st =
    (let path = log_file_path env st lvl (seq (fds_info st lvl)) t; fs = snd (fs_open True path (disk st)) in
     (next_fd (disk st), put_fds lvl ((fds_info st lvl)\<lparr>opfd := next_fd (disk st), day := int (tm_yday t), cur_day_seq_count := cnt\<rparr>) (st\<lparr>disk := fs\<rparr>)))"
proof -
  have m: "st'\<lparr>max_log_files := 0\<rparr> = st'" if "max_log_files st' = 0" for st' :: log_state
    using that by (cases st') simp
  let ?p = "log_file_path env st lvl (seq (fds_info st lvl)) t"
  obtain fs where o: "fs_open True ?p (disk st) = (next_fd (disk st), fs)" by (simp add: fs_open_def Let_def)
  have ne: "next_fd (disk st) \<noteq> -1" using assms(4) by simp
  show ?thesis
    using assms(1,2,3) ne by (auto simp: open_fd_def Let_def o count_file_def put_fds_def m fds_commute fds_same_day)
qed

text \<open>
  File \<open>n\<close> of the day of \<open>t\<close> is open; the files before it are full, it is not, and nothing has been
  written since the disk was \<open>fs\<^sub>0\<close>.
\<close>

definition ready :: "(tm \<Rightarrow> nat \<Rightarrow> bytes) \<Rightarrow> nat \<Rightarrow> tm \<Rightarrow> nat \<Rightarrow> fsys \<Rightarrow> fds \<Rightarrow> fsys \<Rightarrow> bool" where
  "ready lp sz t n fs0 f fs \<longleftrightarrow>
     seq f = int n \<and> day f = int (tm_yday t) \<and> 0 \<le> opfd f \<and> opfd f < next_fd fs \<and> refers (opfd f) (lp t n) fs \<and>
     fs_ok fs \<and> next_fd fs0 \<le> next_fd fs \<and> (\<forall>q. file_bytes q fs = file_bytes q fs0) \<and>
     (\<forall>q. file_exists q fs \<longleftrightarrow> file_exists q fs0 \<or> (\<exists>s \<le> n. q = lp t s)) \<and>
     (\<forall>s < MAX_LOG_CNT. file_exists (lp t s) fs \<longleftrightarrow> s \<le> n) \<and>
     length (file_bytes (lp t n) fs0) \<le> sz \<and> (\<forall>s < n. sz \<le> length (file_bytes (lp t s) fs0))"

lemma bytes_missing: "\<not> file_exists p fs \<Longrightarrow> file_bytes p fs = []"
  by (simp add: file_exists_def file_bytes_def)

lemma lpath_put [simp]:
  "base_filename f = base_filename (fds_info st L) \<Longrightarrow> lpath (put_fds L f (st\<lparr>disk := fs\<rparr>)) = lpath st"
  by (auto simp: lpath_def log_file_name_def put_fds_def fun_eq_iff)

lemma lpath_same_date: "tm_ok t \<Longrightarrow> tm_ok u \<Longrightarrow> date_of t = date_of u \<Longrightarrow> lpath st L t s = lpath st L u s"
  using date_digits_inj [of t u] by (simp add: lpath_def log_file_name_def)

lemma open_next:
  assumes "max_log_files st = 0" "config_max_log_files st = 0" "g_logtime_interval st = 0" "fs_ok (disk st)" "named st"
    and "\<forall>p. le_may_open env p" "L < 9" "tm_ok t" "seq (fds_info st L) = int n" "n < MAX_LOG_CNT"
    and new: "\<forall>s < MAX_LOG_CNT. file_exists (lpath st L t s) (disk st) \<longleftrightarrow> s < n"
    and full: "\<forall>s < n. log_size st \<le> length (file_bytes (lpath st L t s) (disk st))"
  shows "\<exists>f fs. open_fd env L t st = (opfd f, put_fds L f (st\<lparr>disk := fs\<rparr>)) \<and> base_filename f = base_filename (fds_info st L) \<and>
    ready (lpath st L) (log_size st) t n (disk st) f fs \<and>
    next_fd (disk st) \<le> opfd f \<and> (\<forall>fd q. fd < next_fd (disk st) \<longrightarrow> refers fd q (disk st) \<longrightarrow> refers fd q fs)"
proof -
  let ?p = "lpath st L t n"
  have p: "log_file_path env st L (seq (fds_info st L)) t = ?p" using assms(3,9) by (simp add: log_file_path_plain)
  obtain fs where fs: "fs_open True ?p (disk st) = (next_fd (disk st), fs)" "fs_ok fs" "refers (next_fd (disk st)) ?p fs"
    "next_fd fs = next_fd (disk st) + 1" "\<forall>q. file_bytes q fs = file_bytes q (disk st)"
    "\<forall>q. file_exists q fs \<longleftrightarrow> q = ?p \<or> file_exists q (disk st)"
    "\<forall>fd q. fd \<noteq> next_fd (disk st) \<longrightarrow> refers fd q (disk st) \<longrightarrow> refers fd q fs"
    using fs_open_spec [OF assms(4), of ?p] by blast
  have z: "0 \<le> next_fd (disk st)" using assms(4) by (simp add: fs_ok_def)
  obtain cnt where o: "open_fd env L t st = (next_fd (disk st),
      put_fds L ((fds_info st L)\<lparr>opfd := next_fd (disk st), day := int (tm_yday t), cur_day_seq_count := cnt\<rparr>) (st\<lparr>disk := fs\<rparr>))"
    using open_plain [OF assms(1,2,6) z, of L t] by (auto simp: p fs(1))
  have e: "file_exists (lpath st L t s) fs \<longleftrightarrow> s \<le> n" if "s < MAX_LOG_CNT" for s
    using new that fs(6) lpath_inj [OF assms(5,7,7,8,8) that assms(10)] by (auto simp: le_less)
  have x: "file_exists q fs \<longleftrightarrow> file_exists q (disk st) \<or> (\<exists>s \<le> n. q = lpath st L t s)" for q
    using fs(6) new assms(10) by (auto simp: le_less dest: less_trans)
  have b: "file_bytes ?p (disk st) = []" using new assms(10) by (intro bytes_missing) simp
  let ?f = "(fds_info st L)\<lparr>opfd := next_fd (disk st), day := int (tm_yday t), cur_day_seq_count := cnt\<rparr>"
  have "ready (lpath st L) (log_size st) t n (disk st) ?f fs"
    using fs(2-5) z e full assms(9) x b by (simp add: ready_def)
  then show ?thesis using o fs(7) by (intro exI [of _ ?f] exI [of _ fs]) simp
qed

text \<open>The same when the file before is closed first.\<close>

lemma reopen_next:
  assumes "plain_log st" "\<forall>p. le_may_open env p" "L < 9" "tm_ok t" "n < MAX_LOG_CNT"
    and new: "\<forall>s < MAX_LOG_CNT. file_exists (lpath st L t s) (disk st) \<longleftrightarrow> s < n"
    and full: "\<forall>s < n. log_size st \<le> length (file_bytes (lpath st L t s) (disk st))"
  shows "\<exists>f fs. open_fd env L t (turned L (int n) st) = (opfd f, put_fds L f (st\<lparr>disk := fs\<rparr>)) \<and>
    base_filename f = base_filename (fds_info st L) \<and> ready (lpath st L) (log_size st) t n (disk st) f fs \<and>
    (\<forall>fd q. fd \<noteq> opfd (fds_info st L) \<longrightarrow> fd < next_fd (disk st) \<longrightarrow> refers fd q (disk st) \<longrightarrow> refers fd q fs)"
proof -
  let ?st = "turned L (int n) st" and ?d = "fs_close (opfd (fds_info st L)) (disk st)"
  have lp: "lpath ?st = lpath st" by (simp add: turned_def)
  have s: "max_log_files ?st = 0" "config_max_log_files ?st = 0" "g_logtime_interval ?st = 0" "fs_ok (disk ?st)" "named ?st"
    "seq (fds_info ?st L) = int n" "disk ?st = ?d" "log_size ?st = log_size st" "base_filename (fds_info ?st L) = base_filename (fds_info st L)"
    using assms(1) by (simp_all add: turned_def put_fds_def plain_log_def named_def)
  obtain f fs where f: "open_fd env L t ?st = (opfd f, put_fds L f (?st\<lparr>disk := fs\<rparr>))" "base_filename f = base_filename (fds_info ?st L)"
    "ready (lpath ?st L) (log_size ?st) t n (disk ?st) f fs"
    "\<forall>fd q. fd < next_fd (disk ?st) \<longrightarrow> refers fd q (disk ?st) \<longrightarrow> refers fd q fs"
    using open_next [OF s(1-5) assms(2-4) s(6) assms(5)] new full by (auto simp: lp s(7,8))
  have "put_fds L f (?st\<lparr>disk := fs\<rparr>) = put_fds L f (st\<lparr>disk := fs\<rparr>)" by (simp add: turned_def put_fds_def)
  moreover have "ready (lpath st L) (log_size st) t n (disk st) f fs"
    using f(3) unfolding lp s(7,8) ready_def fs_close_spec .
  ultimately show ?thesis using f(1,2,4) s(7,9) by (intro exI [of _ f] exI [of _ fs]) simp
qed

lemma c_rem_less: "0 \<le> i \<Longrightarrow> i < m \<Longrightarrow> c_rem i m = i"
  by (cases "i = 0") (simp_all add: c_rem_def)

text \<open>What a state has to offer for file \<open>n\<close> of the day to be the next one, or the one in use.\<close>

definition days_apart :: "tm \<Rightarrow> tm list \<Rightarrow> bool" where
  "days_apart t ts \<longleftrightarrow> ts = [] \<or>
     (date_of t = date_of (last ts) \<or> date_of t \<notin> date_of ` set ts) \<and>
     (tm_yday t = tm_yday (last ts) \<longleftrightarrow> date_of t = date_of (last ts))"

definition shifted :: "log_env \<Rightarrow> nat \<Rightarrow> tm \<Rightarrow> nat \<Rightarrow> log_state \<Rightarrow> int \<times> log_state \<Rightarrow> bool" where
  "shifted env L t m st out \<longleftrightarrow>
     (\<exists>r f fs n. out = (r, put_fds L f (st\<lparr>disk := fs\<rparr>)) \<and> 0 \<le> r \<and> n \<le> m \<and> base_filename f = base_filename (fds_info st L) \<and>
        ready (lpath st L) (log_size st) t n (disk st) f fs \<and>
        (\<forall>fd q. fd \<noteq> opfd (fds_info st L) \<longrightarrow> fd < next_fd (disk st) \<longrightarrow> refers fd q (disk st) \<longrightarrow> refers fd q fs))"

lemma shiftedI:
  "out = (r, put_fds L f (st\<lparr>disk := fs\<rparr>)) \<Longrightarrow> 0 \<le> r \<Longrightarrow> base_filename f = base_filename (fds_info st L) \<Longrightarrow>
    ready (lpath st L) (log_size st) t n (disk st) f fs \<Longrightarrow> n \<le> m \<Longrightarrow>
    (\<And>fd q. fd \<noteq> opfd (fds_info st L) \<Longrightarrow> fd < next_fd (disk st) \<Longrightarrow> refers fd q (disk st) \<Longrightarrow> refers fd q fs) \<Longrightarrow>
    shifted env L t m st out"
  unfolding shifted_def by (rule exI [of _ r], rule exI [of _ f], rule exI [of _ fs], rule exI [of _ n]) blast

lemma shift_first:
  assumes P: "plain_log st" and inv: "lvl_inv L [] st" and o: "\<forall>p. le_may_open env p" and L: "L < 9" and t: "tm_ok t"
  shows "shifted env L t 1 st (shift_fd env L t st)"
proof -
  have i: "opfd (fds_info st L) = -1" "seq (fds_info st L) = int 0"
    "\<And>s. s < MAX_LOG_CNT \<Longrightarrow> \<not> file_exists (lpath st L t s) (disk st)"
    using inv t by (simp_all add: lvl_inv_def Let_def)
  have m: "0 < MAX_LOG_CNT" "1 < MAX_LOG_CNT" by (simp_all add: MAX_LOG_CNT_def)
  have P': "max_log_files st = 0" "config_max_log_files st = 0" "g_logtime_interval st = 0" "fs_ok (disk st)" "named st"
    using P by (simp_all add: plain_log_def)
  obtain f fs where f: "open_fd env L t st = (opfd f, put_fds L f (st\<lparr>disk := fs\<rparr>))" "base_filename f = base_filename (fds_info st L)"
    "ready (lpath st L) (log_size st) t 0 (disk st) f fs" "next_fd (disk st) \<le> opfd f" "\<forall>fd q. fd < next_fd (disk st) \<longrightarrow> refers fd q (disk st) \<longrightarrow> refers fd q fs"
    using open_next [OF P' o L t i(2) m(1)] i(3) by auto
  let ?st = "put_fds L f (st\<lparr>disk := fs\<rparr>)"
  have r: "0 \<le> opfd f" "seq f = 0" "day f = int (tm_yday t)" "refers (opfd f) (lpath st L t 0) fs" "fs_ok fs"
    "file_bytes q fs = file_bytes q (disk st)" "opfd f < next_fd fs" for q using f(3) by (simp_all add: ready_def)
  have fi: "fds_info ?st L = f" "disk ?st = fs" "log_size ?st = log_size st" "g_logtime_interval ?st = 0" by (simp_all add: put_fds_def P'(3))
  have e: "fs_size (opfd f) fs = 0" using fs_size_refers [OF r(4)] r(6) bytes_missing [OF i(3) [OF m(1)]] by simp
  have s: "shift_fd env L t st = shift_opened env L t ?st" using i(1) r(1) by (simp add: shift_fd_def f(1))
  show ?thesis
  proof (cases "0 < log_size st")
    case True
    then have "shift_opened env L t ?st = (0, ?st)" using e r(3) by (simp add: shift_opened_def fi Let_def)
    then show ?thesis using s f(2,3,5) by (intro shiftedI [where r = 0 and f = f and fs = fs and n = 0]) simp_all
  next
    case False
    then have n: "shift_opened env L t ?st = open_fd env L t (turned L (int 1) ?st)"
      using e r(2,3) P'(1,3) m c_rem_less [of 1 "int MAX_LOG_CNT"] by (simp add: shift_opened_def fi next_seq_def Let_def) (simp add: put_fds_def)
    have P1: "plain_log ?st" using P r(5) f(2) by (auto simp: plain_log_def named_def put_fds_def)
    have "\<forall>s < MAX_LOG_CNT. file_exists (lpath st L t s) fs \<longleftrightarrow> s \<le> 0" using f(3) unfolding ready_def by blast
    then have new: "\<forall>s < MAX_LOG_CNT. file_exists (lpath ?st L t s) (disk ?st) \<longleftrightarrow> s < 1" unfolding lpath_put [OF f(2)] fi by simp
    obtain f1 fs1 where f1: "open_fd env L t (turned L (int 1) ?st) = (opfd f1, put_fds L f1 (?st\<lparr>disk := fs1\<rparr>))"
      "base_filename f1 = base_filename f" "ready (lpath st L) (log_size st) t 1 fs f1 fs1"
      "\<forall>fd q. fd \<noteq> opfd f \<longrightarrow> fd < next_fd fs \<longrightarrow> refers fd q fs \<longrightarrow> refers fd q fs1"
      using reopen_next [OF P1 o L t m(2) new] False f(2) by (auto simp: fi)
    have st1: "put_fds L f1 (?st\<lparr>disk := fs1\<rparr>) = put_fds L f1 (st\<lparr>disk := fs1\<rparr>)" by (simp add: put_fds_def)
    have "ready (lpath st L) (log_size st) t 1 (disk st) f1 fs1"
      using f(3) f1(3) False by (auto simp: ready_def)
    moreover have "shift_fd env L t st = (opfd f1, put_fds L f1 (st\<lparr>disk := fs1\<rparr>))" using s n f1(1) st1 by simp
    moreover have "0 \<le> opfd f1" using f1(3) by (simp add: ready_def)
    moreover have "refers fd q fs1" if "fd < next_fd (disk st)" "refers fd q (disk st)" for fd q
    proof -
      have "fd \<noteq> opfd f" using that(1) f(4) by simp
      moreover have "fd < next_fd fs" using that(1) f(3) by (simp add: ready_def)
      ultimately show ?thesis using that f(5) f1(4) by simp
    qed
    ultimately show ?thesis using f(2) f1(2) by (intro shiftedI [where r = "opfd f1" and f = f1 and fs = fs1 and n = 1]) simp_all
  qed
qed

lemma shift_later:
  assumes P: "plain_log st" and inv: "lvl_inv L ts st" and o: "\<forall>p. le_may_open env p" and L: "L < 9" and t: "tm_ok t"
    and d: "days_apart t ts" and ts: "ts \<noteq> []" and m: "length ts + 1 < MAX_LOG_CNT"
  shows "shifted env L t (length ts + 1) st (shift_fd env L t st)"
proof -
  let ?f = "fds_info st L"
  obtain n where n: "seq ?f = int n" "n \<le> length ts" "day ?f = int (tm_yday (last ts))" "0 \<le> opfd ?f" "opfd ?f < next_fd (disk st)"
    "refers (opfd ?f) (lpath st L (last ts) n) (disk st)"
    "\<forall>s < MAX_LOG_CNT. file_exists (lpath st L (last ts) s) (disk st) \<longleftrightarrow> s \<le> n"
    using inv ts by (auto simp: lvl_inv_def Let_def)
  have old: "\<And>u s. tm_ok u \<Longrightarrow> s < MAX_LOG_CNT \<Longrightarrow> file_exists (lpath st L u s) (disk st) \<Longrightarrow> date_of u \<in> date_of ` set ts"
    and full: "\<And>u s. tm_ok u \<Longrightarrow> s + 1 < MAX_LOG_CNT \<Longrightarrow> file_exists (lpath st L u (s + 1)) (disk st) \<Longrightarrow>
      log_size st \<le> length (file_bytes (lpath st L u s) (disk st))"
    and lt: "tm_ok (last ts)"
    using inv ts by (auto simp: lvl_inv_def Let_def list_all_iff)
  have P': "max_log_files st = 0" "g_logtime_interval st = 0" "fs_ok (disk st)" using P by (simp_all add: plain_log_def)
  have sz: "fs_size (opfd ?f) (disk st) = int (length (file_bytes (lpath st L (last ts) n) (disk st)))" using n(6) by (rule fs_size_refers)
  have sh: "shift_fd env L t st = shift_opened env L t st" using n(4) by (simp add: shift_fd_def)
  have put: "put_fds L ?f (st\<lparr>disk := disk st\<rparr>) = st" by (simp add: put_fds_def)
  have day: "day ?f = int (tm_yday t) \<longleftrightarrow> date_of t = date_of (last ts)" using d ts n(3) by (auto simp: days_apart_def)
  have full_n: "log_size st \<le> length (file_bytes (lpath st L (last ts) s) (disk st))" if "s < n" for s
    using full [OF lt, of s] n(2,7) m that by simp
  show ?thesis
  proof (cases "date_of t = date_of (last ts)")
    case same: True
    then have lp: "lpath st L t s = lpath st L (last ts) s" for s using lpath_same_date [OF t lt] by simp
    show ?thesis
    proof (cases "fs_size (opfd ?f) (disk st) < int (log_size st)")
      case True
      then have "shift_opened env L t st = (0, put_fds L ?f (st\<lparr>disk := disk st\<rparr>))"
        unfolding put using day same P'(2) by (simp add: shift_opened_def Let_def)
      moreover have "ready (lpath st L) (log_size st) t n (disk st) ?f (disk st)"
        unfolding ready_def lp using n day same P'(3) sz True full_n m by auto
      ultimately show ?thesis using sh n(2) by (intro shiftedI [where r = 0 and f = ?f and fs = "disk st" and n = n]) simp_all
    next
      case False
      have r: "c_rem (int n + 1) (int MAX_LOG_CNT) = int (n + 1)" using n(2) m c_rem_less [of "int n + 1" "int MAX_LOG_CNT"] by simp
      have n1: "n + 1 < MAX_LOG_CNT" using n(2) m by simp
      have s1: "shift_opened env L t st = open_fd env L t (turned L (int (n + 1)) st)"
        using False day same P'(1,2) r by (simp add: shift_opened_def next_seq_def Let_def n(1))
      have "\<forall>s < MAX_LOG_CNT. file_exists (lpath st L t s) (disk st) \<longleftrightarrow> s < n + 1" using n(7) by (auto simp: lp)
      moreover have "\<forall>s < n + 1. log_size st \<le> length (file_bytes (lpath st L t s) (disk st))"
        using full_n False sz by (auto simp: lp less_Suc_eq)
      ultimately obtain f fs where f: "open_fd env L t (turned L (int (n + 1)) st) = (opfd f, put_fds L f (st\<lparr>disk := fs\<rparr>))"
        "base_filename f = base_filename ?f" "ready (lpath st L) (log_size st) t (n + 1) (disk st) f fs"
        "\<forall>fd q. fd \<noteq> opfd ?f \<longrightarrow> fd < next_fd (disk st) \<longrightarrow> refers fd q (disk st) \<longrightarrow> refers fd q fs"
        using reopen_next [OF P o L t n1] by blast
      then have "0 \<le> opfd f" by (simp add: ready_def)
      then show ?thesis using sh s1 f n(2) by (intro shiftedI [where r = "opfd f" and f = f and fs = fs and n = "n + 1"]) simp_all
    qed
  next
    case False
    then have fresh: "date_of t \<notin> date_of ` set ts" using d ts by (simp add: days_apart_def)
    have s1: "shift_opened env L t st = open_fd env L t (turned L (int 0) st)"
      using False day P'(1,2) by (simp add: shift_opened_def next_seq_def Let_def)
    have "\<forall>s < MAX_LOG_CNT. file_exists (lpath st L t s) (disk st) \<longleftrightarrow> s < 0" using old [OF t] fresh by auto
    then obtain f fs where f: "open_fd env L t (turned L (int 0) st) = (opfd f, put_fds L f (st\<lparr>disk := fs\<rparr>))"
      "base_filename f = base_filename ?f" "ready (lpath st L) (log_size st) t 0 (disk st) f fs"
      "\<forall>fd q. fd \<noteq> opfd ?f \<longrightarrow> fd < next_fd (disk st) \<longrightarrow> refers fd q (disk st) \<longrightarrow> refers fd q fs"
      using reopen_next [OF P o L t, of 0] m by auto
    then have "0 \<le> opfd f" by (simp add: ready_def)
    then show ?thesis using sh s1 f by (intro shiftedI [where r = "opfd f" and f = f and fs = fs and n = 0]) simp_all
  qed
qed

lemma shift_ready:
  assumes "plain_log st" "lvl_inv L ts st" "\<forall>p. le_may_open env p" "L < 9" "tm_ok t" "days_apart t ts" "length ts + 1 < MAX_LOG_CNT"
  shows "shifted env L t (length ts + 1) st (shift_fd env L t st)"
  using shift_first [OF assms(1) _ assms(3-5)] shift_later [OF assms(1-6) _ assms(7)] assms(2) by (cases "ts = []") auto

section \<open>One line\<close>

definition wrote :: "log_state \<Rightarrow> nat \<Rightarrow> tm \<Rightarrow> nat \<Rightarrow> bytes \<Rightarrow> fds \<Rightarrow> fsys \<Rightarrow> bool" where
  "wrote st L t n line f fs \<longleftrightarrow>
     (\<exists>fs1. ready (lpath st L) (log_size st) t n (disk st) f fs1 \<and> base_filename f = base_filename (fds_info st L) \<and>
        (\<forall>fd q. fd \<noteq> opfd (fds_info st L) \<longrightarrow> fd < next_fd (disk st) \<longrightarrow> refers fd q (disk st) \<longrightarrow> refers fd q fs) \<and>
        fs_ok fs \<and> next_fd fs = next_fd fs1 \<and> (\<forall>fd q. refers fd q fs = refers fd q fs1) \<and> (\<forall>q. file_exists q fs = file_exists q fs1) \<and>
        (\<forall>q. file_bytes q fs = (if q = lpath st L t n then file_bytes q (disk st) @ line else file_bytes q (disk st))))"

lemma length_log_line:
  assumes "tm_ok t" "le_pid env < 10000000"
  shows "length (log_line env t k msg) \<le> log_buf_sz"
proof -
  have "length (clock_digits t) = 8" using assms(1) by (simp add: clock_digits_def tm_ok_def length_fmt_0d)
  moreover have "length (dec_digits (unat k)) \<le> 10" by (rule length_dec_digits) (use unat_u32_bound [of k] in simp_all)
  moreover have "length (fmt_0d 5 (int (le_pid env))) \<le> 7"
    using length_dec_digits [of "le_pid env" 7] assms(2) by (simp add: fmt_0d_def pad_left_def)
  ultimately have "length (log_head env t k) < log_buf_sz" by (simp add: log_head_def ascii_def log_buf_sz_def)
  then show ?thesis by (auto simp: log_line_def Let_def)
qed

lemma shown_fields [simp]:
  "disk (shown lvl t msg st) = disk st" "fds_info (shown lvl t msg st) = fds_info st"
  "log_size (shown lvl t msg st) = log_size st" "log_level (shown lvl t msg st) = log_level st" "log_pre (shown lvl t msg st) = log_pre st"
  "log_dir (shown lvl t msg st) = log_dir st" "plain_log (shown lvl t msg st) = plain_log st"
  by (simp_all add: shown_def show_line_def plain_log_def named_def)

lemma shown_simps [simp]:
  "lpath (shown lvl t msg st) = lpath st" "lvl_inv L ts (shown lvl t msg st) = lvl_inv L ts st"
proof -
  show "lpath (shown lvl t msg st) = lpath st" by (simp add: lpath_def log_file_name_def fun_eq_iff)
  then show "lvl_inv L ts (shown lvl t msg st) = lvl_inv L ts st" unfolding lvl_inv_def by simp
qed

lemma write_log_wrote:
  assumes P: "plain_log st" and inv: "lvl_inv (nat lvl) ts st" and o: "\<forall>p. le_may_open env p" and v: "valid_lvl lvl"
    and "tm_ok t" "days_apart t ts" "length ts + 1 < MAX_LOG_CNT" and t: "t = le_localtime env (le_now env)"
    and lv: "\<not> of_int lvl > log_level st" and sp: "log_buf_sz \<le> le_space env" and pid: "le_pid env < 10000000"
  shows "\<exists>n f fs. write_log env lvl k msg st = Some (put_fds (nat lvl) f ((shown (nat lvl) t msg st)\<lparr>disk := fs\<rparr>)) \<and>
    n \<le> length ts + 1 \<and> wrote (shown (nat lvl) t msg st) (nat lvl) t n (log_line env t k msg) f fs"
proof -
  let ?L = "nat lvl" and ?st = "shown (nat lvl) t msg st" and ?line = "log_line env t k msg"
  have L: "?L < 9" using v by (auto simp: valid_lvl_def log_lvl_trace_def log_lvl_emerg_def)
  have "shifted env ?L t (length ts + 1) ?st (shift_fd env ?L t ?st)"
    by (rule shift_ready) (use assms L in simp_all)
  then obtain r f fs n where s: "shift_fd env ?L t ?st = (r, put_fds ?L f (?st\<lparr>disk := fs\<rparr>))" "0 \<le> r" "n \<le> length ts + 1"
    "base_filename f = base_filename (fds_info st ?L)" "ready (lpath st ?L) (log_size st) t n (disk st) f fs"
    "\<forall>fd q. fd \<noteq> opfd (fds_info st ?L) \<longrightarrow> fd < next_fd (disk st) \<longrightarrow> refers fd q (disk st) \<longrightarrow> refers fd q fs"
    unfolding shifted_def by auto
  have ok: "fs_ok fs" "refers (opfd f) (lpath st ?L t n) fs" "\<And>q. file_bytes q fs = file_bytes q (disk st)" using s(5) by (simp_all add: ready_def)
  have "length ?line \<le> le_space env" using length_log_line [OF assms(5) pid, of k msg] sp by simp
  from fs_write_spec [OF ok(1,2) this] obtain fs2 where w: "fs_write (le_space env) (opfd f) ?line fs = (int (length ?line), fs2)" "fs_ok fs2"
    "next_fd fs2 = next_fd fs" "\<forall>q. file_bytes q fs2 = (if q = lpath st ?L t n then file_bytes (lpath st ?L t n) fs @ ?line else file_bytes q fs)"
    "\<forall>q. file_exists q fs2 = file_exists q fs" "\<forall>fd q. refers fd q fs2 = refers fd q fs" by blast
  have dest: "g_log_dest ?st AND log_dest_file \<noteq> 0" using P by (simp add: plain_log_def shown_def show_line_def)
  have "write_log env lvl k msg st = Some ((put_fds ?L f (?st\<lparr>disk := fs\<rparr>))\<lparr>disk := fs2\<rparr>)"
    using lv v dest s(1,2) w(1) by (simp add: write_log_def Let_def t [symmetric] not_less) (simp add: put_fds_def)
  then have "write_log env lvl k msg st = Some (put_fds ?L f (?st\<lparr>disk := fs2\<rparr>))" by (simp add: put_fds_def)
  moreover have "wrote ?st ?L t n ?line f fs2"
    unfolding wrote_def by (rule exI [of _ fs]) (use s(4-6) w ok(3) in auto)
  ultimately show ?thesis using s(3) by blast
qed

lemma same_level:
  assumes P: "plain_log st" and inv: "lvl_inv L ts st" and L: "L < 9" and t: "tm_ok t" and n: "n \<le> length ts + 1" "length ts + 1 < MAX_LOG_CNT"
    and w: "wrote st L t n line f fs" and line: "length line \<le> log_buf_sz"
  shows "lvl_inv L (ts @ [t]) (put_fds L f (st\<lparr>disk := fs\<rparr>))"
proof -
  let ?lp = "lpath st L" and ?st = "put_fds L f (st\<lparr>disk := fs\<rparr>)"
  obtain fs1 where r: "ready ?lp (log_size st) t n (disk st) f fs1" and b: "base_filename f = base_filename (fds_info st L)"
    and fs: "next_fd fs = next_fd fs1" "\<forall>fd q. refers fd q fs = refers fd q fs1" "\<forall>q. file_exists q fs = file_exists q fs1"
      "\<forall>q. file_bytes q fs = (if q = ?lp t n then file_bytes q (disk st) @ line else file_bytes q (disk st))"
    using w unfolding wrote_def by blast
  have lp: "lpath ?st = lpath st" by (rule lpath_put [OF b])
  have st: "fds_info ?st L = f" "disk ?st = fs" "log_size ?st = log_size st" by (simp_all add: put_fds_def)
  have inj: "?lp u s = ?lp t s' \<longleftrightarrow> date_of u = date_of t \<and> s = s'" if "tm_ok u" "s < MAX_LOG_CNT" "s' \<le> n" for u s s'
    using lpath_inj [of st L L u t s s'] P L t that n by (simp add: plain_log_def)
  have ex: "file_exists q fs \<longleftrightarrow> file_exists q (disk st) \<or> (\<exists>s \<le> n. q = ?lp t s)" for q using r fs(3) unfolding ready_def by blast
  have ex': "\<forall>s < MAX_LOG_CNT. file_exists (?lp t s) fs \<longleftrightarrow> s \<le> n" using r fs(3) unfolding ready_def by blast
  have old: "\<And>u s. tm_ok u \<Longrightarrow> s < MAX_LOG_CNT \<Longrightarrow> file_exists (?lp u s) (disk st) \<Longrightarrow> date_of u \<in> date_of ` set ts"
    and full: "\<And>u s. tm_ok u \<Longrightarrow> s + 1 < MAX_LOG_CNT \<Longrightarrow> file_exists (?lp u (s + 1)) (disk st) \<Longrightarrow> log_size st \<le> length (file_bytes (?lp u s) (disk st))"
    and small: "\<And>u s. tm_ok u \<Longrightarrow> s < MAX_LOG_CNT \<Longrightarrow> length (file_bytes (?lp u s) (disk st)) \<le> log_size st + log_buf_sz"
    and ok: "list_all tm_ok ts"
    using inv by (auto simp: lvl_inv_def Let_def)
  have 1: "date_of u \<in> date_of ` set (ts @ [t])" if "tm_ok u" "s < MAX_LOG_CNT" "file_exists (?lp u s) fs" for u s
    using that old ex inj by auto
  have 2: "\<exists>m. seq f = int m \<and> m \<le> length (ts @ [t]) \<and> day f = int (tm_yday (last (ts @ [t]))) \<and> 0 \<le> opfd f \<and> opfd f < next_fd fs \<and>
      refers (opfd f) (?lp (last (ts @ [t])) m) fs \<and> (\<forall>s < MAX_LOG_CNT. file_exists (?lp (last (ts @ [t])) s) fs \<longleftrightarrow> s \<le> m)"
    by (rule exI [of _ n]) (use r fs ex' n in \<open>simp add: ready_def\<close>)
  have 3: "length (file_bytes (?lp u s) fs) \<le> log_size st + log_buf_sz" if "tm_ok u" "s < MAX_LOG_CNT" for u s
    using that small r line fs(4) by (auto simp: ready_def)
  have 4: "log_size st \<le> length (file_bytes (?lp u s) fs)" if a: "tm_ok u" "s + 1 < MAX_LOG_CNT" "file_exists (?lp u (s + 1)) fs" for u s
  proof -
    have "log_size st \<le> length (file_bytes (?lp u s) (disk st))"
    proof (cases "file_exists (?lp u (s + 1)) (disk st)")
      case False
      then obtain s' where s': "s' \<le> n" "?lp u (s + 1) = ?lp t s'" using ex a(3) by blast
      then have d: "date_of u = date_of t" "s < n" using inj a by auto
      then show ?thesis using r lpath_same_date [OF a(1) t d(1), of st L s] by (simp add: ready_def)
    qed (use full a in blast)
    then show ?thesis using fs(4) by auto
  qed
  show ?thesis unfolding lvl_inv_def Let_def lp st using ok t 1 2 3 4 by simp
qed

lemma other_level:
  assumes P: "plain_log st" and inv: "lvl_inv L ts st" "lvl_inv L' ts' st" and L: "L < 9" "L' < 9" "L' \<noteq> L" and t: "tm_ok t"
    and n: "n < MAX_LOG_CNT" "length ts < MAX_LOG_CNT" "length ts' < MAX_LOG_CNT" and w: "wrote st L t n line f fs"
  shows "lvl_inv L' ts' (put_fds L f (st\<lparr>disk := fs\<rparr>))"
proof -
  let ?lp = "lpath st L'" and ?st = "put_fds L f (st\<lparr>disk := fs\<rparr>)" and ?f = "fds_info st L'"
  obtain fs1 where r: "ready (lpath st L) (log_size st) t n (disk st) f fs1" and b: "base_filename f = base_filename (fds_info st L)"
    and keep: "\<forall>fd q. fd \<noteq> opfd (fds_info st L) \<longrightarrow> fd < next_fd (disk st) \<longrightarrow> refers fd q (disk st) \<longrightarrow> refers fd q fs"
    and fs: "next_fd fs = next_fd fs1" "\<forall>q. file_exists q fs = file_exists q fs1"
      "\<forall>q. file_bytes q fs = (if q = lpath st L t n then file_bytes q (disk st) @ line else file_bytes q (disk st))"
    using w unfolding wrote_def by blast
  have lp: "lpath ?st = lpath st" by (rule lpath_put [OF b])
  have st: "fds_info ?st L' = ?f" "disk ?st = fs" "log_size ?st = log_size st" using L(3) by (simp_all add: put_fds_def)
  have named: "named st" using P by (simp add: plain_log_def)
  have ne: "?lp u s \<noteq> lpath st L t s'" if "tm_ok u" "s < MAX_LOG_CNT" "s' \<le> n" for u s s'
    using lpath_inj [OF named L(2,1) that(1) t that(2), of s'] that n(1) L(3) by auto
  have ex: "file_exists (?lp u s) fs = file_exists (?lp u s) (disk st)" if "tm_ok u" "s < MAX_LOG_CNT" for u s
    using r fs(2) ne that unfolding ready_def by blast
  have byt: "file_bytes (?lp u s) fs = file_bytes (?lp u s) (disk st)" if "tm_ok u" "s < MAX_LOG_CNT" for u s
    using fs(3) ne [OF that le_refl] by simp
  have nf: "next_fd (disk st) \<le> next_fd fs" using r fs(1) by (simp add: ready_def)
  have tok: "tm_ok (last ts')" if "ts' \<noteq> []" using inv(2) that by (simp add: lvl_inv_def Let_def list_all_iff)
  have op: "refers (opfd ?f) (?lp (last ts') m) fs"
    if "ts' \<noteq> []" "refers (opfd ?f) (?lp (last ts') m) (disk st)" "m \<le> length ts'" "opfd ?f < next_fd (disk st)" "0 \<le> opfd ?f" for m
  proof -
    have "opfd ?f \<noteq> opfd (fds_info st L)"
    proof
      assume e: "opfd ?f = opfd (fds_info st L)"
      then have ts: "ts \<noteq> []" using inv(1) that(5) by (auto simp: lvl_inv_def Let_def)
      then obtain k where k: "k \<le> length ts" "refers (opfd ?f) (lpath st L (last ts) k) (disk st)" "tm_ok (last ts)"
        using inv(1) e by (auto simp: lvl_inv_def Let_def list_all_iff)
      have "?lp (last ts') m = lpath st L (last ts) k"
        using that(2) k(2) P inode_inj [of "disk st"] by (auto simp: refers_def plain_log_def)
      then show False using lpath_inj [OF named L(2,1) tok [OF that(1)] k(3), of m k] that(3) k(1) n L(3) by simp
    qed
    then show ?thesis using keep that by blast
  qed
  have c: "\<exists>m. seq ?f = int m \<and> m \<le> length ts' \<and> day ?f = int (tm_yday (last ts')) \<and> 0 \<le> opfd ?f \<and> opfd ?f < next_fd fs \<and>
      refers (opfd ?f) (?lp (last ts') m) fs \<and> (\<forall>s < MAX_LOG_CNT. file_exists (?lp (last ts') s) fs \<longleftrightarrow> s \<le> m)" if ne: "ts' \<noteq> []"
  proof -
    obtain m where m: "seq ?f = int m" "m \<le> length ts'" "day ?f = int (tm_yday (last ts'))" "0 \<le> opfd ?f" "opfd ?f < next_fd (disk st)"
      "refers (opfd ?f) (?lp (last ts') m) (disk st)" "\<forall>s < MAX_LOG_CNT. file_exists (?lp (last ts') s) (disk st) \<longleftrightarrow> s \<le> m"
      using inv(2) ne unfolding lvl_inv_def Let_def by blast
    then show ?thesis using op [OF ne m(6,2,5,4)] nf ex [OF tok [OF ne]] by (intro exI [of _ m]) simp
  qed
  show ?thesis
    using inv(2) c ex byt unfolding lvl_inv_def Let_def lp st by (simp add: add_lessD1)
qed

text \<open>The text of a day grows by the line, and no other text changes.\<close>

lemma inv_count:
  assumes "lvl_inv L ts st" "days_apart t ts" "tm_ok t" "length ts < MAX_LOG_CNT"
  shows "\<exists>k \<le> MAX_LOG_CNT. \<forall>s < MAX_LOG_CNT. file_exists (lpath st L t s) (disk st) \<longleftrightarrow> s < k"
proof (cases "ts \<noteq> [] \<and> date_of t = date_of (last ts)")
  case True
  then obtain n where n: "n \<le> length ts" "\<forall>s < MAX_LOG_CNT. file_exists (lpath st L (last ts) s) (disk st) \<longleftrightarrow> s \<le> n" "tm_ok (last ts)"
    using assms(1) by (auto simp: lvl_inv_def Let_def list_all_iff)
  then show ?thesis using lpath_same_date [OF assms(3) n(3), of st L] True assms(4) by (intro exI [of _ "n + 1"]) auto
next
  case False
  then have "date_of t \<notin> date_of ` set ts" using assms(2) by (auto simp: days_apart_def)
  then show ?thesis using assms(1,3) by (intro exI [of _ 0]) (auto simp: lvl_inv_def Let_def)
qed

lemma text_grows:
  assumes P: "plain_log st" and inv: "lvl_inv L ts st" and L: "L < 9" and t: "tm_ok t" "days_apart t ts" and n: "n \<le> length ts + 1" "length ts + 1 < MAX_LOG_CNT"
    and w: "wrote st L t n line f fs"
  shows "log_text (put_fds L f (st\<lparr>disk := fs\<rparr>)) L t = log_text st L t @ line"
proof -
  let ?lp = "lpath st L" and ?st = "put_fds L f (st\<lparr>disk := fs\<rparr>)"
  obtain fs1 where r: "ready ?lp (log_size st) t n (disk st) f fs1" and b: "base_filename f = base_filename (fds_info st L)"
    and fs: "\<forall>q. file_exists q fs = file_exists q fs1"
      "\<forall>q. file_bytes q fs = (if q = ?lp t n then file_bytes q (disk st) @ line else file_bytes q (disk st))"
    using w unfolding wrote_def by blast
  have lp: "lpath ?st = lpath st" "disk ?st = fs" using lpath_put [OF b] by (simp_all add: put_fds_def)
  have m: "n < MAX_LOG_CNT" "length ts < MAX_LOG_CNT" using n by auto
  obtain k where k: "k \<le> MAX_LOG_CNT" "\<forall>s < MAX_LOG_CNT. file_exists (?lp t s) (disk st) \<longleftrightarrow> s < k"
    using inv_count [OF inv t(2,1) m(2)] by blast
  have "\<forall>s < MAX_LOG_CNT. file_exists (?lp t s) fs \<longleftrightarrow> s \<le> n" using r fs(1) unfolding ready_def by blast
  then have ex: "\<forall>s < MAX_LOG_CNT. file_exists (?lp t s) fs \<longleftrightarrow> s < n + 1" by (simp add: less_Suc_eq_le)
  have "s < n + 1" if "s < k" for s
  proof -
    have "file_exists (?lp t s) (disk st)" using k that by simp
    then have "file_exists (?lp t s) fs" using r fs(1) unfolding ready_def by blast
    then show ?thesis using ex that k(1) by simp
  qed
  then have kn: "k \<le> n + 1" using not_less by blast
  have e: "file_bytes (?lp t s) (disk st) = []" if "k \<le> s" "s \<le> n" for s
    using bytes_missing k that m(1) by simp
  have ne: "?lp t s \<noteq> ?lp t n" if "s < n" for s using lpath_inj [of st L L t t s n] P L t(1) that m(1) by (simp add: plain_log_def)
  have "log_text ?st L t = concat (map (\<lambda>s. file_bytes (?lp t s) fs) [0..<n + 1])"
    using takeWhile_upt [of "n + 1" MAX_LOG_CNT, OF _ ex] m(1) by (simp add: log_text_def lp)
  also have "\<dots> = concat (map (\<lambda>s. file_bytes (?lp t s) (disk st)) [0..<n + 1]) @ line"
  proof -
    have "concat (map (\<lambda>s. file_bytes (?lp t s) fs) [0..<n]) = concat (map (\<lambda>s. file_bytes (?lp t s) (disk st)) [0..<n])"
      by (rule arg_cong [where f = concat], rule map_cong) (use fs(2) ne in auto)
    moreover have "file_bytes (?lp t n) fs = file_bytes (?lp t n) (disk st) @ line" using fs(2) by simp
    ultimately show ?thesis by simp
  qed
  also have "concat (map (\<lambda>s. file_bytes (?lp t s) (disk st)) [0..<n + 1]) = concat (map (\<lambda>s. file_bytes (?lp t s) (disk st)) [0..<k])"
  proof -
    have "[0..<n + 1] = [0..<k] @ [k..<n + 1]" using kn upt_add_eq_append [of 0 k "n + 1 - k"] by simp
    moreover have "concat (map (\<lambda>s. file_bytes (?lp t s) (disk st)) [k..<n + 1]) = []" using e by auto
    ultimately show ?thesis by simp
  qed
  also have "\<dots> = log_text st L t" using takeWhile_upt [OF k] by (simp add: log_text_def)
  finally show ?thesis .
qed

lemma text_stays:
  assumes P: "plain_log st" and L: "L < 9" "L' < 9" and t: "tm_ok t" "tm_ok u" and n: "n < MAX_LOG_CNT"
    and w: "wrote st L t n line f fs" and d: "L' \<noteq> L \<or> date_of u \<noteq> date_of t"
  shows "log_text (put_fds L f (st\<lparr>disk := fs\<rparr>)) L' u = log_text st L' u"
proof -
  let ?st = "put_fds L f (st\<lparr>disk := fs\<rparr>)" and ?lp = "lpath st L' u"
  obtain fs1 where r: "ready (lpath st L) (log_size st) t n (disk st) f fs1" and b: "base_filename f = base_filename (fds_info st L)"
    and fs: "\<forall>q. file_exists q fs = file_exists q fs1"
      "\<forall>q. file_bytes q fs = (if q = lpath st L t n then file_bytes q (disk st) @ line else file_bytes q (disk st))"
    using w unfolding wrote_def by blast
  have lp: "lpath ?st = lpath st" "disk ?st = fs" using lpath_put [OF b] by (simp_all add: put_fds_def)
  have ne: "?lp s \<noteq> lpath st L t s'" if "s < MAX_LOG_CNT" "s' \<le> n" for s s'
    using lpath_inj [of st L' L u t s s'] P L t that n d by (auto simp: plain_log_def)
  have ex: "file_exists (?lp s) fs = file_exists (?lp s) (disk st)" if "s < MAX_LOG_CNT" for s
    using r fs(1) ne that unfolding ready_def by blast
  have byt: "file_bytes (?lp s) fs = file_bytes (?lp s) (disk st)" if "s < MAX_LOG_CNT" for s
    using fs(2) ne [OF that le_refl] by simp
  have tw: "takeWhile (\<lambda>s. file_exists (?lp s) fs) [0..<MAX_LOG_CNT] = takeWhile (\<lambda>s. file_exists (?lp s) (disk st)) [0..<MAX_LOG_CNT]"
    by (rule takeWhile_cong) (use ex in auto)
  have "s < MAX_LOG_CNT" if "s \<in> set (takeWhile P [0..<MAX_LOG_CNT])" for s P using set_takeWhileD [OF that] by simp
  then show ?thesis by (simp add: log_text_def lp tw byt cong: map_cong)
qed

section \<open>Runs\<close>

record log_call =
  lc_env :: log_env
  lc_lvl :: int
  lc_key :: u32
  lc_msg :: bytes

fun log_run :: "log_call list \<Rightarrow> log_state \<Rightarrow> log_state option" where
  "log_run [] st = Some st"
| "log_run (c # cs) st = do { st \<leftarrow> write_log (lc_env c) (lc_lvl c) (lc_key c) (lc_msg c) st; log_run cs st }"

definition call_time :: "log_call \<Rightarrow> tm" where
  "call_time c = le_localtime (lc_env c) (le_now (lc_env c))"

definition call_line :: "log_call \<Rightarrow> bytes" where
  "call_line c = log_line (lc_env c) (call_time c) (lc_key c) (lc_msg c)"

text \<open>A call at a level that exists, while files can be opened and the disk has room for a line.\<close>

definition call_ok :: "log_call \<Rightarrow> bool" where
  "call_ok c \<longleftrightarrow> valid_lvl (lc_lvl c) \<and> tm_ok (call_time c) \<and> (\<forall>p. le_may_open (lc_env c) p) \<and>
     log_buf_sz \<le> le_space (lc_env c) \<and> le_pid (lc_env c) < 10000000"

text \<open>The lines of a level: those above the level of the log are dropped.\<close>

definition of_level :: "u32 \<Rightarrow> nat \<Rightarrow> log_call \<Rightarrow> bool" where
  "of_level lev L c \<longleftrightarrow> nat (lc_lvl c) = L \<and> \<not> of_int (lc_lvl c) > lev"

definition level_times :: "u32 \<Rightarrow> nat \<Rightarrow> log_call list \<Rightarrow> tm list" where
  "level_times lev L cs = map call_time (filter (of_level lev L) cs)"

text \<open>No day comes back after another one, and within the run the day of the year tells the date.\<close>

definition days_in_order :: "log_call list \<Rightarrow> bool" where
  "days_in_order cs \<longleftrightarrow>
     (\<forall>i j k. i \<le> j \<longrightarrow> j \<le> k \<longrightarrow> k < length cs \<longrightarrow> date_of (call_time (cs ! i)) = date_of (call_time (cs ! k)) \<longrightarrow>
        date_of (call_time (cs ! j)) = date_of (call_time (cs ! i))) \<and>
     (\<forall>c \<in> set cs. \<forall>d \<in> set cs. tm_yday (call_time c) = tm_yday (call_time d) \<longleftrightarrow> date_of (call_time c) = date_of (call_time d))"

lemma days_apart_in_order:
  assumes "days_in_order (hs @ c # cs)"
  shows "days_apart (call_time c) (level_times lev L hs)"
proof (cases "level_times lev L hs = []")
  case False
  then have "\<exists>x \<in> set hs. of_level lev L x" by (auto simp: level_times_def filter_empty_conv)
  from split_list_last_prop [OF this] obtain as b bs where s: "hs = as @ b # bs" "of_level lev L b" "\<forall>x \<in> set bs. \<not> of_level lev L x" by blast
  have l: "last (level_times lev L hs) = call_time b" using s by (simp add: level_times_def filter_False)
  have "date_of (call_time b) = date_of (call_time c)" if d: "date_of (call_time c) \<in> date_of ` set (level_times lev L hs)"
  proof -
    from d obtain x where "x \<in> set hs" "of_level lev L x" "date_of (call_time c) = date_of (call_time x)"
      by (auto simp: level_times_def)
    then have x: "x \<in> set (as @ [b])" "date_of (call_time x) = date_of (call_time c)" using s by auto
    then obtain i where "i < length (as @ [b])" and x': "(as @ [b]) ! i = x" unfolding in_set_conv_nth by blast
    then have i: "i \<le> length as" "(as @ [b]) ! i = x" by simp_all
    have n: "(hs @ c # cs) ! i = x" "(hs @ c # cs) ! length as = b" "(hs @ c # cs) ! length hs = c"
      using i x' by (auto simp: s(1) nth_append split: if_splits)
    have o: "\<And>i j k. i \<le> j \<Longrightarrow> j \<le> k \<Longrightarrow> k < length (hs @ c # cs) \<Longrightarrow>
        date_of (call_time ((hs @ c # cs) ! i)) = date_of (call_time ((hs @ c # cs) ! k)) \<Longrightarrow>
        date_of (call_time ((hs @ c # cs) ! j)) = date_of (call_time ((hs @ c # cs) ! i))"
      using assms unfolding days_in_order_def by blast
    have "length as \<le> length hs" "length hs < length (hs @ c # cs)" by (simp_all add: s(1))
    from o [OF i(1) this, unfolded n] x(2) show ?thesis by simp
  qed
  moreover have "tm_yday (call_time c) = tm_yday (call_time b) \<longleftrightarrow> date_of (call_time c) = date_of (call_time b)"
    using assms s(1) unfolding days_in_order_def by auto
  ultimately show ?thesis by (auto simp: days_apart_def l)
qed (simp add: days_apart_def)

definition log_inv :: "log_call list \<Rightarrow> log_state \<Rightarrow> bool" where
  "log_inv hs st \<longleftrightarrow> plain_log st \<and> (\<forall>L < 9. lvl_inv L (level_times (log_level st) L hs) st)"

lemma level_times_snoc:
  "level_times lev L (hs @ [c]) = level_times lev L hs @ (if of_level lev L c then [call_time c] else [])"
  by (simp add: level_times_def)

lemma log_step:
  assumes inv: "log_inv hs st" and c: "call_ok c" and d: "days_in_order (hs @ c # cs)" and m: "length hs + 1 < MAX_LOG_CNT"
  shows "\<exists>st'. write_log (lc_env c) (lc_lvl c) (lc_key c) (lc_msg c) st = Some st' \<and> log_inv (hs @ [c]) st' \<and>
    log_level st' = log_level st \<and> log_size st' = log_size st \<and>
    (\<forall>L < 9. \<forall>t. tm_ok t \<longrightarrow> log_text st' L t =
      log_text st L t @ (if of_level (log_level st) L c \<and> date_of (call_time c) = date_of t then call_line c else []))"
proof (cases "of_int (lc_lvl c) > log_level st")
  case True
  then have "\<not> of_level (log_level st) L c" for L by (simp add: of_level_def)
  then show ?thesis using True inv by (intro exI [of _ st]) (simp add: write_log_def log_inv_def level_times_snoc)
next
  case False
  let ?L = "nat (lc_lvl c)" and ?lev = "log_level st" and ?t = "call_time c" and ?line = "call_line c"
  let ?ts = "level_times ?lev ?L hs"
  have P: "plain_log st" and li: "\<And>L. L < 9 \<Longrightarrow> lvl_inv L (level_times ?lev L hs) st" using inv by (simp_all add: log_inv_def)
  have L: "?L < 9" using c by (auto simp: call_ok_def valid_lvl_def log_lvl_trace_def log_lvl_emerg_def)
  have of: "of_level ?lev L c \<longleftrightarrow> L = ?L" for L using False by (auto simp: of_level_def)
  have le: "length (level_times ?lev L hs) \<le> length hs" for L by (simp add: level_times_def)
  have ap: "days_apart ?t ?ts" by (rule days_apart_in_order [OF d])
  have t: "tm_ok ?t" "\<forall>p. le_may_open (lc_env c) p" "valid_lvl (lc_lvl c)" "log_buf_sz \<le> le_space (lc_env c)" "le_pid (lc_env c) < 10000000"
    using c by (simp_all add: call_ok_def)
  have len: "length ?ts + 1 < MAX_LOG_CNT" using le [of ?L] m by simp
  have ct: "?t = le_localtime (lc_env c) (le_now (lc_env c))" by (simp add: call_time_def)
  from write_log_wrote [where k = "lc_key c" and msg = "lc_msg c", OF P li [OF L] t(2,3,1) ap len ct False t(4,5)] obtain n f fs where
    w: "write_log (lc_env c) (lc_lvl c) (lc_key c) (lc_msg c) st = Some (put_fds ?L f ((shown ?L ?t (lc_msg c) st)\<lparr>disk := fs\<rparr>))"
    "n \<le> length ?ts + 1" "wrote (shown ?L ?t (lc_msg c) st) ?L ?t n ?line f fs"
    unfolding call_line_def by blast
  let ?s = "shown ?L ?t (lc_msg c) st"
  let ?st = "put_fds ?L f (?s\<lparr>disk := fs\<rparr>)"
  have Ps: "plain_log ?s" and lis: "\<And>L. L < 9 \<Longrightarrow> lvl_inv L (level_times ?lev L hs) ?s" using P li by simp_all
  have n: "n < MAX_LOG_CNT" using w(2) len by simp
  have line: "length ?line \<le> log_buf_sz" unfolding call_line_def by (rule length_log_line [OF t(1,5)])
  have ok: "fs_ok fs" "base_filename f = base_filename (fds_info st ?L)" using w(3) unfolding wrote_def by auto
  have P': "plain_log ?st" using Ps ok by (auto simp: plain_log_def named_def put_fds_def)
  have lev: "log_level ?st = ?lev" "log_size ?st = log_size st" by (simp_all add: put_fds_def)
  have "lvl_inv L (level_times ?lev L (hs @ [c])) ?st" if "L < 9" for L
  proof (cases "L = ?L")
    case True
    then show ?thesis using same_level [OF Ps lis [OF L] L t(1) w(2) len w(3) line] by (simp add: level_times_snoc of)
  next
    case other: False
    have "length ?ts < MAX_LOG_CNT" "length (level_times ?lev L hs) < MAX_LOG_CNT" using le [of ?L] le [of L] m by simp_all
    then show ?thesis using other_level [OF Ps lis [OF L] lis [OF that] L that other t(1) n _ _ w(3)] other by (simp add: level_times_snoc of)
  qed
  then have "log_inv (hs @ [c]) ?st" using P' lev by (simp add: log_inv_def)
  moreover have "log_text ?st L u = log_text st L u @ (if of_level ?lev L c \<and> date_of ?t = date_of u then ?line else [])"
    if "L < 9" "tm_ok u" for L u
  proof -
    have sh: "log_text ?s = log_text st" by (simp add: log_text_def fun_eq_iff)
    show ?thesis
    proof (cases "L = ?L \<and> date_of ?t = date_of u")
      case True
      have "log_text st' ?L u = log_text st' ?L ?t" for st' using lpath_same_date [OF that(2) t(1)] True by (simp add: log_text_def)
      then show ?thesis using text_grows [OF Ps lis [OF L] L t(1) ap w(2) len w(3)] True of sh by simp
    next
      case False
      then show ?thesis using text_stays [OF Ps L that(1) t(1) that(2) n w(3)] of sh by auto
    qed
  qed
  ultimately show ?thesis using w(1) lev by blast
qed

lemma log_run_spec:
  "log_inv hs st \<Longrightarrow> list_all call_ok cs \<Longrightarrow> days_in_order (hs @ cs) \<Longrightarrow> length hs + length cs < MAX_LOG_CNT \<Longrightarrow>
   \<exists>st'. log_run cs st = Some st' \<and> log_inv (hs @ cs) st' \<and> log_level st' = log_level st \<and> log_size st' = log_size st \<and>
    (\<forall>L < 9. \<forall>t. tm_ok t \<longrightarrow> log_text st' L t =
      log_text st L t @ concat (map call_line (filter (\<lambda>c. of_level (log_level st) L c \<and> date_of (call_time c) = date_of t) cs)))"
proof (induction cs arbitrary: hs st)
  case (Cons c cs)
  from log_step [OF Cons(2) _ Cons(4)] Cons(3,5) obtain st1 where
    1: "write_log (lc_env c) (lc_lvl c) (lc_key c) (lc_msg c) st = Some st1" "log_inv (hs @ [c]) st1" "log_level st1 = log_level st" "log_size st1 = log_size st"
    "\<forall>L < 9. \<forall>t. tm_ok t \<longrightarrow> log_text st1 L t =
      log_text st L t @ (if of_level (log_level st) L c \<and> date_of (call_time c) = date_of t then call_line c else [])"
    by auto
  from Cons(1) [OF 1(2)] Cons(3-5) obtain st2 where
    2: "log_run cs st1 = Some st2" "log_inv (hs @ c # cs) st2" "log_level st2 = log_level st1" "log_size st2 = log_size st1"
    "\<forall>L < 9. \<forall>t. tm_ok t \<longrightarrow> log_text st2 L t =
      log_text st1 L t @ concat (map call_line (filter (\<lambda>c. of_level (log_level st1) L c \<and> date_of (call_time c) = date_of t) cs))"
    by auto
  show ?case by (rule exI [of _ st2]) (use 1 2 in auto)
qed simp

text \<open>Starting in a directory with nothing below it.\<close>

definition nothing_below :: "bytes \<Rightarrow> fsys \<Rightarrow> bool" where
  "nothing_below d fs \<longleftrightarrow> (\<forall>p. \<not> file_exists (d @ 47 # p) fs)"

lemma init_levels_spec:
  "g_logtime_interval st = 0 \<Longrightarrow> max_log_files st = 0 \<Longrightarrow> nothing_below (log_dir st) (disk st) \<Longrightarrow>
   \<exists>fi. init_levels env is st = (True, st\<lparr>fds_info := fi\<rparr>) \<and>
     (\<forall>i. base_filename (fi i) = (if i \<in> set is then log_pre st @ lognames ! i else base_filename (fds_info st i)) \<and>
          (i \<in> set is \<longrightarrow> opfd (fi i) = -1 \<and> seq (fi i) = 0) \<and> (i \<notin> set is \<longrightarrow> fi i = fds_info st i))"
proof (induction "is" arbitrary: st)
  case Nil
  have "st\<lparr>fds_info := fds_info st\<rparr> = st" by simp
  then show ?case by (intro exI [of _ "fds_info st"]) simp
next
  case (Cons i "is")
  let ?f = "(fds_info st i)\<lparr>base_filename := log_pre st @ lognames ! i, opfd := -1\<rparr>"
  let ?st = "put_fds i ?f st"
  have z: "request_log_seq env ?st i = 0"
  proof -
    have "\<not> file_exists (log_file_path env ?st i (int 0) t) (disk ?st)" for t
      using Cons(2,4) by (simp add: log_file_path_def put_fds_def nothing_below_def)
    then have "first_free env ?st i t 0 = 0" for t by (subst first_free.simps) simp
    then show ?thesis using Cons(3) by (simp add: request_log_seq_def get_log_seq_nonrecycle_def put_fds_def)
  qed
  let ?st1 = "put_fds i ((fds_info ?st i)\<lparr>seq := 0\<rparr>) ?st"
  have u: "init_levels env (i # is) st = init_levels env is ?st1"
    using z Cons(2) by (simp add: Let_def) (simp add: put_fds_def)
  have "g_logtime_interval ?st1 = 0" "max_log_files ?st1 = 0" "nothing_below (log_dir ?st1) (disk ?st1)" "log_pre ?st1 = log_pre st"
    using Cons(2-4) by (simp_all add: put_fds_def)
  with Cons(1) [of ?st1] obtain fi where fi: "init_levels env is ?st1 = (True, ?st1\<lparr>fds_info := fi\<rparr>)"
    "\<And>j. base_filename (fi j) = (if j \<in> set is then log_pre st @ lognames ! j else base_filename (fds_info ?st1 j))"
    "\<And>j. j \<in> set is \<Longrightarrow> opfd (fi j) = -1 \<and> seq (fi j) = 0" "\<And>j. j \<notin> set is \<Longrightarrow> fi j = fds_info ?st1 j" by metis
  have f1: "fds_info ?st1 = (fds_info st)(i := ?f\<lparr>seq := 0\<rparr>)" "?st1\<lparr>fds_info := fi\<rparr> = st\<lparr>fds_info := fi\<rparr>" by (simp_all add: put_fds_def)
  show ?case
    by (rule exI [of _ fi]) (use fi u in \<open>auto simp: f1 simp del: init_levels.simps\<close>)
qed

lemma log_init_inv:
  assumes "log_init env (Some d) lvl sz 0 pre st0 = Some (0, st)" "d \<noteq> []" "g_logtime_interval st0 = 0" "fs_ok (disk st0)"
    and e: "nothing_below (take 255 d) (disk st0)"
  shows "log_inv [] st \<and> log_level st = lvl \<and> log_size st = unat sz \<and> (\<forall>L t. log_text st L t = [])"
proof -
  define st1 where "st1 = st0\<lparr>log_level := lvl, log_size := unat sz, config_max_log_files := 0, max_log_files := 0, log_dir := take 255 d\<rparr>"
  define st2 where "st2 = (case pre of None \<Rightarrow> st1 | Some p \<Rightarrow> st1\<lparr>log_pre := take 31 p\<rparr>)"
  have f: "g_logtime_interval st2 = 0" "max_log_files st2 = 0" "nothing_below (log_dir st2) (disk st2)" "config_max_log_files st2 = 0"
    "fs_ok (disk st2)" "log_level st2 = lvl" "log_size st2 = unat sz"
    using assms(3,4) e by (simp_all add: st2_def st1_def split: option.split)
  from init_levels_spec [OF f(1-3), of env "[0..<9]"] obtain fi where fi: "init_levels env [0..<9] st2 = (True, st2\<lparr>fds_info := fi\<rparr>)"
    "\<And>i. i < 9 \<Longrightarrow> base_filename (fi i) = log_pre st2 @ lognames ! i \<and> opfd (fi i) = -1 \<and> seq (fi i) = 0" by auto
  have st: "st = st2\<lparr>fds_info := fi, g_log_dest := log_dest_file, has_init := True\<rparr>"
    using assms(1,2) fi(1) by (simp add: log_init_def st1_def [symmetric] st2_def [symmetric] Let_def split: if_splits)
  have "plain_log st" using f fi(2) by (simp add: st plain_log_def named_def log_dest_file_def)
  moreover have no: "\<not> file_exists (lpath st L t s) (disk st)" "file_bytes (lpath st L t s) (disk st) = []" for L t s
    using f(3) bytes_missing [of "lpath st L t s"] by (auto simp: st nothing_below_def lpath_def)
  moreover have "lvl_inv L [] st" if "L < 9" for L using that fi(2) no by (simp add: lvl_inv_def Let_def) (simp add: st)
  moreover have "log_text st L t = []" for L t using no by (simp add: log_text_def MAX_LOG_CNT_def)
  ultimately show ?thesis using f(6,7) by (simp add: log_inv_def level_times_def) (simp add: st)
qed

lemma log_init_starts:
  assumes "d \<noteq> []" "g_logtime_interval st0 = 0" "nothing_below (take 255 d) (disk st0)" "lvl \<le> 8" "sz \<le> 0x80000000" "le_access env d"
  shows "\<exists>st. log_init env (Some d) lvl sz 0 pre st0 = Some (0, st)"
proof -
  define st1 where "st1 = st0\<lparr>log_level := lvl, log_size := unat sz, config_max_log_files := 0, max_log_files := 0, log_dir := take 255 d\<rparr>"
  define st2 where "st2 = (case pre of None \<Rightarrow> st1 | Some p \<Rightarrow> st1\<lparr>log_pre := take 31 p\<rparr>)"
  have f: "g_logtime_interval st2 = 0" "max_log_files st2 = 0" "nothing_below (log_dir st2) (disk st2)"
    using assms(2,3) by (simp_all add: st2_def st1_def split: option.split)
  from init_levels_spec [OF f, of env "[0..<9]"] obtain fi where "init_levels env [0..<9] st2 = (True, st2\<lparr>fds_info := fi\<rparr>)" by auto
  then show ?thesis
    using assms(1,4-6) by (simp add: log_init_def st1_def [symmetric] st2_def [symmetric] Let_def log_lvl_trace_def not_less)
qed

text \<open>
  C12: a log that is neither recycled nor shifted by an interval loses nothing and invents nothing.
  Let it start in an empty directory, in a process whose id has at most seven digits, and let fewer
  than 10000000 calls follow at levels that exist, while every file can be opened and the disk has
  room for every line, with dates that never come back after another one and are told apart by the
  day of the year alone (the code compares nothing else, so the calls may not be a year apart to
  the day). Then the files of a level and a day, in the order of their numbers, hold the lines of
  that level and day in the order of the calls, and nothing else, although files are shifted by
  size and by day in between.
\<close>

theorem log_keeps_lines:
  assumes "log_init env (Some d) lvl sz 0 pre st0 = Some (0, st)" "d \<noteq> []" "g_logtime_interval st0 = 0" "fs_ok (disk st0)"
    "nothing_below (take 255 d) (disk st0)" "list_all call_ok cs" "days_in_order cs" "length cs < MAX_LOG_CNT"
  shows "\<exists>st'. log_run cs st = Some st' \<and> (\<forall>L < 9. \<forall>t. tm_ok t \<longrightarrow>
    log_text st' L t = concat (map call_line (filter (\<lambda>c. of_level lvl L c \<and> date_of (call_time c) = date_of t) cs)))"
proof -
  from log_init_inv [OF assms(1-5)] have i: "log_inv [] st" "log_level st = lvl" "\<forall>L t. log_text st L t = []" by simp_all
  from log_run_spec [OF i(1) assms(6), simplified, OF assms(7,8)] i(2,3) show ?thesis by auto
qed

text \<open>
  Why the day of the year has to tell the date: with room left in its file a level stays with it
  on any date with the same day of the year, so a line a year later goes into last year's file.
\<close>

theorem same_yday_same_file:
  assumes "g_logtime_interval st = 0" "0 \<le> opfd (fds_info st L)" "day (fds_info st L) = int (tm_yday t)"
    "fs_size (opfd (fds_info st L)) (disk st) < int (log_size st)"
  shows "shift_fd env L (t\<lparr>tm_year := y\<rparr>) st = (0, st)"
  using assms by (simp add: shift_fd_def shift_opened_def Let_def)

text \<open>A log that is started and gets a line twice.\<close>

definition new_year :: tm where
  "new_year = \<lparr>tm_year = 112, tm_mon = 0, tm_mday = 1, tm_hour = 0, tm_min = 0, tm_sec = 0, tm_yday = 0\<rparr>"

definition calm :: log_env where
  "calm = \<lparr>le_now = 0, le_localtime = (\<lambda>_. new_year), le_may_open = (\<lambda>_. True), le_space = 8192, le_opendir = True,
     le_access = (\<lambda>_. True), le_pid = 1, le_junk = (\<lambda>_. [])\<rparr>"

definition hi_call :: log_call where
  "hi_call = \<lparr>lc_env = calm, lc_lvl = 3, lc_key = 0, lc_msg = [104, 105, 10]\<rparr>"

definition no_log :: log_state where
  "no_log = \<lparr>log_level = 7, g_log_dest = log_dest_terminal, g_multi_thread = False, has_init = False, max_log_files = 0,
     config_max_log_files = 0, log_size = 0, log_pre = [], log_dir = [], g_logtime_interval = 0, fds_info = (\<lambda>_. no_fds),
     disk = \<lparr>entries = [], content = (\<lambda>_. []), descs = (\<lambda>_. None), next_inode = 0, next_fd = 3\<rparr>, screen = [], syslogs = []\<rparr>"

lemma no_log_ok: "g_logtime_interval no_log = 0" "fs_ok (disk no_log)" "nothing_below d (disk no_log)"
  by (simp_all add: no_log_def fs_ok_def nothing_below_def file_exists_def inode_at_def)

lemma hi_calls_ok: "list_all call_ok (replicate 2 hi_call)" "days_in_order (replicate 2 hi_call)" "length (replicate 2 hi_call) < MAX_LOG_CNT"
  "tm_ok new_year" "date_of (call_time hi_call) = date_of new_year" "of_level 8 3 hi_call"
  by (simp_all add: list_all_iff call_ok_def hi_call_def calm_def valid_lvl_def log_lvl_emerg_def log_lvl_trace_def call_time_def
      tm_ok_def new_year_def log_buf_sz_def days_in_order_def MAX_LOG_CNT_def of_level_def)

lemma no_log_starts: "\<exists>st. log_init calm (Some [47, 97]) 8 4 0 None no_log = Some (0, st)"
  by (rule log_init_starts) (simp_all add: no_log_ok calm_def)

theorem log_keeps_lines_witness:
  "\<exists>st st'. log_init calm (Some [47, 97]) 8 4 0 None no_log = Some (0, st) \<and> log_run (replicate 2 hi_call) st = Some st' \<and>
    log_text st' 3 new_year = call_line hi_call @ call_line hi_call"
proof -
  obtain st where st: "log_init calm (Some [47, 97]) 8 4 0 None no_log = Some (0, st)" using no_log_starts by blast
  from log_keeps_lines [OF st _ no_log_ok(1-3) hi_calls_ok(1-3)] obtain st' where s: "log_run (replicate 2 hi_call) st = Some st'"
    "\<forall>L < 9. \<forall>t. tm_ok t \<longrightarrow> log_text st' L t =
      concat (map call_line (filter (\<lambda>c. of_level 8 L c \<and> date_of (call_time c) = date_of t) (replicate 2 hi_call)))" by auto
  have "log_text st' 3 new_year = call_line hi_call @ call_line hi_call" using s(2) hi_calls_ok(4-6) by (simp add: numeral_2_eq_2)
  with st s(1) show ?thesis by blast
qed

text \<open>
  No file of such a log is larger than the configured size by more than one line, and a file
  is followed by another one of the same day only when it has reached that size.
\<close>

theorem log_files_bounded:
  assumes "log_init env (Some d) lvl sz 0 pre st0 = Some (0, st)" "d \<noteq> []" "g_logtime_interval st0 = 0" "fs_ok (disk st0)"
    "nothing_below (take 255 d) (disk st0)" "list_all call_ok cs" "days_in_order cs" "length cs < MAX_LOG_CNT"
    "log_run cs st = Some st'" "L < 9" "tm_ok t" "s + 1 < MAX_LOG_CNT"
  shows "length (file_bytes (lpath st' L t s) (disk st')) \<le> unat sz + log_buf_sz \<and>
    (file_exists (lpath st' L t (s + 1)) (disk st') \<longrightarrow> unat sz \<le> length (file_bytes (lpath st' L t s) (disk st')))"
proof -
  from log_init_inv [OF assms(1-5)] have i: "log_inv [] st" "log_size st = unat sz" by simp_all
  from log_run_spec [OF i(1) assms(6), simplified, OF assms(7,8)] assms(9) i(2)
  have "log_inv cs st'" "log_size st' = unat sz" by auto
  then show ?thesis using assms(10-12) by (auto simp: log_inv_def lvl_inv_def Let_def)
qed

theorem log_files_bounded_witness:
  "\<exists>st st'. log_init calm (Some [47, 97]) 8 4 0 None no_log = Some (0, st) \<and> log_run (replicate 2 hi_call) st = Some st' \<and>
    length (file_bytes (lpath st' 3 new_year 0) (disk st')) \<le> 4 + 8192"
proof -
  obtain st where st: "log_init calm (Some [47, 97]) 8 4 0 None no_log = Some (0, st)" using no_log_starts by blast
  have "log_inv [] st" using log_init_inv [OF st _ no_log_ok(1-3)] by simp
  from log_run_spec [OF this hi_calls_ok(1)] hi_calls_ok(2,3) obtain st' where s: "log_run (replicate 2 hi_call) st = Some st'" by auto
  from log_files_bounded [OF st _ no_log_ok(1-3) hi_calls_ok(1-3) s _ hi_calls_ok(4), of 3 0] st s show ?thesis
    by (auto simp: log_buf_sz_def MAX_LOG_CNT_def)
qed

text \<open>
  When the files of one level no longer suffice for a day, no level is recycled any more until
  some level opens the first file of another day.
\<close>

lemma recycling_stops:
  assumes "day (fds_info st L) = int (tm_yday t)" "max_log_files st \<noteq> 0" "cur_day_seq_count (fds_info st L) \<ge> max_log_files st"
  shows "max_log_files (count_file L t st) = 0"
  using assms by (simp add: count_file_def put_fds_def Let_def)

text \<open>A level whose first line comes on a later day than the start begins with the number of the day of the start.\<close>

lemma late_first_file:
  assumes "opfd (fds_info st L) < 0" "max_log_files st = 0" "config_max_log_files st = 0" "\<forall>p. le_may_open env p" "fs_ok (disk st)"
  shows "seq (fds_info (snd (open_fd env L t st)) L) = seq (fds_info st L)"
proof -
  have "0 \<le> next_fd (disk st)" using assms(5) by (simp add: fs_ok_def)
  then show ?thesis using open_plain [OF assms(2-4), of L t] by (auto simp: Let_def put_fds_def)
qed

end
