(* ===== verification/TlogNet.thy ===== *)
theory TlogNet
  imports SockIo Files
begin

unbundle bit_operations_syntax

text \<open>
  \<open>tlog/netutils.c\<close>: sending log lines to an address over UDP at a limited rate, the users that
  are traced, and the packets by which all this is controlled from outside.
\<close>

section \<open>State\<close>

definition MAX_TRACE_UID_NUM :: nat where "MAX_TRACE_UID_NUM = 8"
definition MIN_TRACE_TIME :: int where "MIN_TRACE_TIME = 3"
definition MAX_TRACE_TIME :: int where "MAX_TRACE_TIME = 86400"
definition MAX_GAMEID :: int where "MAX_GAMEID = 1000"
definition MIN_WAIT_UDP_SINK_TIME :: int where "MIN_WAIT_UDP_SINK_TIME = 2"
definition BASE_SINK_BIND_PORT :: int where "BASE_SINK_BIND_PORT = 31000"
definition MAX_RATE_LIMIT :: int where "MAX_RATE_LIMIT = 1024 * 1024"
definition DEF_RATE_LIMIT :: int where "DEF_RATE_LIMIT = 128 * 1024"
definition MIN_RATE_LIMIT :: int where "MIN_RATE_LIMIT = 1024"

definition lc_set_trace_uid :: u32 where "lc_set_trace_uid = 1001"
definition lc_unset_trace_uid :: u32 where "lc_unset_trace_uid = 1002"
definition lc_set_trace_addr :: u32 where "lc_set_trace_addr = 1003"
definition lc_set_rate_limit :: u32 where "lc_set_rate_limit = 1004"

text \<open>
  \<open>datagrams\<close> is what has left the process: the time, whether it is the note that there is too
  much to send, and the bytes. The last fields but one are static variables of the sender.
\<close>

record udp_sink =
  sendfd :: int
  toaddr :: "u32 \<times> u16"
  ip :: bytes
  port :: u16
  addr_changed :: bool
  last_rate_time :: int
  token :: int
  limit :: int
  chg_limit :: int
  trace_uid_list :: "(u32 \<times> int) list"
  recvbuf :: memory
  is_send_overflow :: bool
  last_init_time :: int
  datagrams :: "(int \<times> bool \<times> bytes) list"

record sink_env =
  se_pton :: "bytes \<Rightarrow> u32 option"
  se_socket :: int
  se_sendto :: "bytes \<Rightarrow> int"

text \<open>\<open>ntohl\<close> and \<open>ntohs\<close>.\<close>

definition ntohl :: "u32 \<Rightarrow> u32" where
  "ntohl v = of_le32 (rev (le32 v))"

definition ntohs :: "u16 \<Rightarrow> u16" where
  "ntohs v = htons v"

text \<open>A field of a packet is brought to the byte order of the machine in place.\<close>

definition to_host :: "nat \<Rightarrow> memory \<Rightarrow> memory" where
  "to_host p m = store32 m p (ntohl (load32 m p))"

section \<open>Traced users\<close>

text \<open>The loop of \<open>add_to_trace_uid_list\<close>: expired entries on the way are freed.\<close>

fun add_slot :: "int \<Rightarrow> u32 \<Rightarrow> int \<Rightarrow> (u32 \<times> int) list \<Rightarrow> (u32 \<times> int) list" where
  "add_slot now uid life [] = []"
| "add_slot now uid life ((u, e) # l) =
     (if u = 0 \<or> now > e then (uid, signed_take_bit 31 (now + life)) # l
      else (u, e) # add_slot now uid life l)"

definition add_to_trace_uid_list :: "int \<Rightarrow> u32 \<Rightarrow> int \<Rightarrow> udp_sink \<Rightarrow> udp_sink" where
  "add_to_trace_uid_list now uid life s = s\<lparr>trace_uid_list := add_slot now uid life (trace_uid_list s)\<rparr>"

definition is_traced_uid :: "int \<Rightarrow> u32 \<Rightarrow> udp_sink \<Rightarrow> int" where
  "is_traced_uid now uid s =
     (if uid = 0 then 0 else if list_ex (\<lambda>(u, e). u = uid \<and> now \<le> e) (trace_uid_list s) then 1 else 0)"

section \<open>Control packets\<close>

text \<open>
  A packet: len, ver, cmd, uid, seq, then the body from byte 20. To set traced users: a count and
  pairs of user and time; to set the address: 16 bytes of text and a port; to set the rate: a number.
\<close>

fun set_trace_uids :: "int \<Rightarrow> nat \<Rightarrow> nat \<Rightarrow> udp_sink \<Rightarrow> udp_sink" where
  "set_trace_uids now p 0 s = s"
| "set_trace_uids now p (Suc n) s =
     (let m = to_host (p + 4) (to_host p (recvbuf s)); s = s\<lparr>recvbuf := m\<rparr>;
          uid = load32 m p; life = sint (load32 m (p + 4));
          s = (if uid < 50000 then s
               else if life < MIN_TRACE_TIME \<or> life > MAX_TRACE_TIME then s
               else add_to_trace_uid_list now uid life s)
      in set_trace_uids now (p + 8) n s)"

definition do_set_trace_uid :: "int \<Rightarrow> udp_sink \<Rightarrow> int \<times> udp_sink" where
  "do_set_trace_uid now s =
     (let m = to_host 20 (recvbuf s); s = s\<lparr>recvbuf := m\<rparr>; count = unat (load32 m 20) in
      if count = 0 \<or> count > MAX_TRACE_UID_NUM then (-1, s)
      else if 20 + 4 + count * 8 \<noteq> unat (load32 m 0) then (-1, s)
      else (0, set_trace_uids now 24 count s))"

definition do_set_trace_addr :: "udp_sink \<Rightarrow> int \<times> udp_sink" where
  "do_set_trace_addr s =
     (let m = recvbuf s; new = takeWhile (\<lambda>c. c \<noteq> 0) (mem_read m 20 16);
          p = ntohs (ucast (m 36) OR push_bit 8 (ucast (m 37))) in
      if p = 0 \<or> new = [] then (-1, s)
      else if port s = p \<and> ip s = new then (0, s)
      else (0, s\<lparr>ip := take 15 new, port := p, addr_changed := True\<rparr>))"

definition do_set_rate_limit :: "udp_sink \<Rightarrow> int \<times> udp_sink" where
  "do_set_rate_limit s =
     (let m = to_host 20 (recvbuf s); s = s\<lparr>recvbuf := m\<rparr>; new = sint (load32 m 20) in
      if new < MIN_RATE_LIMIT \<or> new > MAX_RATE_LIMIT \<or> new = limit s then (0, s)
      else (0, s\<lparr>chg_limit := new\<rparr>))"

text \<open>\<open>data\<close> is what \<open>recvfrom\<close> has put into the buffer; what was there before stays behind it.\<close>

definition proc_logger_pkg :: "int \<Rightarrow> bytes \<Rightarrow> udp_sink \<Rightarrow> udp_sink" where
  "proc_logger_pkg now data s =
     (let m = to_host 8 (to_host 0 (mem_write (recvbuf s) 0 data)); s = s\<lparr>recvbuf := m\<rparr> in
      if unat (load32 m 0) \<noteq> length data then s
      else
        let cmd = load32 m 8 in
        if cmd = lc_set_trace_uid then snd (do_set_trace_uid now s)
        else if cmd = lc_unset_trace_uid then s
        else if cmd = lc_set_trace_addr then snd (do_set_trace_addr s)
        else if cmd = lc_set_rate_limit then snd (do_set_rate_limit s)
        else s)"

section \<open>The thread that is controlled\<close>

text \<open>
  Whether the interface has an index, and what joining the group answers; the group address is
  a constant that can be read.
\<close>

definition tlog_mcast_join :: "int \<Rightarrow> int \<Rightarrow> int" where
  "tlog_mcast_join ifindex setopt = (if ifindex = 0 then -1 else setopt)"

definition tlog_create_mcast_socket :: "sock_sys \<Rightarrow> u32 \<Rightarrow> int \<Rightarrow> int \<Rightarrow> int \<Rightarrow> int list \<Rightarrow> int \<times> int list" where
  "tlog_create_mcast_socket sys mcast_ip gameid ifindex setopt fds =
     (let mfd = sys_socket sys;
          p = (if gameid > 0 \<and> gameid \<le> MAX_GAMEID then BASE_SINK_BIND_PORT + gameid else BASE_SINK_BIND_PORT)
      in if mfd < 0 then (-1, fds)
         else if sys_bind sys mcast_ip (htons (of_int p)) < 0 then (-1, fds)
         else if tlog_mcast_join ifindex setopt < 0 then (-1, fds)
         else (mfd, mfd # fds))"

text \<open>The address of an interface, as the kernel knows it, and as text.\<close>

definition tlog_get_local_eth_ip :: "int \<Rightarrow> (string \<Rightarrow> u32 option) \<Rightarrow> string \<Rightarrow> int \<times> u32 option" where
  "tlog_get_local_eth_ip sock siocgifaddr eth =
     (if sock = -1 then (-1, None)
      else case siocgifaddr (take 15 eth) of None \<Rightarrow> (-1, None) | Some a \<Rightarrow> (0, Some a))"

definition tlog_get_local_eth_ipstr :: "int \<Rightarrow> (string \<Rightarrow> u32 option) \<Rightarrow> (u32 \<Rightarrow> bytes option) \<Rightarrow> string \<Rightarrow> bytes option" where
  "tlog_get_local_eth_ipstr sock siocgifaddr ntop eth = Option.bind (snd (tlog_get_local_eth_ip sock siocgifaddr eth)) ntop"

text \<open>The interface of the machine: \<open>eth0\<close> inside, \<open>eth1\<close> outside.\<close>

definition inner_ip :: "bytes \<Rightarrow> bool" where
  "inner_ip s \<longleftrightarrow> take 5 s = ascii ''10.1.''"

definition server_eth :: "bytes \<Rightarrow> string" where
  "server_eth eth0_ip = (if inner_ip eth0_ip then ''eth0'' else ''eth1'')"

text \<open>\<open>eth_ip\<close> is what \<open>tlog_get_local_eth_ipstr\<close> gives, \<open>mcast\<close> what \<open>tlog_create_mcast_socket\<close> gives for an interface. The packets, with the times at which they arrive, until the thread ends.\<close>

definition udp_sink_server ::
  "(string \<Rightarrow> bytes option) \<Rightarrow> (string \<Rightarrow> int) \<Rightarrow> (int \<times> bytes) list \<Rightarrow> udp_sink \<Rightarrow> udp_sink" where
  "udp_sink_server eth_ip mcast packets s =
     (case eth_ip ''eth0'' of
        None \<Rightarrow> s
      | Some eth0_ip \<Rightarrow>
          if mcast (server_eth eth0_ip) = -1 then s
          else foldl (\<lambda>s (now, data). proc_logger_pkg now data s) (s\<lparr>limit := DEF_RATE_LIMIT\<rparr>) packets)"

section \<open>Sending\<close>

definition update_udp_sink_sockaddr :: "sink_env \<Rightarrow> udp_sink \<Rightarrow> int \<times> udp_sink" where
  "update_udp_sink_sockaddr env s =
     (case se_pton env (ip s) of
        None \<Rightarrow> (-1, s\<lparr>toaddr := (fst (toaddr s), htons (port s))\<rparr>)
      | Some a \<Rightarrow> (0, s\<lparr>toaddr := (a, htons (port s))\<rparr>))"

definition init_logger_udp_sink_sendfd :: "sink_env \<Rightarrow> udp_sink \<Rightarrow> int \<times> udp_sink" where
  "init_logger_udp_sink_sendfd env s = (if se_socket env = -1 then -1 else 0, s\<lparr>sendfd := se_socket env\<rparr>)"

definition overflow_note :: bytes where
  "overflow_note = ascii ''[SYSTEM]'' @ 9 # ascii ''trace_log is too heavy!'' @ [10]"

definition send_datagram :: "sink_env \<Rightarrow> int \<Rightarrow> bool \<Rightarrow> bytes \<Rightarrow> udp_sink \<Rightarrow> int \<times> udp_sink" where
  "send_datagram env now note bs s =
     (let ret = (if sendfd s = -1 then -1 else se_sendto env bs)
      in (ret, if ret = -1 then s else s\<lparr>datagrams := datagrams s @ [(now, note, take (nat ret) bs)]\<rparr>))"

definition do_send_overflow :: "sink_env \<Rightarrow> int \<Rightarrow> udp_sink \<Rightarrow> udp_sink" where
  "do_send_overflow env now s = snd (send_datagram env now True overflow_note s)"

text \<open>The bucket is filled, not added to, when the second changes; only then a new limit counts.\<close>

definition refill :: "int \<Rightarrow> udp_sink \<Rightarrow> udp_sink" where
  "refill now s =
     (if now \<noteq> last_rate_time s then
        let s = (if chg_limit s \<noteq> 0 then s\<lparr>limit := chg_limit s, chg_limit := 0\<rparr> else s)
        in s\<lparr>token := limit s, last_rate_time := now, is_send_overflow := False\<rparr>
      else s)"

definition send_limited :: "sink_env \<Rightarrow> int \<Rightarrow> bytes \<Rightarrow> udp_sink \<Rightarrow> udp_sink" where
  "send_limited env now buffer s =
     (if int (length buffer) > token s then
        if \<not> is_send_overflow s then (do_send_overflow env now s)\<lparr>is_send_overflow := True\<rparr> else s
      else
        let (ret, s) = send_datagram env now False buffer s
        in if ret = -1 then s\<lparr>sendfd := -1\<rparr> else s\<lparr>token := token s - ret\<rparr>)"

definition sendlog_to_udp_sink :: "sink_env \<Rightarrow> int \<Rightarrow> bytes \<Rightarrow> udp_sink \<Rightarrow> udp_sink" where
  "sendlog_to_udp_sink env now buffer s =
     (let s = (if addr_changed s then (snd (update_udp_sink_sockaddr env s))\<lparr>addr_changed := False\<rparr> else s);
          (ok, s) = (if sendfd s = -1 \<and> now - last_init_time s \<ge> MIN_WAIT_UDP_SINK_TIME
                     then let (r, s) = init_logger_udp_sink_sendfd env (s\<lparr>last_init_time := now\<rparr>) in (r \<ge> 0, s)
                     else (True, s))
      in if \<not> ok then s else send_limited env now buffer (refill now s))"

end
