(* ===== verification/FileUtils.thy ===== *)
theory FileUtils
  imports Files
begin

unbundle bit_operations_syntax

text \<open>
  \<open>tlog/fileutils.c\<close>: tests on files and making a directory with its parents. The kernel's view
  of the directories is a map from paths, as lists of names from the root, to entries; what a
  symbolic link leads to is kept with the link. The names \<open>.\<close> and \<open>..\<close> are not given a meaning.
\<close>

section \<open>Directories\<close>

record stat_info =
  st_regular :: bool
  st_dir :: bool
  st_exec_bits :: bool
  st_access_x :: bool

text \<open>\<open>en_stat\<close> is \<open>None\<close> for a link that leads nowhere.\<close>

record dir_entry =
  en_link :: bool
  en_stat :: "stat_info option"

record dir_world =
  dw_entry :: "bytes list \<Rightarrow> dir_entry option"
  dw_cwd :: "bytes list"
  dw_refuses :: "bytes list \<Rightarrow> bool"
  dw_root_user :: bool

fun names_of :: "bytes \<Rightarrow> bytes \<Rightarrow> bytes list" where
  "names_of cur [] = (if cur = [] then [] else [cur])"
| "names_of cur (c # s) = (if c = 47 then (if cur = [] then [] else [cur]) @ names_of [] s else names_of (cur @ [c]) s)"

definition path_base :: "dir_world \<Rightarrow> bytes \<Rightarrow> bytes list" where
  "path_base w s = (case s of [] \<Rightarrow> dw_cwd w | c # _ \<Rightarrow> if c = 47 then [] else dw_cwd w)"

definition resolve :: "dir_world \<Rightarrow> bytes \<Rightarrow> bytes list" where
  "resolve w s = path_base w s @ names_of [] s"

definition stat_of :: "bytes \<Rightarrow> dir_world \<Rightarrow> stat_info option" where
  "stat_of s w = Option.bind (dw_entry w (resolve w s)) en_stat"

definition a_dir :: dir_entry where
  "a_dir = \<lparr>en_link = False, en_stat = Some \<lparr>st_regular = False, st_dir = True, st_exec_bits = True, st_access_x = True\<rparr>\<rparr>"

definition is_dir_at :: "dir_world \<Rightarrow> bytes list \<Rightarrow> bool" where
  "is_dir_at w p = (case Option.bind (dw_entry w p) en_stat of None \<Rightarrow> False | Some st \<Rightarrow> st_dir st)"

datatype mkdir_result = Made | Eexist | Mkdir_error

definition sys_mkdir :: "bytes \<Rightarrow> dir_world \<Rightarrow> mkdir_result \<times> dir_world" where
  "sys_mkdir s w =
     (let p = resolve w s in
      if dw_entry w p \<noteq> None then (Eexist, w)
      else if dw_refuses w p \<or> p = [] \<or> \<not> is_dir_at w (butlast p) then (Mkdir_error, w)
      else (Made, w\<lparr>dw_entry := (dw_entry w)(p \<mapsto> a_dir)\<rparr>))"

section \<open>The functions\<close>

definition FILE_TEST_IS_REGULAR :: u32 where "FILE_TEST_IS_REGULAR = 1"
definition FILE_TEST_IS_SYMLINK :: u32 where "FILE_TEST_IS_SYMLINK = 2"
definition FILE_TEST_IS_DIR :: u32 where "FILE_TEST_IS_DIR = 4"
definition FILE_TEST_IS_EXECUTABLE :: u32 where "FILE_TEST_IS_EXECUTABLE = 8"
definition FILE_TEST_EXISTS :: u32 where "FILE_TEST_EXISTS = 16"

definition tlog_is_absolute_path :: "bytes \<Rightarrow> int" where
  "tlog_is_absolute_path s = (case s of [] \<Rightarrow> 0 | c # _ \<Rightarrow> if c = 47 then 1 else 0)"

definition tlog_path_skip_root :: "bytes \<Rightarrow> bytes option" where
  "tlog_path_skip_root s = (if tlog_is_absolute_path s = 1 then Some (dropWhile (\<lambda>c. c = 47) s) else None)"

definition tlog_file_test :: "bytes \<Rightarrow> u32 \<Rightarrow> dir_world \<Rightarrow> int" where
  "tlog_file_test s test w =
     (let st = stat_of s w; can_x = (case st of None \<Rightarrow> False | Some i \<Rightarrow> st_access_x i) in
      if test AND FILE_TEST_EXISTS \<noteq> 0 \<and> st \<noteq> None then 1
      else if test AND FILE_TEST_IS_EXECUTABLE \<noteq> 0 \<and> can_x \<and> \<not> dw_root_user w then 1
      else
        let test = (if test AND FILE_TEST_IS_EXECUTABLE \<noteq> 0 \<and> can_x then test else test AND NOT FILE_TEST_IS_EXECUTABLE) in
        if test AND FILE_TEST_IS_SYMLINK \<noteq> 0 \<and> (case dw_entry w (resolve w s) of None \<Rightarrow> False | Some e \<Rightarrow> en_link e) then 1
        else
          case st of
            None \<Rightarrow> 0
          | Some i \<Rightarrow>
              if test AND FILE_TEST_IS_REGULAR \<noteq> 0 \<and> st_regular i then 1
              else if test AND FILE_TEST_IS_DIR \<noteq> 0 \<and> st_dir i then 1
              else if test AND FILE_TEST_IS_EXECUTABLE \<noteq> 0 \<and> st_exec_bits i then 1
              else 0)"

text \<open>One turn of the loop for the path up to \<open>p\<close>, and the loop; \<open>before\<close> ends where \<open>p\<close> points.\<close>

definition mkdir_one :: "bytes \<Rightarrow> dir_world \<Rightarrow> int \<times> dir_world" where
  "mkdir_one fn w =
     (if tlog_file_test fn FILE_TEST_EXISTS w = 0 then
        case sys_mkdir fn w of (Mkdir_error, w') \<Rightarrow> (-1, w') | (_, w') \<Rightarrow> (0, w')
      else if tlog_file_test fn FILE_TEST_IS_DIR w = 0 then (-1, w)
      else (0, w))"

function mkdir_loop :: "bytes \<Rightarrow> bytes \<Rightarrow> dir_world \<Rightarrow> int \<times> dir_world" where
  "mkdir_loop before p w =
     (let fn = before @ takeWhile (\<lambda>c. c \<noteq> 47) p; p = dropWhile (\<lambda>c. c \<noteq> 47) p; (r, w) = mkdir_one fn w in
      if r < 0 then (-1, w)
      else if p = [] then (0, w)
      else mkdir_loop (fn @ takeWhile (\<lambda>c. c = 47) p) (dropWhile (\<lambda>c. c = 47) p) w)"
  by pat_completeness auto

lemma skip_seps_shorter:
  assumes "47 \<in> set p"
  shows "length (dropWhile (\<lambda>c. c = 47) (dropWhile (\<lambda>c. c \<noteq> 47) p)) < length p"
proof -
  have ne: "dropWhile (\<lambda>c. c \<noteq> 47) p \<noteq> []" using assms by auto
  then obtain c q where q: "dropWhile (\<lambda>c. c \<noteq> 47) p = c # q" by (cases "dropWhile (\<lambda>c. c \<noteq> 47) p") auto
  have "c = 47" using hd_dropWhile [OF ne] q by simp
  then show ?thesis using q length_dropWhile_le [of "\<lambda>c. c = 47" q] length_dropWhile_le [of "\<lambda>c. c \<noteq> 47" p] by simp
qed

termination mkdir_loop
  by (relation "measure (\<lambda>(_, p, _). length p)") (auto intro: skip_seps_shorter)

declare mkdir_loop.simps [simp del]

definition tlog_mkdir_with_parents :: "bytes option \<Rightarrow> dir_world \<Rightarrow> int \<times> dir_world" where
  "tlog_mkdir_with_parents pathname w =
     (case pathname of
        None \<Rightarrow> (-1, w)
      | Some fn \<Rightarrow>
          if fn = [] then (-1, w)
          else case tlog_path_skip_root fn of
                 None \<Rightarrow> mkdir_loop [] fn w
               | Some p \<Rightarrow> mkdir_loop (takeWhile (\<lambda>c. c = 47) fn) p w)"

section \<open>Lemmas\<close>

lemma names_of_sep: "names_of cur (xs @ 47 # ys) = names_of cur xs @ names_of [] ys"
  by (induction cur xs rule: names_of.induct) auto

lemma names_of_plain: "47 \<notin> set xs \<Longrightarrow> names_of cur xs = (if cur @ xs = [] then [] else [cur @ xs])"
  by (induction cur xs rule: names_of.induct) auto

definition at_sep :: "bytes \<Rightarrow> bool" where
  "at_sep s \<longleftrightarrow> s = [] \<or> last s = 47"

lemma names_of_at_sep: "at_sep xs \<Longrightarrow> names_of [] (xs @ ys) = names_of [] xs @ names_of [] ys"
proof (cases xs rule: rev_cases)
  case (snoc zs z)
  assume "at_sep xs"
  then have "xs = zs @ [47]" using snoc by (simp add: at_sep_def)
  then show ?thesis using names_of_sep [of "[]" zs ys] names_of_sep [of "[]" zs "[]"] by simp
qed simp

text \<open>A world in which no link leads nowhere.\<close>

definition no_dangling :: "dir_world \<Rightarrow> bool" where
  "no_dangling w \<longleftrightarrow> (\<forall>p e. dw_entry w p = Some e \<longrightarrow> en_stat e \<noteq> None)"

definition all_dirs :: "dir_world \<Rightarrow> bytes list \<Rightarrow> bool" where
  "all_dirs w p \<longleftrightarrow> (\<forall>k. is_dir_at w (take k p))"

text \<open>Between two worlds only directories on the way to \<open>p\<close> were made.\<close>

definition only_made :: "bytes list \<Rightarrow> dir_world \<Rightarrow> dir_world \<Rightarrow> bool" where
  "only_made p w w' \<longleftrightarrow> dw_cwd w' = dw_cwd w \<and> dw_refuses w' = dw_refuses w \<and>
     (\<forall>q. dw_entry w' q = dw_entry w q \<or> dw_entry w q = None \<and> \<not> dw_refuses w q \<and> dw_entry w' q = Some a_dir \<and> (\<exists>k. q = take k p))"

text \<open>Something on the way to \<open>p\<close> is not a directory, or may not be made.\<close>

definition blocked :: "bytes list \<Rightarrow> dir_world \<Rightarrow> bool" where
  "blocked p w \<longleftrightarrow> (\<exists>k. if dw_entry w (take k p) = None then dw_refuses w (take k p) else \<not> is_dir_at w (take k p))"

lemma test_exists: "tlog_file_test s FILE_TEST_EXISTS w = (if stat_of s w = None then 0 else 1)"
  by (auto simp: tlog_file_test_def Let_def FILE_TEST_EXISTS_def FILE_TEST_IS_EXECUTABLE_def FILE_TEST_IS_SYMLINK_def
      FILE_TEST_IS_REGULAR_def FILE_TEST_IS_DIR_def split: option.splits)

lemma test_is_dir: "tlog_file_test s FILE_TEST_IS_DIR w = (if is_dir_at w (resolve w s) then 1 else 0)"
  by (auto simp: tlog_file_test_def Let_def FILE_TEST_EXISTS_def FILE_TEST_IS_EXECUTABLE_def FILE_TEST_IS_SYMLINK_def
      FILE_TEST_IS_REGULAR_def FILE_TEST_IS_DIR_def is_dir_at_def stat_of_def split: option.splits)

lemma only_made_refl [simp]: "only_made p w w"
  by (simp add: only_made_def)

lemma only_made_trans: "only_made p w w' \<Longrightarrow> only_made p w' w'' \<Longrightarrow> only_made p w w''"
  unfolding only_made_def by (metis)

lemma is_dir_a_dir: "dw_entry w p = Some a_dir \<Longrightarrow> is_dir_at w p"
  by (simp add: is_dir_at_def a_dir_def)

lemma only_made_dirs: "only_made p w w' \<Longrightarrow> is_dir_at w q \<Longrightarrow> is_dir_at w' q"
  unfolding only_made_def is_dir_at_def by (metis (no_types, lifting) bind.bind_lzero option.case(1))

lemma only_made_no_dangling: "only_made p w w' \<Longrightarrow> no_dangling w \<Longrightarrow> no_dangling w'"
proof -
  have "en_stat a_dir \<noteq> None" by (simp add: a_dir_def)
  then show "only_made p w w' \<Longrightarrow> no_dangling w \<Longrightarrow> no_dangling w'"
    unfolding only_made_def no_dangling_def by (metis option.inject)
qed

lemma only_made_blocked: "only_made p w w' \<Longrightarrow> blocked q w' \<Longrightarrow> blocked q w"
proof -
  assume m: "only_made p w w'" and b: "blocked q w'"
  then obtain k where k: "if dw_entry w' (take k q) = None then dw_refuses w' (take k q) else \<not> is_dir_at w' (take k q)"
    by (auto simp: blocked_def)
  have e: "dw_entry w' (take k q) = dw_entry w (take k q)"
    using m k is_dir_a_dir [of w' "take k q"] unfolding only_made_def by (metis option.distinct(1))
  then have "is_dir_at w' (take k q) = is_dir_at w (take k q)" by (simp add: is_dir_at_def)
  then show ?thesis using e k m unfolding blocked_def only_made_def by (intro exI [of _ k]) (auto split: if_splits)
qed

lemma only_made_resolve: "only_made p w w' \<Longrightarrow> resolve w' s = resolve w s"
  by (simp add: only_made_def resolve_def path_base_def split: list.split)

lemma mkdir_one_spec:
  assumes w: "no_dangling w" and r: "resolve w fn = take k p" "take k p = [] \<or> is_dir_at w (butlast (take k p))" "is_dir_at w []"
    and one: "mkdir_one fn w = (r, w')"
  shows "only_made p w w' \<and> (r = 0 \<and> is_dir_at w' (take k p) \<or> r = -1 \<and> blocked p w)"
proof (cases "dw_entry w (take k p)")
  case None
  have "stat_of fn w = None" using None by (simp add: stat_of_def r(1))
  then have s: "(case sys_mkdir fn w of (Mkdir_error, w') \<Rightarrow> (-1, w') | (_, w') \<Rightarrow> (0, w')) = (r, w')"
    using one by (simp add: mkdir_one_def test_exists)
  have ne: "take k p \<noteq> []" using None r(3) by (metis bind.bind_lzero is_dir_at_def option.case(1))
  show ?thesis
  proof (cases "dw_refuses w (take k p)")
    case True
    have "sys_mkdir fn w = (Mkdir_error, w)" using None True by (simp add: sys_mkdir_def Let_def r(1))
    moreover have "blocked p w" using None True by (auto simp: blocked_def intro!: exI [of _ k])
    ultimately show ?thesis using s by simp
  next
    case False
    let ?w = "w\<lparr>dw_entry := (dw_entry w)(take k p \<mapsto> a_dir)\<rparr>"
    have "sys_mkdir fn w = (Made, ?w)" using None False r(2) ne by (simp add: sys_mkdir_def Let_def r(1))
    then have "r = 0" "w' = ?w" using s by simp_all
    moreover have "only_made p w ?w" using None False by (auto simp: only_made_def)
    moreover have "is_dir_at ?w (take k p)" by (rule is_dir_a_dir) simp
    ultimately show ?thesis by blast
  qed
next
  case (Some e)
  then obtain st where "en_stat e = Some st" using w by (auto simp: no_dangling_def)
  then have ex: "stat_of fn w \<noteq> None" using Some by (simp add: stat_of_def r(1))
  show ?thesis
  proof (cases "is_dir_at w (take k p)")
    case True
    then show ?thesis using one ex by (auto simp: mkdir_one_def test_exists test_is_dir r(1))
  next
    case False
    then have "blocked p w" using Some by (auto simp: blocked_def intro!: exI [of _ k])
    then show ?thesis using one ex False by (auto simp: mkdir_one_def test_exists test_is_dir r(1))
  qed
qed

lemma names_of_seps: "list_all (\<lambda>c. c = 47) ss \<Longrightarrow> names_of [] (ss @ xs) = names_of [] xs"
  by (induction ss) auto

lemma names_of_then_seps: "list_all (\<lambda>c. c = 47) ss \<Longrightarrow> names_of [] (xs @ ss) = names_of [] xs"
  using names_of_sep [of "[]" xs] names_of_seps [of _ "[]"] by (cases ss) simp_all

lemma all_dirs_self: "all_dirs w p \<Longrightarrow> is_dir_at w p"
  unfolding all_dirs_def by (metis order_refl take_all)

lemma all_dirs_butlast: "all_dirs w p \<Longrightarrow> is_dir_at w (butlast p)"
  unfolding all_dirs_def butlast_conv_take by blast

lemma all_dirs_append1: "all_dirs w p \<Longrightarrow> is_dir_at w (p @ xs) \<Longrightarrow> length xs \<le> 1 \<Longrightarrow> all_dirs w (p @ xs)"
proof (cases xs)
  case (Cons a ys)
  assume a: "all_dirs w p" "is_dir_at w (p @ xs)" "length xs \<le> 1"
  have "take k (p @ xs) = take k p \<or> take k (p @ xs) = p @ xs" for k
    using a(3) Cons by (cases "k \<le> length p") auto
  then show ?thesis using a(1,2) unfolding all_dirs_def by metis
qed simp

text \<open>How a turn of the loop splits the path: a name (none after a last separator), separators, the rest.\<close>

lemma split_name:
  fixes before p :: bytes
  assumes "at_sep before"
  defines "nm \<equiv> takeWhile (\<lambda>c. c \<noteq> 47) p" and "rst \<equiv> dropWhile (\<lambda>c. c \<noteq> 47) p"
  shows "names_of [] (before @ nm) = names_of [] before @ (if nm = [] then [] else [nm])"
    and "names_of [] (before @ p) = names_of [] (before @ nm) @ names_of [] rst"
    and "rst \<noteq> [] \<Longrightarrow> at_sep ((before @ nm) @ takeWhile (\<lambda>c. c = 47) rst)"
    and "names_of [] ((before @ nm) @ takeWhile (\<lambda>c. c = 47) rst) = names_of [] (before @ nm)"
proof -
  have nm: "47 \<notin> set nm" unfolding nm_def by (metis (mono_tags, lifting) set_takeWhileD)
  show n: "names_of [] (before @ nm) = names_of [] before @ (if nm = [] then [] else [nm])"
    using names_of_at_sep [OF assms(1), of nm] names_of_plain [OF nm, of "[]"] by simp
  have p: "p = nm @ rst" by (simp add: nm_def rst_def)
  have c: "\<exists>r. rst = 47 # r" if "rst \<noteq> []"
    using that hd_dropWhile [of "\<lambda>c. c \<noteq> 47" p] unfolding rst_def by (cases "dropWhile (\<lambda>c. c \<noteq> 47) p") auto
  have "names_of [] p = names_of [] nm @ names_of [] rst"
  proof (cases "rst = []")
    case False
    then obtain r where r: "rst = 47 # r" using c by blast
    show ?thesis using names_of_sep [of "[]" nm r] by (simp add: p r)
  qed (use p in simp)
  then show "names_of [] (before @ p) = names_of [] (before @ nm) @ names_of [] rst"
    using names_of_at_sep [OF assms(1)] by simp
  have sl: "list_all (\<lambda>c. c = 47) (takeWhile (\<lambda>c. c = 47) rst)" by (auto simp: list_all_iff dest: set_takeWhileD)
  then show "names_of [] ((before @ nm) @ takeWhile (\<lambda>c. c = 47) rst) = names_of [] (before @ nm)"
    by (rule names_of_then_seps)
  show "at_sep ((before @ nm) @ takeWhile (\<lambda>c. c = 47) rst)" if ne: "rst \<noteq> []"
  proof -
    obtain r where "rst = 47 # r" using c [OF ne] by blast
    then have "takeWhile (\<lambda>c. c = 47) rst \<noteq> []" by simp
    then show ?thesis using sl last_in_set unfolding at_sep_def list_all_iff by (metis append_is_Nil_conv last_appendR)
  qed
qed

lemma mkdir_loop_spec:
  assumes "at_sep before" "before = [] \<Longrightarrow> p \<noteq> [] \<and> hd p \<noteq> 47" "no_dangling w"
    and "all_dirs w (path_base w (before @ p) @ names_of [] before)" "mkdir_loop before p w = (r, w')"
  defines "full \<equiv> resolve w (before @ p)"
  shows "only_made full w w' \<and> (r = 0 \<and> all_dirs w' full \<or> r = -1 \<and> blocked full w)"
  using assms(1-5) unfolding full_def
proof (induction before p w arbitrary: r w' rule: mkdir_loop.induct)
  case (1 before p w)
  let ?nm = "takeWhile (\<lambda>c. c \<noteq> 47) p" let ?rst = "dropWhile (\<lambda>c. c \<noteq> 47) p"
  let ?fn = "before @ ?nm" let ?full = "resolve w (before @ p)" let ?base = "path_base w (before @ p)"
  note sp = split_name [OF 1(2), of p]
  obtain r1 w1 where one: "mkdir_one ?fn w = (r1, w1)" by fastforce
  have ne: "?fn \<noteq> []" using 1(3) by (cases before; cases p) auto
  have base: "path_base w ?fn = ?base" using ne by (cases before; cases p) (auto simp: path_base_def)
  define k where "k = length (resolve w ?fn)"
  have res: "resolve w ?fn = take k ?full" by (simp add: k_def resolve_def base sp(2))
  have res': "resolve w ?fn = (?base @ names_of [] before) @ (if ?nm = [] then [] else [?nm])" by (simp add: resolve_def base sp(1))
  have root: "is_dir_at w []" using 1(5) unfolding all_dirs_def by (metis take_0)
  have par: "is_dir_at w (butlast (take k ?full))"
    using all_dirs_butlast [OF 1(5)] all_dirs_self [OF 1(5)] unfolding res [symmetric] res' by (cases "?nm = []") (simp_all only: if_True if_False append_Nil2 butlast_snoc simp_thms)
  have m: "only_made ?full w w1" and rr: "r1 = 0 \<and> is_dir_at w1 (take k ?full) \<or> r1 = -1 \<and> blocked ?full w"
    using mkdir_one_spec [OF 1(4) res _ root one] par by blast+
  show ?case
  proof (cases "r1 = 0")
    case False
    then have "r = -1" "w' = w1" using 1(6) rr one by (auto simp: mkdir_loop.simps [of before p w] Let_def)
    with False m rr show ?thesis by blast
  next
    case True
    have "all_dirs w1 (?base @ names_of [] before)" using 1(5) only_made_dirs [OF m] by (simp add: all_dirs_def)
    moreover have "is_dir_at w1 (take k ?full)" using rr True by simp
    ultimately have ad: "all_dirs w1 (take k ?full)" unfolding res [symmetric] res' by (rule all_dirs_append1) simp
    show ?thesis
    proof (cases "?rst = []")
      case True
      then have "r = 0" "w' = w1" using 1(6) \<open>r1 = 0\<close> one by (auto simp: mkdir_loop.simps [of before p w] Let_def)
      moreover have "take k ?full = ?full" using True by (metis append_Nil2 res takeWhile_dropWhile_id)
      ultimately show ?thesis using m ad by simp
    next
      case False
      let ?b = "?fn @ takeWhile (\<lambda>c. c = 47) ?rst" let ?q = "dropWhile (\<lambda>c. c = 47) ?rst"
      have bq: "?b @ ?q = before @ p" by simp
      have cwd: "dw_cwd w1 = dw_cwd w" using m by (simp add: only_made_def)
      have pb: "path_base w1 (before @ p) = ?base" using cwd by (simp add: path_base_def split: list.split)
      have full: "resolve w1 (?b @ ?q) = ?full" unfolding bq by (simp add: resolve_def pb)
      have nb: "?base @ names_of [] ?b = take k ?full" using sp(4) base res unfolding resolve_def by simp
      have lp: "mkdir_loop ?b ?q w1 = (r, w')"
        using 1(6) \<open>r1 = 0\<close> False unfolding mkdir_loop.simps [of before p w] Let_def one
        by (simp only: prod.case if_False less_irrefl)
      have ih: "only_made ?full w1 w' \<and> (r = 0 \<and> all_dirs w' ?full \<or> r = -1 \<and> blocked ?full w1)"
        unfolding full [symmetric]
      proof (rule 1(1) [OF refl refl one [symmetric] refl _ False])
        show "\<not> r1 < 0" using \<open>r1 = 0\<close> by simp
        show "at_sep ?b" using sp(3) [OF False] .
        show "?b = [] \<Longrightarrow> ?q \<noteq> [] \<and> hd ?q \<noteq> 47" using ne by simp
        show "no_dangling w1" using only_made_no_dangling [OF m 1(4)] .
        show "all_dirs w1 (path_base w1 (?b @ ?q) @ names_of [] ?b)" unfolding bq pb nb using ad .
        show "mkdir_loop ?b ?q w1 = (r, w')" using lp .
      qed
      then show ?thesis using only_made_trans [OF m] only_made_blocked [OF m] by blast
    qed
  qed
qed

text \<open>
  The directory at the start of the path and the directories above it. A separator at the start
  means the root.
\<close>

definition start_dirs :: "dir_world \<Rightarrow> bytes \<Rightarrow> bool" where
  "start_dirs w s \<longleftrightarrow> all_dirs w (path_base w s)"

lemma mkdir_result_spec:
  assumes "no_dangling w" "start_dirs w path" "path \<noteq> []" "tlog_mkdir_with_parents (Some path) w = (r, w')"
  shows "only_made (resolve w path) w w' \<and> (r = 0 \<and> all_dirs w' (resolve w path) \<or> r = -1 \<and> blocked (resolve w path) w)"
proof (cases "tlog_path_skip_root path")
  case None
  then have "hd path \<noteq> 47" using assms(3) by (cases path) (auto simp: tlog_path_skip_root_def tlog_is_absolute_path_def split: if_splits)
  then show ?thesis using mkdir_loop_spec [of "[]" path w r w'] assms None
    by (simp add: at_sep_def start_dirs_def tlog_mkdir_with_parents_def)
next
  case (Some q)
  let ?s = "takeWhile (\<lambda>c. c = 47) path"
  have q: "q = dropWhile (\<lambda>c. c = 47) path" using Some by (auto simp: tlog_path_skip_root_def split: if_splits)
  have h: "?s \<noteq> []" using Some by (cases path) (auto simp: tlog_path_skip_root_def tlog_is_absolute_path_def split: if_splits)
  have a: "list_all (\<lambda>c. c = 47) ?s" by (auto simp: list_all_iff dest: set_takeWhileD)
  have "at_sep ?s" using h a last_in_set [OF h] by (simp add: at_sep_def list_all_iff)
  moreover have "names_of [] ?s = []" using names_of_seps [OF a, of "[]"] by simp
  ultimately show ?thesis using mkdir_loop_spec [of ?s q w r w'] assms Some h
    by (simp add: q start_dirs_def tlog_mkdir_with_parents_def)
qed

lemma made_not_blocked: "only_made p w w' \<Longrightarrow> all_dirs w' p \<Longrightarrow> \<not> blocked p w"
proof
  assume m: "only_made p w w'" and d: "all_dirs w' p" and "blocked p w"
  then obtain k where k: "if dw_entry w (take k p) = None then dw_refuses w (take k p) else \<not> is_dir_at w (take k p)"
    by (auto simp: blocked_def)
  have t: "is_dir_at w' (take k p)" using d by (simp add: all_dirs_def)
  show False
  proof (cases "dw_entry w' (take k p) = dw_entry w (take k p)")
    case True
    then have "is_dir_at w (take k p)" using t by (simp add: is_dir_at_def)
    moreover from this have "dw_entry w (take k p) \<noteq> None" unfolding is_dir_at_def by (metis bind.bind_lzero option.case(1))
    ultimately show False using k by simp
  next
    case False
    then have "dw_entry w (take k p) = None" "\<not> dw_refuses w (take k p)" using m by (auto simp: only_made_def)
    then show False using k by simp
  qed
qed

section \<open>The path is made\<close>

text \<open>
  C18: where no link leads nowhere, the function answers 0 exactly when nothing on the way is in
  the way, and then every directory of the path exists; it never makes anything else than
  directories of the path.
\<close>

theorem mkdir_makes_path:
  assumes "no_dangling w" "start_dirs w path" "path \<noteq> []" "tlog_mkdir_with_parents (Some path) w = (r, w')"
  shows "only_made (resolve w path) w w' \<and> (r = 0 \<longleftrightarrow> \<not> blocked (resolve w path) w) \<and> (r = 0 \<longrightarrow> all_dirs w' (resolve w path))"
proof -
  have "only_made (resolve w path) w w' \<and> (r = 0 \<and> all_dirs w' (resolve w path) \<or> r = -1 \<and> blocked (resolve w path) w)"
    by (rule mkdir_result_spec [OF assms])
  then show ?thesis using made_not_blocked by fastforce
qed

text \<open>Applied to \<open>/log/day\<close> with nothing but the root.\<close>

definition bare_root :: dir_world where
  "bare_root = \<lparr>dw_entry = (\<lambda>p. if p = [] then Some a_dir else None), dw_cwd = [], dw_refuses = (\<lambda>_. False), dw_root_user = False\<rparr>"

theorem mkdir_makes_path_witness:
  "all_dirs (snd (tlog_mkdir_with_parents (Some (ascii ''/log/day'')) bare_root)) (resolve bare_root (ascii ''/log/day''))"
proof -
  let ?p = "ascii ''/log/day''"
  obtain r w' where r: "tlog_mkdir_with_parents (Some ?p) bare_root = (r, w')" by fastforce
  have "no_dangling bare_root" by (auto simp: no_dangling_def bare_root_def a_dir_def)
  moreover have "start_dirs bare_root ?p"
    by (simp add: start_dirs_def all_dirs_def path_base_def ascii_def bare_root_def is_dir_at_def a_dir_def)
  ultimately have "r = 0 \<longleftrightarrow> \<not> blocked (resolve bare_root ?p) bare_root" "r = 0 \<longrightarrow> all_dirs w' (resolve bare_root ?p)"
    using mkdir_makes_path [OF _ _ _ r] by (auto simp: ascii_def)
  moreover have "\<not> blocked (resolve bare_root ?p) bare_root"
    by (simp add: blocked_def bare_root_def is_dir_at_def a_dir_def)
  ultimately show ?thesis by (simp add: r)
qed

text \<open>A link that leads nowhere is not found, but stands in the way of \<open>mkdir\<close>: the answer is 0 although there is no directory.\<close>

theorem mkdir_dangling_link:
  assumes "path \<noteq> []" "47 \<notin> set path" "dw_entry w (resolve w path) = Some \<lparr>en_link = True, en_stat = None\<rparr>"
  shows "tlog_mkdir_with_parents (Some path) w = (0, w) \<and> \<not> is_dir_at w (resolve w path)"
proof -
  have "stat_of path w = None" using assms(3) by (simp add: stat_of_def)
  then have "mkdir_one path w = (0, w)" using assms(3) by (simp add: mkdir_one_def test_exists sys_mkdir_def Let_def)
  moreover have "\<forall>c \<in> set path. c \<noteq> 47" using assms(2) by auto
  then have "takeWhile (\<lambda>c. c \<noteq> 47) path = path" "dropWhile (\<lambda>c. c \<noteq> 47) path = []"
    by (simp_all only: takeWhile_eq_all_conv dropWhile_eq_Nil_conv)
  ultimately have "mkdir_loop [] path w = (0, w)"
    unfolding mkdir_loop.simps [of "[]"] Let_def append_Nil by (simp only: prod.case less_irrefl if_False refl if_True)
  moreover have "tlog_path_skip_root path = None"
    using assms(1,2) by (cases path) (auto simp: tlog_path_skip_root_def tlog_is_absolute_path_def)
  ultimately show ?thesis using assms(1,3)
    by (simp add: tlog_mkdir_with_parents_def is_dir_at_def)
qed

end
