(* ===== verification/Tlog.thy ===== *)
theory Tlog
  imports TlogNet FileUtils
begin

unbundle bit_operations_syntax

text \<open>
  \<open>tlog/tlog.c\<close>: eight log files, one per level, in a directory per day. A file is left for a new
  one by time slice, by size and by day; a full disk stops writing to files for a while. The text
  of a message arrives formatted. The time is kept in the state, as the code keeps it.
\<close>

section \<open>State\<close>

definition TLOG_BUF_SIZE :: nat where "TLOG_BUF_SIZE = 8 * 1024"
definition DAILY_MAX_FILES :: int where "DAILY_MAX_FILES = 100000"
definition MIN_ONE_LOG_SIZE :: nat where "MIN_ONE_LOG_SIZE = 10"
definition MAX_ONE_LOG_SIZE :: nat where "MAX_ONE_LOG_SIZE = 2000"
definition MAX_SLICE_NO :: nat where "MAX_SLICE_NO = 9999"
definition CHECK_DISKFULL_DUR :: int where "CHECK_DISKFULL_DUR = 10"
definition tlog_lvl_utrace :: nat where "tlog_lvl_utrace = 1"
definition tlog_lvl_max :: nat where "tlog_lvl_max = 8"
definition logger_flag_file :: u32 where "logger_flag_file = 1"
definition logger_flag_udp :: u32 where "logger_flag_udp = 2"

datatype logger_status = logger_status_notinit | logger_status_writing | logger_status_stop

definition severity_str :: "bytes list" where
  "severity_str = [ascii ''long'', ascii ''utrace'', ascii ''fatal'', ascii ''error'', ascii ''warn'', ascii ''info'',
     ascii ''debug'', ascii ''trace'']"

definition NIL :: bytes where "NIL = ascii ''nil''"

record logger_ctrl_cfg =
  cc_init :: bool
  log_level :: nat
  daily_max_files :: int
  max_one_size :: nat
  stop_if_diskfull :: bool
  time_slice_secs :: int

record logger_svc_info =
  si_init :: bool
  svcname :: bytes
  gameid :: int
  svrtype :: bytes
  hostname :: bytes

record logfile =
  fd :: int
  daily_seq :: int
  time_slice_seq :: int
  lf_yday :: int
  basename :: bytes
  infostr :: bytes
  file_len :: int

record logger =
  ctrl :: logger_ctrl_cfg
  svc_info :: logger_svc_info
  status :: logger_status
  last_check_diskfull_time :: int
  logdir :: bytes
  prefix_ :: bytes
  use_net_ctrl :: bool
  now :: int
  tm_now :: tm
  logfiles :: "nat \<Rightarrow> logfile"
  tdirs :: dir_world
  tdisk :: fsys
  udp_sink :: udp_sink

text \<open>
  What a call meets: the time, which files can be opened, for which a \<open>stat\<close> fails although they
  may exist, the space for the head of a new file and for the line,
  the process id and the network.
\<close>

record tlog_env =
  te_time :: int
  te_localtime :: "int \<Rightarrow> tm"
  te_open :: "bytes \<Rightarrow> bool"
  te_stat_fails :: "bytes \<Rightarrow> bool"
  te_head_space :: nat
  te_space :: nat
  te_pid :: nat
  te_net :: sink_env

definition put_logfile :: "nat \<Rightarrow> logfile \<Rightarrow> logger \<Rightarrow> logger" where
  "put_logfile lvl f lg = lg\<lparr>logfiles := (logfiles lg)(lvl := f)\<rparr>"

section \<open>Starting\<close>

definition no_ctrl_cfg :: logger_ctrl_cfg where
  "no_ctrl_cfg = \<lparr>cc_init = False, log_level = 0, daily_max_files = 0, max_one_size = 0, stop_if_diskfull = False, time_slice_secs = 0\<rparr>"

definition init_logger_ctrl_cfg :: "int \<Rightarrow> int \<Rightarrow> nat \<Rightarrow> bool \<Rightarrow> int \<Rightarrow> logger \<Rightarrow> int \<times> logger" where
  "init_logger_ctrl_cfg lvl max_files one_size stop secs lg =
     (let lg = lg\<lparr>ctrl := no_ctrl_cfg\<rparr> in
      if lvl < 0 \<or> lvl \<ge> int tlog_lvl_max then (-1, lg)
      else if max_files < 0 \<or> max_files > DAILY_MAX_FILES then (-1, lg)
      else if one_size < MIN_ONE_LOG_SIZE \<or> one_size > MAX_ONE_LOG_SIZE then (-1, lg)
      else if secs < 0 then (-1, lg)
      else (0, lg\<lparr>ctrl := \<lparr>cc_init = True, log_level = nat lvl, daily_max_files = max_files, max_one_size = one_size,
        stop_if_diskfull = stop, time_slice_secs = secs\<rparr>\<rparr>))"

definition name_or_nil :: "nat \<Rightarrow> bytes option \<Rightarrow> bytes" where
  "name_or_nil n s = (case s of None \<Rightarrow> NIL | Some b \<Rightarrow> if b = [] then NIL else take (n - 1) b)"

definition init_looger_svc_info :: "(string \<Rightarrow> bytes option) \<Rightarrow> bytes option \<Rightarrow> int \<Rightarrow> bytes option \<Rightarrow> logger \<Rightarrow> int \<times> logger" where
  "init_looger_svc_info eth_ip svc game svr lg =
     (let (has_eth0, eth0_ip) = (case eth_ip ''eth0'' of None \<Rightarrow> (False, ascii ''unknonwhost'') | Some b \<Rightarrow> (True, b));
          ethx = (if has_eth0 \<and> inner_ip eth0_ip then ''eth0'' else ''eth1'');
          host = (case eth_ip ethx of None \<Rightarrow> eth0_ip | Some b \<Rightarrow> b)
      in (0, lg\<lparr>svc_info := \<lparr>si_init = True, svcname = name_or_nil 32 svc, gameid = game, svrtype = name_or_nil 32 svr, hostname = host\<rparr>\<rparr>))"

definition new_logfile :: "bytes \<Rightarrow> bytes \<Rightarrow> logfile" where
  "new_logfile base info =
     \<lparr>fd = -1, daily_seq = 0, time_slice_seq = 0, lf_yday = 0, basename = base, infostr = info, file_len = 0\<rparr>"

definition no_sink :: "udp_sink \<Rightarrow> udp_sink" where
  "no_sink s = s\<lparr>sendfd := -1, toaddr := (0, 0), ip := [], port := 0, addr_changed := False, last_rate_time := 0, token := 0,
     limit := 0, chg_limit := 0, trace_uid_list := replicate MAX_TRACE_UID_NUM (0, 0), recvbuf := (\<lambda>_. 0)\<rparr>"

text \<open>
  The guard on the prefix looks into it when it is a null pointer. \<open>use_net_ctrl\<close> is cleared with
  the rest of the logger before it is looked at.
\<close>

definition init_logger :: "bytes option \<Rightarrow> bytes option \<Rightarrow> logger \<Rightarrow> (int \<times> logger) option" where
  "init_logger dir pre lg =
     (case pre of
        None \<Rightarrow> None
      | Some p \<Rightarrow>
          let lg = lg\<lparr>status := logger_status_notinit, last_check_diskfull_time := 0, logdir := [], prefix_ := [],
                use_net_ctrl := False, now := 0, logfiles := (\<lambda>_. (new_logfile [] [])\<lparr>fd := 0\<rparr>)\<rparr> in
          case dir of
            None \<Rightarrow> Some (-1, lg)
          | Some d \<Rightarrow>
              if d = [] \<or> d = [47] then Some (-1, lg)
              else
                let (r, dw) = tlog_mkdir_with_parents (Some (take 4095 d)) (tdirs lg);
                    lg = lg\<lparr>logdir := take 4095 d, tdirs := dw\<rparr> in
                if r = -1 then Some (-1, lg)
                else
                  let p = take 15 p; s = svc_info lg; info = svcname s @ 45 # svrtype s @ 45 # hostname s
                  in Some (0, lg\<lparr>prefix_ := p, logfiles := (\<lambda>i. new_logfile (p @ 45 # severity_str ! i) info),
                       status := logger_status_writing, udp_sink := no_sink (udp_sink lg)\<rparr>))"

section \<open>Files\<close>

definition init_logfile :: "logger \<Rightarrow> logfile \<Rightarrow> logfile" where
  "init_logfile lg f =
     (let secs = time_slice_secs (ctrl lg);
          f = (if secs \<noteq> 0 then f\<lparr>time_slice_seq := signed_take_bit 31 (now lg div secs)\<rparr> else f);
          f = (if lf_yday f \<noteq> int (tm_yday (tm_now lg)) then f\<lparr>daily_seq := 0, lf_yday := int (tm_yday (tm_now lg))\<rparr> else f)
      in f\<lparr>file_len := 0, fd := -1\<rparr>)"

definition is_need_shift_file :: "logger \<Rightarrow> logfile \<Rightarrow> bool" where
  "is_need_shift_file lg f =
     (let c = ctrl lg in
      if daily_max_files c \<noteq> 0 \<and> daily_seq f \<ge> daily_max_files c then False
      else if fd f = -1 then True
      else if time_slice_secs c \<noteq> 0 \<and> signed_take_bit 31 (now lg div time_slice_secs c) \<noteq> time_slice_seq f then True
      else if max_one_size c \<noteq> 0 \<and> file_len f div 2 ^ 20 \<ge> int (max_one_size c) then True
      else lf_yday f \<noteq> int (tm_yday (tm_now lg)))"

definition hms_digits :: "tm \<Rightarrow> bytes" where
  "hms_digits t = fmt_0d 2 (int (tm_hour t)) @ fmt_0d 2 (int (tm_min t)) @ fmt_0d 2 (int (tm_sec t))"

definition slice_path :: "bytes \<Rightarrow> logfile \<Rightarrow> tm \<Rightarrow> nat \<Rightarrow> bytes" where
  "slice_path datedir f t no = datedir @ 47 # basename f @ 45 # hms_digits t @ 45 # fmt_0d 4 (int no)"

text \<open>The first number whose file is missing or not full, or -1.\<close>

function get_time_slice_no :: "tlog_env \<Rightarrow> logger \<Rightarrow> logfile \<Rightarrow> bytes \<Rightarrow> tm \<Rightarrow> nat \<Rightarrow> int" where
  "get_time_slice_no env lg f datedir t no =
     (if no \<ge> MAX_SLICE_NO then int no
      else
        let path = slice_path datedir f t no in
        if te_stat_fails env path then -1
        else if \<not> file_exists path (tdisk lg) then int no
        else if length (file_bytes path (tdisk lg)) < max_one_size (ctrl lg) * 2 ^ 20 then int no
        else get_time_slice_no env lg f datedir t (no + 1))"
  by pat_completeness auto
termination get_time_slice_no
  by (relation "measure (\<lambda>(_, _, _, _, _, no). MAX_SLICE_NO - no)") auto

declare get_time_slice_no.simps [simp del]

definition gen_timestring :: "tlog_env \<Rightarrow> logger \<Rightarrow> logfile \<Rightarrow> bytes \<Rightarrow> bytes option" where
  "gen_timestring env lg f datedir =
     (let secs = time_slice_secs (ctrl lg);
          (t, no) = (if secs > 0
                     then let t = te_localtime env (now lg div secs * secs) in (t, get_time_slice_no env lg f datedir t 0)
                     else (tm_now lg, 0))
      in if no = -1 then None else Some (hms_digits t @ 45 # fmt_0d 4 no))"

definition time_digits :: "tm \<Rightarrow> bytes" where
  "time_digits t = fmt_0d 4 (int (tm_year t + 1900)) @ 45 # fmt_0d 2 (int (tm_mon t + 1)) @ 45 # fmt_0d 2 (int (tm_mday t)) @ 32 # clock_digits t"

definition create_new_logfile :: "tlog_env \<Rightarrow> nat \<Rightarrow> logger \<Rightarrow> int \<times> logger" where
  "create_new_logfile env lvl lg =
     (let t = tm_now lg; datedir = logdir lg @ 47 # date_digits t;
          (r, dw) = tlog_mkdir_with_parents (Some datedir) (tdirs lg); lg = lg\<lparr>tdirs := dw\<rparr> in
      if r = -1 then (-1, lg)
      else
        let f = logfiles lg lvl;
            lg = (if fd f > 0 then lg\<lparr>tdisk := fs_close (fd f) (tdisk lg)\<rparr> else lg);
            f = init_logfile lg f;
            lg = put_logfile lvl f lg in
        case gen_timestring env lg f datedir of
          None \<Rightarrow> (-1, lg)
        | Some ts \<Rightarrow>
            let path = datedir @ 47 # basename f @ 45 # ts;
                (d, fs) = fs_open (te_open env path) path (tdisk lg) in
            if d = -1 then (-1, lg)
            else
              let loghead = time_digits t @ 9 # ascii ''LOGHEAD'' @ 9 # dec_digits (te_pid env) @ 9 # infostr f @ [10];
                  fs = snd (fs_write (te_head_space env) d loghead fs)
              in (0, put_logfile lvl (f\<lparr>fd := d, daily_seq := daily_seq f + 1\<rparr>) (lg\<lparr>tdisk := fs\<rparr>)))"

definition shift_logger_file :: "tlog_env \<Rightarrow> nat \<Rightarrow> logger \<Rightarrow> int \<times> logger" where
  "shift_logger_file env lvl lg =
     (if \<not> is_need_shift_file lg (logfiles lg lvl) then (0, lg) else create_new_logfile env lvl lg)"

section \<open>Writing\<close>

definition tlog_line :: "tm \<Rightarrow> bytes option \<Rightarrow> u32 \<Rightarrow> bytes \<Rightarrow> bytes" where
  "tlog_line t logtype uid msg =
     (let ty = (case logtype of None \<Rightarrow> NIL | Some s \<Rightarrow> take 31 s);
          head = time_digits t @ 9 # ty @ 9 # dec_digits (unat uid) @ [9];
          room = TLOG_BUF_SIZE - length head
      in if length msg \<ge> room then head @ take (room - 1) msg @ [10] else head @ msg)"

text \<open>Writing to the file of a level; \<open>False\<close> when the line goes to the network at most.\<close>

definition write_to_file :: "tlog_env \<Rightarrow> nat \<Rightarrow> bytes \<Rightarrow> logger \<Rightarrow> logger" where
  "write_to_file env lvl line lg =
     (let (r, lg) = shift_logger_file env lvl lg in
      if r < 0 then lg
      else
        let f = logfiles lg lvl; (ret, fs) = fs_write (te_space env) (fd f) line (tdisk lg) in
        if ret = -1 \<and> descs (tdisk lg) (fd f) \<noteq> None \<and> stop_if_diskfull (ctrl lg) then lg\<lparr>status := logger_status_stop\<rparr>
        else put_logfile lvl (f\<lparr>file_len := file_len f + int (length line)\<rparr>) (lg\<lparr>tdisk := fs\<rparr>))"

text \<open>A level is a number; one that is negative in C is a large one.\<close>

definition write_to_logger :: "tlog_env \<Rightarrow> nat \<Rightarrow> bytes option \<Rightarrow> u32 \<Rightarrow> u32 \<Rightarrow> bytes \<Rightarrow> logger \<Rightarrow> logger" where
  "write_to_logger env lvl logtype uid flag msg lg =
     (if flag = 0 then lg
      else if status lg = logger_status_notinit then lg
      else if lvl > log_level (ctrl lg) then lg
      else
        let lg = lg\<lparr>now := te_time env, tm_now := te_localtime env (te_time env)\<rparr>;
            line = tlog_line (tm_now lg) logtype uid msg;
            lg = (if status lg \<noteq> logger_status_writing then
                    if status lg = logger_status_stop \<and> now lg - last_check_diskfull_time lg \<ge> CHECK_DISKFULL_DUR
                    then lg\<lparr>status := logger_status_writing, last_check_diskfull_time := now lg\<rparr> else lg
                  else if flag AND logger_flag_file \<noteq> 0 then write_to_file env lvl line lg
                  else lg)
        in if flag AND logger_flag_udp \<noteq> 0
           then lg\<lparr>udp_sink := sendlog_to_udp_sink (te_net env) (now lg) line (udp_sink lg)\<rparr> else lg)"

section \<open>The screen, and names\<close>

definition boot_tlog :: "int \<Rightarrow> int \<Rightarrow> bytes \<Rightarrow> (bytes \<times> int option) option" where
  "boot_tlog ok dummy msg = map_option (\<lambda>t. (t @ [10], if ok \<noteq> 0 then Some ok else None)) (boot_text TLOG_BUF_SIZE ok dummy msg)"

definition std_tlog :: "int \<Rightarrow> bytes \<Rightarrow> bytes option" where
  "std_tlog ok msg = map_option (\<lambda>t. t @ [10]) (boot_text TLOG_BUF_SIZE ok 0 msg)"

definition tlog_get_host_name :: "bytes option \<Rightarrow> nat \<Rightarrow> bytes" where
  "tlog_get_host_name nodename maxlen =
     (case nodename of None \<Rightarrow> take (maxlen - 1) NIL | Some s \<Rightarrow> if s = [] then take (maxlen - 1) NIL else take (maxlen - 1) s)"

definition tlog_my_user_name :: "bytes option \<Rightarrow> nat \<Rightarrow> bytes" where
  "tlog_my_user_name user maxlen = take (maxlen - 1) (case user of None \<Rightarrow> NIL | Some s \<Rightarrow> s)"

section \<open>The macros\<close>

text \<open>\<open>UTRACE_TLOG\<close>: the lines of a traced user go to the file and to the network.\<close>

definition UTRACE_TLOG :: "tlog_env \<Rightarrow> u32 \<Rightarrow> bytes \<Rightarrow> logger \<Rightarrow> logger" where
  "UTRACE_TLOG env uid msg lg =
     (if is_traced_uid (now lg) uid (udp_sink lg) \<noteq> 0
      then write_to_logger env tlog_lvl_utrace None uid (logger_flag_file OR logger_flag_udp) (msg @ [10]) lg else lg)"

definition SET_LOG_LEVEL :: "int \<Rightarrow> logger \<Rightarrow> logger" where
  "SET_LOG_LEVEL lvl lg = (if 0 \<le> lvl \<and> lvl < int tlog_lvl_max then lg\<lparr>ctrl := (ctrl lg)\<lparr>log_level := nat lvl\<rparr>\<rparr> else lg)"

definition SET_DAILY_MAX_FILES :: "int \<Rightarrow> logger \<Rightarrow> logger" where
  "SET_DAILY_MAX_FILES n lg = (if 0 \<le> n \<and> n \<le> DAILY_MAX_FILES then lg\<lparr>ctrl := (ctrl lg)\<lparr>daily_max_files := n\<rparr>\<rparr> else lg)"

definition SET_MAX_ONE_SIZE :: "nat \<Rightarrow> logger \<Rightarrow> logger" where
  "SET_MAX_ONE_SIZE n lg =
     (if n \<ge> MIN_ONE_LOG_SIZE \<and> n \<le> MAX_ONE_LOG_SIZE then lg\<lparr>ctrl := (ctrl lg)\<lparr>max_one_size := n\<rparr>\<rparr> else lg)"

definition SET_TIME_SLICE_SECS :: "int \<Rightarrow> logger \<Rightarrow> logger" where
  "SET_TIME_SLICE_SECS n lg = (if n \<ge> 0 then lg\<lparr>ctrl := (ctrl lg)\<lparr>time_slice_secs := n\<rparr>\<rparr> else lg)"

definition SET_STOP_IF_DISKFULL :: "int \<Rightarrow> logger \<Rightarrow> logger" where
  "SET_STOP_IF_DISKFULL onoff lg =
     (if onoff = 0 \<or> onoff = 1 then lg\<lparr>ctrl := (ctrl lg)\<lparr>stop_if_diskfull := (onoff = 1)\<rparr>\<rparr> else lg)"

end
