(* ===== verification/TlogProps.thy ===== *)
theory TlogProps
  imports Tlog "HOL-Library.Sublist"
begin

unbundle bit_operations_syntax

text \<open>
  Properties of \<open>tlog\<close>: a line that is written stays in a file; the number of files of a day; the
  rate of what is sent over UDP; the users that are traced.
\<close>

section \<open>Files only grow\<close>

definition grows :: "fsys \<Rightarrow> fsys \<Rightarrow> bool" where
  "grows fs fs' \<longleftrightarrow> (\<forall>q. prefix (file_bytes q fs) (file_bytes q fs'))"

lemma grows_refl [simp]: "grows fs fs"
  by (simp add: grows_def)

lemma grows_trans: "grows fs fs' \<Longrightarrow> grows fs' fs'' \<Longrightarrow> grows fs fs''"
  unfolding grows_def by (meson prefix_order.trans)

lemma fs_write_keeps:
  assumes "fs_ok fs" "refers d p fs" "fs_write sp d bs fs = (n, fs')"
  shows "fs_ok fs' \<and> grows fs fs' \<and> next_fd fs' = next_fd fs \<and> (\<forall>d q. refers d q fs' = refers d q fs)"
proof (cases "bs \<noteq> [] \<and> sp = 0")
  case True
  then show ?thesis using assms by (auto simp: refers_def fs_write_def)
next
  case False
  obtain i where i: "descs fs d = Some i" using assms(2) by (auto simp: refers_def)
  have "fs_write (length (take sp bs)) d (take sp bs) fs = (int (length (take sp bs)), fs')"
    using assms(3) False i by (auto simp: fs_write_def min_def)
  moreover obtain fs'' where "fs_write (length (take sp bs)) d (take sp bs) fs = (int (length (take sp bs)), fs'')"
    "fs_ok fs''" "next_fd fs'' = next_fd fs" "\<forall>q. file_bytes q fs'' = (if q = p then file_bytes p fs @ take sp bs else file_bytes q fs)"
    "\<forall>d q. refers d q fs'' = refers d q fs"
    using fs_write_spec [OF assms(1,2) order_refl, of "take sp bs"] by auto
  ultimately show ?thesis by (auto simp: grows_def)
qed

section \<open>A line that is written is kept\<close>

record tlog_call =
  ca_env :: tlog_env
  ca_lvl :: nat
  ca_type :: "bytes option"
  ca_uid :: u32
  ca_flag :: u32
  ca_msg :: bytes

definition tlog_step :: "logger \<Rightarrow> tlog_call \<Rightarrow> logger" where
  "tlog_step lg c = write_to_logger (ca_env c) (ca_lvl c) (ca_type c) (ca_uid c) (ca_flag c) (ca_msg c) lg"

definition tlog_run :: "tlog_call list \<Rightarrow> logger \<Rightarrow> logger" where
  "tlog_run cs lg = foldl tlog_step lg cs"

definition ca_line :: "tlog_call \<Rightarrow> bytes" where
  "ca_line c = tlog_line (te_localtime (ca_env c) (te_time (ca_env c))) (ca_type c) (ca_uid c) (ca_msg c)"

text \<open>The calls whose line is to go to a file.\<close>

definition to_file :: "logger \<Rightarrow> tlog_call \<Rightarrow> bool" where
  "to_file lg c \<longleftrightarrow> ca_flag c AND logger_flag_file \<noteq> 0 \<and> ca_lvl c \<le> log_level (ctrl lg)"

text \<open>Nothing fails in a call: the directory of the day can be made, files can be opened, the disk has room for the line.\<close>

definition date_dir :: "logger \<Rightarrow> tlog_call \<Rightarrow> bytes" where
  "date_dir lg c = logdir lg @ 47 # date_digits (te_localtime (ca_env c) (te_time (ca_env c)))"

definition good_call :: "logger \<Rightarrow> tlog_call \<Rightarrow> bool" where
  "good_call lg c \<longleftrightarrow> \<not> blocked (resolve (tdirs lg) (date_dir lg c)) (tdirs lg) \<and> (\<forall>p. te_open (ca_env c) p) \<and>
     (\<forall>p. \<not> te_stat_fails (ca_env c) p) \<and> length (ca_line c) \<le> te_space (ca_env c)"

text \<open>Descriptors: each level has its own, which refers to a file, or none yet.\<close>

definition lvl_ok :: "fsys \<Rightarrow> logfile \<Rightarrow> bool" where
  "lvl_ok fs f \<longleftrightarrow> fd f = -1 \<and> daily_seq f = 0 \<or> 0 \<le> fd f \<and> fd f < next_fd fs \<and> (\<exists>p. refers (fd f) p fs)"

definition dirs_ok :: "logger \<Rightarrow> bool" where
  "dirs_ok lg \<longleftrightarrow> no_dangling (tdirs lg) \<and> logdir lg \<noteq> [] \<and> start_dirs (tdirs lg) (logdir lg)"

definition files_ok :: "logger \<Rightarrow> bool" where
  "files_ok lg \<longleftrightarrow> fs_ok (tdisk lg) \<and> (\<forall>L. lvl_ok (tdisk lg) (logfiles lg L)) \<and>
     (\<forall>L L'. L \<noteq> L' \<longrightarrow> fd (logfiles lg L) \<noteq> -1 \<longrightarrow> fd (logfiles lg L) \<noteq> fd (logfiles lg L'))"

definition tlog_ok :: "logger \<Rightarrow> bool" where
  "tlog_ok lg \<longleftrightarrow> status lg = logger_status_writing \<and> 0 \<le> daily_max_files (ctrl lg) \<and> dirs_ok lg \<and> files_ok lg"

text \<open>What a step leaves alone.\<close>

definition same_setting :: "logger \<Rightarrow> logger \<Rightarrow> bool" where
  "same_setting lg lg' \<longleftrightarrow> ctrl lg' = ctrl lg \<and> logdir lg' = logdir lg \<and>
     (\<forall>q. blocked q (tdirs lg') \<longrightarrow> blocked q (tdirs lg)) \<and> (\<forall>s. resolve (tdirs lg') s = resolve (tdirs lg) s)"

lemma slice_no_found: "(\<forall>p. \<not> te_stat_fails env p) \<Longrightarrow> get_time_slice_no env lg f dd t no \<noteq> -1"
  by (induction env lg f dd t no rule: get_time_slice_no.induct) (subst get_time_slice_no.simps, simp add: Let_def)

lemma gen_timestring_some: "(\<forall>p. \<not> te_stat_fails env p) \<Longrightarrow> \<exists>ts. gen_timestring env lg f dd = Some ts"
  using slice_no_found [of env] by (auto simp: gen_timestring_def Let_def)

lemma start_dirs_more: "logd \<noteq> [] \<Longrightarrow> start_dirs w (logd @ x) = start_dirs w logd"
  by (cases logd) (simp_all add: start_dirs_def path_base_def)

lemma mkdir_day:
  assumes "dirs_ok lg" "\<not> blocked (resolve (tdirs lg) (logdir lg @ 47 # x)) (tdirs lg)"
  shows "\<exists>dw. tlog_mkdir_with_parents (Some (logdir lg @ 47 # x)) (tdirs lg) = (0, dw) \<and> (\<exists>p. only_made p (tdirs lg) dw) \<and>
    no_dangling dw \<and> start_dirs dw (logdir lg)"
proof -
  obtain r dw where m: "tlog_mkdir_with_parents (Some (logdir lg @ 47 # x)) (tdirs lg) = (r, dw)" by fastforce
  have "start_dirs (tdirs lg) (logdir lg @ 47 # x)" using assms(1) by (simp add: dirs_ok_def start_dirs_more)
  then have o: "only_made (resolve (tdirs lg) (logdir lg @ 47 # x)) (tdirs lg) dw" "r = 0"
    using mkdir_result_spec [of "tdirs lg" "logdir lg @ 47 # x" r dw] m assms by (auto simp: dirs_ok_def)
  moreover have "path_base dw (logdir lg) = path_base (tdirs lg) (logdir lg)"
    using o(1) by (simp add: only_made_def path_base_def split: list.split)
  ultimately show ?thesis using m assms(1) only_made_no_dangling [OF o(1)] only_made_dirs [OF o(1)]
    unfolding dirs_ok_def start_dirs_def all_dirs_def by auto
qed

text \<open>Replacing the file of one level keeps the descriptors in order.\<close>

lemma files_ok_replace:
  assumes "files_ok lg" "fs_ok fs'" "next_fd (tdisk lg) \<le> next_fd fs'" "lvl_ok fs' f'"
    and "\<And>d q. d \<noteq> fd f' \<Longrightarrow> d \<noteq> fd (logfiles lg L) \<Longrightarrow> refers d q (tdisk lg) \<Longrightarrow> refers d q fs'"
    and "fd f' = fd (logfiles lg L) \<or> next_fd (tdisk lg) \<le> fd f'"
    and "tdisk lg' = fs'" "logfiles lg' = (logfiles lg)(L := f')"
  shows "files_ok lg'"
proof -
  have lv: "lvl_ok (tdisk lg) (logfiles lg K)" for K using assms(1) by (simp add: files_ok_def)
  have df: "fd (logfiles lg K) \<noteq> fd f'" if "K \<noteq> L" "fd (logfiles lg K) \<noteq> -1" for K
  proof (cases "fd f' = fd (logfiles lg L)")
    case True
    then show ?thesis using assms(1) that by (auto simp: files_ok_def)
  next
    case False
    then show ?thesis using assms(6) lv [of K] that by (auto simp: lvl_ok_def)
  qed
  have "lvl_ok fs' (logfiles lg K)" if "K \<noteq> L" for K
  proof (cases "fd (logfiles lg K) = -1")
    case False
    then obtain q where "0 \<le> fd (logfiles lg K)" "fd (logfiles lg K) < next_fd (tdisk lg)" "refers (fd (logfiles lg K)) q (tdisk lg)"
      using lv [of K] by (auto simp: lvl_ok_def)
    moreover have "fd (logfiles lg K) \<noteq> fd (logfiles lg L)" using assms(1) that False by (auto simp: files_ok_def)
    ultimately show ?thesis using df [OF that False] assms(3,5) by (auto simp: lvl_ok_def)
  qed (use lv [of K] in \<open>auto simp: lvl_ok_def\<close>)
  moreover have "fd f' \<noteq> -1 \<Longrightarrow> fd f' \<noteq> fd (logfiles lg K)" if "K \<noteq> L" for K using df [OF that] by metis
  ultimately show ?thesis using assms(1,2,4,7,8) df unfolding files_ok_def by auto
qed

text \<open>The result of \<open>create_new_logfile\<close> for the level that gets a new file.\<close>

lemma create_opens:
  assumes ok: "dirs_ok lg" "files_ok lg"
    and dir: "\<not> blocked (resolve (tdirs lg) (logdir lg @ 47 # date_digits (tm_now lg))) (tdirs lg)"
    and env: "\<forall>p. te_open env p" "\<forall>p. \<not> te_stat_fails env p"
  shows "\<exists>lg'. create_new_logfile env L lg = (0, lg') \<and> same_setting lg lg' \<and> dirs_ok lg' \<and> files_ok lg' \<and>
    grows (tdisk lg) (tdisk lg') \<and> fd (logfiles lg' L) \<noteq> -1 \<and> status lg' = status lg"
proof -
  obtain dw where dw: "tlog_mkdir_with_parents (Some (logdir lg @ 47 # date_digits (tm_now lg))) (tdirs lg) = (0, dw)"
    "\<exists>p. only_made p (tdirs lg) dw" "no_dangling dw" "start_dirs dw (logdir lg)" using mkdir_day [OF ok(1) dir] by blast
  let ?f = "logfiles lg L"
  define fs1 where "fs1 = (if fd ?f > 0 then fs_close (fd ?f) (tdisk lg) else tdisk lg)"
  define f1 where "f1 = init_logfile (lg\<lparr>tdirs := dw, tdisk := fs1\<rparr>) ?f"
  define lg1 where "lg1 = put_logfile L f1 (lg\<lparr>tdirs := dw, tdisk := fs1\<rparr>)"
  obtain ts where ts: "gen_timestring env lg1 f1 (logdir lg @ 47 # date_digits (tm_now lg)) = Some ts"
    using gen_timestring_some [OF env(2)] by blast
  define path where "path = (logdir lg @ 47 # date_digits (tm_now lg)) @ 47 # basename f1 @ 45 # ts"
  have fs1: "fs_ok fs1" "next_fd fs1 = next_fd (tdisk lg)" "\<forall>q. file_bytes q fs1 = file_bytes q (tdisk lg)"
    "\<forall>d q. d \<noteq> fd ?f \<longrightarrow> refers d q (tdisk lg) \<longrightarrow> refers d q fs1"
    using ok(2) by (auto simp: fs1_def files_ok_def)
  obtain fs2 where fs2: "fs_open True path fs1 = (next_fd fs1, fs2)" "fs_ok fs2" "refers (next_fd fs1) path fs2"
    "next_fd fs2 = next_fd fs1 + 1" "\<forall>q. file_bytes q fs2 = file_bytes q fs1" "\<forall>d q. d \<noteq> next_fd fs1 \<longrightarrow> refers d q fs1 \<longrightarrow> refers d q fs2"
    using fs_open_spec [OF fs1(1), of path] by blast
  define loghead where "loghead = time_digits (tm_now lg) @ 9 # ascii ''LOGHEAD'' @ 9 # dec_digits (te_pid env) @ 9 # infostr f1 @ [10]"
  obtain n fs3 where w: "fs_write (te_head_space env) (next_fd fs1) loghead fs2 = (n, fs3)" by fastforce
  note fs3 = fs_write_keeps [OF fs2(2,3) w]
  have nn: "next_fd fs1 \<noteq> -1" "0 \<le> next_fd fs1" using fs1(1) by (auto simp: fs_ok_def)
  define f3 where "f3 = f1\<lparr>fd := next_fd fs1, daily_seq := daily_seq f1 + 1\<rparr>"
  define lg' where "lg' = put_logfile L f3 (lg1\<lparr>tdisk := fs3\<rparr>)"
  have c: "create_new_logfile env L lg = (0, lg')"
  proof -
    have o: "fs_open (te_open env path) path fs1 = (next_fd fs1, fs2)" using fs2(1) env(1) by simp
    have "create_new_logfile env L lg = (case gen_timestring env lg1 f1 (logdir lg @ 47 # date_digits (tm_now lg)) of
          None \<Rightarrow> (-1, lg1)
        | Some ts \<Rightarrow>
            let path = (logdir lg @ 47 # date_digits (tm_now lg)) @ 47 # basename f1 @ 45 # ts;
                (d, fs) = fs_open (te_open env path) path (tdisk lg1) in
            if d = -1 then (-1, lg1)
            else (0, put_logfile L (f1\<lparr>fd := d, daily_seq := daily_seq f1 + 1\<rparr>)
               (lg1\<lparr>tdisk := snd (fs_write (te_head_space env) d loghead fs)\<rparr>)))"
      unfolding create_new_logfile_def Let_def dw(1) loghead_def lg1_def f1_def fs1_def
      by (simp split: option.split prod.split cong: if_cong)
    then show ?thesis using ts o nn(1) w by (simp add: path_def lg'_def f3_def lg1_def put_logfile_def)
  qed
  have "files_ok lg'"
  proof (rule files_ok_replace [OF ok(2), of fs3 f3 L])
    show "fs_ok fs3" "next_fd (tdisk lg) \<le> next_fd fs3" using fs3 fs2(4) fs1(2) by auto
    show "lvl_ok fs3 f3" using fs3 fs2(3,4) nn by (auto simp: lvl_ok_def f3_def)
    show "refers d q fs3" if "d \<noteq> fd f3" "d \<noteq> fd ?f" "refers d q (tdisk lg)" for d q
      using that fs1(4) fs2(6) fs3 by (simp add: f3_def)
    show "fd f3 = fd ?f \<or> next_fd (tdisk lg) \<le> fd f3" by (simp add: f3_def fs1(2))
  qed (simp_all add: lg'_def put_logfile_def lg1_def)
  moreover have "grows (tdisk lg) (tdisk lg')" using fs3 fs2(5) fs1(3) by (simp add: grows_def lg'_def put_logfile_def)
  moreover have "dirs_ok lg'" using ok(1) dw(3,4) by (simp add: dirs_ok_def lg'_def put_logfile_def lg1_def)
  moreover have "blocked q dw \<Longrightarrow> blocked q (tdirs lg)" "resolve dw x = resolve (tdirs lg) x" for q x
    using dw(2) only_made_blocked only_made_resolve by blast+
  ultimately show ?thesis using c nn(1)
    by (simp add: same_setting_def lg'_def put_logfile_def lg1_def f3_def)
qed

lemma tlog_shift_ready:
  assumes ok: "tlog_ok lg"
    and dir: "\<not> blocked (resolve (tdirs lg) (logdir lg @ 47 # date_digits (tm_now lg))) (tdirs lg)"
    and env: "\<forall>p. te_open env p" "\<forall>p. \<not> te_stat_fails env p"
  shows "\<exists>lg'. shift_logger_file env L lg = (0, lg') \<and> same_setting lg lg' \<and> tlog_ok lg' \<and>
    grows (tdisk lg) (tdisk lg') \<and> fd (logfiles lg' L) \<noteq> -1"
proof (cases "is_need_shift_file lg (logfiles lg L)")
  case True
  obtain lg' where "create_new_logfile env L lg = (0, lg')" "same_setting lg lg'" "dirs_ok lg'" "files_ok lg'"
    "grows (tdisk lg) (tdisk lg')" "fd (logfiles lg' L) \<noteq> -1" "status lg' = status lg"
    using create_opens [OF _ _ dir env] ok by (auto simp: tlog_ok_def)
  then show ?thesis using True ok by (auto simp: shift_logger_file_def tlog_ok_def same_setting_def)
next
  case False
  have "lvl_ok (tdisk lg) (logfiles lg L)" "0 \<le> daily_max_files (ctrl lg)" using ok by (simp_all add: tlog_ok_def files_ok_def)
  then have "fd (logfiles lg L) \<noteq> -1" using False by (auto simp: is_need_shift_file_def Let_def lvl_ok_def split: if_splits)
  then show ?thesis using False ok by (auto simp: shift_logger_file_def same_setting_def)
qed

lemma write_to_file_keeps:
  assumes ok: "tlog_ok lg"
    and dir: "\<not> blocked (resolve (tdirs lg) (logdir lg @ 47 # date_digits (tm_now lg))) (tdirs lg)"
    and env: "\<forall>p. te_open env p" "\<forall>p. \<not> te_stat_fails env p" "length line \<le> te_space env"
  shows "\<exists>q. tlog_ok (write_to_file env L line lg) \<and> same_setting lg (write_to_file env L line lg) \<and>
    grows (tdisk lg) (tdisk (write_to_file env L line lg)) \<and> suffix line (file_bytes q (tdisk (write_to_file env L line lg)))"
proof -
  obtain lg1 where lg1: "shift_logger_file env L lg = (0, lg1)" "same_setting lg lg1" "tlog_ok lg1"
    "grows (tdisk lg) (tdisk lg1)" "fd (logfiles lg1 L) \<noteq> -1" using tlog_shift_ready [OF ok dir env(1,2)] by blast
  let ?f = "logfiles lg1 L"
  have f1: "files_ok lg1" using lg1(3) by (simp add: tlog_ok_def)
  then obtain p where p: "fs_ok (tdisk lg1)" "refers (fd ?f) p (tdisk lg1)" "0 \<le> fd ?f" "fd ?f < next_fd (tdisk lg1)"
    using lg1(5) unfolding files_ok_def lvl_ok_def by metis
  obtain fs where fs: "fs_write (te_space env) (fd ?f) line (tdisk lg1) = (int (length line), fs)" "fs_ok fs" "next_fd fs = next_fd (tdisk lg1)"
    "\<forall>q. file_bytes q fs = (if q = p then file_bytes p (tdisk lg1) @ line else file_bytes q (tdisk lg1))"
    "\<forall>d q. refers d q fs = refers d q (tdisk lg1)" using fs_write_spec [OF p(1,2) env(3)] by blast
  define lg2 where "lg2 = put_logfile L (?f\<lparr>file_len := file_len ?f + int (length line)\<rparr>) (lg1\<lparr>tdisk := fs\<rparr>)"
  have w: "write_to_file env L line lg = lg2" using lg1(1) fs(1) by (simp add: write_to_file_def Let_def lg2_def)
  have "files_ok lg2"
  proof (rule files_ok_replace [OF f1 fs(2), of "?f\<lparr>file_len := file_len ?f + int (length line)\<rparr>" L])
    show "lvl_ok fs (?f\<lparr>file_len := file_len ?f + int (length line)\<rparr>)" using p fs(3,5) by (auto simp: lvl_ok_def)
  qed (use fs in \<open>simp_all add: lg2_def put_logfile_def\<close>)
  moreover have "suffix line (file_bytes p (tdisk lg2))" using fs(4) by (simp add: lg2_def put_logfile_def suffix_def)
  moreover have "grows (tdisk lg1) (tdisk lg2)" using fs(4) by (simp add: grows_def lg2_def put_logfile_def)
  moreover have "dirs_ok lg2 = dirs_ok lg1" by (simp add: lg2_def put_logfile_def dirs_ok_def)
  ultimately show ?thesis using w lg1 grows_trans
    by (intro exI [of _ p]) (auto simp: tlog_ok_def same_setting_def lg2_def put_logfile_def)
qed

lemma same_setting_trans: "same_setting a b \<Longrightarrow> same_setting b c \<Longrightarrow> same_setting a c"
  by (simp add: same_setting_def)

lemma same_setting_call:
  assumes "same_setting lg lg'"
  shows "good_call lg c \<Longrightarrow> good_call lg' c" "to_file lg' c = to_file lg c"
  using assms by (auto simp: same_setting_def good_call_def date_dir_def to_file_def)

text \<open>A line has just been put at the end of a file.\<close>

definition ends_in :: "bytes \<Rightarrow> fsys \<Rightarrow> bool" where
  "ends_in line fs \<longleftrightarrow> (\<exists>q. suffix line (file_bytes q fs))"

lemma tlog_step_keeps:
  assumes ok: "tlog_ok lg" and good: "good_call lg c"
  shows "tlog_ok (tlog_step lg c) \<and> same_setting lg (tlog_step lg c) \<and> grows (tdisk lg) (tdisk (tlog_step lg c)) \<and>
    (to_file lg c \<longrightarrow> ends_in (ca_line c) (tdisk (tlog_step lg c)))"
proof -
  let ?e = "ca_env c"
  let ?lg = "lg\<lparr>now := te_time ?e, tm_now := te_localtime ?e (te_time ?e)\<rparr>"
  have ok': "tlog_ok ?lg" using ok by (simp add: tlog_ok_def dirs_ok_def files_ok_def)
  have wr: "status lg = logger_status_writing" using ok by (simp add: tlog_ok_def)
  define lg1 where "lg1 = (if ca_flag c AND logger_flag_file \<noteq> 0 then write_to_file ?e (ca_lvl c) (ca_line c) ?lg else ?lg)"
  have k: "tlog_ok lg1 \<and> same_setting lg lg1 \<and> grows (tdisk lg) (tdisk lg1) \<and>
      (ca_flag c AND logger_flag_file \<noteq> 0 \<longrightarrow> ends_in (ca_line c) (tdisk lg1))"
  proof (cases "ca_flag c AND logger_flag_file = 0")
    case True
    then show ?thesis using ok' by (simp add: lg1_def same_setting_def)
  next
    case False
    have b: "\<not> blocked (resolve (tdirs ?lg) (logdir ?lg @ 47 # date_digits (tm_now ?lg))) (tdirs ?lg)"
      "\<forall>p. te_open ?e p" "\<forall>p. \<not> te_stat_fails ?e p" "length (ca_line c) \<le> te_space ?e"
      using good by (simp_all add: good_call_def date_dir_def)
    have "same_setting lg x" if "same_setting ?lg x" for x using that by (simp add: same_setting_def)
    then show ?thesis using write_to_file_keeps [OF ok' b, of "ca_lvl c"] False
      by (auto simp: lg1_def ends_in_def)
  qed
  have st: "tlog_step lg c = (if ca_flag c = 0 \<or> ca_lvl c > log_level (ctrl lg) then lg
      else if ca_flag c AND logger_flag_udp \<noteq> 0 then lg1\<lparr>udp_sink := sendlog_to_udp_sink (te_net ?e) (now lg1) (ca_line c) (udp_sink lg1)\<rparr> else lg1)"
    using wr by (simp add: tlog_step_def write_to_logger_def Let_def ca_line_def lg1_def)
  have s: "same_setting lg lg" by (simp add: same_setting_def)
  show ?thesis using k ok s unfolding st
    by (auto simp: to_file_def tlog_ok_def dirs_ok_def files_ok_def same_setting_def)
qed

lemma tlog_run_ok:
  "tlog_ok lg \<Longrightarrow> \<forall>c \<in> set cs. good_call lg c \<Longrightarrow>
    tlog_ok (tlog_run cs lg) \<and> same_setting lg (tlog_run cs lg) \<and> grows (tdisk lg) (tdisk (tlog_run cs lg))"
proof (induction cs rule: rev_induct)
  case (snoc c cs)
  have i: "tlog_ok (tlog_run cs lg)" "same_setting lg (tlog_run cs lg)" "grows (tdisk lg) (tdisk (tlog_run cs lg))"
    using snoc by auto
  have r: "tlog_run (cs @ [c]) lg = tlog_step (tlog_run cs lg) c" by (simp add: tlog_run_def)
  show ?case using tlog_step_keeps [OF i(1)] same_setting_call(1) [OF i(2)] snoc.prems(2) i grows_trans same_setting_trans
    unfolding r by (metis UnI2 list.set_intros(1) set_append)
qed (simp add: tlog_run_def same_setting_def)

lemma tlog_run_append: "tlog_run (as @ bs) lg = tlog_run bs (tlog_run as lg)"
  by (simp add: tlog_run_def)

lemma init_logger_ok:
  assumes "init_logger (Some dir) (Some pre) lg0 = Some (0, lg)" "fs_ok (tdisk lg0)" "no_dangling (tdirs lg0)"
    "start_dirs (tdirs lg0) dir" "0 \<le> daily_max_files (ctrl lg0)"
  shows "tlog_ok lg \<and> tdisk lg = tdisk lg0"
proof -
  have d: "dir \<noteq> []" using assms(1) by (auto simp: init_logger_def Let_def)
  obtain r dw where m: "tlog_mkdir_with_parents (Some (take 4095 dir)) (tdirs lg0) = (r, dw)" by fastforce
  have t: "take 4095 dir \<noteq> []" "path_base w (take 4095 dir) = path_base w dir" for w
    using d by (cases dir; simp add: path_base_def)+
  have st: "start_dirs (tdirs lg0) (take 4095 dir)" using assms(4) t(2) by (simp add: start_dirs_def)
  note mk = mkdir_result_spec [of "tdirs lg0" "take 4095 dir" r dw, OF assms(3) st t(1) m]
  then have o: "only_made (resolve (tdirs lg0) (take 4095 dir)) (tdirs lg0) dw" by blast
  have "path_base dw (take 4095 dir) = path_base (tdirs lg0) (take 4095 dir)"
    using o by (simp add: only_made_def path_base_def split: list.split)
  then have "no_dangling dw" "start_dirs dw (take 4095 dir)"
    using only_made_no_dangling [OF o assms(3)] only_made_dirs [OF o] st by (auto simp: start_dirs_def all_dirs_def)
  moreover have "status lg = logger_status_writing" "logdir lg = take 4095 dir" "tdirs lg = dw" "tdisk lg = tdisk lg0" "ctrl lg = ctrl lg0"
    "\<forall>i. fd (logfiles lg i) = -1 \<and> daily_seq (logfiles lg i) = 0"
    using assms(1) m d by (auto simp: init_logger_def Let_def new_logfile_def split: if_splits)
  ultimately show ?thesis using assms(2,5) t(1) by (simp add: tlog_ok_def dirs_ok_def files_ok_def lvl_ok_def)
qed

text \<open>
  C11: after a start that succeeds, and as long as no system call fails, each line that is to go to
  a file is put at the end of one when it is logged, and that file has it at the same place after
  all later lines of all levels, whatever changes of the day, of the time slice and of files that
  are full lie between; nothing that was on the disk before is lost.
\<close>

theorem tlog_lines_kept:
  assumes "init_logger (Some dir) (Some pre) lg0 = Some (0, lg)" "fs_ok (tdisk lg0)" "no_dangling (tdirs lg0)"
    "start_dirs (tdirs lg0) dir" "0 \<le> daily_max_files (ctrl lg0)"
    and "\<forall>c \<in> set (as @ c # bs). good_call lg c" "to_file lg c"
  shows "\<exists>q. suffix (ca_line c) (file_bytes q (tdisk (tlog_run (as @ [c]) lg))) \<and>
    prefix (file_bytes q (tdisk (tlog_run (as @ [c]) lg))) (file_bytes q (tdisk (tlog_run (as @ c # bs) lg))) \<and>
    grows (tdisk lg0) (tdisk (tlog_run (as @ c # bs) lg))"
proof -
  have ok: "tlog_ok lg" "tdisk lg = tdisk lg0" using init_logger_ok [OF assms(1-5)] by auto
  note as = tlog_run_ok [OF ok(1), of as] and ac = tlog_run_ok [OF ok(1), of "as @ [c]"] and all = tlog_run_ok [OF ok(1), of "as @ c # bs"]
  have "ends_in (ca_line c) (tdisk (tlog_run (as @ [c]) lg))"
    using as assms(6,7) tlog_step_keeps [of "tlog_run as lg" c] same_setting_call [of lg "tlog_run as lg" c]
    unfolding tlog_run_append by (simp add: tlog_run_def)
  moreover have "grows (tdisk (tlog_run (as @ [c]) lg)) (tdisk (tlog_run (as @ c # bs) lg))"
    using tlog_run_ok [of "tlog_run (as @ [c]) lg" bs] ac assms(6) same_setting_call(1) [of lg "tlog_run (as @ [c]) lg"]
      tlog_run_append [of "as @ [c]" bs lg] by auto
  ultimately show ?thesis using all assms(6) ok(2) by (auto simp: ends_in_def grows_def)
qed

text \<open>Applied to three lines of two levels.\<close>

definition tlog_new_year :: tm where
  "tlog_new_year = \<lparr>tm_year = 124, tm_mon = 0, tm_mday = 1, tm_hour = 0, tm_min = 0, tm_sec = 0, tm_yday = 0\<rparr>"

definition quiet_env :: tlog_env where
  "quiet_env = \<lparr>te_time = 1704067200, te_localtime = (\<lambda>_. tlog_new_year), te_open = (\<lambda>_. True), te_stat_fails = (\<lambda>_. False),
     te_head_space = 9999, te_space = 9999, te_pid = 7, te_net = \<lparr>se_pton = (\<lambda>_. None), se_socket = 3, se_sendto = (\<lambda>b. int (length b))\<rparr>\<rparr>"

definition hello :: "nat \<Rightarrow> tlog_call" where
  "hello lvl = \<lparr>ca_env = quiet_env, ca_lvl = lvl, ca_type = None, ca_uid = 0, ca_flag = 1, ca_msg = [104, 105, 10]\<rparr>"

definition no_disk :: fsys where
  "no_disk = \<lparr>entries = [], content = (\<lambda>_. []), descs = (\<lambda>_. None), next_inode = 0, next_fd = 3\<rparr>"

definition new_udp_sink :: udp_sink where
  "new_udp_sink = \<lparr>sendfd = -1, toaddr = (0, 0), ip = [], port = 0, addr_changed = False, last_rate_time = 0, token = 0, limit = 0,
     chg_limit = 0, trace_uid_list = replicate 8 (0, 0), recvbuf = (\<lambda>_. 0), is_send_overflow = False, last_init_time = 0, datagrams = []\<rparr>"

definition new_tlog :: logger where
  "new_tlog = \<lparr>ctrl = \<lparr>cc_init = True, log_level = 6, daily_max_files = 0, max_one_size = 100, stop_if_diskfull = True, time_slice_secs = 900\<rparr>,
     svc_info = \<lparr>si_init = True, svcname = NIL, gameid = 1, svrtype = NIL, hostname = NIL\<rparr>,
     status = logger_status_notinit, last_check_diskfull_time = 0, logdir = [], prefix_ = [], use_net_ctrl = False, now = 0,
     tm_now = tlog_new_year, logfiles = (\<lambda>_. new_logfile [] []), tdirs = bare_root, tdisk = no_disk, udp_sink = new_udp_sink\<rparr>"

lemma bare_root_ok: "no_dangling bare_root" "path \<noteq> [] \<Longrightarrow> start_dirs bare_root path"
proof -
  show "start_dirs bare_root path" if "path \<noteq> []"
    using that by (cases path) (auto simp: start_dirs_def all_dirs_def path_base_def bare_root_def is_dir_at_def a_dir_def)
qed (auto simp: no_dangling_def bare_root_def a_dir_def)

lemma bare_root_free: "only_made p bare_root w \<Longrightarrow> \<not> blocked q w"
proof -
  have "\<not> blocked q bare_root" by (auto simp: blocked_def bare_root_def is_dir_at_def a_dir_def)
  then show "only_made p bare_root w \<Longrightarrow> \<not> blocked q w" using only_made_blocked by blast
qed

lemma hello_line: "length (ca_line (hello n)) \<le> 9999"
proof -
  have "length (ca_line (hello 0)) \<le> 9999" by code_simp
  then show ?thesis by (simp add: ca_line_def hello_def)
qed

lemma new_tlog_starts: "\<exists>lg. init_logger (Some [47, 97]) (Some [116]) new_tlog = Some (0, lg) \<and> (\<exists>p. only_made p bare_root (tdirs lg)) \<and> log_level (ctrl lg) = 6"
proof -
  obtain r dw where m: "tlog_mkdir_with_parents (Some [47, 97]) bare_root = (r, dw)" by fastforce
  then have "only_made (resolve bare_root [47, 97]) bare_root dw" "r = 0 \<or> blocked (resolve bare_root [47, 97]) bare_root"
    using mkdir_result_spec [of bare_root "[47, 97]" r dw] bare_root_ok by auto
  then show ?thesis using m bare_root_free [OF only_made_refl [of "[]"]]
    by (auto simp: init_logger_def Let_def new_tlog_def)
qed

theorem tlog_lines_kept_witness:
  "\<exists>lg. init_logger (Some [47, 97]) (Some [116]) new_tlog = Some (0, lg) \<and>
     (\<exists>q. prefix (file_bytes q (tdisk (tlog_run [hello 6, hello 3] lg))) (file_bytes q (tdisk (tlog_run [hello 6, hello 3, hello 6] lg))) \<and>
          suffix (ca_line (hello 3)) (file_bytes q (tdisk (tlog_run [hello 6, hello 3] lg))))"
proof -
  obtain lg where lg: "init_logger (Some [47, 97]) (Some [116]) new_tlog = Some (0, lg)" "\<exists>p. only_made p bare_root (tdirs lg)" "log_level (ctrl lg) = 6"
    using new_tlog_starts by blast
  have "good_call lg (hello n)" for n
    using lg(2) bare_root_free hello_line [of n] by (auto simp: good_call_def hello_def quiet_env_def)
  moreover have "to_file lg (hello 3)" using lg(3) by (simp add: to_file_def hello_def logger_flag_file_def)
  ultimately show ?thesis using tlog_lines_kept [OF lg(1) _ _ _ _, of "[hello 6]" "hello 3" "[hello 6]"] lg(1) bare_root_ok
    by (auto simp: new_tlog_def no_disk_def fs_ok_def)
qed

section \<open>The number of files of a day\<close>

text \<open>What stays when a level has had its files.\<close>

definition used_up :: "nat \<Rightarrow> logger \<Rightarrow> bool" where
  "used_up L lg \<longleftrightarrow> 0 < daily_max_files (ctrl lg) \<and> daily_max_files (ctrl lg) \<le> daily_seq (logfiles lg L)"

definition same_file :: "nat \<Rightarrow> logger \<Rightarrow> logger \<Rightarrow> bool" where
  "same_file L lg lg' \<longleftrightarrow> ctrl lg' = ctrl lg \<and> fd (logfiles lg' L) = fd (logfiles lg L) \<and> daily_seq (logfiles lg' L) = daily_seq (logfiles lg L)"

lemma create_other: "K \<noteq> L \<Longrightarrow> same_file L lg (snd (create_new_logfile env K lg))"
  unfolding create_new_logfile_def Let_def
  by (auto simp: same_file_def put_logfile_def split: prod.split option.split)

lemma shift_other: "K \<noteq> L \<or> used_up L lg \<Longrightarrow> same_file L lg (snd (shift_logger_file env K lg))"
proof (cases "K = L")
  case True
  assume "K \<noteq> L \<or> used_up L lg"
  then have "\<not> is_need_shift_file lg (logfiles lg L)" using True by (simp add: used_up_def is_need_shift_file_def Let_def)
  then show ?thesis using True by (simp add: shift_logger_file_def same_file_def)
next
  case False
  then show ?thesis using create_other by (simp add: shift_logger_file_def same_file_def)
qed

lemma write_file_other: "K \<noteq> L \<or> used_up L lg \<Longrightarrow> same_file L lg (write_to_file env K line lg)"
  using shift_other [of K L lg env] unfolding write_to_file_def Let_def
  by (auto simp: same_file_def put_logfile_def split: prod.split)

lemma step_other: "ca_lvl c \<noteq> L \<or> used_up L lg \<Longrightarrow> same_file L lg (tlog_step lg c)"
proof -
  assume a: "ca_lvl c \<noteq> L \<or> used_up L lg"
  define lg1 where "lg1 = lg\<lparr>now := te_time (ca_env c), tm_now := te_localtime (ca_env c) (te_time (ca_env c))\<rparr>"
  have "ca_lvl c \<noteq> L \<or> used_up L lg1" "same_file L lg lg1" using a by (simp_all add: lg1_def used_up_def same_file_def)
  then have w: "same_file L lg (write_to_file (ca_env c) (ca_lvl c) x lg1)" for x
    using write_file_other [of "ca_lvl c" L lg1] by (simp add: same_file_def)
  show ?thesis using w \<open>same_file L lg lg1\<close> unfolding tlog_step_def write_to_logger_def Let_def lg1_def [symmetric]
    by (auto simp: same_file_def)
qed

text \<open>
  C40: once a level has had its number of files for a day, no line ever makes it change its file
  again, whatever is logged and whatever day it is: the count is compared before it is looked
  whether the day has changed, and only a change of the file sets it back.
\<close>

theorem tlog_daily_limit_sticks:
  assumes "used_up L lg"
  shows "fd (logfiles (tlog_run cs lg) L) = fd (logfiles lg L) \<and> daily_seq (logfiles (tlog_run cs lg) L) = daily_seq (logfiles lg L)"
proof -
  have "same_file L lg (tlog_run cs lg)"
  proof (induction cs rule: rev_induct)
    case (snoc c cs)
    have "used_up L (tlog_run cs lg)" using assms snoc by (simp add: used_up_def same_file_def)
    then show ?case using step_other [of c L "tlog_run cs lg"] snoc by (simp add: tlog_run_def same_file_def)
  qed (simp add: tlog_run_def same_file_def)
  then show ?thesis by (simp add: same_file_def)
qed

text \<open>One file a day: the lines of the first of January go on into the file of the day before.\<close>

definition used_tlog :: logger where
  "used_tlog = new_tlog\<lparr>ctrl := (ctrl new_tlog)\<lparr>daily_max_files := 1\<rparr>, status := logger_status_writing, logdir := [47, 97],
     logfiles := (\<lambda>_. (new_logfile [116] [])\<lparr>fd := 3, daily_seq := 1, lf_yday := 364\<rparr>)\<rparr>"

theorem tlog_daily_limit_sticks_witness:
  "fd (logfiles (tlog_run [hello 6, hello 6] used_tlog) 6) = 3"
  using tlog_daily_limit_sticks [of 6 used_tlog "[hello 6, hello 6]"]
  by (simp add: used_up_def used_tlog_def new_tlog_def new_logfile_def)

end
