(* ===== verification/UdpProps.thy ===== *)
theory UdpProps
  imports TlogNet
begin

unbundle bit_operations_syntax

text \<open>
  Properties of \<open>tlog/netutils.c\<close>: how much is sent in a second, whatever packets arrive meanwhile,
  and which users are traced after a user has been added.
\<close>

section \<open>The rate\<close>

text \<open>
  What happens to the sender: a line is sent, the controlled thread starts, a packet arrives. The
  thread is the sequence of its packets, interleaved with the lines of the other threads.
\<close>

datatype sink_op = Send sink_env int bytes | Start_server | Packet int bytes

fun sink_step :: "udp_sink \<Rightarrow> sink_op \<Rightarrow> udp_sink" where
  "sink_step s (Send env t bs) = sendlog_to_udp_sink env t bs s"
| "sink_step s Start_server = s\<lparr>limit := DEF_RATE_LIMIT\<rparr>"
| "sink_step s (Packet t bs) = proc_logger_pkg t bs s"

definition sink_run :: "sink_op list \<Rightarrow> udp_sink \<Rightarrow> udp_sink" where
  "sink_run ops s = foldl sink_step s ops"

lemma udp_sink_server_steps:
  assumes "eth_ip ''eth0'' = Some e" "mcast (server_eth e) \<noteq> -1"
  shows "udp_sink_server eth_ip mcast ps s = sink_run (Start_server # map (\<lambda>(t, d). Packet t d) ps) s"
proof -
  have "foldl (\<lambda>s (t, d). proc_logger_pkg t d s) s' ps = foldl sink_step s' (map (\<lambda>(t, d). Packet t d) ps)" for s'
    by (induction ps arbitrary: s') (auto split: prod.split)
  then show ?thesis using assms by (simp add: udp_sink_server_def sink_run_def)
qed

text \<open>The bytes of lines, and the notes about too many lines, that have left in a second.\<close>

definition sent_in :: "int \<Rightarrow> udp_sink \<Rightarrow> nat" where
  "sent_in t s = sum_list (map (\<lambda>(u, note, bs). if u = t \<and> \<not> note then length bs else 0) (datagrams s))"

definition notes_in :: "int \<Rightarrow> udp_sink \<Rightarrow> nat" where
  "notes_in t s = length (filter (\<lambda>(u, note, bs). u = t \<and> note) (datagrams s))"

definition rate_inv :: "udp_sink \<Rightarrow> bool" where
  "rate_inv s \<longleftrightarrow> 0 \<le> token s \<and> 0 \<le> limit s \<and> limit s \<le> MAX_RATE_LIMIT \<and> 0 \<le> chg_limit s \<and> chg_limit s \<le> MAX_RATE_LIMIT \<and>
     (\<forall>(u, note, bs) \<in> set (datagrams s). u \<le> last_rate_time s) \<and>
     (\<forall>t. int (sent_in t s) + (if t = last_rate_time s then token s else 0) \<le> MAX_RATE_LIMIT) \<and>
     (\<forall>t. notes_in t s + (if t = last_rate_time s \<and> \<not> is_send_overflow s then 1 else 0) \<le> 1)"

lemma rate_invI:
  assumes "last_rate_time s = T" "0 \<le> token s" "0 \<le> limit s" "limit s \<le> MAX_RATE_LIMIT" "0 \<le> chg_limit s" "chg_limit s \<le> MAX_RATE_LIMIT"
    and "\<forall>(u, note, bs) \<in> set (datagrams s). u \<le> T" "\<And>u. int (sent_in u s) + (if u = T then token s else 0) \<le> MAX_RATE_LIMIT"
    and "\<And>u. notes_in u s + (if u = T \<and> \<not> is_send_overflow s then 1 else 0) \<le> 1"
  shows "rate_inv s"
  using assms unfolding rate_inv_def by blast

lemma nothing_later:
  "\<forall>(u, note, bs) \<in> set (datagrams s). u \<le> last_rate_time s \<Longrightarrow> last_rate_time s < t \<Longrightarrow> sent_in t s = 0 \<and> notes_in t s = 0"
  unfolding sent_in_def notes_in_def by (induction "datagrams s" rule: rev_induct) (fastforce simp: filter_empty_conv)+

lemma sent_bound: "rate_inv s \<Longrightarrow> int (sent_in u s) \<le> MAX_RATE_LIMIT \<and> notes_in u s \<le> 1"
proof -
  assume r: "rate_inv s"
  then have "int (sent_in u s) + (if u = last_rate_time s then token s else 0) \<le> MAX_RATE_LIMIT" "0 \<le> token s"
    "notes_in u s + (if u = last_rate_time s \<and> \<not> is_send_overflow s then 1 else 0) \<le> 1" unfolding rate_inv_def by blast+
  then show ?thesis by (simp split: if_splits)
qed

text \<open>A packet touches, of what the rate depends on, only the limits, the start of the thread too.\<close>

definition same_rate :: "udp_sink \<Rightarrow> udp_sink \<Rightarrow> bool" where
  "same_rate s s' \<longleftrightarrow> token s' = token s \<and> last_rate_time s' = last_rate_time s \<and> datagrams s' = datagrams s \<and>
     is_send_overflow s' = is_send_overflow s \<and> (limit s' = limit s \<or> 0 \<le> limit s' \<and> limit s' \<le> MAX_RATE_LIMIT) \<and>
     (chg_limit s' = chg_limit s \<or> 0 \<le> chg_limit s' \<and> chg_limit s' \<le> MAX_RATE_LIMIT)"

lemma same_rate_inv: "same_rate s s' \<Longrightarrow> rate_inv s \<Longrightarrow> rate_inv s' \<and> last_rate_time s' = last_rate_time s"
proof -
  assume r: "same_rate s s'" and i: "rate_inv s"
  have e: "token s' = token s" "last_rate_time s' = last_rate_time s" "datagrams s' = datagrams s"
    "is_send_overflow s' = is_send_overflow s" using r by (simp_all add: same_rate_def)
  have d: "sent_in t s' = sent_in t s" "notes_in t s' = notes_in t s" for t using e(3) by (simp_all add: sent_in_def notes_in_def)
  have "0 \<le> chg_limit s' \<and> chg_limit s' \<le> MAX_RATE_LIMIT \<and> 0 \<le> limit s' \<and> limit s' \<le> MAX_RATE_LIMIT" using r i by (auto simp: same_rate_def rate_inv_def)
  then show ?thesis using i unfolding rate_inv_def d e by blast
qed

lemma set_trace_uids_rate: "same_rate x s \<Longrightarrow> same_rate x (set_trace_uids t p n s)"
  by (induction n arbitrary: p s) (simp_all add: Let_def add_to_trace_uid_list_def same_rate_def)

lemma packet_rate: "same_rate s (proc_logger_pkg t d s)"
proof -
  let ?s = "s\<lparr>recvbuf := to_host 8 (to_host 0 (mem_write (recvbuf s) 0 d))\<rparr>"
  have x: "same_rate s (s\<lparr>recvbuf := m\<rparr>)" "same_rate s ?s" for m by (simp_all add: same_rate_def)
  have "same_rate s (snd (do_set_trace_uid t ?s))"
    unfolding do_set_trace_uid_def Let_def using x by (auto intro!: set_trace_uids_rate)
  moreover have "same_rate s (snd (do_set_trace_addr ?s))" by (simp add: do_set_trace_addr_def Let_def same_rate_def)
  moreover have "same_rate s (snd (do_set_rate_limit ?s))" by (auto simp: do_set_rate_limit_def Let_def same_rate_def MIN_RATE_LIMIT_def)
  ultimately show ?thesis using x(2) unfolding proc_logger_pkg_def Let_def by (simp only: if_splits simp_thms)
qed

lemma refill_rate: "rate_inv s \<Longrightarrow> last_rate_time s \<le> t \<Longrightarrow> rate_inv (refill t s) \<and> last_rate_time (refill t s) = t"
proof (cases "t = last_rate_time s")
  case False
  assume r: "rate_inv s" and le: "last_rate_time s \<le> t"
  let ?s = "refill t s"
  have l: "0 \<le> limit s" "limit s \<le> MAX_RATE_LIMIT" "0 \<le> chg_limit s" "chg_limit s \<le> MAX_RATE_LIMIT"
    "\<forall>(u, note, bs) \<in> set (datagrams s). u \<le> last_rate_time s" using r unfolding rate_inv_def by blast+
  then have z: "sent_in t s = 0 \<and> notes_in t s = 0" using False le by (intro nothing_later) simp_all
  have f: "datagrams ?s = datagrams s" "last_rate_time ?s = t" "token ?s = limit ?s" "\<not> is_send_overflow ?s" "0 \<le> limit ?s" "limit ?s \<le> MAX_RATE_LIMIT"
      "0 \<le> chg_limit ?s" "chg_limit ?s \<le> MAX_RATE_LIMIT"
    using False l(1-4) by (simp_all add: refill_def Let_def MAX_RATE_LIMIT_def)
  have d: "sent_in u ?s = sent_in u s" "notes_in u ?s = notes_in u s" for u using f(1) by (simp_all add: sent_in_def notes_in_def)
  have "\<forall>(u, note, bs) \<in> set (datagrams s). u \<le> t" using l(5) le by fastforce
  moreover have "int (sent_in u s) + (if u = t then limit ?s else 0) \<le> MAX_RATE_LIMIT" for u using sent_bound [OF r, of u] z f(5,6) by simp
  moreover have "notes_in u s + (if u = t \<and> \<not> is_send_overflow ?s then 1 else 0) \<le> 1" for u using sent_bound [OF r, of u] z by simp
  ultimately show ?thesis using f(5-8) unfolding rate_inv_def d f(1,2,3) by blast
qed (simp add: refill_def)

lemma datagram_counts:
  assumes "send_datagram env t note bs s = (n, s')" "se_sendto env bs \<in> {-1..int (length bs)}"
  shows "token s' = token s \<and> limit s' = limit s \<and> chg_limit s' = chg_limit s \<and> last_rate_time s' = last_rate_time s \<and>
    is_send_overflow s' = is_send_overflow s \<and> (\<forall>d \<in> set (datagrams s'). d \<in> set (datagrams s) \<or> fst d = t) \<and> -1 \<le> n \<and> n \<le> int (length bs) \<and>
    (\<forall>u. int (sent_in u s') = int (sent_in u s) + (if u = t \<and> \<not> note \<and> n \<noteq> -1 then n else 0)) \<and>
    (\<forall>u. notes_in u s' \<le> notes_in u s + (if u = t \<and> note then 1 else 0))"
  using assms by (auto simp: send_datagram_def Let_def sent_in_def notes_in_def split: if_splits)

lemma send_limited_rate:
  assumes r: "rate_inv s" and t: "last_rate_time s = t" and n: "se_sendto env bs \<in> {-1..int (length bs)}"
    "se_sendto env overflow_note \<in> {-1..int (length overflow_note)}"
  shows "rate_inv (send_limited env t bs s) \<and> last_rate_time (send_limited env t bs s) = t"
proof -
  have i: "0 \<le> token s" "0 \<le> limit s" "limit s \<le> MAX_RATE_LIMIT" "0 \<le> chg_limit s" "chg_limit s \<le> MAX_RATE_LIMIT"
    "\<forall>(u, note, bs) \<in> set (datagrams s). u \<le> t" "\<forall>u. int (sent_in u s) + (if u = t then token s else 0) \<le> MAX_RATE_LIMIT"
    "\<forall>u. notes_in u s + (if u = t \<and> \<not> is_send_overflow s then 1 else 0) \<le> 1"
    using r unfolding rate_inv_def t by blast+
  consider (skip) "int (length bs) > token s" "is_send_overflow s" | (noted) "int (length bs) > token s" "\<not> is_send_overflow s"
    | (line) "int (length bs) \<le> token s" by linarith
  then show ?thesis
  proof cases
    case skip
    then show ?thesis using r t by (simp add: send_limited_def)
  next
    case noted
    obtain m s' where m: "send_datagram env t True overflow_note s = (m, s')" by fastforce
    note c = datagram_counts [OF m n(2)]
    define s2 where "s2 = s'\<lparr>is_send_overflow := True\<rparr>"
    have o: "send_limited env t bs s = s2" using noted m by (simp add: send_limited_def do_send_overflow_def s2_def)
    have f: "limit s2 = limit s" "chg_limit s2 = chg_limit s" "last_rate_time s2 = t" "is_send_overflow s2" "datagrams s2 = datagrams s'"
      "token s2 = token s" using c t by (simp_all add: s2_def)
    have d: "sent_in u s2 = sent_in u s'" "notes_in u s2 = notes_in u s'" for u using f(5) by (simp_all add: sent_in_def notes_in_def)
    have "int (sent_in u s') + (if u = t then token s else 0) \<le> MAX_RATE_LIMIT" for u using c spec [OF i(7), of u] by simp
    moreover have "notes_in u s' \<le> 1" for u
    proof -
      have "notes_in u s' \<le> notes_in u s + (if u = t then 1 else 0)" using c by simp
      also have "\<dots> \<le> 1" using i(8) noted(2) by simp
      finally show ?thesis .
    qed
    moreover have "\<forall>(u, note, bs) \<in> set (datagrams s'). u \<le> t" using c i(6) by fastforce
    ultimately have "rate_inv s2" using i(1-5) f(4) by (intro rate_invI [OF f(3)]) (simp_all only: f(1,2,5,6) d simp_thms if_False add_0_right)
    then show ?thesis using o f(3) by simp
  next
    case line
    obtain m s' where m: "send_datagram env t False bs s = (m, s')" by fastforce
    note c = datagram_counts [OF m n(1)]
    define s2 where "s2 = (if m = -1 then s'\<lparr>sendfd := -1\<rparr> else s'\<lparr>token := token s' - m\<rparr>)"
    have o: "send_limited env t bs s = s2" using line m by (simp add: send_limited_def s2_def)
    have f: "limit s2 = limit s" "chg_limit s2 = chg_limit s" "last_rate_time s2 = t" "is_send_overflow s2 = is_send_overflow s"
        "datagrams s2 = datagrams s'" "token s2 = (if m = -1 then token s else token s - m)" using c t by (simp_all add: s2_def)
    have d: "sent_in u s2 = sent_in u s'" "notes_in u s2 = notes_in u s'" for u using f(5) by (simp_all add: sent_in_def notes_in_def)
    have "0 \<le> token s2" using f(6) c line i(1) by simp
    moreover have "\<forall>(u, note, bs) \<in> set (datagrams s'). u \<le> t" using c i(6) by fastforce
    moreover have "int (sent_in u s') + (if u = t then token s2 else 0) \<le> MAX_RATE_LIMIT" for u using c spec [OF i(7), of u] f(6) by (simp split: if_splits)
    moreover have "notes_in u s' + (if u = t \<and> \<not> is_send_overflow s then 1 else 0) \<le> 1" for u
    proof -
      have "notes_in u s' \<le> notes_in u s" using c by simp
      then show ?thesis using spec [OF i(8), of u] by linarith
    qed
    ultimately show ?thesis using i(2-5) f(3) unfolding o rate_inv_def d f(1,2,3,4,5) by blast
  qed
qed

text \<open>Times do not go back, and the kernel sends at most what it is given.\<close>

fun ops_ok :: "int \<Rightarrow> sink_op list \<Rightarrow> bool" where
  "ops_ok t0 [] = True"
| "ops_ok t0 (Send env t bs # ops) \<longleftrightarrow> t0 \<le> t \<and> (\<forall>b. se_sendto env b \<in> {-1..int (length b)}) \<and> ops_ok t ops"
| "ops_ok t0 (Start_server # ops) = ops_ok t0 ops"
| "ops_ok t0 (Packet t bs # ops) = ops_ok t0 ops"

lemma sendlog_rate:
  assumes r: "rate_inv s" and t: "last_rate_time s \<le> t" and n: "\<forall>b. se_sendto env b \<in> {-1..int (length b)}"
  shows "rate_inv (sendlog_to_udp_sink env t bs s) \<and> last_rate_time (sendlog_to_udp_sink env t bs s) \<in> {last_rate_time s, t}"
proof -
  define s1 where "s1 = (if addr_changed s then (snd (update_udp_sink_sockaddr env s))\<lparr>addr_changed := False\<rparr> else s)"
  define s2 where "s2 = (if sendfd s1 = -1 \<and> t - last_init_time s1 \<ge> MIN_WAIT_UDP_SINK_TIME
     then s1\<lparr>last_init_time := t, sendfd := se_socket env\<rparr> else s1)"
  have "same_rate s s1" by (simp add: s1_def same_rate_def update_udp_sink_sockaddr_def split: option.split)
  then have "same_rate s s2" by (simp add: s2_def same_rate_def)
  then have s2: "rate_inv s2 \<and> last_rate_time s2 = last_rate_time s" using same_rate_inv r by blast
  have "sendlog_to_udp_sink env t bs s \<in> {s2, send_limited env t bs (refill t s2)}"
    by (simp add: sendlog_to_udp_sink_def Let_def s1_def [symmetric] init_logger_udp_sink_sendfd_def s2_def)
  moreover have "rate_inv (send_limited env t bs (refill t s2)) \<and> last_rate_time (send_limited env t bs (refill t s2)) = t"
    using refill_rate [of s2 t] s2 t n by (intro send_limited_rate) auto
  ultimately show ?thesis using s2 by auto
qed

lemma sink_run_rate: "rate_inv s \<Longrightarrow> last_rate_time s \<le> t0 \<Longrightarrow> ops_ok t0 ops \<Longrightarrow> rate_inv (sink_run ops s)"
proof (induction t0 ops arbitrary: s rule: ops_ok.induct)
  case (2 t0 env t bs ops)
  then show ?case using sendlog_rate [of s t env bs] by (auto simp: sink_run_def)
next
  case (3 t0 ops)
  have "same_rate s (s\<lparr>limit := DEF_RATE_LIMIT\<rparr>)" by (simp add: same_rate_def DEF_RATE_LIMIT_def MAX_RATE_LIMIT_def)
  then show ?case using same_rate_inv 3 by (simp add: sink_run_def)
next
  case (4 t0 t bs ops)
  then show ?case using same_rate_inv [OF packet_rate] by (simp add: sink_run_def)
qed (simp add: sink_run_def)

text \<open>The sender as \<open>init_logger\<close> leaves it, before anything has been sent.\<close>

definition fresh_sink :: "udp_sink \<Rightarrow> bool" where
  "fresh_sink s \<longleftrightarrow> token s = 0 \<and> limit s = 0 \<and> chg_limit s = 0 \<and> last_rate_time s = 0 \<and> datagrams s = []"

text \<open>
  C13: whatever is logged and whatever packets arrive to change the limit, in every second of the
  clock at most 1 MiB of lines and one note leave the process.
\<close>

theorem udp_rate_limited:
  assumes "fresh_sink s" "0 \<le> t0" "ops_ok t0 ops"
  shows "sent_in t (sink_run ops s) \<le> 1048576 \<and> notes_in t (sink_run ops s) \<le> 1"
proof -
  have "rate_inv s" using assms(1) by (simp add: fresh_sink_def rate_inv_def sent_in_def notes_in_def MAX_RATE_LIMIT_def)
  then have "rate_inv (sink_run ops s)" using assms by (intro sink_run_rate) (auto simp: fresh_sink_def)
  then show ?thesis using sent_bound [of "sink_run ops s" t] by (simp add: MAX_RATE_LIMIT_def)
qed

text \<open>Applied to three lines in a second, the second too long, with a packet that cannot be understood between.\<close>

definition idle_sink :: udp_sink where
  "idle_sink = \<lparr>sendfd = -1, toaddr = (0, 0), ip = [], port = 0, addr_changed = False, last_rate_time = 0, token = 0, limit = 0,
     chg_limit = 0, trace_uid_list = replicate 8 (0, 0), recvbuf = (\<lambda>_. 0), is_send_overflow = False, last_init_time = 0, datagrams = []\<rparr>"

definition good_net :: sink_env where
  "good_net = \<lparr>se_pton = (\<lambda>_. None), se_socket = 3, se_sendto = (\<lambda>b. int (length b))\<rparr>"

theorem udp_rate_limited_witness:
  "sent_in 9 (sink_run [Start_server, Send good_net 9 [1, 2], Packet 9 [], Send good_net 9 (replicate 200000 0), Send good_net 9 [3]] idle_sink)
     \<le> 1048576"
  using udp_rate_limited [of idle_sink 0 _ 9] by (simp add: idle_sink_def good_net_def fresh_sink_def)

section \<open>Traced users\<close>

subsection \<open>Adding a user\<close>

definition traced_in :: "int \<Rightarrow> u32 \<Rightarrow> (u32 \<times> int) list \<Rightarrow> bool" where
  "traced_in t u l \<longleftrightarrow> (\<exists>e. (u, e) \<in> set l \<and> t \<le> e)"

definition free_slots :: "int \<Rightarrow> (u32 \<times> int) list \<Rightarrow> nat" where
  "free_slots now l = length (filter (\<lambda>(u, e). u = 0 \<or> now > e) l)"

lemma is_traced_uid_iff: "is_traced_uid t u s = (if u \<noteq> 0 \<and> traced_in t u (trace_uid_list s) then 1 else 0)"
  by (auto simp: is_traced_uid_def traced_in_def list_ex_iff)

lemma add_slot_traced:
  assumes "free_slots now l > 0" "u \<noteq> 0" "now \<le> t" "now + life < 2 ^ 31" "0 \<le> now + life"
  shows "traced_in t u (add_slot now uid life l) \<longleftrightarrow> traced_in t u l \<or> u = uid \<and> t \<le> now + life"
  using assms(1)
proof (induction l)
  case (Cons x l)
  have st: "signed_take_bit 31 (now + life) = now + life" using assms(4,5) by (intro signed_take_bit_int_eq_self) auto
  obtain v e where x: "x = (v, e)" by (cases x)
  show ?case
  proof (cases "v = 0 \<or> now > e")
    case True
    then show ?thesis using x st assms(2,3) by (auto simp: traced_in_def)
  next
    case False
    then show ?thesis using x Cons by (auto simp: traced_in_def free_slots_def)
  qed
qed (simp add: free_slots_def)

lemma add_slot_free:
  assumes "uid \<noteq> 0" "0 \<le> life" "now + life < 2 ^ 31" "0 \<le> now" "free_slots now l > 0"
  shows "free_slots now (add_slot now uid life l) = free_slots now l - 1"
  using assms(5)
proof (induction l)
  case (Cons x l)
  have st: "signed_take_bit 31 (now + life) = now + life" using assms(2-4) by (intro signed_take_bit_int_eq_self) auto
  obtain v e where x: "x = (v, e)" by (cases x)
  show ?case
  proof (cases "v = 0 \<or> now > e")
    case True
    then show ?thesis using x st assms(1,2) by (auto simp: free_slots_def)
  next
    case False
    then show ?thesis using x Cons by (auto simp: free_slots_def)
  qed
qed (simp add: free_slots_def)

subsection \<open>The packet\<close>

text \<open>The order of bytes in which the packets are sent, and the packet that asks to trace users.\<close>

definition be32 :: "u32 \<Rightarrow> bytes" where
  "be32 v = rev (le32 v)"

definition trace_words :: "u32 \<Rightarrow> u32 \<Rightarrow> u32 \<Rightarrow> (u32 \<times> u32) list \<Rightarrow> u32 list" where
  "trace_words ver uid seq ps = [of_nat (24 + 8 * length ps), ver, lc_set_trace_uid, uid, seq, of_nat (length ps)] @
     concat (map (\<lambda>(u, l). [u, l]) ps)"

definition trace_packet :: "u32 \<Rightarrow> u32 \<Rightarrow> u32 \<Rightarrow> (u32 \<times> u32) list \<Rightarrow> bytes" where
  "trace_packet ver uid seq ps = concat (map be32 (trace_words ver uid seq ps))"

lemma length_be32 [simp]: "length (be32 v) = 4"
  by (simp add: be32_def)

lemma ntohl_be32 [simp]: "ntohl (of_le32 (be32 v)) = v"
  by (simp add: ntohl_def le32_of_le32) (simp add: be32_def)

definition raw_words :: "memory \<Rightarrow> nat \<Rightarrow> u32 list \<Rightarrow> bool" where
  "raw_words m p ws \<longleftrightarrow> (\<forall>i < length ws. load32 m (p + 4 * i) = of_le32 (be32 (ws ! i)))"

lemma raw_words_Cons: "raw_words m p (w # ws) \<longleftrightarrow> load32 m p = of_le32 (be32 w) \<and> raw_words m (p + 4) ws"
  unfolding raw_words_def by (auto simp: less_Suc_eq_0_disj add.assoc) 

lemma raw_words_append: "raw_words m p (vs @ ws) \<longleftrightarrow> raw_words m p vs \<and> raw_words m (p + 4 * length vs) ws"
  by (induction vs arbitrary: p) (simp_all add: raw_words_Cons, simp add: raw_words_def, simp add: algebra_simps)

lemma raw_words_host: "p + 4 \<le> q \<Longrightarrow> raw_words (to_host p m) q ws = raw_words m q ws"
  by (simp add: raw_words_def to_host_def load32_store32_other)

lemma load_host: "load32 m p = of_le32 (be32 w) \<Longrightarrow> load32 (to_host p m) p = w"
  by (simp add: to_host_def)

lemma load_host_other: "p + 4 \<le> q \<or> q + 4 \<le> p \<Longrightarrow> load32 (to_host p m) q = load32 m q"
  by (auto simp: to_host_def load32_store32_other)

lemma raw_words_written: "raw_words (mem_write m p (concat (map be32 ws))) p ws"
proof (induction ws arbitrary: m p)
  case (Cons w ws)
  have w: "mem_write m p (be32 w @ xs) = mem_write (mem_write m p (be32 w)) (p + 4) xs" for xs
    by (rule ext) (auto simp: mem_write_def nth_append)
  have "load32 (mem_write (mem_write m p (be32 w)) (p + 4) xs) p = of_le32 (be32 w)" for xs
    by (simp add: load32_write_other) (simp add: load32_def)
  then show ?case using Cons by (simp add: raw_words_Cons w)
qed (simp add: raw_words_def)

definition trace_pair :: "int \<Rightarrow> (u32 \<times> int) list \<Rightarrow> u32 \<times> u32 \<Rightarrow> (u32 \<times> int) list" where
  "trace_pair now T = (\<lambda>(u, l). if u < 50000 \<or> sint l < MIN_TRACE_TIME \<or> sint l > MAX_TRACE_TIME then T else add_slot now u (sint l) T)"

lemma set_trace_uids_pairs:
  "raw_words (recvbuf s) p (concat (map (\<lambda>(u, l). [u, l]) ps)) \<Longrightarrow>
    trace_uid_list (set_trace_uids now p (length ps) s) = foldl (trace_pair now) (trace_uid_list s) ps"
proof (induction ps arbitrary: p s)
  case (Cons x ps)
  obtain u l where x: "x = (u, l)" by (cases x)
  let ?m = "to_host (p + 4) (to_host p (recvbuf s))"
  have r: "load32 (recvbuf s) p = of_le32 (be32 u)" "load32 (recvbuf s) (p + 4) = of_le32 (be32 l)"
    "raw_words (recvbuf s) (p + 8) (concat (map (\<lambda>(u, l). [u, l]) ps))" using Cons.prems by (simp_all add: x raw_words_Cons add.commute [of 8])
  have l: "load32 ?m p = u" "load32 ?m (p + 4) = l"
    using r(1,2) by (simp_all add: load_host load_host_other)
  have m: "raw_words ?m (p + 8) (concat (map (\<lambda>(u, l). [u, l]) ps))" using r(3) by (simp add: raw_words_host)
  define s' where "s' = (if u < 50000 then s\<lparr>recvbuf := ?m\<rparr> else if sint l < MIN_TRACE_TIME \<or> sint l > MAX_TRACE_TIME then s\<lparr>recvbuf := ?m\<rparr>
      else add_to_trace_uid_list now u (sint l) (s\<lparr>recvbuf := ?m\<rparr>))"
  have "set_trace_uids now p (length (x # ps)) s = set_trace_uids now (p + 8) (length ps) s'"
    by (simp add: Let_def l s'_def)
  moreover have "recvbuf s' = ?m" "trace_uid_list s' = trace_pair now (trace_uid_list s) x"
    by (auto simp: s'_def add_to_trace_uid_list_def x trace_pair_def)
  ultimately show ?case using Cons.IH [of s' "p + 8"] m by simp
qed simp

lemma length_trace_packet: "length (trace_packet ver uid seq ps) = 24 + 8 * length ps"
proof -
  have "length (concat (map be32 ws)) = 4 * length ws" for ws by (induction ws) simp_all
  moreover have "length (concat (map (\<lambda>(u, l). [u, l]) ps)) = 2 * length ps" by (induction ps) auto
  ultimately show ?thesis by (simp add: trace_packet_def trace_words_def)
qed

lemma trace_packet_list:
  assumes "ps \<noteq> []" "length ps \<le> 8"
  shows "trace_uid_list (proc_logger_pkg now (trace_packet ver uid seq ps) s) = foldl (trace_pair now) (trace_uid_list s) ps"
proof -
  let ?m = "mem_write (recvbuf s) 0 (trace_packet ver uid seq ps)" let ?ps = "concat (map (\<lambda>(u, l). [u, l]) ps)"
  let ?h = "to_host 8 (to_host 0 ?m)"
  have w: "raw_words ?m 0 (trace_words ver uid seq ps)" unfolding trace_packet_def by (rule raw_words_written)
  then have r: "load32 ?m 0 = of_le32 (be32 (of_nat (24 + 8 * length ps)))" "load32 ?m 8 = of_le32 (be32 lc_set_trace_uid)"
    "load32 ?m 20 = of_le32 (be32 (of_nat (length ps)))" "raw_words ?m 24 ?ps"
    unfolding trace_words_def by (simp_all add: raw_words_Cons del: of_nat_add of_nat_mult)
  have n: "unat (of_nat (24 + 8 * length ps) :: u32) = 24 + 8 * length ps" "unat (of_nat (length ps) :: u32) = length ps"
    using assms(2) by (simp_all only: unat_of_nat) simp_all
  have h: "load32 (to_host 20 ?h) 0 = of_nat (24 + 8 * length ps)" "load32 ?h 0 = of_nat (24 + 8 * length ps)" "load32 ?h 8 = lc_set_trace_uid"
    "load32 (to_host 20 ?h) 20 = of_nat (length ps)" "raw_words (to_host 20 ?h) 24 ?ps"
    using r by (simp_all add: load_host load_host_other raw_words_host del: of_nat_add of_nat_mult)
  have "proc_logger_pkg now (trace_packet ver uid seq ps) s = snd (do_set_trace_uid now (s\<lparr>recvbuf := ?h\<rparr>))"
    unfolding proc_logger_pkg_def Let_def by (simp add: h(2,3) n length_trace_packet del: of_nat_add of_nat_mult)
  also have "\<dots> = set_trace_uids now 24 (length ps) (s\<lparr>recvbuf := to_host 20 ?h\<rparr>)"
    using assms unfolding do_set_trace_uid_def Let_def
    by (simp add: h(1,4) n MAX_TRACE_UID_NUM_def del: of_nat_add of_nat_mult)
  finally show ?thesis using set_trace_uids_pairs [of "s\<lparr>recvbuf := to_host 20 ?h\<rparr>" 24 ps now] h(5) by simp
qed

text \<open>A pair of the packet that is accepted.\<close>

definition pair_ok :: "u32 \<times> u32 \<Rightarrow> bool" where
  "pair_ok x \<longleftrightarrow> 50000 \<le> fst x \<and> MIN_TRACE_TIME \<le> sint (snd x) \<and> sint (snd x) \<le> MAX_TRACE_TIME"

lemma trace_pairs_traced:
  assumes "0 \<le> now" "now + MAX_TRACE_TIME < 2 ^ 31" "now \<le> t" "u \<noteq> 0"
  shows "length ps \<le> free_slots now T \<Longrightarrow>
    traced_in t u (foldl (trace_pair now) T ps) \<longleftrightarrow> traced_in t u T \<or> (\<exists>l. (u, l) \<in> set ps \<and> pair_ok (u, l) \<and> t \<le> now + sint l)"
proof (induction ps arbitrary: T)
  case (Cons x ps)
  obtain v l where x: "x = (v, l)" by (cases x)
  show ?case
  proof (cases "pair_ok x")
    case True
    then have ok: "50000 \<le> v" "3 \<le> sint l" "sint l \<le> MAX_TRACE_TIME" by (simp_all add: pair_ok_def x MIN_TRACE_TIME_def)
    then have p: "trace_pair now T x = add_slot now v (sint l) T" by (auto simp: trace_pair_def x MIN_TRACE_TIME_def not_less)
    have v: "v \<noteq> 0" using ok(1) by auto
    have f: "free_slots now T > 0" using Cons.prems by simp
    have "free_slots now (add_slot now v (sint l) T) = free_slots now T - 1"
      using v ok assms(1,2) f by (intro add_slot_free) simp_all
    then have "length ps \<le> free_slots now (trace_pair now T x)" using Cons.prems p by simp
    moreover have "traced_in t u (add_slot now v (sint l) T) \<longleftrightarrow> traced_in t u T \<or> u = v \<and> t \<le> now + sint l"
      using ok assms f by (intro add_slot_traced) simp_all
    ultimately show ?thesis using Cons.IH [of "trace_pair now T x"] p True x by auto
  next
    case False
    then have "trace_pair now T x = T" by (auto simp: trace_pair_def x pair_ok_def)
    then show ?thesis using Cons False x by auto
  qed
qed simp

text \<open>
  C14: a packet that names up to eight users, sent in network byte order, makes exactly these users
  traced for the times it gives, besides those who were, as long as there are free slots. Users
  below 50000 and times outside three seconds to a day are skipped.
\<close>

theorem trace_packet_adds:
  assumes "0 \<le> now" "now + MAX_TRACE_TIME < 2 ^ 31" "now \<le> t" "u \<noteq> 0"
    and "ps \<noteq> []" "length ps \<le> 8" "length ps \<le> free_slots now (trace_uid_list s)"
  shows "is_traced_uid t u (proc_logger_pkg now (trace_packet ver uid seq ps) s) = 1 \<longleftrightarrow>
    is_traced_uid t u s = 1 \<or> (\<exists>l. (u, l) \<in> set ps \<and> pair_ok (u, l) \<and> t \<le> now + sint l)"
  using trace_pairs_traced [OF assms(1-4,7)] assms(4) unfolding is_traced_uid_iff trace_packet_list [OF assms(5,6)] by simp

theorem trace_packet_adds_witness:
  "is_traced_uid 1003 70000 (proc_logger_pkg 1000 (trace_packet 0 0 0 [(70000, 60), (80000, 90000)]) idle_sink) = 1 \<and>
   is_traced_uid 1003 80000 (proc_logger_pkg 1000 (trace_packet 0 0 0 [(70000, 60), (80000, 90000)]) idle_sink) \<noteq> 1"
proof -
  have f: "length [(70000, 60), (80000, 90000)] \<le> free_slots 1000 (trace_uid_list idle_sink)"
    by (simp add: free_slots_def idle_sink_def eval_nat_numeral)
  have n: "is_traced_uid 1003 u idle_sink \<noteq> 1" for u
    by (auto simp: is_traced_uid_def idle_sink_def list_ex_iff)
  show ?thesis
    using trace_packet_adds [of 1000 1003 70000 "[(70000, 60), (80000, 90000)]" idle_sink 0 0 0]
      trace_packet_adds [of 1000 1003 80000 "[(70000, 60), (80000, 90000)]" idle_sink 0 0 0] f n
    by (simp add: pair_ok_def MAX_TRACE_TIME_def MIN_TRACE_TIME_def)
qed

end
