(* ===== verification/TlogMacros.thy ===== *)
theory TlogMacros
  imports Tlog
begin

unbundle bit_operations_syntax

text \<open>
  \<open>tlog/tlog_macros.h\<close>: the macros by which programs log. Each names a level; those for errors put
  the place of the call before the text. The counter of a place is a static variable of it: it
  is passed in and out.
\<close>

section \<open>The general macros\<close>

text \<open>The place of a call: file, line and function.\<close>

definition place :: "bytes \<Rightarrow> nat \<Rightarrow> bytes \<Rightarrow> bytes" where
  "place f l g = 91 # f @ [93, 91] @ dec_digits l @ 93 # g @ [58, 32]"

definition LONG_TLOG :: "tlog_env \<Rightarrow> bytes option \<Rightarrow> u32 \<Rightarrow> bytes \<Rightarrow> logger \<Rightarrow> logger" where
  "LONG_TLOG env logtype uid msg lg = write_to_logger env 0 logtype uid logger_flag_file (msg @ [10]) lg"

definition TLOG_EVERY_N :: "tlog_env \<Rightarrow> nat \<Rightarrow> int \<Rightarrow> u32 \<Rightarrow> bytes \<Rightarrow> int \<times> logger \<Rightarrow> int \<times> logger" where
  "TLOG_EVERY_N env lvl n flag msg = (\<lambda>(m, lg).
     let m = m + 1; m = (if m > n then m - n else m)
     in (m, if m = 1 then write_to_logger env lvl None 0 flag msg lg else lg))"

definition TLOG_FIRST_N :: "tlog_env \<Rightarrow> nat \<Rightarrow> int \<Rightarrow> u32 \<Rightarrow> bytes \<Rightarrow> int \<times> logger \<Rightarrow> int \<times> logger" where
  "TLOG_FIRST_N env lvl n flag msg = (\<lambda>(k, lg).
     if k < n then (k + 1, write_to_logger env lvl None 0 flag msg lg) else (k, lg))"

definition TLOG_IF :: "tlog_env \<Rightarrow> nat \<Rightarrow> bool \<Rightarrow> u32 \<Rightarrow> bytes \<Rightarrow> logger \<Rightarrow> logger" where
  "TLOG_IF env lvl condition flag msg lg = (if \<not> condition then lg else write_to_logger env lvl None 0 flag msg lg)"

definition BOOT_TLOG :: "bytes \<Rightarrow> (bytes \<times> int option) option" where
  "BOOT_TLOG msg = boot_tlog 0 0 msg"

definition RT_BOOT_TLOG :: "int \<Rightarrow> bytes \<Rightarrow> (bytes \<times> int option) option \<times> int" where
  "RT_BOOT_TLOG rt msg = (boot_tlog rt 0 msg, rt)"

definition SCREEN_TLOG :: "int \<Rightarrow> bytes \<Rightarrow> bytes option" where
  "SCREEN_TLOG rt msg = std_tlog rt msg"

definition RT_SCREEN_TLOG :: "int \<Rightarrow> bytes \<Rightarrow> bytes option \<times> int" where
  "RT_SCREEN_TLOG rt msg = (std_tlog rt msg, rt)"

section \<open>The levels\<close>

text \<open>The variants that return hand back the value the function returns; those of \<open>void\<close> functions are the plain ones.\<close>

definition FATAL_TLOG :: "tlog_env \<Rightarrow> bytes \<Rightarrow> bytes \<Rightarrow> logger \<Rightarrow> logger" where
  "FATAL_TLOG env at msg lg = write_to_logger env 2 None 0 logger_flag_file (at @ msg @ [10]) lg"

definition RT_FATAL_TLOG :: "tlog_env \<Rightarrow> 'r \<Rightarrow> bytes \<Rightarrow> bytes \<Rightarrow> logger \<Rightarrow> 'r \<times> logger" where
  "RT_FATAL_TLOG env rt at msg lg = (rt, write_to_logger env 2 None 0 logger_flag_file (at @ msg @ [10]) lg)"

definition EXIT_FATAL_TLOG :: "tlog_env \<Rightarrow> int \<Rightarrow> bytes \<Rightarrow> bytes \<Rightarrow> logger \<Rightarrow> int \<times> logger" where
  "EXIT_FATAL_TLOG env ex at msg lg = (ex, write_to_logger env 2 None 0 logger_flag_file (at @ msg @ [10]) lg)"

definition FATAL_TLOG_EVERY_N :: "tlog_env \<Rightarrow> int \<Rightarrow> bytes \<Rightarrow> bytes \<Rightarrow> int \<times> logger \<Rightarrow> int \<times> logger" where
  "FATAL_TLOG_EVERY_N env n at msg = TLOG_EVERY_N env 2 n logger_flag_file (at @ msg @ [10])"

definition FATAL_TLOG_FIRST_N :: "tlog_env \<Rightarrow> int \<Rightarrow> bytes \<Rightarrow> bytes \<Rightarrow> int \<times> logger \<Rightarrow> int \<times> logger" where
  "FATAL_TLOG_FIRST_N env n at msg = TLOG_FIRST_N env 2 n logger_flag_file (at @ msg @ [10])"

definition FATAL_TLOG_IF :: "tlog_env \<Rightarrow> bool \<Rightarrow> bytes \<Rightarrow> bytes \<Rightarrow> logger \<Rightarrow> logger" where
  "FATAL_TLOG_IF env cond at msg = TLOG_IF env 2 cond logger_flag_file (at @ msg @ [10])"

definition ERROR_TLOG :: "tlog_env \<Rightarrow> bytes \<Rightarrow> bytes \<Rightarrow> logger \<Rightarrow> logger" where
  "ERROR_TLOG env at msg lg = write_to_logger env 3 None 0 logger_flag_file (at @ msg @ [10]) lg"

definition RT_ERROR_TLOG :: "tlog_env \<Rightarrow> 'r \<Rightarrow> bytes \<Rightarrow> bytes \<Rightarrow> logger \<Rightarrow> 'r \<times> logger" where
  "RT_ERROR_TLOG env rt at msg lg = (rt, write_to_logger env 3 None 0 logger_flag_file (at @ msg @ [10]) lg)"

definition ERROR_TLOG_EVERY_N :: "tlog_env \<Rightarrow> int \<Rightarrow> bytes \<Rightarrow> bytes \<Rightarrow> int \<times> logger \<Rightarrow> int \<times> logger" where
  "ERROR_TLOG_EVERY_N env n at msg = TLOG_EVERY_N env 3 n logger_flag_file (at @ msg @ [10])"

definition ERROR_TLOG_FIRST_N :: "tlog_env \<Rightarrow> int \<Rightarrow> bytes \<Rightarrow> bytes \<Rightarrow> int \<times> logger \<Rightarrow> int \<times> logger" where
  "ERROR_TLOG_FIRST_N env n at msg = TLOG_FIRST_N env 3 n logger_flag_file (at @ msg @ [10])"

definition ERROR_TLOG_IF :: "tlog_env \<Rightarrow> bool \<Rightarrow> bytes \<Rightarrow> bytes \<Rightarrow> logger \<Rightarrow> logger" where
  "ERROR_TLOG_IF env cond at msg = TLOG_IF env 3 cond logger_flag_file (at @ msg @ [10])"

definition WARN_TLOG :: "tlog_env \<Rightarrow> bytes \<Rightarrow> logger \<Rightarrow> logger" where
  "WARN_TLOG env msg lg = write_to_logger env 4 None 0 logger_flag_file (msg @ [10]) lg"

definition RT_WARN_TLOG :: "tlog_env \<Rightarrow> 'r \<Rightarrow> bytes \<Rightarrow> logger \<Rightarrow> 'r \<times> logger" where
  "RT_WARN_TLOG env rt msg lg = (rt, write_to_logger env 4 None 0 logger_flag_file (msg @ [10]) lg)"

definition WARN_TLOG_EVERY_N :: "tlog_env \<Rightarrow> int \<Rightarrow> bytes \<Rightarrow> int \<times> logger \<Rightarrow> int \<times> logger" where
  "WARN_TLOG_EVERY_N env n msg = TLOG_EVERY_N env 4 n logger_flag_file (msg @ [10])"

definition WARN_TLOG_FIRST_N :: "tlog_env \<Rightarrow> int \<Rightarrow> bytes \<Rightarrow> int \<times> logger \<Rightarrow> int \<times> logger" where
  "WARN_TLOG_FIRST_N env n msg = TLOG_FIRST_N env 4 n logger_flag_file (msg @ [10])"

definition WARN_TLOG_IF :: "tlog_env \<Rightarrow> bool \<Rightarrow> bytes \<Rightarrow> logger \<Rightarrow> logger" where
  "WARN_TLOG_IF env cond msg = TLOG_IF env 4 cond logger_flag_file (msg @ [10])"

definition INFO_TLOG :: "tlog_env \<Rightarrow> bytes \<Rightarrow> logger \<Rightarrow> logger" where
  "INFO_TLOG env msg lg = write_to_logger env 5 None 0 logger_flag_file (msg @ [10]) lg"

definition RT_INFO_TLOG :: "tlog_env \<Rightarrow> 'r \<Rightarrow> bytes \<Rightarrow> logger \<Rightarrow> 'r \<times> logger" where
  "RT_INFO_TLOG env rt msg lg = (rt, write_to_logger env 5 None 0 logger_flag_file (msg @ [10]) lg)"

definition INFO_TLOG_EVERY_N :: "tlog_env \<Rightarrow> int \<Rightarrow> bytes \<Rightarrow> int \<times> logger \<Rightarrow> int \<times> logger" where
  "INFO_TLOG_EVERY_N env n msg = TLOG_EVERY_N env 5 n logger_flag_file (msg @ [10])"

definition INFO_TLOG_FIRST_N :: "tlog_env \<Rightarrow> int \<Rightarrow> bytes \<Rightarrow> int \<times> logger \<Rightarrow> int \<times> logger" where
  "INFO_TLOG_FIRST_N env n msg = TLOG_FIRST_N env 5 n logger_flag_file (msg @ [10])"

definition INFO_TLOG_IF :: "tlog_env \<Rightarrow> bool \<Rightarrow> bytes \<Rightarrow> logger \<Rightarrow> logger" where
  "INFO_TLOG_IF env cond msg = TLOG_IF env 5 cond logger_flag_file (msg @ [10])"

definition DEBUG_TLOG :: "tlog_env \<Rightarrow> bytes \<Rightarrow> logger \<Rightarrow> logger" where
  "DEBUG_TLOG env msg lg = write_to_logger env 6 None 0 logger_flag_file (msg @ [10]) lg"

definition RT_DEBUG_TLOG :: "tlog_env \<Rightarrow> 'r \<Rightarrow> bytes \<Rightarrow> logger \<Rightarrow> 'r \<times> logger" where
  "RT_DEBUG_TLOG env rt msg lg = (rt, write_to_logger env 6 None 0 logger_flag_file (msg @ [10]) lg)"

definition DEBUG_TLOG_EVERY_N :: "tlog_env \<Rightarrow> int \<Rightarrow> bytes \<Rightarrow> int \<times> logger \<Rightarrow> int \<times> logger" where
  "DEBUG_TLOG_EVERY_N env n msg = TLOG_EVERY_N env 6 n logger_flag_file (msg @ [10])"

definition DEBUG_TLOG_FIRST_N :: "tlog_env \<Rightarrow> int \<Rightarrow> bytes \<Rightarrow> int \<times> logger \<Rightarrow> int \<times> logger" where
  "DEBUG_TLOG_FIRST_N env n msg = TLOG_FIRST_N env 6 n logger_flag_file (msg @ [10])"

definition DEBUG_TLOG_IF :: "tlog_env \<Rightarrow> bool \<Rightarrow> bytes \<Rightarrow> logger \<Rightarrow> logger" where
  "DEBUG_TLOG_IF env cond msg = TLOG_IF env 6 cond logger_flag_file (msg @ [10])"

definition TRACE_TLOG :: "tlog_env \<Rightarrow> bytes \<Rightarrow> logger \<Rightarrow> logger" where
  "TRACE_TLOG env msg lg = write_to_logger env 7 None 0 logger_flag_file (msg @ [10]) lg"

definition RT_TRACE_TLOG :: "tlog_env \<Rightarrow> 'r \<Rightarrow> bytes \<Rightarrow> logger \<Rightarrow> 'r \<times> logger" where
  "RT_TRACE_TLOG env rt msg lg = (rt, write_to_logger env 7 None 0 logger_flag_file (msg @ [10]) lg)"

definition TRACE_TLOG_EVERY_N :: "tlog_env \<Rightarrow> int \<Rightarrow> bytes \<Rightarrow> int \<times> logger \<Rightarrow> int \<times> logger" where
  "TRACE_TLOG_EVERY_N env n msg = TLOG_EVERY_N env 7 n logger_flag_file (msg @ [10])"

definition TRACE_TLOG_FIRST_N :: "tlog_env \<Rightarrow> int \<Rightarrow> bytes \<Rightarrow> int \<times> logger \<Rightarrow> int \<times> logger" where
  "TRACE_TLOG_FIRST_N env n msg = TLOG_FIRST_N env 7 n logger_flag_file (msg @ [10])"

definition TRACE_TLOG_IF :: "tlog_env \<Rightarrow> bool \<Rightarrow> bytes \<Rightarrow> logger \<Rightarrow> logger" where
  "TRACE_TLOG_IF env cond msg = TLOG_IF env 7 cond logger_flag_file (msg @ [10])"

section \<open>Which calls write\<close>

text \<open>
  \<open>calls\<close> are the calls of one place, each with what it meets and its text: with \<open>EVERY_N\<close> the
  first call and then each \<open>n\<close>-th one after it is written, with \<open>FIRST_N\<close> the first \<open>n\<close>.
\<close>

definition write_all :: "nat \<Rightarrow> u32 \<Rightarrow> (tlog_env \<times> bytes) list \<Rightarrow> logger \<Rightarrow> logger" where
  "write_all lvl flag cs lg = foldl (\<lambda>lg (env, msg). write_to_logger env lvl None 0 flag msg lg) lg cs"

fun every_nth :: "nat \<Rightarrow> nat \<Rightarrow> 'a list \<Rightarrow> 'a list" where
  "every_nth n skip [] = []"
| "every_nth n 0 (x # xs) = x # every_nth n (n - 1) xs"
| "every_nth n (Suc k) (x # xs) = every_nth n k xs"

definition every_n_run :: "nat \<Rightarrow> int \<Rightarrow> u32 \<Rightarrow> (tlog_env \<times> bytes) list \<Rightarrow> int \<times> logger \<Rightarrow> int \<times> logger" where
  "every_n_run lvl n flag cs p = foldl (\<lambda>p (env, msg). TLOG_EVERY_N env lvl n flag msg p) p cs"

definition first_n_run :: "nat \<Rightarrow> int \<Rightarrow> u32 \<Rightarrow> (tlog_env \<times> bytes) list \<Rightarrow> int \<times> logger \<Rightarrow> int \<times> logger" where
  "first_n_run lvl n flag cs p = foldl (\<lambda>p (env, msg). TLOG_FIRST_N env lvl n flag msg p) p cs"

lemma every_n_from:
  "1 \<le> n \<Longrightarrow> 0 \<le> m \<Longrightarrow> m \<le> n \<Longrightarrow>
    snd (every_n_run lvl n flag cs (m, lg)) = write_all lvl flag (every_nth (nat n) (if m = 0 then 0 else nat (n - m)) cs) lg"
proof (induction cs arbitrary: m lg)
  case (Cons c cs)
  obtain env msg where c: "c = (env, msg)" by (cases c)
  consider (now_) "m = 0 \<or> m = n" | (skip) "0 < m" "m < n" using Cons.prems by linarith
  then show ?case
  proof cases
    case now_
    then have "TLOG_EVERY_N env lvl n flag msg (m, lg) = (1, write_to_logger env lvl None 0 flag msg lg)"
      using Cons.prems by (auto simp: TLOG_EVERY_N_def Let_def)
    moreover have "nat (n - 1) = nat n - 1" by simp
    ultimately show ?thesis using now_ Cons.IH [of 1 "write_to_logger env lvl None 0 flag msg lg"] Cons.prems
      by (auto simp: every_n_run_def write_all_def c)
  next
    case skip
    then have "TLOG_EVERY_N env lvl n flag msg (m, lg) = (m + 1, lg)" by (auto simp: TLOG_EVERY_N_def Let_def)
    moreover obtain k where k: "nat (n - m) = Suc k" "nat (n - (m + 1)) = k"
      using skip by (cases "nat (n - m)") auto
    ultimately show ?thesis using skip Cons.IH [of "m + 1" lg] by (simp add: every_n_run_def c)
  qed
qed (simp_all add: every_n_run_def write_all_def)

lemma first_n_from: "0 \<le> k \<Longrightarrow> snd (first_n_run lvl n flag cs (k, lg)) = write_all lvl flag (take (nat (n - k)) cs) lg"
proof (induction cs arbitrary: k lg)
  case (Cons c cs)
  obtain env msg where c: "c = (env, msg)" by (cases c)
  show ?case
  proof (cases "k < n")
    case True
    then obtain j where "nat (n - k) = Suc j" "nat (n - (k + 1)) = j" by (cases "nat (n - k)") auto
    then show ?thesis using True Cons.IH [of "k + 1"] Cons.prems by (simp add: first_n_run_def TLOG_FIRST_N_def write_all_def c)
  next
    case False
    then show ?thesis using Cons by (simp add: first_n_run_def TLOG_FIRST_N_def write_all_def c)
  qed
qed (simp add: first_n_run_def write_all_def)

text \<open>
  Of the calls of a place with \<open>TLOG_EVERY_N\<close> exactly the first and each \<open>n\<close>-th after it write
  their line; with \<open>TLOG_FIRST_N\<close> exactly the first \<open>n\<close>.
\<close>

theorem tlog_sampled:
  assumes "1 \<le> n"
  shows "snd (every_n_run lvl n flag cs (0, lg)) = write_all lvl flag (every_nth (nat n) 0 cs) lg \<and>
    snd (first_n_run lvl n flag cs (0, lg)) = write_all lvl flag (take (nat n) cs) lg"
  using every_n_from [of n 0] first_n_from [of 0] assms by simp

theorem tlog_sampled_witness:
  "\<forall>e lg. snd (every_n_run 4 2 1 [(e, [1]), (e, [2]), (e, [3])] (0, lg)) = write_all 4 1 [(e, [1]), (e, [3])] lg"
proof (intro allI)
  fix e lg
  show "snd (every_n_run 4 2 1 [(e, [1]), (e, [2]), (e, [3])] (0, lg)) = write_all 4 1 [(e, [1]), (e, [3])] lg"
    using tlog_sampled [of 2 4 1 "[(e, [1]), (e, [2]), (e, [3])]" lg] by (simp add: eval_nat_numeral)
qed

end
