(* ===== verification/CtrlTlog.thy ===== *)
theory CtrlTlog
  imports TlogNet
begin

unbundle bit_operations_syntax

text \<open>
  \<open>tlog/tools/svc.c\<close> and \<open>tlog/tools/ctrl_tlog.c\<close>: the table of services and their numbers, and the
  command that sends the packets which \<open>TlogNet\<close> receives, from its options to what it sends. The configuration library is a parameter:
  what it makes of the file is a list of sections, each with a name and a number.
\<close>

section \<open>The table of services\<close>

definition MAX_SVC_NAME_LEN :: nat where "MAX_SVC_NAME_LEN = 32"
definition MAX_SVC_NUM :: nat where "MAX_SVC_NUM = 1000"

record svc_gameid_map =
  svc_name :: bytes
  svc_gameid :: u32

record svc_state =
  svcinfo_enable :: bool
  cur_svcinfo_count :: nat
  cur_svcinfo_count_shadow :: nat
  sg_map :: "svc_gameid_map list"
  sg_map_shadow :: "svc_gameid_map list"

record cfg_section =
  sec_title :: "bytes option"
  sec_name :: "bytes option"
  sec_gameid :: int

datatype cfg_file = Cfg_file_error | Cfg_parse_error | Cfg_sections "cfg_section list"

text \<open>\<open>None\<close>: the message about a missing name takes its length.\<close>

definition cb_validate_svcinfo :: "cfg_section \<Rightarrow> int option" where
  "cb_validate_svcinfo sec =
     (if sec_title sec = None then Some (-1)
      else case sec_name sec of
             None \<Rightarrow> None
           | Some name \<Rightarrow>
               if length name \<ge> MAX_SVC_NAME_LEN then Some (-1)
               else if sec_gameid sec \<le> 0 then Some (-1)
               else Some 0)"

text \<open>The library calls the validation for each section it has read, and stops at the first that fails.\<close>

fun cfg_parse :: "cfg_section list \<Rightarrow> int option" where
  "cfg_parse [] = Some 0"
| "cfg_parse (sec # l) =
     (case cb_validate_svcinfo sec of None \<Rightarrow> None | Some r \<Rightarrow> if r < 0 then Some (-1) else cfg_parse l)"

definition no_svc :: svc_gameid_map where
  "no_svc = \<lparr>svc_name = [], svc_gameid = 0\<rparr>"

definition svc_of_section :: "cfg_section \<Rightarrow> svc_gameid_map" where
  "svc_of_section sec = \<lparr>svc_name = take (MAX_SVC_NAME_LEN - 1) (case sec_name sec of None \<Rightarrow> [] | Some b \<Rightarrow> b), svc_gameid = of_int (sec_gameid sec)\<rparr>"

text \<open>
  \<open>svcinfocmp\<close> orders by the difference of the numbers as signed integers; the sort is a stable
  one, which matters only for tables that are refused.
\<close>

definition svcinfo_key :: "svc_gameid_map \<Rightarrow> int" where
  "svcinfo_key e = sint (svc_gameid e)"

fun check_svcs :: "u32 \<Rightarrow> svc_gameid_map list \<Rightarrow> bool" where
  "check_svcs prev [] = True"
| "check_svcs prev (e # l) =
     (if svc_gameid e = prev then False
      else if svc_gameid e > of_nat MAX_SVC_NUM then False
      else check_svcs (svc_gameid e) l)"

text \<open>The count of the shadow table is not set back; \<open>None\<close> when the sort leaves the table.\<close>

definition load_svc_gameid_map :: "cfg_file \<Rightarrow> svc_state \<Rightarrow> (int \<times> svc_state) option" where
  "load_svc_gameid_map conf st =
     (case conf of
        Cfg_file_error \<Rightarrow> Some (-1, st)
      | Cfg_parse_error \<Rightarrow> Some (-1, st)
      | Cfg_sections secs \<Rightarrow>
          case cfg_parse secs of
            None \<Rightarrow> None
          | Some r \<Rightarrow>
              if r < 0 then Some (-1, st)
              else
                let read = map svc_of_section (take MAX_SVC_NUM secs);
                    count = cur_svcinfo_count_shadow st + length read
                in if count > MAX_SVC_NUM then None
                   else
                     let rows = read @ replicate (MAX_SVC_NUM - length read) no_svc;
                         rows = sort_key svcinfo_key (take count rows) @ drop count rows;
                         st = st\<lparr>cur_svcinfo_count_shadow := count, sg_map_shadow := rows\<rparr>
                     in if \<not> check_svcs 0 (take count rows) then Some (-1, st)
                        else Some (0, st\<lparr>sg_map := rows, cur_svcinfo_count := count, svcinfo_enable := True\<rparr>))"

definition get_cur_svcinfo_count :: "svc_state \<Rightarrow> nat" where
  "get_cur_svcinfo_count st = cur_svcinfo_count st"

definition get_svc_gameid :: "bytes \<Rightarrow> svc_state \<Rightarrow> u32" where
  "get_svc_gameid svc st =
     (if \<not> svcinfo_enable st \<or> cur_svcinfo_count st = 0 \<or> length svc > MAX_SVC_NAME_LEN then 0
      else case find (\<lambda>e. svc_name e = svc) (take (cur_svcinfo_count st) (sg_map st)) of
             None \<Rightarrow> 0
           | Some e \<Rightarrow> svc_gameid e)"

section \<open>The packets\<close>

record ctrl_args =
  arg_uid :: u32
  arg_life_time :: int
  arg_ctrl :: "bytes option"
  arg_svcname :: "bytes option"
  arg_ip :: "bytes option"
  arg_port :: u16
  arg_rate_limit :: int

definition htonl :: "u32 \<Rightarrow> u32" where
  "htonl v = ntohl v"

definition PKG_HEAD :: nat where "PKG_HEAD = 20"

definition clear_head :: "memory \<Rightarrow> memory" where
  "clear_head m = mem_write m 0 (replicate PKG_HEAD 0)"

definition finish_head :: "u32 \<Rightarrow> nat \<Rightarrow> memory \<Rightarrow> memory" where
  "finish_head cmd len m = store32 (store32 m 8 (htonl cmd)) 0 (htonl (of_nat len))"

text \<open>The send buffer keeps its content between calls; the second value is the packet that is sent.\<close>

definition ctrl_set_trace_uid :: "ctrl_args \<Rightarrow> memory \<Rightarrow> memory \<times> bytes option" where
  "ctrl_set_trace_uid args m =
     (if arg_uid args < 50000 then (m, None)
      else if arg_life_time args < MIN_TRACE_TIME \<or> arg_life_time args > MAX_TRACE_TIME then (m, None)
      else
        let m = clear_head m;
            m = store32 m 20 (htonl 1);
            m = store32 m 24 (htonl (arg_uid args));
            m = store32 m 28 (htonl (of_int (arg_life_time args)));
            len = PKG_HEAD + 4 + 1 * 8;
            m = finish_head lc_set_trace_uid len m
        in (m, Some (mem_read m 0 len)))"

definition ctrl_set_trace_addr :: "(bytes \<Rightarrow> u32 option) \<Rightarrow> ctrl_args \<Rightarrow> memory \<Rightarrow> memory \<times> bytes option" where
  "ctrl_set_trace_addr pton args m =
     (case arg_ip args of
        None \<Rightarrow> (m, None)
      | Some a \<Rightarrow>
          if arg_port args = 0 then (m, None)
          else if pton a = None then (m, None)
          else
            let m = clear_head m;
                m = mem_write m 20 (take 15 a @ [0]);
                m = mem_write m 36 [ucast (drop_bit 8 (arg_port args)), ucast (arg_port args)];
                len = PKG_HEAD + 18;
                m = finish_head lc_set_trace_addr len m
            in (m, Some (mem_read m 0 len)))"

definition ctrl_set_rate_limit :: "ctrl_args \<Rightarrow> memory \<Rightarrow> memory \<times> bytes option" where
  "ctrl_set_rate_limit args m =
     (let m = clear_head m;
          m = store32 m 20 (htonl (of_int (arg_rate_limit args)));
          len = PKG_HEAD + 4;
          m = finish_head lc_set_rate_limit len m
      in (m, Some (mem_read m 0 len)))"

text \<open>Where the packets of a service go: the port to which its processes are bound.\<close>

record ctrl_sys =
  cs_pton :: "bytes \<Rightarrow> u32 option"
  cs_ntop :: "u32 \<Rightarrow> bytes option"
  cs_siocgifaddr :: "string \<Rightarrow> u32 option"
  cs_ip_socket :: int
  cs_socket :: int
  cs_multicast_if :: "int \<Rightarrow> u32 \<Rightarrow> int"

definition make_sockaddr :: "ctrl_sys \<Rightarrow> bytes \<Rightarrow> u16 \<Rightarrow> (u32 \<times> u16) option" where
  "make_sockaddr sys mip prt = map_option (\<lambda>a. (a, htons prt)) (cs_pton sys mip)"

definition set_tlog_mcast_if :: "ctrl_sys \<Rightarrow> int \<Rightarrow> string \<Rightarrow> int" where
  "set_tlog_mcast_if sys fd ethx =
     (if fd < 0 then -1
      else case cs_siocgifaddr sys (take 16 ethx) of None \<Rightarrow> -1 | Some inaddr \<Rightarrow> cs_multicast_if sys fd inaddr)"

definition get_local_eth_ip :: "ctrl_sys \<Rightarrow> string \<Rightarrow> int \<times> u32 option" where
  "get_local_eth_ip sys eth =
     (if cs_ip_socket sys = -1 then (-1, None)
      else case cs_siocgifaddr sys (take 15 eth) of None \<Rightarrow> (-1, None) | Some a \<Rightarrow> (0, Some a))"

definition get_local_eth_ipstr :: "ctrl_sys \<Rightarrow> string \<Rightarrow> bytes option" where
  "get_local_eth_ipstr sys eth = (case get_local_eth_ip sys eth of (_, None) \<Rightarrow> None | (_, Some a) \<Rightarrow> cs_ntop sys a)"

text \<open>The descriptor, the address, and whether packets go out through the interface that was chosen.\<close>

definition make_mcast_sock :: "ctrl_sys \<Rightarrow> u16 \<Rightarrow> (int \<times> (u32 \<times> u16) \<times> int) option" where
  "make_mcast_sock sys prt =
     (case get_local_eth_ipstr sys ''eth0'' of
        None \<Rightarrow> None
      | Some local_ip \<Rightarrow>
          let fd = cs_socket sys; out = set_tlog_mcast_if sys fd (server_eth local_ip) in
          case make_sockaddr sys (ascii ''239.0.0.100'') prt of
            None \<Rightarrow> None
          | Some addr \<Rightarrow> if fd < 0 then None else Some (fd, addr, out))"

definition ctrl_opts :: "bytes list" where
  "ctrl_opts = [ascii ''set_trace_uid'', ascii ''unset_trace_uid'', ascii ''set_trace_addr'', ascii ''set_rate_limit'']"

text \<open>\<open>None\<close>: no operation was named, and \<open>strcmp\<close> gets a null pointer.\<close>

definition run_ctrl :: "(bytes \<Rightarrow> u32 option) \<Rightarrow> ctrl_args \<Rightarrow> memory \<Rightarrow> (memory \<times> bytes option) option" where
  "run_ctrl pton args m =
     map_option (\<lambda>name.
       if name = ctrl_opts ! 0 then ctrl_set_trace_uid args m
       else if name = ctrl_opts ! 1 then (m, None)
       else if name = ctrl_opts ! 2 then ctrl_set_trace_addr pton args m
       else if name = ctrl_opts ! 3 then ctrl_set_rate_limit args m
       else (m, None)) (arg_ctrl args)"

section \<open>The command\<close>

definition no_args :: ctrl_args where
  "no_args = \<lparr>arg_uid = 0, arg_life_time = 0, arg_ctrl = None, arg_svcname = None, arg_ip = None, arg_port = 0, arg_rate_limit = 0\<rparr>"

text \<open>
  An option as \<open>getopt_long\<close> reports it, by its letter; the long forms of \<open>u\<close>, \<open>l\<close>, \<open>i\<close>, \<open>p\<close> and \<open>r\<close>
  come without a value unless it is attached to them. \<open>None\<close>: a null pointer is read.
\<close>

definition set_arg :: "ctrl_args \<Rightarrow> char \<times> bytes option \<Rightarrow> ctrl_args option" where
  "set_arg args opt =
     (case opt of (c, optarg) \<Rightarrow>
        if c = CHR ''s'' then map_option (\<lambda>v. args\<lparr>arg_svcname := Some v\<rparr>) optarg
        else if c = CHR ''c'' then map_option (\<lambda>v. args\<lparr>arg_ctrl := Some v\<rparr>) optarg
        else if c = CHR ''t'' then map_option (\<lambda>_. args) optarg
        else if c = CHR ''u'' then map_option (\<lambda>v. args\<lparr>arg_uid := of_int (atoi v)\<rparr>) optarg
        else if c = CHR ''l'' then map_option (\<lambda>v. args\<lparr>arg_life_time := atoi v\<rparr>) optarg
        else if c = CHR ''i'' then map_option (\<lambda>v. args\<lparr>arg_ip := Some v\<rparr>) optarg
        else if c = CHR ''p'' then map_option (\<lambda>v. args\<lparr>arg_port := of_int (atoi v)\<rparr>) optarg
        else if c = CHR ''r'' then map_option (\<lambda>v. args\<lparr>arg_rate_limit := atoi v\<rparr>) optarg
        else Some args)"

fun set_args :: "ctrl_args \<Rightarrow> (char \<times> bytes option) list \<Rightarrow> ctrl_args option" where
  "set_args args [] = Some args"
| "set_args args (opt # l) = (case set_arg args opt of None \<Rightarrow> None | Some args \<Rightarrow> set_args args l)"

text \<open>\<open>get_svc_gameid\<close> with a name that may be missing.\<close>

definition gameid_of :: "bytes option \<Rightarrow> svc_state \<Rightarrow> u32 option" where
  "gameid_of svc st =
     (case svc of
        Some name \<Rightarrow> Some (get_svc_gameid name st)
      | None \<Rightarrow> if \<not> svcinfo_enable st \<or> cur_svcinfo_count st = 0 then Some 0 else None)"

text \<open>\<open>main\<close>: the exit code, and the address and packet that were sent.\<close>

definition ctrl_main :: "cfg_file \<Rightarrow> ctrl_sys \<Rightarrow> nat \<Rightarrow> (char \<times> bytes option) list \<Rightarrow> svc_state \<Rightarrow> (int \<times> ((u32 \<times> u16) \<times> bytes) option) option" where
  "ctrl_main conf sys argc opts st =
     (if argc = 1 then Some (0, None)
      else do {
        (r, st) \<leftarrow> load_svc_gameid_map conf st;
        if r = -1 then Some (1, None)
        else do {
          args \<leftarrow> set_args no_args opts;
          g \<leftarrow> gameid_of (arg_svcname args) st;
          let gameid = sint g in
          if gameid \<le> 0 \<or> gameid > int MAX_SVC_NUM then Some (1, None)
          else case make_mcast_sock sys (of_int (BASE_SINK_BIND_PORT + gameid)) of
                 None \<Rightarrow> Some (1, None)
               | Some (fd, addr, out) \<Rightarrow> do {
                   (m, pk) \<leftarrow> run_ctrl (cs_pton sys) args (\<lambda>_. 0);
                   Some (0, map_option (Pair addr) pk)
                 }
        }
      })"

end
