(* ===== verification/CtrlProps.thy ===== *)
theory CtrlProps
  imports CtrlTlog UdpProps "HOL-Library.Multiset"
begin

unbundle bit_operations_syntax

text \<open>
  Properties of \<open>tlog/tools\<close>: the packets of the command do at the receiver what its arguments say;
  the table of services is loaded once.
\<close>

section \<open>From the command to the sender of a service\<close>

lemma le32_htonl: "le32 (htonl v) = be32 v"
  by (simp add: htonl_def ntohl_def le32_of_le32 be32_def)

lemma trace_packet_one:
  "trace_packet 0 0 0 [(u, l)] = be32 32 @ be32 0 @ be32 lc_set_trace_uid @ be32 0 @ be32 0 @ be32 1 @ be32 u @ be32 l"
  by (simp add: trace_packet_def trace_words_def)

text \<open>A buffer that is written piece by piece from its start.\<close>

lemma mem_read_split: "mem_read m p (a + b) = mem_read m p a @ mem_read m (p + a) b"
  by (rule nth_equalityI) (auto simp: mem_read_def nth_append)

lemma mem_read_cleared: "p + n \<le> 20 \<Longrightarrow> mem_read (clear_head m) p n = replicate n 0"
  by (rule nth_equalityI) (auto simp: mem_read_def clear_head_def mem_write_def PKG_HEAD_def)

lemma be32_0: "be32 0 = replicate 4 0"
  by (simp add: be32_def le32_def eval_nat_numeral)

lemma store_htonl_read: "mem_read (store32 m p (htonl v)) p 4 = be32 v"
  by (simp add: store32_def le32_htonl)

lemma ctrl_packet_read:
  assumes "20 \<le> n" "mem_read m 0 20 = replicate 20 0" "mem_read m 20 (n - 20) = b"
  shows "mem_read (finish_head cmd len m) 0 n = be32 (of_nat len) @ be32 0 @ be32 cmd @ be32 0 @ be32 0 @ b"
proof -
  let ?f = "finish_head cmd len m"
  have z: "mem_read m 4 4 = be32 0" "mem_read m 12 4 = be32 0" "mem_read m 16 4 = be32 0"
    using assms(2) unfolding mem_read_def be32_0 by (auto simp: list_eq_iff_nth_eq)
  have "mem_read ?f 0 n = mem_read ?f 0 4 @ mem_read ?f 4 4 @ mem_read ?f 8 4 @ mem_read ?f 12 4 @ mem_read ?f 16 4 @ mem_read ?f 20 (n - 20)"
  proof -
    have n: "n = 4 + (4 + (4 + (4 + (4 + (n - 20)))))" using assms(1) by simp
    show ?thesis by (subst n) (simp only: mem_read_split add_0 append_assoc, simp)
  qed
  moreover have "mem_read ?f 0 4 = be32 (of_nat len)" by (simp add: finish_head_def store_htonl_read)
  moreover have "mem_read ?f 8 4 = be32 cmd" by (simp add: finish_head_def mem_read_store32_other store_htonl_read)
  moreover have "mem_read ?f 4 4 = be32 0" "mem_read ?f 12 4 = be32 0" "mem_read ?f 16 4 = be32 0" "mem_read ?f 20 (n - 20) = b"
    using z assms(3) by (simp_all add: finish_head_def mem_read_store32_other)
  ultimately show ?thesis by simp
qed

lemma ctrl_uid_packet:
  assumes "50000 \<le> arg_uid args" "MIN_TRACE_TIME \<le> arg_life_time args" "arg_life_time args \<le> MAX_TRACE_TIME"
  shows "snd (ctrl_set_trace_uid args m) = Some (trace_packet 0 0 0 [(arg_uid args, of_int (arg_life_time args))])"
proof -
  let ?m = "store32 (store32 (store32 (clear_head m) 20 (htonl 1)) 24 (htonl (arg_uid args))) 28 (htonl (of_int (arg_life_time args)))"
  have "mem_read ?m 0 20 = replicate 20 0" by (simp add: mem_read_store32_other mem_read_cleared)
  moreover have "mem_read ?m 20 12 = be32 1 @ be32 (arg_uid args) @ be32 (of_int (arg_life_time args))"
  proof -
    have "mem_read ?m 20 (4 + (4 + 4)) = mem_read ?m 20 4 @ mem_read ?m 24 4 @ mem_read ?m 28 4"
      by (simp only: mem_read_split) simp
    then show ?thesis by (simp add: mem_read_store32_other store_htonl_read)
  qed
  ultimately have "mem_read (finish_head lc_set_trace_uid 32 ?m) 0 32 =
      be32 (of_nat 32) @ be32 0 @ be32 lc_set_trace_uid @ be32 0 @ be32 0 @ be32 1 @ be32 (arg_uid args) @ be32 (of_int (arg_life_time args))"
    using ctrl_packet_read [of 32 ?m] by simp
  then show ?thesis using assms
    by (simp add: ctrl_set_trace_uid_def Let_def PKG_HEAD_def trace_packet_one not_less)
qed

lemma sint_of_small: "0 \<le> l \<Longrightarrow> l < 2 ^ 31 \<Longrightarrow> sint (of_int l :: u32) = l"
  by (simp add: sint_sbintrunc' signed_take_bit_int_eq_self)

lemma ctrl_packet_traces:
  assumes "arg_ctrl args = Some (ascii ''set_trace_uid'')" "50000 \<le> arg_uid args" "MIN_TRACE_TIME \<le> arg_life_time args" "arg_life_time args \<le> MAX_TRACE_TIME"
    and "0 \<le> now" "now + MAX_TRACE_TIME < 2 ^ 31" "now \<le> t" "u \<noteq> 0" "0 < free_slots now (trace_uid_list s)"
  shows "\<exists>m' pk. run_ctrl pton args m = Some (m', Some pk) \<and>
    (is_traced_uid t u (proc_logger_pkg now pk s) = 1 \<longleftrightarrow> is_traced_uid t u s = 1 \<or> u = arg_uid args \<and> t \<le> now + arg_life_time args)"
proof -
  let ?ps = "[(arg_uid args, of_int (arg_life_time args) :: u32)]"
  have l: "sint (of_int (arg_life_time args) :: u32) = arg_life_time args"
    using assms(3,4) by (intro sint_of_small) (simp_all add: MIN_TRACE_TIME_def MAX_TRACE_TIME_def)
  have "run_ctrl pton args m = Some (fst (ctrl_set_trace_uid args m), Some (trace_packet 0 0 0 ?ps))"
    using ctrl_uid_packet [OF assms(2-4), of m] assms(1) by (simp add: run_ctrl_def ctrl_opts_def prod_eq_iff)
  moreover have "trace_uid_list (proc_logger_pkg now (trace_packet 0 0 0 ?ps) s) = foldl (trace_pair now) (trace_uid_list s) ?ps"
    by (rule trace_packet_list) simp_all
  moreover have "traced_in t u (foldl (trace_pair now) (trace_uid_list s) ?ps) \<longleftrightarrow>
      traced_in t u (trace_uid_list s) \<or> (\<exists>l. (u, l) \<in> set ?ps \<and> pair_ok (u, l) \<and> t \<le> now + sint l)"
    using assms(9) by (intro trace_pairs_traced [OF assms(5-8)]) simp
  ultimately show ?thesis using assms(2-4,8) l unfolding is_traced_uid_iff by (auto simp: pair_ok_def)
qed

text \<open>
  A limit within the bounds that is set by the command holds from the next second on in which
  a line is sent, unless it is the limit in force and another change is pending.
\<close>

theorem ctrl_rate_applies:
  assumes "arg_ctrl args = Some (ascii ''set_rate_limit'')" "MIN_RATE_LIMIT \<le> arg_rate_limit args" "arg_rate_limit args \<le> MAX_RATE_LIMIT"
    and "arg_rate_limit args \<noteq> limit s \<or> chg_limit s = 0" "t \<noteq> last_rate_time s"
  shows "\<exists>m' pk. run_ctrl pton args m = Some (m', Some pk) \<and>
    limit (refill t (proc_logger_pkg now pk s)) = arg_rate_limit args \<and> token (refill t (proc_logger_pkg now pk s)) = arg_rate_limit args"
proof -
  define L where "L = (of_int (arg_rate_limit args) :: u32)"
  define pk where "pk = concat (map be32 [24, 0, lc_set_rate_limit, 0, 0, L])"
  have sent: "run_ctrl pton args m = Some (fst (ctrl_set_rate_limit args m), Some pk)"
  proof -
    let ?m = "store32 (clear_head m) 20 (htonl L)"
    have "mem_read ?m 0 20 = replicate 20 0" by (simp add: mem_read_store32_other mem_read_cleared)
    then have "mem_read (finish_head lc_set_rate_limit 24 ?m) 0 24 = pk"
      using ctrl_packet_read [of 24 ?m "be32 L" lc_set_rate_limit 24] by (simp add: store_htonl_read pk_def)
    then show ?thesis using assms(1) by (simp add: run_ctrl_def ctrl_opts_def ascii_def ctrl_set_rate_limit_def Let_def PKG_HEAD_def L_def)
  qed
  have l: "sint L = arg_rate_limit args"
    using assms(2,3) unfolding L_def by (intro sint_of_small) (simp_all add: MIN_RATE_LIMIT_def MAX_RATE_LIMIT_def)
  define h where "h = to_host 8 (to_host 0 (mem_write (recvbuf s) 0 pk))"
  have "raw_words (mem_write (recvbuf s) 0 pk) 0 [24, 0, lc_set_rate_limit, 0, 0, L]" unfolding pk_def by (rule raw_words_written)
  then have h: "load32 h 0 = 24" "load32 h 8 = lc_set_rate_limit" "load32 (to_host 20 h) 20 = L"
    unfolding h_def by (simp_all add: raw_words_Cons load_host load_host_other)
  have "length pk = 24" by (simp add: pk_def)
  then have "proc_logger_pkg now pk s = snd (do_set_rate_limit (s\<lparr>recvbuf := h\<rparr>))"
    unfolding proc_logger_pkg_def Let_def h_def [symmetric]
    by (simp add: h lc_set_trace_uid_def lc_unset_trace_uid_def lc_set_trace_addr_def lc_set_rate_limit_def)
  also have "\<dots> = (if arg_rate_limit args = limit s then s\<lparr>recvbuf := to_host 20 h\<rparr> else s\<lparr>recvbuf := to_host 20 h, chg_limit := arg_rate_limit args\<rparr>)"
    using assms(2,3) unfolding do_set_rate_limit_def Let_def by (simp add: h(3) l)
  finally show ?thesis using sent assms(2,4,5) by (auto simp: refill_def Let_def MIN_RATE_LIMIT_def)
qed

definition rate_args :: ctrl_args where
  "rate_args = no_args\<lparr>arg_ctrl := Some (ascii ''set_rate_limit''), arg_rate_limit := 4096\<rparr>"

theorem ctrl_rate_applies_witness:
  "\<exists>m' pk. run_ctrl (\<lambda>_. None) rate_args (\<lambda>_. 0) = Some (m', Some pk) \<and> token (refill 9 (proc_logger_pkg 8 pk idle_sink)) = 4096"
  using ctrl_rate_applies [of rate_args idle_sink 9 "\<lambda>_. None" "\<lambda>_. 0" 8]
  by (auto simp: rate_args_def no_args_def MIN_RATE_LIMIT_def MAX_RATE_LIMIT_def idle_sink_def)

section \<open>The table of services\<close>

text \<open>What a good file holds: at most a thousand sections, with names and numbers that differ.\<close>

definition good_conf :: "cfg_section list \<Rightarrow> bool" where
  "good_conf secs \<longleftrightarrow> length secs \<le> MAX_SVC_NUM \<and> distinct (map sec_gameid secs) \<and> distinct (map sec_name secs) \<and>
     (\<forall>sec \<in> set secs. sec_title sec \<noteq> None \<and> (\<exists>b. sec_name sec = Some b \<and> length b < MAX_SVC_NAME_LEN) \<and>
        1 \<le> sec_gameid sec \<and> sec_gameid sec \<le> int MAX_SVC_NUM)"

lemma good_section: "good_conf secs \<Longrightarrow> sec \<in> set secs \<Longrightarrow> \<exists>b. sec_name sec = Some b \<and> length b < MAX_SVC_NAME_LEN"
  by (simp add: good_conf_def)

lemma cfg_parse_good: "good_conf secs \<Longrightarrow> cfg_parse secs = Some 0"
proof -
  have "(\<forall>sec \<in> set secs. cb_validate_svcinfo sec = Some 0) \<Longrightarrow> cfg_parse secs = Some 0" by (induction secs) auto
  then show "good_conf secs \<Longrightarrow> cfg_parse secs = Some 0" by (fastforce simp: good_conf_def cb_validate_svcinfo_def)
qed

lemma svc_key: "0 \<le> g \<Longrightarrow> g \<le> 1000 \<Longrightarrow> sint (of_int g :: u32) = g"
  by (rule sint_of_small) simp_all

lemma check_svcs_sorted:
  "sorted_wrt (<) (map svcinfo_key l) \<Longrightarrow> (\<forall>e \<in> set l. sint prev < svcinfo_key e \<and> svc_gameid e \<le> 1000) \<Longrightarrow> check_svcs prev l"
proof (induction l arbitrary: prev)
  case (Cons e l)
  have "svc_gameid e \<noteq> prev" "\<not> svc_gameid e > of_nat MAX_SVC_NUM"
    using Cons.prems(2) by (auto simp: svcinfo_key_def MAX_SVC_NUM_def not_less)
  moreover have "check_svcs (svc_gameid e) l" using Cons by (intro Cons.IH) (auto simp: svcinfo_key_def)
  ultimately show ?case by simp
qed simp

lemma good_rows:
  assumes "good_conf secs"
  defines "rows \<equiv> map svc_of_section secs"
  shows "check_svcs 0 (sort_key svcinfo_key rows)" and "distinct (map svc_name rows)" and "map svc_name rows = map (the \<circ> sec_name) secs"
    and "map svc_gameid rows = map (of_int \<circ> sec_gameid) secs"
proof -
  have g: "1 \<le> sec_gameid sec" "sec_gameid sec \<le> 1000" "\<exists>b. sec_name sec = Some b \<and> length b < 32" if "sec \<in> set secs" for sec
    using assms(1) that by (auto simp: good_conf_def MAX_SVC_NUM_def MAX_SVC_NAME_LEN_def)
  have k: "svcinfo_key (svc_of_section sec) = sec_gameid sec" "svc_gameid (svc_of_section sec) \<le> 1000" if "sec \<in> set secs" for sec
  proof -
    show "svcinfo_key (svc_of_section sec) = sec_gameid sec" using g [OF that] svc_key by (simp add: svcinfo_key_def svc_of_section_def)
    have "uint (of_int (sec_gameid sec) :: u32) = sec_gameid sec" using g [OF that] by (simp add: unsigned_of_int take_bit_int_eq_self)
    then show "svc_gameid (svc_of_section sec) \<le> 1000" using g [OF that] by (simp add: svc_of_section_def word_le_def)
  qed
  have "map svcinfo_key rows = map sec_gameid secs" unfolding rows_def by (simp add: k)
  then have d: "distinct (map svcinfo_key rows)" using assms(1) by (simp add: good_conf_def)
  have "mset (map svcinfo_key (sort_key svcinfo_key rows)) = mset (map svcinfo_key rows)" by (simp only: mset_map mset_sort)
  then have "distinct (map svcinfo_key (sort_key svcinfo_key rows))" using d by (metis mset_eq_imp_distinct_iff)
  then have "sorted_wrt (<) (map svcinfo_key (sort_key svcinfo_key rows))"
    using strict_sorted_iff sorted_sort_key by blast
  then show "check_svcs 0 (sort_key svcinfo_key rows)"
    using k by (intro check_svcs_sorted) (auto simp: rows_def dest: g(1))
  have "the (sec_name sec) = svc_name (svc_of_section sec)" if "sec \<in> set secs" for sec
    using g(3) [OF that] by (auto simp: svc_of_section_def MAX_SVC_NAME_LEN_def)
  then show n: "map svc_name rows = map (the \<circ> sec_name) secs" by (simp add: rows_def)
  have "inj_on (the \<circ> sec_name) (set secs)"
  proof (rule inj_onI)
    fix x y assume xy: "x \<in> set secs" "y \<in> set secs" "(the \<circ> sec_name) x = (the \<circ> sec_name) y"
    then have "sec_name x = sec_name y" using g(3) [OF xy(1)] g(3) [OF xy(2)] by auto
    then show "x = y" using assms(1) xy(1,2) by (auto simp: good_conf_def distinct_map dest: inj_onD)
  qed
  then show "distinct (map svc_name rows)" using assms(1) unfolding n by (simp add: distinct_map good_conf_def)
  show "map svc_gameid rows = map (of_int \<circ> sec_gameid) secs" by (simp add: rows_def svc_of_section_def)
qed

definition no_svcs :: svc_state where
  "no_svcs = \<lparr>svcinfo_enable = False, cur_svcinfo_count = 0, cur_svcinfo_count_shadow = 0, sg_map = replicate 1000 no_svc, sg_map_shadow = replicate 1000 no_svc\<rparr>"

lemma find_distinct: "distinct (map f l) \<Longrightarrow> e \<in> set l \<Longrightarrow> find (\<lambda>x. f x = f e) l = Some e"
  by (induction l) (auto simp: image_iff)

lemma load_good:
  assumes "good_conf secs" "cur_svcinfo_count_shadow st = 0"
  shows "\<exists>st'. load_svc_gameid_map (Cfg_sections secs) st = Some (0, st') \<and> svcinfo_enable st' \<and> cur_svcinfo_count st' = length secs \<and>
    cur_svcinfo_count_shadow st' = length secs \<and> take (length secs) (sg_map st') = sort_key svcinfo_key (map svc_of_section secs)"
proof -
  have n: "length secs \<le> MAX_SVC_NUM" using assms(1) by (simp add: good_conf_def)
  then show ?thesis using assms(2) cfg_parse_good [OF assms(1)] good_rows(1) [OF assms(1)]
    by (simp add: load_svc_gameid_map_def Let_def)
qed

text \<open>
  A good file that is loaded first makes each service known by its name under its number, and
  no other name known.
\<close>

theorem svc_names_known:
  assumes "good_conf secs"
  shows "\<exists>st. load_svc_gameid_map (Cfg_sections secs) no_svcs = Some (0, st) \<and>
    (\<forall>sec \<in> set secs. get_svc_gameid (the (sec_name sec)) st = of_int (sec_gameid sec)) \<and>
    (\<forall>b. Some b \<notin> sec_name ` set secs \<longrightarrow> get_svc_gameid b st = 0)"
proof -
  let ?rows = "map svc_of_section secs"
  obtain st where st: "load_svc_gameid_map (Cfg_sections secs) no_svcs = Some (0, st)" "svcinfo_enable st" "cur_svcinfo_count st = length secs"
    "take (length secs) (sg_map st) = sort_key svcinfo_key ?rows" using load_good [OF assms, of no_svcs] by (auto simp: no_svcs_def)
  have nm: "sec_name sec = Some (svc_name (svc_of_section sec))" "length (svc_name (svc_of_section sec)) \<le> MAX_SVC_NAME_LEN" if "sec \<in> set secs" for sec
  proof -
    from good_section [OF assms that] obtain b where "sec_name sec = Some b" "length b < MAX_SVC_NAME_LEN" by blast
    then show "sec_name sec = Some (svc_name (svc_of_section sec))" "length (svc_name (svc_of_section sec)) \<le> MAX_SVC_NAME_LEN"
      by (simp_all add: svc_of_section_def MAX_SVC_NAME_LEN_def)
  qed
  have "mset (map svc_name (sort_key svcinfo_key ?rows)) = mset (map svc_name ?rows)" by (simp only: mset_map mset_sort)
  then have d: "distinct (map svc_name (sort_key svcinfo_key ?rows))" using good_rows(2) [OF assms] by (metis mset_eq_imp_distinct_iff)
  have "get_svc_gameid (the (sec_name sec)) st = of_int (sec_gameid sec)" if s: "sec \<in> set secs" for sec
  proof -
    have "find (\<lambda>e. svc_name e = svc_name (svc_of_section sec)) (sort_key svcinfo_key ?rows) = Some (svc_of_section sec)"
      using find_distinct [OF d] s by simp
    moreover have "cur_svcinfo_count st \<noteq> 0" using s st(3) by auto
    moreover have "svc_gameid (svc_of_section sec) = of_int (sec_gameid sec)" by (simp add: svc_of_section_def)
    ultimately show ?thesis using nm(2) [OF s] st(2-4) unfolding nm(1) [OF s] option.sel by (simp add: get_svc_gameid_def)
  qed
  moreover have "get_svc_gameid b st = 0" if "Some b \<notin> sec_name ` set secs" for b
  proof -
    have "find (\<lambda>e. svc_name e = b) (sort_key svcinfo_key ?rows) = None" using that nm(1) by (force simp: find_None_iff)
    then show ?thesis using st by (simp add: get_svc_gameid_def)
  qed
  ultimately show ?thesis using st(1) by blast
qed

definition one_service :: "cfg_section list" where
  "one_service = [\<lparr>sec_title = Some [97], sec_name = Some [98], sec_gameid = 7\<rparr>]"

lemma one_service_good: "good_conf one_service"
  by (simp add: good_conf_def one_service_def MAX_SVC_NUM_def MAX_SVC_NAME_LEN_def)

theorem svc_names_known_witness:
  "\<exists>st. load_svc_gameid_map (Cfg_sections one_service) no_svcs = Some (0, st) \<and> get_svc_gameid [98] st = 7"
  using svc_names_known [OF one_service_good] by (auto simp: one_service_def)

lemma sort_key_least:
  assumes "x \<in> set l" "\<forall>e \<in> set l. f x \<le> f e"
  shows "\<exists>e k. sort_key f l = e # k \<and> f e = f x"
proof -
  obtain e k where ek: "sort_key f l = e # k" using assms(1) by (metis list.exhaust set_empty2 set_sort empty_iff)
  then have "x \<in> set (e # k)" "e \<in> set l" using assms(1) set_sort [of f l] by auto
  moreover have "sorted (map f (e # k))" using ek sorted_sort_key [of f l] by simp
  ultimately have "f e \<le> f x" by auto
  then show ?thesis using ek assms(2) \<open>e \<in> set l\<close> by force
qed

lemma reload_fails:
  assumes "good_conf secs'" "0 < cur_svcinfo_count_shadow st" "cur_svcinfo_count_shadow st + length secs' \<le> MAX_SVC_NUM"
  shows "\<exists>st'. load_svc_gameid_map (Cfg_sections secs') st = Some (-1, st') \<and> sg_map st' = sg_map st"
proof -
  let ?c = "cur_svcinfo_count_shadow st + length secs'"
  let ?rows = "take ?c (map svc_of_section secs' @ replicate (MAX_SVC_NUM - length secs') no_svc)"
  have r: "?rows = map svc_of_section secs' @ replicate (cur_svcinfo_count_shadow st) no_svc" using assms(3) by simp
  have "0 \<le> svcinfo_key e" if "e \<in> set ?rows" for e
  proof -
    have "e = no_svc \<or> (\<exists>sec \<in> set secs'. e = svc_of_section sec)" using that unfolding r by auto
    then show ?thesis using assms(1) svc_key by (auto simp: no_svc_def svcinfo_key_def svc_of_section_def good_conf_def MAX_SVC_NUM_def)
  qed
  moreover have "no_svc \<in> set ?rows" using assms(2) unfolding r by simp
  ultimately have "\<exists>e l. sort_key svcinfo_key ?rows = e # l \<and> svcinfo_key e = 0"
    using sort_key_least [of no_svc ?rows svcinfo_key] by (simp add: no_svc_def svcinfo_key_def)
  then have "\<not> check_svcs 0 (sort_key svcinfo_key ?rows)" by (auto simp: svcinfo_key_def signed_eq_0_iff)
  then show ?thesis using cfg_parse_good [OF assms(1)] assms(1,3)
    by (simp add: load_svc_gameid_map_def Let_def good_conf_def)
qed

text \<open>
  C38: the table can be loaded only once: the count of the rows read is not set back, so when a
  file is loaded again rows without a service are sorted to the front, and their number 0 is
  taken for a number that occurs twice.
\<close>

theorem svc_reload_fails:
  assumes "good_conf secs" "secs \<noteq> []" "good_conf secs'" "length secs + length secs' \<le> MAX_SVC_NUM"
  shows "\<exists>st st'. load_svc_gameid_map (Cfg_sections secs) no_svcs = Some (0, st) \<and>
    load_svc_gameid_map (Cfg_sections secs') st = Some (-1, st') \<and> sg_map st' = sg_map st"
proof -
  obtain st where st: "load_svc_gameid_map (Cfg_sections secs) no_svcs = Some (0, st)" "cur_svcinfo_count_shadow st = length secs"
    using load_good [OF assms(1), of no_svcs] by (auto simp: no_svcs_def)
  then show ?thesis using reload_fails [OF assms(3), of st] assms(2,4) by auto
qed

theorem svc_reload_fails_witness:
  "\<exists>st st'. load_svc_gameid_map (Cfg_sections one_service) no_svcs = Some (0, st) \<and> load_svc_gameid_map (Cfg_sections one_service) st = Some (-1, st')"
  using svc_reload_fails [OF one_service_good _ one_service_good] by (auto simp: one_service_def MAX_SVC_NUM_def)

section \<open>The command\<close>

lemma atoi_dec_int: "\<bar>i\<bar> < 2 ^ 31 \<Longrightarrow> atoi (dec_int i) = i"
  using strtol10_dec_int [of i] by (simp add: atoi_def signed_take_bit_int_eq_self)

definition trace_opts :: "bytes \<Rightarrow> int \<Rightarrow> int \<Rightarrow> (char \<times> bytes option) list" where
  "trace_opts svc uid life = [(CHR ''s'', Some svc), (CHR ''c'', Some (ascii ''set_trace_uid'')), (CHR ''u'', Some (dec_int uid)), (CHR ''l'', Some (dec_int life))]"

lemma trace_opts_args:
  assumes "50000 \<le> uid" "uid < 2 ^ 31" "MIN_TRACE_TIME \<le> life" "life \<le> MAX_TRACE_TIME"
  shows "set_args no_args (trace_opts svc uid life) =
    Some (no_args\<lparr>arg_svcname := Some svc, arg_ctrl := Some (ascii ''set_trace_uid''), arg_uid := of_int uid, arg_life_time := life\<rparr>)"
  using assms by (simp add: trace_opts_def set_arg_def atoi_dec_int MIN_TRACE_TIME_def MAX_TRACE_TIME_def no_args_def)

text \<open>
  C15: let the service file be valid (\<open>good_conf\<close>: at most 1000 titled sections with
  distinct names that fit the table and distinct numbers between 1 and 1000) and name the service,
  let eth0 have an address, and let the socket and the multicast address be had. Then the command
  line that asks for a user from 50000 on, below \<open>2 ^ 31\<close>, to be traced for 3 to 86400
  seconds ends well and sends one packet, to the multicast address and the port of this service;
  and at a receiver with a free slot, before 2038, the packet makes exactly this user traced, for
  the time that was given, besides those who were.
\<close>

theorem ctrl_command_traces:
  assumes "good_conf secs" "sec \<in> set secs" "sec_name sec = Some svc" "argc \<noteq> 1"
    and "get_local_eth_ipstr sys ''eth0'' = Some local_ip" "0 \<le> cs_socket sys" "cs_pton sys (ascii ''239.0.0.100'') = Some a"
    and "50000 \<le> uid" "uid < 2 ^ 31" "MIN_TRACE_TIME \<le> life" "life \<le> MAX_TRACE_TIME"
    and "0 \<le> now" "now + MAX_TRACE_TIME < 2 ^ 31" "now \<le> t" "u \<noteq> 0" "0 < free_slots now (trace_uid_list s)"
  shows "\<exists>pk. ctrl_main (Cfg_sections secs) sys argc (trace_opts svc uid life) no_svcs =
      Some (0, Some ((a, htons (of_int (BASE_SINK_BIND_PORT + sec_gameid sec))), pk)) \<and>
    (is_traced_uid t u (proc_logger_pkg now pk s) = 1 \<longleftrightarrow> is_traced_uid t u s = 1 \<or> u = of_int uid \<and> t \<le> now + life)"
proof -
  obtain st where st: "load_svc_gameid_map (Cfg_sections secs) no_svcs = Some (0, st)" "get_svc_gameid svc st = of_int (sec_gameid sec)"
    using svc_names_known [OF assms(1)] assms(2,3) by fastforce
  have "1 \<le> sec_gameid sec \<and> sec_gameid sec \<le> 1000" using assms(1,2) by (auto simp: good_conf_def MAX_SVC_NUM_def)
  then have g: "sint (of_int (sec_gameid sec) :: u32) = sec_gameid sec" "\<not> sec_gameid sec \<le> 0" "\<not> sec_gameid sec > int MAX_SVC_NUM"
    by (simp_all add: sint_of_small MAX_SVC_NUM_def)
  let ?args = "no_args\<lparr>arg_svcname := Some svc, arg_ctrl := Some (ascii ''set_trace_uid''), arg_uid := of_int uid, arg_life_time := life\<rparr>"
  have "uint (of_int uid :: u32) = uid" using assms(8,9) by (simp add: unsigned_of_int take_bit_int_eq_self)
  then have "50000 \<le> arg_uid ?args" using assms(8) by (simp add: word_le_def)
  then obtain m' pk where r: "run_ctrl (cs_pton sys) ?args (\<lambda>_. 0) = Some (m', Some pk)"
    "is_traced_uid t u (proc_logger_pkg now pk s) = 1 \<longleftrightarrow> is_traced_uid t u s = 1 \<or> u = of_int uid \<and> t \<le> now + life"
    using ctrl_packet_traces [of ?args now t u s "cs_pton sys" "\<lambda>_. 0"] assms(10-16) by auto
  obtain out where "make_mcast_sock sys (of_int (BASE_SINK_BIND_PORT + sec_gameid sec)) =
      Some (cs_socket sys, (a, htons (of_int (BASE_SINK_BIND_PORT + sec_gameid sec))), out)"
    using assms(5-7) by (simp add: make_mcast_sock_def make_sockaddr_def Let_def)
  then have "ctrl_main (Cfg_sections secs) sys argc (trace_opts svc uid life) no_svcs =
      Some (0, Some ((a, htons (of_int (BASE_SINK_BIND_PORT + sec_gameid sec))), pk))"
    using assms(4) st g r(1) trace_opts_args [OF assms(8-11), of svc]
    by (simp add: ctrl_main_def gameid_of_def Let_def del: of_int_add)
  with r(2) show ?thesis by blast
qed

text \<open>The user 70000 of the service with the number 7 is traced for a minute.\<close>

definition ctrl_example :: ctrl_sys where
  "ctrl_example = \<lparr>cs_pton = \<lambda>_. Some 0x640000EF, cs_ntop = \<lambda>_. Some (ascii ''10.1.1.63''), cs_siocgifaddr = \<lambda>_. Some 0x3F01010A,
     cs_ip_socket = 3, cs_socket = 3, cs_multicast_if = \<lambda>_ _. 0\<rparr>"

theorem ctrl_command_traces_witness:
  "\<exists>pk. ctrl_main (Cfg_sections one_service) ctrl_example 9 (trace_opts [98] 70000 60) no_svcs =
     Some (0, Some ((0x640000EF, htons 31007), pk)) \<and> is_traced_uid 1060 70000 (proc_logger_pkg 1000 pk idle_sink) = 1"
proof -
  have "0 < free_slots 1000 (trace_uid_list idle_sink)" by (simp add: free_slots_def idle_sink_def)
  moreover have "get_local_eth_ipstr ctrl_example ''eth0'' = Some (ascii ''10.1.1.63'')"
    by (simp add: get_local_eth_ipstr_def get_local_eth_ip_def ctrl_example_def)
  ultimately show ?thesis
    using ctrl_command_traces [OF one_service_good, of "hd one_service" "[98]" 9 ctrl_example "ascii ''10.1.1.63''" "0x640000EF" 70000 60 1000 1060 70000 idle_sink]
    by (auto simp: one_service_def ctrl_example_def MIN_TRACE_TIME_def MAX_TRACE_TIME_def BASE_SINK_BIND_PORT_def)
qed

end
