(* ===== verification/TmShm.thy ===== *)
theory TmShm
  imports Shm
begin

unbundle bit_operations_syntax

text \<open>
  \<open>tm_shm/tm_shm.c\<close>: System V segments once more, and tables of a configuration in a file that is
  mapped twice as large as the table, whose second half is filled first when the table is updated.
  Processes and the calls for segments are those of \<open>Shm\<close>. The calls for files and mappings and
  the function that reads the configuration are parameters; opening stands for opening and giving the
  file its length, and descriptors are not followed.
\<close>

section \<open>Segments\<close>

definition do_tm_shm_create_init ::
  "'k shm_sys \<Rightarrow> int \<Rightarrow> u64 \<Rightarrow> bytes option \<Rightarrow> u64 \<Rightarrow> 'k process \<Rightarrow> (int \<times> 'k process) option" where
  "do_tm_shm_create_init sys k sz buf len p =
     (case shmget sys k sz create_flags (kern p) of (ident, kn) \<Rightarrow>
        let p = p\<lparr>kern := kn\<rparr> in
        if ident = -1 then Some (-1, p)
        else case shmat sys ident p of (a, p) \<Rightarrow>
          if a = -1 then Some (-1, p)
          else do {
            p \<leftarrow> (case buf of None \<Rightarrow> Some p | Some b \<Rightarrow> copy_buffer a b (unat (if sz < len then sz else len)) p);
            Some (0, shmdt sys a p) })"

definition tm_shm_create_init ::
  "'k shm_sys \<Rightarrow> int \<Rightarrow> u64 \<Rightarrow> bytes option \<Rightarrow> u64 \<Rightarrow> 'k process \<Rightarrow> (int \<times> 'k process) option" where
  "tm_shm_create_init sys k sz buf len p =
     (if k = 0 then Some (-1, p)
      else case shmget sys k 0 0 (kern p) of (ident, kn) \<Rightarrow>
        let p = p\<lparr>kern := kn\<rparr> in
        if ident = -1 then do_tm_shm_create_init sys k sz buf len p
        else case shmctl_stat sys ident kn of
               None \<Rightarrow> Some (-1, p)
             | Some elder_size \<Rightarrow>
                 if elder_size = sz then
                   case shmat sys ident p of (a, p) \<Rightarrow>
                     if a = -1 then Some (-1, p)
                     else do {
                       p \<leftarrow> (case buf of
                              None \<Rightarrow> write_bytes a (replicate (unat sz) 0) p
                            | Some b \<Rightarrow> copy_buffer a b (unat (int_size (if sz < len then sz else len))) p);
                       Some (0, shmdt sys a p) }
                 else Some (-1, p))"

definition tm_shm_create :: "'k shm_sys \<Rightarrow> int \<Rightarrow> u64 \<Rightarrow> 'k process \<Rightarrow> (int \<times> 'k process) option" where
  "tm_shm_create sys k sz p = tm_shm_create_init sys k sz None 0 p"

definition tm_shm_create_new_init ::
  "'k shm_sys \<Rightarrow> int \<Rightarrow> u64 \<Rightarrow> bytes option \<Rightarrow> u64 \<Rightarrow> 'k process \<Rightarrow> (int \<times> 'k process) option" where
  "tm_shm_create_new_init sys k sz buf len p =
     (case shmget sys k 0 0 (kern p) of (ident, kn) \<Rightarrow>
        let p = p\<lparr>kern := kn\<rparr> in
        if ident \<noteq> -1 then Some (-1, p) else do_tm_shm_create_init sys k sz buf len p)"

definition tm_shm_create_new :: "'k shm_sys \<Rightarrow> int \<Rightarrow> u64 \<Rightarrow> 'k process \<Rightarrow> (int \<times> 'k process) option" where
  "tm_shm_create_new sys k sz p = tm_shm_create_new_init sys k sz None 0 p"

definition tm_shm_update_attach :: "'k shm_sys \<Rightarrow> shm_mgr option \<Rightarrow> 'k process \<Rightarrow> int \<times> shm_mgr option \<times> 'k process" where
  "tm_shm_update_attach sys mgr p =
     (case mgr of None \<Rightarrow> (-1, mgr, p)
      | Some g \<Rightarrow>
          if key g = 0 then (-1, mgr, p)
          else case shmget sys (key g) 0 0 (kern p) of (ident, kn) \<Rightarrow>
            let p = p\<lparr>kern := kn\<rparr> in
            if ident = -1 then (-1, mgr, p)
            else case shmctl_stat sys ident kn of
                   None \<Rightarrow> (-1, mgr, p)
                 | Some sz \<Rightarrow>
                     if ident = shmid g \<and> size g \<noteq> sz then (-1, mgr, p)
                     else case shmat sys ident p of (a, p) \<Rightarrow>
                       if a = -1 then (-1, mgr, p)
                       else (0, Some (g\<lparr>shmid := ident, size := sz, shm := a\<rparr>), shmdt sys (shm g) p))"

definition tm_shm_test_shm_exist :: "'k shm_sys \<Rightarrow> int \<Rightarrow> 'k process \<Rightarrow> int \<times> 'k process" where
  "tm_shm_test_shm_exist sys k p =
     (case shmget sys k 0 0 (kern p) of (ident, kn) \<Rightarrow>
        let p = p\<lparr>kern := kn\<rparr> in
        if ident = -1 then (0, p) else if shmctl_stat sys ident kn = None then (0, p) else (1, p))"

section \<open>Configurations in a mapping\<close>

text \<open>Reading a configuration into memory at an address.\<close>

type_synonym 'k call_back_func = "nat \<Rightarrow> bytes \<Rightarrow> 'k process \<Rightarrow> (int \<times> 'k process) option"

record 'k cfg_info =
  mem_size :: nat
  meta_size :: nat
  cfg_mmap_file_path :: bytes
  cfg_file_path :: bytes
  call_back :: "'k call_back_func option"
  addr :: nat

record 'k mmap_sys =
  ms_mkdir_parents :: "bytes \<Rightarrow> int"
  ms_open :: "bytes \<Rightarrow> bool \<Rightarrow> int"
  ms_mmap :: "int \<Rightarrow> nat \<Rightarrow> bool \<Rightarrow> 'k process \<Rightarrow> nat option \<times> 'k process"
  ms_munmap :: "nat \<Rightarrow> nat \<Rightarrow> 'k process \<Rightarrow> 'k process"

definition FILE_PATH_LEN :: nat where "FILE_PATH_LEN = 4096"

text \<open>The directory of a path, as \<open>dirname\<close> gives it for a path that does not end in separators.\<close>

definition dirname :: "bytes \<Rightarrow> bytes" where
  "dirname path =
     (if 47 \<notin> set path then [46]
      else let d = rev (dropWhile (\<lambda>c. c = 47) (dropWhile (\<lambda>c. c \<noteq> 47) (rev path))) in if d = [] then [47] else d)"

definition destroy_cfg_from_mmap :: "'k mmap_sys \<Rightarrow> 'k cfg_info \<Rightarrow> 'k process \<Rightarrow> 'k process" where
  "destroy_cfg_from_mmap sys c p = ms_munmap sys (addr c) (2 * mem_size c) p"

definition detach_cfg_from_mmap :: "'k mmap_sys \<Rightarrow> 'k cfg_info \<Rightarrow> 'k process \<Rightarrow> 'k process" where
  "detach_cfg_from_mmap sys c p = destroy_cfg_from_mmap sys c p"

text \<open>The test of the sizes; \<open>None\<close> is the division by 0.\<close>

definition sizes_ok :: "'k cfg_info \<Rightarrow> bool option" where
  "sizes_ok c =
     (if meta_size c > mem_size c then Some False
      else if meta_size c = 0 then None
      else Some (mem_size c mod meta_size c = 0))"

definition load_half :: "'k cfg_info \<Rightarrow> nat \<Rightarrow> 'k process \<Rightarrow> (int \<times> 'k process) option" where
  "load_half c a p = (case call_back c of None \<Rightarrow> Some (-1, p) | Some cb \<Rightarrow> cb a (cfg_file_path c) p)"

definition init_cfg_on_mmap :: "'k mmap_sys \<Rightarrow> 'k cfg_info \<Rightarrow> 'k process \<Rightarrow> (int \<times> 'k cfg_info \<times> 'k process) option" where
  "init_cfg_on_mmap sys c p =
     do {
       ok \<leftarrow> sizes_ok c;
       if \<not> ok then Some (-1, c, p)
       else if ms_mkdir_parents sys (dirname (take (FILE_PATH_LEN - 1) (cfg_mmap_file_path c))) = -1 then Some (-1, c, p)
       else
         let fd = ms_open sys (cfg_mmap_file_path c) True in
         if fd = -1 then Some (-1, c, p)
         else case ms_mmap sys fd (2 * mem_size c) True p of
                (None, p) \<Rightarrow> Some (-1, c, p)
              | (Some a, p) \<Rightarrow>
                  let c = c\<lparr>addr := a\<rparr> in
                  do {
                    (r, p) \<leftarrow> load_half c a p;
                    if r = -1 then Some (-1, c, destroy_cfg_from_mmap sys c p) else Some (0, c, p)
                  }
     }"

definition attach_cfg_to_mmap :: "'k mmap_sys \<Rightarrow> 'k cfg_info \<Rightarrow> 'k process \<Rightarrow> int \<times> 'k cfg_info \<times> 'k process" where
  "attach_cfg_to_mmap sys c p =
     (let fd = ms_open sys (cfg_mmap_file_path c) False in
      if fd = -1 then (-1, c, p)
      else case ms_mmap sys fd (2 * mem_size c) False p of
             (None, p) \<Rightarrow> (-1, c, p)
           | (Some a, p) \<Rightarrow> (0, c\<lparr>addr := a\<rparr>, p))"

text \<open>\<open>memcmp\<close>, and \<open>memcpy\<close> when it finds a difference.\<close>

definition sync_bytes :: "nat \<Rightarrow> nat \<Rightarrow> nat \<Rightarrow> 'k process \<Rightarrow> 'k process option" where
  "sync_bytes dst src n p =
     (if \<not> accessible p dst n \<or> \<not> accessible p src n then None
      else if mem_read (pmem p) dst n \<noteq> mem_read (pmem p) src n
           then Some (p\<lparr>pmem := mem_write (pmem p) dst (mem_read (pmem p) src n)\<rparr>)
           else Some p)"

text \<open>The loop, with the count of bytes compared, which is an \<open>int\<close>: \<open>None\<close> also when it would grow past one.\<close>

function sync_metas :: "'k cfg_info \<Rightarrow> nat \<Rightarrow> 'k process \<Rightarrow> (nat \<times> 'k process) option" where
  "sync_metas c cmp_size p =
     (if meta_size c = 0 \<or> cmp_size \<ge> mem_size c - meta_size c then Some (cmp_size, p)
      else if cmp_size + meta_size c \<ge> 2 ^ 31 then None
      else do {
        p \<leftarrow> sync_bytes (addr c + cmp_size) (addr c + mem_size c + cmp_size) (meta_size c) p;
        sync_metas c (cmp_size + meta_size c) p
      })"
  by pat_completeness auto
termination sync_metas
  by (relation "measure (\<lambda>(c, cmp_size, _). mem_size c - cmp_size)") auto

declare sync_metas.simps [simp del]

definition update_cfg_on_mmap :: "'k cfg_info \<Rightarrow> 'k process \<Rightarrow> (int \<times> 'k process) option" where
  "update_cfg_on_mmap c p =
     do {
       ok \<leftarrow> sizes_ok c;
       if \<not> ok then Some (-1, p)
       else do {
         (r, p) \<leftarrow> load_half c (addr c + mem_size c) p;
         if r = -1 then Some (-1, p)
         else do {
           (cmp_size, p) \<leftarrow> sync_metas c 0 p;
           p \<leftarrow> sync_bytes (addr c + cmp_size) (addr c + mem_size c + cmp_size) (mem_size c - meta_size c) p;
           Some (0, p)
         }
       }
     }"

section \<open>Segments: the same as \<open>get_shm\<close>\<close>

lemma do_tm_shm_create_init_same: "do_tm_shm_create_init = create_shm_init"
  by (intro ext) (simp add: do_tm_shm_create_init_def create_shm_init_def)

text \<open>
  As long as the size of a segment that exists can be read, \<open>tm_shm_create_init\<close> does what
  \<open>get_shm\<close> of \<open>attr_api/shm.c\<close> does when it is to create a missing segment and to initialise one
  that exists.
\<close>

theorem tm_shm_create_is_get_shm:
  assumes "\<And>ident kn. shmget sys k 0 0 (kern p) = (ident, kn) \<Longrightarrow> ident \<noteq> -1 \<Longrightarrow> shmctl_stat sys ident kn \<noteq> None"
  shows "tm_shm_create_init sys k sz buf len p = get_shm_create_initexist sys k sz buf len p"
proof -
  obtain ident kn where g: "shmget sys k 0 0 (kern p) = (ident, kn)" by fastforce
  show ?thesis
  proof (cases "ident = -1")
    case True
    then show ?thesis using g
      by (simp add: tm_shm_create_init_def do_tm_shm_create_init_same get_shm_create_initexist_def get_shm_def get_shm_info_def)
  next
    case False
    then obtain e where "shmctl_stat sys ident kn = Some e" using assms [OF g] by auto
    then show ?thesis using g False
      by (simp add: tm_shm_create_init_def get_shm_create_initexist_def get_shm_def get_shm_info_def Let_def)
  qed
qed

section \<open>Updating\<close>

lemma mem_read_append: "mem_read m p (a + b) = mem_read m p a @ mem_read m (p + a) b"
  by (rule nth_equalityI) (auto simp: mem_read_def nth_append)

lemma sync_bytes_mapped: "sync_bytes a b n p = Some p' \<Longrightarrow> mapped p' = mapped p"
  by (auto simp: sync_bytes_def split: if_splits)

lemma sync_metas_mapped: "sync_metas c k p = Some (j, p') \<Longrightarrow> mapped p' = mapped p"
proof (induction c k p rule: sync_metas.induct)
  case (1 c k p)
  then show ?case using sync_bytes_mapped
    by (subst (asm) (2) sync_metas.simps) (fastforce split: if_splits elim!: bind_eq_SomeE)
qed

lemma sync_metas_end:
  "sync_metas c k p = Some (j, p') \<Longrightarrow> meta_size c dvd k \<Longrightarrow> meta_size c dvd mem_size c \<Longrightarrow> 0 < meta_size c \<Longrightarrow>
    k \<le> mem_size c - meta_size c \<Longrightarrow> meta_size c \<le> mem_size c \<Longrightarrow> j = mem_size c - meta_size c"
proof (induction c k p rule: sync_metas.induct)
  case (1 c k p)
  show ?case
  proof (cases "k \<ge> mem_size c - meta_size c")
    case True
    then show ?thesis using 1(2,6) by (simp add: sync_metas.simps [of c k p])
  next
    case False
    obtain q m where qm: "k = meta_size c * q" "mem_size c = meta_size c * m" using 1(3,4) by (auto elim!: dvdE)
    have "meta_size c * (q + 1) < meta_size c * m" using False qm by (simp add: algebra_simps)
    then have "q + 1 < m" using mult_less_cancel1 [of "meta_size c" "q + 1" m] by blast
    then have "meta_size c * (q + 2) \<le> meta_size c * m" by (intro mult_le_mono2) simp
    then have le: "k + meta_size c \<le> mem_size c - meta_size c" using qm by (simp add: algebra_simps)
    obtain p1 where "\<not> k + meta_size c \<ge> 2 ^ 31" "sync_bytes (addr c + k) (addr c + mem_size c + k) (meta_size c) p = Some p1"
      "sync_metas c (k + meta_size c) p1 = Some (j, p')"
      using 1(2,5) False by (auto simp: sync_metas.simps [of c k p] split: if_splits elim!: bind_eq_SomeE)
    then show ?thesis using 1(1) [of p1] 1(3-7) False le by simp
  qed
qed

lemma accessible_outside:
  assumes "accessible p a n" "a \<le> b" "b < a + n"
  shows "mapped p b"
proof -
  have "\<forall>i<n. mapped p (a + i)" using assms(1) by (simp add: accessible_def list_all_iff)
  moreover have "b - a < n" "b = a + (b - a)" using assms(2,3) by simp_all
  ultimately show ?thesis by metis
qed

lemma accessible_part:
  assumes "accessible p a n" "a \<le> b" "b + m \<le> a + n"
  shows "accessible p b m"
  unfolding accessible_def list_all_iff using assms by (auto intro: accessible_outside)

lemma sync_bytes_done:
  assumes "accessible p d n" "accessible p r n" "d + n \<le> r"
  shows "\<exists>p'. sync_bytes d r n p = Some p' \<and> mapped p' = mapped p \<and> mem_read (pmem p') d n = mem_read (pmem p) r n \<and>
    (\<forall>q m. q + m \<le> d \<or> d + n \<le> q \<longrightarrow> mem_read (pmem p') q m = mem_read (pmem p) q m)"
  using assms by (auto simp: sync_bytes_def mem_read_write_other)

text \<open>A system with one segment of 64 bytes at 65536.\<close>

definition segment_of_64 :: "unit shm_sys" where
  "segment_of_64 = \<lparr>shmget = \<lambda>_ _ _ _. (7, ()), shmctl_stat = \<lambda>_ _. Some 64,
     shmat = \<lambda>_ p. (65536, p\<lparr>mapped := \<lambda>a. 65536 \<le> a \<and> a < 65536 + 64\<rparr>), shmdt = \<lambda>_ p. p\<lparr>mapped := \<lambda>_. False\<rparr>\<rparr>"

lemma tm_shm_create_is_get_shm_witness:
  "tm_shm_create_init segment_of_64 5 64 (Some [1]) 1 \<lparr>pmem = \<lambda>_. 0, mapped = \<lambda>_. False, kern = ()\<rparr> =
   get_shm_create_initexist segment_of_64 5 64 (Some [1]) 1 \<lparr>pmem = \<lambda>_. 0, mapped = \<lambda>_. False, kern = ()\<rparr>"
  by (rule tm_shm_create_is_get_shm) (auto simp: segment_of_64_def)

text \<open>
  C37: an update of a table of one record does nothing to the half that is in use, one of a table
  of two records makes that half the table that was read, and one of a table of more records reads
  past the end of the mapping: the last comparison takes the size of the table less one record
  where it means the size of a record.
\<close>

theorem update_cfg_by_records:
  assumes "call_back c = Some cb" "cb (addr c + mem_size c) (cfg_file_path c) p = Some (0, p1)"
    and "mem_size c = k * meta_size c" "0 < meta_size c" "0 < k" "mem_size c < 2 ^ 31"
    and "accessible p1 (addr c) (2 * mem_size c)" "\<not> mapped p1 (addr c + 2 * mem_size c)"
  shows "(k = 1 \<longrightarrow> update_cfg_on_mmap c p = Some (0, p1)) \<and>
    (k = 2 \<longrightarrow> (\<exists>p2. update_cfg_on_mmap c p = Some (0, p2) \<and>
       mem_read (pmem p2) (addr c) (mem_size c) = mem_read (pmem p1) (addr c + mem_size c) (mem_size c))) \<and>
    (2 < k \<longrightarrow> update_cfg_on_mmap c p = None)"
proof -
  let ?m = "meta_size c" let ?a = "addr c" let ?n = "mem_size c"
  have sz: "sizes_ok c = Some True" using assms(3-5) by (simp add: sizes_ok_def)
  have u: "update_cfg_on_mmap c p = Option.bind (sync_metas c 0 p1) (\<lambda>(j, p).
      Option.bind (sync_bytes (?a + j) (?a + ?n + j) (?n - ?m) p) (\<lambda>p. Some (0, p)))"
    using assms(1,2) by (simp add: update_cfg_on_mmap_def sz load_half_def)
  have "update_cfg_on_mmap c p = Some (0, p1)" if "k = 1"
    using that assms(3) by (simp add: u sync_metas.simps [of c 0] sync_bytes_def accessible_def)
  moreover have "\<exists>p2. update_cfg_on_mmap c p = Some (0, p2) \<and> mem_read (pmem p2) ?a ?n = mem_read (pmem p1) (?a + ?n) ?n" if k: "k = 2"
  proof -
    have n: "?n = ?m + ?m" using k assms(3) by simp
    have ac: "accessible p1 ?a ?m" "accessible p1 (?a + ?m) ?m" "accessible p1 (?a + ?n) ?m" "accessible p1 (?a + ?n + ?m) ?m"
      using assms(7) n by (auto intro: accessible_part)
    from sync_bytes_done [OF ac(1,3)] n obtain p' where p': "sync_bytes ?a (?a + ?n) ?m p1 = Some p'" "mapped p' = mapped p1"
      "mem_read (pmem p') ?a ?m = mem_read (pmem p1) (?a + ?n) ?m"
      "\<forall>q m. q + m \<le> ?a \<or> ?a + ?m \<le> q \<longrightarrow> mem_read (pmem p') q m = mem_read (pmem p1) q m" by auto
    have "accessible p' (?a + ?m) ?m" "accessible p' (?a + ?n + ?m) ?m" using ac p'(2) by (simp_all add: accessible_def)
    from sync_bytes_done [OF this] n obtain p2 where p2: "sync_bytes (?a + ?m) (?a + ?n + ?m) ?m p' = Some p2"
      "mem_read (pmem p2) (?a + ?m) ?m = mem_read (pmem p') (?a + ?n + ?m) ?m"
      "\<forall>q m. q + m \<le> ?a + ?m \<or> ?a + ?m + ?m \<le> q \<longrightarrow> mem_read (pmem p2) q m = mem_read (pmem p') q m" by auto
    have "sync_metas c 0 p1 = Some (?m, p')"
      using assms(4,6) n p'(1) by (simp add: sync_metas.simps [of c 0] sync_metas.simps [of c ?m])
    then have "update_cfg_on_mmap c p = Some (0, p2)" using p2(1) n by (simp add: u)
    moreover have "mem_read (pmem p2) ?a (?m + ?m) = mem_read (pmem p2) ?a ?m @ mem_read (pmem p2) (?a + ?m) ?m"
      "mem_read (pmem p1) (?a + ?n) (?m + ?m) = mem_read (pmem p1) (?a + ?n) ?m @ mem_read (pmem p1) (?a + ?n + ?m) ?m"
      by (simp_all add: mem_read_append)
    ultimately show ?thesis using p2(2,3) p'(3,4) n by simp
  qed
  moreover have "update_cfg_on_mmap c p = None" if "2 < k"
  proof (cases "sync_metas c 0 p1")
    case (Some r)
    obtain j p' where r: "r = (j, p')" by (cases r)
    have "3 * ?m \<le> ?n" using that assms(3) by simp
    then have j: "j = ?n - ?m" "mapped p' = mapped p1" "3 * ?m \<le> ?n"
      using sync_metas_end [of c 0 p1 j p'] sync_metas_mapped [of c 0 p1 j p'] Some r assms(3,4) by simp_all
    have "?a + ?n + j \<le> ?a + 2 * ?n" "?a + 2 * ?n < ?a + ?n + j + (?n - ?m)" using j(1,3) assms(4) by linarith+
    then have "\<not> accessible p' (?a + ?n + j) (?n - ?m)"
      using accessible_outside [of p' "?a + ?n + j" "?n - ?m" "?a + 2 * ?n"] assms(8) j(2) by metis
    then show ?thesis using Some r by (simp add: u sync_bytes_def)
  qed (simp add: u)
  ultimately show ?thesis by blast
qed

text \<open>Records of 4 bytes, read as the number 7 by a function that never fails.\<close>

definition sevens :: "nat \<Rightarrow> unit cfg_info" where
  "sevens k = \<lparr>mem_size = k * 4, meta_size = 4, cfg_mmap_file_path = [], cfg_file_path = [],
     call_back = Some (\<lambda>a _ p. Some (0, p\<lparr>pmem := mem_write (pmem p) a (replicate (k * 4) 7)\<rparr>)), addr = 4096\<rparr>"

definition mapped_for :: "nat \<Rightarrow> unit process" where
  "mapped_for k = \<lparr>pmem = \<lambda>_. 0, mapped = \<lambda>a. 4096 \<le> a \<and> a < 4096 + k * 8, kern = ()\<rparr>"

lemma update_cfg_by_records_witness:
  "(\<exists>p. update_cfg_on_mmap (sevens 2) (mapped_for 2) = Some (0, p) \<and> mem_read (pmem p) 4096 8 = replicate 8 7) \<and>
   update_cfg_on_mmap (sevens 3) (mapped_for 3) = None"
proof -
  let ?p = "\<lambda>k. (mapped_for k)\<lparr>pmem := mem_write (pmem (mapped_for k)) (addr (sevens k) + mem_size (sevens k)) (replicate (k * 4) 7)\<rparr>"
  have "(k = 1 \<longrightarrow> update_cfg_on_mmap (sevens k) (mapped_for k) = Some (0, ?p k)) \<and>
    (k = 2 \<longrightarrow> (\<exists>p2. update_cfg_on_mmap (sevens k) (mapped_for k) = Some (0, p2) \<and>
       mem_read (pmem p2) (addr (sevens k)) (mem_size (sevens k)) =
         mem_read (pmem (?p k)) (addr (sevens k) + mem_size (sevens k)) (mem_size (sevens k)))) \<and>
    (2 < k \<longrightarrow> update_cfg_on_mmap (sevens k) (mapped_for k) = None)" if "0 < k" "k < 100" for k
    by (rule update_cfg_by_records [where cb = "the (call_back (sevens k))"]) (use that in \<open>auto simp: sevens_def mapped_for_def accessible_def list_all_iff\<close>)
  from this [of 2] this [of 3] show ?thesis by (simp add: sevens_def)
qed

end
