(* ===== verification/AcsmMap.thy ===== *)
theory AcsmMap
  imports Acsm
begin

text \<open>
  Where the machines of \<open>tm_dirty/acsm.c\<close> lie in memory: the mapping that \<open>acsmNew\<close> and
  \<open>acsmNew_with_fd\<close> divide among the tables, and what \<open>acsmFree\<close> gives back of it. Addresses are
  natural numbers; the address that \<open>mmap\<close> answers, \<open>None\<close> when it fails, is an argument. Pages have
  4096 bytes, an \<open>int\<close> has 4 and a pointer 8.
\<close>

section \<open>The code\<close>

definition sizeof_ACSM_PATTERN :: nat where "sizeof_ACSM_PATTERN = 256 + 4"
definition sizeof_ACSM_STATETABLE :: nat where "sizeof_ACSM_STATETABLE = 256 * 4 + 4 + 4"
definition sizeof_ACSM_STRUCT :: nat where "sizeof_ACSM_STRUCT = 4 * 4 + 2 * 8"

definition PATTERNS_TABLE_LEN :: nat where "PATTERNS_TABLE_LEN = sizeof_ACSM_PATTERN * nat MAX_PATTERNS"
definition ADS_TABLE_LEN :: nat where "ADS_TABLE_LEN = 0"
definition STATE_TABLE_LEN :: nat where "STATE_TABLE_LEN = sizeof_ACSM_STATETABLE * nat MAX_STATE"

text \<open>A machine by the address of its header and the two pointers stored there.\<close>

record acsm_place =
  at_header :: nat
  at_patterns :: nat
  at_states :: nat

definition place_at :: "nat \<Rightarrow> acsm_place" where
  "place_at p = \<lparr>at_header = p, at_patterns = p + sizeof_ACSM_STRUCT,
     at_states = p + sizeof_ACSM_STRUCT + PATTERNS_TABLE_LEN + ADS_TABLE_LEN\<rparr>"

definition machine_len :: nat where
  "machine_len = sizeof_ACSM_STRUCT + PATTERNS_TABLE_LEN + ADS_TABLE_LEN + STATE_TABLE_LEN"

text \<open>\<open>None\<close>: the code writes through the pointer with which \<open>mmap\<close> reports its failure.\<close>

definition acsmNew_with_fd :: "nat option \<Rightarrow> (acsm_place \<times> acsm_place) option" where
  "acsmNew_with_fd p = (case p of None \<Rightarrow> None | Some p \<Rightarrow> Some (place_at p, place_at (p + machine_len)))"

text \<open>\<open>None\<close> is the null pointer.\<close>

definition acsmNew :: "nat option \<Rightarrow> acsm_place option" where
  "acsmNew p = (case p of None \<Rightarrow> None | Some p \<Rightarrow> Some (place_at p))"

text \<open>\<open>munmap\<close> refuses addresses inside a page and gives back whole pages.\<close>

definition PAGE :: nat where "PAGE = 4096"

definition munmap :: "nat \<Rightarrow> nat \<Rightarrow> (nat \<Rightarrow> bool) \<Rightarrow> int \<times> (nat \<Rightarrow> bool)" where
  "munmap a n m =
     (if a mod PAGE \<noteq> 0 \<or> n = 0 then (-1, m)
      else (0, \<lambda>x. m x \<and> \<not> (a \<le> x \<and> x < a + PAGE * ((n + PAGE - 1) div PAGE))))"

definition acsmFree :: "acsm_place \<Rightarrow> (nat \<Rightarrow> bool) \<Rightarrow> (nat \<Rightarrow> bool)" where
  "acsmFree h m = snd (munmap (at_header h) sizeof_ACSM_STRUCT m)"

section \<open>The tables\<close>

text \<open>The entries of the two tables, as the indices of the code reach them.\<close>

definition pattern_entry :: "acsm_place \<Rightarrow> nat \<Rightarrow> nat" where
  "pattern_entry h i = at_patterns h + i * sizeof_ACSM_PATTERN"

definition state_entry :: "acsm_place \<Rightarrow> nat \<Rightarrow> nat" where
  "state_entry h s = at_states h + s * sizeof_ACSM_STATETABLE"

text \<open>What a machine occupies: pairs of an address and a length.\<close>

definition parts :: "acsm_place \<Rightarrow> (nat \<times> nat) set" where
  "parts h = {(at_header h, sizeof_ACSM_STRUCT)} \<union> (\<lambda>i. (pattern_entry h i, sizeof_ACSM_PATTERN)) ` {..<nat MAX_PATTERNS} \<union>
     (\<lambda>s. (state_entry h s, sizeof_ACSM_STATETABLE)) ` {..<nat MAX_STATE}"

definition apart :: "nat \<times> nat \<Rightarrow> nat \<times> nat \<Rightarrow> bool" where
  "apart a b \<longleftrightarrow> fst a + snd a \<le> fst b \<or> fst b + snd b \<le> fst a"

lemmas sizes = sizeof_ACSM_PATTERN_def sizeof_ACSM_STATETABLE_def sizeof_ACSM_STRUCT_def PATTERNS_TABLE_LEN_def ADS_TABLE_LEN_def
  STATE_TABLE_LEN_def MAX_PATTERNS_def MAX_STATE_def

lemma parts_inside: "x \<in> parts (place_at p) \<Longrightarrow> p \<le> fst x \<and> fst x + snd x \<le> p + machine_len"
  by (auto simp: parts_def pattern_entry_def state_entry_def place_at_def machine_len_def sizes)

lemma parts_apart: "x \<in> parts (place_at p) \<Longrightarrow> y \<in> parts (place_at p) \<Longrightarrow> x \<noteq> y \<Longrightarrow> apart x y"
  by (auto simp: parts_def pattern_entry_def state_entry_def place_at_def sizes apart_def)

text \<open>
  The two machines of a mapping fill it and share none of it: every pattern and every state
  that the limits of the code allow has room of its own between the ends of the mapping.
\<close>

theorem machines_apart:
  assumes "acsmNew_with_fd (Some p) = Some (h1, h2)"
  shows "(\<forall>x \<in> parts h1 \<union> parts h2. p \<le> fst x \<and> fst x + snd x \<le> p + 2 * machine_len) \<and>
    (\<forall>x \<in> parts h1. \<forall>y \<in> parts h2. apart x y) \<and> (\<forall>x \<in> parts h1. \<forall>y \<in> parts h1. x \<noteq> y \<longrightarrow> apart x y) \<and>
    (\<forall>x \<in> parts h2. \<forall>y \<in> parts h2. x \<noteq> y \<longrightarrow> apart x y)"
proof -
  have h: "h1 = place_at p" "h2 = place_at (p + machine_len)" using assms by (simp_all add: acsmNew_with_fd_def)
  have "apart x y" if "x \<in> parts h1" "y \<in> parts h2" for x y
    using parts_inside [of x p] parts_inside [of y "p + machine_len"] that unfolding h apart_def by linarith
  moreover have "p \<le> fst x \<and> fst x + snd x \<le> p + 2 * machine_len" if "x \<in> parts h1 \<union> parts h2" for x
    using parts_inside [of x p] parts_inside [of x "p + machine_len"] that unfolding h by auto
  ultimately show ?thesis using parts_apart unfolding h by blast
qed

text \<open>
  \<open>acsmFree\<close> gives back the first page of a mapping and keeps the rest, and of the second of two
  machines in a file it gives back nothing, because that machine does not start at a page.
\<close>

theorem acsmFree_keeps:
  assumes "p mod PAGE = 0" "\<forall>x. m x \<longleftrightarrow> p \<le> x \<and> x < p + 2 * machine_len"
  shows "(\<forall>x. acsmFree (place_at p) m x \<longleftrightarrow> p + PAGE \<le> x \<and> x < p + 2 * machine_len) \<and> acsmFree (place_at (p + machine_len)) m = m"
proof -
  have "machine_len = 137296 * PAGE + 32" by (simp add: machine_len_def sizes PAGE_def)
  moreover have "p = p div PAGE * PAGE" using assms(1) div_mult_mod_eq [of p PAGE] by simp
  ultimately have "p + machine_len = (p div PAGE + 137296) * PAGE + 32" unfolding add_mult_distrib by linarith
  then have "(p + machine_len) mod PAGE = 32 mod PAGE" by (simp only: mod_mult_self3)
  then have "(p + machine_len) mod PAGE \<noteq> 0" by (simp add: PAGE_def)
  then have "acsmFree (place_at (p + machine_len)) m = m" by (simp add: acsmFree_def munmap_def place_at_def)
  moreover have "(sizeof_ACSM_STRUCT + PAGE - 1) div PAGE = 1" by (simp add: sizeof_ACSM_STRUCT_def PAGE_def)
  then have "acsmFree (place_at p) m = (\<lambda>x. m x \<and> \<not> (p \<le> x \<and> x < p + PAGE))"
    using assms(1) by (simp add: acsmFree_def munmap_def place_at_def) (simp add: sizeof_ACSM_STRUCT_def)
  then have "acsmFree (place_at p) m x \<longleftrightarrow> m x \<and> \<not> (p \<le> x \<and> x < p + PAGE)" for x by simp
  then have "acsmFree (place_at p) m x \<longleftrightarrow> p + PAGE \<le> x \<and> x < p + 2 * machine_len" for x
    using assms(2) by (metis add_leE linorder_not_le order.trans le_add1)
  ultimately show ?thesis by blast
qed

theorem machines_apart_witness:
  "apart (state_entry (place_at 8192) 524287, sizeof_ACSM_STATETABLE) (at_header (place_at (8192 + machine_len)), sizeof_ACSM_STRUCT)"
proof -
  have "(state_entry (place_at 8192) 524287, sizeof_ACSM_STATETABLE) \<in> parts (place_at 8192)" by (auto simp: parts_def MAX_STATE_def)
  moreover have "(at_header (place_at (8192 + machine_len)), sizeof_ACSM_STRUCT) \<in> parts (place_at (8192 + machine_len))" by (auto simp: parts_def)
  ultimately show ?thesis using machines_apart [of 8192 "place_at 8192" "place_at (8192 + machine_len)"] by (simp add: acsmNew_with_fd_def)
qed

theorem acsmFree_keeps_witness:
  "acsmFree (place_at 8192) (\<lambda>x. 8192 \<le> x \<and> x < 8192 + 2 * machine_len) 12288 \<and>
   \<not> acsmFree (place_at 8192) (\<lambda>x. 8192 \<le> x \<and> x < 8192 + 2 * machine_len) 12287"
  using acsmFree_keeps [of 8192 "\<lambda>x. 8192 \<le> x \<and> x < 8192 + 2 * machine_len"]
  by (simp add: PAGE_def machine_len_def sizes)

end
