(* ===== verification/Mcast.thy ===== *)
theory Mcast
  imports SockIo
begin

unbundle bit_operations_syntax

text \<open>
  \<open>inet/mcast.c\<close>: sockets for multicast and their options. The kernel is a parameter: its calls
  take its state and answer with an error number or a result. \<open>errno\<close> and the descriptors that are
  open are part of the state; \<open>None\<close> is a failed assertion.
\<close>

section \<open>Calls\<close>

record sockaddr =
  sa_family :: int
  sa_bytes :: bytes

record addrinfo =
  ai_family :: int
  ai_socktype :: int
  ai_protocol :: int
  ai_addr :: sockaddr

text \<open>The options the code sets, with the values it passes at the width it passes them.\<close>

datatype sockopt =
    SO_REUSEADDR int
  | MCAST_JOIN_GROUP u32 sockaddr
  | MCAST_LEAVE_GROUP u32 sockaddr
  | MCAST_BLOCK_SOURCE u32 sockaddr sockaddr
  | MCAST_UNBLOCK_SOURCE u32 sockaddr sockaddr
  | MCAST_JOIN_SOURCE_GROUP u32 sockaddr sockaddr
  | MCAST_LEAVE_SOURCE_GROUP u32 sockaddr sockaddr
  | IP_MULTICAST_IF u32
  | IPV6_MULTICAST_IF u32
  | IP_MULTICAST_LOOP u8
  | IPV6_MULTICAST_LOOP u32
  | IP_MULTICAST_TTL u8
  | IPV6_MULTICAST_HOPS u32

text \<open>The options it reads.\<close>

datatype optname = Get_IPV6_IF | Get_IP_LOOP | Get_IPV6_LOOP | Get_IP_TTL | Get_IPV6_HOPS

record 'k mcast_sys =
  mc_getaddrinfo :: "bytes \<Rightarrow> bytes \<Rightarrow> int + addrinfo"
  mc_socket :: "int \<Rightarrow> int \<Rightarrow> int \<Rightarrow> 'k \<Rightarrow> (int + nat) \<times> 'k"
  mc_bind :: "int \<Rightarrow> sockaddr \<Rightarrow> 'k \<Rightarrow> (int + unit) \<times> 'k"
  mc_setsockopt :: "int \<Rightarrow> int \<Rightarrow> sockopt \<Rightarrow> 'k \<Rightarrow> (int + unit) \<times> 'k"
  mc_getsockopt :: "int \<Rightarrow> int \<Rightarrow> optname \<Rightarrow> 'k \<Rightarrow> int + u32"
  mc_if_nametoindex :: "bytes \<Rightarrow> u32"
  mc_ifaddr :: "int \<Rightarrow> bytes \<Rightarrow> 'k \<Rightarrow> int + u32"

record 'k mc_state =
  mc_kern :: 'k
  mc_errno :: int
  mc_open :: "int list"

definition AF_INET :: int where "AF_INET = 2"
definition AF_INET6 :: int where "AF_INET6 = 10"
definition IPPROTO_IP :: int where "IPPROTO_IP = 0"
definition IPPROTO_IPV6 :: int where "IPPROTO_IPV6 = 41"
definition SOL_SOCKET :: int where "SOL_SOCKET = 1"
definition ENXIO :: int where "ENXIO = 6"
definition EAFNOSUPPORT :: int where "EAFNOSUPPORT = 97"
definition EADDRNOTAVAIL :: int where "EADDRNOTAVAIL = 99"
definition IFNAMSIZ :: nat where "IFNAMSIZ = 16"
definition sockaddr_storage_size :: nat where "sockaddr_storage_size = 128"

definition fail_with :: "int \<Rightarrow> 'k mc_state \<Rightarrow> int \<times> 'k mc_state" where
  "fail_with e st = (-1, st\<lparr>mc_errno := e\<rparr>)"

definition answer :: "(int + unit) \<times> 'k \<Rightarrow> 'k mc_state \<Rightarrow> int \<times> 'k mc_state" where
  "answer r st = (case r of (Inl e, k) \<Rightarrow> fail_with e (st\<lparr>mc_kern := k\<rparr>) | (Inr _, k) \<Rightarrow> (0, st\<lparr>mc_kern := k\<rparr>))"

definition setsockopt :: "'k mcast_sys \<Rightarrow> int \<Rightarrow> int \<Rightarrow> sockopt \<Rightarrow> 'k mc_state \<Rightarrow> int \<times> 'k mc_state" where
  "setsockopt sys sockfd level opt st = answer (mc_setsockopt sys sockfd level opt (mc_kern st)) st"

section \<open>Options\<close>

definition family_to_level :: "int \<Rightarrow> int" where
  "family_to_level family = (if family = AF_INET then IPPROTO_IP else if family = AF_INET6 then IPPROTO_IPV6 else -1)"

definition mcast_join :: "'k mcast_sys \<Rightarrow> int \<Rightarrow> sockaddr \<Rightarrow> bytes \<Rightarrow> 'k mc_state \<Rightarrow> (int \<times> 'k mc_state) option" where
  "mcast_join sys sockfd grp ifname st =
     (if \<not> length (sa_bytes grp) \<le> sockaddr_storage_size then None
      else
        let ifc = mc_if_nametoindex sys ifname in
        if ifc = 0 then Some (fail_with ENXIO st)
        else Some (setsockopt sys sockfd (family_to_level (sa_family grp)) (MCAST_JOIN_GROUP ifc grp) st))"

definition mcast_leave :: "'k mcast_sys \<Rightarrow> int \<Rightarrow> sockaddr \<Rightarrow> bytes \<Rightarrow> 'k mc_state \<Rightarrow> (int \<times> 'k mc_state) option" where
  "mcast_leave sys sockfd grp ifname st =
     (if \<not> length (sa_bytes grp) \<le> sockaddr_storage_size then None
      else
        let ifc = mc_if_nametoindex sys ifname in
        if ifc = 0 then Some (fail_with ENXIO st)
        else Some (setsockopt sys sockfd (family_to_level (sa_family grp)) (MCAST_LEAVE_GROUP ifc grp) st))"

definition mcast_set_if :: "'k mcast_sys \<Rightarrow> int \<Rightarrow> int \<Rightarrow> bytes \<Rightarrow> 'k mc_state \<Rightarrow> int \<times> 'k mc_state" where
  "mcast_set_if sys sockfd family ifname st =
     (if family = AF_INET then
        case mc_ifaddr sys sockfd (take IFNAMSIZ ifname) (mc_kern st) of
          Inl e \<Rightarrow> fail_with e st
        | Inr inaddr \<Rightarrow> setsockopt sys sockfd IPPROTO_IP (IP_MULTICAST_IF inaddr) st
      else if family = AF_INET6 then
        let idx = mc_if_nametoindex sys ifname in
        if idx = 0 then fail_with ENXIO st
        else setsockopt sys sockfd IPPROTO_IPV6 (IPV6_MULTICAST_IF idx) st
      else fail_with EAFNOSUPPORT st)"

definition getsockopt :: "'k mcast_sys \<Rightarrow> int \<Rightarrow> int \<Rightarrow> optname \<Rightarrow> (u32 \<Rightarrow> int) \<Rightarrow> 'k mc_state \<Rightarrow> int \<times> 'k mc_state" where
  "getsockopt sys sockfd level opt conv st =
     (case mc_getsockopt sys sockfd level opt (mc_kern st) of Inl e \<Rightarrow> fail_with e st | Inr v \<Rightarrow> (conv v, st))"

definition of_u_char :: "u32 \<Rightarrow> int" where
  "of_u_char v = uint (ucast v :: u8)"

definition mcast_get_if :: "'k mcast_sys \<Rightarrow> int \<Rightarrow> int \<Rightarrow> 'k mc_state \<Rightarrow> int \<times> 'k mc_state" where
  "mcast_get_if sys sockfd family st =
     (if family = AF_INET then (-1, st)
      else if family = AF_INET6 then getsockopt sys sockfd IPPROTO_IPV6 Get_IPV6_IF sint st
      else fail_with EAFNOSUPPORT st)"

definition mcast_set_loop :: "'k mcast_sys \<Rightarrow> int \<Rightarrow> int \<Rightarrow> int \<Rightarrow> 'k mc_state \<Rightarrow> int \<times> 'k mc_state" where
  "mcast_set_loop sys sockfd family onoff st =
     (if family = AF_INET then setsockopt sys sockfd IPPROTO_IP (IP_MULTICAST_LOOP (of_int onoff)) st
      else if family = AF_INET6 then setsockopt sys sockfd IPPROTO_IPV6 (IPV6_MULTICAST_LOOP (of_int onoff)) st
      else fail_with EAFNOSUPPORT st)"

definition mcast_get_loop :: "'k mcast_sys \<Rightarrow> int \<Rightarrow> int \<Rightarrow> 'k mc_state \<Rightarrow> int \<times> 'k mc_state" where
  "mcast_get_loop sys sockfd family st =
     (if family = AF_INET then getsockopt sys sockfd IPPROTO_IP Get_IP_LOOP of_u_char st
      else if family = AF_INET6 then getsockopt sys sockfd IPPROTO_IPV6 Get_IPV6_LOOP sint st
      else fail_with EAFNOSUPPORT st)"

definition mcast_set_ttl :: "'k mcast_sys \<Rightarrow> int \<Rightarrow> int \<Rightarrow> int \<Rightarrow> 'k mc_state \<Rightarrow> int \<times> 'k mc_state" where
  "mcast_set_ttl sys sockfd family ttl st =
     (if family = AF_INET then setsockopt sys sockfd IPPROTO_IP (IP_MULTICAST_TTL (of_int ttl)) st
      else if family = AF_INET6 then setsockopt sys sockfd IPPROTO_IPV6 (IPV6_MULTICAST_HOPS (of_int ttl)) st
      else fail_with EAFNOSUPPORT st)"

definition mcast_get_ttl :: "'k mcast_sys \<Rightarrow> int \<Rightarrow> int \<Rightarrow> 'k mc_state \<Rightarrow> int \<times> 'k mc_state" where
  "mcast_get_ttl sys sockfd family st =
     (if family = AF_INET then getsockopt sys sockfd IPPROTO_IP Get_IP_TTL of_u_char st
      else if family = AF_INET6 then getsockopt sys sockfd IPPROTO_IPV6 Get_IPV6_HOPS sint st
      else fail_with EAFNOSUPPORT st)"

section \<open>Sources\<close>

definition both_fit :: "sockaddr \<Rightarrow> sockaddr \<Rightarrow> bool" where
  "both_fit src grp \<longleftrightarrow> length (sa_bytes grp) \<le> sockaddr_storage_size \<and> length (sa_bytes src) \<le> sockaddr_storage_size"

definition mcast_block_source :: "'k mcast_sys \<Rightarrow> int \<Rightarrow> sockaddr \<Rightarrow> sockaddr \<Rightarrow> 'k mc_state \<Rightarrow> (int \<times> 'k mc_state) option" where
  "mcast_block_source sys sockfd src grp st =
     (if \<not> both_fit src grp then None
      else Some (setsockopt sys sockfd (family_to_level (sa_family grp)) (MCAST_BLOCK_SOURCE 0 grp src) st))"

definition mcast_unblock_source :: "'k mcast_sys \<Rightarrow> int \<Rightarrow> sockaddr \<Rightarrow> sockaddr \<Rightarrow> 'k mc_state \<Rightarrow> (int \<times> 'k mc_state) option" where
  "mcast_unblock_source sys sockfd src grp st =
     (if \<not> both_fit src grp then None
      else Some (setsockopt sys sockfd (family_to_level (sa_family grp)) (MCAST_UNBLOCK_SOURCE 0 grp src) st))"

definition mcast_join_source_group ::
  "'k mcast_sys \<Rightarrow> int \<Rightarrow> sockaddr \<Rightarrow> sockaddr \<Rightarrow> bytes option \<Rightarrow> 'k mc_state \<Rightarrow> (int \<times> 'k mc_state) option" where
  "mcast_join_source_group sys sockfd src grp ifname st =
     (case ifname of
        None \<Rightarrow> None
      | Some ifname \<Rightarrow>
          if \<not> both_fit src grp then None
          else
            let ifc = mc_if_nametoindex sys ifname in
            if ifc = 0 then Some (fail_with ENXIO st)
            else Some (setsockopt sys sockfd (family_to_level (sa_family grp)) (MCAST_JOIN_SOURCE_GROUP ifc grp src) st))"

definition mcast_leave_source_group :: "'k mcast_sys \<Rightarrow> int \<Rightarrow> sockaddr \<Rightarrow> sockaddr \<Rightarrow> 'k mc_state \<Rightarrow> (int \<times> 'k mc_state) option" where
  "mcast_leave_source_group sys sockfd src grp st =
     (if \<not> both_fit src grp then None
      else Some (setsockopt sys sockfd (family_to_level (sa_family grp)) (MCAST_LEAVE_SOURCE_GROUP 0 grp src) st))"

section \<open>Creating a socket\<close>

definition mcast_rdonly :: u32 where "mcast_rdonly = 1"
definition mcast_wronly :: u32 where "mcast_wronly = 2"
definition mcast_rdwr :: u32 where "mcast_rdwr = mcast_rdonly OR mcast_wronly"

definition mcast_close :: "int \<Rightarrow> 'k mc_state \<Rightarrow> 'k mc_state" where
  "mcast_close fd st = st\<lparr>mc_open := remove1 fd (mc_open st)\<rparr>"

text \<open>The part for reading: up to the first call that fails.\<close>

definition bind_and_join ::
  "'k mcast_sys \<Rightarrow> int \<Rightarrow> sockaddr \<Rightarrow> bytes \<Rightarrow> 'k mc_state \<Rightarrow> (int \<times> 'k mc_state) option" where
  "bind_and_join sys mcastfd addr nif st =
     (case setsockopt sys mcastfd SOL_SOCKET (SO_REUSEADDR 1) st of (err, st) \<Rightarrow>
        if err < 0 then Some (err, st)
        else case answer (mc_bind sys mcastfd addr (mc_kern st)) st of (err, st) \<Rightarrow>
          if err < 0 then Some (err, st)
          else mcast_join sys mcastfd addr nif st)"

definition for_reading :: "'k mcast_sys \<Rightarrow> int \<Rightarrow> addrinfo \<Rightarrow> bytes \<Rightarrow> u32 \<Rightarrow> 'k mc_state \<Rightarrow> (int \<times> 'k mc_state) option" where
  "for_reading sys mcastfd res nif flag st =
     (if flag AND mcast_rdonly \<noteq> 0 then bind_and_join sys mcastfd (ai_addr res) nif st else Some (0, st))"

definition for_writing :: "'k mcast_sys \<Rightarrow> int \<Rightarrow> addrinfo \<Rightarrow> bytes \<Rightarrow> u32 \<Rightarrow> int \<times> 'k mc_state \<Rightarrow> int \<times> 'k mc_state" where
  "for_writing sys mcastfd res nif flag r =
     (case r of (err, st) \<Rightarrow>
        if \<not> err < 0 \<and> flag AND mcast_wronly \<noteq> 0 then mcast_set_if sys mcastfd (ai_family res) nif st else (err, st))"

text \<open>The descriptor, and the address when the caller wants it (\<open>want\<close>).\<close>

definition create_mcast_socket ::
  "'k mcast_sys \<Rightarrow> bytes \<Rightarrow> bytes \<Rightarrow> bytes \<Rightarrow> u32 \<Rightarrow> bool \<Rightarrow> 'k mc_state \<Rightarrow> (int \<times> sockaddr option \<times> 'k mc_state) option" where
  "create_mcast_socket sys mcast_addr port nif flag want st =
     (if take 3 mcast_addr \<noteq> [50, 51, 57] then Some (-1, None, st\<lparr>mc_errno := EADDRNOTAVAIL\<rparr>)
      else case mc_getaddrinfo sys mcast_addr port of
        Inl err \<Rightarrow> Some (-1, None, st\<lparr>mc_errno := eai_to_errno (mc_errno st) err\<rparr>)
      | Inr res \<Rightarrow>
          case mc_socket sys (ai_family res) (ai_socktype res) (ai_protocol res) (mc_kern st) of
            (Inl e, k) \<Rightarrow> Some (-1, None, st\<lparr>mc_kern := k, mc_errno := e\<rparr>)
          | (Inr n, k) \<Rightarrow>
              let mcastfd = int n in
              case for_reading sys mcastfd res nif flag (st\<lparr>mc_kern := k, mc_open := mcastfd # mc_open st\<rparr>) of
                None \<Rightarrow> None
              | Some r \<Rightarrow>
                  case for_writing sys mcastfd res nif flag r of (err, st) \<Rightarrow>
                    if err \<noteq> 0 then Some (-1, None, mcast_close mcastfd st)
                    else Some (mcastfd, if want then Some (ai_addr res) else None, st\<lparr>mc_errno := 0\<rparr>))"

section \<open>What the socket is\<close>

lemma answer_open: "answer r st = (e, st') \<Longrightarrow> mc_open st' = mc_open st \<and> (e = 0 \<and> mc_errno st' = mc_errno st \<or> e = -1)"
  by (auto simp: answer_def fail_with_def split: prod.splits sum.splits)

lemma setsockopt_open: "setsockopt sys fd l opt st = (e, st') \<Longrightarrow> mc_open st' = mc_open st \<and> (e = 0 \<and> mc_errno st' = mc_errno st \<or> e = -1)"
  unfolding setsockopt_def by (rule answer_open)

lemma fail_open: "fail_with n st = (e, st') \<Longrightarrow> mc_open st' = mc_open st \<and> e = -1"
  by (auto simp: fail_with_def)

lemma mcast_join_open: "mcast_join sys fd grp ifn st = Some (e, st') \<Longrightarrow> mc_open st' = mc_open st \<and> (e = 0 \<or> e = -1)"
  by (auto simp: mcast_join_def Let_def split: if_splits dest: setsockopt_open fail_open)

lemma mcast_set_if_open: "mcast_set_if sys fd fam ifn st = (e, st') \<Longrightarrow> mc_open st' = mc_open st \<and> (e = 0 \<or> e = -1)"
  by (auto simp: mcast_set_if_def Let_def split: if_splits sum.splits dest: setsockopt_open fail_open)

lemma bind_and_join_open: "bind_and_join sys fd addr nif st = Some (e, st') \<Longrightarrow> mc_open st' = mc_open st \<and> (e = 0 \<or> e = -1)"
  unfolding bind_and_join_def
  by (auto split: prod.splits if_splits dest!: setsockopt_open answer_open mcast_join_open)

text \<open>The kernel has taken an option of a socket.\<close>

definition taken :: "'k mcast_sys \<Rightarrow> int \<Rightarrow> int \<Rightarrow> sockopt \<Rightarrow> bool" where
  "taken sys fd level opt \<longleftrightarrow> (\<exists>k k'. mc_setsockopt sys fd level opt k = (Inr (), k'))"

lemma setsockopt_taken: "setsockopt sys fd l opt st = (0, st') \<Longrightarrow> taken sys fd l opt"
  by (cases "mc_setsockopt sys fd l opt (mc_kern st)")
    (auto simp: setsockopt_def answer_def fail_with_def taken_def split: sum.splits)

lemma join_taken:
  "mcast_join sys fd grp nif st = Some (0, st') \<Longrightarrow>
   taken sys fd (family_to_level (sa_family grp)) (MCAST_JOIN_GROUP (mc_if_nametoindex sys nif) grp)"
  by (auto simp: mcast_join_def Let_def fail_with_def split: if_splits dest: setsockopt_taken)

lemma bind_and_join_taken:
  "bind_and_join sys fd addr nif st = Some (0, st') \<Longrightarrow>
   taken sys fd (family_to_level (sa_family addr)) (MCAST_JOIN_GROUP (mc_if_nametoindex sys nif) addr)"
  by (auto simp: bind_and_join_def split: prod.splits if_splits dest: join_taken)

lemma set_if_taken:
  "mcast_set_if sys fd AF_INET nif st = (0, st') \<Longrightarrow> \<exists>a. mc_ifaddr sys fd (take IFNAMSIZ nif) (mc_kern st) = Inr a \<and> taken sys fd IPPROTO_IP (IP_MULTICAST_IF a)"
  by (auto simp: mcast_set_if_def fail_with_def split: sum.splits dest: setsockopt_taken)

text \<open>
  C33: \<open>create_mcast_socket\<close> either fails and leaves no descriptor open, or returns the one that it
  has opened, for an address that starts with 239; a socket for reading has joined the group on the
  interface, and one for writing to an IPv4 group sends through the interface.
\<close>

theorem mcast_socket_outcome:
  assumes "create_mcast_socket sys a port nif flag want st = Some (r, ss, st')"
  shows "r = -1 \<and> ss = None \<and> mc_open st' = mc_open st \<or>
    0 \<le> r \<and> mc_open st' = r # mc_open st \<and> take 3 a = [50, 51, 57] \<and>
    (\<exists>res. mc_getaddrinfo sys a port = Inr res \<and> ss = (if want then Some (ai_addr res) else None) \<and>
      (flag AND mcast_rdonly \<noteq> 0 \<longrightarrow> taken sys r (family_to_level (sa_family (ai_addr res))) (MCAST_JOIN_GROUP (mc_if_nametoindex sys nif) (ai_addr res))) \<and>
      (flag AND mcast_wronly \<noteq> 0 \<longrightarrow> ai_family res = AF_INET \<longrightarrow>
        (\<exists>k x. mc_ifaddr sys r (take IFNAMSIZ nif) k = Inr x \<and> taken sys r IPPROTO_IP (IP_MULTICAST_IF x))))"
proof (cases "take 3 a \<noteq> [50, 51, 57] \<or> (\<exists>e. mc_getaddrinfo sys a port = Inl e)")
  case True
  then have "r = -1 \<and> ss = None \<and> mc_open st' = mc_open st"
  proof
    assume "take 3 a \<noteq> [50, 51, 57]"
    then show ?thesis using assms unfolding create_mcast_socket_def by auto
  next
    assume "\<exists>e. mc_getaddrinfo sys a port = Inl e"
    then show ?thesis using assms unfolding create_mcast_socket_def by (auto split: if_splits)
  qed
  then show ?thesis ..
next
  case False
  then obtain res where pre: "take 3 a = [50, 51, 57]" "mc_getaddrinfo sys a port = Inr res"
    by (cases "mc_getaddrinfo sys a port") auto
  obtain q k where qk: "mc_socket sys (ai_family res) (ai_socktype res) (ai_protocol res) (mc_kern st) = (q, k)" by fastforce
  show ?thesis
  proof (cases q)
    case (Inl e)
    then show ?thesis using assms pre qk by (auto simp: create_mcast_socket_def)
  next
    case (Inr n)
    define s0 where "s0 = st\<lparr>mc_kern := k, mc_open := int n # mc_open st\<rparr>"
    from assms pre qk Inr obtain e1 s1 e2 s2 where m: "for_reading sys (int n) res nif flag s0 = Some (e1, s1)"
      and w: "for_writing sys (int n) res nif flag (e1, s1) = (e2, s2)"
      and c: "(r, ss, st') = (if e2 \<noteq> 0 then (-1, None, mcast_close (int n) s2)
        else (int n, if want then Some (ai_addr res) else None, s2\<lparr>mc_errno := 0\<rparr>))"
      unfolding create_mcast_socket_def Let_def s0_def by (auto split: option.splits prod.splits if_splits)
    have o1: "mc_open s1 = int n # mc_open st" "e1 = 0 \<or> e1 = -1"
      using m bind_and_join_open [of sys "int n" "ai_addr res" nif s0 e1 s1] by (auto simp: for_reading_def s0_def split: if_splits)
    have o2: "mc_open s2 = int n # mc_open st" "e2 = 0 \<longrightarrow> e1 = 0"
      using w o1 mcast_set_if_open [of sys "int n" "ai_family res" nif s1 e2 s2] by (auto simp: for_writing_def split: if_splits)
    have "e2 = 0 \<longrightarrow> flag AND mcast_rdonly \<noteq> 0 \<longrightarrow> taken sys (int n) (family_to_level (sa_family (ai_addr res))) (MCAST_JOIN_GROUP (mc_if_nametoindex sys nif) (ai_addr res))"
      using m o2(2) by (auto simp: for_reading_def dest: bind_and_join_taken)
    moreover have "e2 = 0 \<longrightarrow> flag AND mcast_wronly \<noteq> 0 \<longrightarrow> ai_family res = AF_INET \<longrightarrow>
        (\<exists>k x. mc_ifaddr sys (int n) (take IFNAMSIZ nif) k = Inr x \<and> taken sys (int n) IPPROTO_IP (IP_MULTICAST_IF x))"
      using w o2(2) set_if_taken [of sys "int n" nif s1 s2] by (auto simp: for_writing_def)
    ultimately show ?thesis using pre c o2(1) by (cases "e2 = 0") (simp_all add: mcast_close_def)
  qed
qed

text \<open>A kernel that agrees to everything, and the address 239.0.0.1.\<close>

definition yes_kernel :: "unit mcast_sys" where
  "yes_kernel = \<lparr>mc_getaddrinfo = \<lambda>_ _. Inr \<lparr>ai_family = AF_INET, ai_socktype = 2, ai_protocol = 0, ai_addr = \<lparr>sa_family = AF_INET, sa_bytes = replicate 16 0\<rparr>\<rparr>,
     mc_socket = \<lambda>_ _ _ _. (Inr 5, ()), mc_bind = \<lambda>_ _ _. (Inr (), ()), mc_setsockopt = \<lambda>_ _ _ _. (Inr (), ()),
     mc_getsockopt = \<lambda>_ _ _ _. Inr 1, mc_if_nametoindex = \<lambda>_. 2, mc_ifaddr = \<lambda>_ _ _. Inr 7\<rparr>"

theorem mcast_socket_outcome_witness:
  "\<exists>ss st. create_mcast_socket yes_kernel [50, 51, 57] [] [] mcast_rdwr True \<lparr>mc_kern = (), mc_errno = 0, mc_open = [4]\<rparr> = Some (5, ss, st) \<and> mc_open st = [5, 4]"
proof -
  let ?st = "\<lparr>mc_kern = (), mc_errno = 0, mc_open = [4]\<rparr>"
  obtain ss st where c: "create_mcast_socket yes_kernel [50, 51, 57] [] [] mcast_rdwr True ?st = Some (5, ss, st)"
    by (simp add: create_mcast_socket_def for_reading_def for_writing_def yes_kernel_def bind_and_join_def setsockopt_def answer_def mcast_join_def mcast_set_if_def
        mcast_rdwr_def mcast_rdonly_def mcast_wronly_def sockaddr_storage_size_def Let_def)
  from mcast_socket_outcome [OF c] have "mc_open st = [5, 4]" by simp
  with c show ?thesis by blast
qed

section \<open>The range of packets\<close>

lemma ucast_ucast_u8_u32: "ucast (ucast (x :: u8) :: u32) = x"
  by (rule bit_word_eqI) (auto simp: bit_simps dest: bit_imp_le_length)

text \<open>
  With a kernel that answers the value it was given, the time to live that is read back is the one
  that was set, modulo 256 for IPv4: the code passes it in a byte.
\<close>

theorem mcast_ttl_kept:
  assumes "\<And>v k k'. mc_setsockopt sys fd IPPROTO_IP (IP_MULTICAST_TTL v) k = (Inr (), k') \<Longrightarrow> mc_getsockopt sys fd IPPROTO_IP Get_IP_TTL k' = Inr (ucast v)"
    and "mcast_set_ttl sys fd AF_INET ttl st = (0, st')"
  shows "mcast_get_ttl sys fd AF_INET st' = (ttl mod 256, st')"
proof -
  obtain k' where k: "mc_setsockopt sys fd IPPROTO_IP (IP_MULTICAST_TTL (of_int ttl)) (mc_kern st) = (Inr (), k')" "mc_kern st' = k'"
    using assms(2) by (auto simp: mcast_set_ttl_def setsockopt_def answer_def fail_with_def split: prod.splits sum.splits)
  have "of_u_char (ucast (of_int ttl :: u8)) = ttl mod 256"
    by (simp add: of_u_char_def uint_word_of_int ucast_ucast_u8_u32)
  then show ?thesis using assms(1) [OF k(1)] k(2) by (simp add: mcast_get_ttl_def getsockopt_def)
qed

end
