(* ===== verification/SemLock.thy ===== *)
theory SemLock
  imports Prelude
begin

text \<open>
  \<open>interprocess/lock.c\<close>: a lock between processes made of one System V semaphore, and the steps of
  processes that use it. The semaphore is its value and what the kernel adds when a process ends.
\<close>

section \<open>The semaphore\<close>

record sem =
  sem_val :: int
  sem_adj :: "nat \<Rightarrow> int"

text \<open>\<open>semop\<close> with \<open>SEM_UNDO\<close> by a process, \<open>None\<close> while it has to sleep; \<open>SETVAL\<close>; the end of a process.\<close>

definition semop :: "int \<Rightarrow> nat \<Rightarrow> sem \<Rightarrow> sem option" where
  "semop sem_op p s =
     (if sem_val s + sem_op < 0 then None
      else Some \<lparr>sem_val = sem_val s + sem_op, sem_adj = (sem_adj s)(p := sem_adj s p - sem_op)\<rparr>)"

definition sem_setval :: "int \<Rightarrow> sem \<Rightarrow> sem" where
  "sem_setval v s = \<lparr>sem_val = v, sem_adj = \<lambda>_. 0\<rparr>"

definition sem_exit :: "nat \<Rightarrow> sem \<Rightarrow> sem" where
  "sem_exit p s = \<lparr>sem_val = max 0 (sem_val s + sem_adj s p), sem_adj = (sem_adj s)(p := 0)\<rparr>"

section \<open>The code\<close>

text \<open>
  \<open>semget\<close> with \<open>IPC_CREAT\<close> finds the semaphore of the key or makes one; \<open>granted\<close>: it may.
  The result is the identifier and the semaphore.
\<close>

definition sem_init :: "bool \<Rightarrow> int \<Rightarrow> sem option \<Rightarrow> int \<times> sem option" where
  "sem_init granted ident found =
     (if \<not> granted then (-1, found)
      else
        let s = (case found of None \<Rightarrow> \<lparr>sem_val = 0, sem_adj = \<lambda>_. 0\<rparr> | Some s \<Rightarrow> s)
        in (ident, Some (sem_setval 1 s)))"

text \<open>How the calls of \<open>semop\<close> in the loops end; the state is the one in which the last of them is made.\<close>

datatype attempt = Done | Interrupted | Refused

fun sem_loop :: "int \<Rightarrow> attempt list \<Rightarrow> nat \<Rightarrow> sem \<Rightarrow> (int \<times> sem) option" where
  "sem_loop sem_op [] p s = None"
| "sem_loop sem_op (Interrupted # a) p s = sem_loop sem_op a p s"
| "sem_loop sem_op (Refused # a) p s = Some (-1, s)"
| "sem_loop sem_op (Done # a) p s = map_option (Pair 0) (semop sem_op p s)"

definition sem_unlock :: "attempt list \<Rightarrow> nat \<Rightarrow> sem \<Rightarrow> (int \<times> sem) option" where
  "sem_unlock a p s = sem_loop 1 a p s"

definition sem_lock :: "attempt list \<Rightarrow> nat \<Rightarrow> sem \<Rightarrow> (int \<times> sem) option" where
  "sem_lock a p s = sem_loop (-1) a p s"

section \<open>Processes that use the lock\<close>

text \<open>
  The semaphore and the processes that hold the lock. A process that does not hold it asks for it,
  one that holds it gives it back, each may end, and calls may fail.
\<close>

inductive lock_step :: "sem \<times> nat set \<Rightarrow> sem \<times> nat set \<Rightarrow> bool" where
  take_lock: "p \<notin> H \<Longrightarrow> sem_lock a p s = Some (r, s') \<Longrightarrow> lock_step (s, H) (s', if r = 0 then insert p H else H)"
| give_back: "p \<in> H \<Longrightarrow> sem_unlock a p s = Some (r, s') \<Longrightarrow> lock_step (s, H) (s', if r = 0 then H - {p} else H)"
| process_ends: "lock_step (s, H) (sem_exit p s, H - {p})"

inductive lock_reach :: "sem \<times> nat set \<Rightarrow> bool" where
  fresh: "sem_init True ident found = (i, Some s) \<Longrightarrow> lock_reach (s, {})"
| later: "lock_reach x \<Longrightarrow> lock_step x y \<Longrightarrow> lock_reach y"

lemma sem_loop_cases:
  assumes "sem_loop n a p s = Some (r, s')"
  shows "r = -1 \<and> s' = s \<or> r = 0 \<and> semop n p s = Some s'"
  using assms by (induction n a p s rule: sem_loop.induct) auto

text \<open>Who holds the lock is what the kernel would give back for it.\<close>

definition lock_ok :: "sem \<times> nat set \<Rightarrow> bool" where
  "lock_ok x = (case x of (s, H) \<Rightarrow> (\<forall>p. sem_adj s p = (if p \<in> H then 1 else 0)) \<and>
     (H = {} \<and> sem_val s = 1 \<or> (\<exists>p. H = {p}) \<and> sem_val s = 0))"

lemma lock_step_ok: "lock_ok x \<Longrightarrow> lock_step x y \<Longrightarrow> lock_ok y"
proof (cases x)
  case (Pair s H)
  assume ok: "lock_ok x" and st: "lock_step x y"
  from st show "lock_ok y" unfolding Pair
  proof (cases rule: lock_step.cases)
    case (take_lock p a r s')
    then have y: "p \<notin> H" "y = (s', if r = 0 then insert p H else H)" "sem_loop (-1) a p s = Some (r, s')"
      by (simp_all add: sem_lock_def)
    from sem_loop_cases [OF y(3)] show ?thesis
    proof
      assume "r = 0 \<and> semop (-1) p s = Some s'"
      then have "r = 0" "0 < sem_val s" "s' = \<lparr>sem_val = sem_val s - 1, sem_adj = (sem_adj s)(p := sem_adj s p + 1)\<rparr>"
        by (auto simp: semop_def split: if_splits)
      moreover from this(2) ok have "H = {}" "sem_val s = 1" "\<forall>p. sem_adj s p = 0" by (auto simp: Pair lock_ok_def)
      ultimately show ?thesis using y(2) by (simp add: lock_ok_def)
    qed (use ok y in \<open>simp add: Pair\<close>)
  next
    case (give_back p a r s')
    then have y: "p \<in> H" "y = (s', if r = 0 then H - {p} else H)" "sem_loop 1 a p s = Some (r, s')"
      by (simp_all add: sem_unlock_def)
    from sem_loop_cases [OF y(3)] show ?thesis
    proof
      assume "r = 0 \<and> semop 1 p s = Some s'"
      then have "r = 0" "s' = \<lparr>sem_val = sem_val s + 1, sem_adj = (sem_adj s)(p := sem_adj s p - 1)\<rparr>"
        by (auto simp: semop_def split: if_splits)
      moreover from y(1) ok have "H = {p}" "sem_val s = 0" "\<forall>q. sem_adj s q = (if q = p then 1 else 0)" by (auto simp: Pair lock_ok_def)
      ultimately show ?thesis using y(2) by (simp add: lock_ok_def)
    qed (use ok y in \<open>simp add: Pair\<close>)
  next
    case (process_ends p)
    then have y: "y = (sem_exit p s, H - {p})" by simp
    show ?thesis
    proof (cases "p \<in> H")
      case True
      with ok have "H = {p}" "sem_val s = 0" "\<forall>q. sem_adj s q = (if q = p then 1 else 0)" by (auto simp: Pair lock_ok_def)
      then show ?thesis by (simp add: y lock_ok_def sem_exit_def)
    next
      case False
      with ok have "sem_adj s p = 0" "H - {p} = H" "0 \<le> sem_val s" by (auto simp: Pair lock_ok_def)
      then have "sem_exit p s = s" by (simp add: sem_exit_def fun_upd_idem)
      then show ?thesis using ok by (simp add: y Pair \<open>H - {p} = H\<close>)
    qed
  qed
qed

lemma lock_reach_ok: "lock_reach x \<Longrightarrow> lock_ok x"
proof (induction rule: lock_reach.induct)
  case (fresh ident found i s)
  then show ?case by (auto simp: sem_init_def sem_setval_def Let_def lock_ok_def)
next
  case (later x y)
  then show ?case using lock_step_ok by blast
qed

text \<open>
  C16: however processes take the lock, give it back, are interrupted, fail or end, at most one
  holds it, no other can take it meanwhile, and it can be taken whenever no process holds it, also
  after the one that held it has ended.
\<close>

theorem lock_excludes:
  assumes "lock_reach (s, H)"
  shows "finite H \<and> card H \<le> 1 \<and> (\<forall>p. (\<exists>s'. sem_lock [Done] p s = Some (0, s')) \<longleftrightarrow> H = {})"
  using lock_reach_ok [OF assms] by (auto simp: lock_ok_def sem_lock_def semop_def)

text \<open>
  \<open>sem_init\<close> makes the lock free whoever holds it: a process that starts later and calls it, as
  each process has to for the identifier, takes the lock from under the one that holds it.
\<close>

theorem lock_lost_on_init:
  assumes "lock_reach (s, {p})"
  shows "\<exists>s' s''. sem_init True ident (Some s) = (ident, Some s') \<and> sem_lock [Done] q s' = Some (0, s'') \<and> sem_lock [Done] q s = None"
proof -
  have "sem_val s = 0" using lock_reach_ok [OF assms] by (auto simp: lock_ok_def)
  then show ?thesis by (simp add: sem_init_def sem_setval_def sem_lock_def semop_def)
qed

lemma held_by_7:
  "lock_reach (\<lparr>sem_val = 0, sem_adj = (\<lambda>_. 0)(7 := 1)\<rparr>, {7})"
proof -
  let ?s = "\<lparr>sem_val = 1, sem_adj = \<lambda>_. 0\<rparr>"
  have "lock_reach (?s, {})" by (rule lock_reach.fresh [of 3 None 3]) (simp add: sem_init_def sem_setval_def)
  moreover have "lock_step (?s, {}) (\<lparr>sem_val = 0, sem_adj = (\<lambda>_. 0)(7 := 1)\<rparr>, if (0 :: int) = 0 then insert 7 {} else {})"
    by (rule lock_step.take_lock [of _ _ "[Interrupted, Done]"]) (simp_all add: sem_lock_def semop_def)
  ultimately show ?thesis using lock_reach.later by fastforce
qed

theorem lock_excludes_witness:
  "\<not> (\<exists>s'. sem_lock [Done] 8 \<lparr>sem_val = 0, sem_adj = (\<lambda>_. 0)(7 := 1)\<rparr> = Some (0, s'))"
  using lock_excludes [OF held_by_7] by blast

theorem lock_lost_on_init_witness:
  "\<exists>s' s''. sem_init True 3 (Some \<lparr>sem_val = 0, sem_adj = (\<lambda>_. 0)(7 := 1)\<rparr>) = (3, Some s') \<and> sem_lock [Done] 8 s' = Some (0, s'')"
  using lock_lost_on_init [OF held_by_7] by blast

end
