(* ===== verification/FileLock.thy ===== *)
theory FileLock
  imports Prelude
begin

text \<open>
  \<open>interprocess/filelock.h\<close>: locks on parts of a file. The macros fill in a \<open>struct flock\<close>; what the
  kernel does with it is the table of the locks of a file, each with its process, its kind and its
  range of bytes, as POSIX describes record locks.
\<close>

section \<open>The code\<close>

datatype lock_type = F_RDLCK | F_WRLCK | F_UNLCK
datatype lock_whence = SEEK_SET | SEEK_CUR | SEEK_END
datatype lock_cmd = F_SETLK | F_SETLKW

record flock =
  l_type :: lock_type
  l_whence :: lock_whence
  l_start :: int
  l_len :: int

definition filelock_lock :: "(lock_cmd \<Rightarrow> flock \<Rightarrow> 'a) \<Rightarrow> lock_cmd \<Rightarrow> lock_type \<Rightarrow> int \<Rightarrow> lock_whence \<Rightarrow> int \<Rightarrow> 'a" where
  "filelock_lock fcntl cmd ty offset whence len = fcntl cmd \<lparr>l_type = ty, l_whence = whence, l_start = offset, l_len = len\<rparr>"

definition filelock_rlock where "filelock_rlock fcntl offset whence len = filelock_lock fcntl F_SETLKW F_RDLCK offset whence len"
definition filelock_try_rlock where "filelock_try_rlock fcntl offset whence len = filelock_lock fcntl F_SETLK F_RDLCK offset whence len"
definition filelock_rlockfile where "filelock_rlockfile fcntl = filelock_lock fcntl F_SETLKW F_RDLCK 0 SEEK_SET 0"
definition filelock_try_rlockfile where "filelock_try_rlockfile fcntl = filelock_lock fcntl F_SETLK F_RDLCK 0 SEEK_SET 0"
definition filelock_wlock where "filelock_wlock fcntl offset whence len = filelock_lock fcntl F_SETLKW F_WRLCK offset whence len"
definition filelock_try_wlock where "filelock_try_wlock fcntl offset whence len = filelock_lock fcntl F_SETLK F_WRLCK offset whence len"
definition filelock_wlockfile where "filelock_wlockfile fcntl = filelock_lock fcntl F_SETLKW F_WRLCK 0 SEEK_SET 0"
definition filelock_try_wlockfile where "filelock_try_wlockfile fcntl = filelock_lock fcntl F_SETLK F_WRLCK 0 SEEK_SET 0"
definition filelock_unlock where "filelock_unlock fcntl offset whence len = filelock_lock fcntl F_SETLK F_UNLCK offset whence len"
definition filelock_unlockfile where "filelock_unlockfile fcntl = filelock_lock fcntl F_SETLK F_UNLCK 0 SEEK_SET 0"

section \<open>The locks of a file\<close>

text \<open>A range of bytes; \<open>None\<close> as its end is the largest offset a file can have.\<close>

type_synonym lock_range = "nat \<times> nat option"

definition in_range :: "nat \<Rightarrow> lock_range \<Rightarrow> bool" where
  "in_range b r = (fst r \<le> b \<and> (case snd r of None \<Rightarrow> True | Some e \<Rightarrow> b < e))"

definition before :: "nat option \<Rightarrow> nat \<Rightarrow> bool" where
  "before e b = (case e of None \<Rightarrow> False | Some e \<Rightarrow> e \<le> b)"

definition overlap :: "lock_range \<Rightarrow> lock_range \<Rightarrow> bool" where
  "overlap r s = (\<not> before (snd r) (fst s) \<and> \<not> before (snd s) (fst r))"

text \<open>The range of a request of a process whose file position is \<open>pos\<close>; a negative length reaches back.\<close>

definition range_of :: "int \<Rightarrow> int \<Rightarrow> flock \<Rightarrow> lock_range option" where
  "range_of pos fsize fl =
     (let start = (case l_whence fl of SEEK_SET \<Rightarrow> 0 | SEEK_CUR \<Rightarrow> pos | SEEK_END \<Rightarrow> fsize) + l_start fl;
          first = (if l_len fl < 0 then start + l_len fl else start)
      in if first < 0 then None
         else Some (nat first, if l_len fl = 0 then None else Some (nat (if l_len fl < 0 then start else start + l_len fl))))"

record file_lock =
  owner :: nat
  exclusive :: bool
  bytes_of :: lock_range

definition covers :: "nat \<Rightarrow> file_lock \<Rightarrow> bool" where
  "covers b e = in_range b (bytes_of e)"

definition holds :: "file_lock list \<Rightarrow> nat \<Rightarrow> bool \<Rightarrow> nat \<Rightarrow> bool" where
  "holds tab p w b = list_ex (\<lambda>e. owner e = p \<and> exclusive e = w \<and> covers b e) tab"

text \<open>What is left of a lock of a process when it asks for a range.\<close>

definition cut :: "nat \<Rightarrow> lock_range \<Rightarrow> file_lock \<Rightarrow> file_lock list" where
  "cut p r e =
     (if owner e \<noteq> p \<or> \<not> overlap r (bytes_of e) then [e]
      else (if fst (bytes_of e) < fst r then [e\<lparr>bytes_of := (fst (bytes_of e), Some (fst r))\<rparr>] else []) @
        (case snd r of None \<Rightarrow> [] | Some k \<Rightarrow> if before (snd (bytes_of e)) k then [] else [e\<lparr>bytes_of := (k, snd (bytes_of e))\<rparr>]))"

definition conflict :: "nat \<Rightarrow> lock_type \<Rightarrow> lock_range \<Rightarrow> file_lock list \<Rightarrow> bool" where
  "conflict p ty r tab = (ty \<noteq> F_UNLCK \<and> list_ex (\<lambda>e. owner e \<noteq> p \<and> overlap r (bytes_of e) \<and> (ty = F_WRLCK \<or> exclusive e)) tab)"

text \<open>\<open>fcntl\<close> by a process, \<open>None\<close> while it has to wait.\<close>

definition fcntl_lock :: "nat \<Rightarrow> int \<Rightarrow> int \<Rightarrow> file_lock list \<Rightarrow> lock_cmd \<Rightarrow> flock \<Rightarrow> (int \<times> file_lock list) option" where
  "fcntl_lock p pos fsize tab cmd fl =
     (case range_of pos fsize fl of
        None \<Rightarrow> Some (-1, tab)
      | Some r \<Rightarrow>
          if conflict p (l_type fl) r tab then (if cmd = F_SETLK then Some (-1, tab) else None)
          else Some (0, (if l_type fl = F_UNLCK then [] else [\<lparr>owner = p, exclusive = (l_type fl = F_WRLCK), bytes_of = r\<rparr>]) @ concat (map (cut p r) tab)))"

section \<open>Who holds what\<close>

lemma in_overlap: "in_range b r \<Longrightarrow> in_range b s \<Longrightarrow> overlap r s"
  by (auto simp: in_range_def overlap_def before_def split: option.splits)

lemma cut_covers:
  "holds (cut p r e) q w b \<longleftrightarrow>
   owner e = q \<and> exclusive e = w \<and> covers b e \<and> \<not> (q = p \<and> in_range b r)"
proof (cases "owner e \<noteq> p \<or> \<not> overlap r (bytes_of e)")
  case True
  then show ?thesis using in_overlap [of b r "bytes_of e"] by (auto simp: cut_def covers_def holds_def)
next
  case False
  obtain a k where r: "r = (a, k)" by (cases r)
  obtain c l where e: "bytes_of e = (c, l)" by (cases "bytes_of e")
  show ?thesis using False
    by (auto simp: holds_def cut_def covers_def r e in_range_def overlap_def before_def split: option.splits if_splits)
qed

lemma holds_append: "holds (l @ m) q w b \<longleftrightarrow> holds l q w b \<or> holds m q w b"
  by (simp add: holds_def)

lemma cut_all: "holds (concat (map (cut p r) tab)) q w b \<longleftrightarrow> holds tab q w b \<and> \<not> (q = p \<and> in_range b r)"
proof (induction tab)
  case (Cons e tab)
  then show ?case using cut_covers [of p r e q w b] holds_append by (auto simp: holds_def)
qed (simp add: holds_def)

text \<open>
  A call that succeeds gives the process the bytes it asks for in the way it asks for them, or
  takes them from it, and changes no other byte and no lock of another process.
\<close>

theorem filelock_bytes:
  assumes "filelock_lock (fcntl_lock p pos fsize tab) cmd ty offset whence len = Some (0, tab')"
    and "range_of pos fsize \<lparr>l_type = ty, l_whence = whence, l_start = offset, l_len = len\<rparr> = Some r"
  shows "holds tab' q w b \<longleftrightarrow> (if q = p \<and> in_range b r then ty \<noteq> F_UNLCK \<and> w = (ty = F_WRLCK) else holds tab q w b)"
proof -
  have t: "tab' = (if ty = F_UNLCK then [] else [\<lparr>owner = p, exclusive = (ty = F_WRLCK), bytes_of = r\<rparr>]) @ concat (map (cut p r) tab)"
    using assms by (auto simp: filelock_lock_def fcntl_lock_def split: if_splits)
  show ?thesis unfolding t holds_append cut_all by (auto simp: holds_def covers_def)
qed

text \<open>Runs of processes that lock and unlock parts of a file whose size and whose positions may change.\<close>

inductive lock_run :: "file_lock list \<Rightarrow> bool" where
  none: "lock_run []"
| call: "lock_run tab \<Longrightarrow> filelock_lock (fcntl_lock p pos fsize tab) cmd ty offset whence len = Some (ret, tab') \<Longrightarrow> lock_run tab'"

definition compatible :: "file_lock list \<Rightarrow> bool" where
  "compatible tab \<longleftrightarrow> (\<forall>p q w b. p \<noteq> q \<longrightarrow> holds tab p True b \<longrightarrow> \<not> holds tab q w b)"

lemma fcntl_cases:
  assumes "filelock_lock (fcntl_lock p pos fsize tab) cmd ty offset whence len = Some (ret, tab')"
  shows "tab' = tab \<or> ret = 0 \<and> (\<exists>r. range_of pos fsize \<lparr>l_type = ty, l_whence = whence, l_start = offset, l_len = len\<rparr> = Some r \<and> \<not> conflict p ty r tab)"
  using assms by (auto simp: filelock_lock_def fcntl_lock_def split: option.splits if_splits)

lemma conflict_bytes: "\<not> conflict p ty r tab \<Longrightarrow> ty \<noteq> F_UNLCK \<Longrightarrow> q \<noteq> p \<Longrightarrow> in_range b r \<Longrightarrow> holds tab q w b \<Longrightarrow> ty \<noteq> F_WRLCK \<and> \<not> w"
  by (auto simp: conflict_def holds_def list_ex_iff covers_def dest: in_overlap)

lemma call_compatible:
  assumes "compatible tab" "filelock_lock (fcntl_lock p pos fsize tab) cmd ty offset whence len = Some (0, tab')"
    and r: "range_of pos fsize \<lparr>l_type = ty, l_whence = whence, l_start = offset, l_len = len\<rparr> = Some r" "\<not> conflict p ty r tab"
  shows "compatible tab'"
  unfolding compatible_def
proof (intro allI impI)
  fix q q' w b assume q: "q \<noteq> q'" "holds tab' q True b"
  note h = filelock_bytes [OF assms(2) r(1)]
  have c: "holds tab x True b \<Longrightarrow> x \<noteq> y \<Longrightarrow> \<not> holds tab y v b" for x y v using assms(1) by (auto simp: compatible_def)
  show "\<not> holds tab' q' w b"
  proof (cases "in_range b r")
    case True
    note cb = conflict_bytes [OF r(2) _ _ True]
    have 1: "\<not> holds tab q' w b" if "q = p" using that q h [of q True b] True cb [of q' w] by auto
    have 2: "\<not> holds tab' p w b" if "q \<noteq> p" using that q(2) h [of q True b] h [of p w b] True cb [of q True] by auto
    show ?thesis using 1 2 q h [of q True b] h [of q' w b] c [of q q' w] by (cases "q = p"; cases "q' = p") auto
  next
    case False
    then show ?thesis using q h [of q True b] h [of q' w b] c by auto
  qed
qed

lemma lock_run_compatible: "lock_run tab \<Longrightarrow> compatible tab"
proof (induction rule: lock_run.induct)
  case none
  then show ?case by (simp add: compatible_def holds_def)
next
  case (call tab p pos fsize cmd ty offset whence len ret tab')
  then show ?case using fcntl_cases [OF call.hyps(2)] call_compatible by blast
qed

text \<open>
  However processes lock and unlock parts of a file, no byte that one has locked for writing is
  locked by another, and after \<open>filelock_wlockfile\<close> no other process holds any byte of it.
\<close>

theorem filelock_excludes:
  assumes "lock_run tab"
  shows "(\<forall>p q w b. p \<noteq> q \<longrightarrow> holds tab p True b \<longrightarrow> \<not> holds tab q w b) \<and>
    (\<forall>p pos fsize tab' q w b. filelock_wlockfile (fcntl_lock p pos fsize tab) = Some (0, tab') \<longrightarrow> q \<noteq> p \<longrightarrow> \<not> holds tab' q w b)"
proof (intro conjI allI impI)
  show "p \<noteq> q \<Longrightarrow> holds tab p True b \<Longrightarrow> \<not> holds tab q w b" for p q w b
    using lock_run_compatible [OF assms] by (auto simp: compatible_def)
next
  fix p pos fsize tab' q w b
  assume a: "filelock_wlockfile (fcntl_lock p pos fsize tab) = Some (0, tab')" "q \<noteq> p"
  then have l: "filelock_lock (fcntl_lock p pos fsize tab) F_SETLKW F_WRLCK 0 SEEK_SET 0 = Some (0, tab')" by (simp add: filelock_wlockfile_def)
  have "range_of pos fsize \<lparr>l_type = F_WRLCK, l_whence = SEEK_SET, l_start = 0, l_len = 0\<rparr> = Some (0, None)" by (simp add: range_of_def)
  from filelock_bytes [OF l this, of p True b] have "holds tab' p True b" by (simp add: in_range_def)
  moreover have "compatible tab'" using lock_run_compatible [OF lock_run.call [OF assms l]] .
  ultimately show "\<not> holds tab' q w b" using a(2) unfolding compatible_def by metis
qed

text \<open>The examples of the header, at position 10: bytes 12 to 15, and bytes 8 to 11 for the length -4.\<close>

lemma header_examples:
  "filelock_rlock (\<lambda>_. range_of 10 fsize) 2 SEEK_CUR 4 = Some (12, Some 16)"
  "filelock_wlock (\<lambda>_. range_of 10 fsize) 2 SEEK_CUR (-4) = Some (8, Some 12)"
  "filelock_try_rlock (\<lambda>_. range_of 10 fsize) 2 SEEK_SET 0 = Some (2, None)"
  by (simp_all add: filelock_rlock_def filelock_wlock_def filelock_try_rlock_def filelock_lock_def range_of_def)

theorem filelock_excludes_witness:
  "filelock_try_wlock (fcntl_lock 1 0 100 []) 0 SEEK_SET 8 = Some (0, [\<lparr>owner = 1, exclusive = True, bytes_of = (0, Some 8)\<rparr>]) \<and>
   \<not> holds [\<lparr>owner = 1, exclusive = True, bytes_of = (0, Some 8)\<rparr>] 2 False 5"
proof -
  let ?tab = "[\<lparr>owner = 1, exclusive = True, bytes_of = (0, Some 8)\<rparr>]"
  have l: "filelock_lock (fcntl_lock 1 0 100 []) F_SETLK F_WRLCK 0 SEEK_SET 8 = Some (0, ?tab)"
    by (simp add: filelock_lock_def fcntl_lock_def range_of_def conflict_def)
  have "holds ?tab 1 True 5" by (simp add: holds_def covers_def in_range_def)
  then have "\<not> holds ?tab 2 False 5" using filelock_excludes [OF lock_run.call [OF lock_run.none l]] by (metis one_eq_numeral_iff semiring_norm(85))
  with l show ?thesis by (simp add: filelock_try_wlock_def)
qed

end
