(* ===== verification/Atomic.thy ===== *)
theory Atomic
  imports Prelude "HOL-Library.Multiset"
begin

unbundle bit_operations_syntax

text \<open>
  \<open>atomic.h\<close>: operations on an \<open>int\<close> that several threads share. Each is one locked instruction of
  the x86, so a run of threads is a sequence of operations; the counter is the 32-bit word in memory.
\<close>

section \<open>The code\<close>

type_synonym atomic_t = u32

definition atomic_read :: "atomic_t \<Rightarrow> int" where "atomic_read v = sint v"
definition atomic_set :: "int \<Rightarrow> atomic_t" where "atomic_set i = of_int i"
definition atomic_add :: "int \<Rightarrow> atomic_t \<Rightarrow> atomic_t" where "atomic_add i v = v + of_int i"
definition atomic_sub :: "int \<Rightarrow> atomic_t \<Rightarrow> atomic_t" where "atomic_sub i v = v - of_int i"

text \<open>The result of the code first, then the counter.\<close>

definition atomic_sub_and_test :: "int \<Rightarrow> atomic_t \<Rightarrow> int \<times> atomic_t" where
  "atomic_sub_and_test i v = (let v = v - of_int i in (c_bool (v = 0), v))"

definition atomic_inc :: "atomic_t \<Rightarrow> atomic_t" where "atomic_inc v = v + 1"
definition atomic_dec :: "atomic_t \<Rightarrow> atomic_t" where "atomic_dec v = v - 1"

definition atomic_dec_and_test :: "atomic_t \<Rightarrow> int \<times> atomic_t" where
  "atomic_dec_and_test v = (let v = v - 1 in (c_bool (v = 0), v))"

definition atomic_inc_and_test :: "atomic_t \<Rightarrow> int \<times> atomic_t" where
  "atomic_inc_and_test v = (let v = v + 1 in (c_bool (v = 0), v))"

definition atomic_add_negative :: "int \<Rightarrow> atomic_t \<Rightarrow> int \<times> atomic_t" where
  "atomic_add_negative i v = (let v = v + of_int i in (c_bool (sint v < 0), v))"

text \<open>\<open>xadd\<close> leaves the old value in the register; the sum is taken once more, in C. \<open>None\<close>: it overflows.\<close>

definition atomic_add_return :: "int \<Rightarrow> atomic_t \<Rightarrow> (int \<times> atomic_t) option" where
  "atomic_add_return i v =
     (let r = sint v + i in if r < - (2 ^ 31) \<or> r \<ge> 2 ^ 31 then None else Some (r, v + of_int i))"

definition atomic_sub_return :: "int \<Rightarrow> atomic_t \<Rightarrow> (int \<times> atomic_t) option" where
  "atomic_sub_return i v = (if i = - (2 ^ 31) then None else atomic_add_return (- i) v)"

definition atomic_inc_return :: "atomic_t \<Rightarrow> (int \<times> atomic_t) option" where
  "atomic_inc_return v = atomic_add_return 1 v"

definition atomic_dec_return :: "atomic_t \<Rightarrow> (int \<times> atomic_t) option" where
  "atomic_dec_return v = atomic_sub_return 1 v"

definition atomic_clear_mask :: "u32 \<Rightarrow> atomic_t \<Rightarrow> atomic_t" where "atomic_clear_mask bits v = NOT bits AND v"
definition atomic_set_mask :: "u32 \<Rightarrow> atomic_t \<Rightarrow> atomic_t" where "atomic_set_mask bits v = bits OR v"

lemma add_return_value:
  assumes "atomic_add_return i v = Some (r, v')"
  shows "r = atomic_read v' \<and> v' = atomic_add i v"
proof -
  have r: "r = sint v + i" "- (2 ^ 31) \<le> r" "r < 2 ^ 31" "v' = v + of_int i"
    using assms by (auto simp: atomic_add_return_def Let_def split: if_splits)
  have "v' = of_int r" by (simp add: r(1,4))
  then have "sint v' = r" using r(2,3) by (simp add: signed_of_int signed_take_bit_int_eq_self)
  then show ?thesis using r(4) by (simp add: atomic_read_def atomic_add_def)
qed

section \<open>Counting references\<close>

text \<open>
  Threads that share an object count their references: one that has a reference gives another to a
  thread, and one that has one drops it. Reports tell what \<open>atomic_dec_and_test\<close> returned.
\<close>

inductive ref_run :: "atomic_t \<times> nat multiset \<Rightarrow> int list \<Rightarrow> bool" where
  created: "ref_run (atomic_set 1, {#p#}) []"
| shared: "ref_run (v, R) l \<Longrightarrow> p \<in># R \<Longrightarrow> size R < 2 ^ 31 \<Longrightarrow> ref_run (atomic_inc v, add_mset q R) l"
| dropped: "ref_run (v, R) l \<Longrightarrow> p \<in># R \<Longrightarrow> atomic_dec_and_test v = (z, v') \<Longrightarrow> ref_run (v', R - {#p#}) (l @ [z])"

lemma ref_run_count: "ref_run x l \<Longrightarrow> size (snd x) \<le> 2 ^ 31 \<and> fst x = of_nat (size (snd x)) \<and> (snd x \<noteq> {#} \<longrightarrow> (\<forall>z \<in> set l. z = 0))"
proof (induction rule: ref_run.induct)
  case (created p)
  then show ?case by (simp add: atomic_set_def)
next
  case (shared v R l p q)
  then show ?case by (auto simp: atomic_inc_def)
next
  case (dropped v R l p z v')
  from dropped.hyps(2) obtain R' where R: "R = add_mset p R'" by (metis multi_member_split)
  then have v: "v' = of_nat (size R')" "z = c_bool (v' = 0)" "size R' < 2 ^ 31"
    using dropped by (auto simp: atomic_dec_and_test_def Let_def)
  have "(of_nat (size R') :: u32) = 0 \<longleftrightarrow> size R' = 0"
    using v(3) unat_of_nat_small [of "size R'"] by (auto simp: word_unat_eq_iff)
  then show ?case using v R dropped by auto
qed

lemma ref_run_reports: "ref_run x l \<Longrightarrow> snd x = {#} \<Longrightarrow> \<exists>k. l = replicate k 0 @ [1]"
proof (induction rule: ref_run.induct)
  case (dropped v R l p z v')
  have n: "v = of_nat (size R)" "R \<noteq> {#}" "\<forall>z \<in> set l. z = 0" using ref_run_count [OF dropped.hyps(1)] dropped.hyps(2) by auto
  have "R = {#p#}" using dropped.hyps(2) dropped.prems by (metis insert_DiffM snd_conv)
  then have "z = 1" using n(1) dropped.hyps(3) by (auto simp: atomic_dec_and_test_def Let_def)
  then show ?case using n(3) by (metis replicate_length_same)
qed simp_all

text \<open>
  C36: the count reaches 0 exactly once: the counter is the number of references, as long as there are
  some every drop has reported 0, and when there are none left the last drop, and only this one, has
  reported 1.
\<close>

theorem last_reference_reported:
  assumes "ref_run (v, R) l"
  shows "unat v = size R \<and> (R \<noteq> {#} \<longrightarrow> set l \<subseteq> {0}) \<and> (R = {#} \<longrightarrow> (\<exists>k. l = replicate k 0 @ [1]))"
proof -
  have c: "size R \<le> 2 ^ 31" "v = of_nat (size R)" "R \<noteq> {#} \<longrightarrow> (\<forall>z \<in> set l. z = 0)" using ref_run_count [OF assms] by auto
  have "unat v = size R" unfolding c(2) by (rule unat_of_nat_small) (use c(1) in simp)
  then show ?thesis using c(3) ref_run_reports [OF assms] by auto
qed

theorem last_reference_reported_witness:
  "ref_run (0, {#}) [0, 1] \<and> unat (0 :: u32) = size ({#} :: nat multiset)"
proof -
  have "ref_run (atomic_inc (atomic_set 1), {#5, 4#}) []" by (rule ref_run.shared [OF ref_run.created [of 4], of 4 5]) simp_all
  then have a: "ref_run (2, {#5, 4#}) []" by (simp add: atomic_inc_def atomic_set_def)
  have "ref_run (1, {#5, 4#} - {#4#}) ([] @ [0])" by (rule ref_run.dropped [OF a]) (simp_all add: atomic_dec_and_test_def Let_def)
  then have b: "ref_run (1, {#5#}) [0]" by simp
  have "ref_run (0, {#5#} - {#5#}) ([0] @ [1])" by (rule ref_run.dropped [OF b]) (simp_all add: atomic_dec_and_test_def Let_def)
  then have "ref_run (0, {#}) [0, 1]" by simp
  with last_reference_reported [OF this] show ?thesis by simp
qed

end
