(* ===== verification/MsgLog.thy ===== *)
theory MsgLog
  imports Files Memory
begin

text \<open>
  \<open>project/stat_agent/msglog.c\<close>: records of statistics are appended to a file, each a header of 24
  bytes and its data. Files are those of \<open>Files\<close>; what \<open>open\<close> and \<open>fchmod\<close> allow and the space on
  the disk are data.
\<close>

section \<open>The code\<close>

definition buf_size :: int where "buf_size = 4096"

text \<open>\<open>message_header_t\<close>.\<close>

record message_header =
  hdr_len :: u16
  hdr_hlen :: u8
  hdr_flag0 :: u8
  hdr_flag :: u32
  hdr_saddr :: u32
  hdr_seqno :: u32
  hdr_type :: u32
  hdr_timestamp :: u32

definition header_size :: nat where "header_size = 24"

definition header_bytes :: "message_header \<Rightarrow> bytes" where
  "header_bytes h = le16 (hdr_len h) @ [hdr_hlen h, hdr_flag0 h] @ le32 (hdr_flag h) @ le32 (hdr_saddr h) @
     le32 (hdr_seqno h) @ le32 (hdr_type h) @ le32 (hdr_timestamp h)"

definition new_header :: "nat \<Rightarrow> u32 \<Rightarrow> u32 \<Rightarrow> message_header" where
  "new_header s ty ts = \<lparr>hdr_len = of_nat s, hdr_hlen = of_nat header_size, hdr_flag0 = 0, hdr_flag = 0, hdr_saddr = 0,
     hdr_seqno = 0, hdr_type = ty, hdr_timestamp = ts\<rparr>"

record msg_env =
  may_append :: bool
  may_create :: bool
  fchmod_ok :: bool
  disk_space :: nat

text \<open>The files, and whether \<open>SIGXFSZ\<close> is ignored.\<close>

record msg_proc =
  msg_fs :: fsys
  xfsz_ignored :: bool

text \<open>\<open>None\<close>: the assertion fails, or the data are shorter than they are said to be.\<close>

definition msglog :: "msg_env \<Rightarrow> bytes \<Rightarrow> u32 \<Rightarrow> u32 \<Rightarrow> bytes \<Rightarrow> int \<Rightarrow> msg_proc \<Rightarrow> (int \<times> msg_proc) option" where
  "msglog env logfile ty ts data len p =
     (let s = int header_size + len in
      if \<not> (len \<ge> 0 \<and> s \<ge> int header_size \<and> s \<le> buf_size) then None
      else if length data < nat len then None
      else
        let h = header_bytes (new_header (nat s) ty ts) @ take (nat len) data;
            p = p\<lparr>xfsz_ignored := True\<rparr>;
            (fd, fs) = fs_open (may_append env \<and> file_exists logfile (msg_fs p)) logfile (msg_fs p)
        in if fd < 0 then
             let (fd, fs) = fs_open (may_create env) logfile fs;
                 ret = (if fd < 0 \<or> \<not> fchmod_ok env then -1 else 0 :: int)
             in if ret \<noteq> 0 \<or> fd < 0 then Some (-1, p\<lparr>msg_fs := fs\<rparr>)
                else Some (0, p\<lparr>msg_fs := fs_close fd (snd (fs_write (disk_space env) fd h fs)), xfsz_ignored := False\<rparr>)
           else Some (0, p\<lparr>msg_fs := fs_close fd (snd (fs_write (disk_space env) fd h fs)), xfsz_ignored := False\<rparr>))"

section \<open>Reading the records back\<close>

text \<open>The type, the time and the data of each record of a file, for a reader that trusts the two lengths in a header.\<close>

function read_messages :: "bytes \<Rightarrow> (u32 \<times> u32 \<times> bytes) list option" where
  "read_messages bs =
     (if bs = [] then Some []
      else
        let n = unat (of_le16 (take 2 bs)); h = unat (bs ! 2)
        in if length bs < header_size \<or> h \<noteq> header_size \<or> n < h \<or> length bs < n then None
           else map_option (Cons (of_le32 (take 4 (drop 16 bs)), of_le32 (take 4 (drop 20 bs)), take (n - h) (drop h bs))) (read_messages (drop n bs)))"
  by pat_completeness auto
termination
  by (relation "measure length") (auto simp: header_size_def)

declare read_messages.simps [simp del]

definition message_bytes :: "u32 \<times> u32 \<times> bytes \<Rightarrow> bytes" where
  "message_bytes msg = (case msg of (ty, ts, data) \<Rightarrow> header_bytes (new_header (header_size + length data) ty ts) @ data)"

lemma header_bytes_new:
  "header_bytes (new_header s ty ts) = le16 (of_nat s) @ [24, 0] @ le32 0 @ le32 0 @ le32 0 @ le32 ty @ le32 ts"
  by (simp add: header_bytes_def new_header_def header_size_def)

lemma length_message_bytes: "length (message_bytes (ty, ts, data)) = header_size + length data"
  by (simp add: message_bytes_def header_bytes_new header_size_def)

lemma message_parts:
  assumes "length data \<le> 4072" and bs_def: "bs = message_bytes (ty, ts, data) @ rest"
  shows "unat (of_le16 (take 2 bs)) = 24 + length data" "bs ! 2 = 24" "take 4 (drop 16 bs) = le32 ty" "take 4 (drop 20 bs) = le32 ts"
    "drop 24 bs = data @ rest"
proof -
  have "take 2 bs = le16 (of_nat (24 + length data))"
    by (simp add: bs_def message_bytes_def header_bytes_new header_size_def)
  then have v: "of_le16 (take 2 bs) = of_nat (24 + length data)" by simp
  have "unat (of_nat n :: u16) = n" if "n < 65536" for n using that by (simp add: unsigned_of_nat take_bit_nat_eq_self)
  from this [of "24 + length data"] show "unat (of_le16 (take 2 bs)) = 24 + length data" unfolding v using assms(1) by simp
  show "bs ! 2 = 24" by (simp add: bs_def message_bytes_def header_bytes_new nth_append)
  show "take 4 (drop 16 bs) = le32 ty" "take 4 (drop 20 bs) = le32 ts" "drop 24 bs = data @ rest"
    by (simp_all add: bs_def message_bytes_def header_bytes_new)
qed

lemma read_message_first:
  assumes "length data \<le> 4072"
  shows "read_messages (message_bytes (ty, ts, data) @ rest) = map_option (Cons (ty, ts, data)) (read_messages rest)"
proof -
  let ?bs = "message_bytes (ty, ts, data) @ rest"
  note parts = message_parts [OF assms refl, of ty ts rest]
  have len: "length ?bs = 24 + length data + length rest" by (simp add: length_message_bytes header_size_def)
  have "drop (24 + length data) ?bs = rest" by (simp add: length_message_bytes header_size_def)
  moreover have "message_bytes (ty, ts, data) \<noteq> []" using length_message_bytes [of ty ts data] by (auto simp: header_size_def)
  ultimately show ?thesis using len parts by (subst read_messages.simps) (simp add: Let_def header_size_def)
qed

lemma prepend_none: "map_option ((@) []) m = m"
  by (cases m) simp_all

lemma read_messages_written:
  "list_all (\<lambda>(_, _, data). length data \<le> 4072) ms \<Longrightarrow>
   read_messages (concat (map message_bytes ms) @ rest) = map_option ((@) ms) (read_messages rest)"
proof (induction ms)
  case (Cons m ms)
  obtain ty ts data where "m = (ty, ts, data)" by (cases m)
  with Cons show ?case by (simp add: read_message_first option.map_comp comp_def)
qed (simp add: prepend_none)

section \<open>A run of calls\<close>

fun msglog_all :: "(msg_env \<times> u32 \<times> u32 \<times> bytes) list \<Rightarrow> bytes \<Rightarrow> msg_proc \<Rightarrow> (int list \<times> msg_proc) option" where
  "msglog_all [] logfile p = Some ([], p)"
| "msglog_all ((env, ty, ts, data) # l) logfile p =
     (case msglog env logfile ty ts data (int (length data)) p of
        None \<Rightarrow> None
      | Some (r, p) \<Rightarrow> map_option (\<lambda>(rs, p). (r # rs, p)) (msglog_all l logfile p))"

text \<open>The disk takes the record, and a new file may be made.\<close>

definition env_good :: "msg_env \<times> u32 \<times> u32 \<times> bytes \<Rightarrow> bool" where
  "env_good c = (case c of (env, _, _, data) \<Rightarrow> length data \<le> 4072 \<and> header_size + length data \<le> disk_space env \<and> fchmod_ok env \<and> may_append env \<and> may_create env)"

lemma msglog_appends:
  assumes "env_good (env, ty, ts, data)" "fs_ok (msg_fs p)"
  shows "\<exists>p'. msglog env logfile ty ts data (int (length data)) p = Some (0, p') \<and> fs_ok (msg_fs p') \<and> \<not> xfsz_ignored p' \<and>
    file_bytes logfile (msg_fs p') = file_bytes logfile (msg_fs p) @ message_bytes (ty, ts, data) \<and>
    (\<forall>q. q \<noteq> logfile \<longrightarrow> file_bytes q (msg_fs p') = file_bytes q (msg_fs p))"
proof -
  have g: "length data \<le> 4072" "header_size + length data \<le> disk_space env" "fchmod_ok env" "may_append env" "may_create env"
    using assms(1) by (simp_all add: env_good_def)
  obtain fs where o: "fs_open True logfile (msg_fs p) = (next_fd (msg_fs p), fs)" "fs_ok fs" "refers (next_fd (msg_fs p)) logfile fs"
    "\<forall>q. file_bytes q fs = file_bytes q (msg_fs p)"
    using fs_open_spec [OF assms(2), of logfile] by blast
  have "length (message_bytes (ty, ts, data)) \<le> disk_space env" using g(2) by (simp add: length_message_bytes)
  from fs_write_spec [OF o(2,3) this] obtain fs' where w: "fs_write (disk_space env) (next_fd (msg_fs p)) (message_bytes (ty, ts, data)) fs = (int (length (message_bytes (ty, ts, data))), fs')"
    "fs_ok fs'" "\<forall>q. file_bytes q fs' = (if q = logfile then file_bytes logfile fs @ message_bytes (ty, ts, data) else file_bytes q fs)" by blast
  have m: "header_bytes (new_header (nat (24 + int (length data))) ty ts) @ data = message_bytes (ty, ts, data)"
    by (simp add: message_bytes_def nat_add_distrib header_size_def)
  have nn: "0 \<le> next_fd (msg_fs p)" using assms(2) by (simp add: fs_ok_def)
  let ?p = "p\<lparr>msg_fs := fs_close (next_fd (msg_fs p)) fs', xfsz_ignored := False\<rparr>"
  have "msglog env logfile ty ts data (int (length data)) p = Some (0, ?p)"
  proof (cases "file_exists logfile (msg_fs p)")
    case True
    then show ?thesis using g nn o(1) w(1) by (simp add: msglog_def Let_def m buf_size_def header_size_def split: prod.splits)
  next
    case False
    then have "fs_open (may_append env \<and> file_exists logfile (msg_fs p)) logfile (msg_fs p) = (-1, msg_fs p)" by (simp add: fs_open_def)
    then show ?thesis using g nn o(1) w(1) by (simp add: msglog_def Let_def m buf_size_def header_size_def)
  qed
  then show ?thesis using w(2,3) o(4) by (intro exI [of _ ?p]) simp
qed

lemma msglog_all_appends:
  "list_all env_good cs \<Longrightarrow> fs_ok (msg_fs p) \<Longrightarrow>
   \<exists>p'. msglog_all cs logfile p = Some (replicate (length cs) 0, p') \<and>
     file_bytes logfile (msg_fs p') = file_bytes logfile (msg_fs p) @ concat (map (message_bytes \<circ> snd) cs)"
proof (induction cs arbitrary: p)
  case (Cons c cs)
  obtain env ty ts data where c: "c = (env, ty, ts, data)" by (cases c)
  obtain p1 where p1: "msglog env logfile ty ts data (int (length data)) p = Some (0, p1)" "fs_ok (msg_fs p1)"
    "file_bytes logfile (msg_fs p1) = file_bytes logfile (msg_fs p) @ message_bytes (ty, ts, data)"
    using msglog_appends [of env ty ts data p logfile] Cons.prems c by auto
  have "list_all env_good cs" using Cons.prems(1) by simp
  from Cons.IH [OF this p1(2)] obtain p' where "msglog_all cs logfile p1 = Some (replicate (length cs) 0, p')"
    "file_bytes logfile (msg_fs p') = file_bytes logfile (msg_fs p1) @ concat (map (message_bytes \<circ> snd) cs)" by blast
  with p1 c show ?case by (simp add: comp_def)
qed simp

lemma read_messages_append:
  "read_messages bs = Some ms \<Longrightarrow> read_messages (bs @ rest) = map_option ((@) ms) (read_messages rest)"
proof (induction bs arbitrary: ms rule: read_messages.induct)
  case (1 bs)
  show ?case
  proof (cases "bs = []")
    case True
    then show ?thesis using 1(2) by (simp add: read_messages.simps [of "[]"] option.map_ident)
  next
    case False
    let ?n = "unat (of_le16 (take 2 bs))"
    have ok: "header_size \<le> length bs" "unat (bs ! 2) = header_size" "header_size \<le> ?n" "?n \<le> length bs"
      and ms: "map_option (Cons (of_le32 (take 4 (drop 16 bs)), of_le32 (take 4 (drop 20 bs)), take (?n - header_size) (drop header_size bs)))
        (read_messages (drop ?n bs)) = Some ms"
      using 1(2) False by (auto simp: read_messages.simps [of bs] Let_def split: if_splits)
    then obtain ms' where ms': "read_messages (drop ?n bs) = Some ms'" by auto
    have "read_messages (drop ?n bs @ rest) = map_option ((@) ms') (read_messages rest)"
      using 1(1) [OF False refl refl _ ms'] ok by auto
    moreover have "take 2 (bs @ rest) = take 2 bs" "(bs @ rest) ! 2 = bs ! 2" "take 4 (drop 16 (bs @ rest)) = take 4 (drop 16 bs)"
      "take 4 (drop 20 (bs @ rest)) = take 4 (drop 20 bs)" "take (?n - header_size) (drop header_size (bs @ rest)) = take (?n - header_size) (drop header_size bs)"
      "drop ?n (bs @ rest) = drop ?n bs @ rest"
      using ok by (simp_all add: header_size_def nth_append)
    moreover have "bs @ rest \<noteq> []" "\<not> length (bs @ rest) < header_size" "\<not> ?n < header_size" "\<not> length (bs @ rest) < ?n" using False ok by simp_all
    ultimately have "read_messages (bs @ rest) = map_option (Cons (of_le32 (take 4 (drop 16 bs)), of_le32 (take 4 (drop 20 bs)), take (?n - header_size) (drop header_size bs)))
        (map_option ((@) ms') (read_messages rest))"
      by (subst read_messages.simps) (simp only: Let_def ok(2) if_False not_not simp_thms)
    also have "\<dots> = map_option ((@) ms) (read_messages rest)" using ms ms' by (cases "read_messages rest") auto
    finally show ?thesis .
  qed
qed

text \<open>
  C17: let the disk have room for every record, the file be opened or created and its mode changed
  without an error, and each call have at most 4072 bytes of data. Then every call answers 0, and
  what a run of calls of \<open>msglog\<close> writes behind the records of a file is read back as
  these records followed by the new ones, each with its type, its time and its data.
\<close>

theorem messages_read_back:
  assumes "list_all env_good cs" "fs_ok (msg_fs p)" "read_messages (file_bytes logfile (msg_fs p)) = Some old"
  shows "\<exists>p'. msglog_all cs logfile p = Some (replicate (length cs) 0, p') \<and>
    read_messages (file_bytes logfile (msg_fs p')) = Some (old @ map snd cs)"
proof -
  obtain p' where p': "msglog_all cs logfile p = Some (replicate (length cs) 0, p')"
    "file_bytes logfile (msg_fs p') = file_bytes logfile (msg_fs p) @ concat (map message_bytes (map snd cs))"
    using msglog_all_appends [OF assms(1,2), of logfile] by auto
  have "list_all (\<lambda>(_, _, data). length data \<le> 4072) (map snd cs)" using assms(1) by (auto simp: list_all_iff env_good_def)
  from read_messages_written [OF this, of "[]"]
  have "read_messages (concat (map message_bytes (map snd cs))) = Some (map snd cs)" by (simp add: read_messages.simps [of "[]"])
  then show ?thesis using p' read_messages_append [OF assms(3)] by simp
qed

text \<open>Two records in a new file.\<close>

definition no_files :: msg_proc where
  "no_files = \<lparr>msg_fs = \<lparr>entries = [], content = \<lambda>_. [], descs = \<lambda>_. None, next_inode = 0, next_fd = 3\<rparr>, xfsz_ignored = False\<rparr>"

definition roomy :: msg_env where
  "roomy = \<lparr>may_append = True, may_create = True, fchmod_ok = True, disk_space = 1000\<rparr>"

theorem messages_read_back_witness:
  "\<exists>p. msglog_all [(roomy, 5, 1000, [1, 2, 3, 4]), (roomy, 6, 1001, [])] [97] no_files = Some ([0, 0], p) \<and>
     read_messages (file_bytes [97] (msg_fs p)) = Some [(5, 1000, [1, 2, 3, 4]), (6, 1001, [])]"
  using messages_read_back [of "[(roomy, 5, 1000, [1, 2, 3, 4]), (roomy, 6, 1001, [])]" no_files "[97]" "[]"]
  by (simp add: env_good_def roomy_def no_files_def fs_ok_def header_size_def file_bytes_def inode_at_def read_messages.simps [of "[]"] numeral_2_eq_2)

text \<open>A record that does not fit on the disk is cut off, and the call reports success.\<close>

lemma msglog_full_disk:
  assumes "fs_ok (msg_fs p)" "may_append env" "file_exists logfile (msg_fs p)" "length data \<le> 4072"
  shows "\<exists>p'. msglog env logfile ty ts data (int (length data)) p = Some (0, p') \<and>
    file_bytes logfile (msg_fs p') = file_bytes logfile (msg_fs p) @ take (disk_space env) (message_bytes (ty, ts, data))"
proof -
  obtain fs where o: "fs_open True logfile (msg_fs p) = (next_fd (msg_fs p), fs)" "fs_ok fs" "refers (next_fd (msg_fs p)) logfile fs"
    "\<forall>q. file_bytes q fs = file_bytes q (msg_fs p)"
    using fs_open_spec [OF assms(1), of logfile] by blast
  let ?m = "message_bytes (ty, ts, data)"
  have l: "length (take (disk_space env) ?m) \<le> disk_space env" by simp
  obtain fs' where w: "snd (fs_write (disk_space env) (next_fd (msg_fs p)) ?m fs) = fs'"
    "file_bytes logfile fs' = file_bytes logfile fs @ take (disk_space env) ?m"
    using o(3) by (auto simp: fs_write_def refers_def file_bytes_def split: option.splits)
  have m: "header_bytes (new_header (nat (24 + int (length data))) ty ts) @ data = ?m"
    by (simp add: message_bytes_def nat_add_distrib header_size_def)
  have nn: "0 \<le> next_fd (msg_fs p)" using assms(1) by (simp add: fs_ok_def)
  have "msglog env logfile ty ts data (int (length data)) p = Some (0, p\<lparr>msg_fs := fs_close (next_fd (msg_fs p)) fs', xfsz_ignored := False\<rparr>)"
    using assms(2-4) nn o(1) w(1) by (simp add: msglog_def Let_def m buf_size_def header_size_def)
  then show ?thesis using w(2) o(4) by simp
qed

end
