(* ===== verification/DebugMem.thy ===== *)
theory DebugMem
  imports Files
begin

text \<open>
  \<open>debug/debug_mem.c\<close>: the resident memory of a process, from the file \<open>status\<close> that the kernel
  shows for it. The content of files is a parameter.
\<close>

section \<open>The code\<close>

definition PID_SELF :: int where "PID_SELF = -1"
definition STATUS_FILELEN :: nat where "STATUS_FILELEN = 32"
definition FILE_PROC_SELF_STATUS :: bytes where "FILE_PROC_SELF_STATUS = ascii ''/proc/self/status''"

definition status_file :: "int \<Rightarrow> bytes" where
  "status_file pid =
     take (STATUS_FILELEN - 1) (if pid = PID_SELF then FILE_PROC_SELF_STATUS else ascii ''/proc/'' @ dec_int pid @ ascii ''/status'')"

text \<open>The lines that \<open>getline\<close> returns, with their line breaks.\<close>

function get_lines :: "bytes \<Rightarrow> bytes list" where
  "get_lines s =
     (if s = [] then []
      else case dropWhile (\<lambda>c. c \<noteq> 10) s of
             [] \<Rightarrow> [s]
           | _ # rest \<Rightarrow> (takeWhile (\<lambda>c. c \<noteq> 10) s @ [10]) # get_lines rest)"
  by pat_completeness auto
termination
proof (relation "measure length", goal_cases)
  case (2 s c rest)
  then show ?case using length_dropWhile_le [of "\<lambda>c. c \<noteq> 10" s] by simp
qed simp

declare get_lines.simps [simp del]

text \<open>The loop over \<open>strtok_r\<close>, which is left at the second word.\<close>

definition second_token :: "bytes \<Rightarrow> bytes option" where
  "second_token line =
     (let str = dropWhile (\<lambda>c. c = 32) (takeWhile (\<lambda>c. c \<noteq> 0) line);
          str = dropWhile (\<lambda>c. c = 32) (dropWhile (\<lambda>c. c \<noteq> 32) str)
      in if str = [] then None else Some (takeWhile (\<lambda>c. c \<noteq> 32) str))"

definition is_vmrss :: "bytes \<Rightarrow> bool" where
  "is_vmrss line \<longleftrightarrow> take 5 line = ascii ''VmRSS''"

definition vmrss_line :: "int \<Rightarrow> bytes \<Rightarrow> int" where
  "vmrss_line vmrss_size line =
     (if \<not> is_vmrss line then vmrss_size
      else case second_token line of None \<Rightarrow> vmrss_size | Some token \<Rightarrow> atoi token)"

text \<open>\<open>mal\<close>: the buffer for the name could be allocated.\<close>

definition get_cur_vmrss_size :: "bool \<Rightarrow> (bytes \<Rightarrow> bytes option) \<Rightarrow> int \<Rightarrow> int" where
  "get_cur_vmrss_size mal proc_files pid =
     (if \<not> mal then -1
      else case proc_files (status_file pid) of
             None \<Rightarrow> -1
           | Some text \<Rightarrow> foldl vmrss_line (-1) (get_lines text))"

section \<open>What it reports\<close>

definition is_line :: "bytes \<Rightarrow> bool" where
  "is_line l \<longleftrightarrow> l \<noteq> [] \<and> last l = 10 \<and> 10 \<notin> set (butlast l)"

lemma get_lines_Cons: "is_line l \<Longrightarrow> get_lines (l @ s) = l # get_lines s"
proof -
  assume l: "is_line l"
  then obtain k where k: "l = k @ [10]" "10 \<notin> set k" unfolding is_line_def by (metis append_butlast_last_id)
  have "dropWhile (\<lambda>c. c \<noteq> 10) (k @ 10 # s) = 10 # s" "takeWhile (\<lambda>c. c \<noteq> 10) (k @ 10 # s) = k" for s
    using k(2) by (induction k) auto
  then show ?thesis using k(1) by (subst get_lines.simps) simp
qed

lemma get_lines_concat: "list_all is_line ls \<Longrightarrow> get_lines (concat ls) = ls"
  by (induction ls) (simp_all add: get_lines_Cons get_lines.simps [of "[]"])

text \<open>The line as the kernel prints it: the number in a field of eight characters.\<close>

definition vmrss_text :: "int \<Rightarrow> bytes" where
  "vmrss_text n = ascii ''VmRSS:'' @ 9 # fmt_d 8 n @ ascii '' kB'' @ [10]"

lemma many_digits: "10 ^ w \<le> n \<Longrightarrow> w < length (dec_digits n)"
proof (induction w arbitrary: n)
  case 0
  then show ?case using dec_digits_value [of n] by simp
next
  case (Suc w)
  then have n: "10 ^ w \<le> n div 10" by (simp add: less_eq_div_iff_mult_less_eq mult.commute)
  moreover have "(1 :: nat) \<le> 10 ^ w" by simp
  ultimately have "\<not> n < 10" by linarith
  then show ?case using Suc.IH [OF n] by (subst dec_digits.simps) simp
qed

lemma digit_plain: "is_digit c \<Longrightarrow> c \<noteq> 32 \<and> c \<noteq> 0 \<and> c \<noteq> 10"
  by (auto simp: is_digit_def word_le_nat_alt)

lemma vmrss_bytes: "ascii ''VmRSS:'' @ 9 # r = [86, 109, 82, 83, 83, 58, 9] @ r" "ascii '' kB'' @ [10] = [32, 107, 66, 10]"
  by (simp_all add: ascii_def)

lemma vmrss_tokens:
  assumes "list_all is_digit ds" "ds \<noteq> []"
  shows "second_token ([86, 109, 82, 83, 83, 58, 9] @ replicate k 32 @ ds @ [32, 107, 66, 10]) = Some (if k = 0 then [107, 66, 10] else ds)"
proof -
  have d: "c \<noteq> 32" "c \<noteq> 0" if "c \<in> set ds" for c using that assms(1) digit_plain by (auto simp: list_all_iff)
  let ?l = "[86, 109, 82, 83, 83, 58, 9] @ replicate k 32 @ ds @ [32, 107, 66, 10] :: bytes"
  have z: "takeWhile (\<lambda>c. c \<noteq> 0) ?l = ?l" using d(2) by (intro takeWhile_eq_all_conv [THEN iffD2]) auto
  have w: "dropWhile (\<lambda>c. c \<noteq> 32) (ds @ 32 # r) = 32 # r" "takeWhile (\<lambda>c. c \<noteq> 32) (ds @ 32 # r) = ds" for r
    using d(1) by (simp_all add: dropWhile_append2 takeWhile_append2)
  have h: "hd ds \<noteq> 32" using d(1) assms(2) by simp
  then have "dropWhile (\<lambda>c. c = 32) (ds @ r) = ds @ r" for r using assms(2) by (cases ds) auto
  moreover have "dropWhile (\<lambda>c. c = 32) (replicate j 32 @ ds @ r) = ds @ r" for j r
    using calculation by (induction j) simp_all
  ultimately show ?thesis using w assms(2) unfolding second_token_def z
    by (cases k) (simp_all add: Let_def)
qed

lemma atoi_kB: "atoi [107, 66, 10] = 0"
  by (simp add: atoi_def strtol10_def is_space_def is_digit_def)

lemma is_vmrss_text: "is_vmrss (vmrss_text n)"
  unfolding is_vmrss_def vmrss_text_def vmrss_bytes by (simp add: ascii_def)

lemma vmrss_line_text:
  assumes "0 \<le> n" "n < 2 ^ 31"
  shows "vmrss_line v (vmrss_text n) = (if n < 10 ^ 7 then n else 0)"
proof -
  let ?ds = "dec_digits (nat n)"
  note ds = dec_digits_value [of "nat n"]
  have t: "vmrss_text n = [86, 109, 82, 83, 83, 58, 9] @ replicate (8 - length ?ds) 32 @ ?ds @ [32, 107, 66, 10]"
    unfolding vmrss_text_def vmrss_bytes using assms(1) by (simp add: fmt_d_def pad_left_def dec_int_def)
  have "8 - length ?ds = 0 \<longleftrightarrow> \<not> n < 10 ^ 7"
  proof
    assume "8 - length ?ds = 0"
    then have "\<not> nat n < 10 ^ 7" using length_dec_digits [of "nat n" 7] by auto
    then show "\<not> n < 10 ^ 7" by simp
  next
    assume "\<not> n < 10 ^ 7"
    then have "10 ^ 7 \<le> nat n" by simp
    from many_digits [OF this] show "8 - length ?ds = 0" by simp
  qed
  moreover have "atoi ?ds = n" 
    using ds assms strtol10_dec_int [of n] by (simp add: atoi_def dec_int_def signed_take_bit_int_eq_self)
  moreover have "second_token (vmrss_text n) = Some (if 8 - length ?ds = 0 then [107, 66, 10] else ?ds)"
    unfolding t using ds by (intro vmrss_tokens) simp_all
  ultimately show ?thesis using is_vmrss_text [of n] by (simp add: vmrss_line_def atoi_kB)
qed

lemma other_lines: "list_all (\<lambda>l. \<not> is_vmrss l) ls \<Longrightarrow> foldl vmrss_line v ls = v"
  by (induction ls arbitrary: v) (simp_all add: vmrss_line_def)

lemma vmrss_text_line: "is_line (vmrss_text n)"
proof -
  have "10 \<notin> set (dec_int n)" using dec_digits_value [of "nat n"] dec_digits_value [of "nat (- n)"] digit_plain
    by (auto simp: dec_int_def list_all_iff)
  then show ?thesis unfolding is_line_def vmrss_text_def vmrss_bytes by (simp add: fmt_d_def pad_left_def butlast_append)
qed

text \<open>
  C34: the memory of a process is reported as the kernel shows it up to 9,999,999 kB; from ten
  million on, when the number fills its field and no blank is left before it, the report is 0.
\<close>

theorem vmrss_reported:
  assumes "proc_files (status_file pid) = Some (concat (before @ vmrss_text n # after))" "0 \<le> n" "n < 2 ^ 31"
    and "list_all is_line (before @ after)" "list_all (\<lambda>l. \<not> is_vmrss l) (before @ after)"
  shows "get_cur_vmrss_size True proc_files pid = (if n < 10 ^ 7 then n else 0)"
proof -
  have "get_lines (concat (before @ vmrss_text n # after)) = before @ vmrss_text n # after"
    using assms(4) vmrss_text_line by (intro get_lines_concat) simp
  then show ?thesis using assms(1,5) vmrss_line_text [OF assms(2,3)]
    by (simp add: get_cur_vmrss_size_def other_lines)
qed

theorem vmrss_reported_witness:
  "get_cur_vmrss_size True (\<lambda>_. Some (ascii ''Name: x'' @ [10] @ vmrss_text 5120)) (-1) = 5120 \<and>
   get_cur_vmrss_size True (\<lambda>_. Some (ascii ''Name: x'' @ [10] @ vmrss_text 16777216)) (-1) = 0"
  using vmrss_reported [of "\<lambda>_. Some (ascii ''Name: x'' @ [10] @ vmrss_text 5120)" "-1" "[ascii ''Name: x'' @ [10]]" 5120 "[]"]
    vmrss_reported [of "\<lambda>_. Some (ascii ''Name: x'' @ [10] @ vmrss_text 16777216)" "-1" "[ascii ''Name: x'' @ [10]]" 16777216 "[]"]
  by (simp add: is_line_def is_vmrss_def ascii_def)

end
