(* ===== verification/MonthDay.thy ===== *)
theory MonthDay
  imports Files
begin

text \<open>
  \<open>time/time.[ch]\<close> and \<open>random/random.h\<close>: a point in time rounded down to the hour, the midnight of a
  day some months away, and random numbers in a range. \<open>mktime\<close>, \<open>rand\<close> and the dates of GLib are
  parameters.
\<close>

section \<open>The code\<close>

text \<open>Dates; \<open>None\<close> as a date is the null pointer.\<close>

record 'd gdate_lib =
  g_date_new_dmy :: "int \<Rightarrow> int \<Rightarrow> int \<Rightarrow> 'd option"
  g_date_add_months :: "'d option \<Rightarrow> int \<Rightarrow> 'd option"
  g_date_subtract_months :: "'d option \<Rightarrow> int \<Rightarrow> 'd option"
  g_date_days_between :: "'d option \<Rightarrow> 'd option \<Rightarrow> int"

text \<open>The broken-down time with its flag for summer time, which is passed on to \<open>mktime\<close> as it is.\<close>

record dst_tm = tm +
  tm_isdst :: int

definition mk_integral_tm_hr :: "(dst_tm \<Rightarrow> int) \<Rightarrow> dst_tm \<Rightarrow> int" where
  "mk_integral_tm_hr mktime tm_cur = mktime (tm_cur\<lparr>tm_min := 0, tm_sec := 0\<rparr>)"

text \<open>\<open>None\<close>: the assertion fails, or the seconds leave the range of an \<open>int\<close>.\<close>

definition mk_integral_tm_day :: "'d gdate_lib \<Rightarrow> (dst_tm \<Rightarrow> int) \<Rightarrow> dst_tm \<Rightarrow> int \<Rightarrow> int \<Rightarrow> int option" where
  "mk_integral_tm_day g mktime tm_cur mday month =
     (if \<not> (mday > 0 \<and> mday < 32) then None
      else
        let tm_cur = tm_cur\<lparr>tm_hour := 0, tm_min := 0, tm_sec := 0\<rparr>;
            year = int (tm_year tm_cur mod 65536);
            gdate1 = g_date_new_dmy g (int (tm_mday tm_cur)) (int (tm_mon tm_cur + 1)) year;
            gdate2 = g_date_new_dmy g mday (int (tm_mon tm_cur + 1)) year;
            gdate2 = (if month > 0 then g_date_add_months g gdate2 month
                      else if month < 0 then g_date_subtract_months g gdate2 (- month) else gdate2);
            days = g_date_days_between g gdate1 gdate2
        in if days * 86400 < - (2 ^ 31) \<or> days * 86400 \<ge> 2 ^ 31 then None
           else Some (mktime tm_cur + days * 86400))"

text \<open>\<open>None\<close>: an overflow or a division by 0.\<close>

definition ranged_random :: "int \<Rightarrow> int \<Rightarrow> int \<Rightarrow> int option" where
  "ranged_random rand mini maxi =
     (let n = maxi - mini + 1 in
      if n = 0 \<or> maxi - mini < - (2 ^ 31) \<or> n \<ge> 2 ^ 31 then None else Some (c_rem rand n + mini))"

section \<open>The calendar\<close>

type_synonym date = "int \<times> int \<times> int"

definition leap :: "int \<Rightarrow> bool" where
  "leap y \<longleftrightarrow> 4 dvd y \<and> \<not> 100 dvd y \<or> 400 dvd y"

definition month_days :: "int \<Rightarrow> int \<Rightarrow> int" where
  "month_days m y = (if m = 2 then (if leap y then 29 else 28) else if m = 4 \<or> m = 6 \<or> m = 9 \<or> m = 11 then 30 else 31)"

text \<open>The days from the start of the calendar to a date.\<close>

definition day_number :: "date \<Rightarrow> int" where
  "day_number dt = (case dt of (d, m, y) \<Rightarrow>
     365 * (y - 1) + (y - 1) div 4 - (y - 1) div 100 + (y - 1) div 400 + sum_list (map (\<lambda>i. month_days i y) [1..m - 1]) + d)"

text \<open>
  The day \<open>d\<close> of month number \<open>t\<close>, counted from the start of the calendar, or its last day when it is
  too short, and a date some months away.
\<close>

definition month_at :: "int \<Rightarrow> int \<Rightarrow> date" where
  "month_at d t = (min d (month_days (t mod 12 + 1) (t div 12)), t mod 12 + 1, t div 12)"

definition shift_months :: "int \<Rightarrow> date \<Rightarrow> date" where
  "shift_months n dt = (case dt of (d, m, y) \<Rightarrow> month_at d (y * 12 + (m - 1) + n))"

definition valid_date :: "date \<Rightarrow> bool" where
  "valid_date dt = (case dt of (d, m, y) \<Rightarrow> 1 \<le> y \<and> y < 65536 \<and> 1 \<le> m \<and> m \<le> 12 \<and> 1 \<le> d \<and> d \<le> month_days m y)"

text \<open>What GLib documents: dates of the Gregorian calendar, and null pointers that are reported and passed on.\<close>

definition gregorian_lib :: "'d gdate_lib \<Rightarrow> ('d \<Rightarrow> date) \<Rightarrow> bool" where
  "gregorian_lib g dmy \<longleftrightarrow>
     (\<forall>d m y. map_option dmy (g_date_new_dmy g d m y) = (if valid_date (d, m, y) then Some (d, m, y) else None)) \<and>
     (\<forall>x n. 0 < n \<longrightarrow> valid_date (shift_months n (dmy x)) \<longrightarrow> map_option dmy (g_date_add_months g (Some x) n) = Some (shift_months n (dmy x))) \<and>
     (\<forall>x n. 0 < n \<longrightarrow> valid_date (shift_months (- n) (dmy x)) \<longrightarrow> map_option dmy (g_date_subtract_months g (Some x) n) = Some (shift_months (- n) (dmy x))) \<and>
     (\<forall>x y. g_date_days_between g (Some x) (Some y) = day_number (dmy y) - day_number (dmy x)) \<and>
     (\<forall>n. g_date_add_months g None n = None \<and> g_date_subtract_months g None n = None) \<and>
     (\<forall>x. g_date_days_between g x None = 0 \<and> g_date_days_between g None x = 0)"

text \<open>
  The code takes the years since 1900 for years. Between 101 and 399 the two calendars agree: 1900
  years later a year is a leap year if and only if it is one, and the days between dates are as many.
\<close>

definition ad :: "date \<Rightarrow> date" where
  "ad dt = (case dt of (d, m, y) \<Rightarrow> (d, m, y + 1900))"

lemma no_multiple: "(k * c :: int) < y \<Longrightarrow> y < (k + 1) * c \<Longrightarrow> \<not> c dvd y"
proof
  assume a: "k * c < y" "y < (k + 1) * c" "c dvd y"
  then obtain j where j: "y = c * j" by (elim dvdE)
  have "0 < c" using a(1,2) by (simp add: algebra_simps)
  then have "k < j" "j < k + 1" using a(1,2) unfolding j by (simp_all add: mult.commute [of c])
  then show False by simp
qed

lemma leap_ad:
  assumes "101 \<le> y" "y \<le> 399"
  shows "leap (y + 1900) \<longleftrightarrow> leap y"
proof -
  have "\<not> 400 dvd y" "\<not> 400 dvd y + 1900" using no_multiple [of 0 400 y] no_multiple [of 5 400 "y + 1900"] assms by simp_all
  moreover have "4 dvd y + 1900 \<longleftrightarrow> 4 dvd y" by presburger
  moreover have "100 dvd y + 1900 \<longleftrightarrow> 100 dvd y" by (rule dvd_add_left_iff) simp
  ultimately show ?thesis by (simp add: leap_def)
qed

lemma month_days_ad: "101 \<le> y \<Longrightarrow> y \<le> 399 \<Longrightarrow> month_days m (y + 1900) = month_days m y"
  by (simp add: month_days_def leap_ad)

lemma leaps_ad:
  assumes "101 \<le> (y :: int)" "y \<le> 399"
  shows "(y + 1900 - 1) div 4 = (y - 1) div 4 + 475" "(y + 1900 - 1) div 100 = (y - 1) div 100 + 19" "(y + 1900 - 1) div 400 = (y - 1) div 400 + 5"
proof -
  have e: "y + 1900 - 1 = y - 1 + 475 * 4" "y + 1900 - 1 = y - 1 + 19 * 100" by simp_all
  show "(y + 1900 - 1) div 4 = (y - 1) div 4 + 475" unfolding e(1) by simp
  show "(y + 1900 - 1) div 100 = (y - 1) div 100 + 19" unfolding e(2) by simp
  have "(y - 1) div 400 = 0" using assms by simp
  moreover have "(y + 1900 - 1) div 400 = 5" by (rule int_div_pos_eq [of _ _ _ "y - 101"]) (use assms in simp_all)
  ultimately show "(y + 1900 - 1) div 400 = (y - 1) div 400 + 5" by simp
qed

lemma day_number_ad: "101 \<le> snd (snd dt) \<Longrightarrow> snd (snd dt) \<le> 399 \<Longrightarrow> day_number (ad dt) = day_number dt + 693961"
  by (cases dt) (simp only: ad_def day_number_def prod.case fst_conv snd_conv leaps_ad month_days_ad, simp)

lemma month_at_ad:
  assumes "101 \<le> t div 12" "t div 12 \<le> 399"
  shows "month_at d (t + 1900 * 12) = ad (month_at d t)"
proof -
  have "(t + 1900 * 12) mod 12 = t mod 12" by (rule mod_mult_self1)
  moreover have "(t + 1900 * 12) div 12 = t div 12 + 1900" using div_mult_self1 [of 12 t 1900] by linarith
  ultimately show ?thesis unfolding month_at_def ad_def prod.case by (simp only: month_days_ad [OF assms])
qed

lemma shift_ad:
  assumes "101 \<le> snd (snd (shift_months n dt))" "snd (snd (shift_months n dt)) \<le> 399"
  shows "shift_months n (ad dt) = ad (shift_months n dt)"
proof -
  obtain d m y where dt: "dt = (d, m, y)" by (cases dt)
  define t where "t = y * 12 + (m - 1) + n"
  have "(y + 1900) * 12 + (m - 1) + n = t + 1900 * 12" by (simp add: t_def)
  then have "shift_months n (ad dt) = month_at d (t + 1900 * 12)" by (simp only: dt ad_def shift_months_def prod.case)
  moreover have s: "shift_months n dt = month_at d t" by (simp only: dt shift_months_def prod.case t_def)
  ultimately show ?thesis using month_at_ad [of t d] assms unfolding s month_at_def by (simp only: snd_conv)
qed

section \<open>What the functions return\<close>

definition date_at :: "int \<Rightarrow> dst_tm \<Rightarrow> date" where
  "date_at d t = (d, int (tm_mon t + 1), int (tm_year t))"

definition midnight :: "dst_tm \<Rightarrow> dst_tm" where
  "midnight t = t\<lparr>tm_hour := 0, tm_min := 0, tm_sec := 0\<rparr>"

text \<open>The midnight of another date, and the date of a broken-down time.\<close>

definition midnight_of :: "date \<Rightarrow> dst_tm \<Rightarrow> dst_tm" where
  "midnight_of dt t = (case dt of (d, m, y) \<Rightarrow> (midnight t)\<lparr>tm_mday := nat d, tm_mon := nat (m - 1), tm_year := nat (y - 1900)\<rparr>)"

definition date_of_tm :: "dst_tm \<Rightarrow> date" where
  "date_of_tm t = ad (date_at (int (tm_mday t)) t)"

text \<open>
  \<open>mktime\<close> in a zone whose clocks never change: \<open>off\<close> seconds before the time in UTC. Day 719163
  is the first of January 1970.
\<close>

definition steady_zone :: "(dst_tm \<Rightarrow> int) \<Rightarrow> int \<Rightarrow> bool" where
  "steady_zone mktime off \<longleftrightarrow> (\<forall>t. valid_date (date_of_tm t) \<longrightarrow> tm_isdst t = 0 \<longrightarrow>
     mktime t = (day_number (date_of_tm t) - 719163) * 86400 + int (tm_hour t) * 3600 + int (tm_min t) * 60 + int (tm_sec t) - off)"

lemma date_of_midnight:
  assumes "valid_date dt" "1900 \<le> snd (snd dt)"
  shows "date_of_tm (midnight_of dt t) = dt" "tm_hour (midnight_of dt t) = 0" "tm_min (midnight_of dt t) = 0" "tm_sec (midnight_of dt t) = 0"
    "date_of_tm (midnight t) = date_of_tm t" "tm_hour (midnight t) = 0" "tm_min (midnight t) = 0" "tm_sec (midnight t) = 0"
    "tm_isdst (midnight_of dt t) = tm_isdst t" "tm_isdst (midnight t) = tm_isdst t"
  using assms by (auto simp: midnight_of_def midnight_def date_of_tm_def date_at_def ad_def valid_date_def split: prod.splits)

lemma steady_days:
  assumes "steady_zone mktime off" "valid_date (date_of_tm t)" "valid_date dt" "1900 \<le> snd (snd dt)" "tm_isdst t = 0"
  shows "mktime (midnight_of dt t) = mktime (midnight t) + (day_number dt - day_number (date_of_tm t)) * 86400"
proof -
  note d = date_of_midnight [OF assms(3,4), of t]
  have "mktime (midnight_of dt t) = (day_number dt - 719163) * 86400 - off"
    "mktime (midnight t) = (day_number (date_of_tm t) - 719163) * 86400 - off"
    using assms(1-3,5) d unfolding steady_zone_def by simp_all
  then show ?thesis by (simp add: algebra_simps)
qed

lemma month_at_valid: "1 \<le> d \<Longrightarrow> 1 \<le> t div 12 \<Longrightarrow> t div 12 < 65536 \<Longrightarrow> valid_date (month_at d t)"
proof -
  assume a: "1 \<le> d" "1 \<le> t div 12" "t div 12 < 65536"
  have "28 \<le> month_days m y" for m y by (simp add: month_days_def)
  moreover have "0 \<le> t mod 12" "t mod 12 < 12" by simp_all
  ultimately show ?thesis using a unfolding month_at_def valid_date_def prod.case by (smt (verit, best))
qed

lemma shift_valid: "1 \<le> fst dt \<Longrightarrow> 1 \<le> snd (snd (shift_months n dt)) \<Longrightarrow> snd (snd (shift_months n dt)) < 65536 \<Longrightarrow> valid_date (shift_months n dt)"
  using month_at_valid by (cases dt) (simp only: shift_months_def prod.case month_at_def fst_conv snd_conv)

lemma shift_0: "valid_date dt \<Longrightarrow> shift_months 0 dt = dt"
proof (cases dt)
  case (fields d m y)
  assume v: "valid_date dt"
  then have m: "0 \<le> m - 1" "m - 1 < 12" "d \<le> month_days m y" by (simp_all add: fields valid_date_def)
  define k where "k = m - 1"
  have k: "k mod 12 = k" "k div 12 = 0" "m = k + 1" using m by (simp_all add: k_def)
  have "(y * 12 + k + 0) mod 12 = k" "(y * 12 + k + 0) div 12 = y" using k(1,2) by simp_all
  then show "shift_months 0 dt = dt" using m(3) unfolding fields shift_months_def month_at_def prod.case k_def [symmetric] by (simp add: k(3))
qed

lemma valid_ad: "101 \<le> snd (snd dt) \<Longrightarrow> snd (snd dt) \<le> 399 \<Longrightarrow> valid_date (ad dt) \<longleftrightarrow> valid_date dt"
  by (cases dt) (auto simp: valid_date_def ad_def month_days_ad)

lemma month_day_seconds:
  assumes "gregorian_lib g dmy" "101 \<le> tm_year t" "tm_year t \<le> 399" "valid_date (date_at (int (tm_mday t)) t)" "0 < mday" "mday < 32"
    and "101 \<le> snd (snd (shift_months n (date_at mday t)))" "snd (snd (shift_months n (date_at mday t))) \<le> 399"
  defines "days \<equiv> day_number (shift_months n (ad (date_at mday t))) - day_number (ad (date_at (int (tm_mday t)) t))"
  assumes "\<bar>days\<bar> \<le> 24855"
  shows "mk_integral_tm_day g mktime t mday n =
    Some (mktime (midnight t) + (if mday \<le> month_days (int (tm_mon t) + 1) (int (tm_year t) + 1900) then days * 86400 else 0))"
proof -
  let ?m = "int (tm_mon t + 1)" and ?y = "int (tm_year t)"
  let ?dt = "date_at mday t" and ?now = "date_at (int (tm_mday t)) t"
  have y: "101 \<le> ?y" "?y \<le> 399" "tm_year t mod 65536 = tm_year t" using assms(2,3) by simp_all
  have new: "map_option dmy (g_date_new_dmy g d ?m ?y) = (if valid_date (d, ?m, ?y) then Some (d, ?m, ?y) else None)" for d
    using assms(1) unfolding gregorian_lib_def by blast
  obtain x where x: "g_date_new_dmy g (int (tm_mday t)) ?m ?y = Some x" "dmy x = ?now"
    using new [of "int (tm_mday t)"] assms(4) by (auto simp: date_at_def)
  have md: "valid_date ?dt \<longleftrightarrow> mday \<le> month_days (int (tm_mon t) + 1) (?y + 1900)"
    using assms(4,5) y month_days_ad [OF y(1,2)] by (auto simp: date_at_def valid_date_def add.commute)
  show ?thesis
  proof (cases "valid_date ?dt")
    case False
    then have "g_date_new_dmy g mday ?m ?y = None" using new [of mday] by (simp add: date_at_def)
    moreover have "g_date_add_months g None k = None" "g_date_subtract_months g None k = None" "g_date_days_between g z None = 0" for k z
      using assms(1) unfolding gregorian_lib_def by blast+
    ultimately show ?thesis using False assms(5,6) y(3) unfolding md
      by (simp add: mk_integral_tm_day_def midnight_def Let_def)
  next
    case True
    then obtain z where z: "g_date_new_dmy g mday ?m ?y = Some z" "dmy z = ?dt" using new [of mday] by (auto simp: date_at_def)
    have v: "valid_date (shift_months n ?dt)" using shift_valid [of ?dt n] assms(5,7,8) by (simp add: date_at_def)
    define z' where "z' = (if n > 0 then g_date_add_months g (Some z) n else if n < 0 then g_date_subtract_months g (Some z) (- n) else Some z)"
    have "map_option dmy z' = Some (shift_months n ?dt)"
    proof -
      have "map_option dmy (g_date_add_months g (Some z) n) = Some (shift_months n ?dt)" if "0 < n"
        using that assms(1) v z(2) unfolding gregorian_lib_def by metis
      moreover have "map_option dmy (g_date_subtract_months g (Some z) (- n)) = Some (shift_months (- (- n)) ?dt)" if "n < 0"
      proof -
        have "0 < - n" "valid_date (shift_months (- (- n)) (dmy z))" using that v z(2) by simp_all
        then show ?thesis using assms(1) z(2) unfolding gregorian_lib_def by metis
      qed
      ultimately show ?thesis using shift_0 [OF True] z(2) by (auto simp: z'_def)
    qed
    then obtain w where w: "z' = Some w" "dmy w = shift_months n ?dt" by auto
    have "g_date_days_between g (Some x) (Some w) = day_number (dmy w) - day_number (dmy x)"
      using assms(1) unfolding gregorian_lib_def by blast
    also have "\<dots> = days"
      using day_number_ad [OF assms(7,8)] day_number_ad [of ?now] shift_ad [OF assms(7,8)] y by (simp add: w x days_def date_at_def)
    finally have b: "g_date_days_between g (Some x) z' = days" by (simp add: w)
    have "mk_integral_tm_day g mktime t mday n =
      (let days = g_date_days_between g (Some x) z' in
       if days * 86400 < - (2 ^ 31) \<or> days * 86400 \<ge> 2 ^ 31 then None else Some (mktime (midnight t) + days * 86400))"
      using assms(5,6) y(3) x(1) z(1) by (simp add: mk_integral_tm_day_def midnight_def z'_def Let_def)
    moreover have "\<not> (days * 86400 < - (2 ^ 31) \<or> days * 86400 \<ge> 2 ^ 31)" using assms(10) by auto
    ultimately show ?thesis using True unfolding md b Let_def by (simp only: if_True if_False)
  qed
qed

text \<open>
  C35: with a GLib that does what it documents, let the current year and the year asked for lie
  between 2001 and 2299 and the day asked for be at most 24855 days away. If the current month has
  the day of the month that is given, \<open>mk_integral_tm_day\<close> adds to the midnight of the
  current day as many times 86400 seconds as the day asked for, that many months away, is days away
  (or the last day of its month, when that is too short). In a zone whose clocks never change, and
  with no summer time given, that is the midnight of the day asked for. If the current month has no
  such day, it gives the midnight of the current day.
\<close>

theorem month_day_midnight:
  assumes "gregorian_lib g dmy" "101 \<le> tm_year t" "tm_year t \<le> 399" "valid_date (date_at (int (tm_mday t)) t)" "0 < mday" "mday < 32"
    and "101 \<le> snd (snd (shift_months n (date_at mday t)))" "snd (snd (shift_months n (date_at mday t))) \<le> 399"
    and "\<bar>day_number (shift_months n (ad (date_at mday t))) - day_number (date_of_tm t)\<bar> \<le> 24855"
  shows "if mday \<le> month_days (int (tm_mon t) + 1) (int (tm_year t) + 1900)
    then mk_integral_tm_day g mktime t mday n =
        Some (mktime (midnight t) + (day_number (shift_months n (ad (date_at mday t))) - day_number (date_of_tm t)) * 86400) \<and>
      (steady_zone mktime off \<and> tm_isdst t = 0 \<longrightarrow>
        mk_integral_tm_day g mktime t mday n = Some (mktime (midnight_of (shift_months n (ad (date_at mday t))) t)))
    else mk_integral_tm_day g mktime t mday n = Some (mktime (midnight t))"
proof -
  note s = month_day_seconds [OF assms(1-8) assms(9) [unfolded date_of_tm_def], of mktime]
  let ?dt = "shift_months n (date_at mday t)"
  have e: "shift_months n (ad (date_at mday t)) = ad ?dt" by (rule shift_ad [OF assms(7,8)])
  have v: "valid_date (ad ?dt)" "valid_date (date_of_tm t)" "1900 \<le> snd (snd (ad ?dt))"
    using valid_ad [OF assms(7,8)] shift_valid [of "date_at mday t" n] valid_ad [of "date_at (int (tm_mday t)) t"] assms(2-8)
    by (auto simp: date_of_tm_def date_at_def ad_def split: prod.splits)
  show ?thesis using s steady_days [OF _ v(2,1,3), of mktime off] by (simp add: e date_of_tm_def)
qed

text \<open>The example of the header: the 15th of the next month, seen from the 16th of December 2008.\<close>

definition greg :: "date gdate_lib" where
  "greg = \<lparr>g_date_new_dmy = \<lambda>d m y. if valid_date (d, m, y) then Some (d, m, y) else None,
     g_date_add_months = \<lambda>x n. map_option (shift_months n) x, g_date_subtract_months = \<lambda>x n. map_option (shift_months (- n)) x,
     g_date_days_between = \<lambda>x y. case x of None \<Rightarrow> 0 | Some a \<Rightarrow> (case y of None \<Rightarrow> 0 | Some b \<Rightarrow> day_number b - day_number a)\<rparr>"

lemma greg_gregorian: "gregorian_lib greg (\<lambda>x. x)"
  by (simp add: gregorian_lib_def greg_def split: option.splits)

definition header_example :: dst_tm where
  "header_example = \<lparr>tm_year = 108, tm_mon = 11, tm_mday = 16, tm_hour = 16, tm_min = 10, tm_sec = 25, tm_yday = 350, tm_isdst = 0\<rparr>"

lemmas calendar_defs = shift_months_def month_at_def month_days_def leap_def day_number_def ad_def date_at_def valid_date_def

definition beijing :: "dst_tm \<Rightarrow> int" where
  "beijing t = (day_number (date_of_tm t) - 719163) * 86400 + int (tm_hour t) * 3600 + int (tm_min t) * 60 + int (tm_sec t) - 28800"

theorem month_day_midnight_witness:
  "mk_integral_tm_day greg beijing header_example 15 1 = Some (beijing (midnight_of (15, 1, 2009) header_example))"
proof -
  have d: "day_number (15, 1, 2009) - day_number (date_of_tm header_example) = 30"
    by (simp add: calendar_defs date_of_tm_def header_example_def upto.simps)
  have z: "steady_zone beijing 28800" by (simp add: steady_zone_def beijing_def)
  have t: "shift_months 1 (ad (date_at 15 header_example)) = (15, 1, 2009)"
    by (simp add: calendar_defs header_example_def)
  show ?thesis
    using month_day_midnight [OF greg_gregorian, of header_example 15 1 beijing 28800] z unfolding t d
    by (simp add: calendar_defs header_example_def) (metis option.inject)
qed

text \<open>In the year 2000, which the code takes for the year 100, February has no 29th day.\<close>

theorem leap_day_lost:
  assumes "gregorian_lib g dmy" "tm_year t = 100" "tm_mon t = 1" "1 \<le> tm_mday t" "tm_mday t \<le> 28"
  shows "mk_integral_tm_day g mktime t 1 1 =
    Some (mktime (midnight t) + (day_number (1, 3, 2000) - day_number (int (tm_mday t), 2, 2000) - 1) * 86400)"
proof -
  let ?d = "int (tm_mday t)"
  have new: "map_option dmy (g_date_new_dmy g d 2 100) = (if valid_date (d, 2, 100) then Some (d, 2, 100) else None)" for d
    using assms(1) unfolding gregorian_lib_def by blast
  obtain x where x: "g_date_new_dmy g ?d 2 100 = Some x" "dmy x = (?d, 2, 100)"
    using new [of ?d] assms(4,5) by (auto simp: valid_date_def month_days_def leap_def)
  obtain z where z: "g_date_new_dmy g 1 2 100 = Some z" "dmy z = (1, 2, 100)"
    using new [of 1] by (auto simp: valid_date_def month_days_def leap_def)
  have s: "shift_months 1 (1, 2, 100) = (1, 3, 100)" by (simp add: shift_months_def month_at_def month_days_def)
  have "valid_date (shift_months 1 (dmy z))" unfolding z(2) s by (simp add: valid_date_def month_days_def)
  moreover have "\<forall>x n. 0 < n \<longrightarrow> valid_date (shift_months n (dmy x)) \<longrightarrow> map_option dmy (g_date_add_months g (Some x) n) = Some (shift_months n (dmy x))"
    using assms(1) unfolding gregorian_lib_def by blast
  ultimately have "map_option dmy (g_date_add_months g (Some z) 1) = Some (shift_months 1 (dmy z))" by simp
  then obtain w where w: "g_date_add_months g (Some z) 1 = Some w" "dmy w = (1, 3, 100)" unfolding z(2) s by auto
  have "g_date_days_between g (Some x) (Some w) = day_number (dmy w) - day_number (dmy x)"
    using assms(1) unfolding gregorian_lib_def by blast
  also have "\<dots> = day_number (1, 3, 2000) - day_number (?d, 2, 2000) - 1"
    unfolding w x by (simp add: day_number_def month_days_def leap_def upto.simps)
  finally have b: "g_date_days_between g (Some x) (Some w) = day_number (1, 3, 2000) - day_number (?d, 2, 2000) - 1" .
  moreover have "day_number (1, 3, 2000) - day_number (?d, 2, 2000) = 30 - ?d"
    by (simp add: day_number_def month_days_def leap_def upto.simps)
  ultimately show ?thesis using assms(2-5) x(1) z(1) w(1)
    by (simp add: mk_integral_tm_day_def midnight_def Let_def)
qed

text \<open>Random numbers stay in their range and reach each number of it.\<close>

lemma ranged_random_range:
  assumes "0 \<le> rand" "mini \<le> maxi" "maxi - mini < 2 ^ 31 - 1"
  shows "\<exists>r. ranged_random rand mini maxi = Some r \<and> mini \<le> r \<and> r \<le> maxi"
proof -
  have "c_rem rand (maxi - mini + 1) = rand mod (maxi - mini + 1)" using assms(1,2) by (auto simp: c_rem_def sgn_if)
  moreover have "0 \<le> rand mod (maxi - mini + 1)" "rand mod (maxi - mini + 1) \<le> maxi - mini"
    using assms(2) pos_mod_bound [of "maxi - mini + 1" rand] by simp_all
  ultimately show ?thesis using assms(2,3) by (simp add: ranged_random_def Let_def)
qed

lemma ranged_random_onto:
  assumes "mini \<le> r" "r \<le> maxi" "maxi - mini < 2 ^ 31 - 1"
  shows "ranged_random (r - mini) mini maxi = Some r"
  using assms by (auto simp: ranged_random_def c_rem_def sgn_if Let_def)

end
