(* ===== verification/Spec2Isabelle.thy ===== *)
theory Spec2Isabelle
  imports LinkedList ShmQueue QDes DaemonProps TimerProps AttrRun Session BitManip BinStr IpAddr
    LogProps TlogProps UdpProps TlogMacros CtrlProps TmShm
    AcsmMap Mcast SemLock FileLock Atomic MsgLog DebugMem MonthDay
begin

text \<open>
  A verification development of libtaomee, a C library for game servers.

  \<^bold>\<open>The parts of the program and where they are modelled.\<close> Each theory names the files it
  translates; a definition has the name of the C function, type or constant it stands for, and
  loops of a function are definitions of their own with a name that says so.

  \<^item> \<open>Prelude\<close>, \<open>Memory\<close>: machine integers as words, C truth values, option-valued results, a
    byte memory with little-endian loads and stores. Every theory rests on these.
  \<^item> \<open>LinkedList\<close> (\<open>list.h\<close>): the intrusive doubly linked ring. Nodes are addresses in a heap of
    \<open>next\<close> and \<open>prev\<close> fields; all operations and the loop macros are definitions. Lemmas: the
    ring invariant \<open>dlist\<close>, what each operation does to it, and that a program of operations
    refines operations on lists. \<open>Timer\<close> works on the same heap.
  \<^item> \<open>ShmQueue\<close> (\<open>interprocess/shmq.[ch]\<close>): the circular queue between a writing and a reading
    process. The head the writer polls is a sequence of observed values, so every interleaving
    with the reader is covered. Lemmas: the layout invariant, refinement of a list of
    messages, progress after draining.
  \<^item> \<open>QDesTables\<close>, \<open>QDes\<close> (\<open>crypt/qdes.[ch]\<close>): DES with its tables, key schedule and codebook mode.
    Lemmas: each round and permutation is undone by its counterpart, hence the round trips.
    \<open>Session\<close> (\<open>project/utilities.h\<close>) encrypts login sessions with it.
  \<^item> \<open>Config\<close> (\<open>conf_parser/config.[ch]\<close>, \<open>hash_algo.h\<close>): a chained hash table of settings, the file
    parser, appending and updating, the dump iterator. Lemmas: the table refines an
    association list that keeps one value per name, and parsing refines a specification over
    the lines of the file.
  \<^item> \<open>Utf8Punc\<close> (\<open>tm_dirty/utf8_punc.[ch]\<close>) and \<open>Acsm\<close>, \<open>SuffixSet\<close>, \<open>AcsmTrie\<close>, \<open>AcsmDfa\<close>, \<open>AcsmSearch\<close>,
    \<open>AcsmReplace\<close>, \<open>AcsmMask\<close> (\<open>tm_dirty/acsm.[ch]\<close>): the dirty-word matcher. Patterns and texts go through
    the punctuation filter; the patterns are compiled to an Aho-Corasick automaton. \<open>SuffixSet\<close>
    is the theory of longest suffixes in a prefix-closed set; \<open>AcsmTrie\<close> shows that the first
    phase builds the trie of the patterns, \<open>AcsmDfa\<close> that the second computes the automaton of
    longest suffixes, \<open>AcsmSearch\<close> and \<open>AcsmReplace\<close> what searching and replacing therefore do;
    \<open>AcsmMask\<close> shows which bytes the replacement covers; \<open>AcsmMap\<close> is the mapping the tables lie in.
  \<^item> \<open>DirtyFile\<close>, \<open>DirtyService\<close>, \<open>DirtyReach\<close>, \<open>DirtyProps\<close> (\<open>tm_dirty/tm_dirty.[ch]\<close>): the service on
    top of the matcher. \<open>DirtyFile\<close> reads the words of a file and shows which words those are;
    \<open>DirtyService\<close> has the two machines, loading, attaching and every query; \<open>DirtyReach\<close> the step
    relation \<open>dirty_reach\<close> in which an update and the calls of other processes interleave, and its
    invariant; \<open>DirtyProps\<close> the properties. \<open>DirtyUpdate\<close> is the download of a new file from a server,
    \<open>DirtyFetch\<close> shows that it ends, what it installs and what it leaves alone; \<open>DirtyDaemon\<close> and
    \<open>DaemonProps\<close> start the updating process from a list of servers. The invariant rests on \<open>automaton_ok\<close> of \<open>AcsmSearch\<close>.
  \<^item> \<open>SockIo\<close> (\<open>inet/tcp.[ch]\<close>, \<open>inet/inet_utils.[ch]\<close>): exact reads and writes over a socket, opening
    sockets and the descriptors that stay open. The download reads its packets with it. \<open>Mcast\<close>
    (\<open>inet/mcast.[ch]\<close>): sockets for multicast and their options.
  \<^item> \<open>Timer\<close> (\<open>timer.[ch]\<close>): second timers in five buckets by distance from now, and microsecond
    timers. \<open>TimerShape\<close> holds the invariant of the rings, \<open>TimerScan\<close>, \<open>TimerMicro\<close> and
    \<open>TimerOps\<close> the effect of scanning and of each call, \<open>TimerRun\<close> the step relation
    \<open>timers_reach\<close> and its invariant, \<open>TimerProps\<close> the properties.
  \<^item> \<open>HashTable\<close>, \<open>Shm\<close>, \<open>AttrApi\<close>, \<open>KeyTable\<close>, \<open>AttrRun\<close> (\<open>attr_api\<close>): counters in a multi-row hash
    table in shared memory. \<open>HashTable\<close> has the layout of an initialised table, bounds, walking
    and lookups; \<open>KeyTable\<close> is the contract between a table of nodes and its client; \<open>AttrRun\<close>
    shows that counters refine a map.
  \<^item> \<open>BitManip\<close> (\<open>bitmanip/bitmanip.h\<close>), \<open>BinStr\<close> (\<open>dataformatter/bin_str.h\<close>), \<open>IpAddr\<close>
    (\<open>inet/ipaddr_cat.h\<close>): bit sets, hexadecimal text, address classes.

  \<^item> \<open>Files\<close>: decimal fields, broken-down time, and a file system of paths, inodes and
    descriptors, for the two logging libraries. \<open>LogFile\<close>, \<open>LogProps\<close> (\<open>log.c\<close>): nine files, one per
    level, shifted by size, day or interval, with the invariant that the files of a day hold its lines
    in order. \<open>FileUtils\<close> (\<open>tlog/fileutils.c\<close>): a directory with its parents is made. \<open>Tlog\<close>,
    \<open>TlogMacros\<close>, \<open>TlogProps\<close> (\<open>tlog/tlog.c\<close>, \<open>tlog/tlog_macros.h\<close>): the newer logger, over both; its
    invariant \<open>tlog_ok\<close> says that each level has a descriptor of its own. \<open>TlogNet\<close>, \<open>UdpProps\<close>
    (\<open>tlog/netutils.c\<close>): lines sent over UDP at a limited rate, the traced users and the packets
    that control both. \<open>CtrlTlog\<close>, \<open>CtrlProps\<close> (\<open>tlog/tools/svc.c\<close>, \<open>tlog/tools/ctrl_tlog.c\<close>): the
    command that sends these packets, and the table of services it looks its target up in.
  \<^item> \<open>TmShm\<close> (\<open>tm_shm/tm_shm.c\<close>): segments again, with the processes of \<open>Shm\<close>, and tables in a
    mapped file that are updated from its second half.

  \<^item> \<open>SemLock\<close> (\<open>interprocess/lock.c\<close>): the lock between processes, with the step relation
    \<open>lock_step\<close> and its invariant. \<open>FileLock\<close> (\<open>interprocess/filelock.h\<close>): locks on parts of a file, over
    the table of locks the kernel keeps. \<open>Atomic\<close> (\<open>atomic.h\<close>): shared counters, and references counted with
    them. \<open>MsgLog\<close> (\<open>project/stat_agent/msglog.c\<close>): records appended to a file and read back.
    \<open>DebugMem\<close> (\<open>debug/debug_mem.c\<close>): the memory of a process from the text the kernel shows.
    \<open>MonthDay\<close> (\<open>time/time.[ch]\<close>, \<open>random/random.h\<close>): midnights some months away against the calendar.

  \<^bold>\<open>Interfaces.\<close> Every contract between components is a locale interpreted on the model's
  own definitions: \<open>block_cipher\<close> (codebook mode over DES in either direction), \<open>key_table\<close>
  (the counters over the nodes of the segment), \<open>bit_store\<close> (arrays and numbers as sets of
  positions), and those of \<open>LinkedList\<close> and \<open>ShmQueue\<close>.

  \<^bold>\<open>Errors and partiality.\<close> What stops the C program (a failed assertion, an access through a bad
  pointer, a division by 0, an undefined shift, signed overflow of a counter) is \<open>None\<close>; error
  returns are the numbers the code returns. A loop that is bounded by construction is
  structural recursion over the bound. Loops over linked rings, whose bodies may change the
  ring, are partial functions, and so is walking through a table: that they return is part of the theorems
  (\<open>timers_never_stuck\<close>, \<open>hash_table_walk_visits_all\<close>, the list programs). No theorem is
  conditional on fuel.

  \<^bold>\<open>Conditions.\<close> The block before a property names the conditions it is proved under. Those that
  several share: the callbacks of timers leave the timers alone; files of words hold no null byte,
  and no line begins with 0xFF after its blanks (\<open>line_ok\<close> of \<open>DirtyFile\<close>); a system call fails only
  where a property says so. Cases that are left out because the code goes wrong in them have
  theorems of their own: \<open>nul_line_matches_all\<close> and \<open>dirty_load_hangs\<close> of \<open>DirtyProps\<close>,
  \<open>long_path_loses_file\<close> of \<open>DirtyFetch\<close>, \<open>scan_leaves_its_bucket\<close> of \<open>TimerProps\<close>, \<open>same_yday_same_file\<close>
  of \<open>LogProps\<close>, \<open>attr_empty_key_exists\<close> and \<open>attr_small_segment_accepted\<close> of \<open>AttrRun\<close>,
  \<open>msglog_full_disk\<close> of \<open>MsgLog\<close> and \<open>leap_day_lost\<close> of \<open>MonthDay\<close>.

  \<^bold>\<open>Parameters.\<close> System calls, the Lua interpreter, \<open>inet_pton\<close>, the clock and the callbacks of
  timers are arguments of the definitions that use them.

  \<^bold>\<open>Not modelled.\<close> The vendored Lua interpreter and the generated documentation; sample clients and
  test programs; the usage texts of \<open>tlog/tools\<close>; the formatting of \<open>printf\<close>, whose text is an
  argument; the macros of \<open>log.h\<close> and \<open>log_old.h\<close>, which only name a level of \<open>write_log\<close>.
\<close>

end
